(* ===== verification/Wd_Prelude.thy ===== *)
theory Wd_Prelude
  imports Main "HOL-Library.Word" "HOL-Library.Multiset"
begin

unbundle bit_operations_syntax

text \<open>
  The vocabulary the component theories share.

  \<^item> A \<open>QString\<close> or \<open>QStringView\<close> is the list of its UTF-16 code units, each a natural number
    (\<open>qchar\<close>, \<open>qstring\<close>); \<open>qs ''abc''\<close> is a literal. Every string of the program is such a list,
    and the theorems hold for all of them.
  \<^item> The string operations of Qt the program uses (\<open>indexOf\<close>, \<open>mid\<close>, \<open>left\<close>, \<open>trimmed\<close>,
    \<open>split\<close>, \<open>number\<close>) are defined here with their documented meaning; \<open>left n\<close> is \<open>take n\<close>,
    \<open>mid n\<close> is \<open>drop n\<close>, and an index that Qt reports as -1 is \<open>None\<close>.
  \<^item> \<open>transition_system\<close> is the interface every state machine of the development
    implements: an initial condition, a step relation and an invariant.
\<close>

named_theorems text_simps \<open>how the string operations act on concatenations\<close>

named_theorems machine_defs \<open>the definitions a state machine proof unfolds\<close>

subsection \<open>Characters and strings\<close>

type_synonym qchar = nat

type_synonym qstring = "qchar list"

abbreviation qs :: "string \<Rightarrow> qstring" where
  "qs s \<equiv> map of_char s"

abbreviation (input) u_lf :: qchar where "u_lf \<equiv> 10"
abbreviation (input) u_space :: qchar where "u_space \<equiv> 32"
abbreviation (input) u_dquote :: qchar where "u_dquote \<equiv> 34"
abbreviation (input) u_hash :: qchar where "u_hash \<equiv> 35"
abbreviation (input) u_percent :: qchar where "u_percent \<equiv> 37"
abbreviation (input) u_squote :: qchar where "u_squote \<equiv> 39"
abbreviation (input) u_comma :: qchar where "u_comma \<equiv> 44"
abbreviation (input) u_dash :: qchar where "u_dash \<equiv> 45"
abbreviation (input) u_dot :: qchar where "u_dot \<equiv> 46"
abbreviation (input) u_slash :: qchar where "u_slash \<equiv> 47"
abbreviation (input) u_0 :: qchar where "u_0 \<equiv> 48"
abbreviation (input) u_9 :: qchar where "u_9 \<equiv> 57"
abbreviation (input) u_colon :: qchar where "u_colon \<equiv> 58"
abbreviation (input) u_semicolon :: qchar where "u_semicolon \<equiv> 59"
abbreviation (input) u_lbracket :: qchar where "u_lbracket \<equiv> 91"
abbreviation (input) u_rbracket :: qchar where "u_rbracket \<equiv> 93"
abbreviation (input) u_bar :: qchar where "u_bar \<equiv> 124"

text \<open>\<open>QChar::isSpace\<close>: the Unicode separators and the control characters tab to carriage return,
  plus U+0085.\<close>

definition isSpace :: "qchar \<Rightarrow> bool" where
  "isSpace c \<longleftrightarrow> (9 \<le> c \<and> c \<le> 13) \<or> c = 32 \<or> c = 133 \<or> c = 160 \<or> c = 5760
     \<or> (8192 \<le> c \<and> c \<le> 8202) \<or> c = 8232 \<or> c = 8233 \<or> c = 8239 \<or> c = 8287 \<or> c = 12288"

definition isDigit :: "qchar \<Rightarrow> bool" where
  "isDigit c \<longleftrightarrow> u_0 \<le> c \<and> c \<le> u_9"

definition trimmed :: "qstring \<Rightarrow> qstring" where
  "trimmed s = rev (dropWhile isSpace (rev (dropWhile isSpace s)))"

text \<open>\<open>QString::simplified\<close>: trimmed, and each run of white space inside is one space.\<close>

fun collapseSpaces :: "qstring \<Rightarrow> qstring" where
  "collapseSpaces (x # y # zs) =
     (if isSpace x \<and> isSpace y then collapseSpaces (y # zs)
      else (if isSpace x then u_space else x) # collapseSpaces (y # zs))"
| "collapseSpaces [x] = [if isSpace x then u_space else x]"
| "collapseSpaces [] = []"

definition simplified :: "qstring \<Rightarrow> qstring" where
  "simplified s = collapseSpaces (trimmed s)"

fun indexOf :: "qchar \<Rightarrow> qstring \<Rightarrow> nat option" where
  "indexOf c [] = None"
| "indexOf c (x # xs) = (if x = c then Some 0 else map_option Suc (indexOf c xs))"

fun indexOf2 :: "qchar \<Rightarrow> qchar \<Rightarrow> qstring \<Rightarrow> nat option" where
  "indexOf2 a b (x # y # zs) = (if x = a \<and> y = b then Some 0 else map_option Suc (indexOf2 a b (y # zs)))"
| "indexOf2 a b _ = None"

text \<open>\<open>QString::indexOf\<close> and \<open>contains\<close> of a string.\<close>

fun indexOfStr :: "qstring \<Rightarrow> qstring \<Rightarrow> nat option" where
  "indexOfStr sub [] = (if sub = [] then Some 0 else None)"
| "indexOfStr sub (x # xs) = (if take (length sub) (x # xs) = sub then Some 0 else map_option Suc (indexOfStr sub xs))"

definition containsStr :: "qstring \<Rightarrow> qstring \<Rightarrow> bool" where
  "containsStr sub s \<longleftrightarrow> indexOfStr sub s \<noteq> None"

definition lastIndexOf :: "qchar \<Rightarrow> qstring \<Rightarrow> nat option" where
  "lastIndexOf c s = map_option (\<lambda>k. length s - 1 - k) (indexOf c (rev s))"

definition startsWith :: "qchar \<Rightarrow> qstring \<Rightarrow> bool" where
  "startsWith c s \<longleftrightarrow> (case s of [] \<Rightarrow> False | x # _ \<Rightarrow> x = c)"

definition endsWith :: "qchar \<Rightarrow> qstring \<Rightarrow> bool" where
  "endsWith c s \<longleftrightarrow> startsWith c (rev s)"

text \<open>\<open>QString::split(c)\<close>: always at least one part, empty parts kept.\<close>

fun qsplit :: "qchar \<Rightarrow> qstring \<Rightarrow> qstring list" where
  "qsplit c [] = [[]]"
| "qsplit c (x # xs) =
     (if x = c then [] # qsplit c xs
      else case qsplit c xs of [] \<Rightarrow> [[x]] | p # ps \<Rightarrow> (x # p) # ps)"

fun qjoin :: "qstring \<Rightarrow> qstring list \<Rightarrow> qstring" where
  "qjoin sep [] = []"
| "qjoin sep [x] = x"
| "qjoin sep (x # y # zs) = x @ sep @ qjoin sep (y # zs)"

text \<open>\<open>QString::number(n, base)\<close> for a non-negative number, lower-case digits.\<close>

definition digitChar :: "nat \<Rightarrow> qchar" where
  "digitChar d = (if d < 10 then 48 + d else 87 + d)"

function number_base :: "nat \<Rightarrow> nat \<Rightarrow> qstring" where
  "number_base b n =
     (if b < 2 \<or> n < b then [digitChar n] else number_base b (n div b) @ [digitChar (n mod b)])"
  by pat_completeness auto
termination
  by (relation "measure snd") auto

declare number_base.simps [simp del]

abbreviation number :: "nat \<Rightarrow> qstring" where
  "number n \<equiv> number_base 10 n"

subsection \<open>Lemmas on the string operations\<close>

lemma isSpace_simps [simp]:
  "isSpace 32" "\<not> isSpace 46" "\<not> isSpace 47" "\<not> isSpace 58" "\<not> isSpace 91" "\<not> isSpace 93"
  "\<not> isSpace 45" "\<not> isSpace 44" "\<not> isSpace 37"
  by (simp_all add: isSpace_def)

lemma isDigit_not_space: "isDigit c \<Longrightarrow> \<not> isSpace c"
  by (simp add: isDigit_def isSpace_def)

lemma indexOf_None: "indexOf c s = None \<longleftrightarrow> c \<notin> set s"
  by (induction s) auto

lemma indexOf_notin [simp]: "c \<notin> set s \<Longrightarrow> indexOf c s = None"
  by (simp add: indexOf_None)

lemma indexOf_append: "c \<notin> set xs \<Longrightarrow> indexOf c (xs @ ys) = map_option ((+) (length xs)) (indexOf c ys)"
proof (induction xs)
  case Nil
  then show ?case by (cases "indexOf c ys") auto
next
  case (Cons x xs)
  then show ?case by (cases "indexOf c ys") auto
qed

lemma indexOf_append_hit [text_simps]: "c \<notin> set xs \<Longrightarrow> indexOf c (xs @ c # ys) = Some (length xs)"
  by (simp add: indexOf_append)

lemma indexOf_Some:
  "indexOf c s = Some k \<longleftrightarrow> k < length s \<and> s ! k = c \<and> c \<notin> set (take k s)"
proof (induction s arbitrary: k)
  case Nil
  then show ?case by simp
next
  case (Cons x xs)
  show ?case by (cases k) (auto simp: Cons)
qed

lemma indexOf_less: "indexOf c s = Some k \<Longrightarrow> k < length s"
  by (simp add: indexOf_Some)

lemma indexOf_decompose: "indexOf c t = Some k \<Longrightarrow> t = take k t @ c # drop (k + 1) t \<and> c \<notin> set (take k t)"
  by (auto simp: indexOf_Some id_take_nth_drop [symmetric])

lemma first_split_unique:
  fixes c :: qchar
  assumes "l @ c # r = l' @ c # r'" "c \<notin> set l" "c \<notin> set l'"
  shows "l = l' \<and> r = r'"
proof -
  have "indexOf c (l @ c # r) = Some (length l)" "indexOf c (l' @ c # r') = Some (length l')"
    by (rule indexOf_append_hit, rule assms)+
  with assms show ?thesis by simp
qed

lemma dropWhile_id: "(\<forall>c \<in> set s. \<not> P c) \<Longrightarrow> dropWhile P s = s"
  by (cases s) auto

lemma trimmed_id: "(\<forall>c \<in> set s. \<not> isSpace c) \<Longrightarrow> trimmed s = s"
  by (simp add: trimmed_def dropWhile_id)

lemma trimmed_ends:
  "s = [] \<or> (\<not> isSpace (hd s) \<and> \<not> isSpace (last s)) \<Longrightarrow> trimmed s = s"
proof (cases s rule: rev_cases)
  case Nil
  then show ?thesis by (simp add: trimmed_def)
next
  case (snoc ys y)
  assume "s = [] \<or> (\<not> isSpace (hd s) \<and> \<not> isSpace (last s))"
  with snoc have h: "\<not> isSpace (hd s)" and l: "\<not> isSpace y" and "s \<noteq> []" by auto
  from h \<open>s \<noteq> []\<close> have "dropWhile isSpace s = s" by (cases s) auto
  with l snoc show ?thesis by (simp add: trimmed_def)
qed

lemma set_trimmed: "set (trimmed s) \<subseteq> set s"
  by (auto simp: trimmed_def dest!: set_dropWhileD)

lemma trimmed_trimmed [simp]: "trimmed (trimmed s) = trimmed s"
proof (cases "trimmed s = []")
  case True
  then show ?thesis by (simp only:) (simp add: trimmed_def)
next
  case False
  have "\<not> isSpace (last (trimmed s))"
    using False hd_dropWhile [of isSpace "rev (dropWhile isSpace s)"]
    by (auto simp: trimmed_def last_rev)
  moreover have "\<not> isSpace (hd (trimmed s))"
  proof -
    define t where "t = dropWhile isSpace s"
    obtain ws where ws: "t = trimmed s @ ws"
      using takeWhile_dropWhile_id [of isSpace "rev t"]
      by (metis rev_append rev_rev_ident t_def trimmed_def)
    with False have "hd (trimmed s) = hd t" by simp
    moreover have "\<not> isSpace (hd t)"
      using ws False hd_dropWhile [of isSpace s] by (auto simp: t_def)
    ultimately show ?thesis by simp
  qed
  ultimately show ?thesis by (intro trimmed_ends) simp
qed

lemma dropWhile_all_append: "(\<forall>c \<in> set xs. P c) \<Longrightarrow> dropWhile P (xs @ ys) = dropWhile P ys"
  by (induction xs) auto

lemma trimmed_blank: "(\<forall>c \<in> set s. isSpace c) \<Longrightarrow> trimmed s = []"
  by (auto simp: trimmed_def dest: set_dropWhileD)

lemma trimmed_Nil [simp]: "trimmed [] = []"
  by (simp add: trimmed_def)

lemma trimmed_decompose:
  "\<exists>pre post. s = pre @ trimmed s @ post \<and> (\<forall>c \<in> set pre \<union> set post. isSpace c)"
proof -
  define t where "t = dropWhile isSpace s"
  have "s = takeWhile isSpace s @ t" by (simp add: t_def)
  moreover have "t = trimmed s @ rev (takeWhile isSpace (rev t))"
    by (metis rev_append rev_rev_ident t_def takeWhile_dropWhile_id trimmed_def)
  ultimately have "s = takeWhile isSpace s @ trimmed s @ rev (takeWhile isSpace (rev t))" by (metis append.assoc)
  then show ?thesis by (intro exI [of _ "takeWhile isSpace s"] exI [of _ "rev (takeWhile isSpace (rev t))"])
      (auto dest: set_takeWhileD)
qed

text \<open>White space around a text does not change what \<open>trimmed\<close> returns.\<close>

lemma trimmed_padded:
  assumes "\<forall>c \<in> set pre \<union> set post. isSpace c"
  shows "trimmed (pre @ s @ post) = trimmed s"
proof (cases "\<forall>c \<in> set s. isSpace c")
  case True
  then have "\<forall>c \<in> set (pre @ s @ post). isSpace c" using assms by auto
  then show ?thesis using True by (simp only: trimmed_blank)
next
  case False
  then have "dropWhile isSpace (s @ post) = dropWhile isSpace s @ post" by auto
  moreover have "dropWhile isSpace (pre @ s @ post) = dropWhile isSpace (s @ post)"
    using assms by (intro dropWhile_all_append) auto
  moreover have "dropWhile isSpace (rev post @ xs) = dropWhile isSpace xs" for xs
    using assms by (intro dropWhile_all_append) auto
  ultimately show ?thesis by (simp add: trimmed_def)
qed

lemma startsWith_simps [simp]:
  "\<not> startsWith c []" "startsWith c (x # xs) \<longleftrightarrow> x = c"
  by (simp_all add: startsWith_def)

lemma startsWith_in_set: "startsWith c s \<Longrightarrow> c \<in> set s"
  by (cases s) auto

lemma endsWith_snoc [simp]: "endsWith c (xs @ [x]) \<longleftrightarrow> x = c"
  by (simp add: endsWith_def)

lemma endsWith_in_set: "endsWith c s \<Longrightarrow> c \<in> set s"
  using startsWith_in_set [of c "rev s"] by (simp add: endsWith_def)

lemma qsplit_nonempty [simp]: "qsplit c s \<noteq> []"
  by (induction s) (auto split: list.splits)

subsection \<open>Numbers as text\<close>

lemma number_base_nonempty [simp]: "number_base b n \<noteq> []"
  by (subst number_base.simps) simp

text \<open>The value a digit string denotes.\<close>

definition digitVal :: "qchar \<Rightarrow> nat" where
  "digitVal c = (if c \<le> 57 then c - 48 else c - 87)"

lemma digitVal_digitChar [simp]: "digitVal (digitChar d) = d"
  by (simp add: digitVal_def digitChar_def)

definition value_base :: "nat \<Rightarrow> qstring \<Rightarrow> nat" where
  "value_base b s = foldl (\<lambda>v c. v * b + digitVal c) 0 s"

lemma value_base_snoc: "value_base b (s @ [c]) = value_base b s * b + digitVal c"
  by (simp add: value_base_def)

lemma value_number_base: "2 \<le> b \<Longrightarrow> value_base b (number_base b n) = n"
proof (induction b n rule: number_base.induct)
  case (1 b n)
  show ?case
  proof (cases "n < b")
    case True
    then show ?thesis by (simp add: number_base.simps [of b n] value_base_def)
  next
    case False
    with 1 show ?thesis by (simp add: number_base.simps [of b n] value_base_snoc)
  qed
qed

lemma set_number_base:
  "2 \<le> b \<Longrightarrow> c \<in> set (number_base b n) \<Longrightarrow> \<exists>d < b. c = digitChar d"
proof (induction b n rule: number_base.induct)
  case step: (1 b n)
  show ?case
  proof (cases "n < b")
    case True
    with step show ?thesis by (auto simp: number_base.simps [of b n])
  next
    case False
    with step consider "c \<in> set (number_base b (n div b))" | "c = digitChar (n mod b)"
      by (auto simp: number_base.simps [of b n])
    then show ?thesis
    proof cases
      case 1
      with False step.IH step.prems show ?thesis by auto
    next
      case 2
      moreover have "n mod b < b" using step.prems by simp
      ultimately show ?thesis by blast
    qed
  qed
qed

lemma set_number_digits: "c \<in> set (number n) \<Longrightarrow> isDigit c"
  using set_number_base [of 10 c n] by (auto simp: isDigit_def digitChar_def)

lemma length_number_base: "2 \<le> b \<Longrightarrow> n < b ^ Suc k \<Longrightarrow> length (number_base b n) \<le> Suc k"
proof (induction b n arbitrary: k rule: number_base.induct)
  case (1 b n)
  show ?case
  proof (cases "n < b")
    case True
    then show ?thesis by (simp add: number_base.simps [of b n])
  next
    case False
    with 1 obtain k' where k: "k = Suc k'" by (cases k) auto
    have "n div b < b ^ Suc k'"
      using 1 k by (simp add: less_mult_imp_div_less mult.commute)
    with 1 False have "length (number_base b (n div b)) \<le> Suc k'" by auto
    with k False show ?thesis by (simp add: number_base.simps [of b n])
  qed
qed

lemma number_no_leading_zero:
  "2 \<le> b \<Longrightarrow> 0 < n \<Longrightarrow> hd (number_base b n) \<noteq> 48"
proof (induction b n rule: number_base.induct)
  case (1 b n)
  show ?case
  proof (cases "n < b")
    case True
    with 1 show ?thesis by (auto simp: number_base.simps [of b n] digitChar_def)
  next
    case False
    with 1 have "0 < n div b" by (simp add: div_greater_zero_iff)
    with 1 False have "hd (number_base b (n div b)) \<noteq> 48" by auto
    with False "1.prems" show ?thesis by (simp add: number_base.simps [of b n])
  qed
qed

lemma number_zero: "2 \<le> b \<Longrightarrow> number_base b 0 = [48]"
  by (simp add: number_base.simps digitChar_def)

text \<open>Printed numbers never start with a redundant zero.\<close>

lemma number_canonical: "2 \<le> b \<Longrightarrow> length (number_base b n) > 1 \<Longrightarrow> hd (number_base b n) \<noteq> 48"
  by (cases "n = 0") (simp_all add: number_zero number_no_leading_zero)

lemma number_inj: "number m = number n \<longleftrightarrow> m = n"
proof
  assume "number m = number n"
  then have "value_base 10 (number m) = value_base 10 (number n)" by simp
  then show "m = n" by (simp add: value_number_base)
qed simp

subsection \<open>Transition systems\<close>

text \<open>A run that makes progress on a measure ends.\<close>

lemma run_ends:
  fixes m :: "'s \<Rightarrow> nat"
  assumes "P s" "\<And>t. P t \<Longrightarrow> \<not> done t \<Longrightarrow> \<exists>t'. step t t' \<and> P t' \<and> m t' < m t"
  shows "\<exists>t. step\<^sup>*\<^sup>* s t \<and> P t \<and> done t"
  using assms(1)
proof (induction "m s" arbitrary: s rule: less_induct)
  case less
  show ?case
  proof (cases "done s")
    case False
    then obtain t where t: "step s t" "P t" "m t < m s" using assms(2) less.prems by blast
    then obtain u where "step\<^sup>*\<^sup>* t u" "P u" "done u" using less.hyps by blast
    with t(1) show ?thesis by (meson converse_rtranclp_into_rtranclp)
  qed (use less.prems in blast)
qed

locale transition_system =
  fixes init :: "'s \<Rightarrow> bool"
    and step :: "'s \<Rightarrow> 's \<Rightarrow> bool"
    and inv :: "'s \<Rightarrow> bool"
  assumes inv_init: "init s \<Longrightarrow> inv s"
    and inv_step: "inv s \<Longrightarrow> step s t \<Longrightarrow> inv t"
begin

lemma inv_run: "step\<^sup>*\<^sup>* s t \<Longrightarrow> inv s \<Longrightarrow> inv t"
  by (induction rule: rtranclp_induct) (auto intro: inv_step)

lemma inv_reachable: "init s \<Longrightarrow> step\<^sup>*\<^sup>* s t \<Longrightarrow> inv t"
  using inv_init inv_run by blast

end

end
