(* ===== verification/Ip_List_Addr.thy ===== *)
theory Ip_List_Addr
  imports Wd_Prelude
begin

unbundle bit_operations_syntax

text \<open>
  Addresses of the scanner's IP lists (\<^verbatim>\<open>src/src/scanner/IpListParse.cpp\<close>): reading decimal
  numbers, IPv4 and IPv6 literals, CIDR networks, and printing them back. An address is the code's
  pair of 64-bit halves; an IPv4 address lives in the low 32 bits of \<open>addr_lo\<close>. A function that
  returns false and leaves its output argument alone returns \<open>None\<close> here.

  The main results are the two round trips (\<open>ipListParseV4_format\<close>, \<open>ipListParseV6_format\<close>) and
  \<open>ipListParseNetwork_cidr\<close>: what is printed for a normalised network is read back as that network.
\<close>

subsection \<open>Data\<close>

record IpListParseAddr =
  addr_v6 :: bool
  addr_hi :: "64 word"
  addr_lo :: "64 word"

definition ipListParseBits :: "IpListParseAddr \<Rightarrow> nat" where
  "ipListParseBits addr = (if addr_v6 addr then 128 else 32)"

subsection \<open>Numbers\<close>

fun ipListParseDecimalLoop :: "qstring \<Rightarrow> 32 word \<Rightarrow> 32 word option" where
  "ipListParseDecimalLoop [] v = Some v"
| "ipListParseDecimalLoop (c # cs) v =
     (if c < u_0 \<or> c > u_9 then None else ipListParseDecimalLoop cs (v * 10 + of_nat (c - u_0)))"

definition ipListParseDecimal :: "qstring \<Rightarrow> nat \<Rightarrow> 32 word option" where
  "ipListParseDecimal text maxDigits =
     (if text = [] \<or> length text > maxDigits then None else ipListParseDecimalLoop text 0)"

definition ipListParseHexDigit :: "qchar \<Rightarrow> nat option" where
  "ipListParseHexDigit u =
     (if 48 \<le> u \<and> u \<le> 57 then Some (u - 48)
      else if 97 \<le> u \<and> u \<le> 102 then Some (u - 97 + 10)
      else if 65 \<le> u \<and> u \<le> 70 then Some (u - 65 + 10)
      else None)"

definition ipListParsePort :: "qstring \<Rightarrow> nat option" where
  "ipListParsePort text =
     (case ipListParseDecimal text 5 of
        None \<Rightarrow> None
      | Some v \<Rightarrow> if v > 65535 then None else Some (unat v))"

subsection \<open>IPv4\<close>

function ipListParseV4Loop :: "qstring \<Rightarrow> 32 word \<Rightarrow> nat \<Rightarrow> 32 word option" where
  "ipListParseV4Loop text v parts =
     (let dot = indexOf u_dot text;
          part = (case dot of None \<Rightarrow> text | Some d \<Rightarrow> take d text)
      in case ipListParseDecimal part 3 of
           None \<Rightarrow> None
         | Some octet \<Rightarrow>
             if octet > 255 then None
             else if length part > 1 \<and> hd part = u_0 then None
             else if Suc parts > 4 then None
             else let v' = push_bit 8 v OR octet
                  in case dot of
                       None \<Rightarrow> if Suc parts \<noteq> 4 then None else Some v'
                     | Some d \<Rightarrow> ipListParseV4Loop (drop (Suc d) text) v' (Suc parts))"
  by pat_completeness auto
termination
  by (relation "measure (\<lambda>(t, v, p). length t)") (auto dest: indexOf_less [OF sym])

declare ipListParseV4Loop.simps [simp del]

definition ipListParseV4 :: "qstring \<Rightarrow> 32 word option" where
  "ipListParseV4 text = ipListParseV4Loop text 0 0"

subsection \<open>IPv6\<close>

fun ipListParseGroup :: "qstring \<Rightarrow> 16 word \<Rightarrow> 16 word option" where
  "ipListParseGroup [] v = Some v"
| "ipListParseGroup (c # cs) v =
     (case ipListParseHexDigit c of
        None \<Rightarrow> None
      | Some digit \<Rightarrow> ipListParseGroup cs (push_bit 4 v OR of_nat digit))"

function ipListParseV6PartLoop :: "qstring \<Rightarrow> bool \<Rightarrow> 16 word list \<Rightarrow> 16 word list option" where
  "ipListParseV6PartLoop text allowV4Tail groups =
     (let colon = indexOf u_colon text;
          group = (case colon of None \<Rightarrow> text | Some k \<Rightarrow> take k text)
      in if colon = None \<and> allowV4Tail \<and> u_dot \<in> set group then
           (if length groups > 6 then None
            else case ipListParseV4 group of
                   None \<Rightarrow> None
                 | Some v4 \<Rightarrow> Some (groups @ [ucast (drop_bit 16 v4), ucast (v4 AND 0xffff)]))
         else if group = [] \<or> length group > 4 \<or> length groups \<ge> 8 then None
         else case ipListParseGroup group 0 of
                None \<Rightarrow> None
              | Some g \<Rightarrow>
                  (case colon of
                     None \<Rightarrow> Some (groups @ [g])
                   | Some k \<Rightarrow> ipListParseV6PartLoop (drop (Suc k) text) allowV4Tail (groups @ [g])))"
  by pat_completeness auto
termination
  by (relation "measure (\<lambda>(t, a, g). length t)") (auto dest: indexOf_less [OF sym])

declare ipListParseV6PartLoop.simps [simp del]

definition ipListParseV6Part :: "qstring \<Rightarrow> bool \<Rightarrow> 16 word list option" where
  "ipListParseV6Part text allowV4Tail =
     (if text = [] then Some [] else ipListParseV6PartLoop text allowV4Tail [])"

definition joinHalf :: "16 word list \<Rightarrow> 64 word" where
  "joinHalf gs = foldl (\<lambda>h g. push_bit 16 h OR ucast g) 0 gs"

definition ipListParseV6 :: "qstring \<Rightarrow> (64 word \<times> 64 word) option" where
  "ipListParseV6 text =
     (let assemble = (\<lambda>head tail.
            let groups = head @ replicate (8 - length head - length tail) 0 @ tail
            in Some (joinHalf (take 4 groups), joinHalf (drop 4 groups)))
      in case indexOf2 u_colon u_colon text of
           None \<Rightarrow>
             (case ipListParseV6Part text True of
                None \<Rightarrow> None
              | Some head \<Rightarrow> if length head \<noteq> 8 then None else assemble head [])
         | Some gap \<Rightarrow>
             if indexOf2 u_colon u_colon (drop (gap + 1) text) \<noteq> None then None
             else case ipListParseV6Part (take gap text) False of
                    None \<Rightarrow> None
                  | Some head \<Rightarrow>
                      (case ipListParseV6Part (drop (gap + 2) text) True of
                         None \<Rightarrow> None
                       | Some tail \<Rightarrow>
                           if length head + length tail > 7 then None else assemble head tail))"

subsection \<open>Addresses and networks\<close>

definition ipListParseAddress :: "qstring \<Rightarrow> IpListParseAddr option" where
  "ipListParseAddress text =
     (if u_colon \<in> set text then
        let body = (case indexOf u_percent text of None \<Rightarrow> text | Some zone \<Rightarrow> take zone text)
        in map_option (\<lambda>(h, l). \<lparr>addr_v6 = True, addr_hi = h, addr_lo = l\<rparr>) (ipListParseV6 body)
      else
        map_option (\<lambda>v4. \<lparr>addr_v6 = False, addr_hi = 0, addr_lo = ucast v4\<rparr>) (ipListParseV4 text))"

definition ipListParseIsMapped :: "IpListParseAddr \<Rightarrow> bool" where
  "ipListParseIsMapped addr \<longleftrightarrow> addr_v6 addr \<and> addr_hi addr = 0 \<and> drop_bit 32 (addr_lo addr) = 0xffff"

definition ipListParseUnmap :: "IpListParseAddr \<Rightarrow> IpListParseAddr" where
  "ipListParseUnmap addr = \<lparr>addr_v6 = False, addr_hi = 0, addr_lo = addr_lo addr AND 0xffffffff\<rparr>"

definition ipListParseMask :: "IpListParseAddr \<Rightarrow> nat \<Rightarrow> IpListParseAddr" where
  "ipListParseMask addr prefix =
     (if \<not> addr_v6 addr then
        addr\<lparr>addr_lo := addr_lo addr AND (push_bit (32 - prefix) 0xffffffff AND 0xffffffff)\<rparr>
      else if prefix < 64 then
        addr\<lparr>addr_hi := addr_hi addr AND (if prefix = 0 then 0 else push_bit (64 - prefix) (- 1)),
             addr_lo := 0\<rparr>
      else if prefix = 64 then addr\<lparr>addr_lo := 0\<rparr>
      else if prefix < 128 then addr\<lparr>addr_lo := addr_lo addr AND push_bit (128 - prefix) (- 1)\<rparr>
      else addr)"

subsection \<open>Printing\<close>

definition splitHalf :: "64 word \<Rightarrow> 16 word list" where
  "splitHalf w = map (\<lambda>i. ucast (drop_bit (48 - 16 * i) w)) [0..<4]"

function ipListParseZeroEnd :: "16 word list \<Rightarrow> nat \<Rightarrow> nat" where
  "ipListParseZeroEnd groups j =
     (if j < 8 \<and> groups ! j = 0 then ipListParseZeroEnd groups (Suc j) else j)"
  by pat_completeness auto
termination
  by (relation "measure (\<lambda>(g, j). 8 - j)") auto

declare ipListParseZeroEnd.simps [simp del]

lemma ipListParseZeroEnd_ge: "j \<le> ipListParseZeroEnd groups j"
proof (induction groups j rule: ipListParseZeroEnd.induct)
  case (1 groups j)
  then show ?case by (auto simp: ipListParseZeroEnd.simps [of groups j])
qed

lemma ipListParseZeroEnd_gt: "j < 8 \<Longrightarrow> groups ! j = 0 \<Longrightarrow> j < ipListParseZeroEnd groups j"
  using ipListParseZeroEnd_ge [of "Suc j" groups] by (simp add: ipListParseZeroEnd.simps [of groups j])

function ipListParseBestRun :: "16 word list \<Rightarrow> nat \<Rightarrow> nat option \<Rightarrow> nat \<Rightarrow> nat option \<times> nat" where
  "ipListParseBestRun groups i bestStart bestLength =
     (if i \<ge> 8 then (bestStart, bestLength)
      else if groups ! i \<noteq> 0 then ipListParseBestRun groups (Suc i) bestStart bestLength
      else let j = ipListParseZeroEnd groups i
           in if j - i > bestLength then ipListParseBestRun groups j (Some i) (j - i)
              else ipListParseBestRun groups j bestStart bestLength)"
  by pat_completeness auto
termination
  by (relation "measure (\<lambda>(g, i, b, l). 8 - i)") (auto intro!: diff_less_mono2 ipListParseZeroEnd_gt)

declare ipListParseBestRun.simps [simp del]

function ipListParseFormatLoop :: "16 word list \<Rightarrow> nat option \<Rightarrow> nat \<Rightarrow> nat \<Rightarrow> qstring \<Rightarrow> qstring" where
  "ipListParseFormatLoop groups bestStart bestLength i out =
     (if i \<ge> 8 then out
      else if bestStart = Some i then
        ipListParseFormatLoop groups bestStart bestLength (Suc (i + (bestLength - 1))) (out @ [u_colon, u_colon])
      else
        ipListParseFormatLoop groups bestStart bestLength (Suc i)
          ((if out \<noteq> [] \<and> \<not> endsWith u_colon out then out @ [u_colon] else out)
             @ number_base 16 (unat (groups ! i))))"
  by pat_completeness auto
termination
  by (relation "measure (\<lambda>(g, b, l, i, out). 8 - i)") auto

declare ipListParseFormatLoop.simps [simp del]

definition ipListParseFormat :: "IpListParseAddr \<Rightarrow> qstring" where
  "ipListParseFormat addr =
     (if \<not> addr_v6 addr then
        let v = (ucast (addr_lo addr) :: 32 word)
        in number (unat (drop_bit 24 v)) @ [u_dot] @ number (unat (drop_bit 16 v AND 0xff)) @ [u_dot]
             @ number (unat (drop_bit 8 v AND 0xff)) @ [u_dot] @ number (unat (v AND 0xff))
      else
        let groups = splitHalf (addr_hi addr) @ splitHalf (addr_lo addr);
            (bestStart, bestLength) = ipListParseBestRun groups 0 None 1
        in ipListParseFormatLoop groups bestStart bestLength 0 [])"

definition ipListParseCidr :: "IpListParseAddr \<Rightarrow> nat \<Rightarrow> qstring" where
  "ipListParseCidr addr prefix =
     (let address = ipListParseFormat addr
      in if prefix \<ge> ipListParseBits addr then address else address @ [u_slash] @ number prefix)"

text \<open>The second half of \<open>ipListParseNetwork\<close>, once the address text and the prefix text (absent
  without a slash) are known.\<close>

definition ipListParseNetworkBody :: "qstring \<Rightarrow> qstring option \<Rightarrow> (IpListParseAddr \<times> nat) option" where
  "ipListParseNetworkBody body prefixText =
     (case ipListParseAddress body of
        None \<Rightarrow> None
      | Some addr \<Rightarrow>
          let bits = ipListParseBits addr
          in case (case prefixText of
                     None \<Rightarrow> Some bits
                   | Some pt \<Rightarrow>
                       (case ipListParseDecimal pt 3 of
                          None \<Rightarrow> None
                        | Some v \<Rightarrow> if v > of_nat bits then None else Some (unat v))) of
               None \<Rightarrow> None
             | Some prefix \<Rightarrow>
                 if ipListParseIsMapped addr \<and> prefix \<ge> 96 then
                   (if prefix - 96 = 0 then None
                    else Some (ipListParseMask (ipListParseUnmap addr) (prefix - 96), prefix - 96))
                 else if prefix = 0 then None
                 else Some (ipListParseMask addr prefix, prefix))"

definition ipListParseNetworkSlash :: "qstring \<Rightarrow> qstring \<Rightarrow> (IpListParseAddr \<times> nat) option" where
  "ipListParseNetworkSlash body suffix =
     (case indexOf u_slash body of
        Some slash \<Rightarrow>
          if suffix \<noteq> [] then None
          else ipListParseNetworkBody (take slash body) (Some (drop (Suc slash) body))
      | None \<Rightarrow>
          if suffix \<noteq> [] then ipListParseNetworkBody body (Some (drop 1 suffix))
          else ipListParseNetworkBody body None)"

definition ipListParseNetwork :: "qstring \<Rightarrow> (IpListParseAddr \<times> nat) option" where
  "ipListParseNetwork rawText =
     (let text = trimmed rawText
      in if startsWith u_lbracket text then
           (case indexOf u_rbracket text of
              None \<Rightarrow> None
            | Some close \<Rightarrow>
                let body = take (close - 1) (drop 1 text); suffix = drop (Suc close) text
                in if suffix \<noteq> [] \<and> \<not> startsWith u_slash suffix then None
                   else ipListParseNetworkSlash body suffix)
         else ipListParseNetworkSlash text [])"

definition NormalizeCidr :: "qstring \<Rightarrow> qstring" where
  "NormalizeCidr text =
     (case ipListParseNetwork text of None \<Rightarrow> [] | Some (addr, prefix) \<Rightarrow> ipListParseCidr addr prefix)"

subsection \<open>Numbers and groups read back\<close>

lemma ipListParseDecimalLoop_value:
  "\<forall>c \<in> set s. isDigit c \<Longrightarrow>
   ipListParseDecimalLoop s (of_nat v) = Some (of_nat (foldl (\<lambda>v c. v * 10 + digitVal c) v s))"
proof (induction s arbitrary: v)
  case Nil
  then show ?case by simp
next
  case (Cons c cs)
  have "digitVal c = c - 48" using Cons.prems by (simp add: digitVal_def isDigit_def)
  with Cons.prems Cons.IH [of "v * 10 + (c - 48)"] show ?case
    by (simp add: isDigit_def add_diff_eq)
qed

lemma ipListParseDecimal_number:
  "length (number n) \<le> m \<Longrightarrow> ipListParseDecimal (number n) m = Some (of_nat n)"
  using ipListParseDecimalLoop_value [of "number n" 0] value_number_base [of 10 n]
  by (simp add: ipListParseDecimal_def value_base_def set_number_digits)

lemma length_number_le: "n < 10 ^ Suc k \<Longrightarrow> length (number n) \<le> Suc k"
  by (rule length_number_base) simp_all

lemma decimal_octet: "n < 256 \<Longrightarrow> ipListParseDecimal (number n) 3 = Some (of_nat n)"
  by (rule ipListParseDecimal_number, rule order_trans [OF length_number_le [of n 2]]) simp_all

lemma dot_not_in_number [simp]: "46 \<notin> set (number n)"
  using set_number_digits [of 46 n] by (auto simp: isDigit_def)

lemma of_nat_octet_le: "n < 256 \<Longrightarrow> \<not> (of_nat n :: 32 word) > 255"
  by (simp add: word_less_nat_alt unat_of_nat)

lemma ipListParseV4Loop_dot:
  assumes "n < 256" "parts < 4"
  shows "ipListParseV4Loop (number n @ 46 # rest) v parts
       = ipListParseV4Loop rest (push_bit 8 v OR of_nat n) (Suc parts)"
  using assms number_canonical [of 10 n]
  by (subst ipListParseV4Loop.simps)
     (auto simp add: indexOf_append_hit decimal_octet of_nat_octet_le Let_def)

lemma ipListParseV4Loop_end:
  assumes "n < 256" "parts = 3"
  shows "ipListParseV4Loop (number n) v parts = Some (push_bit 8 v OR of_nat n)"
  using assms number_canonical [of 10 n]
  by (subst ipListParseV4Loop.simps) (auto simp add: decimal_octet of_nat_octet_le Let_def)

lemma octets_join:
  "push_bit 8 (push_bit 8 (push_bit 8 (drop_bit 24 v) OR (drop_bit 16 v AND 0xff)) OR (drop_bit 8 v AND 0xff))
     OR (v AND 0xff) = (v :: 32 word)"
proof -
  have m: "(0xff :: 32 word) = mask 8" by (simp add: mask_eq_exp_minus_1)
  show ?thesis unfolding m
  proof (rule bit_word_eqI)
    fix n assume n: "n < LENGTH(32)"
    then consider "n < 8" | "8 \<le> n" "n < 16" | "16 \<le> n" "n < 24" | "24 \<le> n" by fastforce
    then show "bit (push_bit 8 (push_bit 8 (push_bit 8 (drop_bit 24 v) OR (drop_bit 16 v AND mask 8))
        OR (drop_bit 8 v AND mask 8)) OR (v AND mask 8)) n = bit v n"
      using n by cases (auto simp: bit_simps)
  qed
qed

lemma unat_octet_less: "unat (v AND 0xff :: 32 word) < 256"
proof -
  have "v AND 0xff \<le> (0xff :: 32 word)" by (rule word_and_le1)
  then show ?thesis by (simp add: word_le_nat_alt)
qed

lemma unat_top_octet_less: "unat (drop_bit 24 v :: 32 word) < 256"
proof -
  have "unat v < 2 ^ LENGTH(32)" by (rule unsigned_less)
  then show ?thesis by (simp add: unat_drop_bit_eq drop_bit_nat_def less_mult_imp_div_less)
qed

lemma joinHalf_splitHalf: "joinHalf (splitHalf w) = w"
proof -
  let ?w = "push_bit 16 (push_bit 16 (push_bit 16 (ucast (ucast (drop_bit 48 w) :: 16 word) :: 64 word)
      OR ucast (ucast (drop_bit 32 w) :: 16 word)) OR ucast (ucast (drop_bit 16 w) :: 16 word))
      OR ucast (ucast w :: 16 word)"
  have "bit ?w n = bit w n" if n: "n < 64" for n
  proof -
    from n consider "n < 16" | "16 \<le> n" "n < 32" | "32 \<le> n" "n < 48" | "48 \<le> n" by fastforce
    then show ?thesis using n by cases (auto simp: bit_simps)
  qed
  then have "?w = w" by (intro bit_word_eqI) simp
  moreover have "joinHalf (splitHalf w) = ?w" by (simp add: joinHalf_def splitHalf_def upt_rec)
  ultimately show ?thesis by simp
qed

lemma splitHalf_length [simp]: "length (splitHalf w) = 4"
  by (simp add: splitHalf_def)

lemma ipListParseHexDigit_digitChar: "d < 16 \<Longrightarrow> ipListParseHexDigit (digitChar d) = Some d"
  by (simp add: ipListParseHexDigit_def digitChar_def)

lemma nibble_or: "d < 16 \<Longrightarrow> push_bit 4 v OR of_nat d = v * 16 + (of_nat d :: 16 word)"
proof -
  assume d: "d < 16"
  have "\<not> (bit (push_bit 4 v) n \<and> bit (of_nat d :: 16 word) n)" for n
  proof
    assume b: "bit (push_bit 4 v) n \<and> bit (of_nat d :: 16 word) n"
    then have "4 \<le> n" and "bit d n" by (auto simp: bit_simps)
    moreover have "d < 2 ^ 4" using d by simp
    ultimately have "take_bit 4 d = d" by (simp add: take_bit_nat_eq_self)
    with \<open>4 \<le> n\<close> \<open>bit d n\<close> show False by (metis bit_take_bit_iff leD)
  qed
  then have "push_bit 4 v AND of_nat d = 0" by (intro bit_word_eqI) (auto simp: bit_simps)
  moreover have "push_bit 4 v = v * 16" by (simp add: push_bit_eq_mult)
  ultimately show ?thesis using word_plus_and_or [of "push_bit 4 v" "of_nat d"] by simp
qed

lemma ipListParseGroup_value:
  "\<forall>c \<in> set s. \<exists>d < 16. c = digitChar d \<Longrightarrow>
   ipListParseGroup s (of_nat v) = Some (of_nat (foldl (\<lambda>v c. v * 16 + digitVal c) v s))"
proof (induction s arbitrary: v)
  case Nil
  then show ?case by simp
next
  case (Cons c cs)
  then obtain d where d: "d < 16" "c = digitChar d" by auto
  with Cons.prems Cons.IH [of "v * 16 + d"] show ?case
    by (simp add: ipListParseHexDigit_digitChar nibble_or)
qed

lemma ipListParseGroup_number: "ipListParseGroup (number_base 16 (unat g)) 0 = Some (g :: 16 word)"
  using ipListParseGroup_value [of "number_base 16 (unat g)" 0] value_number_base [of 16 "unat g"]
  by (simp add: value_base_def set_number_base)

lemma length_group: "length (number_base 16 (unat (g :: 16 word))) \<le> 4"
proof -
  have "unat g < 2 ^ LENGTH(16)" by (rule unsigned_less)
  then show ?thesis using length_number_base [of 16 "unat g" 3] by simp
qed

lemma ipListParseV4_format:
  assumes "\<not> addr_v6 a"
  shows "ipListParseV4 (ipListParseFormat a) = Some (ucast (addr_lo a))"
proof -
  let ?v = "ucast (addr_lo a) :: 32 word"
  have "ipListParseV4 (ipListParseFormat a) = Some (push_bit 8 (push_bit 8 (push_bit 8 (push_bit 8 0
      OR drop_bit 24 ?v) OR (drop_bit 16 ?v AND 0xff)) OR (drop_bit 8 ?v AND 0xff)) OR (?v AND 0xff))"
    using assms
    by (simp add: ipListParseV4_def ipListParseFormat_def Let_def ipListParseV4Loop_dot
        ipListParseV4Loop_end unat_octet_less unat_top_octet_less)
  then show ?thesis using octets_join [of ?v] by simp
qed

abbreviation groupText :: "16 word \<Rightarrow> qstring" where
  "groupText g \<equiv> number_base 16 (unat g)"

lemma groupText_chars:
  "c \<in> set (groupText g) \<Longrightarrow> (48 \<le> c \<and> c \<le> 57) \<or> (97 \<le> c \<and> c \<le> 102)"
  using set_number_base [of 16 c "unat g"] by (auto simp: digitChar_def split: if_splits)

lemma groupText_notin [simp]:
  "58 \<notin> set (groupText g)" "46 \<notin> set (groupText g)" "47 \<notin> set (groupText g)" "37 \<notin> set (groupText g)"
  "45 \<notin> set (groupText g)" "91 \<notin> set (groupText g)" "93 \<notin> set (groupText g)"
  using groupText_chars by fastforce+

lemma qjoin_Cons: "qjoin sep (x # xs) = x @ concat (map (\<lambda>y. sep @ y) xs)"
  by (induction sep "x # xs" arbitrary: x xs rule: qjoin.induct) auto

lemma set_qjoin: "set (qjoin sep xs) \<subseteq> set sep \<union> \<Union> (set ` set xs)"
  by (induction sep xs rule: qjoin.induct) auto

lemma ipListParseV6PartLoop_join:
  "gs \<noteq> [] \<Longrightarrow> length acc + length gs \<le> 8 \<Longrightarrow>
   ipListParseV6PartLoop (qjoin [58] (map groupText gs)) allow acc = Some (acc @ gs)"
proof (induction gs arbitrary: acc)
  case Nil
  then show ?case by simp
next
  case (Cons g gs)
  show ?case
  proof (cases gs)
    case Nil
    with Cons.prems length_group [of g] show ?thesis
      by (subst ipListParseV6PartLoop.simps) (simp add: ipListParseGroup_number)
  next
    case (Cons g' gs')
    have IH: "ipListParseV6PartLoop (qjoin [58] (map groupText gs)) allow (acc @ [g]) = Some ((acc @ [g]) @ gs)"
      using Cons.IH [of "acc @ [g]"] Cons Cons.prems by simp
    have "qjoin [58] (map groupText (g # gs)) = groupText g @ 58 # qjoin [58] (map groupText gs)"
      by (simp add: Cons)
    with IH Cons.prems length_group [of g] show ?thesis
      by (subst ipListParseV6PartLoop.simps)
         (simp add: ipListParseGroup_number indexOf_append_hit Let_def not_le)
  qed
qed

lemma ipListParseV6Part_join:
  "length gs \<le> 8 \<Longrightarrow> ipListParseV6Part (qjoin [58] (map groupText gs)) allow = Some gs"
proof (cases gs)
  case (Cons g gs')
  assume "length gs \<le> 8"
  moreover have "qjoin [58] (map groupText gs) \<noteq> []" by (simp add: Cons qjoin_Cons)
  ultimately show ?thesis
    using ipListParseV6PartLoop_join [of gs "[]" allow] Cons by (simp add: ipListParseV6Part_def)
qed (simp add: ipListParseV6Part_def)

subsection \<open>Where the double colon is\<close>

lemma indexOf2_None_append:
  "c \<notin> set x \<Longrightarrow> indexOf2 c c t = None \<Longrightarrow> t = [] \<or> hd t \<noteq> c \<Longrightarrow> indexOf2 c c (x @ c # t) = None"
proof (induction x)
  case Nil
  then show ?case by (cases t) auto
next
  case (Cons y ys)
  then show ?case by (cases ys) auto
qed

lemma indexOf2_notin: "c \<notin> set x \<Longrightarrow> indexOf2 c c x = None"
  by (induction c c x rule: indexOf2.induct) auto

lemma qjoin_hd: "xs \<noteq> [] \<Longrightarrow> hd xs \<noteq> [] \<Longrightarrow> hd (qjoin sep xs) = hd (hd xs)"
  by (cases xs) (simp_all add: qjoin_Cons)

lemma hd_hexGroup: "hd (groupText g) \<noteq> 58"
  using groupText_notin(1) [of g] hd_in_set [of "groupText g"] by (metis number_base_nonempty)

lemma hd_join_hex: "gs \<noteq> [] \<Longrightarrow> hd (qjoin [58] (map groupText gs)) \<noteq> 58"
  by (cases gs) (simp_all add: qjoin_hd hd_hexGroup)

lemma indexOf2_join_None: "indexOf2 58 58 (qjoin [58] (map groupText gs)) = None"
proof (induction gs)
  case (Cons g gs)
  show ?case
  proof (cases gs)
    case Nil
    then show ?thesis by (simp add: indexOf2_notin)
  next
    case (Cons g' gs')
    with Cons.IH hd_join_hex [of gs] show ?thesis
      by (simp add: indexOf2_None_append)
  qed
qed simp

lemma last_join_hex: "gs \<noteq> [] \<Longrightarrow> last (qjoin [58] (map groupText gs)) \<noteq> 58"
proof (induction gs)
  case (Cons g gs)
  show ?case
  proof (cases gs)
    case Nil
    then show ?thesis
      using groupText_notin(1) [of g] last_in_set [of "groupText g"] by (metis list.simps(8,9) number_base_nonempty qjoin.simps(2))
  next
    case (Cons g' gs')
    with Cons.IH show ?thesis by (auto simp: qjoin_Cons)
  qed
qed simp

lemma join_hex_last: "qjoin [58] (map groupText gs) = [] \<or> last (qjoin [58] (map groupText gs)) \<noteq> 58"
  using last_join_hex [of gs] by (cases gs) simp_all

lemma join_hex_hd: "qjoin [58] (map groupText gs) = [] \<or> hd (qjoin [58] (map groupText gs)) \<noteq> 58"
  using hd_join_hex [of gs] by (cases gs) simp_all

lemma indexOf2_hit:
  "indexOf2 c c x = None \<Longrightarrow> x = [] \<or> last x \<noteq> c \<Longrightarrow> indexOf2 c c (x @ c # c # t) = Some (length x)"
proof (induction x)
  case (Cons y ys)
  then show ?case by (cases ys) (auto split: if_splits)
qed simp

subsection \<open>What the IPv6 printer writes\<close>

lemma ipListParseFormatLoop_run:
  assumes "length groups = 8" "i \<le> m" "m \<le> 8" "\<forall>k. i \<le> k \<and> k < m \<longrightarrow> best \<noteq> Some k"
    and "out \<noteq> []" "\<not> endsWith 58 out"
  shows "ipListParseFormatLoop groups best len i out =
    ipListParseFormatLoop groups best len m
      (out @ concat (map (\<lambda>g. [58] @ groupText g) (take (m - i) (drop i groups))))"
  using assms(2-)
proof (induction "m - i" arbitrary: i out)
  case 0
  then show ?case by simp
next
  case (Suc n)
  then have i: "i < m" "i < 8" by auto
  let ?out = "out @ [58] @ groupText (groups ! i)"
  have e: "\<not> endsWith 58 ?out"
    using groupText_notin(1) [of "groups ! i"] last_in_set [of "groupText (groups ! i)"]
    by (metis append_assoc append_butlast_last_id endsWith_snoc number_base_nonempty)
  have "ipListParseFormatLoop groups best len i out = ipListParseFormatLoop groups best len (Suc i) ?out"
    using i Suc.prems by (subst ipListParseFormatLoop.simps) auto
  also have "\<dots> = ipListParseFormatLoop groups best len m
      (?out @ concat (map (\<lambda>g. [58] @ groupText g) (take (m - Suc i) (drop (Suc i) groups))))"
    using Suc e i by (intro Suc.hyps(1)) auto
  also have "take (m - i) (drop i groups) = groups ! i # take (m - Suc i) (drop (Suc i) groups)"
    using i assms(1) by (simp add: Cons_nth_drop_Suc [symmetric] Suc_diff_Suc [symmetric])
  ultimately show ?case by simp
qed

lemma ipListParseFormatLoop_fresh:
  assumes "length groups = 8" "i \<le> m" "m \<le> 8" "\<forall>k. i \<le> k \<and> k < m \<longrightarrow> best \<noteq> Some k"
    and "out = [] \<or> endsWith 58 out"
  shows "ipListParseFormatLoop groups best len i out =
    ipListParseFormatLoop groups best len m (out @ qjoin [58] (map groupText (take (m - i) (drop i groups))))"
proof (cases "i = m")
  case False
  then have i: "i < m" "i < 8" using assms by auto
  let ?out = "out @ groupText (groups ! i)"
  have e: "\<not> endsWith 58 ?out"
    using groupText_notin(1) [of "groups ! i"] last_in_set [of "groupText (groups ! i)"]
    by (metis append_assoc append_butlast_last_id endsWith_snoc number_base_nonempty)
  have "ipListParseFormatLoop groups best len i out = ipListParseFormatLoop groups best len (Suc i) ?out"
    using i assms by (subst ipListParseFormatLoop.simps) auto
  also have "\<dots> = ipListParseFormatLoop groups best len m
      (?out @ concat (map (\<lambda>g. [58] @ groupText g) (take (m - Suc i) (drop (Suc i) groups))))"
    using assms e i by (intro ipListParseFormatLoop_run) auto
  also have "take (m - i) (drop i groups) = groups ! i # take (m - Suc i) (drop (Suc i) groups)"
    using i assms(1) by (simp add: Cons_nth_drop_Suc [symmetric] Suc_diff_Suc [symmetric])
  ultimately show ?thesis by (simp add: qjoin_Cons comp_def)
qed simp

lemma ipListParseFormatLoop_none:
  "length groups = 8 \<Longrightarrow> ipListParseFormatLoop groups None len 0 [] = qjoin [58] (map groupText groups)"
  using ipListParseFormatLoop_fresh [of groups 0 8 None "[]" len]
  by (simp add: ipListParseFormatLoop.simps [of groups None len 8])

lemma ipListParseFormatLoop_some:
  assumes "length groups = 8" "s + len \<le> 8" "0 < len"
  shows "ipListParseFormatLoop groups (Some s) len 0 [] =
    qjoin [58] (map groupText (take s groups)) @ [58, 58] @ qjoin [58] (map groupText (drop (s + len) groups))"
proof -
  let ?head = "qjoin [58] (map groupText (take s groups))"
  have "ipListParseFormatLoop groups (Some s) len 0 [] = ipListParseFormatLoop groups (Some s) len s ?head"
    using assms ipListParseFormatLoop_fresh [of groups 0 s "Some s" "[]" len] by simp
  also have "\<dots> = ipListParseFormatLoop groups (Some s) len (s + len) (?head @ [58, 58])"
    using assms by (subst ipListParseFormatLoop.simps) simp
  also have "\<dots> = ipListParseFormatLoop groups (Some s) len 8
      ((?head @ [58, 58]) @ qjoin [58] (map groupText (take (8 - (s + len)) (drop (s + len) groups))))"
    using assms endsWith_snoc [of 58 "?head @ [58]" 58]
    by (intro ipListParseFormatLoop_fresh) auto
  also have "\<dots> = ?head @ [58, 58] @ qjoin [58] (map groupText (drop (s + len) groups))"
    using assms by (simp add: ipListParseFormatLoop.simps [of groups "Some s" len 8])
  finally show ?thesis .
qed

subsection \<open>Which run of zero groups is compressed\<close>

definition zeroRun :: "16 word list \<Rightarrow> nat \<Rightarrow> nat \<Rightarrow> bool" where
  "zeroRun groups s len \<longleftrightarrow> s + len \<le> 8 \<and> (\<forall>k. s \<le> k \<and> k < s + len \<longrightarrow> groups ! k = 0)"

lemma ipListParseZeroEnd_spec:
  "j \<le> 8 \<Longrightarrow> zeroRun groups j (ipListParseZeroEnd groups j - j)
     \<and> (ipListParseZeroEnd groups j < 8 \<longrightarrow> groups ! ipListParseZeroEnd groups j \<noteq> 0)"
proof (induction groups j rule: ipListParseZeroEnd.induct)
  case (1 groups j)
  show ?case
  proof (cases "j < 8 \<and> groups ! j = 0")
    case True
    then have e: "ipListParseZeroEnd groups j = ipListParseZeroEnd groups (Suc j)"
      by (simp add: ipListParseZeroEnd.simps [of groups j])
    have "Suc j \<le> ipListParseZeroEnd groups (Suc j)" by (rule ipListParseZeroEnd_ge)
    moreover have "groups ! k = 0" if "zeroRun groups (Suc j) (ipListParseZeroEnd groups (Suc j) - Suc j)"
      "j \<le> k" "k < ipListParseZeroEnd groups (Suc j)" for k
      using that True by (cases "k = j") (auto simp: zeroRun_def)
    ultimately show ?thesis using "1.IH" True e by (auto simp: zeroRun_def)
  next
    case False
    with "1.prems" show ?thesis by (auto simp: ipListParseZeroEnd.simps [of groups j] zeroRun_def)
  qed
qed

text \<open>The state of the scan before index \<open>i\<close>: the best run so far is a run, and no run that
  ends by \<open>i\<close> is longer or equally long and earlier.\<close>

definition bestSoFar :: "16 word list \<Rightarrow> nat \<Rightarrow> nat option \<Rightarrow> nat \<Rightarrow> bool" where
  "bestSoFar groups i b l \<longleftrightarrow>
     (case b of None \<Rightarrow> l = 1 | Some s \<Rightarrow> 2 \<le> l \<and> zeroRun groups s l \<and> s + l \<le> i)
     \<and> (\<forall>s n. zeroRun groups s n \<and> s + n \<le> i \<longrightarrow> n \<le> l \<and> (n = l \<and> 1 < n \<longrightarrow> (\<exists>s'. b = Some s' \<and> s' \<le> s)))"

lemma bestSoFar_skip:
  assumes "bestSoFar groups i b l" "groups ! i \<noteq> 0"
  shows "bestSoFar groups (Suc i) b l"
proof -
  have "s + n \<le> i \<or> n = 0" if "zeroRun groups s n" "s + n \<le> Suc i" for s n
  proof (rule ccontr)
    assume "\<not> (s + n \<le> i \<or> n = 0)"
    with that have "s \<le> i" "i < s + n" by auto
    with that assms(2) show False by (auto simp: zeroRun_def)
  qed
  with assms(1) have "\<forall>s n. zeroRun groups s n \<and> s + n \<le> Suc i \<longrightarrow>
      n \<le> l \<and> (n = l \<and> 1 < n \<longrightarrow> (\<exists>s'. b = Some s' \<and> s' \<le> s))"
    by (metis bestSoFar_def le_zero_eq linorder_not_less zero_le)
  with assms(1) show ?thesis by (auto simp: bestSoFar_def split: option.splits)
qed

lemma run_from_boundary:
  assumes "zeroRun groups s n" "s + n \<le> j" "i < s + n" "i = 0 \<or> groups ! (i - 1) \<noteq> 0" "0 < n"
  shows "i \<le> s"
proof (rule ccontr)
  assume "\<not> i \<le> s"
  with assms(3) have "s \<le> i - 1" "i - 1 < s + n" "i \<noteq> 0" by auto
  with assms(1,4) show False by (auto simp: zeroRun_def)
qed

lemma bestSoFar_run:
  assumes b: "bestSoFar groups i b l" and i: "i = 0 \<or> groups ! (i - 1) \<noteq> 0"
    and r: "zeroRun groups i (j - i)" and j: "i < j"
  shows "if l < j - i then bestSoFar groups j (Some i) (j - i) else bestSoFar groups j b l"
proof -
  have l1: "1 \<le> l" using b by (auto simp: bestSoFar_def split: option.splits)
  have old: "s + n \<le> i \<Longrightarrow> zeroRun groups s n \<Longrightarrow>
      n \<le> l \<and> (n = l \<and> 1 < n \<longrightarrow> (\<exists>s'. b = Some s' \<and> s' \<le> s))" for s n
    using b by (auto simp: bestSoFar_def)
  have new: "s + n \<le> i \<or> n = 0 \<or> (i \<le> s \<and> n \<le> j - i)" if "zeroRun groups s n" "s + n \<le> j" for s n
    using run_from_boundary [OF that _ i] that by fastforce
  show ?thesis
  proof (cases "l < j - i")
    case True
    have "n \<le> j - i \<and> (n = j - i \<and> 1 < n \<longrightarrow> i \<le> s)" if "zeroRun groups s n" "s + n \<le> j" for s n
      using new [OF that] old [of s n] that True by fastforce
    with True l1 r show ?thesis by (auto simp: bestSoFar_def)
  next
    case False
    have "n \<le> l \<and> (n = l \<and> 1 < n \<longrightarrow> (\<exists>s'. b = Some s' \<and> s' \<le> s))" if "zeroRun groups s n" "s + n \<le> j" for s n
    proof (cases "s + n \<le> i \<or> n = 0")
      case True
      with old [of s n] that l1 show ?thesis by auto
    next
      case outside: False
      with new [OF that] have n: "i \<le> s" "n \<le> j - i" by auto
      with False have "n \<le> l" by simp
      moreover have "\<exists>s'. b = Some s' \<and> s' \<le> s" if "n = l" "1 < n"
        using that b n by (auto simp: bestSoFar_def split: option.splits)
      ultimately show ?thesis by blast
    qed
    with False b j show ?thesis by (auto simp: bestSoFar_def split: option.splits)
  qed
qed

lemma ipListParseBestRun_spec:
  assumes "length groups = 8"
  shows "bestSoFar groups i b l \<Longrightarrow> i \<le> 8 \<Longrightarrow> i = 0 \<or> i = 8 \<or> groups ! (i - 1) \<noteq> 0 \<or> groups ! i \<noteq> 0 \<Longrightarrow>
    (case ipListParseBestRun groups i b l of (b', l') \<Rightarrow> bestSoFar groups 8 b' l')"
  using assms
proof (induction groups i b l rule: ipListParseBestRun.induct)
  case (1 groups i b l)
  show ?case
  proof (cases "i \<ge> 8")
    case True
    with "1.prems" have "i = 8" by simp
    with "1.prems" show ?thesis by (simp add: ipListParseBestRun.simps [of groups 8])
  next
    case i: False
    show ?thesis
    proof (cases "groups ! i = 0")
      case False
      with i "1.prems" have "bestSoFar groups (Suc i) b l" by (intro bestSoFar_skip)
      with "1.IH"(1) i False "1.prems" show ?thesis by (simp add: ipListParseBestRun.simps [of groups i])
    next
      case True
      let ?j = "ipListParseZeroEnd groups i"
      have r: "zeroRun groups i (?j - i)" "?j < 8 \<longrightarrow> groups ! ?j \<noteq> 0" "i < ?j"
        using ipListParseZeroEnd_spec [of i groups] ipListParseZeroEnd_gt [of i groups] i True by auto
      then have j8: "?j \<le> 8" "?j = 8 \<or> groups ! ?j \<noteq> 0" by (auto simp: zeroRun_def)
      have next_best:
        "if l < ?j - i then bestSoFar groups ?j (Some i) (?j - i) else bestSoFar groups ?j b l"
        using bestSoFar_run [OF "1.prems"(1) _ r(1) r(3)] "1.prems"(3) True i by fastforce
      show ?thesis
      proof (cases "l < ?j - i")
        case longer: True
        then have "ipListParseBestRun groups i b l = ipListParseBestRun groups ?j (Some i) (?j - i)"
          using i True by (simp add: ipListParseBestRun.simps [of groups i] Let_def)
        moreover have "bestSoFar groups ?j (Some i) (?j - i)" using next_best longer by simp
        ultimately show ?thesis using "1.IH"(2) [OF i _ refl] True longer j8 "1.prems"(4) by auto
      next
        case shorter: False
        then have "ipListParseBestRun groups i b l = ipListParseBestRun groups ?j b l"
          using i True by (simp add: ipListParseBestRun.simps [of groups i] Let_def)
        moreover have "bestSoFar groups ?j b l" using next_best shorter by simp
        ultimately show ?thesis using "1.IH"(3) [OF i _ refl] True shorter j8 "1.prems"(4) by auto
      qed
    qed
  qed
qed

lemma bestSoFar_start: "bestSoFar groups 0 None 1"
  by (auto simp: bestSoFar_def)

lemma ipListParseV6_gap:
  assumes "indexOf2 58 58 (x @ 58 # 58 # y) = Some (length x)" "indexOf2 58 58 (58 # y) = None"
    and "ipListParseV6Part x False = Some h" "ipListParseV6Part y True = Some t"
    and "length h + length t \<le> 7" and g: "h @ replicate (8 - length h - length t) 0 @ t = g"
  shows "ipListParseV6 (x @ 58 # 58 # y) = Some (joinHalf (take 4 g), joinHalf (drop 4 g))"
proof -
  have "take (length x) (x @ 58 # 58 # y) = x" "drop (length x + 1) (x @ 58 # 58 # y) = 58 # y"
    "drop (length x + 2) (x @ 58 # 58 # y) = y" by simp_all
  then show ?thesis unfolding g [symmetric] using assms(1-5)
    by (simp add: ipListParseV6_def Let_def del: take_append drop_append append_assoc)
qed

lemma compressed_text_parse:
  assumes len: "length g = 8" and run: "2 \<le> l" "zeroRun g s l"
  shows "ipListParseV6 (qjoin [58] (map groupText (take s g)) @ 58 # 58 # qjoin [58] (map groupText (drop (s + l) g)))
    = Some (joinHalf (take 4 g), joinHalf (drop 4 g))"
proof -
  let ?h = "take s g" and ?t = "drop (s + l) g"
  let ?text = "qjoin [58] (map groupText ?h) @ 58 # 58 # qjoin [58] (map groupText ?t)"
  have sl: "s + l \<le> 8" using run by (simp add: zeroRun_def)
  have gap: "indexOf2 58 58 ?text = Some (length (qjoin [58] (map groupText ?h)))"
  proof (rule indexOf2_hit)
    show "qjoin [58] (map groupText ?h) = [] \<or> last (qjoin [58] (map groupText ?h)) \<noteq> 58"
      by (rule join_hex_last)
  qed (rule indexOf2_join_None)
  have gap2: "indexOf2 58 58 (58 # qjoin [58] (map groupText ?t)) = None"
  proof -
    have "qjoin [58] (map groupText ?t) = [] \<or> hd (qjoin [58] (map groupText ?t)) \<noteq> 58"
      by (rule join_hex_hd)
    then show ?thesis using indexOf2_None_append [OF _ indexOf2_join_None [of ?t], of "[]"] by simp
  qed
  have mid: "?h @ replicate (8 - length ?h - length ?t) 0 @ ?t = g"
  proof (rule nth_equalityI)
    fix k assume "k < length (?h @ replicate (8 - length ?h - length ?t) 0 @ ?t)"
    then show "(?h @ replicate (8 - length ?h - length ?t) 0 @ ?t) ! k = g ! k"
      using run(2) sl len by (auto simp: zeroRun_def nth_append)
  qed (use sl len in auto)
  have parts: "ipListParseV6Part (qjoin [58] (map groupText ?h)) False = Some ?h"
    "ipListParseV6Part (qjoin [58] (map groupText ?t)) True = Some ?t"
    using len by (simp_all add: ipListParseV6Part_join del: drop_map)
  have "length ?h + length ?t \<le> 7" using run sl len by auto
  then show ?thesis by (rule ipListParseV6_gap [OF gap gap2 parts _ mid])
qed

lemma plain_text_parse:
  "length g = 8 \<Longrightarrow>
   ipListParseV6 (qjoin [58] (map groupText g)) = Some (joinHalf (take 4 g), joinHalf (drop 4 g))"
  using ipListParseV6Part_join [of g True] indexOf2_join_None [of g] by (simp add: ipListParseV6_def)

lemma ipListParseV6_format:
  assumes "addr_v6 a"
  shows "ipListParseV6 (ipListParseFormat a) = Some (addr_hi a, addr_lo a)"
proof -
  define g where "g = splitHalf (addr_hi a) @ splitHalf (addr_lo a)"
  have len: "length g = 8" by (simp add: g_def)
  have halves: "joinHalf (take 4 g) = addr_hi a" "joinHalf (drop 4 g) = addr_lo a"
    by (simp_all add: g_def joinHalf_splitHalf)
  obtain b l where bl: "ipListParseBestRun g 0 None 1 = (b, l)" by fastforce
  then have best: "bestSoFar g 8 b l"
    using ipListParseBestRun_spec [OF len bestSoFar_start] by simp
  have fmt: "ipListParseFormat a = ipListParseFormatLoop g b l 0 []"
    using assms bl by (simp add: ipListParseFormat_def g_def)
  show ?thesis
  proof (cases b)
    case None
    then show ?thesis using fmt plain_text_parse [OF len] halves
      by (simp add: ipListParseFormatLoop_none [OF len])
  next
    case (Some s)
    with best have run: "2 \<le> l" "zeroRun g s l" by (auto simp: bestSoFar_def)
    then have "s + l \<le> 8" by (simp add: zeroRun_def)
    with Some run fmt compressed_text_parse [OF len run] halves show ?thesis
      by (simp add: ipListParseFormatLoop_some [OF len])
  qed
qed

subsection \<open>Normalised networks\<close>

definition networkWf :: "IpListParseAddr \<Rightarrow> nat \<Rightarrow> bool" where
  "networkWf a p \<longleftrightarrow> 0 < p \<and> p \<le> ipListParseBits a \<and> ipListParseMask a p = a
     \<and> (\<not> addr_v6 a \<longrightarrow> addr_hi a = 0 \<and> addr_lo a AND 0xffffffff = addr_lo a)
     \<and> \<not> (ipListParseIsMapped a \<and> 96 \<le> p)"

lemma ipListParseMask_v6 [simp]: "addr_v6 (ipListParseMask a p) = addr_v6 a"
  by (simp add: ipListParseMask_def)

lemma ipListParseMask_bits [simp]: "ipListParseBits (ipListParseMask a p) = ipListParseBits a"
  by (simp add: ipListParseBits_def)

lemma ipListParseMask_idem: "ipListParseMask (ipListParseMask a p) p = ipListParseMask a p"
  by (cases a) (auto simp: ipListParseMask_def and.assoc)

lemma drop_bit_mask_low:
  "n \<le> 32 \<Longrightarrow> drop_bit 32 w AND drop_bit 32 (NOT (mask n)) = drop_bit 32 (w :: 64 word)"
  by (intro bit_word_eqI) (auto simp: bit_simps dest: bit_imp_le_length)

lemma ipListParseMask_mapped:
  "96 \<le> p \<Longrightarrow> ipListParseIsMapped (ipListParseMask a p) = ipListParseIsMapped a"
  by (cases a) (simp add: ipListParseMask_def ipListParseIsMapped_def drop_bit_mask_low)

lemma low32: "(0xffffffff :: 64 word) = mask 32"
  by (simp add: mask_eq_exp_minus_1)

lemma ucast_v4_low: "(ucast (v :: 32 word) :: 64 word) AND 0xffffffff = ucast v"
  unfolding low32 by (intro bit_word_eqI) (auto simp: bit_simps dest: bit_imp_le_length)

lemma ipListParseAddress_v4_low:
  "ipListParseAddress t = Some a \<Longrightarrow> \<not> addr_v6 a \<Longrightarrow> addr_hi a = 0 \<and> addr_lo a AND 0xffffffff = addr_lo a"
  by (auto simp: ipListParseAddress_def ucast_v4_low split: if_splits)

lemma mask_network_wf:
  assumes "0 < p" "p \<le> ipListParseBits a" "\<not> addr_v6 a \<Longrightarrow> addr_hi a = 0 \<and> addr_lo a AND 0xffffffff = addr_lo a"
    and "\<not> (ipListParseIsMapped a \<and> 96 \<le> p)"
  shows "networkWf (ipListParseMask a p) p"
proof -
  have "addr_hi (ipListParseMask a p) = 0 \<and>
      addr_lo (ipListParseMask a p) AND 0xffffffff = addr_lo (ipListParseMask a p)" if "\<not> addr_v6 a"
    using assms(3) [OF that] that by (simp add: ipListParseMask_def and.assoc and.commute and.left_commute)
  with assms show ?thesis
    by (auto simp: networkWf_def ipListParseMask_idem ipListParseMask_mapped)
qed

subsection \<open>Round trip of networks\<close>

lemma format_chars_v4:
  "\<not> addr_v6 a \<Longrightarrow> c \<in> set (ipListParseFormat a) \<Longrightarrow> isDigit c \<or> c = 46"
  by (auto simp: ipListParseFormat_def Let_def dest: set_number_digits)

lemma join_hex_chars:
  "c \<in> set (qjoin [58] (map groupText gs)) \<Longrightarrow> isDigit c \<or> (97 \<le> c \<and> c \<le> 102) \<or> c = 58"
  using set_qjoin [of "[58]" "map groupText gs"] groupText_chars by (fastforce simp: isDigit_def)

text \<open>The text of an IPv6 address: groups joined by single colons, or two such parts around
  the one double colon.\<close>

lemma format_v6_shape:
  assumes "addr_v6 a"
  obtains gs where "length gs = 8" "ipListParseFormat a = qjoin [58] (map groupText gs)"
  | h t where "ipListParseFormat a = qjoin [58] (map groupText h) @ 58 # 58 # qjoin [58] (map groupText t)"
proof -
  define g where "g = splitHalf (addr_hi a) @ splitHalf (addr_lo a)"
  have len: "length g = 8" by (simp add: g_def)
  obtain b l where bl: "ipListParseBestRun g 0 None 1 = (b, l)" by fastforce
  then have best: "bestSoFar g 8 b l"
    using ipListParseBestRun_spec [OF len bestSoFar_start] by simp
  have fmt: "ipListParseFormat a = ipListParseFormatLoop g b l 0 []"
    using assms bl by (simp add: ipListParseFormat_def g_def)
  show ?thesis
  proof (cases b)
    case None
    then show ?thesis using fmt len that(1) by (simp add: ipListParseFormatLoop_none [OF len])
  next
    case (Some s)
    with best have "2 \<le> l" "s + l \<le> 8" by (auto simp: bestSoFar_def)
    with Some fmt that(2) show ?thesis by (simp add: ipListParseFormatLoop_some [OF len])
  qed
qed

lemma format_chars_v6:
  assumes "addr_v6 a" "c \<in> set (ipListParseFormat a)"
  shows "isDigit c \<or> (97 \<le> c \<and> c \<le> 102) \<or> c = 58"
  using assms(1)
proof (cases rule: format_v6_shape)
  case (1 gs)
  with assms(2) show ?thesis using join_hex_chars by simp
next
  case (2 h t)
  with assms(2) show ?thesis using join_hex_chars by auto
qed

lemma format_chars:
  "c \<in> set (ipListParseFormat a) \<Longrightarrow> isDigit c \<or> c = 46 \<or> c = 58 \<or> (97 \<le> c \<and> c \<le> 102)"
  by (cases "addr_v6 a") (auto dest: format_chars_v4 format_chars_v6)

lemma format_notin:
  assumes "\<not> isDigit c" "c \<noteq> 46" "c \<noteq> 58" "c < 97 \<or> 102 < c"
  shows "c \<notin> set (ipListParseFormat a)"
  using format_chars [of c a] assms by auto

lemma count_join_hex:
  "gs \<noteq> [] \<Longrightarrow> count_list (qjoin [58] (map groupText gs)) 58 = length gs - 1"
proof (induction gs)
  case (Cons g gs)
  then show ?case by (cases gs) (auto simp: count_notin)
qed simp

lemma format_v6_colons:
  assumes "addr_v6 a"
  shows "2 \<le> count_list (ipListParseFormat a) 58"
  using assms
proof (cases rule: format_v6_shape)
  case (1 gs)
  then have "gs \<noteq> []" by auto
  with 1 count_join_hex [of gs] show ?thesis by simp
next
  case (2 h t)
  then show ?thesis by simp
qed

lemma format_v6_has_colon: "addr_v6 a \<Longrightarrow> 58 \<in> set (ipListParseFormat a)"
  using format_v6_colons [of a] by (metis count_list_0_iff not_numeral_le_zero)

lemma format_v4_no_colon: "\<not> addr_v6 a \<Longrightarrow> 58 \<notin> set (ipListParseFormat a)"
  by (auto dest: format_chars_v4 simp: isDigit_def)

lemma ucast_low_id:
  assumes "addr_lo a AND 0xffffffff = addr_lo a"
  shows "ucast (ucast (addr_lo a) :: 32 word) = addr_lo a"
proof -
  have "ucast (ucast (addr_lo a) :: 32 word) = addr_lo a AND 0xffffffff"
    unfolding low32 by (intro bit_word_eqI) (auto simp: bit_simps)
  with assms show ?thesis by simp
qed

lemma ipListParseAddress_format:
  assumes "\<not> addr_v6 a \<longrightarrow> addr_hi a = 0 \<and> addr_lo a AND 0xffffffff = addr_lo a"
  shows "ipListParseAddress (ipListParseFormat a) = Some a"
proof (cases "addr_v6 a")
  case True
  then show ?thesis
    using format_v6_has_colon [OF True] format_notin [of 37 a] ipListParseV6_format [OF True]
    by (cases a) (simp add: ipListParseAddress_def isDigit_def)
next
  case False
  with assms show ?thesis
    using format_v4_no_colon [OF False] ipListParseV4_format [OF False] ucast_low_id [of a]
    by (cases a) (simp add: ipListParseAddress_def)
qed

lemma format_nonempty: "ipListParseFormat a \<noteq> []"
proof (cases "addr_v6 a")
  case True
  then show ?thesis using format_v6_has_colon [OF True] by auto
qed (simp add: ipListParseFormat_def Let_def)

lemma cidr_chars:
  "c \<in> set (ipListParseCidr a p) \<Longrightarrow> isDigit c \<or> c = 46 \<or> c = 47 \<or> c = 58 \<or> (97 \<le> c \<and> c \<le> 102)"
  using format_chars [of c a] by (auto simp: ipListParseCidr_def Let_def dest: set_number_digits split: if_splits)

lemma cidr_notin:
  assumes "\<not> isDigit c" "c \<noteq> 46" "c \<noteq> 47" "c \<noteq> 58" "c < 97 \<or> 102 < c"
  shows "c \<notin> set (ipListParseCidr a p)"
  using cidr_chars [of c a p] assms by auto

lemma cidr_no_space: "c \<in> set (ipListParseCidr a p) \<Longrightarrow> \<not> isSpace c"
  using cidr_chars [of c a p] by (auto simp: isSpace_def isDigit_def)

lemma decimal_prefix: "p \<le> 128 \<Longrightarrow> ipListParseDecimal (number p) 3 = Some (of_nat p)"
  by (rule ipListParseDecimal_number, rule order_trans [OF length_number_le [of p 2]]) simp_all

lemma bits_le: "ipListParseBits a \<le> 128"
  by (simp add: ipListParseBits_def)

lemma prefix_not_greater:
  "p \<le> ipListParseBits a \<Longrightarrow> \<not> (of_nat p :: 32 word) > of_nat (ipListParseBits a)"
  using bits_le [of a] by (simp add: word_less_nat_alt unat_of_nat)

lemmas network_defs = ipListParseNetwork_def ipListParseNetworkSlash_def ipListParseNetworkBody_def

lemma ipListParseNetwork_cidr:
  assumes wf: "networkWf a p"
  shows "ipListParseNetwork (ipListParseCidr a p) = Some (a, p)"
proof -
  have p: "0 < p" "p \<le> ipListParseBits a" "ipListParseMask a p = a" "\<not> (ipListParseIsMapped a \<and> 96 \<le> p)"
    and low: "\<not> addr_v6 a \<longrightarrow> addr_hi a = 0 \<and> addr_lo a AND 0xffffffff = addr_lo a"
    using wf by (auto simp: networkWf_def)
  have tr: "trimmed (ipListParseCidr a p) = ipListParseCidr a p"
    by (rule trimmed_id) (auto dest: cidr_no_space)
  have br: "\<not> startsWith 91 (ipListParseCidr a p)"
    using startsWith_in_set [of 91 "ipListParseCidr a p"] cidr_notin [of 91 a p] by (auto simp: isDigit_def)
  have u: "unat (of_nat p :: 32 word) = p" using p(2) bits_le [of a] by (simp add: unat_of_nat)
  show ?thesis
  proof (cases "p = ipListParseBits a")
    case True
    then have c: "ipListParseCidr a p = ipListParseFormat a" by (simp add: ipListParseCidr_def)
    have "indexOf 47 (ipListParseFormat a) = None" using format_notin [of 47 a] by (simp add: isDigit_def)
    with tr br p True c show ?thesis
      by (auto simp: network_defs ipListParseAddress_format [OF low])
  next
    case False
    then have c: "ipListParseCidr a p = ipListParseFormat a @ 47 # number p"
      using p by (simp add: ipListParseCidr_def)
    have i: "indexOf 47 (ipListParseCidr a p) = Some (length (ipListParseFormat a))"
      unfolding c using format_notin [of 47 a] by (intro indexOf_append_hit) (simp add: isDigit_def)
    have "ipListParseDecimal (number p) 3 = Some (of_nat p)"
      using p bits_le [of a] by (intro decimal_prefix) simp
    with tr br p i c u prefix_not_greater [OF p(2)] show ?thesis
      by (auto simp: network_defs ipListParseAddress_format [OF low])
  qed
qed

lemma ipListParseNetworkBody_wf:
  assumes "ipListParseNetworkBody body pt = Some (a, p)"
  shows "networkWf a p"
proof -
  obtain addr prefix where ad: "ipListParseAddress body = Some addr" and le: "prefix \<le> ipListParseBits addr"
    and res: "(if ipListParseIsMapped addr \<and> prefix \<ge> 96 then
                 (if prefix - 96 = 0 then None
                  else Some (ipListParseMask (ipListParseUnmap addr) (prefix - 96), prefix - 96))
               else if prefix = 0 then None else Some (ipListParseMask addr prefix, prefix)) = Some (a, p)"
  proof -
    from assms obtain addr prefix where ad: "ipListParseAddress body = Some addr"
      and pr: "(case pt of None \<Rightarrow> Some (ipListParseBits addr)
                | Some t \<Rightarrow> (case ipListParseDecimal t 3 of None \<Rightarrow> None
                   | Some v \<Rightarrow> if v > of_nat (ipListParseBits addr) then None else Some (unat v))) = Some prefix"
      and res: "(if ipListParseIsMapped addr \<and> prefix \<ge> 96 then
                 (if prefix - 96 = 0 then None
                  else Some (ipListParseMask (ipListParseUnmap addr) (prefix - 96), prefix - 96))
               else if prefix = 0 then None else Some (ipListParseMask addr prefix, prefix)) = Some (a, p)"
      unfolding ipListParseNetworkBody_def Let_def by (auto split: option.splits)
    from pr have "prefix \<le> ipListParseBits addr"
      by (auto simp: word_less_nat_alt unat_of_nat ipListParseBits_def split: option.splits if_splits)
    with ad res that show ?thesis by blast
  qed
  show ?thesis
  proof (cases "ipListParseIsMapped addr \<and> prefix \<ge> 96")
    case True
    then have "addr_v6 addr" by (simp add: ipListParseIsMapped_def)
    with le have "prefix - 96 \<le> ipListParseBits (ipListParseUnmap addr)"
      by (simp add: ipListParseBits_def ipListParseUnmap_def)
    moreover have "\<not> ipListParseIsMapped (ipListParseUnmap addr)"
      by (simp add: ipListParseIsMapped_def ipListParseUnmap_def)
    moreover have "addr_hi (ipListParseUnmap addr) = 0"
      "addr_lo (ipListParseUnmap addr) AND 0xffffffff = addr_lo (ipListParseUnmap addr)"
      by (simp_all add: ipListParseUnmap_def and.assoc)
    ultimately have "networkWf (ipListParseMask (ipListParseUnmap addr) (prefix - 96)) (prefix - 96)"
      if "prefix - 96 \<noteq> 0" using that by (intro mask_network_wf) auto
    with res True show ?thesis by (auto split: if_splits)
  next
    case False
    with le ipListParseAddress_v4_low [OF ad]
    have "networkWf (ipListParseMask addr prefix) prefix" if "prefix \<noteq> 0"
      using that by (intro mask_network_wf) auto
    with res False show ?thesis by (auto split: if_splits)
  qed
qed

lemma ipListParseNetwork_wf: "ipListParseNetwork t = Some (a, p) \<Longrightarrow> networkWf a p"
  by (auto simp: ipListParseNetwork_def ipListParseNetworkSlash_def Let_def
      intro: ipListParseNetworkBody_wf split: if_splits option.splits)

end
