(* ===== verification/Ip_List_Cover.thy ===== *)
theory Ip_List_Cover
  imports Ip_List_Addr
begin

unbundle bit_operations_syntax

text \<open>
  \<open>ipListParseCoverRange\<close> of \<^verbatim>\<open>src/src/scanner/IpListParse.cpp\<close>: an address range "a-b" becomes a list of
  CIDR blocks. The loop works on two 64-bit halves with explicit carries; it is a
  \<open>partial_function\<close>, so that the theorem that it returns is not part of the definition. The results
  (\<open>coverLoop_correct\<close> and its corollaries) are that for \<open>first \<le> last\<close> it terminates and that
  the blocks are aligned, disjoint, in order, cover exactly the range and cannot be made larger.
\<close>

subsection \<open>Bit counting of \<open><bit>\<close>\<close>

fun natWidth :: "nat \<Rightarrow> nat" where
  "natWidth n = (if n = 0 then 0 else Suc (natWidth (n div 2)))"

declare natWidth.simps [simp del]

fun natTrailing :: "nat \<Rightarrow> nat" where
  "natTrailing n = (if n = 0 \<or> odd n then 0 else Suc (natTrailing (n div 2)))"

declare natTrailing.simps [simp del]

definition bit_width :: "64 word \<Rightarrow> nat" where
  "bit_width w = natWidth (unat w)"

definition countr_zero :: "64 word \<Rightarrow> nat" where
  "countr_zero w = (if w = 0 then 64 else natTrailing (unat w))"

subsection \<open>The loop\<close>

definition coverAlign :: "IpListParseAddr \<Rightarrow> nat" where
  "coverAlign first =
     min (if addr_lo first \<noteq> 0 then countr_zero (addr_lo first)
          else if addr_hi first \<noteq> 0 then 64 + countr_zero (addr_hi first) else 128)
         (ipListParseBits first)"

definition coverFit :: "IpListParseAddr \<Rightarrow> IpListParseAddr \<Rightarrow> nat" where
  "coverFit first lastA =
     (let diffLo = addr_lo lastA - addr_lo first;
          diffHi = addr_hi lastA - addr_hi first - (if addr_lo lastA < addr_lo first then 1 else 0);
          sizeLo = diffLo + 1;
          sizeHi = diffHi + (if sizeLo = 0 then 1 else 0)
      in if sizeHi \<noteq> 0 then 64 + bit_width sizeHi - 1 else bit_width sizeLo - 1)"

definition coverEnd :: "IpListParseAddr \<Rightarrow> nat \<Rightarrow> IpListParseAddr" where
  "coverEnd first k =
     (if k \<ge> 64 then
        first\<lparr>addr_lo := - 1,
              addr_hi := if k > 64 then addr_hi first OR (push_bit (k - 64) 1 - 1) else addr_hi first\<rparr>
      else if k > 0 then first\<lparr>addr_lo := addr_lo first OR (push_bit k 1 - 1)\<rparr>
      else first)"

definition coverNext :: "IpListParseAddr \<Rightarrow> IpListParseAddr" where
  "coverNext blockEnd =
     (let lo' = addr_lo blockEnd + 1
      in blockEnd\<lparr>addr_lo := lo', addr_hi := addr_hi blockEnd + (if lo' = 0 then 1 else 0)\<rparr>)"

partial_function (option) coverLoop ::
  "IpListParseAddr \<Rightarrow> IpListParseAddr \<Rightarrow> (IpListParseAddr \<times> nat) list \<Rightarrow> (IpListParseAddr \<times> nat) list option" where
  "coverLoop first lastA out =
     (let k = min (coverAlign first) (coverFit first lastA);
          out' = out @ [(first, ipListParseBits first - k)];
          blockEnd = coverEnd first k
      in if addr_hi blockEnd = addr_hi lastA \<and> addr_lo blockEnd = addr_lo lastA then Some out'
         else coverLoop (coverNext blockEnd) lastA out')"

text \<open>The code's loop has no bound: \<open>None\<close> stands for not returning, and the inner \<open>None\<close> for
  returning false (a cover that would be the whole address space).\<close>

definition ipListParseCoverRange :: "IpListParseAddr \<Rightarrow> IpListParseAddr \<Rightarrow> qstring list option option" where
  "ipListParseCoverRange first lastA =
     (let topHi = (if addr_v6 first then - 1 else 0);
          topLo = (if addr_v6 first then - 1 else 0xffffffff)
      in if addr_hi first = 0 \<and> addr_lo first = 0 \<and> addr_hi lastA = topHi \<and> addr_lo lastA = topLo
         then Some None
         else map_option (\<lambda>bs. Some (map (\<lambda>(a, p). ipListParseCidr a p) bs)) (coverLoop first lastA []))"

subsection \<open>Addresses as numbers\<close>

definition addrVal :: "IpListParseAddr \<Rightarrow> nat" where
  "addrVal a = unat (addr_hi a) * 2 ^ 64 + unat (addr_lo a)"

definition addrWf :: "IpListParseAddr \<Rightarrow> bool" where
  "addrWf a \<longleftrightarrow> (\<not> addr_v6 a \<longrightarrow> addr_hi a = 0 \<and> unat (addr_lo a) < 2 ^ 32)"

lemma unat64_less: "unat (w :: 64 word) < 2 ^ 64"
proof -
  have "unat w < 2 ^ LENGTH(64)" by (rule unsigned_less)
  then show ?thesis by simp
qed

lemma addrVal_less: "addrVal a < 2 ^ 128"
proof -
  have "addrVal a < (unat (addr_hi a) + 1) * 2 ^ 64"
    using unat64_less [of "addr_lo a"] by (simp add: addrVal_def algebra_simps)
  also have "\<dots> \<le> 2 ^ 64 * 2 ^ 64" using unat64_less [of "addr_hi a"] by (intro mult_le_mono1) simp
  finally show ?thesis by simp
qed

lemma addrWf_less: "addrWf a \<Longrightarrow> addrVal a < 2 ^ ipListParseBits a"
  using addrVal_less [of a] by (auto simp: addrWf_def ipListParseBits_def addrVal_def)

lemma natWidth_bounds: "0 < n \<Longrightarrow> 2 ^ (natWidth n - 1) \<le> n \<and> n < 2 ^ natWidth n \<and> 0 < natWidth n"
proof (induction n rule: natWidth.induct)
  case (1 n)
  show ?case
  proof (cases "n div 2 = 0")
    case True
    with 1 have "n = 1" by auto
    then show ?thesis by (simp add: natWidth.simps)
  next
    case False
    with 1 have IH: "2 ^ (natWidth (n div 2) - 1) \<le> n div 2" "n div 2 < 2 ^ natWidth (n div 2)"
      "0 < natWidth (n div 2)" by auto
    then have "2 * 2 ^ (natWidth (n div 2) - 1) \<le> n" "n < 2 * 2 ^ natWidth (n div 2)" by linarith+
    moreover have "2 * 2 ^ (natWidth (n div 2) - 1) = (2::nat) ^ natWidth (n div 2)"
      using IH(3) by (simp add: power_eq_if)
    ultimately show ?thesis using 1(2) by (simp add: natWidth.simps [of n])
  qed
qed

lemma natTrailing_dvd: "0 < n \<Longrightarrow> 2 ^ natTrailing n dvd n \<and> \<not> 2 ^ Suc (natTrailing n) dvd n"
proof (induction n rule: natTrailing.induct)
  case (1 n)
  show ?case
  proof (cases "odd n")
    case True
    then show ?thesis by (simp add: natTrailing.simps [of n])
  next
    case False
    then obtain m where m: "n = 2 * m" by auto
    have "natTrailing n = Suc (natTrailing m)"
      using False 1(2) m by (subst natTrailing.simps) simp
    moreover have "2 ^ natTrailing m dvd m \<and> \<not> 2 ^ Suc (natTrailing m) dvd m"
      using 1 False m by auto
    ultimately show ?thesis using m by simp
  qed
qed

lemma addrVal_diff:
  assumes "addrVal f \<le> addrVal l"
  defines "dl \<equiv> addr_lo l - addr_lo f"
    and "dh \<equiv> addr_hi l - addr_hi f - (if addr_lo l < addr_lo f then 1 else 0)"
  shows "unat dh * 2 ^ 64 + unat dl = addrVal l - addrVal f"
proof -
  let ?lh = "unat (addr_hi l)" and ?ll = "unat (addr_lo l)"
    and ?fh = "unat (addr_hi f)" and ?fl = "unat (addr_lo f)"
  have b: "?lh < 2 ^ 64" "?ll < 2 ^ 64" "?fh < 2 ^ 64" "?fl < 2 ^ 64" by (rule unat64_less)+
  show ?thesis
  proof (cases "addr_lo l < addr_lo f")
    case True
    then have lt: "?ll < ?fl" by (simp add: word_less_nat_alt)
    have "?fh < ?lh"
    proof (rule ccontr)
      assume "\<not> ?fh < ?lh"
      then have "?lh * 2 ^ 64 \<le> ?fh * 2 ^ 64" by simp
      with lt assms(1) show False by (simp add: addrVal_def)
    qed
    then have hs: "unat dh = ?lh - ?fh - 1" using True b
      by (simp add: dh_def unat_sub_if' unat_1)
    have ls: "unat dl = ?ll + 2 ^ 64 - ?fl" using lt by (simp add: dl_def unat_sub_if')
    obtain e where "?lh = ?fh + e + 1" using \<open>?fh < ?lh\<close> by (metis add.assoc add_Suc_right less_iff_Suc_add Suc_eq_plus1)
    with hs ls lt b show ?thesis by (simp add: addrVal_def algebra_simps)
  next
    case False
    then have le: "?fl \<le> ?ll" by (simp add: word_less_nat_alt)
    have "?fh \<le> ?lh"
    proof (rule ccontr)
      assume "\<not> ?fh \<le> ?lh"
      then have "(?lh + 1) * 2 ^ 64 \<le> ?fh * 2 ^ 64" by (intro mult_le_mono1) simp
      with b assms(1) show False by (simp add: addrVal_def algebra_simps)
    qed
    then have hs: "unat dh = ?lh - ?fh" using False by (simp add: dh_def unat_sub_if')
    have ls: "unat dl = ?ll - ?fl" using le by (simp add: dl_def unat_sub_if')
    obtain e where "?lh = ?fh + e" using \<open>?fh \<le> ?lh\<close> by (metis le_Suc_ex)
    with hs ls le show ?thesis by (simp add: addrVal_def algebra_simps)
  qed
qed

lemma pair_succ:
  fixes h l :: "64 word"
  assumes "unat h * 2 ^ 64 + unat l + 1 < 2 ^ 128"
  shows "unat (h + (if l + 1 = 0 then 1 else 0)) * 2 ^ 64 + unat (l + 1)
       = unat h * 2 ^ 64 + unat l + 1"
proof (cases "l + 1 = 0")
  case True
  then have "unat (l + 1) = 0" by simp
  then have top: "unat l + 1 = 2 ^ 64"
    using unat64_less [of l] by (cases "unat l + 1 = 2 ^ 64") (simp_all add: unat_word_ariths)
  with assms have "unat h + 1 < 2 ^ 64" by simp
  with top True show ?thesis by (simp add: unat_word_ariths)
next
  case False
  then have "unat l + 1 < 2 ^ 64"
    using unat64_less [of l] unat_eq_zero [of "l + 1"]
    by (cases "unat l + 1 = 2 ^ 64") (simp_all add: unat_word_ariths)
  with False show ?thesis by (simp add: unat_word_ariths)
qed


lemma coverFit_bounds:
  assumes "addrVal f \<le> addrVal l" "addrVal l - addrVal f + 1 < 2 ^ 128"
  shows "2 ^ coverFit f l \<le> addrVal l - addrVal f + 1 \<and> addrVal l - addrVal f + 1 < 2 ^ Suc (coverFit f l)"
proof -
  define dl where "dl = addr_lo l - addr_lo f"
  define dh where "dh = addr_hi l - addr_hi f - (if addr_lo l < addr_lo f then 1 else 0)"
  define sh where "sh = dh + (if dl + 1 = 0 then 1 else 0)"
  have d: "unat dh * 2 ^ 64 + unat dl = addrVal l - addrVal f"
    unfolding dl_def dh_def by (rule addrVal_diff [OF assms(1)])
  have n: "unat sh * 2 ^ 64 + unat (dl + 1) = addrVal l - addrVal f + 1"
    using pair_succ [of dh dl] assms(2) unfolding d sh_def by simp
  have fit: "coverFit f l = (if sh \<noteq> 0 then 64 + bit_width sh - 1 else bit_width (dl + 1) - 1)"
    by (simp add: coverFit_def Let_def sh_def dh_def dl_def)
  show ?thesis
  proof (cases "sh = 0")
    case True
    with n have "unat (dl + 1) = addrVal l - addrVal f + 1" by simp
    then show ?thesis
      using natWidth_bounds [of "unat (dl + 1)"] True fit by (simp add: bit_width_def)
  next
    case False
    then have "0 < unat sh" by (simp add: unat_gt_0)
    then have w: "2 ^ (bit_width sh - 1) \<le> unat sh" "unat sh + 1 \<le> 2 ^ bit_width sh" "0 < bit_width sh"
      using natWidth_bounds [of "unat sh"] by (simp_all add: bit_width_def Suc_le_eq)
    have "64 + bit_width sh - 1 = (bit_width sh - 1) + 64" using w(3) by simp
    then have "2 ^ (64 + bit_width sh - 1) = 2 ^ (bit_width sh - 1) * (2 ^ 64 :: nat)"
      by (simp only: power_add)
    also have "\<dots> \<le> unat sh * 2 ^ 64" using w(1) by (intro mult_le_mono1)
    finally have lower: "2 ^ (64 + bit_width sh - 1) \<le> addrVal l - addrVal f + 1" using n by linarith
    have "(unat sh + 1) * 2 ^ 64 \<le> 2 ^ bit_width sh * 2 ^ 64" using w(2) by (intro mult_le_mono1)
    moreover have "2 ^ bit_width sh * 2 ^ 64 = (2::nat) ^ Suc (64 + bit_width sh - 1)"
      using w(3) by (simp add: power_add mult.commute)
    ultimately have "addrVal l - addrVal f + 1 < 2 ^ Suc (64 + bit_width sh - 1)"
      using n unat64_less [of "dl + 1"] by (simp only: distrib_right)
    with lower False fit show ?thesis by simp
  qed
qed

lemma coverAlign_dvd: "2 ^ coverAlign f dvd addrVal f"
proof -
  have le: "(2::nat) ^ coverAlign f dvd 2 ^ (if addr_lo f \<noteq> 0 then countr_zero (addr_lo f)
      else if addr_hi f \<noteq> 0 then 64 + countr_zero (addr_hi f) else 128)"
    unfolding coverAlign_def by (intro le_imp_power_dvd) simp
  consider "addr_lo f \<noteq> 0" | "addr_lo f = 0" "addr_hi f \<noteq> 0" | "addr_lo f = 0" "addr_hi f = 0" by blast
  then show ?thesis
  proof cases
    case 1
    then have t: "2 ^ natTrailing (unat (addr_lo f)) dvd unat (addr_lo f)"
      using natTrailing_dvd [of "unat (addr_lo f)"] by (simp add: unat_gt_0)
    moreover have "0 < unat (addr_lo f)" using 1 by (simp add: unat_gt_0)
    ultimately have "2 ^ natTrailing (unat (addr_lo f)) \<le> unat (addr_lo f)" by (intro dvd_imp_le)
    then have "2 ^ natTrailing (unat (addr_lo f)) < (2 :: nat) ^ 64"
      using unat64_less [of "addr_lo f"] by (rule le_less_trans)
    then have "natTrailing (unat (addr_lo f)) < 64" by (rule power_less_imp_less_exp [rotated]) simp
    then have "(2::nat) ^ natTrailing (unat (addr_lo f)) dvd 2 ^ 64" by (intro le_imp_power_dvd) simp
    with t have "2 ^ natTrailing (unat (addr_lo f)) dvd addrVal f"
      unfolding addrVal_def by (intro dvd_add dvd_mult)
    with le 1 show ?thesis by (auto simp: countr_zero_def intro: dvd_trans)
  next
    case 2
    then have "2 ^ natTrailing (unat (addr_hi f)) dvd unat (addr_hi f)"
      using natTrailing_dvd [of "unat (addr_hi f)"] by (simp add: unat_gt_0)
    then have "2 ^ (64 + natTrailing (unat (addr_hi f))) dvd addrVal f"
      using 2 unfolding addrVal_def by (simp add: power_add mult.commute [of _ "18446744073709551616"])
    with le 2 show ?thesis by (auto simp: countr_zero_def intro: dvd_trans)
  next
    case 3
    then show ?thesis by (simp add: addrVal_def)
  qed
qed

lemma coverAlign_le: "coverAlign f \<le> ipListParseBits f"
  by (simp add: coverAlign_def)

lemma coverAlign_maximal:
  assumes "2 ^ m dvd addrVal f" "m \<le> ipListParseBits f"
  shows "m \<le> coverAlign f"
proof (rule ccontr)
  assume "\<not> m \<le> coverAlign f"
  with assms(2) have lt: "(if addr_lo f \<noteq> 0 then countr_zero (addr_lo f)
      else if addr_hi f \<noteq> 0 then 64 + countr_zero (addr_hi f) else 128) < m"
    by (simp add: coverAlign_def)
  have m128: "m \<le> 128" using assms(2) by (simp add: ipListParseBits_def split: if_splits)
  show False
  proof (cases "addr_lo f = 0")
    case True
    with lt m128 have hi: "addr_hi f \<noteq> 0" "Suc (64 + natTrailing (unat (addr_hi f))) \<le> m"
      by (auto simp: countr_zero_def split: if_splits)
    then have "2 ^ (64 + Suc (natTrailing (unat (addr_hi f)))) dvd addrVal f"
      using assms(1) by (auto intro: dvd_trans [OF le_imp_power_dvd])
    then have "2 ^ Suc (natTrailing (unat (addr_hi f))) dvd unat (addr_hi f)"
      using True unfolding addrVal_def power_add by (subst (asm) mult.commute) simp
    then show False using natTrailing_dvd [of "unat (addr_hi f)"] hi(1) by (simp add: unat_gt_0)
  next
    case False
    let ?t = "natTrailing (unat (addr_lo f))"
    have pos: "0 < unat (addr_lo f)" using False by (simp add: unat_gt_0)
    from False lt have "Suc ?t \<le> m" by (simp add: countr_zero_def)
    then have d: "2 ^ Suc ?t dvd addrVal f" using assms(1) by (rule dvd_trans [OF le_imp_power_dvd])
    have "2 ^ ?t \<le> unat (addr_lo f)" using natTrailing_dvd [OF pos] pos by (intro dvd_imp_le) auto
    then have "2 ^ ?t < (2 :: nat) ^ 64" using unat64_less [of "addr_lo f"] by (rule le_less_trans)
    then have "?t < 64" by (rule power_less_imp_less_exp [rotated]) simp
    then have "(2::nat) ^ Suc ?t dvd 2 ^ 64" by (intro le_imp_power_dvd) simp
    then have "2 ^ Suc ?t dvd unat (addr_hi f) * 2 ^ 64" by (rule dvd_mult)
    with d have "2 ^ Suc ?t dvd unat (addr_lo f)" unfolding addrVal_def by (simp only: dvd_add_right_iff)
    with natTrailing_dvd [OF pos] show False by blast
  qed
qed

lemma unat_or_mask:
  fixes w :: "64 word"
  assumes "2 ^ k dvd unat w" "k \<le> 64"
  shows "unat (w OR (push_bit k 1 - 1)) = unat w + (2 ^ k - 1)"
proof -
  have m: "push_bit k 1 - 1 = (mask k :: 64 word)" by (simp add: mask_eq_exp_minus_1 push_bit_eq_mult)
  have u: "unat (mask k :: 64 word) = mask k" using assms(2)
    by (intro bit_eqI) (auto simp: bit_simps)
  have "unat w AND mask k = 0" using assms(1)
    by (simp add: take_bit_eq_mask [symmetric] take_bit_eq_mod)
  then have "unat w OR mask k = unat w + mask k" by (simp add: disjunctive_add_eq_or)
  then show ?thesis using assms(2) unfolding m
    by (simp add: unsigned_or_eq u, simp add: mask_eq_exp_minus_1)
qed

lemma coverEnd_val:
  assumes "2 ^ k dvd addrVal f" "k < 128"
  shows "addrVal (coverEnd f k) = addrVal f + (2 ^ k - 1)"
proof (cases "k < 64")
  case True
  then have "(2::nat) ^ k dvd 2 ^ 64" by (intro le_imp_power_dvd) simp
  then have "2 ^ k dvd unat (addr_hi f) * 2 ^ 64" by (rule dvd_mult)
  with assms(1) have "2 ^ k dvd unat (addr_lo f)" unfolding addrVal_def by (simp only: dvd_add_right_iff)
  then have "unat (addr_lo (coverEnd f k)) = unat (addr_lo f) + (2 ^ k - 1)"
    using True unat_or_mask [of k "addr_lo f"] by (simp add: coverEnd_def del: unsigned_or_eq)
  moreover have "addr_hi (coverEnd f k) = addr_hi f" using True by (simp add: coverEnd_def)
  ultimately show ?thesis unfolding addrVal_def by (simp only: add.assoc)
next
  case False
  then obtain j where j: "k = 64 + j" by (metis le_Suc_ex not_less)
  have d: "2 ^ 64 * 2 ^ j dvd unat (addr_hi f) * 2 ^ 64 + unat (addr_lo f)"
    using assms(1) unfolding addrVal_def j power_add .
  then have "2 ^ 64 dvd unat (addr_hi f) * 2 ^ 64 + unat (addr_lo f)" by (rule dvd_mult_left)
  then have "2 ^ 64 dvd unat (addr_lo f)" by (simp only: dvd_add_right_iff dvd_triv_right)
  then have lo: "unat (addr_lo f) = 0" using unat64_less [of "addr_lo f"] by (auto dest: nat_dvd_not_less)
  have hi: "2 ^ j dvd unat (addr_hi f)" using d unfolding lo by (simp add: mult.commute)
  have m1: "unat (- 1 :: 64 word) = 2 ^ 64 - 1" by (simp add: unsigned_minus_1_eq_mask mask_eq_exp_minus_1)
  have j64: "j \<le> 64" using assms(2) j by simp
  have "unat (addr_hi (coverEnd f k)) = unat (addr_hi f) + (2 ^ j - 1)"
    using j unat_or_mask [OF hi j64] by (cases "j = 0") (simp_all add: coverEnd_def del: unsigned_or_eq)
  moreover have "unat (addr_lo (coverEnd f k)) = 2 ^ 64 - 1" using j m1 by (simp add: coverEnd_def)
  moreover have "(2 ^ j - 1) * 2 ^ 64 + (2 ^ 64 - 1) = (2 ^ k - 1 :: nat)"
    unfolding j power_add by (simp add: algebra_simps)
  ultimately show ?thesis unfolding addrVal_def lo by (simp only: distrib_right)
qed

lemma coverEnd_v6 [simp]: "addr_v6 (coverEnd f k) = addr_v6 f"
  by (simp add: coverEnd_def)

lemma coverNext_v6 [simp]: "addr_v6 (coverNext b) = addr_v6 b"
  by (simp add: coverNext_def Let_def)

lemma coverNext_val: "addrVal b + 1 < 2 ^ 128 \<Longrightarrow> addrVal (coverNext b) = addrVal b + 1"
  using pair_succ [of "addr_hi b" "addr_lo b"] by (simp add: addrVal_def coverNext_def Let_def)

lemma addrVal_eq: "addrVal a = addrVal b \<longleftrightarrow> addr_hi a = addr_hi b \<and> addr_lo a = addr_lo b"
proof
  assume eq: "addrVal a = addrVal b"
  have "unat (addr_hi a) = unat (addr_hi b)"
    using arg_cong [OF eq, of "\<lambda>n. n div 2 ^ 64"] unat64_less [of "addr_lo a"] unat64_less [of "addr_lo b"]
    by (simp add: addrVal_def)
  moreover from this eq have "unat (addr_lo a) = unat (addr_lo b)" by (simp add: addrVal_def)
  ultimately show "addr_hi a = addr_hi b \<and> addr_lo a = addr_lo b" by (simp add: word_unat_eq_iff)
qed (simp add: addrVal_def)

lemma addrWf_iff: "\<not> addr_v6 a \<Longrightarrow> addrWf a \<longleftrightarrow> addrVal a < 2 ^ 32"
proof -
  assume v4: "\<not> addr_v6 a"
  have "addr_hi a = 0" if "addrVal a < 2 ^ 32"
  proof -
    have "unat (addr_hi a) * 2 ^ 64 < 2 ^ 32" using that by (simp add: addrVal_def)
    then have "unat (addr_hi a) = 0" by (cases "unat (addr_hi a)") simp_all
    then show ?thesis by (simp add: unat_eq_zero)
  qed
  with v4 show ?thesis by (auto simp: addrWf_def addrVal_def)
qed

subsection \<open>The specification: aligned blocks that tile an interval\<close>

text \<open>\<open>tiles bits s bs e\<close>: the blocks \<open>bs\<close>, as (first address, prefix length), lie end to end from
  \<open>s\<close> up to but not including \<open>e\<close>, each on a multiple of its size. \<open>greedy\<close> adds that no block
  could be replaced by a larger one that still fits.\<close>

fun tiles :: "nat \<Rightarrow> nat \<Rightarrow> (nat \<times> nat) list \<Rightarrow> nat \<Rightarrow> bool" where
  "tiles bits s [] e \<longleftrightarrow> s = e"
| "tiles bits s ((a, p) # bs) e \<longleftrightarrow>
     a = s \<and> p \<le> bits \<and> 2 ^ (bits - p) dvd s \<and> tiles bits (s + 2 ^ (bits - p)) bs e"

fun greedy :: "nat \<Rightarrow> (nat \<times> nat) list \<Rightarrow> nat \<Rightarrow> bool" where
  "greedy bits [] e \<longleftrightarrow> True"
| "greedy bits ((a, p) # bs) e \<longleftrightarrow>
     (\<forall>m \<le> bits. bits - p < m \<longrightarrow> 2 ^ m dvd a \<longrightarrow> e < a + 2 ^ m) \<and> greedy bits bs e"

abbreviation blockVals :: "(IpListParseAddr \<times> nat) list \<Rightarrow> (nat \<times> nat) list" where
  "blockVals \<equiv> map (\<lambda>(a, p). (addrVal a, p))"

lemma coverStep:
  assumes le: "addrVal f \<le> addrVal l" and size: "addrVal l - addrVal f + 1 < 2 ^ ipListParseBits f"
  defines "k \<equiv> min (coverAlign f) (coverFit f l)"
  shows "k < ipListParseBits f" "2 ^ k dvd addrVal f" "addrVal (coverEnd f k) = addrVal f + (2 ^ k - 1)"
    "addrVal f + 2 ^ k \<le> addrVal l + 1"
    "m \<le> ipListParseBits f \<Longrightarrow> k < m \<Longrightarrow> 2 ^ m dvd addrVal f \<Longrightarrow> addrVal l + 1 < addrVal f + 2 ^ m"
proof -
  have b128: "ipListParseBits f \<le> 128" by (simp add: ipListParseBits_def)
  then have "(2::nat) ^ ipListParseBits f \<le> 2 ^ 128" by (intro power_increasing) simp_all
  with size have "addrVal l - addrVal f + 1 < 2 ^ 128" by (rule less_le_trans)
  note fit = coverFit_bounds [OF le this]
  have "(2::nat) ^ coverFit f l < 2 ^ ipListParseBits f" using fit size by (meson le_less_trans)
  then have fb: "coverFit f l < ipListParseBits f" by (rule power_less_imp_less_exp [rotated]) simp
  then show kb: "k < ipListParseBits f" by (simp add: k_def)
  show d: "2 ^ k dvd addrVal f"
    using coverAlign_dvd [of f] unfolding k_def by (rule dvd_trans [rotated]) (simp add: le_imp_power_dvd)
  show "addrVal (coverEnd f k) = addrVal f + (2 ^ k - 1)"
    using kb b128 by (intro coverEnd_val [OF d]) simp
  have "(2::nat) ^ k \<le> 2 ^ coverFit f l" by (intro power_increasing) (simp_all add: k_def)
  with fit le show "addrVal f + 2 ^ k \<le> addrVal l + 1" by linarith
  show "addrVal l + 1 < addrVal f + 2 ^ m" if "m \<le> ipListParseBits f" "k < m" "2 ^ m dvd addrVal f"
  proof -
    have "m \<le> coverAlign f" using that by (intro coverAlign_maximal)
    with that(2) have "Suc (coverFit f l) \<le> m" by (simp add: k_def)
    then have "(2::nat) ^ Suc (coverFit f l) \<le> 2 ^ m" by (intro power_increasing) simp_all
    with fit le show ?thesis by linarith
  qed
qed

lemma coverLoop_correct:
  assumes "addrVal f \<le> addrVal l" "addrVal l - addrVal f + 1 < 2 ^ ipListParseBits f"
  shows "\<exists>bs. coverLoop f l out = Some (out @ bs)
     \<and> tiles (ipListParseBits f) (addrVal f) (blockVals bs) (addrVal l + 1)
     \<and> greedy (ipListParseBits f) (blockVals bs) (addrVal l + 1)
     \<and> (\<forall>(a, p) \<in> set bs. addr_v6 a = addr_v6 f \<and> 0 < p \<and> p \<le> ipListParseBits f)"
  using assms
proof (induction "addrVal l - addrVal f" arbitrary: f out rule: less_induct)
  case less
  define k where "k = min (coverAlign f) (coverFit f l)"
  note step = coverStep [OF less.prems, folded k_def]
  define out' where "out' = out @ [(f, ipListParseBits f - k)]"
  have unf: "coverLoop f l out = (if addrVal (coverEnd f k) = addrVal l then Some out'
      else coverLoop (coverNext (coverEnd f k)) l out')"
    by (subst coverLoop.simps) (simp add: Let_def k_def [symmetric] out'_def addrVal_eq)
  have kk: "ipListParseBits f - (ipListParseBits f - k) = k" using step(1) by simp
  show ?case
  proof (cases "addrVal (coverEnd f k) = addrVal l")
    case True
    have "coverLoop f l out = Some (out @ [(f, ipListParseBits f - k)])" using unf True by (simp add: out'_def)
    moreover have "addrVal f + 2 ^ k = addrVal l + 1"
      using True step(3) one_le_power [of "2::nat" k] by linarith
    ultimately show ?thesis using step(1,2,5) kk
      by (intro exI [of _ "[(f, ipListParseBits f - k)]"]) auto
  next
    case False
    define g where "g = coverNext (coverEnd f k)"
    have e: "addrVal (coverEnd f k) < addrVal l" using False step(3,4) by simp
    then have "addrVal (coverEnd f k) + 1 < 2 ^ 128" using addrVal_less [of l] by simp
    then have gv: "addrVal g = addrVal f + 2 ^ k" unfolding g_def using step(3) by (simp add: coverNext_val)
    have v6: "addr_v6 g = addr_v6 f" "ipListParseBits g = ipListParseBits f"
      by (simp_all add: g_def ipListParseBits_def)
    have gl: "addrVal g \<le> addrVal l" using e step(3) gv by simp
    have "addrVal l - addrVal g < addrVal l - addrVal f"
      using gl gv one_le_power [of "2::nat" k] by linarith
    moreover have "addrVal l - addrVal g + 1 < 2 ^ ipListParseBits g" using less.prems(2) gv v6 by simp
    ultimately obtain bs where bs: "coverLoop g l out' = Some (out' @ bs)"
      "tiles (ipListParseBits f) (addrVal g) (blockVals bs) (addrVal l + 1)"
      "greedy (ipListParseBits f) (blockVals bs) (addrVal l + 1)"
      "\<forall>(a, p) \<in> set bs. addr_v6 a = addr_v6 f \<and> 0 < p \<and> p \<le> ipListParseBits f"
      using less.hyps [of g out'] gl v6 by auto
    have "coverLoop f l out = Some (out @ (f, ipListParseBits f - k) # bs)"
      using unf False bs(1) by (simp add: g_def out'_def)
    then show ?thesis using step(1,2,5) kk bs(2-4) gv
      by (intro exI [of _ "(f, ipListParseBits f - k) # bs"]) auto
  qed
qed

subsection \<open>A greedy tiling has the fewest blocks\<close>

text \<open>Aligned blocks are nested or disjoint, so a tiling that starts at a greedy block has an initial
  part that tiles exactly that block.\<close>

lemma tiles_le: "tiles bits s bs e \<Longrightarrow> s \<le> e"
  by (induction bits s bs e rule: tiles.induct) auto

lemma tiles_split:
  assumes "tiles bits s bs e" "2 ^ k dvd t" "t \<le> s" "s < t + 2 ^ k" "t + 2 ^ k \<le> e"
    and "\<forall>m \<le> bits. k < m \<longrightarrow> 2 ^ m dvd t \<longrightarrow> e < t + 2 ^ m"
  shows "\<exists>cs ds. bs = cs @ ds \<and> cs \<noteq> [] \<and> tiles bits (t + 2 ^ k) ds e"
  using assms
proof (induction bits s bs e rule: tiles.induct)
  case (1 bits s e)
  then show ?case by simp
next
  case (2 bits s a p bs e)
  define j where "j = bits - p"
  have p: "a = s" "2 ^ j dvd s" "tiles bits (s + 2 ^ j) bs e" using "2.prems"(1) by (auto simp: j_def)
  have "s + 2 ^ j \<le> t + 2 ^ k"
  proof (cases "k < j")
    case True
    then have "(2::nat) ^ k dvd 2 ^ j" by (intro le_imp_power_dvd) simp
    then have "2 ^ k dvd s" using p(2) by (rule dvd_trans)
    then have "2 ^ k dvd s - t" using "2.prems"(2) by (intro dvd_diff_nat)
    moreover have "s - t < 2 ^ k" using "2.prems"(3,4) by linarith
    ultimately have "s = t" using "2.prems"(3) by (metis diff_is_0_eq le_antisym nat_dvd_not_less not_gr_zero)
    moreover have "j \<le> bits" by (simp add: j_def)
    ultimately have "e < s + 2 ^ j" using "2.prems"(6) True p(2) by auto
    with tiles_le [OF p(3)] show ?thesis by simp
  next
    case False
    then have "(2::nat) ^ j dvd 2 ^ k" by (intro le_imp_power_dvd) simp
    then have "2 ^ j dvd t + 2 ^ k - s" using "2.prems"(2) p(2) by (intro dvd_diff_nat dvd_add) (auto intro: dvd_trans)
    then have "2 ^ j \<le> t + 2 ^ k - s" using "2.prems"(4) by (intro dvd_imp_le) simp_all
    with "2.prems"(4) show ?thesis by linarith
  qed
  then consider "s + 2 ^ j = t + 2 ^ k" | "s + 2 ^ j < t + 2 ^ k" by linarith
  then show ?case
  proof cases
    case 1
    with p(3) show ?thesis by (intro exI [of _ "[(a, p)]"] exI [of _ bs]) simp
  next
    case 2
    then obtain cs ds where "bs = cs @ ds" "tiles bits (t + 2 ^ k) ds e"
      using "2.IH" p(3) "2.prems" by (auto simp: j_def)
    then show ?thesis by (intro exI [of _ "(a, p) # cs"] exI [of _ ds]) simp
  qed
qed

lemma greedy_fewest:
  assumes "tiles bits s bs e" "greedy bits bs e" "tiles bits s cs e"
  shows "length bs \<le> length cs"
  using assms
proof (induction bits s bs e arbitrary: cs rule: tiles.induct)
  case (1 bits s e)
  then show ?case by simp
next
  case (2 bits s a p bs e)
  define k where "k = bits - p"
  have a: "a = s" "2 ^ k dvd s" "tiles bits (s + 2 ^ k) bs e" using "2.prems"(1) by (auto simp: k_def)
  obtain cs' ds where ds: "cs = cs' @ ds" "cs' \<noteq> []" "tiles bits (s + 2 ^ k) ds e"
    using tiles_split [OF "2.prems"(3) a(2)] "2.prems"(2) tiles_le [OF a(3)] a(1) by (auto simp: k_def)
  have "length bs \<le> length ds" using "2.IH" [of ds] a ds "2.prems"(2) by (simp add: k_def)
  then show ?case using ds(1,2) by (cases cs') auto
qed

subsection \<open>\<open>ipListParseCoverRange\<close>\<close>

lemma tiles_union:
  "tiles bits s bs e \<Longrightarrow> (\<Union>(a, p) \<in> set bs. {a ..< a + 2 ^ (bits - p)}) = {s ..< e}"
proof (induction bits s bs e rule: tiles.induct)
  case (2 bits s a p bs e)
  then have "s + 2 ^ (bits - p) \<le> e" by (auto intro: tiles_le)
  with 2 show ?case by (auto simp: ivl_disj_un)
qed auto

lemma whole_space_iff:
  assumes "addrWf first" "addrWf lastA" "addr_v6 lastA = addr_v6 first" "addrVal first \<le> addrVal lastA"
  shows "addr_hi first = 0 \<and> addr_lo first = 0 \<and> addr_hi lastA = (if addr_v6 first then - 1 else 0)
       \<and> addr_lo lastA = (if addr_v6 first then - 1 else 0xffffffff)
     \<longleftrightarrow> addrVal lastA - addrVal first + 1 = 2 ^ ipListParseBits first"
proof -
  define top :: IpListParseAddr where "top = \<lparr>addr_v6 = addr_v6 first,
    addr_hi = (if addr_v6 first then - 1 else 0), addr_lo = (if addr_v6 first then - 1 else 0xffffffff)\<rparr>"
  define bot :: IpListParseAddr where "bot = \<lparr>addr_v6 = addr_v6 first, addr_hi = 0, addr_lo = 0\<rparr>"
  have tv: "addrVal top = 2 ^ ipListParseBits first - 1"
    by (simp add: top_def addrVal_def ipListParseBits_def unsigned_minus_1_eq_mask mask_eq_exp_minus_1)
  have bv: "addrVal bot = 0" by (simp add: bot_def addrVal_def)
  have "addrVal lastA < 2 ^ ipListParseBits first"
    using addrWf_less [OF assms(2)] assms(3) by (simp add: ipListParseBits_def)
  then have "addrVal lastA - addrVal first + 1 = 2 ^ ipListParseBits first
      \<longleftrightarrow> addrVal first = addrVal bot \<and> addrVal lastA = addrVal top"
    using assms(4) tv bv by linarith
  then show ?thesis by (simp add: addrVal_eq top_def bot_def)
qed

lemma ipListParseCoverRange_cases:
  assumes "addrWf first" "addrWf lastA" "addr_v6 lastA = addr_v6 first" "addrVal first \<le> addrVal lastA"
  shows "if addrVal lastA - addrVal first + 1 = 2 ^ ipListParseBits first
     then ipListParseCoverRange first lastA = Some None
     else \<exists>bs. ipListParseCoverRange first lastA = Some (Some (map (\<lambda>(a, p). ipListParseCidr a p) bs))
       \<and> tiles (ipListParseBits first) (addrVal first) (blockVals bs) (addrVal lastA + 1)
       \<and> greedy (ipListParseBits first) (blockVals bs) (addrVal lastA + 1)
       \<and> (\<forall>(a, p) \<in> set bs. addr_v6 a = addr_v6 first \<and> 0 < p \<and> p \<le> ipListParseBits first)"
proof (cases "addrVal lastA - addrVal first + 1 = 2 ^ ipListParseBits first")
  case True
  then show ?thesis using whole_space_iff [OF assms]
    by (auto simp: ipListParseCoverRange_def Let_def)
next
  case False
  have "addrVal lastA < 2 ^ ipListParseBits first"
    using addrWf_less [OF assms(2)] assms(3) by (simp add: ipListParseBits_def)
  with False have "addrVal lastA - addrVal first + 1 < 2 ^ ipListParseBits first" by linarith
  from coverLoop_correct [OF assms(4) this, of "[]"] obtain bs
    where "coverLoop first lastA [] = Some bs"
      "tiles (ipListParseBits first) (addrVal first) (blockVals bs) (addrVal lastA + 1)"
      "greedy (ipListParseBits first) (blockVals bs) (addrVal lastA + 1)"
      "\<forall>(a, p) \<in> set bs. addr_v6 a = addr_v6 first \<and> 0 < p \<and> p \<le> ipListParseBits first" by auto
  moreover have "ipListParseCoverRange first lastA
      = map_option (\<lambda>bs. Some (map (\<lambda>(a, p). ipListParseCidr a p) bs)) (coverLoop first lastA [])"
    unfolding ipListParseCoverRange_def Let_def whole_space_iff [OF assms] using False by (simp only: if_False)
  ultimately show ?thesis using False by auto
qed

subsection \<open>Aligned blocks are masked networks\<close>

lemma dvd_low_bits:
  assumes "2 ^ k dvd unat (w :: 64 word)" "n < k"
  shows "\<not> bit w n"
proof
  assume b: "bit w n"
  then have "n < 64" by (auto dest: bit_imp_le_length)
  with b have "bit (take_bit k (unat w)) n" using assms(2) by (simp add: bit_simps)
  moreover have "take_bit k (unat w) = 0" using assms(1) by (simp add: take_bit_eq_mod)
  ultimately show False by simp
qed

lemma low32_less: "w AND 0xffffffff = w \<longleftrightarrow> unat (w :: 64 word) < 2 ^ 32"
proof -
  have "w AND 0xffffffff = take_bit 32 w" unfolding low32 by (simp add: take_bit_eq_mask)
  then have "w AND 0xffffffff = w \<longleftrightarrow> take_bit 32 w = w" by simp
  also have "\<dots> \<longleftrightarrow> unat (take_bit 32 w) = unat w" by (simp add: word_unat_eq_iff)
  also have "\<dots> \<longleftrightarrow> unat w < 2 ^ 32"
    by (simp only: unsigned_take_bit_eq take_bit_nat_eq_self_iff)
  finally show ?thesis .
qed

lemma addrWf_low: "addrWf a \<longleftrightarrow> (\<not> addr_v6 a \<longrightarrow> addr_hi a = 0 \<and> addr_lo a AND 0xffffffff = addr_lo a)"
  by (simp only: addrWf_def low32_less)

lemma mask_aligned_v4:
  fixes lo :: "64 word"
  assumes "unat lo < 2 ^ 32" "2 ^ (32 - p) dvd unat lo"
  shows "lo AND (push_bit (32 - p) 0xffffffff AND 0xffffffff) = lo"
proof -
  have low: "bit lo n \<Longrightarrow> n < 32" for n
    using assms(1) by (metis bit_take_bit_iff low32 low32_less take_bit_eq_mask)
  show ?thesis unfolding low32
    using low dvd_low_bits [OF assms(2)]
    by (intro bit_word_eqI) (auto simp: bit_simps not_less [symmetric] intro: less_imp_diff_less)
qed

lemma mask_aligned_word:
  fixes w :: "64 word"
  assumes "2 ^ k dvd unat w"
  shows "w AND NOT (mask k) = w"
  using dvd_low_bits [OF assms] by (intro bit_word_eqI) (auto simp: bit_simps not_less [symmetric])

lemma mask_aligned:
  assumes "addrWf a" "0 < p" "p \<le> ipListParseBits a" "2 ^ (ipListParseBits a - p) dvd addrVal a"
  shows "ipListParseMask a p = a"
proof (cases "addr_v6 a")
  case False
  with assms(1,4) have "unat (addr_lo a) < 2 ^ 32" "2 ^ (32 - p) dvd unat (addr_lo a)"
    by (simp_all add: addrWf_def addrVal_def ipListParseBits_def)
  then show ?thesis using False mask_aligned_v4 by (simp add: ipListParseMask_def)
next
  case True
  have d: "2 ^ (128 - p) dvd unat (addr_hi a) * 2 ^ 64 + unat (addr_lo a)"
    using assms(4) True by (simp only: addrVal_def ipListParseBits_def if_True)
  show ?thesis
  proof (cases "p \<le> 64")
    case True
    then have "128 - p = 64 + (64 - p)" by simp
    with d have d': "2 ^ 64 * 2 ^ (64 - p) dvd unat (addr_hi a) * 2 ^ 64 + unat (addr_lo a)"
      by (simp only: power_add)
    then have "2 ^ 64 dvd unat (addr_hi a) * 2 ^ 64 + unat (addr_lo a)" by (rule dvd_mult_left)
    then have "2 ^ 64 dvd unat (addr_lo a)" by (simp only: dvd_add_right_iff dvd_triv_right)
    then have lo: "unat (addr_lo a) = 0" using unat64_less [of "addr_lo a"] by (auto dest: nat_dvd_not_less)
    then have "2 ^ (64 - p) dvd unat (addr_hi a)" using d' by (simp add: mult.commute)
    with lo True \<open>addr_v6 a\<close> assms(2) show ?thesis
      by (cases a, cases "p = 64") (simp_all add: ipListParseMask_def mask_aligned_word unat_eq_zero)
  next
    case False
    then have "(2::nat) ^ (128 - p) dvd 2 ^ 64" by (intro le_imp_power_dvd) simp
    then have "2 ^ (128 - p) dvd unat (addr_hi a) * 2 ^ 64" by (rule dvd_mult)
    with d have "2 ^ (128 - p) dvd unat (addr_lo a)" by (simp only: dvd_add_right_iff)
    with False \<open>addr_v6 a\<close> show ?thesis by (simp add: ipListParseMask_def mask_aligned_word)
  qed
qed

lemma tiles_block:
  "tiles bits s bs e \<Longrightarrow> (a, p) \<in> set bs \<Longrightarrow> s \<le> a \<and> a < e \<and> 2 ^ (bits - p) dvd a"
proof (induction bits s bs e rule: tiles.induct)
  case (2 bits s b q bs e)
  then have "s + 2 ^ (bits - q) \<le> e" by (auto intro: tiles_le)
  moreover have "s < s + 2 ^ (bits - q)" by simp
  ultimately have "s < e" by linarith
  with 2 show ?case by auto
qed simp

text \<open>C17: \<open>ipListParseCoverRange\<close> always returns. It refuses exactly the range that is the whole address
  space; for every other range the blocks it prints lie end to end from the first to the last
  address, each aligned to its size and with a prefix length of at least one, their union is exactly
  the range, and no list of aligned blocks that covers the same range is shorter.\<close>

theorem cover_range_exact:
  assumes "addrWf first" "addrWf lastA" "addr_v6 lastA = addr_v6 first" "addrVal first \<le> addrVal lastA"
  shows "if addrVal lastA - addrVal first + 1 = 2 ^ ipListParseBits first
     then ipListParseCoverRange first lastA = Some None
     else \<exists>bs. ipListParseCoverRange first lastA = Some (Some (map (\<lambda>(a, p). ipListParseCidr a p) bs))
       \<and> tiles (ipListParseBits first) (addrVal first) (blockVals bs) (addrVal lastA + 1)
       \<and> (\<Union>(a, p) \<in> set bs. {addrVal a ..< addrVal a + 2 ^ (ipListParseBits first - p)})
           = {addrVal first .. addrVal lastA}
       \<and> (\<forall>(a, p) \<in> set bs. addr_v6 a = addr_v6 first \<and> 0 < p)
       \<and> (\<forall>cs. tiles (ipListParseBits first) (addrVal first) cs (addrVal lastA + 1)
           \<longrightarrow> length bs \<le> length cs)"
proof (cases "addrVal lastA - addrVal first + 1 = 2 ^ ipListParseBits first")
  case True
  then show ?thesis using ipListParseCoverRange_cases [OF assms] by simp
next
  case False
  then obtain bs where bs: "ipListParseCoverRange first lastA = Some (Some (map (\<lambda>(a, p). ipListParseCidr a p) bs))"
    "tiles (ipListParseBits first) (addrVal first) (blockVals bs) (addrVal lastA + 1)"
    "greedy (ipListParseBits first) (blockVals bs) (addrVal lastA + 1)"
    "\<forall>(a, p) \<in> set bs. addr_v6 a = addr_v6 first \<and> 0 < p \<and> p \<le> ipListParseBits first"
    using ipListParseCoverRange_cases [OF assms] by auto
  have "(\<Union>(a, p) \<in> set bs. {addrVal a ..< addrVal a + 2 ^ (ipListParseBits first - p)})
      = {addrVal first .. addrVal lastA}"
    using tiles_union [OF bs(2)] by (simp add: case_prod_beta atLeastLessThanSuc_atLeastAtMost)
  moreover have "\<forall>cs. tiles (ipListParseBits first) (addrVal first) cs (addrVal lastA + 1) \<longrightarrow> length bs \<le> length cs"
    using greedy_fewest [OF bs(2,3)] by simp
  moreover have "\<forall>(a, p) \<in> set bs. addr_v6 a = addr_v6 first \<and> 0 < p" using bs(4) by blast
  ultimately show ?thesis using False bs(1,2) by auto
qed

text \<open>0.0.0.1-0.0.0.6 is covered by the four blocks .1/32, .2/31, .4/31, .6/32.\<close>

theorem cover_range_exact_witness:
  "ipListParseCoverRange \<lparr>addr_v6 = False, addr_hi = 0, addr_lo = 1\<rparr>
     \<lparr>addr_v6 = False, addr_hi = 0, addr_lo = 6\<rparr>
   = Some (Some [qs ''0.0.0.1'', qs ''0.0.0.2/31'', qs ''0.0.0.4/31'', qs ''0.0.0.6''])
   \<and> ipListParseCoverRange \<lparr>addr_v6 = False, addr_hi = 0, addr_lo = 1\<rparr>
     \<lparr>addr_v6 = False, addr_hi = 0, addr_lo = 6\<rparr> \<noteq> None"
proof
  show "ipListParseCoverRange \<lparr>addr_v6 = False, addr_hi = 0, addr_lo = 1\<rparr>
     \<lparr>addr_v6 = False, addr_hi = 0, addr_lo = 6\<rparr>
   = Some (Some [qs ''0.0.0.1'', qs ''0.0.0.2/31'', qs ''0.0.0.4/31'', qs ''0.0.0.6''])"
    unfolding ipListParseCoverRange_def
    by (subst coverLoop.simps, code_simp, subst coverLoop.simps, code_simp,
        subst coverLoop.simps, code_simp, subst coverLoop.simps, code_simp)
  show "ipListParseCoverRange \<lparr>addr_v6 = False, addr_hi = 0, addr_lo = 1\<rparr>
     \<lparr>addr_v6 = False, addr_hi = 0, addr_lo = 6\<rparr> \<noteq> None"
    using cover_range_exact [of "\<lparr>addr_v6 = False, addr_hi = 0, addr_lo = 1\<rparr>"
        "\<lparr>addr_v6 = False, addr_hi = 0, addr_lo = 6\<rparr>"]
    by (auto simp: addrWf_def addrVal_def ipListParseBits_def)
qed

end
