(* ===== verification/Ip_List_Text.thy ===== *)
theory Ip_List_Text
  imports Ip_List_Cover
begin

unbundle bit_operations_syntax

text \<open>
  The text reader and printer of the scanner's IP lists: \<open>ParseIpListText\<close>, \<open>FormatEntry\<close>,
  \<open>NormalizeCidr\<close>, \<open>AddressCount\<close> and \<open>EntriesFromCidrs\<close> of \<^verbatim>\<open>src/src/scanner/IpListParse.cpp\<close>, down to
  the token classification, the joining of spaced ranges, the port columns of tables and the
  duplicate filter. \<open>QString::fromUtf8\<close> is the parameter \<open>fromUtf8\<close>. Functions on the path to the
  unbounded loop of \<open>ipListParseCoverRange\<close> return an outer option whose \<open>None\<close> means that the
  call does not return; \<open>ParseIpListText_returns\<close> shows that this never happens.
\<close>

subsection \<open>Tokens\<close>

definition ipListParseLess :: "IpListParseAddr \<Rightarrow> IpListParseAddr \<Rightarrow> bool" where
  "ipListParseLess a b \<longleftrightarrow> (if addr_hi a \<noteq> addr_hi b then addr_hi a < addr_hi b else addr_lo a < addr_lo b)"

definition ipListParseRangeEnd :: "qstring \<Rightarrow> IpListParseAddr option" where
  "ipListParseRangeEnd text0 =
     (let text = (if startsWith u_lbracket text0 \<and> endsWith u_rbracket text0
                  then take (length text0 - 2) (drop 1 text0) else text0)
      in if u_slash \<in> set text then None
         else case ipListParseAddress text of
                None \<Rightarrow> None
              | Some addr \<Rightarrow> Some (if ipListParseIsMapped addr then ipListParseUnmap addr else addr))"

text \<open>The part of a range token after the dash: the text of the last address and the port.\<close>

definition rangeRight :: "qstring \<Rightarrow> (qstring \<times> int) option" where
  "rangeRight right =
     (if startsWith u_lbracket right then
        (case indexOf u_rbracket right of
           None \<Rightarrow> None
         | Some close \<Rightarrow>
             let rest = drop (Suc close) right
             in if rest = [] then Some (take (Suc close) right, - 1)
                else if \<not> startsWith u_colon rest then None
                else map_option (\<lambda>p. (take (Suc close) right, int p)) (ipListParsePort (drop 1 rest)))
      else if count_list right u_colon = 1 then
        (case indexOf u_colon right of
           None \<Rightarrow> None
         | Some colon \<Rightarrow> map_option (\<lambda>p. (take colon right, int p)) (ipListParsePort (drop (Suc colon) right)))
      else Some (right, - 1))"

text \<open>The last address of a range, either spelled out or as the last octet of the first.\<close>

definition rangeLast :: "IpListParseAddr \<Rightarrow> qstring \<Rightarrow> IpListParseAddr option" where
  "rangeLast first right =
     (let full = (case ipListParseRangeEnd right of
                    None \<Rightarrow> None
                  | Some lastA \<Rightarrow> if addr_v6 lastA \<noteq> addr_v6 first then None else Some lastA)
      in if addr_v6 first then full
         else case ipListParseDecimal right 3 of
                None \<Rightarrow> full
              | Some octet \<Rightarrow>
                  if octet > 255 \<or> (length right > 1 \<and> hd right = u_0) then None
                  else Some (first\<lparr>addr_lo := (addr_lo first AND NOT 0xff) OR ucast octet\<rparr>))"

definition ipListParseRangeToken :: "qstring \<Rightarrow> (qstring list \<times> int) option option" where
  "ipListParseRangeToken token =
     (let dash = (case indexOf u_dash token of None \<Rightarrow> length token | Some d \<Rightarrow> d);
          left = take dash token
      in case rangeRight (drop (Suc dash) token) of
           None \<Rightarrow> Some None
         | Some (right, port) \<Rightarrow>
             (case ipListParseRangeEnd left of
                None \<Rightarrow> Some None
              | Some first \<Rightarrow>
                  (case rangeLast first right of
                     None \<Rightarrow> Some None
                   | Some lastA \<Rightarrow>
                       let (lo, hi) = (if ipListParseLess lastA first then (lastA, first) else (first, lastA))
                       in map_option (map_option (\<lambda>cidrs. (cidrs, port))) (ipListParseCoverRange lo hi))))"

text \<open>The network text of a token and the port written after it.\<close>

definition tokenPort :: "qstring \<Rightarrow> (qstring \<times> int) option" where
  "tokenPort token =
     (if startsWith u_lbracket token then
        (case indexOf u_rbracket token of
           None \<Rightarrow> None
         | Some close \<Rightarrow>
             let rest = drop (Suc close) token
             in if startsWith u_colon rest
                then map_option (\<lambda>p. (take (Suc close) token, int p)) (ipListParsePort (drop 1 rest))
                else Some (token, - 1))
      else if count_list token u_colon = 1 then
        (case indexOf u_colon token of
           None \<Rightarrow> None
         | Some colon \<Rightarrow> map_option (\<lambda>p. (take colon token, int p)) (ipListParsePort (drop (Suc colon) token)))
      else Some (token, - 1))"

definition ipListParseAddressToken :: "qstring \<Rightarrow> (qstring list \<times> int) option option" where
  "ipListParseAddressToken token =
     (if token = [] then Some None
      else if u_dash \<in> set token then ipListParseRangeToken token
      else case tokenPort token of
             None \<Rightarrow> Some None
           | Some (network, port) \<Rightarrow>
               Some (map_option (\<lambda>(addr, prefix). ([ipListParseCidr addr prefix], port)) (ipListParseNetwork network)))"

definition ipListParseLooksLikeAddress :: "qstring \<Rightarrow> bool" where
  "ipListParseLooksLikeAddress token \<longleftrightarrow>
     (if token = [] then False
      else if startsWith u_lbracket token \<or> indexOf2 u_colon u_colon token \<noteq> None \<or> count_list token u_colon \<ge> 7 then True
      else if count_list token u_dot < 2 \<or> hd token < u_0 \<or> hd token > u_9 then False
      else list_all (\<lambda>c. (u_0 \<le> c \<and> c \<le> u_9) \<or> c = u_dot \<or> c = u_slash \<or> c = u_colon \<or> c = u_dash) token)"

text \<open>Case folding, as far as it can meet an ASCII needle: besides A-Z only the long s and the Kelvin
  sign fold to ASCII letters.\<close>

definition foldCase :: "qchar \<Rightarrow> qchar" where
  "foldCase c = (if 65 \<le> c \<and> c \<le> 90 then c + 32 else if c = 0x17f then 115 else if c = 0x212a then 107 else c)"

definition startsWithCI :: "qstring \<Rightarrow> qstring \<Rightarrow> bool" where
  "startsWithCI s needle \<longleftrightarrow> take (length needle) (map foldCase s) = needle"

fun containsCI :: "qstring \<Rightarrow> qstring \<Rightarrow> bool" where
  "containsCI [] needle \<longleftrightarrow> startsWithCI [] needle"
| "containsCI (c # cs) needle \<longleftrightarrow> startsWithCI (c # cs) needle \<or> containsCI cs needle"

definition ipListParseIsColumnName :: "qstring \<Rightarrow> bool" where
  "ipListParseIsColumnName token \<longleftrightarrow>
     startsWithCI token (qs ''ip'') \<or> startsWithCI token (qs ''addr'') \<or> containsCI token (qs ''port'')
     \<or> map foldCase token \<in> set [qs ''address'', qs ''host'', qs ''hostname'', qs ''cidr'', qs ''subnet'',
         qs ''network'', qs ''prefix'', qs ''range'', qs ''endpoint'', qs ''server'', qs ''target'']"

definition ipListParseIsSeparator :: "qchar \<Rightarrow> bool" where
  "ipListParseIsSeparator c \<longleftrightarrow> c = u_comma \<or> c = u_semicolon \<or> c = 9 \<or> c = u_bar"

definition ipListParseRangeChar :: "qchar \<Rightarrow> bool" where
  "ipListParseRangeChar c \<longleftrightarrow>
     ipListParseHexDigit c \<noteq> None \<or> c = u_dot \<or> c = u_colon \<or> c = u_lbracket \<or> c = u_rbracket"

subsection \<open>Lines\<close>

definition chopSpaces :: "qstring \<Rightarrow> qstring" where
  "chopSpaces s = rev (dropWhile isSpace (rev s))"

function ipListParseJoinLoop :: "qstring \<Rightarrow> qstring \<Rightarrow> qstring" where
  "ipListParseJoinLoop out [] = out"
| "ipListParseJoinLoop out (c # cs) =
     (if (c = u_dash \<or> c = 0x2013) \<and> chopSpaces out \<noteq> [] \<and> dropWhile isSpace cs \<noteq> []
         \<and> ipListParseRangeChar (last (chopSpaces out)) \<and> ipListParseRangeChar (hd (dropWhile isSpace cs))
      then ipListParseJoinLoop (chopSpaces out @ [u_dash]) (dropWhile isSpace cs)
      else ipListParseJoinLoop (out @ [c]) cs)"
  by pat_completeness auto
termination
  by (relation "measure (\<lambda>(out, line). length line)") (auto simp: less_Suc_eq_le length_dropWhile_le)

definition ipListParseJoinRanges :: "qstring \<Rightarrow> qstring" where
  "ipListParseJoinRanges line = ipListParseJoinLoop [] line"

definition isQuote :: "qchar \<Rightarrow> bool" where
  "isQuote c \<longleftrightarrow> c = u_dquote \<or> c = u_squote"

definition ipListParseUnquote :: "qstring \<Rightarrow> qstring" where
  "ipListParseUnquote text = trimmed (rev (dropWhile isQuote (rev (dropWhile isQuote (trimmed text)))))"

fun splitAt :: "(qchar \<Rightarrow> bool) \<Rightarrow> qstring \<Rightarrow> qstring \<Rightarrow> qstring list" where
  "splitAt boundary part [] = [part]"
| "splitAt boundary part (c # cs) =
     (if boundary c then part # splitAt boundary [] cs else splitAt boundary (part @ [c]) cs)"

definition ipListParseSplit :: "qstring \<Rightarrow> bool \<Rightarrow> qstring list" where
  "ipListParseSplit text bySeparator =
     filter (\<lambda>part. bySeparator \<or> part \<noteq> [])
       (splitAt (\<lambda>c. if bySeparator then ipListParseIsSeparator c else isSpace c) [] text)"

subsection \<open>The reader\<close>

datatype IpListParseKind = KAddress | KPort | KOther

record IpListParseToken =
  tok_text :: qstring
  tok_field :: nat
  tok_kind :: IpListParseKind
  tok_cidrs :: "qstring list"
  tok_port :: int
  tok_consumed :: bool

record IpListEntry =
  e_cidr :: qstring
  e_port :: int
  e_latencyMs :: int

record ParseResult =
  entries :: "IpListEntry list"
  rejected :: nat
  duplicates :: nat
  samples :: "qstring list"

record ParseState =
  st_result :: ParseResult
  st_seen :: "qstring set"
  st_firstContentLine :: bool
  st_tabularFile :: bool
  st_portColumn :: "nat option"

text \<open>\<open>QString::number\<close> of an int.\<close>

definition intNumber :: "int \<Rightarrow> qstring" where
  "intNumber n = (if n < 0 then u_dash # number (nat (- n)) else number (nat n))"

definition kIpListParseMaxSamples :: nat where "kIpListParseMaxSamples = 5"

definition kIpListParseSampleChars :: nat where "kIpListParseSampleChars = 64"

definition reject :: "qstring \<Rightarrow> ParseState \<Rightarrow> ParseState" where
  "reject token st =
     st\<lparr>st_result := (st_result st)\<lparr>rejected := Suc (rejected (st_result st)),
          samples := (if length (samples (st_result st)) < kIpListParseMaxSamples
                      then samples (st_result st) @ [take kIpListParseSampleChars token]
                      else samples (st_result st))\<rparr>\<rparr>"

definition addCidr :: "int \<Rightarrow> qstring \<Rightarrow> ParseState \<Rightarrow> ParseState" where
  "addCidr port cidr st =
     (let key = cidr @ [u_space] @ intNumber port
      in if key \<in> st_seen st
         then st\<lparr>st_result := (st_result st)\<lparr>duplicates := Suc (duplicates (st_result st))\<rparr>\<rparr>
         else st\<lparr>st_seen := insert key (st_seen st),
                 st_result := (st_result st)\<lparr>entries := entries (st_result st) @
                   [\<lparr>e_cidr = cidr, e_port = port, e_latencyMs = 0\<rparr>]\<rparr>\<rparr>)"

definition add :: "int \<Rightarrow> qstring list \<Rightarrow> int \<Rightarrow> ParseState \<Rightarrow> ParseState" where
  "add defaultPort cidrs port st = fold (addCidr (if port \<le> 0 then defaultPort else port)) cidrs st"

definition classifyWord :: "nat \<Rightarrow> qstring \<Rightarrow> IpListParseToken option option" where
  "classifyWord f word =
     (let text = ipListParseUnquote word
      in if text = [] then Some None
         else map_option (\<lambda>r. Some (case r of
                Some (cidrs, port) \<Rightarrow>
                  \<lparr>tok_text = text, tok_field = f, tok_kind = KAddress, tok_cidrs = cidrs, tok_port = port, tok_consumed = False\<rparr>
              | None \<Rightarrow>
                  (case ipListParsePort text of
                     Some p \<Rightarrow> \<lparr>tok_text = text, tok_field = f, tok_kind = KPort, tok_cidrs = [], tok_port = int p, tok_consumed = False\<rparr>
                   | None \<Rightarrow> \<lparr>tok_text = text, tok_field = f, tok_kind = KOther, tok_cidrs = [], tok_port = - 1, tok_consumed = False\<rparr>)))
              (ipListParseAddressToken text))"

definition lineTokens :: "qstring list \<Rightarrow> IpListParseToken list option" where
  "lineTokens cols =
     map_option (\<lambda>rs. map the (filter (\<lambda>r. r \<noteq> None) rs))
       (those (concat (map (\<lambda>(f, field). map (classifyWord f) (ipListParseSplit field False)) (enumerate 0 cols))))"

text \<open>The loop over the tokens of a line that has an address; a consumed token is skipped.\<close>

fun addTokens :: "int \<Rightarrow> bool \<Rightarrow> qstring list \<Rightarrow> IpListParseToken list \<Rightarrow> ParseState \<Rightarrow> ParseState" where
  "addTokens defaultPort tabular cols [] st = st"
| "addTokens defaultPort tabular cols (token # tokens) st =
     (if tok_consumed token then addTokens defaultPort tabular cols tokens st
      else case tok_kind token of
        KAddress \<Rightarrow>
          if tok_port token < 0 \<and> st_tabularFile st then
            let port = (case st_portColumn st of
                          Some col \<Rightarrow>
                            if col < length cols \<and> col \<noteq> tok_field token
                            then (case ipListParsePort (cols ! col) of Some p \<Rightarrow> int p | None \<Rightarrow> tok_port token)
                            else tok_port token
                        | None \<Rightarrow> tok_port token)
            in addTokens defaultPort tabular cols tokens (add defaultPort (tok_cidrs token) port st)
          else (case tokens of
            nextToken # rest \<Rightarrow>
              if tok_port token < 0 \<and> tok_kind nextToken = KPort
              then addTokens defaultPort tabular cols (nextToken\<lparr>tok_consumed := True\<rparr> # rest)
                     (add defaultPort (tok_cidrs token) (tok_port nextToken) st)
              else addTokens defaultPort tabular cols tokens (add defaultPort (tok_cidrs token) (tok_port token) st)
          | [] \<Rightarrow> add defaultPort (tok_cidrs token) (tok_port token) st)
      | KPort \<Rightarrow>
          addTokens defaultPort tabular cols tokens (if \<not> tabular then reject (tok_text token) st else st)
      | KOther \<Rightarrow>
          addTokens defaultPort tabular cols tokens
            (if \<not> tabular \<or> ipListParseLooksLikeAddress (tok_text token) then reject (tok_text token) st else st))"

text \<open>The comment, the blanks around it and a spaced range are taken out of a line first; \<open>None\<close> is a
  line without content.\<close>

definition lineContent :: "qstring \<Rightarrow> qstring option" where
  "lineContent line0 =
     (let line1 = (case indexOf u_hash line0 of Some h \<Rightarrow> take h line0 | None \<Rightarrow> line0);
          line2 = (case indexOf2 u_slash u_slash line1 of Some h \<Rightarrow> take h line1 | None \<Rightarrow> line1);
          line = trimmed line2
      in if line = [] \<or> startsWith u_semicolon line then None
         else Some (if u_dash \<in> set line \<or> 0x2013 \<in> set line then ipListParseJoinRanges line else line))"

definition findPortColumn :: "qstring list \<Rightarrow> nat option" where
  "findPortColumn cols =
     (case filter (\<lambda>(f, field). containsCI field (qs ''port'')) (enumerate 0 cols) of
        [] \<Rightarrow> None
      | (f, _) # _ \<Rightarrow> Some f)"

text \<open>A line without an address: the header of a table, or something to report.\<close>

definition noAddressLine ::
  "bool \<Rightarrow> qstring \<Rightarrow> qstring list \<Rightarrow> IpListParseToken list \<Rightarrow> ParseState \<Rightarrow> ParseState" where
  "noAddressLine separated line cols tokens st =
     (let tabular = (separated \<or> st_tabularFile st);
          addressShaped = list_ex (\<lambda>t. ipListParseLooksLikeAddress (tok_text t)) tokens;
          namesColumn = list_ex (\<lambda>t. ipListParseIsColumnName (tok_text t)) tokens
      in if st_firstContentLine st \<and> \<not> addressShaped \<and> namesColumn then
           st\<lparr>st_firstContentLine := False, st_tabularFile := True,
              st_portColumn := (case findPortColumn cols of Some f \<Rightarrow> Some f | None \<Rightarrow> st_portColumn st)\<rparr>
         else
           let st' = st\<lparr>st_firstContentLine := False\<rparr>
           in if \<not> tabular then fold (\<lambda>t. reject (tok_text t)) tokens st'
              else if addressShaped then
                fold (\<lambda>t. reject (tok_text t)) (filter (\<lambda>t. ipListParseLooksLikeAddress (tok_text t)) tokens) st'
              else reject line st')"

definition parseLine :: "int \<Rightarrow> qstring \<Rightarrow> ParseState \<Rightarrow> ParseState option" where
  "parseLine defaultPort line0 st =
     (case lineContent line0 of
        None \<Rightarrow> Some st
      | Some line \<Rightarrow>
          let separated = list_ex ipListParseIsSeparator line;
              cols = map ipListParseUnquote (ipListParseSplit line separated)
          in map_option (\<lambda>tokens.
               if tokens = [] then st
               else if \<not> list_ex (\<lambda>t. tok_kind t = KAddress) tokens
               then noAddressLine separated line cols tokens st
               else addTokens defaultPort (separated \<or> st_tabularFile st) cols tokens
                      (st\<lparr>st_firstContentLine := False\<rparr>))
             (lineTokens cols))"

fun parseLines :: "int \<Rightarrow> qstring list \<Rightarrow> ParseState \<Rightarrow> ParseState option" where
  "parseLines defaultPort [] st = Some st"
| "parseLines defaultPort (line # rest) st =
     (case parseLine defaultPort line st of None \<Rightarrow> None | Some st' \<Rightarrow> parseLines defaultPort rest st')"

text \<open>The lines the while loop visits: the pieces between line feeds, without the empty piece after a
  final line feed (the loop stops at the end of the text).\<close>

definition contentLines :: "qstring \<Rightarrow> qstring list" where
  "contentLines content =
     (let parts = qsplit u_lf content in if last parts = [] then butlast parts else parts)"

definition initState :: ParseState where
  "initState = \<lparr>st_result = \<lparr>entries = [], rejected = 0, duplicates = 0, samples = []\<rparr>, st_seen = {},
     st_firstContentLine = True, st_tabularFile = False, st_portColumn = None\<rparr>"

definition clampPort :: "int \<Rightarrow> int" where
  "clampPort defaultPort = (if defaultPort < 0 \<or> defaultPort > 65535 then 0 else defaultPort)"

definition ParseIpListText :: "('b \<Rightarrow> qstring) \<Rightarrow> 'b \<Rightarrow> int \<Rightarrow> ParseResult option" where
  "ParseIpListText fromUtf8 text defaultPort =
     (let decoded = fromUtf8 text;
          content = (if startsWith 0xfeff decoded then drop 1 decoded else decoded)
      in map_option st_result (parseLines (clampPort defaultPort) (contentLines content) initState))"

subsection \<open>The printer and the helpers\<close>

definition FormatTarget :: "qstring \<Rightarrow> int \<Rightarrow> qstring" where
  "FormatTarget address port =
     (if port \<le> 0 then address
      else if u_colon \<in> set address then [u_lbracket] @ address @ [u_rbracket, u_colon] @ intNumber port
      else address @ [u_colon] @ intNumber port)"

definition IsHostCidr :: "qstring \<Rightarrow> bool" where
  "IsHostCidr cidr \<longleftrightarrow>
     (if cidr = [] then False
      else case indexOf u_slash cidr of
             None \<Rightarrow> True
           | Some slash \<Rightarrow> drop (Suc slash) cidr = (if u_colon \<in> set (take slash cidr) then qs ''128'' else qs ''32''))"

definition FormatEntry :: "IpListEntry \<Rightarrow> qstring" where
  "FormatEntry entry =
     (if IsHostCidr (e_cidr entry)
      then FormatTarget (case indexOf u_slash (e_cidr entry) of None \<Rightarrow> e_cidr entry | Some slash \<Rightarrow> take slash (e_cidr entry))
             (e_port entry)
      else if e_port entry \<le> 0 then e_cidr entry
      else e_cidr entry @ [u_space] @ intNumber (e_port entry))"

definition AddressCount :: "qstring \<Rightarrow> 64 word" where
  "AddressCount cidr =
     (if cidr = [] then 0
      else case indexOf u_slash cidr of
             None \<Rightarrow> 1
           | Some slash \<Rightarrow>
               let bits = (if u_colon \<in> set (take slash cidr) then 128 else 32)
               in case ipListParseDecimal (drop (Suc slash) cidr) 3 of
                    None \<Rightarrow> 0
                  | Some prefix \<Rightarrow>
                      if prefix > of_nat bits then 0
                      else let hostBits = bits - unat prefix
                           in if hostBits \<ge> 63 then push_bit 63 1 else push_bit hostBits 1)"

fun entriesLoop :: "int \<Rightarrow> qstring list \<Rightarrow> qstring set \<Rightarrow> IpListEntry list \<Rightarrow> IpListEntry list" where
  "entriesLoop port [] seen out = out"
| "entriesLoop port (text # rest) seen out =
     (let cidr = NormalizeCidr text
      in if cidr = [] \<or> cidr \<in> seen then entriesLoop port rest seen out
         else entriesLoop port rest (insert cidr seen) (out @ [\<lparr>e_cidr = cidr, e_port = port, e_latencyMs = 0\<rparr>]))"

definition EntriesFromCidrs :: "qstring list \<Rightarrow> int \<Rightarrow> IpListEntry list" where
  "EntriesFromCidrs cidrs defaultPort = entriesLoop (clampPort defaultPort) cidrs {} []"

subsection \<open>Tokens: every call returns, and what it returns is a masked block\<close>

definition blockWf :: "IpListParseAddr \<Rightarrow> nat \<Rightarrow> bool" where
  "blockWf a p \<longleftrightarrow> addrWf a \<and> 0 < p \<and> p \<le> ipListParseBits a \<and> ipListParseMask a p = a"

definition blockText :: "qstring \<Rightarrow> bool" where
  "blockText t \<longleftrightarrow> (\<exists>a p. t = ipListParseCidr a p \<and> blockWf a p)"

lemma networkWf_iff: "networkWf a p \<longleftrightarrow> blockWf a p \<and> \<not> (ipListParseIsMapped a \<and> 96 \<le> p)"
  by (auto simp: networkWf_def blockWf_def addrWf_low)

lemma ipListParseLess_val: "ipListParseLess a b \<longleftrightarrow> addrVal a < addrVal b"
proof -
  have b: "unat (addr_lo a) < 2 ^ 64" "unat (addr_lo b) < 2 ^ 64" by (rule unat64_less)+
  consider "addr_hi a = addr_hi b" | "unat (addr_hi a) < unat (addr_hi b)" | "unat (addr_hi b) < unat (addr_hi a)"
    by (metis linorder_less_linear word_unat_eq_iff)
  then show ?thesis
  proof cases
    case 1
    then show ?thesis by (simp add: ipListParseLess_def addrVal_def word_less_nat_alt)
  next
    case 2
    then have "(unat (addr_hi a) + 1) * 2 ^ 64 \<le> unat (addr_hi b) * 2 ^ 64" by (intro mult_le_mono1) simp
    then have "addrVal a < addrVal b" using b unfolding addrVal_def distrib_right by linarith
    with 2 show ?thesis by (auto simp: ipListParseLess_def word_less_nat_alt)
  next
    case 3
    then have "(unat (addr_hi b) + 1) * 2 ^ 64 \<le> unat (addr_hi a) * 2 ^ 64" by (intro mult_le_mono1) simp
    then have "\<not> addrVal a < addrVal b" using b unfolding addrVal_def distrib_right by linarith
    with 3 show ?thesis by (auto simp: ipListParseLess_def word_less_nat_alt)
  qed
qed

lemma ipListParseAddress_wf: "ipListParseAddress t = Some a \<Longrightarrow> addrWf a"
  using ipListParseAddress_v4_low [of t a] by (auto simp: addrWf_low)

lemma ipListParseUnmap_wf: "addrWf (ipListParseUnmap a)"
  unfolding addrWf_low by (simp add: ipListParseUnmap_def and.assoc)

lemma ipListParseRangeEnd_wf: "ipListParseRangeEnd t = Some a \<Longrightarrow> addrWf a"
  by (auto simp: ipListParseRangeEnd_def Let_def ipListParseUnmap_wf
      dest: ipListParseAddress_wf split: if_splits option.splits)

lemma octet_low:
  fixes lo m :: "64 word" and octet :: "32 word"
  shows "lo AND 0xffffffff = lo \<Longrightarrow> ((lo AND m) OR ucast octet) AND 0xffffffff = (lo AND m) OR ucast octet"
proof -
  assume lo: "lo AND 0xffffffff = lo"
  have "(lo AND m) AND 0xffffffff = (lo AND 0xffffffff) AND m" by (simp only: and.assoc and.commute [of m])
  then show ?thesis unfolding bit.conj_disj_distrib2 ucast_v4_low lo by simp
qed

lemma rangeLast_wf:
  "rangeLast first right = Some lastA \<Longrightarrow> addrWf first \<Longrightarrow> addrWf lastA \<and> addr_v6 lastA = addr_v6 first"
  using ipListParseRangeEnd_wf [of right lastA]
  by (auto simp: rangeLast_def Let_def addrWf_low octet_low split: if_splits option.splits)

lemma ipListParsePort_le: "ipListParsePort t = Some p \<Longrightarrow> p \<le> 65535"
  by (auto simp: ipListParsePort_def word_less_nat_alt split: option.splits if_splits)

lemma rangeRight_port: "rangeRight r = Some (t, p) \<Longrightarrow> - 1 \<le> p \<and> p \<le> 65535"
  by (auto simp: rangeRight_def Let_def dest: ipListParsePort_le split: if_splits option.splits)

lemma tokenPort_port: "tokenPort r = Some (t, p) \<Longrightarrow> - 1 \<le> p \<and> p \<le> 65535"
  by (auto simp: tokenPort_def Let_def dest: ipListParsePort_le split: if_splits option.splits)

lemma coverRange_blocks:
  assumes wf: "addrWf first" "addrWf lastA" "addr_v6 lastA = addr_v6 first" "addrVal first \<le> addrVal lastA"
  obtains "ipListParseCoverRange first lastA = Some None"
  | cidrs where "ipListParseCoverRange first lastA = Some (Some cidrs)" "\<forall>t \<in> set cidrs. blockText t"
proof (cases "addrVal lastA - addrVal first + 1 = 2 ^ ipListParseBits first")
  case True
  then show ?thesis using that(1) ipListParseCoverRange_cases [OF wf] by simp
next
  case False
  then obtain bs where bs: "ipListParseCoverRange first lastA = Some (Some (map (\<lambda>(a, p). ipListParseCidr a p) bs))"
    "tiles (ipListParseBits first) (addrVal first) (blockVals bs) (addrVal lastA + 1)"
    "\<forall>(a, p) \<in> set bs. addr_v6 a = addr_v6 first \<and> 0 < p \<and> p \<le> ipListParseBits first"
    using ipListParseCoverRange_cases [OF wf] by auto
  have "blockWf a p" if ap: "(a, p) \<in> set bs" for a p
  proof -
    have v: "addr_v6 a = addr_v6 first" "0 < p" "p \<le> ipListParseBits first" using bs(3) ap by auto
    then have bits: "ipListParseBits a = ipListParseBits first" by (simp add: ipListParseBits_def)
    have t: "addrVal a < addrVal lastA + 1" "2 ^ (ipListParseBits a - p) dvd addrVal a"
      using tiles_block [OF bs(2), of "addrVal a" p] ap unfolding bits by force+
    have "addrVal a < 2 ^ ipListParseBits a"
      using t(1) addrWf_less [OF wf(2)] wf(3) v(1) by (simp add: ipListParseBits_def)
    then have "addrWf a" using addrWf_iff [of a]
      by (cases "addr_v6 a") (simp_all add: addrWf_def [of a] ipListParseBits_def)
    then show ?thesis using v t(2) bits mask_aligned [of a p] by (simp add: blockWf_def)
  qed
  then have "\<forall>t \<in> set (map (\<lambda>(a, p). ipListParseCidr a p) bs). blockText t" by (auto simp: blockText_def)
  then show ?thesis using that(2) bs(1) by blast
qed

definition tokenOk :: "(qstring list \<times> int) option \<Rightarrow> bool" where
  "tokenOk r \<longleftrightarrow> (case r of None \<Rightarrow> True
     | Some (cidrs, port) \<Rightarrow> (\<forall>t \<in> set cidrs. blockText t) \<and> - 1 \<le> port \<and> port \<le> 65535)"

lemma ipListParseRangeToken_ok: "\<exists>r. ipListParseRangeToken t = Some r \<and> tokenOk r"
proof -
  define dash where "dash = (case indexOf u_dash t of None \<Rightarrow> length t | Some d \<Rightarrow> d)"
  show ?thesis
  proof (cases "rangeRight (drop (Suc dash) t)")
    case None
    then show ?thesis by (simp add: ipListParseRangeToken_def dash_def [symmetric] tokenOk_def)
  next
    case (Some rp)
    obtain right port where rp: "rp = (right, port)" by (cases rp)
    note port = rangeRight_port [OF Some [unfolded rp]]
    show ?thesis
    proof (cases "\<exists>first lastA. ipListParseRangeEnd (take dash t) = Some first \<and> rangeLast first right = Some lastA")
      case False
      then show ?thesis using Some rp
        by (auto simp: ipListParseRangeToken_def dash_def [symmetric] tokenOk_def split: option.splits)
    next
      case True
      then obtain first lastA where fl: "ipListParseRangeEnd (take dash t) = Some first"
        "rangeLast first right = Some lastA" by blast
      have wf: "addrWf first" "addrWf lastA" "addr_v6 lastA = addr_v6 first"
        using ipListParseRangeEnd_wf [OF fl(1)] rangeLast_wf [OF fl(2)] by auto
      obtain lo hi where lh: "(lo, hi) = (if ipListParseLess lastA first then (lastA, first) else (first, lastA))"
        by (metis surj_pair)
      then have lhwf: "addrWf lo" "addrWf hi" "addr_v6 hi = addr_v6 lo" "addrVal lo \<le> addrVal hi"
        using wf by (auto simp: ipListParseLess_val split: if_splits)
      have "ipListParseRangeToken t
          = map_option (map_option (\<lambda>cidrs. (cidrs, port))) (ipListParseCoverRange lo hi)"
        using Some rp fl lh by (auto simp: ipListParseRangeToken_def dash_def [symmetric] split: if_splits)
      then show ?thesis using port
        by (cases rule: coverRange_blocks [OF lhwf]) (auto simp: tokenOk_def)
    qed
  qed
qed

lemma ipListParseAddressToken_ok: "\<exists>r. ipListParseAddressToken t = Some r \<and> tokenOk r"
  using ipListParseRangeToken_ok [of t] ipListParseNetwork_wf
  by (fastforce simp: ipListParseAddressToken_def tokenOk_def blockText_def networkWf_iff
      dest: tokenPort_port split: option.splits)

subsection \<open>The reader's invariant\<close>

definition entryKey :: "IpListEntry \<Rightarrow> qstring" where
  "entryKey e = e_cidr e @ [u_space] @ intNumber (e_port e)"

definition entryOk :: "IpListEntry \<Rightarrow> bool" where
  "entryOk e \<longleftrightarrow> blockText (e_cidr e) \<and> 0 \<le> e_port e \<and> e_port e \<le> 65535 \<and> e_latencyMs e = 0"

definition stateOk :: "ParseState \<Rightarrow> bool" where
  "stateOk st \<longleftrightarrow>
     st_seen st = entryKey ` set (entries (st_result st))
     \<and> distinct (map entryKey (entries (st_result st)))
     \<and> (\<forall>e \<in> set (entries (st_result st)). entryOk e)
     \<and> length (samples (st_result st)) = min kIpListParseMaxSamples (rejected (st_result st))
     \<and> (\<forall>t \<in> set (samples (st_result st)). length t \<le> kIpListParseSampleChars)"

definition tokOk :: "IpListParseToken \<Rightarrow> bool" where
  "tokOk t \<longleftrightarrow> (\<forall>c \<in> set (tok_cidrs t). blockText c) \<and> tok_port t \<le> 65535"

lemma stateOk_init: "stateOk initState"
  by (simp add: stateOk_def initState_def)

lemma stateOk_first [simp]: "stateOk (st\<lparr>st_firstContentLine := b\<rparr>) = stateOk st"
  by (simp add: stateOk_def)

lemma reject_ok: "stateOk st \<Longrightarrow> stateOk (reject t st)"
  by (auto simp: stateOk_def reject_def)

lemma rejects_ok: "stateOk st \<Longrightarrow> stateOk (fold (\<lambda>t. reject (f t)) ts st)"
  by (induction ts arbitrary: st) (auto intro: reject_ok)

lemma addCidr_ok:
  assumes "stateOk st" "blockText c" "0 \<le> port" "port \<le> 65535"
  shows "stateOk (addCidr port c st)"
  using assms by (auto simp: stateOk_def addCidr_def Let_def entryKey_def entryOk_def)

lemma add_ok:
  assumes "stateOk st" "\<forall>c \<in> set cidrs. blockText c" "port \<le> 65535" "0 \<le> dp" "dp \<le> 65535"
  shows "stateOk (add dp cidrs port st)"
proof -
  have "stateOk (fold (addCidr q) cidrs st)" if "0 \<le> q" "q \<le> 65535" for q
    using assms(1,2) that by (induction cidrs arbitrary: st) (auto intro: addCidr_ok)
  with assms show ?thesis by (simp add: add_def)
qed

lemma addTokens_ok:
  assumes "stateOk st" "\<forall>t \<in> set tokens. tokOk t" "0 \<le> dp" "dp \<le> 65535"
  shows "stateOk (addTokens dp tabular cols tokens st)"
  using assms
proof (induction dp tabular cols tokens st rule: addTokens.induct)
  case (2 dp tabular cols t ts st)
  have cidrs: "stateOk (add dp (tok_cidrs t) port st)" if "port \<le> 65535" for port
    using 2 that by (intro add_ok) (auto simp: tokOk_def)
  have tp: "tok_port t \<le> 65535" "\<forall>t \<in> set ts. tokOk t" using 2 by (auto simp: tokOk_def)
  consider "tok_consumed t" | "\<not> tok_consumed t" "tok_kind t \<noteq> KAddress"
    | "\<not> tok_consumed t" "tok_kind t = KAddress" "tok_port t < 0 \<and> st_tabularFile st"
    | "\<not> tok_consumed t" "tok_kind t = KAddress" "\<not> (tok_port t < 0 \<and> st_tabularFile st)" by blast
  then show ?case
  proof cases
    case 1
    then show ?thesis using 2 by simp
  next
    case c: 2
    then show ?thesis using "2.IH"(5,6) [OF c(1)] "2.prems" tp(2)
      by (cases "tok_kind t") (simp_all add: reject_ok)
  next
    case 3
    define port where "port = (case st_portColumn st of
        Some col \<Rightarrow> if col < length cols \<and> col \<noteq> tok_field t
          then (case ipListParsePort (cols ! col) of Some p \<Rightarrow> int p | None \<Rightarrow> tok_port t) else tok_port t
      | None \<Rightarrow> tok_port t)"
    have "port \<le> 65535" using tp(1) by (auto simp: port_def dest: ipListParsePort_le split: option.splits)
    with 3 show ?thesis using "2.IH"(2) [OF 3 port_def] cidrs tp "2.prems" by (simp add: port_def [symmetric])
  next
    case 4
    show ?thesis
    proof (cases ts)
      case Nil
      with 4 show ?thesis using cidrs tp by auto
    next
      case (Cons n rest)
      with tp(2) have n: "tokOk (n\<lparr>tok_consumed := True\<rparr>)" "tok_port n \<le> 65535" "\<forall>t \<in> set rest. tokOk t"
        by (simp_all add: tokOk_def)
      show ?thesis
      proof (cases "tok_port t < 0 \<and> tok_kind n = KPort")
        case True
        with 4 Cons show ?thesis using "2.IH"(3) [OF 4 Cons True] cidrs [OF n(2)] n "2.prems" by simp
      next
        case False
        with 4 Cons show ?thesis using "2.IH"(4) [OF 4 Cons False] cidrs [OF tp(1)] tp(2) "2.prems" by auto
      qed
    qed
  qed
qed simp

lemma noAddressLine_ok: "stateOk st \<Longrightarrow> stateOk (noAddressLine separated line cols tokens st)"
  by (auto simp: noAddressLine_def Let_def rejects_ok reject_ok) (auto simp: stateOk_def)

lemma classifyWord_ok: "\<exists>r. classifyWord f w = Some r \<and> (\<forall>t. r = Some t \<longrightarrow> tokOk t)"
proof -
  obtain r where "ipListParseAddressToken (ipListParseUnquote w) = Some r" "tokenOk r"
    using ipListParseAddressToken_ok by blast
  then show ?thesis
    by (auto simp: classifyWord_def Let_def tokenOk_def tokOk_def dest: ipListParsePort_le split: option.splits)
qed

lemma those_Some: "(\<forall>x \<in> set xs. \<exists>y. x = Some y) \<Longrightarrow> those xs = Some (map the xs)"
  by (induction xs) auto

lemma lineTokens_ok: "\<exists>ts. lineTokens cols = Some ts \<and> (\<forall>t \<in> set ts. tokOk t)"
proof -
  define ws where "ws = concat (map (\<lambda>(f, field). map (classifyWord f) (ipListParseSplit field False)) (enumerate 0 cols))"
  have ws: "\<exists>r. x = Some r \<and> (\<forall>t. r = Some t \<longrightarrow> tokOk t)" if "x \<in> set ws" for x
    using that classifyWord_ok by (auto simp: ws_def)
  then have "those ws = Some (map the ws)" by (intro those_Some) blast
  moreover have "tokOk t" if "Some t \<in> the ` set ws" for t using that ws by force
  ultimately show ?thesis by (auto simp: lineTokens_def ws_def [symmetric])
qed

lemma parseLine_ok:
  assumes "stateOk st" "0 \<le> dp" "dp \<le> 65535"
  shows "\<exists>st'. parseLine dp line st = Some st' \<and> stateOk st'"
proof (cases "lineContent line")
  case None
  then show ?thesis using assms by (simp add: parseLine_def)
next
  case (Some l)
  obtain ts where "lineTokens (map ipListParseUnquote (ipListParseSplit l (list_ex ipListParseIsSeparator l))) = Some ts"
    "\<forall>t \<in> set ts. tokOk t" using lineTokens_ok by blast
  then show ?thesis using Some assms
    by (simp add: parseLine_def Let_def noAddressLine_ok addTokens_ok)
qed

lemma parseLines_ok:
  assumes "stateOk st" "0 \<le> dp" "dp \<le> 65535"
  shows "\<exists>st'. parseLines dp ls st = Some st' \<and> stateOk st'"
  using assms(1)
proof (induction ls arbitrary: st)
  case (Cons l ls)
  then show ?case using parseLine_ok [OF Cons.prems assms(2,3), of l] by force
qed simp

lemma clampPort_range: "0 \<le> clampPort d" "clampPort d \<le> 65535"
  by (auto simp: clampPort_def)

subsection \<open>A printed entry is read back\<close>

text \<open>A word the reader leaves as it is: no blank, quote, separator, comment or dash in it.\<close>

definition plainWord :: "qstring \<Rightarrow> bool" where
  "plainWord w \<longleftrightarrow> w \<noteq> [] \<and> (\<forall>c \<in> set w. isDigit c \<or> (97 \<le> c \<and> c \<le> 102) \<or> c \<in> {46, 47, 58, 91, 93})"

lemma plainWord_char:
  assumes "plainWord w" "c \<in> set w"
  shows "\<not> isSpace c \<and> \<not> isQuote c \<and> \<not> ipListParseIsSeparator c \<and> c \<noteq> 35 \<and> c \<noteq> 45 \<and> c \<noteq> 0x2013 \<and> c \<noteq> 59 \<and> c \<noteq> 10
     \<and> c \<noteq> 0xfeff"
  using assms by (auto simp: plainWord_def isDigit_def isSpace_def isQuote_def ipListParseIsSeparator_def)

lemma plainWord_ne: "plainWord w \<Longrightarrow> w \<noteq> []"
  by (simp add: plainWord_def)

lemma plainWord_notin:
  assumes "plainWord w"
  shows "35 \<notin> set w" "45 \<notin> set w" "0x2013 \<notin> set w" "59 \<notin> set w" "10 \<notin> set w" "0xfeff \<notin> set w"
  using plainWord_char [OF assms] by blast+

lemma plainWord_all:
  assumes "plainWord w"
  shows "\<forall>c \<in> set w. \<not> isSpace c" "\<forall>c \<in> set w. \<not> isQuote c" "\<forall>c \<in> set w. \<not> ipListParseIsSeparator c"
  using plainWord_char [OF assms] by blast+

lemmas plainWord_simps = plainWord_ne plainWord_notin plainWord_all

lemma plainWord_append: "plainWord u \<Longrightarrow> plainWord v \<Longrightarrow> plainWord (u @ v)"
  by (auto simp: plainWord_def)

lemma plainWord_unquote: "plainWord w \<Longrightarrow> ipListParseUnquote w = w"
  by (simp add: ipListParseUnquote_def trimmed_id dropWhile_id plainWord_simps)

lemma splitAt_none: "(\<forall>c \<in> set s. \<not> P c) \<Longrightarrow> splitAt P part s = [part @ s]"
  by (induction s arbitrary: part) auto

lemma splitAt_hit: "(\<forall>c \<in> set s. \<not> P c) \<Longrightarrow> P b \<Longrightarrow> splitAt P part (s @ b # t) = (part @ s) # splitAt P [] t"
  by (induction s arbitrary: part) auto

lemma plainWord_split: "plainWord w \<Longrightarrow> ipListParseSplit w sep = [w]"
  by (simp add: ipListParseSplit_def splitAt_none plainWord_simps)

lemma plainWord_split2:
  "plainWord w \<Longrightarrow> plainWord v \<Longrightarrow> ipListParseSplit (w @ 32 # v) False = [w, v]"
  by (simp add: ipListParseSplit_def splitAt_hit splitAt_none plainWord_simps)

lemma indexOf2_count: "indexOf2 a a s = Some k \<Longrightarrow> 2 \<le> count_list s a"
proof (induction s arbitrary: k)
  case (Cons x xs)
  then show ?case by (cases xs) (auto split: if_splits)
qed simp

lemma no_double_slash: "count_list s 47 < 2 \<Longrightarrow> indexOf2 47 47 s = None"
  using indexOf2_count [of 47 s] by (cases "indexOf2 47 47 s") auto

text \<open>Lines built of one or two plain words.\<close>

lemma lineContent_word:
  assumes "plainWord w" "count_list w 47 < 2"
  shows "lineContent w = Some w"
proof -
  have "trimmed w = w" using assms(1) by (simp add: trimmed_id plainWord_simps)
  moreover have "\<not> startsWith 59 w" using assms(1) startsWith_in_set [of 59 w] by (auto simp: plainWord_simps)
  ultimately show ?thesis using assms(1) no_double_slash [OF assms(2)] by (simp add: lineContent_def plainWord_simps)
qed

lemma lineContent_words:
  assumes "plainWord w" "plainWord v" "count_list w 47 + count_list v 47 < 2"
  shows "lineContent (w @ 32 # v) = Some (w @ 32 # v)"
proof -
  have "\<not> isSpace (hd w)" "\<not> isSpace (last v)" "hd w \<noteq> 59"
    using plainWord_char [OF assms(1) hd_in_set] plainWord_char [OF assms(2) last_in_set]
      assms(1,2) [THEN plainWord_ne] by auto
  then have "trimmed (w @ 32 # v) = w @ 32 # v" "\<not> startsWith 59 (w @ 32 # v)"
    using plainWord_ne [OF assms(1)] plainWord_ne [OF assms(2)]
    by (simp add: trimmed_ends, cases w) (simp_all add: startsWith_def)
  moreover have "indexOf2 47 47 (w @ 32 # v) = None" using assms(3) by (intro no_double_slash) simp
  ultimately show ?thesis using assms(1,2) by (simp add: lineContent_def plainWord_simps)
qed

lemma digits_plain: "plainWord (number n)"
  by (auto simp: plainWord_def dest: set_number_digits)

lemma cidr_nonempty: "ipListParseCidr a p \<noteq> []"
  by (simp add: ipListParseCidr_def Let_def format_nonempty)

lemma cidr_plain: "plainWord (ipListParseCidr a p)"
  by (auto simp: plainWord_def cidr_nonempty dest: cidr_chars)

lemma number_notin: "\<not> isDigit c \<Longrightarrow> c \<notin> set (number n)"
  by (auto dest: set_number_digits)

lemma count_number: "\<not> isDigit c \<Longrightarrow> count_list (number n) c = 0"
  by (simp add: number_notin)

lemma port_number: "n \<le> 65535 \<Longrightarrow> ipListParsePort (number n) = Some n"
  using ipListParseDecimal_number [of n 5] length_number_le [of n 4]
  by (simp add: ipListParsePort_def word_less_nat_alt unat_of_nat)

lemma cidr_slashes: "count_list (ipListParseCidr a p) 47 < 2"
  using format_notin [of 47 a] by (simp add: ipListParseCidr_def Let_def isDigit_def number_notin)

lemma cidr_colons: "count_list (ipListParseCidr a p) 58 = count_list (ipListParseFormat a) 58"
  by (simp add: ipListParseCidr_def Let_def isDigit_def number_notin)

lemma format_colons_not_one: "count_list (ipListParseFormat a) 58 \<noteq> 1"
  using format_v6_colons [of a] format_v4_no_colon [of a] by (cases "addr_v6 a") auto

lemma cidr_no_bracket: "91 \<notin> set (ipListParseCidr a p)" "93 \<notin> set (ipListParseCidr a p)" "45 \<notin> set (ipListParseCidr a p)"
  by (simp_all add: cidr_notin isDigit_def)

lemma cidr_not_bracketed: "\<not> startsWith 91 (ipListParseCidr a p)"
  using startsWith_in_set [of 91 "ipListParseCidr a p"] cidr_no_bracket [of a p] by blast

lemma cidr_host: "p = ipListParseBits a \<Longrightarrow> ipListParseCidr a p = ipListParseFormat a"
  by (simp add: ipListParseCidr_def)

lemma token_cidr:
  assumes "networkWf a p"
  shows "ipListParseAddressToken (ipListParseCidr a p) = Some (Some ([ipListParseCidr a p], - 1))"
  using ipListParseNetwork_cidr [OF assms] cidr_no_bracket [of a p] cidr_not_bracketed [of a p]
    format_colons_not_one [of a]
  by (simp add: ipListParseAddressToken_def tokenPort_def cidr_nonempty cidr_colons)

lemma token_v4_port:
  assumes "networkWf a p" "p = ipListParseBits a" "\<not> addr_v6 a" "n \<le> 65535"
  shows "ipListParseAddressToken (ipListParseCidr a p @ 58 # number n) = Some (Some ([ipListParseCidr a p], int n))"
proof -
  let ?c = "ipListParseCidr a p"
  have c: "58 \<notin> set ?c" using assms(2,3) format_v4_no_colon by (simp add: cidr_host)
  have "\<not> startsWith 91 (?c @ 58 # number n)" using cidr_nonempty [of a p] cidr_not_bracketed [of a p]
    by (cases ?c) (simp_all add: startsWith_def)
  moreover have "count_list (?c @ 58 # number n) 58 = 1" using c by (simp add: number_notin isDigit_def)
  moreover have "45 \<notin> set (?c @ 58 # number n)" using cidr_no_bracket [of a p] by (simp add: number_notin isDigit_def)
  ultimately show ?thesis
    using ipListParseNetwork_cidr [OF assms(1)] c port_number [OF assms(4)]
    by (simp add: ipListParseAddressToken_def tokenPort_def indexOf_append_hit)
qed

lemma network_bracketed:
  assumes "p = ipListParseBits a"
  shows "ipListParseNetwork (91 # ipListParseCidr a p @ [93]) = ipListParseNetwork (ipListParseCidr a p)"
proof -
  let ?c = "ipListParseCidr a p"
  have "trimmed ?c = ?c" by (rule trimmed_id [OF plainWord_all(1) [OF cidr_plain]])
  moreover have "trimmed (91 # ?c @ [93]) = 91 # ?c @ [93]" by (intro trimmed_ends) simp
  moreover have "indexOf 93 (91 # ?c @ [93]) = Some (Suc (length ?c))"
    using indexOf_append_hit [of 93 "91 # ?c" "[]"] cidr_no_bracket [of a p] by simp
  ultimately show ?thesis using cidr_not_bracketed [of a p] by (simp add: ipListParseNetwork_def)
qed

lemma token_v6_port:
  assumes "networkWf a p" "p = ipListParseBits a" "n \<le> 65535"
  shows "ipListParseAddressToken (91 # ipListParseCidr a p @ 93 # 58 # number n) = Some (Some ([ipListParseCidr a p], int n))"
proof -
  let ?c = "ipListParseCidr a p"
  have "indexOf 93 (91 # ?c @ 93 # 58 # number n) = Some (Suc (length ?c))"
    using indexOf_append_hit [of 93 "91 # ?c" "58 # number n"] cidr_no_bracket [of a p] by simp
  moreover have "45 \<notin> set (91 # ?c @ 93 # 58 # number n)"
    using cidr_no_bracket [of a p] by (simp add: number_notin isDigit_def)
  ultimately show ?thesis
    using ipListParseNetwork_cidr [OF assms(1)] network_bracketed [OF assms(2)] port_number [OF assms(3)]
    by (simp add: ipListParseAddressToken_def tokenPort_def)
qed

lemma token_number: "ipListParseAddressToken (number n) = Some None"
proof -
  have "trimmed (number n) = number n" by (rule trimmed_id [OF plainWord_all(1) [OF digits_plain]])
  moreover have "\<not> startsWith 91 (number n)" using startsWith_in_set [of 91 "number n"] by (auto simp: number_notin isDigit_def)
  moreover have "ipListParseV4 (number n) = None"
    unfolding ipListParseV4_def by (subst ipListParseV4Loop.simps) (simp add: Let_def number_notin isDigit_def split: option.splits)
  ultimately show ?thesis
    by (simp add: ipListParseAddressToken_def tokenPort_def number_notin isDigit_def network_defs
        ipListParseAddress_def)
qed

lemma plain_not_separated: "plainWord w \<Longrightarrow> \<not> list_ex ipListParseIsSeparator w"
  by (simp add: list_ex_iff plainWord_simps)

lemma enumerate2: "enumerate 0 [x, y] = [(0, x), (1, y)]"
  by simp

lemma parseLine_word:
  assumes "plainWord w" "count_list w 47 < 2" "ipListParseAddressToken w = Some (Some ([c], port))"
    and "\<not> st_tabularFile st"
  shows "parseLine dp w st = Some (add dp [c] port (st\<lparr>st_firstContentLine := False\<rparr>))"
  using assms lineContent_word [OF assms(1,2)] plainWord_ne [OF assms(1)]
  by (simp add: parseLine_def lineTokens_def classifyWord_def Let_def plainWord_split plainWord_unquote
      plain_not_separated)

lemma parseLine_words:
  assumes "plainWord w" "plainWord v" "count_list w 47 + count_list v 47 < 2"
    and "ipListParseAddressToken w = Some (Some ([c], - 1))"
    and "ipListParseAddressToken v = Some None" "ipListParsePort v = Some q" "\<not> st_tabularFile st"
  shows "parseLine dp (w @ 32 # v) st = Some (add dp [c] (int q) (st\<lparr>st_firstContentLine := False\<rparr>))"
proof -
  have "\<not> list_ex ipListParseIsSeparator (w @ 32 # v)"
    using plain_not_separated [OF assms(1)] plain_not_separated [OF assms(2)]
    by (simp add: ipListParseIsSeparator_def)
  then show ?thesis
    using assms lineContent_words [OF assms(1-3)] plainWord_ne [OF assms(1)] plainWord_ne [OF assms(2)]
    by (simp add: parseLine_def lineTokens_def classifyWord_def Let_def plainWord_split plainWord_split2
        plainWord_unquote)
qed

lemma number_128: "qs ''128'' = number 128"
  by code_simp

lemma number_32: "qs ''32'' = number 32"
  by code_simp

lemma IsHostCidr_cidr:
  assumes "p \<le> ipListParseBits a"
  shows "IsHostCidr (ipListParseCidr a p) \<longleftrightarrow> p = ipListParseBits a"
proof (cases "p = ipListParseBits a")
  case True
  then show ?thesis using format_notin [of 47 a] cidr_nonempty [of a p]
    by (simp add: IsHostCidr_def cidr_host isDigit_def)
next
  case False
  with assms have c: "ipListParseCidr a p = ipListParseFormat a @ 47 # number p" by (simp add: ipListParseCidr_def)
  have "indexOf 47 (ipListParseCidr a p) = Some (length (ipListParseFormat a))"
    unfolding c using format_notin [of 47 a] by (intro indexOf_append_hit) (simp add: isDigit_def)
  moreover have "58 \<in> set (ipListParseFormat a) \<longleftrightarrow> addr_v6 a"
    using format_v6_has_colon format_v4_no_colon by blast
  ultimately show ?thesis using False unfolding IsHostCidr_def number_128 number_32
    by (auto simp: c number_inj ipListParseBits_def)
qed

lemma parseLine_format:
  assumes "networkWf a p" "0 \<le> q" "q \<le> 65535" "\<not> st_tabularFile st"
  shows "parseLine dp (FormatEntry \<lparr>e_cidr = ipListParseCidr a p, e_port = q, e_latencyMs = l\<rparr>) st
    = Some (add dp [ipListParseCidr a p] q (st\<lparr>st_firstContentLine := False\<rparr>))"
proof -
  let ?c = "ipListParseCidr a p" and ?e = "\<lparr>e_cidr = ipListParseCidr a p, e_port = q, e_latencyMs = l\<rparr>"
  have p: "p \<le> ipListParseBits a" using assms(1) by (simp add: networkWf_def)
  have slash: "p = ipListParseBits a \<Longrightarrow> 47 \<notin> set ?c" using format_notin [of 47 a] by (simp add: cidr_host isDigit_def)
  have add0: "add dp cs (- 1) st' = add dp cs q st'" if "q = 0" for cs st' using that by (simp add: add_def)
  have nq: "nat q \<le> 65535" "int (nat q) = q" using assms(2,3) by simp_all
  have d: "58 \<notin> set (number (nat q))" "47 \<notin> set (number (nat q))" by (simp_all add: number_notin isDigit_def)
  consider "q = 0" | "0 < q" "p = ipListParseBits a" "addr_v6 a" | "0 < q" "p = ipListParseBits a" "\<not> addr_v6 a"
    | "0 < q" "p \<noteq> ipListParseBits a" using assms(2) by linarith
  then show ?thesis
  proof cases
    case 1
    then have "FormatEntry ?e = ?c" using IsHostCidr_cidr [OF p] slash
      by (auto simp: FormatEntry_def FormatTarget_def)
    then show ?thesis using parseLine_word [OF cidr_plain cidr_slashes token_cidr [OF assms(1)] assms(4)] add0 1 by simp
  next
    case 2
    then have "FormatEntry ?e = 91 # ?c @ 93 # 58 # number (nat q)"
      using IsHostCidr_cidr [OF p] slash format_v6_has_colon [of a]
      by (simp add: FormatEntry_def FormatTarget_def intNumber_def cidr_host)
    moreover have "plainWord ([91] @ ?c @ [93, 58] @ number (nat q))"
      by (intro plainWord_append cidr_plain digits_plain) (simp_all add: plainWord_def)
    moreover have "count_list (91 # ?c @ 93 # 58 # number (nat q)) 47 < 2" using slash [OF 2(2)] d by simp
    ultimately show ?thesis using parseLine_word [OF _ _ token_v6_port [OF assms(1) 2(2) nq(1)] assms(4)] nq(2) by simp
  next
    case 3
    then have "FormatEntry ?e = ?c @ 58 # number (nat q)"
      using IsHostCidr_cidr [OF p] slash format_v4_no_colon [of a]
      by (simp add: FormatEntry_def FormatTarget_def intNumber_def cidr_host)
    moreover have "plainWord (?c @ [58] @ number (nat q))"
      by (intro plainWord_append cidr_plain digits_plain) (simp_all add: plainWord_def)
    moreover have "count_list (?c @ 58 # number (nat q)) 47 < 2" using slash [OF 3(2)] d by simp
    ultimately show ?thesis using parseLine_word [OF _ _ token_v4_port [OF assms(1) 3(2,3) nq(1)] assms(4)] nq(2) by simp
  next
    case 4
    then have "FormatEntry ?e = ?c @ 32 # number (nat q)"
      using IsHostCidr_cidr [OF p] by (simp add: FormatEntry_def intNumber_def)
    moreover have "count_list ?c 47 + count_list (number (nat q)) 47 < 2" using d cidr_slashes [of a p] by simp
    ultimately show ?thesis
      using parseLine_words [OF cidr_plain digits_plain _ token_cidr [OF assms(1)] token_number port_number [OF nq(1)] assms(4)] nq(2)
      by simp
  qed
qed

lemma key_split: "32 \<notin> set x \<Longrightarrow> 32 \<notin> set y \<Longrightarrow> x @ 32 # u = y @ (32 :: nat) # v \<longleftrightarrow> x = y \<and> u = v"
proof (induction x arbitrary: y)
  case Nil
  then show ?case by (cases y) auto
next
  case (Cons a x)
  then show ?case by (cases y) auto
qed

lemma intNumber_inj: "0 \<le> m \<Longrightarrow> 0 \<le> n \<Longrightarrow> intNumber m = intNumber n \<longleftrightarrow> m = n"
  by (auto simp: intNumber_def number_inj)

lemma entryKey_inj:
  assumes "plainWord (e_cidr d)" "plainWord (e_cidr e)" "0 \<le> e_port d" "0 \<le> e_port e"
  shows "entryKey d = entryKey e \<longleftrightarrow> e_cidr d = e_cidr e \<and> e_port d = e_port e"
proof -
  have "32 \<notin> set (e_cidr d)" "32 \<notin> set (e_cidr e)"
    using plainWord_all(1) [OF assms(1)] plainWord_all(1) [OF assms(2)] by auto
  then show ?thesis by (simp add: entryKey_def key_split intNumber_inj assms(3,4))
qed

text \<open>An entry the reader can produce from a single network: the text of a masked network that is not
  an IPv4-mapped one, and a port.\<close>

definition canonicalEntry :: "IpListEntry \<Rightarrow> bool" where
  "canonicalEntry e \<longleftrightarrow> (\<exists>a p. e_cidr e = ipListParseCidr a p \<and> networkWf a p) \<and> 0 \<le> e_port e \<and> e_port e \<le> 65535"

definition readBack :: "int \<Rightarrow> IpListEntry \<Rightarrow> IpListEntry" where
  "readBack dp e = \<lparr>e_cidr = e_cidr e, e_port = (if e_port e \<le> 0 then dp else e_port e), e_latencyMs = 0\<rparr>"

lemma parseLine_canonical:
  assumes "canonicalEntry e" "\<not> st_tabularFile st"
  shows "parseLine dp (FormatEntry e) st
    = Some (addCidr (e_port (readBack dp e)) (e_cidr e) (st\<lparr>st_firstContentLine := False\<rparr>))"
proof -
  obtain a p where ap: "e_cidr e = ipListParseCidr a p" "networkWf a p" "0 \<le> e_port e" "e_port e \<le> 65535"
    using assms(1) by (auto simp: canonicalEntry_def)
  have e: "\<lparr>e_cidr = ipListParseCidr a p, e_port = e_port e, e_latencyMs = e_latencyMs e\<rparr> = e"
    using ap(1) by (cases e) simp
  show ?thesis
    using parseLine_format [OF ap(2-4) assms(2), of dp "e_latencyMs e", unfolded e] ap(1)
    by (simp add: add_def readBack_def)
qed

lemma addCidr_fresh:
  "entryKey (readBack dp e) \<notin> st_seen st \<Longrightarrow> addCidr (e_port (readBack dp e)) (e_cidr e) st
     = st\<lparr>st_seen := insert (entryKey (readBack dp e)) (st_seen st),
         st_result := (st_result st)\<lparr>entries := entries (st_result st) @ [readBack dp e]\<rparr>\<rparr>"
  by (simp add: addCidr_def Let_def entryKey_def readBack_def)

lemma parseLines_canonical:
  assumes "\<forall>e \<in> set es. canonicalEntry e" "\<not> st_tabularFile st"
    and "distinct (map (\<lambda>e. entryKey (readBack dp e)) es)" "\<forall>e \<in> set es. entryKey (readBack dp e) \<notin> st_seen st"
  shows "\<exists>st'. parseLines dp (map FormatEntry es) st = Some st'
    \<and> st_result st' = (st_result st)\<lparr>entries := entries (st_result st) @ map (readBack dp) es\<rparr>"
  using assms
proof (induction es arbitrary: st)
  case Nil
  then show ?case by simp
next
  case (Cons e es)
  define st1 where "st1 = addCidr (e_port (readBack dp e)) (e_cidr e) (st\<lparr>st_firstContentLine := False\<rparr>)"
  have st1: "st1 = (st\<lparr>st_firstContentLine := False\<rparr>)\<lparr>st_seen := insert (entryKey (readBack dp e)) (st_seen st),
      st_result := (st_result st)\<lparr>entries := entries (st_result st) @ [readBack dp e]\<rparr>\<rparr>"
    unfolding st1_def using Cons.prems(4) addCidr_fresh [of dp e "st\<lparr>st_firstContentLine := False\<rparr>"] by simp
  have "parseLine dp (FormatEntry e) st = Some st1"
    using parseLine_canonical [of e st dp] Cons.prems by (simp add: st1_def)
  moreover have "\<not> st_tabularFile st1" "\<forall>x \<in> set es. entryKey (readBack dp x) \<notin> st_seen st1"
    using Cons.prems by (auto simp: st1 rev_image_eqI)
  then obtain st' where "parseLines dp (map FormatEntry es) st1 = Some st'"
    "st_result st' = (st_result st1)\<lparr>entries := entries (st_result st1) @ map (readBack dp) es\<rparr>"
    using Cons.IH [of st1] Cons.prems by auto
  ultimately show ?case by (auto simp: st1)
qed

lemma qsplit_join: "xs \<noteq> [] \<Longrightarrow> \<forall>x \<in> set xs. c \<notin> set x \<Longrightarrow> qsplit c (qjoin [c] xs) = xs"
proof (induction "[c]" xs rule: qjoin.induct)
  case (2 x)
  then have "c \<notin> set x" by simp
  then show ?case by (induction x) auto
next
  case (3 x y zs)
  then have tl: "qsplit c (qjoin [c] (y # zs)) = y # zs" by auto
  have "c \<notin> set x" using 3 by simp
  then have "qsplit c (x @ c # qjoin [c] (y # zs)) = x # qsplit c (qjoin [c] (y # zs))" by (induction x) auto
  with tl show ?case by simp
qed simp

lemma format_entry_chars:
  assumes "canonicalEntry e"
  shows "FormatEntry e \<noteq> []" "c \<in> set (FormatEntry e) \<Longrightarrow> c < 128 \<and> c \<noteq> 10 \<and> c \<noteq> 0xfeff"
proof -
  obtain a p where ap: "e_cidr e = ipListParseCidr a p" using assms by (auto simp: canonicalEntry_def)
  have sub: "set (FormatEntry e) \<subseteq> set (e_cidr e) \<union> {32, 58, 91, 93} \<union> set (number (nat (e_port e)))"
    by (auto simp: FormatEntry_def FormatTarget_def intNumber_def split: option.splits if_splits dest: in_set_takeD)
  show "c < 128 \<and> c \<noteq> 10 \<and> c \<noteq> 0xfeff" if "c \<in> set (FormatEntry e)"
  proof -
    from that sub consider "c \<in> set (ipListParseCidr a p)" | "c \<in> {32, 58, 91, 93}" | "c \<in> set (number (nat (e_port e)))"
      unfolding ap by blast
    then show ?thesis
      by cases (auto simp: isDigit_def dest!: cidr_chars set_number_digits)
  qed
  have "take k (e_cidr e) \<noteq> []" if "indexOf 47 (e_cidr e) = Some k" for k
  proof -
    from that have "k = length (ipListParseFormat a)"
      using format_notin [of 47 a] indexOf_append_hit [of 47 "ipListParseFormat a" "number p"]
      by (auto simp: ap ipListParseCidr_def Let_def isDigit_def number_notin split: if_splits)
    then show ?thesis using format_nonempty [of a] by (simp add: ap ipListParseCidr_def Let_def)
  qed
  then show "FormatEntry e \<noteq> []" using cidr_nonempty [of a p] ap
    by (auto simp: FormatEntry_def FormatTarget_def split: option.splits)
qed

lemma contentLines_format:
  assumes "\<forall>e \<in> set es. canonicalEntry e"
  shows "contentLines (qjoin [10] (map FormatEntry es)) = map FormatEntry es"
proof (cases "es = []")
  case True
  then show ?thesis by (simp add: contentLines_def)
next
  case False
  have "qsplit 10 (qjoin [10] (map FormatEntry es)) = map FormatEntry es"
    using False assms format_entry_chars(2) by (intro qsplit_join) auto
  moreover have "last (map FormatEntry es) \<noteq> []"
    using False assms format_entry_chars(1) [of "last es"] by (simp add: last_map)
  ultimately show ?thesis by (simp add: contentLines_def)
qed

subsection \<open>The contracts of \<open>IpListParse.h\<close>\<close>

lemma remdups_snoc: "remdups (xs @ [x]) = filter (\<lambda>y. y \<noteq> x) (remdups xs) @ [x]"
  by (induction xs) auto

lemma remdups_rev_Cons:
  "rev (remdups (rev (x # xs))) = x # rev (remdups (rev (filter (\<lambda>y. y \<noteq> x) xs)))"
  by (simp add: remdups_snoc rev_filter remdups_filter)

lemma entriesLoop_eq:
  "entriesLoop port cs seen out = out @ map (\<lambda>c. \<lparr>e_cidr = c, e_port = port, e_latencyMs = 0\<rparr>)
     (rev (remdups (rev (filter (\<lambda>c. c \<noteq> [] \<and> c \<notin> seen) (map NormalizeCidr cs)))))"
proof (induction cs arbitrary: seen out)
  case Nil
  then show ?case by simp
next
  case (Cons t cs)
  have "filter (\<lambda>c. c \<noteq> [] \<and> c \<notin> insert x seen) ys = filter (\<lambda>y. y \<noteq> x) (filter (\<lambda>c. c \<noteq> [] \<and> c \<notin> seen) ys)"
    for x ys by (auto intro: filter_cong)
  then show ?case using Cons by (simp add: Let_def remdups_rev_Cons del: rev.simps filter_filter)
qed

lemma network_mapped_96:
  assumes "ipListParseIsMapped a"
  shows "ipListParseNetwork (ipListParseCidr a 96) = None"
proof -
  let ?c = "ipListParseCidr a 96"
  have v6: "addr_v6 a" using assms by (simp add: ipListParseIsMapped_def)
  then have c: "?c = ipListParseFormat a @ 47 # number 96" by (simp add: ipListParseCidr_def ipListParseBits_def)
  have "trimmed ?c = ?c" by (rule trimmed_id [OF plainWord_all(1) [OF cidr_plain]])
  moreover have "indexOf 47 ?c = Some (length (ipListParseFormat a))"
    unfolding c using format_notin [of 47 a] by (intro indexOf_append_hit) (simp add: isDigit_def)
  moreover have "ipListParseDecimal (number 96) 3 = Some 96" using decimal_prefix [of 96] by simp
  moreover have "ipListParseAddress (ipListParseFormat a) = Some a" using v6 by (intro ipListParseAddress_format) simp
  ultimately show ?thesis using cidr_not_bracketed [of a 96] v6 assms
    by (auto simp: network_defs c ipListParseBits_def)
qed

text \<open>C14: what \<open>FormatEntry\<close> prints is read back by \<open>ParseIpListText\<close>. For every list of canonical entries
  (masked networks that are not IPv4-mapped, ports 0 to 65535) without repetitions, the lines printed
  for them parse to the same entries in the same order, with an absent port replaced by the default
  one; nothing is rejected and nothing is counted as a duplicate. The only fact used about UTF-8
  decoding is that it leaves ASCII text alone.\<close>

theorem format_parse_roundtrip:
  assumes ascii: "\<And>s. \<forall>c \<in> set s. c < 128 \<Longrightarrow> fromUtf8 s = s"
    and canonical: "\<forall>e \<in> set es. canonicalEntry e"
    and dist: "distinct (map (\<lambda>e. (e_cidr e, e_port (readBack (clampPort dp) e))) es)"
  shows "ParseIpListText fromUtf8 (qjoin [u_lf] (map FormatEntry es)) dp
    = Some \<lparr>entries = map (readBack (clampPort dp)) es, rejected = 0, duplicates = 0, samples = []\<rparr>"
proof -
  let ?text = "qjoin [u_lf] (map FormatEntry es)" and ?d = "clampPort dp"
  have chars: "c < 128" if "c \<in> set ?text" for c
    using that set_qjoin [of "[10]" "map FormatEntry es"] canonical format_entry_chars(2) by fastforce
  then have dec: "fromUtf8 ?text = ?text" by (intro ascii) blast
  have bom: "\<not> startsWith 0xfeff ?text" using chars [of "0xfeff"] startsWith_in_set [of "0xfeff" ?text] by auto
  have plain: "plainWord (e_cidr e)" "0 \<le> e_port (readBack ?d e)" if "e \<in> set es" for e
    using that canonical cidr_plain clampPort_range(1) [of dp] by (fastforce simp: canonicalEntry_def readBack_def)+
  have inj: "inj_on (\<lambda>k. entryKey \<lparr>e_cidr = fst k, e_port = snd k, e_latencyMs = 0\<rparr>)
      ((\<lambda>e. (e_cidr e, e_port (readBack ?d e))) ` set es)"
    using plain by (auto simp: inj_on_def entryKey_inj)
  have keys: "distinct (map (\<lambda>e. entryKey (readBack ?d e)) es)"
    using dist inj by (auto simp: distinct_map inj_on_def readBack_def)
  obtain st' where "parseLines ?d (map FormatEntry es) initState = Some st'"
    "st_result st' = (st_result initState)\<lparr>entries := entries (st_result initState) @ map (readBack ?d) es\<rparr>"
    using parseLines_canonical [OF canonical _ keys, of initState] by (auto simp: initState_def)
  then show ?thesis
    by (simp add: ParseIpListText_def dec bom contentLines_format [OF canonical] initState_def)
qed

theorem format_parse_roundtrip_witness:
  "ParseIpListText (\<lambda>s. s) (qjoin [u_lf] (map FormatEntry
      [\<lparr>e_cidr = qs ''1.2.3.0/24'', e_port = 443, e_latencyMs = 7\<rparr>, \<lparr>e_cidr = qs ''9.9.9.9'', e_port = 0, e_latencyMs = 0\<rparr>])) 53
   = Some \<lparr>entries = [\<lparr>e_cidr = qs ''1.2.3.0/24'', e_port = 443, e_latencyMs = 0\<rparr>,
       \<lparr>e_cidr = qs ''9.9.9.9'', e_port = 53, e_latencyMs = 0\<rparr>], rejected = 0, duplicates = 0, samples = []\<rparr>"
proof -
  have "qs ''1.2.3.0/24'' = ipListParseCidr \<lparr>addr_v6 = False, addr_hi = 0, addr_lo = 0x01020300\<rparr> 24"
    "qs ''9.9.9.9'' = ipListParseCidr \<lparr>addr_v6 = False, addr_hi = 0, addr_lo = 0x09090909\<rparr> 32" by code_simp+
  moreover have "networkWf \<lparr>addr_v6 = False, addr_hi = 0, addr_lo = 0x01020300\<rparr> 24"
    "networkWf \<lparr>addr_v6 = False, addr_hi = 0, addr_lo = 0x09090909\<rparr> 32" by code_simp+
  ultimately have "canonicalEntry \<lparr>e_cidr = qs ''1.2.3.0/24'', e_port = 443, e_latencyMs = 7\<rparr>"
    "canonicalEntry \<lparr>e_cidr = qs ''9.9.9.9'', e_port = 0, e_latencyMs = 0\<rparr>"
    unfolding canonicalEntry_def by (simp; blast)+
  then show ?thesis
    using format_parse_roundtrip [of "\<lambda>s. s" "[\<lparr>e_cidr = qs ''1.2.3.0/24'', e_port = 443, e_latencyMs = 7\<rparr>,
      \<lparr>e_cidr = qs ''9.9.9.9'', e_port = 0, e_latencyMs = 0\<rparr>]" 53]
    by (simp add: readBack_def clampPort_def)
qed

text \<open>C19: \<open>ParseIpListText\<close> returns on every input. Its entries are pairwise different in
  (network, port), every network is the text of a masked block with prefix length at least 1, every
  port lies in 0..65535, at most five samples of at most 64 characters are kept, and there is a sample
  for each of the first five rejected pieces.\<close>

theorem parse_result_wf:
  "\<exists>r. ParseIpListText fromUtf8 text dp = Some r
     \<and> distinct (map (\<lambda>e. (e_cidr e, e_port e)) (entries r))
     \<and> list_all (\<lambda>e. blockText (e_cidr e) \<and> 0 \<le> e_port e \<and> e_port e \<le> 65535 \<and> e_latencyMs e = 0) (entries r)
     \<and> length (samples r) = min 5 (rejected r)
     \<and> list_all (\<lambda>t. length t \<le> 64) (samples r)"
proof -
  obtain st where st: "ParseIpListText fromUtf8 text dp = Some (st_result st)" "stateOk st"
    using parseLines_ok [OF stateOk_init clampPort_range, of dp "contentLines (if startsWith 0xfeff (fromUtf8 text)
      then drop 1 (fromUtf8 text) else fromUtf8 text)"]
    by (elim exE conjE) (simp add: ParseIpListText_def Let_def)
  then have "distinct (map (\<lambda>e. (e_cidr e, e_port e)) (entries (st_result st)))"
    by (auto simp: stateOk_def distinct_map inj_on_def entryKey_def)
  with st show ?thesis
    by (auto simp: stateOk_def entryOk_def list_all_iff kIpListParseMaxSamples_def kIpListParseSampleChars_def)
qed

text \<open>\<open>NormalizeCidr\<close> is a normal form: normalising twice is normalising once, whatever the input.\<close>

theorem normalize_idempotent: "NormalizeCidr (NormalizeCidr t) = NormalizeCidr t"
proof (cases "ipListParseNetwork t")
  case None
  have "ipListParseNetwork [] = None" by code_simp
  then show ?thesis using None by (simp add: NormalizeCidr_def)
next
  case (Some ap)
  then show ?thesis using ipListParseNetwork_wf [of t] ipListParseNetwork_cidr
    by (cases ap) (auto simp: NormalizeCidr_def)
qed

text \<open>\<open>AddressCount\<close> of a printed block is its number of addresses, saturated at 2^63.\<close>

theorem address_count_block:
  assumes "blockWf a p"
  shows "unat (AddressCount (ipListParseCidr a p)) = min (2 ^ (ipListParseBits a - p)) (2 ^ 63)"
proof -
  have p: "p \<le> ipListParseBits a" using assms by (simp add: blockWf_def)
  have colon: "58 \<in> set (ipListParseFormat a) \<longleftrightarrow> addr_v6 a"
    using format_v6_has_colon format_v4_no_colon by blast
  have pw: "unat (push_bit k 1 :: 64 word) = 2 ^ k" if "k \<le> 63" for k
  proof -
    have "(2::nat) ^ k \<le> 2 ^ 63" using that by (intro power_increasing) simp_all
    then have "(2::nat) ^ k < 2 ^ 64" by simp
    then show ?thesis using that by (subst unsigned_push_bit_eq) (simp add: take_bit_nat_eq_self)
  qed
  show ?thesis
  proof (cases "p = ipListParseBits a")
    case True
    then show ?thesis using cidr_nonempty [of a p] format_notin [of 47 a]
      by (simp add: AddressCount_def cidr_host isDigit_def)
  next
    case False
    with p have c: "ipListParseCidr a p = ipListParseFormat a @ 47 # number p" by (simp add: ipListParseCidr_def)
    have i: "indexOf 47 (ipListParseFormat a @ 47 # number p) = Some (length (ipListParseFormat a))"
      using format_notin [of 47 a] by (intro indexOf_append_hit) (simp add: isDigit_def)
    have d: "ipListParseDecimal (number p) 3 = Some (of_nat p)" "unat (of_nat p :: 32 word) = p"
      using p bits_le [of a] by (auto intro: decimal_prefix simp: unat_of_nat)
    have eq: "unat (AddressCount (ipListParseCidr a p))
        = (if ipListParseBits a - p \<ge> 63 then 2 ^ 63 else 2 ^ (ipListParseBits a - p))"
      using i d p prefix_not_greater [OF p] colon pw [of 63] pw [of "ipListParseBits a - p"]
      unfolding c AddressCount_def by (simp add: ipListParseBits_def)
    show ?thesis
    proof (cases "63 \<le> ipListParseBits a - p")
      case True
      then have "(2::nat) ^ 63 \<le> 2 ^ (ipListParseBits a - p)" by (rule power_increasing) simp
      with eq True show ?thesis by (simp only: if_True min_absorb2)
    next
      case False
      then have "(2::nat) ^ (ipListParseBits a - p) \<le> 2 ^ 63" by (intro power_increasing) simp_all
      with eq False show ?thesis by (simp only: if_False min_absorb1)
    qed
  qed
qed

theorem address_count_block_witness:
  "unat (AddressCount (ipListParseCidr \<lparr>addr_v6 = False, addr_hi = 0, addr_lo = 0x0a000000\<rparr> 8)) = 2 ^ 24
   \<and> unat (AddressCount (ipListParseCidr \<lparr>addr_v6 = True, addr_hi = 0x2606470000000000, addr_lo = 0\<rparr> 32)) = 2 ^ 63"
proof -
  have "blockWf \<lparr>addr_v6 = False, addr_hi = 0, addr_lo = 0x0a000000\<rparr> 8"
    "blockWf \<lparr>addr_v6 = True, addr_hi = 0x2606470000000000, addr_lo = 0\<rparr> 32"
    by (simp_all add: blockWf_def addrWf_def ipListParseBits_def ipListParseMask_def mask_numeral)
  from this [THEN address_count_block] show ?thesis by (simp add: ipListParseBits_def)
qed

text \<open>\<open>EntriesFromCidrs\<close> lists the first occurrence of every normal form, in the order of the input,
  drops what does not parse, and gives every entry the clamped default port.\<close>

theorem entries_from_cidrs_spec:
  "map e_cidr (EntriesFromCidrs cidrs dp) = rev (remdups (rev (filter (\<lambda>c. c \<noteq> []) (map NormalizeCidr cidrs))))
   \<and> list_all (\<lambda>e. e_port e = clampPort dp \<and> e_latencyMs e = 0 \<and> NormalizeCidr (e_cidr e) = e_cidr e) (EntriesFromCidrs cidrs dp)"
proof -
  have "NormalizeCidr (NormalizeCidr t) = NormalizeCidr t" if "NormalizeCidr t \<noteq> []" for t
    using that ipListParseNetwork_wf [of t] ipListParseNetwork_cidr
    by (auto simp: NormalizeCidr_def split: option.splits)
  then show ?thesis by (auto simp: EntriesFromCidrs_def entriesLoop_eq list_all_iff comp_def)
qed

text \<open>A gap in the round trip. The range ::fffe:ffff:ffff-::1:0:0:0 is covered by three blocks,
  the middle one being ::ffff:0:0/96; but \<open>ipListParseNetwork\<close> turns an IPv4-mapped network into the
  IPv4 network with prefix length reduced by 96 and then refuses prefix length 0, so that entry is
  not accepted when its own text is read again.\<close>

theorem mapped_block_unreadable:
  "ipListParseCoverRange \<lparr>addr_v6 = True, addr_hi = 0, addr_lo = 0xfffeffffffff\<rparr>
       \<lparr>addr_v6 = True, addr_hi = 0, addr_lo = 0x1000000000000\<rparr>
     = Some (Some [ipListParseCidr \<lparr>addr_v6 = True, addr_hi = 0, addr_lo = 0xfffeffffffff\<rparr> 128,
         ipListParseCidr \<lparr>addr_v6 = True, addr_hi = 0, addr_lo = 0xffff00000000\<rparr> 96,
         ipListParseCidr \<lparr>addr_v6 = True, addr_hi = 0, addr_lo = 0x1000000000000\<rparr> 128])
   \<and> NormalizeCidr (ipListParseCidr \<lparr>addr_v6 = True, addr_hi = 0, addr_lo = 0xffff00000000\<rparr> 96) = []"
proof
  let ?a = "\<lparr>addr_v6 = True, addr_hi = 0, addr_lo = 0xfffeffffffff\<rparr> :: IpListParseAddr"
    and ?b = "\<lparr>addr_v6 = True, addr_hi = 0, addr_lo = 0xffff00000000\<rparr> :: IpListParseAddr"
    and ?c = "\<lparr>addr_v6 = True, addr_hi = 0, addr_lo = 0x1000000000000\<rparr> :: IpListParseAddr"
  note defs = Let_def coverAlign_def coverFit_def coverEnd_def coverNext_def countr_zero_def bit_width_def
    ipListParseBits_def natWidth.simps natTrailing.simps
  have "coverLoop ?a ?c [] = coverLoop ?b ?c [(?a, 128)]"
    by (subst coverLoop.simps) (simp add: defs)
  also have "\<dots> = coverLoop ?c ?c [(?a, 128), (?b, 96)]"
    by (subst coverLoop.simps) (simp add: defs)
  also have "\<dots> = Some [(?a, 128), (?b, 96), (?c, 128)]"
    by (subst coverLoop.simps) (simp add: defs)
  finally show "ipListParseCoverRange ?a ?c
      = Some (Some [ipListParseCidr ?a 128, ipListParseCidr ?b 96, ipListParseCidr ?c 128])"
    by (simp add: ipListParseCoverRange_def)
  have "ipListParseIsMapped ?b" by code_simp
  then show "NormalizeCidr (ipListParseCidr ?b 96) = []" by (simp add: NormalizeCidr_def network_mapped_96)
qed

end
