(* ===== verification/Kill_Switch.thy ===== *)
theory Kill_Switch
  imports Wd_Prelude
begin

text \<open>
  The kill switch (\<^verbatim>\<open>src/src/sys/KillSwitch.cpp\<close>): a supervisor of guard processes that install the
  firewall rules. \<open>state_\<close>, \<open>active_\<close> (the guard whose rules are in force) and \<open>pending_\<close> (the guard that
  is being started) are the fields \<open>ks_state\<close>, \<open>ks_active\<close>, \<open>ks_pending\<close>; a \<open>GuardProcess *\<close> is an
  address into \<open>ks_guards\<close>. Every handler is one state transformer; the event loop is the inductive
  relation \<open>ks_step\<close>, in which the environment may change the settings, let time pass, destroy waiters
  and produce any guard event at any time. The Linux build is modelled (no extra-core paths, a bridge
  name); log output is not. The callbacks of \<open>whenSettled\<close> are recorded in \<open>ks_calls\<close> in the order they
  are called. The JSON text of a guard configuration is represented by its fields: two configurations
  have the same text exactly when they have the same fields.

  The invariant \<open>ksInv\<close> is stated here and proved in theory \<open>Kill_Switch_Safety\<close>.
\<close>

subsection \<open>Data\<close>

datatype KsState = Disabled | Arming | Armed | Failed

datatype Message =
    NoMessage
  | GuardText qstring
  | MsgNotResponding nat
  | MsgCouldNotStart
  | MsgCrashed
  | MsgExited int
  | MsgCrashedEarly
  | MsgExitedEarly int
  | MsgIdentity qstring
  | MsgOverridden

record GuardConfig =
  allow_lan :: bool
  tun_name :: qstring
  tun_cidrs :: "qstring list"
  extra_paths :: "qstring list"
  bridge_name :: qstring
  api_port :: nat

record GuardProcess =
  g_config :: GuardConfig
  g_keepStates :: bool
  g_timer :: bool
  g_ready :: bool
  g_closing :: bool
  g_running :: bool
  g_inputOpen :: bool
  g_graceTimer :: bool
  g_stopped :: bool

record Waiter =
  w_callback :: nat
  w_bound :: bool
  w_alive :: bool
  w_idle :: bool

record KsSettings =
  kill_switch :: bool
  disable_private_range_bypass :: bool
  vpn_tun_ipv4_cidr :: qstring
  vpn_tun_ipv6_cidr :: qstring
  vpn_l3_bridge :: bool
  prepare_exit :: bool

record KillSwitch =
  ks_state :: KsState
  ks_identityUnsupported :: bool
  ks_identityDetail :: qstring
  ks_overridden :: bool
  ks_active :: "nat option"
  ks_pending :: "nat option"
  ks_failureCode :: qstring
  ks_failureMessage :: Message
  ks_lastRespawn :: "nat option"
  ks_waiters :: "Waiter list"
  ks_shutdown :: bool
  ks_guards :: "nat \<rightharpoonup> GuardProcess"
  ks_next :: nat
  ks_settings :: KsSettings
  ks_apiPort :: nat
  ks_now :: nat
  ks_retryTimers :: nat
  ks_calls :: "(nat \<times> bool) list"

definition kReadyTimeoutMs :: nat where "kReadyTimeoutMs = 15000"

definition kRespawnIntervalMs :: nat where "kRespawnIntervalMs = 30000"

definition kPrivilege :: qstring where "kPrivilege = qs ''privilege''"
definition kUnsupported :: qstring where "kUnsupported = qs ''unsupported''"
definition kConfig :: qstring where "kConfig = qs ''config''"
definition kTampered :: qstring where "kTampered = qs ''tampered''"
definition kInternal :: qstring where "kInternal = qs ''internal''"
definition kCrash :: qstring where "kCrash = qs ''crash''"
definition kTimeout :: qstring where "kTimeout = qs ''timeout''"
definition kOverridden :: qstring where "kOverridden = qs ''overridden''"

definition tunName :: qstring where "tunName = qs ''throne-tun''"

definition bridgeName :: "KsSettings \<Rightarrow> qstring" where
  "bridgeName settings = (if vpn_l3_bridge settings then qs ''throne-br'' else [])"

definition buildConfig :: "KillSwitch \<Rightarrow> GuardConfig" where
  "buildConfig ks = \<lparr>allow_lan = \<not> disable_private_range_bypass (ks_settings ks), tun_name = tunName,
     tun_cidrs = [vpn_tun_ipv4_cidr (ks_settings ks), vpn_tun_ipv6_cidr (ks_settings ks)], extra_paths = [],
     bridge_name = bridgeName (ks_settings ks), api_port = ks_apiPort ks\<rparr>"

subsection \<open>Queries\<close>

definition allowsStart :: "KillSwitch \<Rightarrow> bool" where
  "allowsStart ks \<longleftrightarrow> ks_state ks = Disabled \<or> ks_state ks = Armed"

definition failedForPrivileges :: "KillSwitch \<Rightarrow> bool" where
  "failedForPrivileges ks \<longleftrightarrow> ks_state ks = Failed \<and> ks_failureCode ks = kPrivilege"

definition failedPersistently :: "KillSwitch \<Rightarrow> bool" where
  "failedPersistently ks \<longleftrightarrow>
     (if ks_state ks \<noteq> Failed then False
      else ks_failureCode ks = kPrivilege \<or> ks_failureCode ks = kUnsupported \<or> ks_failureCode ks = kConfig
        \<or> ks_failureCode ks = kOverridden)"

definition failedForIdentity :: "KillSwitch \<Rightarrow> bool" where
  "failedForIdentity ks \<longleftrightarrow> ks_state ks = Failed \<and> ks_failureCode ks = kUnsupported \<and> ks_identityUnsupported ks
     \<and> (ks_active ks \<noteq> None \<or> ks_pending ks \<noteq> None)"

datatype FailureText =
    PlainMessage Message
  | TextPrivilege Message
  | TextUnsupported
  | TextTampered Message
  | TextConfig Message
  | TextStopped Message

definition failureText :: "KillSwitch \<Rightarrow> FailureText" where
  "failureText ks =
     (if ks_failureCode ks = kOverridden then PlainMessage (ks_failureMessage ks)
      else if ks_failureCode ks = kPrivilege then TextPrivilege (ks_failureMessage ks)
      else if ks_failureCode ks = kUnsupported then
        (if ks_failureMessage ks \<in> {NoMessage, GuardText []} then TextUnsupported else PlainMessage (ks_failureMessage ks))
      else if ks_failureCode ks = kTampered then TextTampered (ks_failureMessage ks)
      else if ks_failureCode ks = kConfig then TextConfig (ks_failureMessage ks)
      else TextStopped (ks_failureMessage ks))"

subsection \<open>Handlers\<close>

definition setState :: "KsState \<Rightarrow> KillSwitch \<Rightarrow> KillSwitch" where
  "setState state ks =
     (let ks' = (if state \<noteq> Failed then ks\<lparr>ks_failureCode := [], ks_failureMessage := NoMessage\<rparr> else ks)
      in ks'\<lparr>ks_state := state\<rparr>)"

definition waiterStays :: "KillSwitch \<Rightarrow> Waiter \<Rightarrow> bool" where
  "waiterStays ks waiter \<longleftrightarrow> (if w_idle waiter then ks_pending ks \<noteq> None else ks_state ks = Arming)"

definition settle :: "KillSwitch \<Rightarrow> KillSwitch" where
  "settle ks = ks\<lparr>ks_waiters := filter (waiterStays ks) (ks_waiters ks),
     ks_calls := ks_calls ks @ map (\<lambda>w. (w_callback w, ks_state ks = Armed))
       (filter (\<lambda>w. \<not> waiterStays ks w \<and> \<not> (w_bound w \<and> \<not> w_alive w)) (ks_waiters ks))\<rparr>"

definition fail :: "qstring \<Rightarrow> Message \<Rightarrow> KillSwitch \<Rightarrow> KillSwitch" where
  "fail code message ks =
     settle (setState Failed (ks\<lparr>ks_failureCode := code, ks_failureMessage := message\<rparr>))"

definition failIdentity :: "KillSwitch \<Rightarrow> KillSwitch" where
  "failIdentity ks =
     (let message = MsgIdentity (ks_identityDetail ks)
      in settle (if ks_state ks \<noteq> Failed \<or> ks_failureCode ks \<noteq> kUnsupported \<or> ks_failureMessage ks \<noteq> message
                 then setState Failed (ks\<lparr>ks_failureCode := kUnsupported, ks_failureMessage := message\<rparr>)
                 else ks))"

definition updGuard :: "nat \<Rightarrow> (GuardProcess \<Rightarrow> GuardProcess) \<Rightarrow> KillSwitch \<Rightarrow> KillSwitch" where
  "updGuard g f ks = (case ks_guards ks g of None \<Rightarrow> ks | Some guard \<Rightarrow> ks\<lparr>ks_guards := (ks_guards ks)(g \<mapsto> f guard)\<rparr>)"

definition closedGuard :: "GuardProcess \<Rightarrow> GuardProcess" where
  "closedGuard guard =
     (if g_closing guard then guard
      else let guard' = guard\<lparr>g_closing := True, g_timer := False\<rparr>
           in if \<not> g_running guard then guard' else guard'\<lparr>g_inputOpen := False, g_graceTimer := True\<rparr>)"

definition closeGuard :: "nat option \<Rightarrow> KillSwitch \<Rightarrow> KillSwitch" where
  "closeGuard guard ks = (case guard of None \<Rightarrow> ks | Some g \<Rightarrow> updGuard g closedGuard ks)"

definition stopHard :: "nat \<Rightarrow> KillSwitch \<Rightarrow> KillSwitch" where
  "stopHard g = updGuard g (\<lambda>guard. guard\<lparr>g_stopped := True\<rparr>)"

definition newGuard :: "GuardConfig \<Rightarrow> bool \<Rightarrow> GuardProcess" where
  "newGuard config keepStates = \<lparr>g_config = config, g_keepStates = keepStates, g_timer = True, g_ready = False,
     g_closing = False, g_running = True, g_inputOpen = True, g_graceTimer = False, g_stopped = False\<rparr>"

text \<open>\<open>closeGuard(std::exchange(pending_, nullptr))\<close>, and the same for \<open>active_\<close>.\<close>

definition dropPending :: "KillSwitch \<Rightarrow> KillSwitch" where
  "dropPending ks = closeGuard (ks_pending ks) (ks\<lparr>ks_pending := None\<rparr>)"

definition dropActive :: "KillSwitch \<Rightarrow> KillSwitch" where
  "dropActive ks = closeGuard (ks_active ks) (ks\<lparr>ks_active := None\<rparr>)"

definition spawn :: "GuardConfig \<Rightarrow> KillSwitch \<Rightarrow> KillSwitch" where
  "spawn config ks0 =
     (let ks1 = dropPending ks0;
          g = ks_next ks1;
          ks2 = ks1\<lparr>ks_guards := (ks_guards ks1)(g \<mapsto> newGuard config (ks_active ks1 \<noteq> None)),
                    ks_next := Suc g, ks_pending := Some g\<rparr>
      in if ks_active ks2 = None \<and> \<not> ks_identityUnsupported ks2 then setState Arming ks2 else ks2)"

definition applyOff :: "KillSwitch \<Rightarrow> KillSwitch" where
  "applyOff ks =
     (let ks1 = ks\<lparr>ks_identityUnsupported := False, ks_identityDetail := []\<rparr>;
          ks2 = dropActive (dropPending ks1)
      in settle (setState Disabled ks2))"

definition applyOverridden :: "KillSwitch \<Rightarrow> KillSwitch" where
  "applyOverridden ks =
     (let ks2 = dropActive (dropPending ks)
      in if ks_state ks2 = Failed \<and> ks_failureCode ks2 = kOverridden \<and> ks_failureMessage ks2 = MsgOverridden
         then settle ks2 else fail kOverridden MsgOverridden ks2)"

definition guardConfig :: "KillSwitch \<Rightarrow> nat option \<Rightarrow> GuardConfig option" where
  "guardConfig ks guard = (case guard of None \<Rightarrow> None | Some g \<Rightarrow> map_option g_config (ks_guards ks g))"

definition applyKs :: "KillSwitch \<Rightarrow> KillSwitch" where
  "applyKs ks =
     (if ks_shutdown ks then ks
      else if \<not> kill_switch (ks_settings ks) then applyOff ks
      else if ks_overridden ks then applyOverridden ks
      else
        let ks1 = (if ks_identityUnsupported ks \<and> ks_state ks = Armed then failIdentity ks else ks);
            config = buildConfig ks1
        in if guardConfig ks1 (ks_pending ks1) = Some config then ks1
           else if guardConfig ks1 (ks_active ks1) = Some config then
             (if ks_pending ks1 \<noteq> None then settle (dropPending ks1) else ks1)
           else spawn config ks1)"

definition noteIdentityUnsupported :: "qstring \<Rightarrow> KillSwitch \<Rightarrow> KillSwitch" where
  "noteIdentityUnsupported detail ks =
     applyKs (ks\<lparr>ks_identityDetail := detail, ks_identityUnsupported := True\<rparr>)"

definition setOverride :: "bool \<Rightarrow> KillSwitch \<Rightarrow> KillSwitch" where
  "setOverride overridden ks = ks\<lparr>ks_overridden := overridden\<rparr>"

definition SetApiPort :: "nat \<Rightarrow> KillSwitch \<Rightarrow> KillSwitch" where
  "SetApiPort port ks =
     (if ks_apiPort ks = port then ks
      else let ks1 = ks\<lparr>ks_apiPort := port\<rparr>
           in if ks_state ks1 \<noteq> Arming \<and> ks_state ks1 \<noteq> Armed \<and> ks_active ks1 = None \<and> ks_pending ks1 = None then ks1
              else if prepare_exit (ks_settings ks1) then ks1
              else applyKs ks1)"

definition whenSettled :: "nat \<Rightarrow> bool \<Rightarrow> KillSwitch \<Rightarrow> KillSwitch" where
  "whenSettled callback bound ks =
     (if ks_state ks \<noteq> Arming then ks\<lparr>ks_calls := ks_calls ks @ [(callback, ks_state ks = Armed)]\<rparr>
      else ks\<lparr>ks_waiters := ks_waiters ks @ [\<lparr>w_callback = callback, w_bound = bound, w_alive = True, w_idle = False\<rparr>]\<rparr>)"

definition whenIdle :: "nat \<Rightarrow> KillSwitch \<Rightarrow> KillSwitch" where
  "whenIdle callback ks =
     (if ks_pending ks = None then ks\<lparr>ks_calls := ks_calls ks @ [(callback, ks_state ks = Armed)]\<rparr>
      else ks\<lparr>ks_waiters := ks_waiters ks @ [\<lparr>w_callback = callback, w_bound = True, w_alive = True, w_idle = True\<rparr>]\<rparr>)"

definition armFailed :: "qstring \<Rightarrow> Message \<Rightarrow> KillSwitch \<Rightarrow> KillSwitch" where
  "armFailed code message ks =
     (if ks_active ks \<noteq> None then
        settle (if code \<noteq> kPrivilege \<and> code \<noteq> kUnsupported \<and> code \<noteq> kConfig
                then ks\<lparr>ks_retryTimers := Suc (ks_retryTimers ks)\<rparr> else ks)
      else fail code message ks)"

definition protectionLost :: "qstring \<Rightarrow> Message \<Rightarrow> KillSwitch \<Rightarrow> KillSwitch" where
  "protectionLost code message ks =
     (if ks_shutdown ks then ks
      else if \<not> kill_switch (ks_settings ks) then applyKs ks
      else if ks_pending ks \<noteq> None then
        settle (if \<not> ks_identityUnsupported ks then setState Arming ks else ks)
      else
        let recoverable = (code \<noteq> kPrivilege \<and> code \<noteq> kUnsupported \<and> code \<noteq> kConfig)
        in if recoverable \<and> (case ks_lastRespawn ks of None \<Rightarrow> True | Some t \<Rightarrow> ks_now ks - t > kRespawnIntervalMs)
           then let ks1 = ks\<lparr>ks_lastRespawn := Some (ks_now ks)\<rparr> in spawn (buildConfig ks1) ks1
           else fail code message ks)"

definition onReady :: "nat \<Rightarrow> KillSwitch \<Rightarrow> KillSwitch" where
  "onReady g ks =
     (case ks_guards ks g of
        None \<Rightarrow> ks
      | Some guard \<Rightarrow>
          if ks_pending ks \<noteq> Some g \<or> g_ready guard then ks
          else
            let ks1 = updGuard g (\<lambda>guard. guard\<lparr>g_ready := True, g_timer := False\<rparr>) ks;
                previous = ks_active ks1;
                ks2 = closeGuard previous (ks1\<lparr>ks_active := Some g, ks_pending := None\<rparr>)
            in if ks_identityUnsupported ks2 then failIdentity ks2 else settle (setState Armed ks2))"

definition section0 :: "qstring \<Rightarrow> qstring" where
  "section0 line = (case indexOf u_space line of None \<Rightarrow> line | Some k \<Rightarrow> take k line)"

definition section1 :: "qstring \<Rightarrow> qstring" where
  "section1 line = (case indexOf u_space line of None \<Rightarrow> [] | Some k \<Rightarrow> drop (Suc k) line)"

definition guardFailed :: "nat \<Rightarrow> qstring \<Rightarrow> Message \<Rightarrow> KillSwitch \<Rightarrow> KillSwitch" where
  "guardFailed g code message ks =
     (let wasActive = (ks_active ks = Some g);
          wasPending = (ks_pending ks = Some g);
          ks1 = (if wasActive then ks\<lparr>ks_active := None\<rparr> else ks);
          ks2 = (if wasPending then ks1\<lparr>ks_pending := None\<rparr> else ks1);
          ks3 = closeGuard (Some g) ks2
      in if wasActive then protectionLost code message ks3
         else if wasPending then armFailed code message ks3
         else ks3)"

definition handleLine :: "nat \<Rightarrow> qstring \<Rightarrow> KillSwitch \<Rightarrow> KillSwitch" where
  "handleLine g line ks =
     (let verb = section0 line; rest = section1 line
      in if verb = qs ''WARN'' then ks
         else if verb = qs ''READY'' then onReady g ks
         else if verb \<noteq> qs ''ERROR'' \<and> verb \<noteq> qs ''FAIL'' then ks
         else case ks_guards ks g of
                None \<Rightarrow> ks
              | Some guard \<Rightarrow>
                  if g_closing guard then ks
                  else guardFailed g (section0 rest) (GuardText (section1 rest)) ks)"

definition readOutput :: "nat \<Rightarrow> qstring list \<Rightarrow> KillSwitch \<Rightarrow> KillSwitch" where
  "readOutput g lines = fold (\<lambda>raw ks. let line = trimmed raw in if line \<noteq> [] then handleLine g line ks else ks) lines"

definition onReadyTimeout :: "nat \<Rightarrow> KillSwitch \<Rightarrow> KillSwitch" where
  "onReadyTimeout g ks =
     (case ks_guards ks g of
        None \<Rightarrow> ks
      | Some guard \<Rightarrow>
          if ks_pending ks \<noteq> Some g \<or> g_ready guard then ks
          else armFailed kTimeout (MsgNotResponding (kReadyTimeoutMs div 1000))
                 (stopHard g (closeGuard (Some g) (ks\<lparr>ks_pending := None\<rparr>))))"

definition endGuard :: "nat \<Rightarrow> KillSwitch \<Rightarrow> KillSwitch" where
  "endGuard g = updGuard g (\<lambda>guard. guard\<lparr>g_closing := True, g_running := False, g_timer := False\<rparr>)"

definition onStartFailed :: "nat \<Rightarrow> KillSwitch \<Rightarrow> KillSwitch" where
  "onStartFailed g ks =
     (case ks_guards ks g of
        None \<Rightarrow> ks
      | Some guard \<Rightarrow>
          let wasPending = (\<not> g_closing guard \<and> ks_pending ks = Some g);
              ks1 = endGuard g (if wasPending then ks\<lparr>ks_pending := None\<rparr> else ks)
          in if wasPending then armFailed kInternal MsgCouldNotStart ks1 else ks1)"

definition onFinished :: "nat \<Rightarrow> qstring list \<Rightarrow> int \<Rightarrow> bool \<Rightarrow> KillSwitch \<Rightarrow> KillSwitch" where
  "onFinished g lastLines exitCode crashed ks0 =
     (let ks = readOutput g lastLines ks0
      in case ks_guards ks g of
           None \<Rightarrow> ks
         | Some guard \<Rightarrow>
             let wasActive = (\<not> g_closing guard \<and> ks_active ks = Some g);
                 wasPending = (\<not> g_closing guard \<and> ks_pending ks = Some g);
                 ks1 = (if wasActive then ks\<lparr>ks_active := None\<rparr> else ks);
                 ks2 = (if wasPending then ks1\<lparr>ks_pending := None\<rparr> else ks1);
                 ks3 = endGuard g ks2
             in if wasActive then protectionLost kCrash (if crashed then MsgCrashed else MsgExited exitCode) ks3
                else if wasPending then armFailed kCrash (if crashed then MsgCrashedEarly else MsgExitedEarly exitCode) ks3
                else ks3)"

definition retryApply :: "KillSwitch \<Rightarrow> KillSwitch" where
  "retryApply ks =
     (if ks_shutdown ks \<or> ks_pending ks \<noteq> None \<or> ks_active ks = None then ks
      else if prepare_exit (ks_settings ks) then ks
      else applyKs ks)"

definition closeGrace :: "nat \<Rightarrow> KillSwitch \<Rightarrow> KillSwitch" where
  "closeGrace g ks =
     (case ks_guards ks g of
        None \<Rightarrow> ks
      | Some guard \<Rightarrow> if \<not> g_running guard then ks else stopHard g ks)"

definition shutdownGuard :: "bool \<Rightarrow> GuardProcess \<Rightarrow> GuardProcess" where
  "shutdownGuard exitsInTime guard =
     (let guard1 = guard\<lparr>g_closing := True, g_timer := False\<rparr>
      in if \<not> g_running guard1 then guard1
         else guard1\<lparr>g_inputOpen := False, g_running := \<not> exitsInTime, g_stopped := g_stopped guard1 \<or> \<not> exitsInTime\<rparr>)"

definition shutdown :: "(nat \<Rightarrow> bool) \<Rightarrow> KillSwitch \<Rightarrow> KillSwitch" where
  "shutdown exitsInTime ks =
     (if ks_shutdown ks then ks
      else ks\<lparr>ks_shutdown := True, ks_waiters := [], ks_active := None, ks_pending := None,
              ks_guards := (\<lambda>g. map_option (shutdownGuard (exitsInTime g)) (ks_guards ks g))\<rparr>)"

subsection \<open>The event loop\<close>

datatype KsEvent =
    EApply
  | EIdentity qstring
  | EOverride bool
  | EApiPort nat
  | EWhenSettled nat bool
  | EWhenIdle nat
  | ELine nat qstring
  | EReadyTimeout nat
  | EStartFailed nat
  | EFinished nat "qstring list" int bool
  | ERetry
  | EGrace nat
  | EShutdown "nat \<Rightarrow> bool"
  | ESettings KsSettings
  | ETime nat
  | EContextGone nat

text \<open>Guard events come from a running guard; a process that failed to start never printed anything, so
  it is not ready; timers fire only while they are armed.\<close>

inductive ks_step :: "KsEvent \<Rightarrow> KillSwitch \<Rightarrow> KillSwitch \<Rightarrow> bool" where
  step_apply: "ks_step EApply ks (applyKs ks)"
| step_identity: "ks_step (EIdentity detail) ks (noteIdentityUnsupported detail ks)"
| step_override: "ks_step (EOverride b) ks (setOverride b ks)"
| step_api: "ks_step (EApiPort p) ks (SetApiPort p ks)"
| step_settled: "ks_step (EWhenSettled c b) ks (whenSettled c b ks)"
| step_idle: "ks_step (EWhenIdle c) ks (whenIdle c ks)"
| step_line: "ks_guards ks g = Some gd \<Longrightarrow> g_running gd \<Longrightarrow> ks_step (ELine g raw) ks (readOutput g [raw] ks)"
| step_timeout: "ks_guards ks g = Some gd \<Longrightarrow> g_timer gd \<Longrightarrow> ks_step (EReadyTimeout g) ks (onReadyTimeout g ks)"
| step_startFailed: "ks_guards ks g = Some gd \<Longrightarrow> g_running gd \<Longrightarrow> \<not> g_ready gd
    \<Longrightarrow> ks_step (EStartFailed g) ks (onStartFailed g ks)"
| step_finished: "ks_guards ks g = Some gd \<Longrightarrow> g_running gd
    \<Longrightarrow> ks_step (EFinished g ls code crashed) ks (onFinished g ls code crashed ks)"
| step_retry: "0 < ks_retryTimers ks
    \<Longrightarrow> ks_step ERetry ks (retryApply (ks\<lparr>ks_retryTimers := ks_retryTimers ks - 1\<rparr>))"
| step_grace: "ks_guards ks g = Some gd \<Longrightarrow> g_graceTimer gd \<Longrightarrow> ks_step (EGrace g) ks (closeGrace g ks)"
| step_shutdown: "ks_step (EShutdown ex) ks (shutdown ex ks)"
| step_settings: "ks_step (ESettings st) ks (ks\<lparr>ks_settings := st\<rparr>)"
| step_time: "ks_step (ETime n) ks (ks\<lparr>ks_now := ks_now ks + n\<rparr>)"
| step_context: "ks_step (EContextGone c) ks
    (ks\<lparr>ks_waiters := map (\<lambda>w. if w_callback w = c then w\<lparr>w_alive := False\<rparr> else w) (ks_waiters ks)\<rparr>)"

text \<open>The member initialisers of the class.\<close>

definition ksCreate :: "KsSettings \<Rightarrow> KillSwitch" where
  "ksCreate settings = \<lparr>ks_state = Disabled, ks_identityUnsupported = False, ks_identityDetail = [], ks_overridden = False,
     ks_active = None, ks_pending = None, ks_failureCode = [], ks_failureMessage = NoMessage, ks_lastRespawn = None,
     ks_waiters = [], ks_shutdown = False, ks_guards = Map.empty, ks_next = 0, ks_settings = settings, ks_apiPort = 0,
     ks_now = 0, ks_retryTimers = 0, ks_calls = []\<rparr>"

definition ks_init :: "KillSwitch \<Rightarrow> bool" where
  "ks_init ks \<longleftrightarrow> (\<exists>settings. ks = ksCreate settings)"

definition ks_next_state :: "KillSwitch \<Rightarrow> KillSwitch \<Rightarrow> bool" where
  "ks_next_state ks ks' \<longleftrightarrow> (\<exists>e. ks_step e ks ks')"

subsection \<open>The invariant\<close>

text \<open>A guard in force, a guard being started, and a guard that was given up.\<close>

definition forceGuard :: "GuardProcess \<Rightarrow> bool" where
  "forceGuard gd \<longleftrightarrow> g_ready gd \<and> \<not> g_closing gd \<and> g_running gd \<and> g_inputOpen gd \<and> \<not> g_stopped gd \<and> \<not> g_graceTimer gd"

definition startGuard :: "GuardProcess \<Rightarrow> bool" where
  "startGuard gd \<longleftrightarrow> \<not> g_ready gd \<and> \<not> g_closing gd \<and> g_running gd \<and> g_inputOpen gd \<and> \<not> g_stopped gd \<and> g_timer gd
     \<and> \<not> g_graceTimer gd"

definition closedOk :: "GuardProcess \<Rightarrow> bool" where
  "closedOk gd \<longleftrightarrow> g_closing gd \<and> \<not> g_timer gd \<and> (g_running gd \<longrightarrow> \<not> g_inputOpen gd)"

text \<open>\<open>guardsOk X\<close>: every guard outside \<open>X\<close> has the role its pointer gives it.\<close>

definition guardsOk :: "nat set \<Rightarrow> KillSwitch \<Rightarrow> bool" where
  "guardsOk X ks \<longleftrightarrow>
     (\<forall>g. ks_active ks = Some g \<longrightarrow> g \<notin> X \<and> (\<exists>gd. ks_guards ks g = Some gd \<and> forceGuard gd))
     \<and> (\<forall>g. ks_pending ks = Some g \<longrightarrow> g \<notin> X \<and> (\<exists>gd. ks_guards ks g = Some gd \<and> startGuard gd))
     \<and> (\<forall>g gd. ks_guards ks g = Some gd \<longrightarrow> g \<notin> X \<longrightarrow> ks_active ks \<noteq> Some g \<longrightarrow> ks_pending ks \<noteq> Some g \<longrightarrow> closedOk gd)
     \<and> (\<forall>g. ks_guards ks g \<noteq> None \<longrightarrow> g < ks_next ks)
     \<and> (ks_shutdown ks \<longrightarrow> ks_active ks = None \<and> ks_pending ks = None)"

definition stateOkKs :: "KillSwitch \<Rightarrow> bool" where
  "stateOkKs ks \<longleftrightarrow>
     (ks_state ks = Armed \<longrightarrow> ks_active ks \<noteq> None)
     \<and> (ks_state ks = Arming \<longrightarrow> ks_active ks = None \<and> ks_pending ks \<noteq> None)
     \<and> (ks_state ks = Disabled \<longrightarrow> ks_active ks = None \<and> (ks_pending ks \<noteq> None \<longrightarrow> ks_identityUnsupported ks))
     \<and> (ks_state ks = Failed \<longrightarrow> ks_active ks \<noteq> None \<or> ks_pending ks \<noteq> None \<longrightarrow> ks_identityUnsupported ks)
     \<and> (ks_state ks \<noteq> Failed \<longrightarrow> ks_failureCode ks = [] \<and> ks_failureMessage ks = NoMessage)"

definition waitersOk :: "KillSwitch \<Rightarrow> bool" where
  "waitersOk ks \<longleftrightarrow> (\<forall>w \<in> set (ks_waiters ks). waiterStays ks w)"

definition ksWeak :: "KillSwitch \<Rightarrow> bool" where
  "ksWeak ks \<longleftrightarrow> guardsOk {} ks \<and> (\<not> ks_shutdown ks \<longrightarrow> stateOkKs ks \<and> waitersOk ks)"

definition ksInv :: "KillSwitch \<Rightarrow> bool" where
  "ksInv ks \<longleftrightarrow> ksWeak ks \<and> (\<not> ks_shutdown ks \<longrightarrow> ks_state ks = Armed \<longrightarrow> \<not> ks_identityUnsupported ks)"

end
