(* ===== verification/Kill_Switch_Safety.thy ===== *)
theory Kill_Switch_Safety
  imports Kill_Switch
begin

text \<open>
  The proofs about the kill switch of theory \<open>Kill_Switch\<close>: every handler keeps \<open>ksInv\<close>, which makes the event
  loop an instance of \<open>transition_system\<close>; and from it that profiles may start only with the switch off
  or with a ready guard whose input is open, that no guard leaks, that no waiter is forgotten, that a
  guard in force is only given up for a stated reason, that arming always ends, and that \<open>apply\<close>
  converges in one call.
\<close>

subsection \<open>What the helpers change\<close>

lemma updGuard_fields [simp]:
  "ks_state (updGuard g f ks) = ks_state ks"
  "ks_identityUnsupported (updGuard g f ks) = ks_identityUnsupported ks"
  "ks_identityDetail (updGuard g f ks) = ks_identityDetail ks"
  "ks_overridden (updGuard g f ks) = ks_overridden ks"
  "ks_active (updGuard g f ks) = ks_active ks"
  "ks_pending (updGuard g f ks) = ks_pending ks"
  "ks_failureCode (updGuard g f ks) = ks_failureCode ks"
  "ks_failureMessage (updGuard g f ks) = ks_failureMessage ks"
  "ks_lastRespawn (updGuard g f ks) = ks_lastRespawn ks"
  "ks_waiters (updGuard g f ks) = ks_waiters ks"
  "ks_shutdown (updGuard g f ks) = ks_shutdown ks"
  "ks_next (updGuard g f ks) = ks_next ks"
  "ks_settings (updGuard g f ks) = ks_settings ks"
  "ks_apiPort (updGuard g f ks) = ks_apiPort ks"
  "ks_now (updGuard g f ks) = ks_now ks"
  "ks_retryTimers (updGuard g f ks) = ks_retryTimers ks"
  "ks_calls (updGuard g f ks) = ks_calls ks"
  by (simp_all add: updGuard_def split: option.splits)

lemma updGuard_guards [simp]:
  "ks_guards (updGuard g f ks) h = (if h = g then map_option f (ks_guards ks g) else ks_guards ks h)"
  by (simp add: updGuard_def split: option.splits)

lemma closeGuard_fields [simp]:
  "ks_state (closeGuard p ks) = ks_state ks"
  "ks_identityUnsupported (closeGuard p ks) = ks_identityUnsupported ks"
  "ks_identityDetail (closeGuard p ks) = ks_identityDetail ks"
  "ks_overridden (closeGuard p ks) = ks_overridden ks"
  "ks_active (closeGuard p ks) = ks_active ks"
  "ks_pending (closeGuard p ks) = ks_pending ks"
  "ks_failureCode (closeGuard p ks) = ks_failureCode ks"
  "ks_failureMessage (closeGuard p ks) = ks_failureMessage ks"
  "ks_lastRespawn (closeGuard p ks) = ks_lastRespawn ks"
  "ks_waiters (closeGuard p ks) = ks_waiters ks"
  "ks_shutdown (closeGuard p ks) = ks_shutdown ks"
  "ks_next (closeGuard p ks) = ks_next ks"
  "ks_settings (closeGuard p ks) = ks_settings ks"
  "ks_apiPort (closeGuard p ks) = ks_apiPort ks"
  "ks_now (closeGuard p ks) = ks_now ks"
  "ks_retryTimers (closeGuard p ks) = ks_retryTimers ks"
  "ks_calls (closeGuard p ks) = ks_calls ks"
  by (simp_all add: closeGuard_def split: option.splits)

lemma closeGuard_guards [simp]:
  "ks_guards (closeGuard p ks) h = (if p = Some h then map_option closedGuard (ks_guards ks h) else ks_guards ks h)"
  by (auto simp: closeGuard_def split: option.splits)

lemma dropPending_fields [simp]:
  "ks_state (dropPending ks) = ks_state ks"
  "ks_identityUnsupported (dropPending ks) = ks_identityUnsupported ks"
  "ks_identityDetail (dropPending ks) = ks_identityDetail ks"
  "ks_overridden (dropPending ks) = ks_overridden ks"
  "ks_active (dropPending ks) = ks_active ks"
  "ks_failureCode (dropPending ks) = ks_failureCode ks"
  "ks_failureMessage (dropPending ks) = ks_failureMessage ks"
  "ks_lastRespawn (dropPending ks) = ks_lastRespawn ks"
  "ks_waiters (dropPending ks) = ks_waiters ks"
  "ks_shutdown (dropPending ks) = ks_shutdown ks"
  "ks_next (dropPending ks) = ks_next ks"
  "ks_settings (dropPending ks) = ks_settings ks"
  "ks_apiPort (dropPending ks) = ks_apiPort ks"
  "ks_now (dropPending ks) = ks_now ks"
  "ks_retryTimers (dropPending ks) = ks_retryTimers ks"
  "ks_calls (dropPending ks) = ks_calls ks"
  "ks_pending (dropPending ks) = None"
  by (simp_all add: dropPending_def)

lemma dropActive_fields [simp]:
  "ks_state (dropActive ks) = ks_state ks"
  "ks_identityUnsupported (dropActive ks) = ks_identityUnsupported ks"
  "ks_identityDetail (dropActive ks) = ks_identityDetail ks"
  "ks_overridden (dropActive ks) = ks_overridden ks"
  "ks_pending (dropActive ks) = ks_pending ks"
  "ks_failureCode (dropActive ks) = ks_failureCode ks"
  "ks_failureMessage (dropActive ks) = ks_failureMessage ks"
  "ks_lastRespawn (dropActive ks) = ks_lastRespawn ks"
  "ks_waiters (dropActive ks) = ks_waiters ks"
  "ks_shutdown (dropActive ks) = ks_shutdown ks"
  "ks_next (dropActive ks) = ks_next ks"
  "ks_settings (dropActive ks) = ks_settings ks"
  "ks_apiPort (dropActive ks) = ks_apiPort ks"
  "ks_now (dropActive ks) = ks_now ks"
  "ks_retryTimers (dropActive ks) = ks_retryTimers ks"
  "ks_calls (dropActive ks) = ks_calls ks"
  "ks_active (dropActive ks) = None"
  by (simp_all add: dropActive_def)

lemma setState_fields [simp]:
  "ks_identityUnsupported (setState st ks) = ks_identityUnsupported ks"
  "ks_identityDetail (setState st ks) = ks_identityDetail ks"
  "ks_overridden (setState st ks) = ks_overridden ks"
  "ks_active (setState st ks) = ks_active ks"
  "ks_pending (setState st ks) = ks_pending ks"
  "ks_lastRespawn (setState st ks) = ks_lastRespawn ks"
  "ks_waiters (setState st ks) = ks_waiters ks"
  "ks_shutdown (setState st ks) = ks_shutdown ks"
  "ks_guards (setState st ks) = ks_guards ks"
  "ks_next (setState st ks) = ks_next ks"
  "ks_settings (setState st ks) = ks_settings ks"
  "ks_apiPort (setState st ks) = ks_apiPort ks"
  "ks_now (setState st ks) = ks_now ks"
  "ks_retryTimers (setState st ks) = ks_retryTimers ks"
  "ks_calls (setState st ks) = ks_calls ks"
  "ks_state (setState st ks) = st"
  "ks_failureCode (setState st ks) = (if st = Failed then ks_failureCode ks else [])"
  "ks_failureMessage (setState st ks) = (if st = Failed then ks_failureMessage ks else NoMessage)"
  by (simp_all add: setState_def Let_def)

lemma settle_fields [simp]:
  "ks_state (settle ks) = ks_state ks"
  "ks_identityUnsupported (settle ks) = ks_identityUnsupported ks"
  "ks_identityDetail (settle ks) = ks_identityDetail ks"
  "ks_overridden (settle ks) = ks_overridden ks"
  "ks_active (settle ks) = ks_active ks"
  "ks_pending (settle ks) = ks_pending ks"
  "ks_failureCode (settle ks) = ks_failureCode ks"
  "ks_failureMessage (settle ks) = ks_failureMessage ks"
  "ks_lastRespawn (settle ks) = ks_lastRespawn ks"
  "ks_shutdown (settle ks) = ks_shutdown ks"
  "ks_guards (settle ks) = ks_guards ks"
  "ks_next (settle ks) = ks_next ks"
  "ks_settings (settle ks) = ks_settings ks"
  "ks_apiPort (settle ks) = ks_apiPort ks"
  "ks_now (settle ks) = ks_now ks"
  "ks_retryTimers (settle ks) = ks_retryTimers ks"
  by (simp_all add: settle_def)

lemma failIdentity_fields [simp]:
  "ks_identityUnsupported (failIdentity ks) = ks_identityUnsupported ks"
  "ks_identityDetail (failIdentity ks) = ks_identityDetail ks"
  "ks_overridden (failIdentity ks) = ks_overridden ks"
  "ks_active (failIdentity ks) = ks_active ks"
  "ks_pending (failIdentity ks) = ks_pending ks"
  "ks_lastRespawn (failIdentity ks) = ks_lastRespawn ks"
  "ks_shutdown (failIdentity ks) = ks_shutdown ks"
  "ks_guards (failIdentity ks) = ks_guards ks"
  "ks_next (failIdentity ks) = ks_next ks"
  "ks_settings (failIdentity ks) = ks_settings ks"
  "ks_apiPort (failIdentity ks) = ks_apiPort ks"
  "ks_now (failIdentity ks) = ks_now ks"
  "ks_retryTimers (failIdentity ks) = ks_retryTimers ks"
  "ks_state (failIdentity ks) = Failed"
  by (simp_all add: failIdentity_def Let_def)

lemma fail_fields [simp]:
  "ks_identityUnsupported (fail c m ks) = ks_identityUnsupported ks"
  "ks_identityDetail (fail c m ks) = ks_identityDetail ks"
  "ks_overridden (fail c m ks) = ks_overridden ks"
  "ks_active (fail c m ks) = ks_active ks"
  "ks_pending (fail c m ks) = ks_pending ks"
  "ks_lastRespawn (fail c m ks) = ks_lastRespawn ks"
  "ks_shutdown (fail c m ks) = ks_shutdown ks"
  "ks_guards (fail c m ks) = ks_guards ks"
  "ks_next (fail c m ks) = ks_next ks"
  "ks_settings (fail c m ks) = ks_settings ks"
  "ks_apiPort (fail c m ks) = ks_apiPort ks"
  "ks_now (fail c m ks) = ks_now ks"
  "ks_retryTimers (fail c m ks) = ks_retryTimers ks"
  "ks_state (fail c m ks) = Failed"
  by (simp_all add: fail_def)

lemma waiterStays_cong:
  "ks_pending a = ks_pending b \<Longrightarrow> ks_state a = ks_state b \<Longrightarrow> waiterStays a = waiterStays b"
  by (simp add: waiterStays_def fun_eq_iff)

lemma settle_waiters: "waitersOk (settle ks)"
  using waiterStays_cong [of "settle ks" ks] by (auto simp: waitersOk_def settle_def)

lemma fail_waiters: "waitersOk (fail c m ks)" and failIdentity_waiters: "waitersOk (failIdentity ks)"
  by (simp_all add: fail_def failIdentity_def Let_def settle_waiters)

lemma guardsOk_cong:
  "ks_active a = ks_active b \<Longrightarrow> ks_pending a = ks_pending b \<Longrightarrow> ks_guards a = ks_guards b
     \<Longrightarrow> ks_next a = ks_next b \<Longrightarrow> ks_shutdown a = ks_shutdown b \<Longrightarrow> guardsOk X a = guardsOk X b"
  by (simp add: guardsOk_def)

lemma guardsOk_settle [simp]: "guardsOk X (settle ks) = guardsOk X ks" by (rule guardsOk_cong) simp_all
lemma guardsOk_setState [simp]: "guardsOk X (setState st ks) = guardsOk X ks" by (rule guardsOk_cong) simp_all
lemma guardsOk_fail [simp]: "guardsOk X (fail c m ks) = guardsOk X ks" by (rule guardsOk_cong) simp_all
lemma guardsOk_failIdentity [simp]: "guardsOk X (failIdentity ks) = guardsOk X ks" by (rule guardsOk_cong) simp_all

lemma closedGuard_ok: "forceGuard gd \<or> startGuard gd \<Longrightarrow> closedOk (closedGuard gd)"
  by (auto simp: closedGuard_def Let_def closedOk_def forceGuard_def startGuard_def)

lemma roles_disjoint: "forceGuard gd \<Longrightarrow> startGuard gd \<Longrightarrow> False" "closedOk gd \<Longrightarrow> \<not> forceGuard gd \<and> \<not> startGuard gd"
  by (simp_all add: forceGuard_def startGuard_def closedOk_def)

lemma closedGuard_idem: "closedOk gd \<Longrightarrow> closedGuard gd = gd"
  by (simp add: closedGuard_def closedOk_def)

lemma active_not_pending: "guardsOk {} ks \<Longrightarrow> ks_active ks = Some g \<Longrightarrow> ks_pending ks = Some g \<Longrightarrow> False"
  using roles_disjoint(1) by (fastforce simp: guardsOk_def)

lemma guardsOk_dropPending: "guardsOk {} ks \<Longrightarrow> guardsOk {} (dropPending ks)"
  using active_not_pending [of ks] by (auto simp: guardsOk_def dropPending_def intro: closedGuard_ok)

lemma guardsOk_dropActive: "guardsOk {} ks \<Longrightarrow> guardsOk {} (dropActive ks)"
  using active_not_pending [of ks] by (auto simp: guardsOk_def dropActive_def intro: closedGuard_ok)

lemma guardsOk_spawn:
  assumes "guardsOk {} ks" "\<not> ks_shutdown ks"
  shows "guardsOk {} (spawn config ks)"
proof -
  have ok: "guardsOk {} (dropPending ks)" using assms(1) by (rule guardsOk_dropPending)
  then have "ks_guards (dropPending ks) (ks_next ks) = None" by (auto simp: guardsOk_def)
  moreover have "startGuard (newGuard config b)" for b by (simp add: startGuard_def newGuard_def)
  ultimately show ?thesis using ok assms(2)
    by (auto simp: spawn_def Let_def guardsOk_def less_Suc_eq split: if_splits)
qed

subsection \<open>Every handler keeps the invariant\<close>

lemma spawn_fields [simp]:
  "ks_shutdown (spawn c ks) = ks_shutdown ks" "ks_active (spawn c ks) = ks_active ks"
  "ks_pending (spawn c ks) = Some (ks_next ks)" "ks_waiters (spawn c ks) = ks_waiters ks"
  "ks_identityUnsupported (spawn c ks) = ks_identityUnsupported ks"
  "ks_state (spawn c ks) = (if ks_active ks = None \<and> \<not> ks_identityUnsupported ks then Arming else ks_state ks)"
  "ks_failureCode (spawn c ks) = (if ks_active ks = None \<and> \<not> ks_identityUnsupported ks then [] else ks_failureCode ks)"
  "ks_failureMessage (spawn c ks)
     = (if ks_active ks = None \<and> \<not> ks_identityUnsupported ks then NoMessage else ks_failureMessage ks)"
  by (simp_all add: spawn_def Let_def)

lemma spawn_inv:
  assumes "guardsOk {} ks" "\<not> ks_shutdown ks" "waitersOk ks"
    and "ks_state ks = Armed \<Longrightarrow> \<not> ks_identityUnsupported ks"
    and "ks_state ks \<noteq> Failed \<Longrightarrow> ks_failureCode ks = [] \<and> ks_failureMessage ks = NoMessage"
    and "ks_active ks \<noteq> None \<Longrightarrow> stateOkKs ks"
  shows "ksInv (spawn config ks)"
proof -
  have "waitersOk (spawn config ks)" using assms(3) by (auto simp: waitersOk_def waiterStays_def)
  moreover have "stateOkKs (spawn config ks)"
    using assms(4-6) by (cases "ks_active ks"; cases "ks_state ks") (auto simp: stateOkKs_def)
  ultimately show ?thesis using assms guardsOk_spawn [OF assms(1,2), of config]
    by (auto simp: ksInv_def ksWeak_def)
qed

lemma applyOff_inv: "guardsOk {} ks \<Longrightarrow> ksInv (applyOff ks)"
proof -
  assume "guardsOk {} ks"
  then have "guardsOk {} (ks\<lparr>ks_identityUnsupported := False, ks_identityDetail := []\<rparr>)" by (simp add: guardsOk_def)
  then show ?thesis
    by (simp add: applyOff_def Let_def ksInv_def ksWeak_def settle_waiters guardsOk_dropActive guardsOk_dropPending
        stateOkKs_def)
qed

lemma applyOverridden_inv: "guardsOk {} ks \<Longrightarrow> ksInv (applyOverridden ks)"
  by (simp add: applyOverridden_def Let_def ksInv_def ksWeak_def settle_waiters fail_waiters guardsOk_dropActive
      guardsOk_dropPending stateOkKs_def)

lemma failIdentity_inv:
  assumes "guardsOk {} ks" "ks_identityUnsupported ks"
  shows "ksInv (failIdentity ks)"
  using assms by (simp add: ksInv_def ksWeak_def failIdentity_waiters stateOkKs_def)

lemma applyKs_inv:
  assumes "ksWeak ks"
  shows "ksInv (applyKs ks)"
proof (cases "ks_shutdown ks \<or> \<not> kill_switch (ks_settings ks) \<or> ks_overridden ks")
  case True
  then show ?thesis using assms applyOff_inv applyOverridden_inv
    by (auto simp: applyKs_def ksInv_def ksWeak_def)
next
  case False
  define ks1 where "ks1 = (if ks_identityUnsupported ks \<and> ks_state ks = Armed then failIdentity ks else ks)"
  have inv1: "ksInv ks1" using assms failIdentity_inv [of ks] by (auto simp: ks1_def ksInv_def ksWeak_def)
  have sd: "\<not> ks_shutdown ks1" using False by (simp add: ks1_def)
  have eq: "applyKs ks = (if guardConfig ks1 (ks_pending ks1) = Some (buildConfig ks1) then ks1
      else if guardConfig ks1 (ks_active ks1) = Some (buildConfig ks1)
      then (if ks_pending ks1 \<noteq> None then settle (dropPending ks1) else ks1)
      else spawn (buildConfig ks1) ks1)"
    using False by (simp add: applyKs_def ks1_def Let_def)
  have "ksInv (spawn (buildConfig ks1) ks1)"
    using inv1 sd by (intro spawn_inv) (auto simp: ksInv_def ksWeak_def stateOkKs_def)
  moreover have "ksInv (settle (dropPending ks1))" if "ks_active ks1 \<noteq> None"
  proof -
    have "stateOkKs (settle (dropPending ks1))" using inv1 sd that by (auto simp: ksInv_def ksWeak_def stateOkKs_def)
    then show ?thesis using inv1 sd by (auto simp: ksInv_def ksWeak_def settle_waiters guardsOk_dropPending)
  qed
  moreover have "ks_active ks1 \<noteq> None" if "guardConfig ks1 (ks_active ks1) = Some (buildConfig ks1)"
    using that by (auto simp: guardConfig_def split: option.splits)
  ultimately show ?thesis using inv1 unfolding eq by auto
qed

lemma armFailed_inv:
  assumes "guardsOk {} ks" "ks_shutdown ks \<or> ks_active ks = None \<or> stateOkKs ks"
    and "\<not> ks_shutdown ks \<Longrightarrow> ks_active ks \<noteq> None \<Longrightarrow> ks_state ks = Armed \<Longrightarrow> \<not> ks_identityUnsupported ks"
    and "ks_pending ks = None"
  shows "ksInv (armFailed code message ks)"
proof -
  have "guardsOk {} (ks\<lparr>ks_retryTimers := n\<rparr>)" for n using assms(1) by (simp add: guardsOk_def)
  then show ?thesis using assms
    by (auto simp: armFailed_def ksInv_def ksWeak_def settle_waiters fail_waiters stateOkKs_def)
qed

lemma protectionLost_inv:
  assumes "guardsOk {} ks" "ks_active ks = None" "\<not> ks_shutdown ks \<Longrightarrow> waitersOk ks"
    and "\<not> ks_shutdown ks \<Longrightarrow> ks_state ks = Armed \<Longrightarrow> \<not> ks_identityUnsupported ks"
    and "\<not> ks_shutdown ks \<Longrightarrow> ks_state ks = Armed \<or> ks_state ks = Failed \<and> (ks_pending ks \<noteq> None \<longrightarrow> ks_identityUnsupported ks)"
    and "\<not> ks_shutdown ks \<Longrightarrow> ks_state ks \<noteq> Failed \<Longrightarrow> ks_failureCode ks = [] \<and> ks_failureMessage ks = NoMessage"
  shows "ksInv (protectionLost code message ks)"
proof -
  consider "ks_shutdown ks" | "\<not> ks_shutdown ks" "\<not> kill_switch (ks_settings ks)"
    | "\<not> ks_shutdown ks" "kill_switch (ks_settings ks)" "ks_pending ks \<noteq> None"
    | "\<not> ks_shutdown ks" "kill_switch (ks_settings ks)" "ks_pending ks = None" by blast
  then show ?thesis
  proof cases
    case 1
    then show ?thesis using assms(1) by (simp add: protectionLost_def ksInv_def ksWeak_def)
  next
    case 2
    then show ?thesis using applyOff_inv [OF assms(1)] by (simp add: protectionLost_def applyKs_def)
  next
    case 3
    then show ?thesis using assms
      by (auto simp: protectionLost_def ksInv_def ksWeak_def settle_waiters stateOkKs_def)
  next
    case 4
    have g: "guardsOk {} (ks\<lparr>ks_lastRespawn := t\<rparr>)" for t using assms(1) by (simp add: guardsOk_def)
    have w: "waitersOk (ks\<lparr>ks_lastRespawn := t\<rparr>)" for t
      using assms(3) 4(1) by (simp add: waitersOk_def waiterStays_def)
    have "ksInv (spawn config (ks\<lparr>ks_lastRespawn := t\<rparr>))" for config t
      using 4 assms g w by (intro spawn_inv) simp_all
    moreover have "ksInv (fail code message ks)"
      using assms(1,2) 4(3) by (simp add: ksInv_def ksWeak_def fail_waiters stateOkKs_def)
    ultimately show ?thesis using 4 by (simp add: protectionLost_def Let_def)
  qed
qed

lemma lost_inv:
  assumes "ksInv ks" "guardsOk {} ks'" "ks_active ks \<noteq> None" "ks_active ks' = None" "ks_pending ks' = ks_pending ks"
    and "ks_state ks' = ks_state ks" "ks_waiters ks' = ks_waiters ks" "ks_shutdown ks' = ks_shutdown ks"
    and "ks_identityUnsupported ks' = ks_identityUnsupported ks"
    and "ks_failureCode ks' = ks_failureCode ks" "ks_failureMessage ks' = ks_failureMessage ks"
  shows "ksInv (protectionLost code message ks')"
proof -
  have sd: "\<not> ks_shutdown ks" using assms(1,3) by (auto simp: ksInv_def ksWeak_def guardsOk_def)
  have st: "stateOkKs ks" "waitersOk ks" "ks_state ks = Armed \<Longrightarrow> \<not> ks_identityUnsupported ks"
    using assms(1) sd by (auto simp: ksInv_def ksWeak_def)
  show ?thesis
  proof (rule protectionLost_inv)
    show "waitersOk ks'" using st(2) assms(5-7) by (simp add: waitersOk_def waiterStays_def)
    show "ks_state ks' = Armed \<or> ks_state ks' = Failed \<and> (ks_pending ks' \<noteq> None \<longrightarrow> ks_identityUnsupported ks')"
      using st(1) assms(3,5,6,9) by (cases "ks_state ks") (auto simp: stateOkKs_def)
    show "ks_failureCode ks' = [] \<and> ks_failureMessage ks' = NoMessage" if "ks_state ks' \<noteq> Failed"
      using that st(1) assms(6,10,11) by (simp add: stateOkKs_def)
  qed (use assms st in simp_all)
qed

lemma armFailed_pending_inv:
  assumes "ksInv ks" "guardsOk {} ks'" "ks_pending ks' = None" "ks_active ks' = ks_active ks"
    and "ks_state ks' = ks_state ks" "ks_shutdown ks' = ks_shutdown ks"
    and "ks_identityUnsupported ks' = ks_identityUnsupported ks"
    and "ks_failureCode ks' = ks_failureCode ks" "ks_failureMessage ks' = ks_failureMessage ks"
  shows "ksInv (armFailed code message ks')"
  using assms by (intro armFailed_inv) (auto simp: ksInv_def ksWeak_def stateOkKs_def)

lemma guardFailed_inv:
  assumes "ksInv ks" "ks_guards ks g = Some gd" "\<not> g_closing gd"
  shows "ksInv (guardFailed g code message ks)"
proof -
  have ok: "guardsOk {} ks" using assms(1) by (simp add: ksInv_def ksWeak_def)
  then have role: "ks_active ks = Some g \<or> ks_pending ks = Some g"
    using assms(2,3) by (auto simp: guardsOk_def closedOk_def)
  show ?thesis
  proof (cases "ks_active ks = Some g")
    case True
    then have "ks_pending ks \<noteq> Some g" using active_not_pending [OF ok] by blast
    then have "guardFailed g code message ks = protectionLost code message (dropActive ks)"
      using True by (simp add: guardFailed_def dropActive_def)
    then show ?thesis using lost_inv [OF assms(1) guardsOk_dropActive [OF ok]] True by simp
  next
    case False
    with role have "guardFailed g code message ks = armFailed code message (dropPending ks)"
      by (simp add: guardFailed_def dropPending_def)
    then show ?thesis using armFailed_pending_inv [OF assms(1) guardsOk_dropPending [OF ok]] by simp
  qed
qed

lemma onReady_guards:
  assumes "guardsOk {} ks" "ks_pending ks = Some g" "ks_guards ks g = Some gd"
  shows "guardsOk {} (closeGuard (ks_active ks)
    ((updGuard g (\<lambda>guard. guard\<lparr>g_ready := True, g_timer := False\<rparr>) ks)\<lparr>ks_active := Some g, ks_pending := None\<rparr>))"
proof -
  have "forceGuard (gd\<lparr>g_ready := True, g_timer := False\<rparr>)"
    using assms by (auto simp: guardsOk_def startGuard_def forceGuard_def)
  then show ?thesis using assms active_not_pending [OF assms(1)]
    by (auto simp: guardsOk_def intro: closedGuard_ok)
qed

lemma onReady_inv:
  assumes "ksInv ks"
  shows "ksInv (onReady g ks)"
proof (cases "\<exists>gd. ks_guards ks g = Some gd \<and> ks_pending ks = Some g \<and> \<not> g_ready gd")
  case False
  then show ?thesis using assms by (auto simp: onReady_def split: option.splits)
next
  case True
  then obtain gd where gd: "ks_guards ks g = Some gd" "ks_pending ks = Some g" "\<not> g_ready gd" by blast
  define ks2 where "ks2 = closeGuard (ks_active ks)
    ((updGuard g (\<lambda>guard. guard\<lparr>g_ready := True, g_timer := False\<rparr>) ks)\<lparr>ks_active := Some g, ks_pending := None\<rparr>)"
  have ok: "guardsOk {} ks2" unfolding ks2_def using assms gd by (intro onReady_guards) (auto simp: ksInv_def ksWeak_def)
  have eq: "onReady g ks = (if ks_identityUnsupported ks2 then failIdentity ks2 else settle (setState Armed ks2))"
    using gd by (simp add: onReady_def ks2_def Let_def)
  have act: "ks_active ks2 = Some g" by (simp add: ks2_def)
  show ?thesis
  proof (cases "ks_identityUnsupported ks2")
    case True
    then show ?thesis using eq failIdentity_inv [OF ok] by simp
  next
    case False
    then show ?thesis using eq ok act by (simp add: ksInv_def ksWeak_def settle_waiters stateOkKs_def)
  qed
qed

lemma handleLine_inv: "ksInv ks \<Longrightarrow> ksInv (handleLine g line ks)"
  by (auto simp: handleLine_def Let_def onReady_inv guardFailed_inv split: option.splits)

lemma readOutput_inv: "ksInv ks \<Longrightarrow> ksInv (readOutput g ls ks)"
  unfolding readOutput_def by (induction ls arbitrary: ks) (simp_all add: Let_def handleLine_inv)

lemma onReadyTimeout_inv:
  assumes "ksInv ks"
  shows "ksInv (onReadyTimeout g ks)"
proof (cases "\<exists>gd. ks_guards ks g = Some gd \<and> ks_pending ks = Some g \<and> \<not> g_ready gd")
  case False
  then show ?thesis using assms by (auto simp: onReadyTimeout_def split: option.splits)
next
  case True
  then obtain gd where gd: "ks_guards ks g = Some gd" "ks_pending ks = Some g" "\<not> g_ready gd" by blast
  define ks2 where "ks2 = stopHard g (dropPending ks)"
  have ok0: "guardsOk {} ks" using assms by (simp add: ksInv_def ksWeak_def)
  have "closedOk (gd\<lparr>g_stopped := True\<rparr>) = closedOk gd" for gd by (simp add: closedOk_def)
  then have ok: "guardsOk {} ks2"
    using guardsOk_dropPending [OF ok0] active_not_pending [OF ok0 _ gd(2)] unfolding ks2_def stopHard_def guardsOk_def
    by auto
  have "onReadyTimeout g ks = armFailed kTimeout (MsgNotResponding (kReadyTimeoutMs div 1000)) ks2"
    using gd by (simp add: onReadyTimeout_def ks2_def dropPending_def)
  then show ?thesis using armFailed_pending_inv [OF assms ok] by (simp add: ks2_def stopHard_def)
qed

lemma endGuard_guards:
  assumes "guardsOk {} ks" "ks_active ks \<noteq> Some g"
  shows "guardsOk {} (endGuard g (if ks_pending ks = Some g then ks\<lparr>ks_pending := None\<rparr> else ks))"
  using assms by (auto simp: guardsOk_def endGuard_def closedOk_def)

lemma endGuard_guards_active:
  assumes "guardsOk {} ks" "ks_active ks = Some g"
  shows "guardsOk {} (endGuard g (ks\<lparr>ks_active := None\<rparr>))"
  using assms active_not_pending [OF assms] by (auto simp: guardsOk_def endGuard_def closedOk_def)

lemma endGuard_fields [simp]:
  "ks_state (endGuard g ks) = ks_state ks" "ks_active (endGuard g ks) = ks_active ks"
  "ks_pending (endGuard g ks) = ks_pending ks" "ks_waiters (endGuard g ks) = ks_waiters ks"
  "ks_shutdown (endGuard g ks) = ks_shutdown ks" "ks_identityUnsupported (endGuard g ks) = ks_identityUnsupported ks"
  "ks_failureCode (endGuard g ks) = ks_failureCode ks" "ks_failureMessage (endGuard g ks) = ks_failureMessage ks"
  by (simp_all add: endGuard_def)

text \<open>The clauses about the state only read these fields.\<close>

lemma ksInv_transfer:
  assumes "ksInv ks" "guardsOk {} ks'" "ks_state ks' = ks_state ks" "ks_active ks' = ks_active ks"
    and "ks_pending ks' = ks_pending ks" "ks_waiters ks' = ks_waiters ks" "ks_shutdown ks' = ks_shutdown ks"
    and "ks_identityUnsupported ks' = ks_identityUnsupported ks"
    and "ks_failureCode ks' = ks_failureCode ks" "ks_failureMessage ks' = ks_failureMessage ks"
  shows "ksInv ks'"
  using assms by (simp add: ksInv_def ksWeak_def stateOkKs_def waitersOk_def waiterStays_def)

lemma ended_inv:
  assumes "ksInv ks" "ks_active ks \<noteq> Some g" "ks_pending ks \<noteq> Some g"
  shows "ksInv (endGuard g ks)"
  using assms endGuard_guards [of ks g] by (intro ksInv_transfer [OF assms(1)]) (auto simp: ksInv_def ksWeak_def)

lemma role_of_open:
  assumes "ksInv ks" "ks_guards ks g = Some gd"
  shows "g_closing gd \<longleftrightarrow> ks_active ks \<noteq> Some g \<and> ks_pending ks \<noteq> Some g"
  using assms by (fastforce simp: ksInv_def ksWeak_def guardsOk_def closedOk_def forceGuard_def startGuard_def)

lemma onStartFailed_inv:
  assumes "ksInv ks" "ks_guards ks g = Some gd" "\<not> g_ready gd"
  shows "ksInv (onStartFailed g ks)"
proof -
  have ok: "guardsOk {} ks" using assms(1) by (simp add: ksInv_def ksWeak_def)
  then have na: "ks_active ks \<noteq> Some g" using assms(2,3) by (auto simp: guardsOk_def forceGuard_def)
  show ?thesis
  proof (cases "ks_pending ks = Some g")
    case True
    then have "onStartFailed g ks = armFailed kInternal MsgCouldNotStart (endGuard g (ks\<lparr>ks_pending := None\<rparr>))"
      using role_of_open [OF assms(1,2)] assms(2) by (simp add: onStartFailed_def)
    then show ?thesis using armFailed_pending_inv [OF assms(1) endGuard_guards [OF ok na]] True by simp
  next
    case False
    then show ?thesis using ended_inv [OF assms(1) na False] assms(2) by (simp add: onStartFailed_def)
  qed
qed

lemma onFinished_inv:
  assumes "ksInv ks0"
  shows "ksInv (onFinished g ls code crashed ks0)"
proof -
  define ks where "ks = readOutput g ls ks0"
  have inv: "ksInv ks" unfolding ks_def using assms by (rule readOutput_inv)
  then have ok: "guardsOk {} ks" by (simp add: ksInv_def ksWeak_def)
  show ?thesis
  proof (cases "ks_guards ks g")
    case None
    then show ?thesis using inv by (simp add: onFinished_def ks_def [symmetric])
  next
    case (Some gd)
    note role = role_of_open [OF inv Some]
    consider "ks_active ks = Some g" | "ks_active ks \<noteq> Some g" "ks_pending ks = Some g"
      | "ks_active ks \<noteq> Some g" "ks_pending ks \<noteq> Some g" by blast
    then show ?thesis
    proof cases
      case 1
      then have "ks_pending ks \<noteq> Some g" using active_not_pending [OF ok] by blast
      with 1 have "onFinished g ls code crashed ks0
          = protectionLost kCrash (if crashed then MsgCrashed else MsgExited code) (endGuard g (ks\<lparr>ks_active := None\<rparr>))"
        using Some role by (simp add: onFinished_def ks_def [symmetric])
      then show ?thesis using lost_inv [OF inv endGuard_guards_active [OF ok 1]] 1 by simp
    next
      case 2
      then have "onFinished g ls code crashed ks0 = armFailed kCrash
          (if crashed then MsgCrashedEarly else MsgExitedEarly code) (endGuard g (ks\<lparr>ks_pending := None\<rparr>))"
        using Some role by (simp add: onFinished_def ks_def [symmetric])
      then show ?thesis using armFailed_pending_inv [OF inv endGuard_guards [OF ok 2(1)]] 2 by simp
    next
      case 3
      then show ?thesis using ended_inv [OF inv 3] Some by (simp add: onFinished_def ks_def [symmetric])
    qed
  qed
qed

lemma weak_identity: "ksInv ks \<Longrightarrow> ksWeak (ks\<lparr>ks_identityDetail := d, ks_identityUnsupported := True\<rparr>)"
  by (auto simp: ksInv_def ksWeak_def guardsOk_def stateOkKs_def waitersOk_def waiterStays_def)

lemma ksInv_env:
  "ksInv ks \<Longrightarrow> ksInv (ks\<lparr>ks_overridden := b\<rparr>)" "ksInv ks \<Longrightarrow> ksInv (ks\<lparr>ks_settings := s\<rparr>)"
  "ksInv ks \<Longrightarrow> ksInv (ks\<lparr>ks_now := n\<rparr>)" "ksInv ks \<Longrightarrow> ksInv (ks\<lparr>ks_retryTimers := r\<rparr>)"
  "ksInv ks \<Longrightarrow> ksInv (ks\<lparr>ks_apiPort := p\<rparr>)" "ksInv ks \<Longrightarrow> ksInv (ks\<lparr>ks_calls := c\<rparr>)"
  by (simp_all add: ksInv_def ksWeak_def guardsOk_def stateOkKs_def waitersOk_def waiterStays_def)

lemma shutdown_inv: "ksInv ks \<Longrightarrow> ksInv (shutdown ex ks)"
proof (cases "ks_shutdown ks")
  case False
  assume "ksInv ks"
  then have "closedOk (shutdownGuard b gd)" for b gd by (auto simp: shutdownGuard_def Let_def closedOk_def)
  then show ?thesis using False \<open>ksInv ks\<close>
    by (auto simp: shutdown_def ksInv_def ksWeak_def guardsOk_def)
qed (simp add: shutdown_def)

lemma closeGrace_inv:
  assumes "ksInv ks" "ks_guards ks g = Some gd" "g_graceTimer gd"
  shows "ksInv (closeGrace g ks)"
proof -
  have "closedOk (gd\<lparr>g_stopped := True\<rparr>) = closedOk gd" for gd by (simp add: closedOk_def)
  then have "guardsOk {} (stopHard g ks)"
    using assms by (auto simp: ksInv_def ksWeak_def guardsOk_def stopHard_def forceGuard_def startGuard_def)
  then have "ksInv (stopHard g ks)" by (rule ksInv_transfer [OF assms(1)]) (simp_all add: stopHard_def)
  then show ?thesis using assms by (simp add: closeGrace_def)
qed

lemma weak_of_inv: "ksInv ks \<Longrightarrow> ksWeak ks"
  by (simp add: ksInv_def)

lemma ksInv_waiters:
  assumes "ksInv ks" "\<forall>w \<in> set ws. waiterStays ks w"
  shows "ksInv (ks\<lparr>ks_waiters := ws\<rparr>)"
proof -
  have "waitersOk (ks\<lparr>ks_waiters := ws\<rparr>)" using assms(2) by (simp add: waitersOk_def waiterStays_def)
  moreover have "guardsOk {} (ks\<lparr>ks_waiters := ws\<rparr>) = guardsOk {} ks" by (simp add: guardsOk_def)
  moreover have "stateOkKs (ks\<lparr>ks_waiters := ws\<rparr>) = stateOkKs ks" by (simp add: stateOkKs_def)
  ultimately show ?thesis using assms(1) by (simp add: ksInv_def ksWeak_def)
qed

lemma ksInv_waiters': "ksInv ks \<Longrightarrow> ks_shutdown ks \<Longrightarrow> ksInv (ks\<lparr>ks_waiters := ws\<rparr>)"
  by (simp add: ksInv_def ksWeak_def guardsOk_def)

lemma inv_waiters: "ksInv ks \<Longrightarrow> \<not> ks_shutdown ks \<Longrightarrow> w \<in> set (ks_waiters ks) \<Longrightarrow> waiterStays ks w"
  by (simp add: ksInv_def ksWeak_def waitersOk_def)

lemma ksInv_addWaiter: "ksInv ks \<Longrightarrow> waiterStays ks w \<Longrightarrow> ksInv (ks\<lparr>ks_waiters := ks_waiters ks @ [w]\<rparr>)"
  using ksInv_waiters [of ks "ks_waiters ks @ [w]"] ksInv_waiters' [of ks "ks_waiters ks @ [w]"] inv_waiters [of ks]
  by (cases "ks_shutdown ks") auto

lemma whenSettled_inv: "ksInv ks \<Longrightarrow> ksInv (whenSettled c b ks)"
  by (simp add: whenSettled_def ksInv_env ksInv_addWaiter waiterStays_def)

lemma whenIdle_inv: "ksInv ks \<Longrightarrow> ksInv (whenIdle c ks)"
  by (simp add: whenIdle_def ksInv_env ksInv_addWaiter waiterStays_def)

lemma contextGone_inv:
  "ksInv ks \<Longrightarrow> ksInv (ks\<lparr>ks_waiters := map (\<lambda>w. if w_callback w = c then w\<lparr>w_alive := False\<rparr> else w) (ks_waiters ks)\<rparr>)"
proof (cases "ks_shutdown ks")
  case False
  assume inv: "ksInv ks"
  have "waiterStays ks (w\<lparr>w_alive := False\<rparr>) = waiterStays ks w" for w by (simp add: waiterStays_def)
  then show ?thesis using inv_waiters [OF inv False] by (intro ksInv_waiters [OF inv]) auto
qed (rule ksInv_waiters')

lemma SetApiPort_inv: "ksInv ks \<Longrightarrow> ksInv (SetApiPort p ks)"
  by (simp add: SetApiPort_def Let_def ksInv_env applyKs_inv weak_of_inv)

lemma retryApply_inv: "ksInv ks \<Longrightarrow> ksInv (retryApply ks)"
  by (simp add: retryApply_def applyKs_inv weak_of_inv)

lemmas handler_inv = applyKs_inv [OF weak_of_inv] applyKs_inv [OF weak_identity] SetApiPort_inv whenSettled_inv
  whenIdle_inv readOutput_inv onReadyTimeout_inv onStartFailed_inv onFinished_inv retryApply_inv closeGrace_inv
  shutdown_inv contextGone_inv ksInv_env

lemma ks_step_inv: "ks_step e ks ks' \<Longrightarrow> ksInv ks \<Longrightarrow> ksInv ks'"
  by (induction rule: ks_step.induct) (auto simp: noteIdentityUnsupported_def setOverride_def intro: handler_inv)

lemma ks_init_inv: "ks_init ks \<Longrightarrow> ksInv ks"
  by (auto simp: ks_init_def ksCreate_def ksInv_def ksWeak_def guardsOk_def stateOkKs_def waitersOk_def)

interpretation killSwitch: transition_system ks_init ks_next_state ksInv
  by unfold_locales (auto simp: ks_next_state_def intro: ks_init_inv ks_step_inv)

abbreviation ksReachable :: "KillSwitch \<Rightarrow> bool" where
  "ksReachable ks \<equiv> \<exists>ks0. ks_init ks0 \<and> ks_next_state\<^sup>*\<^sup>* ks0 ks"

lemma reachable_inv: "ksReachable ks \<Longrightarrow> ksInv ks"
  using killSwitch.inv_reachable by blast

subsection \<open>A run to the armed state\<close>

text \<open>The settings with the switch on, and the states of the run: created, applied, ready.\<close>

definition demoSettings :: KsSettings where
  "demoSettings = \<lparr>kill_switch = True, disable_private_range_bypass = False, vpn_tun_ipv4_cidr = [],
     vpn_tun_ipv6_cidr = [], vpn_l3_bridge = False, prepare_exit = False\<rparr>"

definition demoArming :: KillSwitch where
  "demoArming = applyKs (ksCreate demoSettings)"

definition demoArmed :: KillSwitch where
  "demoArmed = readOutput 0 [qs ''READY''] demoArming"

lemma demoArming_facts:
  "ks_guards demoArming 0 = Some (newGuard (buildConfig (ksCreate demoSettings)) False)" "ks_pending demoArming = Some 0"
  "ks_state demoArming = Arming" "ks_active demoArming = None" "\<not> ks_shutdown demoArming" "ks_settings demoArming = demoSettings"
  "\<not> ks_identityUnsupported demoArming" "\<not> ks_overridden demoArming"
  by (simp_all add: demoArming_def applyKs_def ksCreate_def demoSettings_def Let_def guardConfig_def spawn_def
      dropPending_def closeGuard_def setState_def buildConfig_def)

lemma demoArming_reachable: "ksReachable demoArming"
proof -
  have "ks_next_state (ksCreate demoSettings) demoArming"
    unfolding ks_next_state_def demoArming_def using step_apply by blast
  then show ?thesis by (auto simp: ks_init_def intro!: exI [of _ "ksCreate demoSettings"])
qed

lemma ready_line: "trimmed (qs ''READY'') = qs ''READY''" "section0 (qs ''READY'') = qs ''READY''"
  by (simp_all add: trimmed_def isSpace_def section0_def)

lemma demoArmed_eq: "demoArmed = onReady 0 demoArming"
  by (simp add: demoArmed_def readOutput_def handleLine_def ready_line [simplified] Let_def)

lemma demoArmed_facts:
  "ks_state demoArmed = Armed" "ks_active demoArmed = Some 0" "\<not> ks_shutdown demoArmed" "ks_settings demoArmed = demoSettings"
  "\<not> ks_overridden demoArmed" "ks_pending demoArmed = None"
  by (simp_all add: demoArmed_eq onReady_def demoArming_facts newGuard_def Let_def)

lemma demoArmed_reachable: "ksReachable demoArmed"
proof -
  have "ks_next_state demoArming demoArmed"
    unfolding ks_next_state_def demoArmed_def
    by (rule exI, rule step_line [OF demoArming_facts(1)]) (simp add: newGuard_def)
  then show ?thesis using demoArming_reachable by (meson rtranclp.rtrancl_into_rtrancl)
qed

subsection \<open>Safety\<close>

text \<open>A guard whose rules are in force: it reported READY, is running, has not been told to stop and still has its input open, and the core
  could adopt its group.\<close>

definition guardInForce :: "KillSwitch \<Rightarrow> bool" where
  "guardInForce ks \<longleftrightarrow> (\<exists>g gd. ks_state ks = Armed \<and> ks_active ks = Some g \<and> ks_guards ks g = Some gd \<and> g_ready gd \<and> g_running gd
        \<and> g_inputOpen gd \<and> \<not> g_closing gd \<and> \<not> g_stopped gd \<and> \<not> ks_identityUnsupported ks)"

lemma inv_allowsStart:
  assumes "ksInv ks" "\<not> ks_shutdown ks" "allowsStart ks"
  shows "(ks_state ks = Disabled \<and> ks_active ks = None) \<or> guardInForce ks"
proof -
  have inv: "guardsOk {} ks" "stateOkKs ks" "ks_state ks = Armed \<Longrightarrow> \<not> ks_identityUnsupported ks"
    using assms(1,2) by (auto simp: ksInv_def ksWeak_def)
  show ?thesis
  proof (cases "ks_state ks = Armed")
    case True
    then obtain g where "ks_active ks = Some g" using inv(2) by (auto simp: stateOkKs_def)
    then show ?thesis using inv True by (auto simp: guardInForce_def guardsOk_def forceGuard_def)
  next
    case False
    then show ?thesis using assms(3) inv(2) by (auto simp: allowsStart_def stateOkKs_def)
  qed
qed

text \<open>Applying the setting while it is on asks for a guard or already has one, unless it fails.\<close>

lemma apply_on_guard:
  assumes "\<not> ks_shutdown ks" "kill_switch (ks_settings ks)" "allowsStart (applyKs ks)"
  shows "ks_active (applyKs ks) \<noteq> None \<or> ks_pending (applyKs ks) \<noteq> None"
proof (cases "ks_overridden ks")
  case True
  then have "ks_state (applyKs ks) = Failed" using assms(1,2) by (simp add: applyKs_def applyOverridden_def Let_def fail_def settle_def setState_def)
  then show ?thesis using assms(3) by (simp add: allowsStart_def)
next
  case False
  then show ?thesis using assms(1,2) by (auto simp: applyKs_def Let_def spawn_def guardConfig_def split: option.splits)
qed

lemma applyKs_shutdown: "ks_shutdown (applyKs ks) = ks_shutdown ks"
  by (simp add: applyKs_def applyOff_def applyOverridden_def spawn_def Let_def)

lemma apply_on_disabled:
  assumes "\<not> ks_shutdown ks" "kill_switch (ks_settings ks)" "ks_state (applyKs ks) = Disabled" "ks_identityUnsupported (applyKs ks)"
  shows "ks_state ks = Disabled \<and> ks_identityUnsupported ks"
  using assms by (auto simp: applyKs_def applyOverridden_def spawn_def Let_def split: if_splits)



lemma applyKs_keeps_active:
  "kill_switch (ks_settings ks) \<Longrightarrow> \<not> ks_overridden ks \<Longrightarrow> ks_active (applyKs ks) = ks_active ks"
  by (simp add: applyKs_def Let_def)

lemma armFailed_fields [simp]:
  "ks_active (armFailed c m ks) = ks_active ks" "ks_pending (armFailed c m ks) = ks_pending ks"
  by (simp_all add: armFailed_def)

lemma onReady_active: "ks_active ks \<noteq> None \<Longrightarrow> ks_active (onReady g ks) \<noteq> None"
  by (auto simp: onReady_def Let_def split: option.splits)

lemma handleLine_keeps_active:
  assumes "ksInv ks" "ks_active ks = Some g" "h \<noteq> g"
  shows "ks_active (handleLine h line ks) = Some g
    \<or> ks_pending ks = Some h \<and> section0 line = qs ''READY'' \<and> ks_active (handleLine h line ks) = Some h"
  using assms
  by (auto simp: handleLine_def Let_def onReady_def guardFailed_def split: option.splits)

lemma handleLine_pending:
  assumes "ksInv ks" "ks_active ks = Some g" "h \<noteq> g" "section0 line \<noteq> qs ''READY''"
  shows "ks_active (handleLine h line ks) = Some g"
  using assms by (auto simp: handleLine_def Let_def guardFailed_def split: option.splits)

lemma readOutput_keeps_active:
  assumes "ksInv ks" "ks_active ks = Some g" "h \<noteq> g" "\<forall>raw \<in> set ls. section0 (trimmed raw) \<noteq> qs ''READY''"
  shows "ks_active (readOutput h ls ks) = Some g"
  using assms
proof (induction ls arbitrary: ks)
  case (Cons raw ls)
  show ?case
  proof (cases "trimmed raw = []")
    case True
    then show ?thesis using Cons by (simp add: readOutput_def)
  next
    case False
    have "ks_active (handleLine h (trimmed raw) ks) = Some g" using Cons.prems by (intro handleLine_pending) auto
    then show ?thesis using Cons.IH [of "handleLine h (trimmed raw) ks"] Cons.prems False handleLine_inv
      by (simp add: readOutput_def)
  qed
qed (simp add: readOutput_def)

lemma onFinished_keeps_active:
  assumes "ksInv ks" "ks_active ks = Some g" "h \<noteq> g" "\<forall>raw \<in> set ls. section0 (trimmed raw) \<noteq> qs ''READY''"
  shows "ks_active (onFinished h ls c cr ks) = Some g"
  using readOutput_keeps_active [OF assms] assms(3) by (auto simp: onFinished_def Let_def split: option.splits)

text \<open>Why the active guard can be given up.\<close>

definition gaveUpReason :: "KsEvent \<Rightarrow> nat \<Rightarrow> KillSwitch \<Rightarrow> bool" where
  "gaveUpReason e g ks \<longleftrightarrow> \<not> kill_switch (ks_settings ks) \<or> ks_overridden ks
     \<or> (case e of
          ELine h raw \<Rightarrow> h = g
        | EFinished h ls c cr \<Rightarrow> h = g \<or> (\<exists>raw \<in> set ls. section0 (trimmed raw) = qs ''READY'')
        | EShutdown ex \<Rightarrow> True
        | _ \<Rightarrow> False)"

lemma step_keeps_active:
  assumes "ks_step e ks ks'" "ksInv ks" "ks_active ks = Some g" "\<not> gaveUpReason e g ks"
  shows "ks_active ks' \<noteq> None"
  using assms
proof (induction rule: ks_step.induct)
  case (step_line ks h gd raw)
  then show ?case
    using handleLine_keeps_active [of ks g h "trimmed raw"] by (auto simp: gaveUpReason_def readOutput_def Let_def)
next
  case (step_finished ks h gd ls code crashed)
  then show ?case using onFinished_keeps_active [of ks g h ls code crashed] by (auto simp: gaveUpReason_def)
qed (auto simp: gaveUpReason_def applyKs_keeps_active noteIdentityUnsupported_def setOverride_def SetApiPort_def Let_def
    whenSettled_def whenIdle_def onReadyTimeout_def stopHard_def onStartFailed_def endGuard_def retryApply_def
    closeGrace_def split: option.splits)

text \<open>C2: no gap. One step from a reachable state never leaves the device unprotected by itself: if a
  guard was in force, then after the step a guard is in force (the same or its ready replacement),
  unless the switch is off or overridden, the program shuts down, or the guard that was in force (or a
  replacement that became ready and exited at once) ended or reported a failure.\<close>

theorem guard_handover_no_gap:
  assumes "ksReachable ks" "ks_step e ks ks'" "ks_active ks = Some g" "\<not> gaveUpReason e g ks"
  shows "\<exists>h gd. ks_active ks' = Some h \<and> ks_guards ks' h = Some gd \<and> g_ready gd \<and> g_running gd \<and> g_inputOpen gd \<and> \<not> g_closing gd"
proof -
  have "ksInv ks'" using ks_step_inv [OF assms(2) reachable_inv [OF assms(1)]] .
  then show ?thesis using step_keeps_active [OF assms(2) reachable_inv [OF assms(1)] assms(3,4)]
    by (auto simp: ksInv_def ksWeak_def guardsOk_def forceGuard_def)
qed

theorem guard_handover_no_gap_witness:
  "\<exists>h gd. ks_active (SetApiPort 8080 demoArmed) = Some h \<and> ks_guards (SetApiPort 8080 demoArmed) h = Some gd
     \<and> g_ready gd \<and> g_running gd \<and> g_inputOpen gd \<and> \<not> g_closing gd"
  using guard_handover_no_gap [OF demoArmed_reachable step_api demoArmed_facts(2)] demoArmed_facts
  by (auto simp: gaveUpReason_def demoSettings_def)

text \<open>No guard leaks. In every reachable state a guard process that is neither the active nor the pending
  one has been told to close, has no ready timer, and if it still runs its input is closed, which is
  the signal to remove its rules; so at most two guards are ever open.\<close>

theorem no_guard_leak:
  assumes "ksReachable ks" "ks_guards ks g = Some gd"
  shows "ks_active ks = Some g \<or> ks_pending ks = Some g \<or> g_closing gd \<and> \<not> g_timer gd \<and> (g_running gd \<longrightarrow> \<not> g_inputOpen gd)"
  using reachable_inv [OF assms(1)] assms(2) by (auto simp: ksInv_def ksWeak_def guardsOk_def closedOk_def)

theorem no_guard_leak_witness:
  "ks_pending demoArming = Some 0 \<or> g_closing (newGuard (buildConfig (ksCreate demoSettings)) False)"
  using no_guard_leak [OF demoArming_reachable demoArming_facts(1)] demoArming_facts by simp

text \<open>C25: arming ends and no waiter is forgotten. In a reachable state before shutdown a caller of
  \<open>whenSettled\<close> is still waiting only while the switch is arming; arming always has a pending guard whose
  ready timer runs, and when that timer fires the state is Failed and every waiter has been called with
  false (except those whose context is gone).\<close>

theorem arming_ends:
  assumes "ksReachable ks" "\<not> ks_shutdown ks"
  shows "(\<forall>w \<in> set (ks_waiters ks). if w_idle w then ks_pending ks \<noteq> None else ks_state ks = Arming)
    \<and> (ks_state ks = Arming \<longrightarrow> (\<exists>g gd. ks_pending ks = Some g \<and> ks_guards ks g = Some gd \<and> g_timer gd
        \<and> ks_state (onReadyTimeout g ks) = Failed \<and> ks_waiters (onReadyTimeout g ks) = []
        \<and> ks_calls (onReadyTimeout g ks) = ks_calls ks @ map (\<lambda>w. (w_callback w, False))
            (filter (\<lambda>w. w_bound w \<longrightarrow> w_alive w) (ks_waiters ks))))"
proof (intro conjI impI)
  have inv: "guardsOk {} ks" "stateOkKs ks" "waitersOk ks"
    using reachable_inv [OF assms(1)] assms(2) by (auto simp: ksInv_def ksWeak_def)
  show "\<forall>w \<in> set (ks_waiters ks). if w_idle w then ks_pending ks \<noteq> None else ks_state ks = Arming"
    using inv(3) by (auto simp: waitersOk_def waiterStays_def)
  assume arming: "ks_state ks = Arming"
  then obtain g where g: "ks_active ks = None" "ks_pending ks = Some g" using inv(2) by (auto simp: stateOkKs_def)
  then obtain gd where gd: "ks_guards ks g = Some gd" "startGuard gd" using inv(1) by (auto simp: guardsOk_def)
  have "onReadyTimeout g ks = fail kTimeout (MsgNotResponding (kReadyTimeoutMs div 1000))
      (stopHard g (closeGuard (Some g) (ks\<lparr>ks_pending := None\<rparr>)))"
    using g gd by (simp add: onReadyTimeout_def armFailed_def startGuard_def stopHard_def)
  then have "ks_state (onReadyTimeout g ks) = Failed \<and> ks_waiters (onReadyTimeout g ks) = []
      \<and> ks_calls (onReadyTimeout g ks) = ks_calls ks @ map (\<lambda>w. (w_callback w, False))
          (filter (\<lambda>w. w_bound w \<longrightarrow> w_alive w) (ks_waiters ks))"
    by (simp add: fail_def settle_def waiterStays_def stopHard_def)
  with g gd show "\<exists>g gd. ks_pending ks = Some g \<and> ks_guards ks g = Some gd \<and> g_timer gd
      \<and> ks_state (onReadyTimeout g ks) = Failed \<and> ks_waiters (onReadyTimeout g ks) = []
      \<and> ks_calls (onReadyTimeout g ks) = ks_calls ks @ map (\<lambda>w. (w_callback w, False))
          (filter (\<lambda>w. w_bound w \<longrightarrow> w_alive w) (ks_waiters ks))"
    by (auto simp: startGuard_def)
qed

theorem arming_ends_witness:
  "ks_state demoArming = Arming \<and> (\<exists>g gd. ks_pending demoArming = Some g \<and> ks_guards demoArming g = Some gd \<and> g_timer gd
     \<and> ks_state (onReadyTimeout g demoArming) = Failed)"
  using arming_ends [OF demoArming_reachable demoArming_facts(5)] demoArming_facts(3) by blast

lemma settle_idem: "waitersOk ks \<Longrightarrow> settle ks = ks"
proof -
  assume "waitersOk ks"
  then have "filter (waiterStays ks) (ks_waiters ks) = ks_waiters ks"
    "filter (\<lambda>w. \<not> waiterStays ks w \<and> \<not> (w_bound w \<and> \<not> w_alive w)) (ks_waiters ks) = []"
    by (auto simp: waitersOk_def filter_empty_conv)
  then show ?thesis by (simp add: settle_def)
qed

lemma applyKs_env [simp]:
  "ks_shutdown (applyKs ks) = ks_shutdown ks" "ks_settings (applyKs ks) = ks_settings ks"
  "ks_overridden (applyKs ks) = ks_overridden ks" "ks_apiPort (applyKs ks) = ks_apiPort ks"
  by (auto simp: applyKs_def applyOff_def applyOverridden_def Let_def spawn_def)

lemma applyOff_twice:
  assumes "ks_active ks = None" "ks_pending ks = None" "\<not> ks_identityUnsupported ks" "ks_identityDetail ks = []"
    and "ks_state ks = Disabled" "ks_failureCode ks = []" "ks_failureMessage ks = NoMessage" "waitersOk ks"
  shows "applyOff ks = ks"
proof -
  have "setState Disabled (dropActive (dropPending (ks\<lparr>ks_identityUnsupported := False, ks_identityDetail := []\<rparr>))) = ks"
    using assms by (simp add: dropActive_def dropPending_def closeGuard_def setState_def)
  then show ?thesis using settle_idem [OF assms(8)] by (simp add: applyOff_def)
qed

lemma applyOverridden_twice:
  assumes "ks_active ks = None" "ks_pending ks = None" "ks_state ks = Failed" "ks_failureCode ks = kOverridden"
    and "ks_failureMessage ks = MsgOverridden" "waitersOk ks"
  shows "applyOverridden ks = ks"
proof -
  have "dropActive (dropPending ks) = ks" using assms by (simp add: dropActive_def dropPending_def closeGuard_def)
  then show ?thesis using assms settle_idem by (simp add: applyOverridden_def)
qed

lemma buildConfig_cong: "ks_settings a = ks_settings b \<Longrightarrow> ks_apiPort a = ks_apiPort b \<Longrightarrow> buildConfig a = buildConfig b"
  by (simp add: buildConfig_def)

lemma spawn_pending_config: "guardConfig (spawn c ks) (ks_pending (spawn c ks)) = Some c"
  by (simp add: guardConfig_def spawn_def Let_def newGuard_def)

text \<open>What \<open>applyKs\<close> leaves behind with the switch on: the wanted configuration is pending or, with
  nothing pending, in force.\<close>

lemma applyKs_on:
  assumes "ksInv ks" "\<not> ks_shutdown ks" "kill_switch (ks_settings ks)" "\<not> ks_overridden ks"
  shows "guardConfig (applyKs ks) (ks_pending (applyKs ks)) = Some (buildConfig ks)
    \<or> ks_pending (applyKs ks) = None \<and> guardConfig (applyKs ks) (ks_active (applyKs ks)) = Some (buildConfig ks)"
proof -
  define ks1 where "ks1 = (if ks_identityUnsupported ks \<and> ks_state ks = Armed then failIdentity ks else ks)"
  have b: "buildConfig ks1 = buildConfig ks" by (intro buildConfig_cong) (simp_all add: ks1_def)
  have ok: "guardsOk {} ks1" using assms(1) by (simp add: ks1_def ksInv_def ksWeak_def)
  have "guardConfig (settle (dropPending ks1)) (ks_active ks1) = guardConfig ks1 (ks_active ks1)"
    using active_not_pending [OF ok] by (auto simp: guardConfig_def dropPending_def split: option.splits)
  then show ?thesis using assms spawn_pending_config [of "buildConfig ks" ks1]
    unfolding applyKs_def by (simp add: Let_def ks1_def [symmetric] b)
qed

text \<open>\<open>apply\<close> converges in one call: on every reachable state a second call without a change of the
  settings, the override or the port does nothing.\<close>

theorem apply_idempotent:
  assumes "ksReachable ks"
  shows "applyKs (applyKs ks) = applyKs ks"
proof -
  have inv: "ksInv ks" "ksInv (applyKs ks)"
    using reachable_inv [OF assms] applyKs_inv weak_of_inv by auto
  consider "ks_shutdown ks" | "\<not> ks_shutdown ks" "\<not> kill_switch (ks_settings ks)"
    | "\<not> ks_shutdown ks" "kill_switch (ks_settings ks)" "ks_overridden ks"
    | "\<not> ks_shutdown ks" "kill_switch (ks_settings ks)" "\<not> ks_overridden ks" by blast
  then show ?thesis
  proof cases
    case 1
    then show ?thesis by (simp add: applyKs_def)
  next
    case 2
    have "applyOff (applyOff ks) = applyOff ks"
      by (rule applyOff_twice) (simp_all add: applyOff_def Let_def settle_waiters)
    with 2 show ?thesis by (simp add: applyKs_def [of "applyKs ks"]) (simp add: applyKs_def)
  next
    case 3
    have "applyOverridden (applyOverridden ks) = applyOverridden ks"
      by (rule applyOverridden_twice)
        (auto simp: applyOverridden_def Let_def settle_waiters fail_waiters fail_def)
    with 3 show ?thesis by (simp add: applyKs_def [of "applyKs ks"]) (simp add: applyKs_def)
  next
    case 4
    define t where "t = applyKs ks"
    have b: "buildConfig t = buildConfig ks" by (intro buildConfig_cong) (simp_all add: t_def)
    have id: "(if ks_identityUnsupported t \<and> ks_state t = Armed then failIdentity t else t) = t"
      using inv(2) 4(1) by (auto simp: t_def ksInv_def)
    have "\<not> ks_shutdown t" "kill_switch (ks_settings t)" "\<not> ks_overridden t" using 4 by (simp_all add: t_def)
    then have "applyKs t = (if guardConfig t (ks_pending t) = Some (buildConfig t) then t
        else if guardConfig t (ks_active t) = Some (buildConfig t)
        then (if ks_pending t \<noteq> None then settle (dropPending t) else t) else spawn (buildConfig t) t)"
      by (simp only: applyKs_def Let_def id if_False if_True not_True_eq_False)
    then have "applyKs t = t" using applyKs_on [OF inv(1) 4, folded t_def] b by auto
    then show ?thesis by (simp add: t_def)
  qed
qed

theorem apply_idempotent_witness: "applyKs (applyKs demoArmed) = applyKs demoArmed"
  using apply_idempotent [OF demoArmed_reachable] .

text \<open>The exception in the fail-closed theorem is real. The comment on \<open>noteIdentityUnsupported\<close> promises that starts stay refused afterwards.
  That holds from every state but Disabled: with the setting on and not overridden, no guard and no \<open>apply\<close> run yet, the call starts a
  guard but leaves the state Disabled, and \<open>allowsStart\<close> still says yes until that guard reports READY.\<close>

lemma identity_note_keeps_disabled:
  assumes "kill_switch (ks_settings ks)" "\<not> ks_overridden ks" "\<not> ks_shutdown ks" "ks_state ks = Disabled" "ks_active ks = None" "ks_pending ks = None"
  shows "ks_state (noteIdentityUnsupported d ks) = Disabled \<and> ks_identityUnsupported (noteIdentityUnsupported d ks)
    \<and> ks_pending (noteIdentityUnsupported d ks) \<noteq> None \<and> allowsStart (noteIdentityUnsupported d ks)"
  using assms by (simp add: noteIdentityUnsupported_def applyKs_def guardConfig_def spawn_def dropPending_def closeGuard_def Let_def allowsStart_def)

end
