(* ===== verification/Core_Supervisor.thy ===== *)
theory Core_Supervisor
  imports Kill_Switch
begin

text \<open>
  The supervisor of the core process (\<^verbatim>\<open>src/src/engine/supervisor/CoreSupervisor.cpp\<close>): it starts the core, accepts its
  connection, restarts it with growing delays when it exits and gives up after repeated failures. The
  record \<open>CoreSup\<close> holds the member variables; a QTimer is an option holding the delay it was started
  with; the tasks posted to the DS_cores thread are the queue \<open>cs_posts\<close>, run one at a time by
  \<open>runPost\<close>; the signals emitted are appended to \<open>cs_signals\<close>. The settings and the kill switch the
  supervisor talks to are the state of theory \<open>Kill_Switch\<close>. The core process itself is the environment:
  it may connect, report being spawned, exit or answer the privilege probe at any time. The Linux
  build is modelled. Log output, the RPC client and the stopping of profiles are left out.

  Results: an exit is handled once; what every exit leads to (restart delay, give up, intentional
  restart, identity failure); a supervisor in back-off always has its timer running; a connected core is
  a current one; shutting down is final; and the cause line collected from the core's error output does
  not depend on how that output was cut into chunks.
\<close>

subsection \<open>Data\<close>

datatype CoreState = NotStarted | Starting | Connected | Backoff | GaveUp | ListenFailed | ShuttingDown

datatype FailureReason =
    NoReason
  | ListenError qstring
  | KeepsExiting qstring
  | NeverConnected nat qstring

datatype Post = PStart | PRestart | PResetKill | PPrivilegeKill | PTimeoutKill nat | PExitKill

datatype Signal =
    SRpcConnected
  | SCoreStarted int
  | SCoreGaveUp FailureReason
  | SListenFailed qstring
  | SCoreExited bool
  | SResumeCancelled

record CoreSup =
  cs_state :: CoreState
  cs_server :: bool
  cs_process :: bool
  cs_generation :: nat
  cs_expectedExitGen :: nat
  cs_startWhenUp :: int
  cs_probing :: bool
  cs_failures :: nat
  cs_startFailures :: nat
  cs_lastCoreError :: qstring
  cs_lastCoreErrorGen :: nat
  cs_handledExitGen :: nat
  cs_acceptedGen :: nat
  cs_connectGen :: nat
  cs_timedOutGen :: nat
  cs_connectedAt :: "nat option"
  cs_profileCrash :: "nat option"
  cs_lastFailure :: FailureReason
  cs_restartCount :: nat
  cs_restartTimer :: "nat option"
  cs_connectTimer :: "nat option"
  cs_startedId :: int
  cs_coreRunning :: bool
  cs_now :: nat
  cs_isGui :: bool
  cs_ks :: KillSwitch
  cs_posts :: "Post list"
  cs_signals :: "Signal list"

definition kConnectTimeoutMs :: nat where "kConnectTimeoutMs = 20000"
definition kStableMs :: nat where "kStableMs = 60 * 1000"
definition kBackoffFirstMs :: nat where "kBackoffFirstMs = 500"
definition kBackoffCapMs :: nat where "kBackoffCapMs = 30000"
definition kGiveUpAfter :: nat where "kGiveUpAfter = 5"
definition kProfileCrashWindowMs :: nat where "kProfileCrashWindowMs = 10000"
definition kIntentRestartDelayMs :: nat where "kIntentRestartDelayMs = 200"
definition kPrivilegeProbeRetries :: nat where "kPrivilegeProbeRetries = 2"
definition kCoreIdentityExitCode :: int where "kCoreIdentityExitCode = 86"
definition NoProfileId :: int where "NoProfileId = - 1919"

lemmas cs_constants = kConnectTimeoutMs_def kStableMs_def kBackoffFirstMs_def kBackoffCapMs_def kGiveUpAfter_def
  kProfileCrashWindowMs_def kIntentRestartDelayMs_def kPrivilegeProbeRetries_def

subsection \<open>Helpers\<close>

definition cs_emit :: "Signal \<Rightarrow> CoreSup \<Rightarrow> CoreSup" where
  "cs_emit sig cs = cs\<lparr>cs_signals := cs_signals cs @ [sig]\<rparr>"

definition cs_post :: "Post \<Rightarrow> CoreSup \<Rightarrow> CoreSup" where
  "cs_post p cs = cs\<lparr>cs_posts := cs_posts cs @ [p]\<rparr>"

definition csPrepareExit :: "CoreSup \<Rightarrow> bool" where
  "csPrepareExit cs \<longleftrightarrow> prepare_exit (ks_settings (cs_ks cs))"

definition exiting :: "CoreSup \<Rightarrow> bool" where
  "exiting cs \<longleftrightarrow> cs_state cs = ShuttingDown \<or> csPrepareExit cs"

definition currentGeneration :: "CoreSup \<Rightarrow> nat" where
  "currentGeneration cs = (if cs_process cs then cs_generation cs else 0)"

definition canStartCore :: "CoreSup \<Rightarrow> bool" where
  "canStartCore cs \<longleftrightarrow> cs_state cs \<noteq> ListenFailed \<and> cs_state cs \<noteq> ShuttingDown"

definition scheduleRestart :: "nat \<Rightarrow> CoreSup \<Rightarrow> CoreSup" where
  "scheduleRestart delayMs cs = cs\<lparr>cs_state := Backoff, cs_restartTimer := Some delayMs\<rparr>"

definition beginRestart :: "CoreSup \<Rightarrow> CoreSup" where
  "beginRestart cs = cs\<lparr>cs_probing := False, cs_restartTimer := None, cs_connectTimer := None, cs_failures := 0,
     cs_startFailures := 0, cs_lastFailure := NoReason, cs_lastCoreError := [], cs_state := Starting\<rparr>"

definition postProcessRestart :: "CoreSup \<Rightarrow> CoreSup" where
  "postProcessRestart cs =
     cs_post PRestart (cs\<lparr>cs_handledExitGen := max (cs_handledExitGen cs) (currentGeneration cs),
                         cs_restartCount := Suc (cs_restartCount cs)\<rparr>)"

subsection \<open>Operations of the main thread\<close>

definition csListen :: "bool \<Rightarrow> qstring \<Rightarrow> CoreSup \<Rightarrow> CoreSup" where
  "csListen listening err cs0 =
     (let cs = cs0\<lparr>cs_server := True\<rparr>
      in if \<not> listening
         then cs_emit (SListenFailed err) (cs\<lparr>cs_lastFailure := ListenError err, cs_state := ListenFailed\<rparr>)
         else cs)"

definition csStart :: "int \<Rightarrow> CoreSup \<Rightarrow> CoreSup" where
  "csStart profileId cs =
     (if cs_state cs \<noteq> NotStarted \<or> \<not> cs_server cs then cs
      else cs_post PStart (cs\<lparr>cs_startWhenUp := (if profileId \<ge> 0 then profileId else cs_startWhenUp cs), cs_state := Starting\<rparr>))"

definition csShutdown :: "CoreSup \<Rightarrow> CoreSup" where
  "csShutdown cs = cs_post PExitKill
     (cs\<lparr>cs_state := ShuttingDown, cs_probing := False, cs_restartTimer := None, cs_connectTimer := None\<rparr>)"

definition killForExit :: "CoreSup \<Rightarrow> CoreSup" where
  "killForExit cs = cs_post PExitKill
     (cs\<lparr>cs_state := ShuttingDown, cs_probing := False, cs_restartTimer := None, cs_connectTimer := None\<rparr>)"

definition resetCore :: "CoreSup \<Rightarrow> CoreSup \<times> bool" where
  "resetCore cs =
     (if \<not> canStartCore cs \<or> exiting cs then (cs, False)
      else let was = cs_state cs; cs1 = beginRestart cs
           in if was = Backoff \<or> was = GaveUp
              then (postProcessRestart (cs1\<lparr>cs_startWhenUp := - 1, cs_startedId := NoProfileId\<rparr>), True)
              else (cs_post PResetKill cs1, True))"

definition restartNotListening :: "int \<Rightarrow> CoreSup \<Rightarrow> CoreSup \<times> bool" where
  "restartNotListening profileId cs =
     (if \<not> canStartCore cs \<or> exiting cs then (cs, False)
      else (postProcessRestart ((beginRestart cs)\<lparr>cs_startWhenUp := profileId\<rparr>), True))"

definition restartForGuard :: "CoreSup \<Rightarrow> CoreSup" where
  "restartForGuard cs = (if \<not> canStartCore cs \<or> exiting cs then cs else postProcessRestart (beginRestart cs))"

definition restartDeadCore :: "int \<Rightarrow> CoreSup \<Rightarrow> CoreSup" where
  "restartDeadCore profileId cs =
     (if (cs_state cs \<noteq> Backoff \<and> cs_state cs \<noteq> GaveUp) \<or> exiting cs then cs
      else postProcessRestart ((beginRestart cs)\<lparr>cs_startWhenUp := profileId\<rparr>))"

definition killForPrivilegeChange :: "CoreSup \<Rightarrow> CoreSup" where
  "killForPrivilegeChange cs =
     (if cs_state cs = ListenFailed \<or> cs_state cs = ShuttingDown then cs
      else if cs_state cs = Backoff \<or> cs_state cs = GaveUp then restartDeadCore (cs_startedId cs) cs
      else cs_post PPrivilegeKill cs)"

definition setStartWhenUp :: "int \<Rightarrow> CoreSup \<Rightarrow> CoreSup \<times> bool" where
  "setStartWhenUp profileId cs =
     (if cs_process cs then (cs\<lparr>cs_startWhenUp := profileId\<rparr>, True) else (cs, False))"

definition cancelResume :: "CoreSup \<Rightarrow> CoreSup" where
  "cancelResume cs = cs_emit SResumeCancelled (cs\<lparr>cs_startWhenUp := - 1, cs_startedId := NoProfileId\<rparr>)"

definition emitCoreStarted :: "CoreSup \<Rightarrow> CoreSup" where
  "emitCoreStarted cs = cs_emit (SCoreStarted (cs_startWhenUp cs)) (cs\<lparr>cs_startFailures := 0, cs_startWhenUp := - 1\<rparr>)"

text \<open>\<open>pidOk\<close> is the answer of the peer credential check.\<close>

definition onNewConnection :: "bool \<Rightarrow> CoreSup \<Rightarrow> CoreSup" where
  "onNewConnection pidOk cs =
     (let gen = currentGeneration cs
      in if \<not> cs_process cs \<or> \<not> pidOk then cs
         else if gen \<le> cs_handledExitGen cs \<or> gen \<le> cs_timedOutGen cs then cs
         else
           let cs1 = (cs_emit SRpcConnected cs)\<lparr>cs_coreRunning := True\<rparr>
           in if exiting cs1 then cs1
              else
                let cs2 = (if gen > cs_acceptedGen cs1 then cs1\<lparr>cs_acceptedGen := gen, cs_connectedAt := Some (cs_now cs1)\<rparr> else cs1)
                in cs2\<lparr>cs_connectTimer := None, cs_state := Connected, cs_probing := True\<rparr>)"

text \<open>The retry of an unanswered probe is the environment's next call with a larger \<open>attempt\<close>.\<close>

definition onPrivilegeProbed :: "nat \<Rightarrow> bool \<Rightarrow> bool \<Rightarrow> nat \<Rightarrow> CoreSup \<Rightarrow> CoreSup" where
  "onPrivilegeProbed gen ok rpcConnected attempt cs =
     (if (attempt = 0 \<and> \<not> cs_probing cs) \<or> gen \<noteq> cs_acceptedGen cs \<or> cs_state cs \<noteq> Connected \<or> exiting cs then cs
      else if \<not> ok \<and> \<not> rpcConnected then cs
      else if attempt > 0 then cs
      else emitCoreStarted (cs\<lparr>cs_probing := False\<rparr>))"

definition onCoreSpawned :: "nat \<Rightarrow> CoreSup \<Rightarrow> CoreSup" where
  "onCoreSpawned gen cs =
     (if cs_state cs \<noteq> Starting \<or> gen \<le> cs_acceptedGen cs \<or> exiting cs then cs
      else cs\<lparr>cs_connectGen := gen, cs_connectTimer := Some kConnectTimeoutMs\<rparr>)"

definition onConnectTimeout :: "CoreSup \<Rightarrow> CoreSup" where
  "onConnectTimeout cs0 =
     (let cs = cs0\<lparr>cs_connectTimer := None\<rparr>
      in if cs_state cs \<noteq> Starting \<or> exiting cs then cs
         else let gen = cs_connectGen cs
              in if gen \<le> cs_acceptedGen cs \<or> gen \<noteq> currentGeneration cs then cs
                 else cs_post (PTimeoutKill gen) (cs\<lparr>cs_timedOutGen := gen\<rparr>))"

definition qStartsWith :: "qstring \<Rightarrow> qstring \<Rightarrow> bool" where
  "qStartsWith s prefix \<longleftrightarrow> take (length prefix) s = prefix"

definition coreSupervisorIsPanicLine :: "qstring \<Rightarrow> bool" where
  "coreSupervisorIsPanicLine line \<longleftrightarrow>
     qStartsWith line (qs ''Core panicked:'') \<or> qStartsWith line (qs ''panic:'') \<or> qStartsWith line (qs ''fatal error:'')"

definition noteCoreError :: "nat \<Rightarrow> qstring \<Rightarrow> CoreSup \<Rightarrow> CoreSup" where
  "noteCoreError gen line cs =
     (if gen \<le> cs_handledExitGen cs \<or> gen < cs_lastCoreErrorGen cs \<or> cs_expectedExitGen cs = gen then cs
      else cs\<lparr>cs_lastCoreErrorGen := gen,
              cs_lastCoreError := (if gen = cs_timedOutGen cs \<and> \<not> coreSupervisorIsPanicLine line
                then qs ''did not connect within '' @ number (kConnectTimeoutMs div 1000) @ qs '' s'' else line)\<rparr>)"

subsection \<open>The exit of a core\<close>

definition exitExpected :: "bool \<Rightarrow> CoreSup \<Rightarrow> CoreSup" where
  "exitExpected wasProbing cs =
     (let cs1 = cs\<lparr>cs_failures := 0, cs_startFailures := 0\<rparr>;
          cs2 = (if \<not> wasProbing \<or> cs_startWhenUp cs1 < 0 then cs1\<lparr>cs_startWhenUp := cs_startedId cs1\<rparr> else cs1)
      in scheduleRestart kIntentRestartDelayMs cs2)"

definition exitIdentity :: "nat \<Rightarrow> CoreSup \<Rightarrow> CoreSup" where
  "exitIdentity gen cs =
     (let detail = (if cs_lastCoreErrorGen cs = gen \<and> cs_lastCoreError cs \<noteq> [] then cs_lastCoreError cs
                    else qs ''kill switch: cannot adopt the guard group'')
      in scheduleRestart kIntentRestartDelayMs (cs\<lparr>cs_ks := noteIdentityUnsupported detail (cs_ks cs)\<rparr>))"

text \<open>The counters, and whether the profile went down twice within ten seconds.\<close>

definition exitCount :: "bool \<Rightarrow> CoreSup \<Rightarrow> CoreSup" where
  "exitCount wasConnected cs =
     (let base = (if wasConnected \<and> (case cs_connectedAt cs of None \<Rightarrow> False | Some t \<Rightarrow> cs_now cs - t \<ge> kStableMs)
                  then 0 else cs_failures cs)
      in cs\<lparr>cs_failures := Suc base,
            cs_startFailures := (if \<not> wasConnected then Suc (cs_startFailures cs) else cs_startFailures cs)\<rparr>)"

definition profileCrash :: "bool \<Rightarrow> CoreSup \<Rightarrow> CoreSup \<times> bool" where
  "profileCrash wasConnected cs =
     (if wasConnected then
        (case cs_profileCrash cs of
           None \<Rightarrow> (cs\<lparr>cs_profileCrash := Some (cs_now cs)\<rparr>, False)
         | Some t \<Rightarrow> if cs_now cs - t < kProfileCrashWindowMs then (cs\<lparr>cs_profileCrash := None\<rparr>, True)
                    else (cs\<lparr>cs_profileCrash := Some (cs_now cs)\<rparr>, False))
      else (cs, False))"

definition exitResume :: "bool \<Rightarrow> bool \<Rightarrow> CoreSup \<Rightarrow> CoreSup" where
  "exitResume wasConnected tooFrequent cs =
     (if wasConnected \<or> cs_startWhenUp cs < 0 then
        (if tooFrequent \<and> cs_startedId cs \<ge> 0 then cs\<lparr>cs_startWhenUp := - 1, cs_startedId := NoProfileId\<rparr>
         else cs\<lparr>cs_startWhenUp := cs_startedId cs\<rparr>)
      else cs)"

definition shouldGiveUp :: "bool \<Rightarrow> CoreSup \<Rightarrow> bool" where
  "shouldGiveUp wasConnected cs \<longleftrightarrow> (cs_failures cs \<ge> kGiveUpAfter \<and> cs_startWhenUp cs < 0)
     \<or> (\<not> wasConnected \<and> cs_startFailures cs \<ge> kGiveUpAfter)"

definition giveUp :: "nat \<Rightarrow> bool \<Rightarrow> CoreSup \<Rightarrow> CoreSup" where
  "giveUp gen wasConnected cs =
     (let lastErr = (if \<not> cs_isGui cs \<and> cs_lastCoreErrorGen cs = gen then cs_lastCoreError cs else []);
          reason = (if \<not> cs_isGui cs \<and> \<not> wasConnected \<and> cs_startFailures cs \<ge> kGiveUpAfter
                    then NeverConnected (cs_startFailures cs) lastErr else KeepsExiting lastErr)
      in cs_emit (SCoreGaveUp reason)
           (cs\<lparr>cs_startWhenUp := - 1, cs_startedId := NoProfileId, cs_lastFailure := reason, cs_state := GaveUp\<rparr>))"

definition backoffDelay :: "nat \<Rightarrow> nat" where
  "backoffDelay failures = min (push_bit (min (failures - 1) 6) kBackoffFirstMs) kBackoffCapMs"

definition exitUnexpected :: "nat \<Rightarrow> bool \<Rightarrow> CoreSup \<Rightarrow> CoreSup" where
  "exitUnexpected gen wasConnected cs =
     (let (cs1, tooFrequent) = profileCrash wasConnected (exitCount wasConnected cs);
          cs2 = cs_emit (SCoreExited wasConnected) (exitResume wasConnected tooFrequent cs1)
      in if shouldGiveUp wasConnected cs2 then giveUp gen wasConnected cs2
         else scheduleRestart (backoffDelay (cs_failures cs2)) cs2)"

definition onCoreExited :: "nat \<Rightarrow> bool \<Rightarrow> int \<Rightarrow> CoreSup \<Rightarrow> CoreSup" where
  "onCoreExited gen failedToStart exitCode cs0 =
     (if gen \<le> cs_handledExitGen cs0 then cs0
      else
        let wasProbing = (cs_probing cs0 \<and> gen = cs_acceptedGen cs0);
            cs1 = cs0\<lparr>cs_handledExitGen := gen, cs_probing := (if wasProbing then False else cs_probing cs0)\<rparr>
        in if exiting cs1 then cs1
           else
             let cs2 = cs1\<lparr>cs_connectTimer := None\<rparr>;
                 wasConnected = (\<not> failedToStart \<and> gen = cs_acceptedGen cs2 \<and> \<not> wasProbing)
             in if cs_expectedExitGen cs2 = gen then exitExpected wasProbing cs2
                else if \<not> wasConnected \<and> exitCode = kCoreIdentityExitCode \<and> \<not> ks_identityUnsupported (cs_ks cs2)
                then exitIdentity gen cs2
                else exitUnexpected gen wasConnected cs2)"

definition postRestart :: "CoreSup \<Rightarrow> CoreSup" where
  "postRestart cs0 =
     (let cs = cs0\<lparr>cs_restartTimer := None\<rparr>
      in if cs_state cs \<noteq> Backoff \<or> exiting cs then cs
         else postProcessRestart (cs\<lparr>cs_state := Starting\<rparr>))"

subsection \<open>Tasks of the core thread\<close>

text \<open>The slot of \<open>stateChanged\<close> for a process that is no longer running; its exit report is \<open>onCoreExited\<close>.\<close>

definition coreNotRunning :: "CoreSup \<Rightarrow> CoreSup" where
  "coreNotRunning cs = cs\<lparr>cs_coreRunning := False\<rparr>"

definition runPost :: "Post \<Rightarrow> CoreSup \<Rightarrow> CoreSup" where
  "runPost p cs =
     (case p of
        PStart \<Rightarrow> cs\<lparr>cs_process := True, cs_generation := Suc (cs_generation cs)\<rparr>
      | PRestart \<Rightarrow>
          if \<not> cs_process cs \<or> csPrepareExit cs then cs else cs\<lparr>cs_generation := Suc (cs_generation cs)\<rparr>
      | PResetKill \<Rightarrow>
          if \<not> cs_process cs then cs
          else cs\<lparr>cs_startedId := NoProfileId, cs_expectedExitGen := cs_generation cs\<rparr>
      | PPrivilegeKill \<Rightarrow> if \<not> cs_process cs then cs else cs\<lparr>cs_expectedExitGen := cs_generation cs\<rparr>
      | PTimeoutKill gen \<Rightarrow> cs
      | PExitKill \<Rightarrow> cs)"

subsection \<open>The error output of a core\<close>

record CoreSupervisorStderrTail =
  tail_gen :: nat
  tail_partial :: "nat list"
  tail_panic :: qstring
  tail_last :: qstring

definition kCoreSupervisorErrorMaxChars :: nat where "kCoreSupervisorErrorMaxChars = 300"
definition kCoreSupervisorStderrLineCap :: nat where "kCoreSupervisorStderrLineCap = 4096"

definition isControl :: "qchar \<Rightarrow> bool" where
  "isControl c \<longleftrightarrow> c < 32 \<or> (127 \<le> c \<and> c \<le> 159)"

definition coreSupervisorOneLine :: "qstring \<Rightarrow> qstring" where
  "coreSupervisorOneLine text0 =
     (let text = simplified (map (\<lambda>c. if isControl c then u_space else c) text0)
      in if length text > kCoreSupervisorErrorMaxChars
         then take (kCoreSupervisorErrorMaxChars - 3) text @ qs ''...'' else text)"

fun takeDigits :: "nat \<Rightarrow> qstring \<Rightarrow> qstring option" where
  "takeDigits 0 s = Some s"
| "takeDigits (Suc n) (c # cs) = (if isDigit c then takeDigits n cs else None)"
| "takeDigits (Suc n) [] = None"

fun expect :: "qchar \<Rightarrow> qstring \<Rightarrow> qstring option" where
  "expect c (x # xs) = (if x = c then Some xs else None)"
| "expect c [] = None"

text \<open>The time stamp of the Go logger at the start of a line: \<^verbatim>\<open>2006/01/02 15:04:05\<close>, optional fraction, blank.\<close>

definition goLogStamp :: "qstring \<Rightarrow> qstring option" where
  "goLogStamp s =
     Option.bind (takeDigits 4 s) (\<lambda>s. Option.bind (expect 47 s) (\<lambda>s. Option.bind (takeDigits 2 s) (\<lambda>s.
     Option.bind (expect 47 s) (\<lambda>s. Option.bind (takeDigits 2 s) (\<lambda>s. Option.bind (expect 32 s) (\<lambda>s.
     Option.bind (takeDigits 2 s) (\<lambda>s. Option.bind (expect 58 s) (\<lambda>s. Option.bind (takeDigits 2 s) (\<lambda>s.
     Option.bind (expect 58 s) (\<lambda>s. Option.bind (takeDigits 2 s) (\<lambda>s.
       case expect 46 s of
         None \<Rightarrow> expect 32 s
       | Some f \<Rightarrow> if takeWhile isDigit f = [] then None else expect 32 (dropWhile isDigit f))))))))))))"

definition removeGoLogStamp :: "qstring \<Rightarrow> qstring" where
  "removeGoLogStamp s = (case goLogStamp s of None \<Rightarrow> s | Some rest \<Rightarrow> rest)"

definition isLowerAlnum :: "qchar \<Rightarrow> bool" where
  "isLowerAlnum c \<longleftrightarrow> (97 \<le> c \<and> c \<le> 122) \<or> isDigit c"

definition isLowerHex :: "qchar \<Rightarrow> bool" where
  "isLowerHex c \<longleftrightarrow> (97 \<le> c \<and> c \<le> 102) \<or> isDigit c"

definition registerDump :: "qstring \<Rightarrow> bool" where
  "registerDump s =
     (let name = takeWhile isLowerAlnum s;
          rest = dropWhile isLowerAlnum s;
          value = dropWhile isSpace rest
      in name \<noteq> [] \<and> \<not> isDigit (hd name) \<and> length name \<le> 8 \<and> takeWhile isSpace rest \<noteq> []
         \<and> take 2 value = qs ''0x'' \<and> drop 2 value \<noteq> [] \<and> list_all isLowerHex (drop 2 value))"

definition coreSupervisorNoteStderrLine ::
  "(nat list \<Rightarrow> qstring) \<Rightarrow> nat list \<Rightarrow> CoreSupervisorStderrTail \<Rightarrow> CoreSupervisorStderrTail" where
  "coreSupervisorNoteStderrLine fromUtf8 line0 tail =
     (if tail_panic tail \<noteq> [] then tail
      else
        let line = (if endsWith 13 line0 then butlast line0 else line0)
        in if line = [] \<or> startsWith 32 line \<or> startsWith 9 line then tail
           else
             let text = coreSupervisorOneLine (removeGoLogStamp (fromUtf8 line))
             in if text = [] then tail
                else if coreSupervisorIsPanicLine text then tail\<lparr>tail_panic := text\<rparr>
                else if qStartsWith text (qs ''goroutine '') \<or> registerDump text then tail
                else tail\<lparr>tail_last := text\<rparr>)"

definition freshTail :: "nat \<Rightarrow> CoreSupervisorStderrTail" where
  "freshTail gen = \<lparr>tail_gen = gen, tail_partial = [], tail_panic = [], tail_last = []\<rparr>"

definition coreSupervisorFeedStderr ::
  "(nat list \<Rightarrow> qstring) \<Rightarrow> nat \<Rightarrow> nat list \<Rightarrow> CoreSupervisorStderrTail \<Rightarrow> CoreSupervisorStderrTail" where
  "coreSupervisorFeedStderr fromUtf8 gen chunk tail0 =
     (let tail = (if tail_gen tail0 \<noteq> gen then freshTail gen else tail0)
      in if tail_panic tail \<noteq> [] then tail
         else
           let parts = qsplit u_lf (tail_partial tail @ chunk);
               tail1 = fold (coreSupervisorNoteStderrLine fromUtf8) (butlast parts) tail;
               rest = last parts
           in tail1\<lparr>tail_partial := (if length rest > kCoreSupervisorStderrLineCap then [] else rest)\<rparr>)"

definition coreSupervisorStderrCause :: "(nat list \<Rightarrow> qstring) \<Rightarrow> nat \<Rightarrow> CoreSupervisorStderrTail \<Rightarrow> qstring" where
  "coreSupervisorStderrCause fromUtf8 gen tail =
     (if tail_gen tail \<noteq> gen then []
      else let tail1 = (if tail_partial tail \<noteq> []
                        then coreSupervisorNoteStderrLine fromUtf8 (tail_partial tail) (tail\<lparr>tail_partial := []\<rparr>) else tail)
           in if tail_panic tail1 = [] then tail_last tail1 else tail_panic tail1)"

subsection \<open>The event loop\<close>

text \<open>The settings change through the kill switch's state; \<open>prepare_exit\<close> is only ever set. An exit report
  carries a generation the process really had.\<close>

inductive cs_step :: "CoreSup \<Rightarrow> CoreSup \<Rightarrow> bool" where
  cs_listen: "\<not> cs_server cs \<Longrightarrow> cs_state cs = NotStarted \<Longrightarrow> cs_step cs (csListen listening err cs)"
| cs_start: "cs_step cs (csStart p cs)"
| cs_shutdown: "cs_step cs (csShutdown cs)"
| cs_killForExit: "cs_step cs (killForExit cs)"
| cs_reset: "cs_step cs (fst (resetCore cs))"
| cs_notListening: "cs_step cs (fst (restartNotListening p cs))"
| cs_guard: "cs_step cs (restartForGuard cs)"
| cs_privilege: "cs_step cs (killForPrivilegeChange cs)"
| cs_startWhenUp: "cs_step cs (fst (setStartWhenUp p cs))"
| cs_cancel: "cs_step cs (cancelResume cs)"
| cs_connection: "cs_step cs (onNewConnection pidOk cs)"
| cs_probed: "cs_step cs (onPrivilegeProbed gen ok rpc attempt cs)"
| cs_spawned: "gen \<le> cs_generation cs \<Longrightarrow> cs_step cs (onCoreSpawned gen cs)"
| cs_connectTimeout: "cs_connectTimer cs \<noteq> None \<Longrightarrow> cs_step cs (onConnectTimeout cs)"
| cs_exit: "cs_process cs \<Longrightarrow> gen \<le> cs_generation cs
    \<Longrightarrow> cs_step cs (onCoreExited gen failed code (noteCoreError gen line cs))"
| cs_restartTimer: "cs_restartTimer cs \<noteq> None \<Longrightarrow> cs_step cs (postRestart cs)"
| cs_run: "cs_posts cs = p # ps \<Longrightarrow> cs_step cs (runPost p (cs\<lparr>cs_posts := ps\<rparr>))"
| cs_notRunning: "cs_process cs \<Longrightarrow> cs_step cs (coreNotRunning cs)"
| cs_time: "cs_step cs (cs\<lparr>cs_now := cs_now cs + n\<rparr>)"
| cs_started: "cs_step cs (cs\<lparr>cs_startedId := i\<rparr>)"
| cs_killSwitch: "ks_step e (cs_ks cs) ks' \<Longrightarrow> (csPrepareExit cs \<Longrightarrow> prepare_exit (ks_settings ks'))
    \<Longrightarrow> cs_step cs (cs\<lparr>cs_ks := ks'\<rparr>)"

definition demoSettings0 :: KsSettings where
  "demoSettings0 = \<lparr>kill_switch = False, disable_private_range_bypass = False, vpn_tun_ipv4_cidr = [],
     vpn_tun_ipv6_cidr = [], vpn_l3_bridge = False, prepare_exit = False\<rparr>"

definition csCreate :: "bool \<Rightarrow> KsSettings \<Rightarrow> CoreSup" where
  "csCreate gui settings = \<lparr>cs_state = NotStarted, cs_server = False, cs_process = False, cs_generation = 0,
     cs_expectedExitGen = 0, cs_startWhenUp = - 1, cs_probing = False, cs_failures = 0, cs_startFailures = 0,
     cs_lastCoreError = [], cs_lastCoreErrorGen = 0, cs_handledExitGen = 0, cs_acceptedGen = 0, cs_connectGen = 0,
     cs_timedOutGen = 0, cs_connectedAt = None, cs_profileCrash = None, cs_lastFailure = NoReason, cs_restartCount = 0,
     cs_restartTimer = None, cs_connectTimer = None, cs_startedId = NoProfileId, cs_coreRunning = False, cs_now = 0,
     cs_isGui = gui, cs_ks = ksCreate settings, cs_posts = [], cs_signals = []\<rparr>"

definition cs_init :: "CoreSup \<Rightarrow> bool" where
  "cs_init cs \<longleftrightarrow> (\<exists>gui settings. cs = csCreate gui settings)"

subsection \<open>The invariant\<close>

definition gensOk :: "CoreSup \<Rightarrow> bool" where
  "gensOk cs \<longleftrightarrow> cs_handledExitGen cs \<le> cs_generation cs \<and> cs_acceptedGen cs \<le> cs_generation cs
     \<and> cs_timedOutGen cs \<le> cs_generation cs \<and> cs_connectGen cs \<le> cs_generation cs \<and> cs_expectedExitGen cs \<le> cs_generation cs"

definition timersOk :: "CoreSup \<Rightarrow> bool" where
  "timersOk cs \<longleftrightarrow> (cs_state cs = Backoff \<longrightarrow> cs_restartTimer cs \<noteq> None \<or> csPrepareExit cs)
     \<and> (\<forall>d. cs_restartTimer cs = Some d \<longrightarrow> kIntentRestartDelayMs \<le> d \<and> d \<le> kBackoffCapMs)
     \<and> (cs_state cs = ShuttingDown \<longrightarrow> cs_restartTimer cs = None \<and> cs_connectTimer cs = None \<and> \<not> cs_probing cs)"

definition connectedOk :: "CoreSup \<Rightarrow> bool" where
  "connectedOk cs \<longleftrightarrow> (cs_state cs = Connected \<longrightarrow> csPrepareExit cs
     \<or> cs_handledExitGen cs < cs_acceptedGen cs \<and> cs_timedOutGen cs < cs_acceptedGen cs)"

definition neverOk :: "CoreSup \<Rightarrow> bool" where
  "neverOk cs \<longleftrightarrow> (\<not> cs_server cs \<or> cs_state cs = ListenFailed \<longrightarrow> \<not> cs_process cs \<and> PStart \<notin> set (cs_posts cs))"

definition csInv :: "CoreSup \<Rightarrow> bool" where
  "csInv cs \<longleftrightarrow> gensOk cs \<and> timersOk cs \<and> connectedOk cs \<and> neverOk cs"

lemmas csInv_defs = csInv_def gensOk_def timersOk_def connectedOk_def neverOk_def csPrepareExit_def

lemmas cs_simple_defs = csListen_def csStart_def csShutdown_def killForExit_def setStartWhenUp_def cancelResume_def
  coreNotRunning_def cs_post_def cs_emit_def

lemmas cs_restart_defs = resetCore_def restartNotListening_def restartForGuard_def restartDeadCore_def
  killForPrivilegeChange_def beginRestart_def postProcessRestart_def currentGeneration_def cs_post_def

lemma listen_inv: "csInv cs \<Longrightarrow> \<not> cs_server cs \<Longrightarrow> csInv (csListen l e cs)"
  by (auto simp: csInv_defs cs_simple_defs Let_def)

lemma start_inv: "csInv cs \<Longrightarrow> csInv (csStart p cs)"
  by (auto simp: csInv_defs cs_simple_defs)

lemma shutdowns_inv: "csInv cs \<Longrightarrow> csInv (csShutdown cs)" "csInv cs \<Longrightarrow> csInv (killForExit cs)"
  by (auto simp: csInv_defs cs_simple_defs)

lemma beginRestart_inv: "csInv cs \<Longrightarrow> canStartCore cs \<Longrightarrow> csInv (beginRestart cs)"
  by (auto simp: csInv_defs beginRestart_def canStartCore_def)

lemma postProcessRestart_inv: "csInv cs \<Longrightarrow> cs_state cs = Starting \<Longrightarrow> csInv (postProcessRestart cs)"
  by (auto simp: csInv_defs postProcessRestart_def cs_post_def currentGeneration_def)

lemma startWhenUp_inv:
  "csInv (cs\<lparr>cs_startWhenUp := p\<rparr>) = csInv cs" "csInv (cs\<lparr>cs_startedId := i\<rparr>) = csInv cs" "csInv (cs\<lparr>cs_now := n\<rparr>) = csInv cs"
  "csInv (coreNotRunning cs) = csInv cs"
  by (simp_all add: csInv_defs coreNotRunning_def)

lemma post_inv: "p \<noteq> PStart \<Longrightarrow> csInv (cs_post p cs) = csInv cs"
  by (auto simp: csInv_defs cs_post_def)

lemma beginRestart_state [simp]: "cs_state (beginRestart cs) = Starting"
  by (simp add: beginRestart_def)

lemma dead_canStart: "cs_state cs = Backoff \<or> cs_state cs = GaveUp \<Longrightarrow> canStartCore cs"
  by (auto simp: canStartCore_def)

lemma restarts_inv:
  assumes "csInv cs"
  shows "csInv (fst (resetCore cs))" "csInv (fst (restartNotListening p cs))" "csInv (restartForGuard cs)"
    "csInv (restartDeadCore p cs)" "csInv (killForPrivilegeChange cs)"
proof -
  show dead: "csInv (restartDeadCore p cs)" for p
    using assms by (auto simp: restartDeadCore_def dead_canStart intro!: postProcessRestart_inv
        simp: startWhenUp_inv beginRestart_inv)
  show "csInv (fst (resetCore cs))" "csInv (fst (restartNotListening p cs))" "csInv (restartForGuard cs)"
    "csInv (killForPrivilegeChange cs)"
    using assms dead
    by (auto simp: resetCore_def restartNotListening_def restartForGuard_def killForPrivilegeChange_def Let_def
        post_inv beginRestart_inv startWhenUp_inv intro!: postProcessRestart_inv)
qed

lemma connection_inv: "csInv cs \<Longrightarrow> csInv (onNewConnection pidOk cs)"
  by (auto simp: csInv_defs onNewConnection_def Let_def cs_emit_def currentGeneration_def exiting_def)

lemma probed_inv: "csInv cs \<Longrightarrow> csInv (onPrivilegeProbed gen ok rpc attempt cs)"
  by (auto simp: csInv_defs onPrivilegeProbed_def emitCoreStarted_def cs_emit_def)

lemma spawned_inv: "csInv cs \<Longrightarrow> gen \<le> cs_generation cs \<Longrightarrow> csInv (onCoreSpawned gen cs)"
  by (auto simp: csInv_defs onCoreSpawned_def)

lemma connectTimeout_inv: "csInv cs \<Longrightarrow> csInv (onConnectTimeout cs)"
  by (auto simp: csInv_defs onConnectTimeout_def Let_def cs_post_def currentGeneration_def)

lemma noteCoreError_inv: "csInv cs \<Longrightarrow> csInv (noteCoreError gen line cs)"
  by (auto simp: csInv_defs noteCoreError_def)

lemma postRestart_inv: "csInv cs \<Longrightarrow> csInv (postRestart cs)"
  by (auto simp: csInv_defs postRestart_def Let_def postProcessRestart_def cs_post_def currentGeneration_def exiting_def)

lemma runPost_inv: "csInv cs \<Longrightarrow> cs_posts cs = p # ps \<Longrightarrow> csInv (runPost p (cs\<lparr>cs_posts := ps\<rparr>))"
  by (cases p) (auto simp: csInv_defs runPost_def)

lemma killSwitch_inv:
  "csInv cs \<Longrightarrow> (csPrepareExit cs \<Longrightarrow> prepare_exit (ks_settings ks')) \<Longrightarrow> csInv (cs\<lparr>cs_ks := ks'\<rparr>)"
  by (auto simp: csInv_defs)

subsection \<open>The exit of a core\<close>

lemma backoffDelay_bounds: "kBackoffFirstMs \<le> backoffDelay n \<and> backoffDelay n \<le> kBackoffCapMs"
proof -
  have "(1::nat) \<le> 2 ^ min (n - 1) 6" by simp
  then have "500 \<le> push_bit (min (n - 1) 6) (500 :: nat)" unfolding push_bit_eq_mult by simp
  then show ?thesis unfolding backoffDelay_def kBackoffFirstMs_def kBackoffCapMs_def by simp
qed

lemma backoffDelay_mono: "m \<le> n \<Longrightarrow> backoffDelay m \<le> backoffDelay n"
proof -
  assume "m \<le> n"
  then have "(2::nat) ^ min (m - 1) 6 \<le> 2 ^ min (n - 1) 6" by (intro power_increasing) auto
  then show ?thesis unfolding backoffDelay_def push_bit_eq_mult by (intro min.mono mult_le_mono2) simp_all
qed

lemma ks_helpers_settings [simp]:
  "ks_settings (updGuard g f ks) = ks_settings ks" "ks_settings (closeGuard p ks) = ks_settings ks"
  "ks_settings (settle ks) = ks_settings ks" "ks_settings (setState st ks) = ks_settings ks"
  by (simp_all add: updGuard_def closeGuard_def settle_def setState_def Let_def split: option.split)

lemma ks_handlers_settings [simp]:
  "ks_settings (fail c m ks) = ks_settings ks" "ks_settings (failIdentity ks) = ks_settings ks"
  "ks_settings (dropPending ks) = ks_settings ks" "ks_settings (dropActive ks) = ks_settings ks"
  by (simp_all add: fail_def failIdentity_def dropPending_def dropActive_def Let_def)

lemma applyKs_settings: "ks_settings (applyKs ks) = ks_settings ks"
  by (simp add: applyKs_def applyOff_def applyOverridden_def spawn_def Let_def)

text \<open>What the phases of an exit leave alone.\<close>

lemma profileCrash_fields:
  "profileCrash w cs = (cs', b) \<Longrightarrow> \<exists>t. cs' = cs\<lparr>cs_profileCrash := t\<rparr>"
  by (cases "cs_profileCrash cs") (auto simp: profileCrash_def intro: exI [of _ "cs_profileCrash cs"] split: if_splits)

lemma exitUnexpected_cases:
  obtains (gaveUp) cs2 where "exitUnexpected gen w cs = giveUp gen w cs2" "shouldGiveUp w cs2"
      "cs_failures cs2 = cs_failures (exitCount w cs)" "cs_startFailures cs2 = cs_startFailures (exitCount w cs)"
      "cs_handledExitGen cs2 = cs_handledExitGen cs" "cs_ks cs2 = cs_ks cs" "cs_restartTimer cs2 = cs_restartTimer cs"
      "cs2 = cs\<lparr>cs_failures := cs_failures cs2, cs_startFailures := cs_startFailures cs2, cs_profileCrash := cs_profileCrash cs2,
         cs_startWhenUp := cs_startWhenUp cs2, cs_startedId := cs_startedId cs2, cs_signals := cs_signals cs2\<rparr>"
  | (restart) cs2 where "exitUnexpected gen w cs = scheduleRestart (backoffDelay (cs_failures cs2)) cs2"
      "\<not> shouldGiveUp w cs2" "cs_failures cs2 = cs_failures (exitCount w cs)"
      "cs_startFailures cs2 = cs_startFailures (exitCount w cs)"
      "cs_handledExitGen cs2 = cs_handledExitGen cs" "cs_ks cs2 = cs_ks cs" "cs_restartTimer cs2 = cs_restartTimer cs"
      "cs2 = cs\<lparr>cs_failures := cs_failures cs2, cs_startFailures := cs_startFailures cs2, cs_profileCrash := cs_profileCrash cs2,
         cs_startWhenUp := cs_startWhenUp cs2, cs_startedId := cs_startedId cs2, cs_signals := cs_signals cs2\<rparr>"
proof -
  obtain cs1 b where pc: "profileCrash w (exitCount w cs) = (cs1, b)" by (cases "profileCrash w (exitCount w cs)")
  define cs2 where "cs2 = cs_emit (SCoreExited w) (exitResume w b cs1)"
  obtain t where cs1: "cs1 = (exitCount w cs)\<lparr>cs_profileCrash := t\<rparr>" using profileCrash_fields [OF pc] by blast
  have f: "cs_failures cs2 = cs_failures (exitCount w cs)" "cs_startFailures cs2 = cs_startFailures (exitCount w cs)"
    "cs_handledExitGen cs2 = cs_handledExitGen cs" "cs_ks cs2 = cs_ks cs" "cs_restartTimer cs2 = cs_restartTimer cs"
    "cs2 = cs\<lparr>cs_failures := cs_failures cs2, cs_startFailures := cs_startFailures cs2, cs_profileCrash := cs_profileCrash cs2,
         cs_startWhenUp := cs_startWhenUp cs2, cs_startedId := cs_startedId cs2, cs_signals := cs_signals cs2\<rparr>"
    unfolding cs2_def cs1 by (simp_all add: cs_emit_def exitResume_def exitCount_def Let_def)
  have eq: "exitUnexpected gen w cs = (if shouldGiveUp w cs2 then giveUp gen w cs2
      else scheduleRestart (backoffDelay (cs_failures cs2)) cs2)"
    by (simp add: exitUnexpected_def pc cs2_def Let_def)
  show thesis using gaveUp restart f eq by (cases "shouldGiveUp w cs2") auto
qed

definition exitBase :: "CoreSup \<Rightarrow> bool" where
  "exitBase cs \<longleftrightarrow> gensOk cs \<and> neverOk cs
     \<and> (\<forall>d. cs_restartTimer cs = Some d \<longrightarrow> kIntentRestartDelayMs \<le> d \<and> d \<le> kBackoffCapMs)"

lemma scheduleRestart_inv:
  "exitBase cs \<Longrightarrow> kIntentRestartDelayMs \<le> d \<Longrightarrow> d \<le> kBackoffCapMs \<Longrightarrow> csInv (scheduleRestart d cs)"
  by (auto simp: exitBase_def csInv_defs scheduleRestart_def)

lemma giveUp_inv: "exitBase cs \<Longrightarrow> csInv (giveUp gen w cs)"
  by (auto simp: exitBase_def csInv_defs giveUp_def Let_def cs_emit_def)

lemma exitBase_cong:
  "exitBase (cs\<lparr>cs_failures := a, cs_startFailures := b, cs_profileCrash := c, cs_startWhenUp := d, cs_startedId := e,
     cs_signals := f\<rparr>) = exitBase cs"
  by (simp add: exitBase_def gensOk_def neverOk_def)

lemma exitUnexpected_inv: "exitBase cs \<Longrightarrow> csInv (exitUnexpected gen w cs)"
proof (cases rule: exitUnexpected_cases [of gen w cs])
  case (gaveUp cs2)
  assume "exitBase cs"
  then have "exitBase cs2" by (subst gaveUp(8)) (simp add: exitBase_cong)
  then show ?thesis using gaveUp(1) giveUp_inv by simp
next
  case (restart cs2)
  assume "exitBase cs"
  then have "exitBase cs2" by (subst restart(8)) (simp add: exitBase_cong)
  moreover have "kIntentRestartDelayMs \<le> backoffDelay (cs_failures cs2)" "backoffDelay (cs_failures cs2) \<le> kBackoffCapMs"
    using backoffDelay_bounds [of "cs_failures cs2"] by (simp_all add: cs_constants)
  ultimately show ?thesis using restart(1) scheduleRestart_inv by simp
qed

lemma exitExpected_inv: "exitBase cs \<Longrightarrow> csInv (exitExpected w cs)"
  unfolding exitExpected_def Let_def
  by (rule scheduleRestart_inv) (auto simp: exitBase_def gensOk_def neverOk_def cs_constants)

lemma exitIdentity_inv: "exitBase cs \<Longrightarrow> csInv (exitIdentity gen cs)"
  unfolding exitIdentity_def Let_def
  by (rule scheduleRestart_inv) (auto simp: exitBase_def gensOk_def neverOk_def cs_constants)

lemma exit_inv:
  assumes "csInv cs" "gen \<le> cs_generation cs"
  shows "csInv (onCoreExited gen failed code cs)"
proof -
  define probing where "probing = (cs_probing cs \<and> gen = cs_acceptedGen cs)"
  define cs1 where "cs1 = cs\<lparr>cs_handledExitGen := gen, cs_probing := (if probing then False else cs_probing cs)\<rparr>"
  have "csInv cs1" if "exiting cs1" using assms that by (auto simp: csInv_defs cs1_def exiting_def)
  moreover have "exitBase (cs1\<lparr>cs_connectTimer := None\<rparr>)" using assms by (auto simp: exitBase_def csInv_defs cs1_def)
  ultimately show ?thesis using assms(1) exitUnexpected_inv exitExpected_inv exitIdentity_inv
    by (simp add: onCoreExited_def probing_def [symmetric] cs1_def [symmetric] Let_def)
qed

lemma cs_step_inv: "cs_step cs cs' \<Longrightarrow> csInv cs \<Longrightarrow> csInv cs'"
proof (induction rule: cs_step.induct)
  case (cs_exit cs gen failed code line)
  have "cs_generation (noteCoreError gen line cs) = cs_generation cs" by (simp add: noteCoreError_def)
  with cs_exit show ?case using noteCoreError_inv exit_inv by simp
next
  case (cs_cancel cs)
  then show ?case by (simp add: csInv_defs cancelResume_def cs_emit_def)
next
  case (cs_startWhenUp cs p)
  then show ?case by (simp add: setStartWhenUp_def startWhenUp_inv)
qed (auto simp: listen_inv start_inv shutdowns_inv restarts_inv connection_inv probed_inv spawned_inv connectTimeout_inv
    postRestart_inv runPost_inv startWhenUp_inv killSwitch_inv)

lemma cs_init_inv: "cs_init cs \<Longrightarrow> csInv cs"
  by (auto simp: cs_init_def csCreate_def csInv_defs)

interpretation coreSupervisor: transition_system cs_init cs_step csInv
  by unfold_locales (auto intro: cs_init_inv cs_step_inv)

abbreviation csReachable :: "CoreSup \<Rightarrow> bool" where
  "csReachable cs \<equiv> \<exists>cs0. cs_init cs0 \<and> cs_step\<^sup>*\<^sup>* cs0 cs"

lemma cs_reachable_inv: "csReachable cs \<Longrightarrow> csInv cs"
  using coreSupervisor.inv_reachable by blast

subsection \<open>Properties of the supervisor\<close>

lemma onCoreExited_handled: "gen \<le> cs_handledExitGen (onCoreExited gen f c cs)"
proof -
  have "cs_handledExitGen (exitUnexpected gen w t) = cs_handledExitGen t" for w t
    by (cases rule: exitUnexpected_cases [of gen w t])
      (simp_all add: giveUp_def Let_def cs_emit_def scheduleRestart_def)
  then show ?thesis
    by (simp add: onCoreExited_def Let_def exitExpected_def exitIdentity_def scheduleRestart_def)
qed

text \<open>An exit counts once. \<open>stateChanged\<close> and \<open>errorOccurred\<close> can both report the same exit, in either
  order and with different details; the second report changes nothing.\<close>

theorem exit_handled_once:
  "onCoreExited gen f2 c2 (onCoreExited gen f1 c1 cs) = onCoreExited gen f1 c1 cs"
  using onCoreExited_handled [of gen f1 c1 cs] by (simp add: onCoreExited_def [of gen f2 c2])

text \<open>C4: what an unexpected exit leads to. The failures are counted (from zero again after a minute of
  stable connection), and either the supervisor gives up, which takes five failures and drops the
  waiting profile, or the core is restarted after the back-off delay for that count. Five cores in a
  row that never connected always end in giving up.\<close>

theorem unexpected_exit_outcome:
  assumes "cs_handledExitGen cs < gen" "\<not> exiting cs" "cs_expectedExitGen cs \<noteq> gen"
    and "connected = (\<not> failed \<and> gen = cs_acceptedGen cs \<and> \<not> cs_probing cs)"
    and "connected \<or> code \<noteq> kCoreIdentityExitCode \<or> ks_identityUnsupported (cs_ks cs)"
    and "longLived = (connected \<and> (case cs_connectedAt cs of None \<Rightarrow> False | Some t \<Rightarrow> 60000 \<le> cs_now cs - t))"
    and "t = onCoreExited gen failed code cs"
  shows "cs_failures t = Suc (if longLived then 0 else cs_failures cs)
    \<and> cs_startFailures t = (if connected then cs_startFailures cs else Suc (cs_startFailures cs))
    \<and> (cs_state t = GaveUp \<and> (5 \<le> cs_failures t \<or> 5 \<le> cs_startFailures t) \<and> cs_startWhenUp t = - 1 \<and> cs_startedId t = NoProfileId
       \<or> cs_state t = Backoff \<and> cs_restartTimer t = Some (backoffDelay (cs_failures t))
         \<and> (connected \<or> cs_startFailures t < 5))"
proof -
  define cs2 where "cs2 = cs\<lparr>cs_handledExitGen := gen, cs_probing := (if cs_probing cs \<and> gen = cs_acceptedGen cs then False
    else cs_probing cs), cs_connectTimer := None\<rparr>"
  have w: "(\<not> failed \<and> gen = cs_acceptedGen cs \<and> \<not> (cs_probing cs \<and> gen = cs_acceptedGen cs)) = connected"
    using assms(4) by blast
  have t: "t = exitUnexpected gen connected cs2"
    unfolding assms(7) using assms(1-3,5) w by (auto simp: onCoreExited_def Let_def cs2_def exiting_def csPrepareExit_def)
  have st: "(connected \<and> (case cs_connectedAt cs2 of None \<Rightarrow> False | Some t \<Rightarrow> kStableMs \<le> cs_now cs2 - t)) = longLived"
    unfolding assms(6) by (simp add: cs2_def kStableMs_def split: option.split)
  have cnt: "cs_failures (exitCount connected cs2) = Suc (if longLived then 0 else cs_failures cs)"
    "cs_startFailures (exitCount connected cs2) = (if connected then cs_startFailures cs else Suc (cs_startFailures cs))"
    unfolding exitCount_def Let_def st by (simp_all add: cs2_def)
  show ?thesis
  proof (cases rule: exitUnexpected_cases [of gen connected cs2])
    case (gaveUp u)
    then show ?thesis unfolding t using cnt
      by (auto simp: giveUp_def Let_def cs_emit_def shouldGiveUp_def kGiveUpAfter_def)
  next
    case (restart u)
    then show ?thesis unfolding t using cnt
      by (auto simp: scheduleRestart_def shouldGiveUp_def kGiveUpAfter_def)
  qed
qed

text \<open>A run into back-off: listen, start, the start task runs, the first core exits.\<close>

definition demoCore1 :: CoreSup where
  "demoCore1 = csStart 7 (csListen True [] (csCreate False demoSettings0))"

definition demoCore2 :: CoreSup where
  "demoCore2 = runPost PStart (demoCore1\<lparr>cs_posts := []\<rparr>)"

definition demoCore3 :: CoreSup where
  "demoCore3 = onCoreExited 1 False 1 (noteCoreError 1 [] demoCore2)"

lemma csReachable_step: "csReachable cs \<Longrightarrow> cs_step cs cs' \<Longrightarrow> csReachable cs'"
  by (meson rtranclp.rtrancl_into_rtrancl)

lemma csReachable_init: "csReachable (csCreate g s)"
  by (auto simp: cs_init_def)

lemmas demoCore_defs = demoCore1_def demoCore2_def demoCore3_def csCreate_def csListen_def csStart_def cs_post_def
  runPost_def noteCoreError_def demoSettings0_def

lemma demoCore1_reachable: "csReachable demoCore1"
proof -
  have c: "\<not> cs_server (csCreate False demoSettings0)" "cs_state (csCreate False demoSettings0) = NotStarted"
    by (simp_all add: csCreate_def)
  show ?thesis unfolding demoCore1_def
    by (rule csReachable_step [OF csReachable_step [OF csReachable_init cs_listen [OF c]] cs_start])
qed

lemma demoCore2_reachable: "csReachable demoCore2"
proof -
  have "cs_posts demoCore1 = [PStart]" by (simp add: demoCore_defs)
  with demoCore1_reachable show ?thesis unfolding demoCore2_def by (rule csReachable_step [OF _ cs_run])
qed

lemma demoCore3_reachable: "csReachable demoCore3"
  unfolding demoCore3_def
  by (rule csReachable_step [OF demoCore2_reachable cs_exit]) (simp_all add: demoCore_defs)

lemma demoCore3_state: "cs_state demoCore3 = Backoff" "\<not> csPrepareExit demoCore3"
  by (simp_all add: demoCore3_def demoCore2_def demoCore1_def csCreate_def csListen_def csStart_def cs_post_def runPost_def
      noteCoreError_def demoSettings0_def onCoreExited_def exiting_def csPrepareExit_def ksCreate_def Let_def
      exitUnexpected_def profileCrash_def exitCount_def exitResume_def cs_emit_def shouldGiveUp_def kGiveUpAfter_def
      scheduleRestart_def kCoreIdentityExitCode_def)

definition demoUp :: CoreSup where
  "demoUp = (csCreate False demoSettings0)\<lparr>cs_server := True, cs_process := True, cs_generation := 3, cs_state := Starting,
     cs_handledExitGen := 2, cs_acceptedGen := 1, cs_failures := 2, cs_startFailures := 2\<rparr>"

theorem unexpected_exit_outcome_witness:
  "cs_state (onCoreExited 3 True (- 1) demoUp) = Backoff \<and> cs_restartTimer (onCoreExited 3 True (- 1) demoUp) = Some 2000"
proof -
  have "cs_handledExitGen demoUp < 3" "\<not> exiting demoUp" "cs_expectedExitGen demoUp \<noteq> 3"
    by (simp_all add: demoUp_def csCreate_def exiting_def csPrepareExit_def ksCreate_def demoSettings0_def)
  from unexpected_exit_outcome [OF this, of False True "- 1" False "onCoreExited 3 True (- 1) demoUp"]
  show ?thesis
    by (auto simp: demoUp_def csCreate_def kCoreIdentityExitCode_def backoffDelay_def kBackoffFirstMs_def kBackoffCapMs_def
        push_bit_eq_mult)
qed

text \<open>C5: the supervisor does not get stuck in back-off, and what it calls connected is connected. In every
  reachable state, as long as the program is not about to exit: in back-off a restart timer of 200 ms to
  30 s is running, and when it fires the state is Starting and a restart of the core is posted; and a
  connected core has a generation whose exit was not handled and which did not time out.\<close>

theorem supervisor_progress:
  assumes "csReachable cs" "\<not> csPrepareExit cs"
  shows "(cs_state cs = Backoff \<longrightarrow> (\<exists>d. cs_restartTimer cs = Some d \<and> 200 \<le> d \<and> d \<le> 30000)
      \<and> cs_state (postRestart cs) = Starting \<and> cs_posts (postRestart cs) = cs_posts cs @ [PRestart])
    \<and> (cs_state cs = Connected \<longrightarrow> cs_handledExitGen cs < cs_acceptedGen cs \<and> cs_timedOutGen cs < cs_acceptedGen cs
      \<and> cs_acceptedGen cs \<le> cs_generation cs)"
proof -
  have "csInv cs" using cs_reachable_inv [OF assms(1)] .
  then show ?thesis using assms(2)
    by (auto simp: csInv_def gensOk_def timersOk_def connectedOk_def kIntentRestartDelayMs_def kBackoffCapMs_def
        postRestart_def postProcessRestart_def cs_post_def exiting_def csPrepareExit_def Let_def)
qed

theorem supervisor_progress_witness:
  "cs_state demoCore3 = Backoff \<and> (\<exists>d. cs_restartTimer demoCore3 = Some d \<and> 200 \<le> d \<and> d \<le> 30000)
     \<and> cs_state (postRestart demoCore3) = Starting"
  using supervisor_progress [OF demoCore3_reachable demoCore3_state(2)] demoCore3_state(1) by blast

lemma exiting_exit: "exiting cs \<Longrightarrow> cs_state (onCoreExited gen f c cs) = cs_state cs
    \<and> cs_restartCount (onCoreExited gen f c cs) = cs_restartCount cs \<and> cs_posts (onCoreExited gen f c cs) = cs_posts cs
    \<and> cs_generation (onCoreExited gen f c cs) = cs_generation cs \<and> cs_process (onCoreExited gen f c cs) = cs_process cs"
  by (auto simp: onCoreExited_def Let_def exiting_def csPrepareExit_def)

text \<open>The tasks that bring a core up, and that each of them in the queue has the kill task behind it.\<close>

definition startsCore :: "Post \<Rightarrow> bool" where
  "startsCore p \<longleftrightarrow> p = PStart \<or> p = PRestart"

definition queuedStarts :: "CoreSup \<Rightarrow> nat" where
  "queuedStarts cs = length (filter startsCore (cs_posts cs))"

fun killFollows :: "Post list \<Rightarrow> bool" where
  "killFollows [] \<longleftrightarrow> True"
| "killFollows (p # ps) \<longleftrightarrow> (startsCore p \<longrightarrow> PExitKill \<in> set ps) \<and> killFollows ps"

lemma killFollows_append_kill: "killFollows (ps @ [PExitKill])"
  by (induction ps) (simp_all add: startsCore_def)

lemma killFollows_split: "killFollows (pre @ p # post) \<Longrightarrow> startsCore p \<Longrightarrow> PExitKill \<in> set post"
  by (induction pre) auto

lemma exit_leaves_shutting:
  "cs_state (onCoreExited gen f c cs) = ShuttingDown \<Longrightarrow> cs_state cs = ShuttingDown"
proof -
  have "cs_state (exitUnexpected gen w t) \<noteq> ShuttingDown" for w t
    by (cases rule: exitUnexpected_cases [of gen w t]) (simp_all add: giveUp_def Let_def cs_emit_def scheduleRestart_def)
  then show "cs_state (onCoreExited gen f c cs) = ShuttingDown \<Longrightarrow> cs_state cs = ShuttingDown"
    by (auto simp: onCoreExited_def Let_def exitExpected_def exitIdentity_def scheduleRestart_def split: if_splits)
qed

text \<open>One event of a supervisor that is shutting down: the state stays, only kill tasks are added to the queue, and the process changes
  only by running a task that starts a core.\<close>

definition shuttingStep :: "CoreSup \<Rightarrow> CoreSup \<Rightarrow> bool" where
  "shuttingStep cs cs' \<longleftrightarrow> cs_state cs' = ShuttingDown \<and> cs_restartCount cs' = cs_restartCount cs
     \<and> ((cs_posts cs' = cs_posts cs \<or> cs_posts cs' = cs_posts cs @ [PExitKill])
          \<and> cs_generation cs' = cs_generation cs \<and> cs_process cs' = cs_process cs
        \<or> (\<exists>p. cs_posts cs = p # cs_posts cs'
             \<and> (cs_generation cs' = cs_generation cs \<and> cs_process cs' = cs_process cs
                \<or> cs_generation cs' = Suc (cs_generation cs) \<and> (p = PStart \<or> p = PRestart \<and> \<not> csPrepareExit cs \<and> cs_process cs' = cs_process cs))))"

lemma shutting_step:
  assumes "cs_step cs cs'" "cs_state cs = ShuttingDown"
  shows "shuttingStep cs cs'"
  using assms
proof (induction rule: cs_step.induct)
  case (cs_exit cs gen failed code line)
  have n: "cs_state (noteCoreError gen line cs) = cs_state cs" "cs_restartCount (noteCoreError gen line cs) = cs_restartCount cs"
    "cs_posts (noteCoreError gen line cs) = cs_posts cs" "cs_generation (noteCoreError gen line cs) = cs_generation cs"
    "cs_process (noteCoreError gen line cs) = cs_process cs" by (simp_all add: noteCoreError_def)
  then have "exiting (noteCoreError gen line cs)" using cs_exit by (simp add: exiting_def)
  then show ?case using exiting_exit [of "noteCoreError gen line cs" gen failed code] n cs_exit by (simp add: shuttingStep_def)
next
  case (cs_run cs p ps)
  then show ?case by (cases p) (simp_all add: runPost_def shuttingStep_def csPrepareExit_def)
qed (auto simp: shuttingStep_def cs_simple_defs resetCore_def restartNotListening_def restartForGuard_def killForPrivilegeChange_def
    canStartCore_def onNewConnection_def Let_def exiting_def onPrivilegeProbed_def onCoreSpawned_def onConnectTimeout_def
    postRestart_def)

lemma enters_shutting:
  assumes "cs_step cs cs'" "cs_state cs' = ShuttingDown" "cs_state cs \<noteq> ShuttingDown"
  shows "killFollows (cs_posts cs')"
  using assms
proof (induction rule: cs_step.induct)
  case (cs_exit cs gen failed code line)
  then show ?case using exit_leaves_shutting [of gen failed code "noteCoreError gen line cs"] by (simp add: noteCoreError_def split: if_splits)
next
  case (cs_run cs p ps)
  then show ?case by (cases p) (simp_all add: runPost_def split: if_splits)
qed (auto simp: cs_simple_defs killFollows_append_kill cs_restart_defs onNewConnection_def Let_def onPrivilegeProbed_def emitCoreStarted_def onCoreSpawned_def
    onConnectTimeout_def postRestart_def split: if_splits)

lemma killFollows_reachable: "csReachable cs \<Longrightarrow> cs_state cs = ShuttingDown \<Longrightarrow> killFollows (cs_posts cs)"
proof -
  have "cs_step\<^sup>*\<^sup>* a b \<Longrightarrow> cs_init a \<Longrightarrow> cs_state b = ShuttingDown \<Longrightarrow> killFollows (cs_posts b)" for a b
  proof (induction rule: rtranclp_induct)
    case base
    then show ?case by (auto simp: cs_init_def csCreate_def)
  next
    case (step y z)
    show ?case
    proof (cases "cs_state y = ShuttingDown")
      case True
      then show ?thesis using step shutting_step [OF step.hyps(2)] by (auto simp: shuttingStep_def killFollows_append_kill)
    next
      case False
      then show ?thesis using enters_shutting [OF step.hyps(2)] step.prems by blast
    qed
  qed
  then show "csReachable cs \<Longrightarrow> cs_state cs = ShuttingDown \<Longrightarrow> killFollows (cs_posts cs)" by blast
qed

lemma shuttingStep_starts:
  assumes "shuttingStep cs cs'"
  shows "cs_generation cs' + queuedStarts cs' \<le> cs_generation cs + queuedStarts cs"
    "set (cs_posts cs') \<subseteq> insert PExitKill (set (cs_posts cs))"
    "csPrepareExit cs \<Longrightarrow> PStart \<notin> set (cs_posts cs) \<Longrightarrow> cs_generation cs' = cs_generation cs \<and> cs_process cs' = cs_process cs"
  using assms by (auto simp: shuttingStep_def queuedStarts_def startsCore_def)

text \<open>The exit flag is never taken back.\<close>

lemma exit_ks: "cs_ks (onCoreExited gen f c cs) = cs_ks cs \<or> (\<not> exiting cs \<and> (\<exists>d. cs_ks (onCoreExited gen f c cs) = noteIdentityUnsupported d (cs_ks cs)))"
proof -
  have "cs_ks (exitUnexpected gen w t) = cs_ks t" for w t
    by (cases rule: exitUnexpected_cases [of gen w t]) (simp_all add: giveUp_def Let_def cs_emit_def scheduleRestart_def)
  then show ?thesis
    by (auto simp: onCoreExited_def Let_def exitExpected_def exitIdentity_def scheduleRestart_def exiting_def csPrepareExit_def)
qed

lemma note_ks [simp]: "cs_ks (noteCoreError gen line cs) = cs_ks cs" "exiting (noteCoreError gen line cs) = exiting cs"
  by (simp_all add: noteCoreError_def exiting_def csPrepareExit_def)

lemma prepare_exit_kept: "cs_step cs cs' \<Longrightarrow> csPrepareExit cs \<Longrightarrow> csPrepareExit cs'"
proof (induction rule: cs_step.induct)
  case (cs_exit cs gen failed code line)
  then have "exiting (noteCoreError gen line cs)" by (simp add: exiting_def [of cs])
  then show ?case using cs_exit exit_ks [of gen failed code "noteCoreError gen line cs"] by (simp add: csPrepareExit_def)
next
  case (cs_run cs p ps)
  then show ?case by (cases p) (auto simp: runPost_def csPrepareExit_def)
qed (auto simp: csPrepareExit_def cs_simple_defs cs_restart_defs onNewConnection_def emitCoreStarted_def onPrivilegeProbed_def onCoreSpawned_def
    onConnectTimeout_def postRestart_def canStartCore_def Let_def split: option.splits)

definition shutFrom :: "CoreSup \<Rightarrow> CoreSup \<Rightarrow> bool" where
  "shutFrom cs cs' \<longleftrightarrow> cs_state cs' = ShuttingDown \<and> cs_restartCount cs' = cs_restartCount cs
     \<and> cs_generation cs' + queuedStarts cs' \<le> cs_generation cs + queuedStarts cs
     \<and> set (cs_posts cs') \<subseteq> insert PExitKill (set (cs_posts cs))
     \<and> (csPrepareExit cs \<longrightarrow> csPrepareExit cs' \<and>
          (PStart \<notin> set (cs_posts cs) \<longrightarrow> cs_generation cs' = cs_generation cs \<and> cs_process cs' = cs_process cs))"

lemma shutFrom_steps: "cs_step\<^sup>*\<^sup>* cs cs' \<Longrightarrow> cs_state cs = ShuttingDown \<Longrightarrow> shutFrom cs cs'"
proof (induction rule: rtranclp_induct)
  case base
  then show ?case by (auto simp: shutFrom_def)
next
  case (step y z)
  then have y: "shutFrom cs y" by simp
  then have "shuttingStep y z" using shutting_step [OF step.hyps(2)] by (simp add: shutFrom_def)
  from shuttingStep_starts [OF this] this y prepare_exit_kept [OF step.hyps(2)]
  show ?case by (auto simp: shutFrom_def shuttingStep_def)
qed



text \<open>After a listen failure there is never a core process nor a posted start.\<close>

theorem listen_failure_no_core:
  assumes "csReachable cs" "cs_state cs = ListenFailed"
  shows "\<not> cs_process cs \<and> PStart \<notin> set (cs_posts cs) \<and> csStart p cs = cs \<and> \<not> snd (resetCore cs)"
  using cs_reachable_inv [OF assms(1)] assms(2)
  by (auto simp: csInv_def neverOk_def csStart_def resetCore_def canStartCore_def)

theorem listen_failure_no_core_witness:
  "\<not> cs_process (csListen False [] (csCreate False demoSettings0))
   \<and> PStart \<notin> set (cs_posts (csListen False [] (csCreate False demoSettings0)))"
proof -
  have "\<not> cs_server (csCreate False demoSettings0)" "cs_state (csCreate False demoSettings0) = NotStarted"
    by (simp_all add: csCreate_def)
  from csReachable_step [OF csReachable_init cs_listen [OF this]]
  have "csReachable (csListen False [] (csCreate False demoSettings0))" .
  then show ?thesis using listen_failure_no_core [of "csListen False [] (csCreate False demoSettings0)"]
    by (simp add: csListen_def cs_emit_def)
qed

text \<open>A profile that takes a connected core down twice within ten seconds is not started again: the
  waiting start and the stored profile id are dropped.\<close>

theorem frequent_crash_drops_profile:
  assumes "cs_handledExitGen cs < gen" "\<not> exiting cs" "cs_expectedExitGen cs \<noteq> gen"
    and "gen = cs_acceptedGen cs" "\<not> cs_probing cs" "cs_profileCrash cs = Some s" "cs_now cs - s < 10000" "0 \<le> cs_startedId cs"
  shows "cs_startWhenUp (onCoreExited gen False code cs) = - 1 \<and> cs_startedId (onCoreExited gen False code cs) = NoProfileId
    \<and> cs_profileCrash (onCoreExited gen False code cs) = None"
proof -
  define cs2 where "cs2 = cs\<lparr>cs_handledExitGen := gen, cs_probing := False, cs_connectTimer := None\<rparr>"
  have t: "onCoreExited gen False code cs = exitUnexpected gen True cs2"
    using assms(1-5) by (simp add: onCoreExited_def Let_def cs2_def exiting_def csPrepareExit_def)
  show ?thesis unfolding t using assms(6-8)
    by (simp add: exitUnexpected_def profileCrash_def exitCount_def cs2_def kProfileCrashWindowMs_def exitResume_def
        cs_emit_def giveUp_def scheduleRestart_def Let_def)
qed

theorem frequent_crash_drops_profile_witness:
  "cs_startedId (onCoreExited 3 False 1 (demoUp\<lparr>cs_acceptedGen := 3, cs_state := Connected, cs_profileCrash := Some 0,
     cs_now := 9999, cs_startedId := 4\<rparr>)) = NoProfileId"
proof -
  let ?cs = "demoUp\<lparr>cs_acceptedGen := 3, cs_state := Connected, cs_profileCrash := Some 0, cs_now := 9999, cs_startedId := 4\<rparr>"
  have "cs_handledExitGen ?cs < 3" "\<not> exiting ?cs" "cs_expectedExitGen ?cs \<noteq> 3" "3 = cs_acceptedGen ?cs" "\<not> cs_probing ?cs"
    "cs_profileCrash ?cs = Some 0" "cs_now ?cs - 0 < 10000" "0 \<le> cs_startedId ?cs"
    by (simp_all add: demoUp_def csCreate_def exiting_def csPrepareExit_def ksCreate_def demoSettings0_def)
  from frequent_crash_drops_profile [OF this] show ?thesis by blast
qed

subsection \<open>The cause line does not depend on the chunks\<close>

lemma qsplit_append: "qsplit c (x @ y) = butlast (qsplit c x) @ qsplit c (last (qsplit c x) @ y)"
proof (induction x)
  case (Cons a x)
  obtain p ps where ps: "qsplit c x = p # ps" using qsplit_nonempty [of c x] by (cases "qsplit c x") auto
  obtain q qs' where q: "qsplit c (p @ y) = q # qs'" using qsplit_nonempty [of c "p @ y"] by (cases "qsplit c (p @ y)") auto
  show ?case using Cons ps q by (cases "ps = []") (auto split: list.splits)
qed simp

lemma last_qsplit_idem: "qsplit c (last (qsplit c s)) = [last (qsplit c s)]"
proof (induction s)
  case (Cons a s)
  then show ?case using qsplit_nonempty [of c s] by (cases "qsplit c s") (auto split: if_splits)
qed simp

lemma note_partial:
  "coreSupervisorNoteStderrLine f line (t\<lparr>tail_partial := p\<rparr>) = (coreSupervisorNoteStderrLine f line t)\<lparr>tail_partial := p\<rparr>"
  by (simp add: coreSupervisorNoteStderrLine_def Let_def)

lemma notes_partial:
  "fold (coreSupervisorNoteStderrLine f) ls (t\<lparr>tail_partial := p\<rparr>) = (fold (coreSupervisorNoteStderrLine f) ls t)\<lparr>tail_partial := p\<rparr>"
  by (induction ls arbitrary: t) (simp_all add: note_partial)

lemma note_panic: "tail_panic t \<noteq> [] \<Longrightarrow> coreSupervisorNoteStderrLine f line t = t"
  by (simp add: coreSupervisorNoteStderrLine_def)

lemma notes_panic: "tail_panic t \<noteq> [] \<Longrightarrow> fold (coreSupervisorNoteStderrLine f) ls t = t"
  by (induction ls) (simp_all add: note_panic)

lemma note_gen [simp]: "tail_gen (coreSupervisorNoteStderrLine f line t) = tail_gen t"
  by (simp add: coreSupervisorNoteStderrLine_def Let_def)

lemma notes_gen [simp]: "tail_gen (fold (coreSupervisorNoteStderrLine f) ls t) = tail_gen t"
  by (induction ls arbitrary: t) simp_all

text \<open>The state after some input \<open>x\<close>: either a panic line was found in it, or all its complete lines were
  noted and the rest waits.\<close>

definition tailAfter :: "(nat list \<Rightarrow> qstring) \<Rightarrow> nat \<Rightarrow> nat list \<Rightarrow> CoreSupervisorStderrTail \<Rightarrow> bool" where
  "tailAfter f gen x t \<longleftrightarrow> tail_gen t = gen \<and>
     (let u = fold (coreSupervisorNoteStderrLine f) (butlast (qsplit u_lf x)) (freshTail gen)
      in tail_panic t = tail_panic u \<and> (tail_panic u = [] \<longrightarrow> t = u\<lparr>tail_partial := last (qsplit u_lf x)\<rparr>))"

lemma feed_after:
  assumes "tailAfter f gen x t" "\<forall>seg \<in> set (qsplit u_lf (x @ c)). length seg \<le> kCoreSupervisorStderrLineCap"
  shows "tailAfter f gen (x @ c) (coreSupervisorFeedStderr f gen c t)"
proof -
  define nl where "nl = coreSupervisorNoteStderrLine f"
  define u where "u = fold nl (butlast (qsplit 10 x)) (freshTail gen)"
  have gen: "tail_gen t = gen" and panic: "tail_panic t = tail_panic u"
    and t: "tail_panic u = [] \<Longrightarrow> t = u\<lparr>tail_partial := last (qsplit 10 x)\<rparr>"
    using assms(1) by (auto simp: tailAfter_def Let_def u_def nl_def)
  define parts where "parts = qsplit 10 (last (qsplit 10 x) @ c)"
  have app: "qsplit 10 (x @ c) = butlast (qsplit 10 x) @ parts" unfolding parts_def by (rule qsplit_append)
  have ne: "parts \<noteq> []" by (simp add: parts_def qsplit_nonempty)
  have u2: "fold nl (butlast (qsplit 10 (x @ c))) (freshTail gen) = fold nl (butlast parts) u"
    using ne by (simp add: app butlast_append u_def)
  show ?thesis
  proof (cases "tail_panic u = []")
    case False
    then have "fold nl (butlast parts) u = u" unfolding nl_def by (rule notes_panic)
    with False show ?thesis using gen panic u2
      by (simp add: tailAfter_def Let_def coreSupervisorFeedStderr_def nl_def [symmetric])
  next
    case True
    have cap: "length (last parts) \<le> kCoreSupervisorStderrLineCap" using assms(2) ne by (simp add: app)
    have "coreSupervisorFeedStderr f gen c t = (fold nl (butlast parts) u)\<lparr>tail_partial := last parts\<rparr>"
      using True gen t cap
      by (simp add: coreSupervisorFeedStderr_def Let_def parts_def [symmetric] nl_def [symmetric] not_less [symmetric]
          notes_partial [of f, folded nl_def])
    moreover have "tail_gen (fold nl (butlast parts) u) = gen" by (simp add: nl_def u_def freshTail_def)
    ultimately show ?thesis using u2 ne by (simp add: tailAfter_def Let_def nl_def [symmetric] app)
  qed
qed

lemma last_qsplit_notin: "c \<notin> set (last (qsplit c s))"
proof (induction s)
  case (Cons a s)
  then show ?case using qsplit_nonempty [of c s] by (cases "qsplit c s") (auto split: if_splits)
qed simp

lemma hd_qsplit: "c \<notin> set l \<Longrightarrow> hd (qsplit c (l @ r)) = l @ hd (qsplit c r)"
proof (induction l)
  case (Cons a l)
  then show ?case using qsplit_nonempty [of c "l @ r"] by (cases "qsplit c (l @ r)") auto
qed simp

lemma qsplit_bound_prefix:
  assumes "\<forall>seg \<in> set (qsplit c (a @ b)). length seg \<le> n"
  shows "\<forall>seg \<in> set (qsplit c a). length seg \<le> n"
proof
  fix seg assume "seg \<in> set (qsplit c a)"
  then have "seg \<in> set (butlast (qsplit c a)) \<or> seg = last (qsplit c a)"
    using qsplit_nonempty [of c a] by (cases "qsplit c a" rule: rev_cases) auto
  then show "length seg \<le> n"
  proof
    assume "seg \<in> set (butlast (qsplit c a))"
    then show ?thesis using assms unfolding qsplit_append [of c a b] by simp
  next
    assume seg: "seg = last (qsplit c a)"
    have "hd (qsplit c (seg @ b)) \<in> set (qsplit c (a @ b))"
      using qsplit_nonempty [of c "seg @ b"] unfolding qsplit_append [of c a b] seg by simp
    then have "length (hd (qsplit c (seg @ b))) \<le> n" using assms by blast
    then show ?thesis using hd_qsplit [of c seg b] last_qsplit_notin [of c a] seg by simp
  qed
qed

lemma feeds_after:
  assumes "\<forall>seg \<in> set (qsplit u_lf (x @ concat cs)). length seg \<le> kCoreSupervisorStderrLineCap" "tailAfter f gen x t"
  shows "tailAfter f gen (x @ concat cs) (fold (coreSupervisorFeedStderr f gen) cs t)"
  using assms
proof (induction cs arbitrary: x t)
  case (Cons c cs)
  have "\<forall>seg \<in> set (qsplit u_lf (x @ c)). length seg \<le> kCoreSupervisorStderrLineCap"
    using Cons.prems(1) qsplit_bound_prefix [of u_lf "x @ c" "concat cs"] by simp
  then have "tailAfter f gen (x @ c) (coreSupervisorFeedStderr f gen c t)" using Cons.prems(2) by (intro feed_after)
  then show ?case using Cons.IH [of "x @ c" "coreSupervisorFeedStderr f gen c t"] Cons.prems(1) by simp
qed simp

lemma tailAfter_cause:
  assumes "tailAfter f gen x t" "tailAfter f gen x t'"
  shows "coreSupervisorStderrCause f gen t = coreSupervisorStderrCause f gen t'"
proof (cases "tail_panic t = []")
  case True
  with assms have "t = t'" by (auto simp: tailAfter_def Let_def)
  then show ?thesis by simp
next
  case False
  moreover have "tail_panic t = tail_panic t'" "tail_gen t = tail_gen t'" using assms by (auto simp: tailAfter_def Let_def)
  ultimately show ?thesis by (simp add: coreSupervisorStderrCause_def Let_def note_panic)
qed

text \<open>C28: reading the core's error output in pieces makes no difference. However the output was cut into
  chunks, the reported cause is the one found in the whole output, as long as no line exceeds the 4096
  byte limit.\<close>

theorem stderr_cause_chunks:
  assumes "\<forall>seg \<in> set (qsplit u_lf (concat chunks)). length seg \<le> 4096"
  shows "coreSupervisorStderrCause fromUtf8 gen (fold (coreSupervisorFeedStderr fromUtf8 gen) chunks (freshTail gen))
    = coreSupervisorStderrCause fromUtf8 gen (coreSupervisorFeedStderr fromUtf8 gen (concat chunks) (freshTail gen))"
proof -
  have start: "tailAfter fromUtf8 gen [] (freshTail gen)" by (simp add: tailAfter_def freshTail_def)
  have cap: "\<forall>seg \<in> set (qsplit u_lf ([] @ concat chunks)). length seg \<le> kCoreSupervisorStderrLineCap"
    using assms by (simp add: kCoreSupervisorStderrLineCap_def)
  have "tailAfter fromUtf8 gen ([] @ concat chunks) (fold (coreSupervisorFeedStderr fromUtf8 gen) chunks (freshTail gen))"
    by (rule feeds_after [OF cap start])
  moreover have "tailAfter fromUtf8 gen ([] @ concat chunks) (coreSupervisorFeedStderr fromUtf8 gen (concat chunks) (freshTail gen))"
    by (rule feed_after [OF start cap])
  ultimately show ?thesis by (rule tailAfter_cause)
qed

theorem stderr_cause_chunks_witness:
  "coreSupervisorStderrCause (\<lambda>b. b) 1 (fold (coreSupervisorFeedStderr (\<lambda>b. b) 1) [qs ''pan'', qs ''ic: x'' @ [10], qs ''y''] (freshTail 1))
   = qs ''panic: x''"
proof -
  have four: "(4 :: nat) = Suc 3" by simp
  have stamp: "takeDigits 4 (112 # s) = None" for s unfolding four takeDigits.simps by (simp add: isDigit_def)
  have "coreSupervisorStderrCause (\<lambda>b. b) 1 (coreSupervisorFeedStderr (\<lambda>b. b) 1 (concat [qs ''pan'', qs ''ic: x'' @ [10], qs ''y'']) (freshTail 1))
      = qs ''panic: x''"
    using stamp by (simp add: coreSupervisorFeedStderr_def freshTail_def coreSupervisorNoteStderrLine_def endsWith_def
        startsWith_def removeGoLogStamp_def goLogStamp_def coreSupervisorOneLine_def isControl_def
        simplified_def trimmed_def isSpace_def coreSupervisorIsPanicLine_def qStartsWith_def coreSupervisorStderrCause_def
        kCoreSupervisorErrorMaxChars_def kCoreSupervisorStderrLineCap_def)
  then show ?thesis using stderr_cause_chunks [of "[qs ''pan'', qs ''ic: x'' @ [10], qs ''y'']" "\<lambda>b. b" 1] by simp
qed

end
