(* ===== verification/Exit_Controller.thy ===== *)
theory Exit_Controller
  imports Core_Supervisor Kill_Switch_Safety
begin

text \<open>
  The shutdown both front ends share, \<^verbatim>\<open>src/src/engine/app/ExitController.cpp\<close> and its header. Its state holds the core supervisor, which holds the
  kill switch, and the settings it persists. What it asks of parts that are not modelled (the remote interface, the system proxy, the scans,
  the connection, the signals to the window, the database) is recorded as a list of actions in the order the code performs them. Its three waits
  run nested event loops, in which anything may happen to the whole program (\<open>ec_step\<close>): events of the supervisor and of the kill switch, further
  requests to exit, the shutdown entered again, settings changed and saved. \<open>pump\<close> is what happens during a wait, any sequence of such events;
  the wait for the core also has the tasks run that were queued before it (\<open>ec_waited\<close>).

  Results, used by the root theory: every step of the supervisor is a step of the kill switch or leaves it alone (\<open>cs_step_ks\<close>), no event adds an
  action of the teardown or a save after saving was switched off (\<open>ec_steps_quiet\<close>), what the teardown did (\<open>shutdown_actions\<close>), that no start of a
  core is queued after it (\<open>shutdown_down\<close>), and that every later event keeps it so (\<open>down_steps\<close>).
\<close>

datatype ExitReason = ExitNone | RunUpdater | ExitRestart | RestartWithTun | RestartElevated

record ShutdownOptions =
  stopRpcTimeoutMs :: int
  stopTests :: bool
  clearSystemProxy :: bool
  coreKillWaitMs :: int
  persistModes :: bool

definition defaultOptions :: ShutdownOptions where
  "defaultOptions = \<lparr>stopRpcTimeoutMs = 0, stopTests = True, clearSystemProxy = True, coreKillWaitMs = 30000, persistModes = True\<rparr>"

definition Headless :: ShutdownOptions where
  "Headless = defaultOptions\<lparr>stopRpcTimeoutMs := 10000, stopTests := False, clearSystemProxy := False, coreKillWaitMs := 3000, persistModes := False\<rparr>"

record SessionSettings =
  remember_enable :: bool
  started_id :: int
  remember_id :: int
  spmode_system_proxy :: bool
  spmode_vpn :: bool
  remember_system_proxy :: bool
  remember_tun :: bool
  noSave :: bool

datatype Action =
    ShutdownStarted | ApiShutdown | ClearProxy | SessionPersisting | SavedSettings SessionSettings | ScansStopped
  | ConnectionStopped bool int bool | CoreKilled int | CoreShutDown | GuardsClosed | ExitProgram ExitReason bool

record ExitController =
  m_exitInProgress :: bool
  m_exitQueued :: bool
  m_shutdownOptions :: ShutdownOptions
  ec_settings :: SessionSettings
  ec_core :: CoreSup
  ec_queue :: "(ExitReason \<times> bool) list"
  ec_actions :: "Action list"

definition did :: "Action \<Rightarrow> ExitController \<Rightarrow> ExitController" where
  "did a ec = ec\<lparr>ec_actions := ec_actions ec @ [a]\<rparr>"

definition preparing :: "ExitController \<Rightarrow> bool" where
  "preparing ec = csPrepareExit (ec_core ec)"

definition setPrepareExit :: "ExitController \<Rightarrow> ExitController" where
  "setPrepareExit ec =
     (let ks = cs_ks (ec_core ec) in ec\<lparr>ec_core := (ec_core ec)\<lparr>cs_ks := ks\<lparr>ks_settings := (ks_settings ks)\<lparr>prepare_exit := True\<rparr>\<rparr>\<rparr>\<rparr>)"

definition requestExit :: "ExitReason \<Rightarrow> bool \<Rightarrow> ExitController \<Rightarrow> ExitController \<times> bool" where
  "requestExit reason unattended ec =
     (if unattended \<and> reason \<noteq> ExitNone \<and> reason \<noteq> ExitRestart then (ec, False)
      else if m_exitQueued ec \<or> m_exitInProgress ec \<or> preparing ec then (ec, False)
      else (ec\<lparr>m_exitQueued := True, ec_queue := ec_queue ec @ [(reason, unattended)]\<rparr>, True))"

text \<open>The queued call; what the policy's \<open>exitProgram\<close> does is an argument.\<close>

definition runQueued :: "(ExitReason \<Rightarrow> bool \<Rightarrow> ExitController \<Rightarrow> ExitController) \<Rightarrow> ExitController \<Rightarrow> ExitController" where
  "runQueued exitProgram ec =
     (case ec_queue ec of
        [] \<Rightarrow> ec
      | (reason, unattended) # rest \<Rightarrow>
          let ec = exitProgram reason unattended (did (ExitProgram reason unattended) (ec\<lparr>ec_queue := rest\<rparr>))
          in if \<not> preparing ec then ec\<lparr>m_exitQueued := False\<rparr> else ec)"

definition persistSessionState :: "ExitController \<Rightarrow> ExitController" where
  "persistSessionState ec =
     (let s = ec_settings ec;
          s = (if remember_enable s \<and> started_id s \<ge> 0 then s\<lparr>remember_id := started_id s\<rparr> else s);
          s = (if persistModes (m_shutdownOptions ec) then s\<lparr>remember_system_proxy := spmode_system_proxy s, remember_tun := spmode_vpn s\<rparr> else s);
          ec = ec\<lparr>ec_settings := s\<rparr>
      in if noSave s then ec else did (SavedSettings s) ec)"

definition inCore :: "(CoreSup \<Rightarrow> CoreSup) \<Rightarrow> ExitController \<Rightarrow> ExitController" where
  "inCore f ec = ec\<lparr>ec_core := f (ec_core ec)\<rparr>"

definition closeGuards :: "(nat \<Rightarrow> bool) \<Rightarrow> CoreSup \<Rightarrow> CoreSup" where
  "closeGuards exitsInTime cs = cs\<lparr>cs_ks := shutdown exitsInTime (cs_ks cs)\<rparr>"

text \<open>The teardown waits three times, for the system proxy, for the connection and for the core. A wait runs a nested event loop, and \<open>pump\<close> is
  what happens to the program during it.\<close>

datatype Wait = ProxyWait | StopWait | KillWait

definition shutdownExit :: "(Wait \<Rightarrow> ExitController \<Rightarrow> ExitController) \<Rightarrow> (nat \<Rightarrow> bool) \<Rightarrow> bool \<Rightarrow> ExitController \<Rightarrow> ExitController" where
  "shutdownExit pump exitsInTime interactive ec =
     (if preparing ec then ec
      else
        let ec = did ShutdownStarted (setPrepareExit ec);
            ec = did ApiShutdown ec;
            ec = (if clearSystemProxy (m_shutdownOptions ec) then pump ProxyWait (did ClearProxy ec) else ec);
            ec = did SessionPersisting ec;
            ec = persistSessionState ec;
            ec = did ScansStopped ec;
            ec = ec\<lparr>ec_settings := (ec_settings ec)\<lparr>noSave := True\<rparr>\<rparr>;
            ec = did (ConnectionStopped interactive (stopRpcTimeoutMs (m_shutdownOptions ec)) (\<not> stopTests (m_shutdownOptions ec))) ec;
            ec = pump StopWait ec;
            killWaitMs = coreKillWaitMs (m_shutdownOptions ec);
            ec = pump KillWait (inCore csShutdown ec);
            ec = did (CoreKilled killWaitMs) ec;
            ec = did CoreShutDown ec
        in did GuardsClosed (inCore (closeGuards exitsInTime) ec))"

definition setExitInProgress :: "bool \<Rightarrow> ExitController \<Rightarrow> ExitController" where
  "setExitInProgress b ec = ec\<lparr>m_exitInProgress := b\<rparr>"

definition setShutdownOptions :: "ShutdownOptions \<Rightarrow> ExitController \<Rightarrow> ExitController" where
  "setShutdownOptions opts ec = ec\<lparr>m_shutdownOptions := opts\<rparr>"

subsection \<open>Order and final state\<close>

lemma setPrepareExit_step: "cs_step (ec_core ec) (ec_core (setPrepareExit ec))"
  unfolding setPrepareExit_def Let_def
  using cs_killSwitch [OF step_settings, of "ec_core ec" "(ks_settings (cs_ks (ec_core ec)))\<lparr>prepare_exit := True\<rparr>"] by simp

lemma closeGuards_step: "cs_step cs (closeGuards ex cs)"
  unfolding closeGuards_def by (rule cs_killSwitch [OF step_shutdown]) (simp add: csPrepareExit_def shutdown_def)

subsection \<open>What the event loop cannot undo\<close>

lemma shut_helpers [simp]:
  "ks_shutdown (updGuard g f ks) = ks_shutdown ks" "ks_shutdown (closeGuard p ks) = ks_shutdown ks"
  "ks_shutdown (settle ks) = ks_shutdown ks" "ks_shutdown (setState st ks) = ks_shutdown ks" "ks_shutdown (stopHard g ks) = ks_shutdown ks"
  by (simp_all add: updGuard_def closeGuard_def settle_def setState_def stopHard_def Let_def split: option.split)

lemma shut_fail [simp]:
  "ks_shutdown (fail c m ks) = ks_shutdown ks" "ks_shutdown (failIdentity ks) = ks_shutdown ks"
  "ks_shutdown (dropPending ks) = ks_shutdown ks" "ks_shutdown (dropActive ks) = ks_shutdown ks" "ks_shutdown (endGuard g ks) = ks_shutdown ks"
  by (simp_all add: fail_def failIdentity_def dropPending_def dropActive_def endGuard_def Let_def)

lemma shut_handlers [simp]:
  "ks_shutdown (applyKs ks) = ks_shutdown ks" "ks_shutdown (armFailed c m ks) = ks_shutdown ks"
  "ks_shutdown (spawn cfg ks) = ks_shutdown ks"
  by (simp_all add: applyKs_def applyOff_def applyOverridden_def spawn_def armFailed_def Let_def)

lemma shut_lost [simp]: "ks_shutdown (protectionLost c m ks) = ks_shutdown ks" "ks_shutdown (onReady g ks) = ks_shutdown ks"
  by (simp_all add: protectionLost_def onReady_def Let_def split: option.split)

lemma shut_guardFailed [simp]: "ks_shutdown (guardFailed g c m ks) = ks_shutdown ks"
  by (simp add: guardFailed_def Let_def)

lemma shut_line [simp]: "ks_shutdown (handleLine g l ks) = ks_shutdown ks"
  by (simp add: handleLine_def Let_def split: option.split)

lemma shut_output [simp]: "ks_shutdown (readOutput g ls ks) = ks_shutdown ks"
  unfolding readOutput_def by (induction ls arbitrary: ks) (simp_all add: Let_def)

lemma shutdown_kept: "ks_step e ks ks' \<Longrightarrow> ks_shutdown ks \<Longrightarrow> ks_shutdown ks'"
  by (induction rule: ks_step.induct)
    (simp_all add: noteIdentityUnsupported_def setOverride_def SetApiPort_def whenSettled_def whenIdle_def onReadyTimeout_def onStartFailed_def
      onFinished_def retryApply_def closeGrace_def shutdown_def Let_def split: option.split)

text \<open>A step of the supervisor is a step of the kill switch or leaves it alone.\<close>

lemma cs_step_ks: "cs_step cs cs' \<Longrightarrow> cs_ks cs' = cs_ks cs \<or> (\<exists>e. ks_step e (cs_ks cs) (cs_ks cs'))"
proof (induction rule: cs_step.induct)
  case (cs_exit cs gen failed code line)
  then show ?case using exit_ks [of gen failed code "noteCoreError gen line cs"] by (metis note_ks(1) step_identity)
next
  case (cs_run cs p ps)
  then show ?case by (cases p) (auto simp: runPost_def)
qed (auto simp: cs_simple_defs cs_restart_defs onNewConnection_def emitCoreStarted_def onPrivilegeProbed_def onCoreSpawned_def onConnectTimeout_def
    postRestart_def canStartCore_def Let_def split: option.splits)

lemma cs_steps_ksInv: "cs_step\<^sup>*\<^sup>* cs cs' \<Longrightarrow> ksInv (cs_ks cs) \<Longrightarrow> ksInv (cs_ks cs')"
  by (induction rule: rtranclp_induct) (metis cs_step_ks ks_step_inv)+

lemma cs_reachable_ksInv: "csReachable cs \<Longrightarrow> ksInv (cs_ks cs)"
  using cs_steps_ksInv ks_init_inv by (force simp: cs_init_def ks_init_def csCreate_def)

text \<open>What the teardown leaves behind, and that no further event changes it.\<close>

definition downFor :: "CoreSup \<Rightarrow> bool" where
  "downFor cs \<longleftrightarrow> csInv cs \<and> ksInv (cs_ks cs) \<and> cs_state cs = ShuttingDown \<and> ks_shutdown (cs_ks cs) \<and> csPrepareExit cs
     \<and> (\<forall>p \<in> set (cs_posts cs). \<not> startsCore p)"

lemma down_steps:
  assumes "cs_step\<^sup>*\<^sup>* cs cs'" "downFor cs"
  shows "downFor cs' \<and> cs_generation cs' = cs_generation cs \<and> cs_process cs' = cs_process cs"
proof -
  have s: "shutFrom cs cs'" using shutFrom_steps [OF assms(1)] assms(2) by (simp add: downFor_def)
  have "csInv cs' \<and> ksInv (cs_ks cs') \<and> ks_shutdown (cs_ks cs')"
    using assms
  proof (induction rule: rtranclp_induct)
    case (step y z)
    then have y: "csInv y" "ksInv (cs_ks y)" "ks_shutdown (cs_ks y)" by blast+
    show ?case using cs_step_inv [OF step.hyps(2)] cs_step_ks [OF step.hyps(2)] shutdown_kept ks_step_inv y by metis
  qed (simp add: downFor_def)
  then show ?thesis using s assms(2) by (auto simp: downFor_def shutFrom_def startsCore_def)
qed

lemma down_no_guard:
  assumes "downFor cs"
  shows "cs_restartTimer cs = None \<and> cs_connectTimer cs = None \<and> ks_active (cs_ks cs) = None \<and> ks_pending (cs_ks cs) = None"
  using assms by (auto simp: downFor_def csInv_def timersOk_def ksInv_def ksWeak_def guardsOk_def)

lemma pump_reachable: "csReachable cs \<Longrightarrow> cs_step\<^sup>*\<^sup>* cs cs' \<Longrightarrow> csReachable cs'"
  by (meson rtranclp_trans)

lemma closeGuards_facts [simp]:
  "ks_shutdown (cs_ks (closeGuards ex cs))" "cs_state (closeGuards ex cs) = cs_state cs" "cs_posts (closeGuards ex cs) = cs_posts cs"
  "csPrepareExit (closeGuards ex cs) = csPrepareExit cs"
  by (simp_all add: closeGuards_def shutdown_def csPrepareExit_def)

lemma csShutdown_facts [simp]: "cs_state (csShutdown cs) = ShuttingDown" "csPrepareExit (csShutdown cs) = csPrepareExit cs"
  by (simp_all add: csShutdown_def cs_post_def csPrepareExit_def)

subsection \<open>The nested event loops\<close>

text \<open>What can happen to the running program while the teardown waits, and after it: an event of the supervisor or of the kill switch, another
  request to exit, the queued call of one (whose policy asks for the shutdown again), a second shutdown, the session manager asking to
  persist, a change of the settings by a dialog that is still open, and any other code that saves them (\<open>SettingsRepo::Save\<close> writes nothing
  once \<open>noSave\<close> is set, which is never taken back).\<close>

inductive ec_step :: "ExitController \<Rightarrow> ExitController \<Rightarrow> bool" where
  ec_coreStep: "cs_step (ec_core ec) cs \<Longrightarrow> ec_step ec (ec\<lparr>ec_core := cs\<rparr>)"
| ec_request: "ec_step ec (fst (requestExit reason unattended ec))"
| ec_queued: "preparing ec \<Longrightarrow> ec_step ec (runQueued (\<lambda>reason unattended. shutdownExit pump ex (\<not> unattended)) ec)"
| ec_again: "preparing ec \<Longrightarrow> ec_step ec (shutdownExit pump ex interactive ec)"
| ec_inProgress: "ec_step ec (setExitInProgress b ec)"
| ec_commit: "ec_step ec (persistSessionState ec)"
| ec_session: "(noSave (ec_settings ec) \<Longrightarrow> noSave s) \<Longrightarrow> ec_step ec (ec\<lparr>ec_settings := s\<rparr>)"
| ec_save: "\<not> noSave (ec_settings ec) \<Longrightarrow> ec_step ec (did (SavedSettings (ec_settings ec)) ec)"

text \<open>The tasks of the core thread run in the order they were posted, so when a wait for a task posted last returns, the \<open>n\<close> tasks queued at
  that time have run. Other events happen in between and after.\<close>

inductive ec_waited :: "nat \<Rightarrow> ExitController \<Rightarrow> ExitController \<Rightarrow> bool" where
  waited_done: "ec_step\<^sup>*\<^sup>* ec ec' \<Longrightarrow> ec_waited 0 ec ec'"
| waited_task: "cs_posts (ec_core ec) = p # ps \<Longrightarrow> ec_waited n (inCore (\<lambda>cs. runPost p (cs\<lparr>cs_posts := ps\<rparr>)) ec) ec' \<Longrightarrow> ec_waited (Suc n) ec ec'"
| waited_event: "ec_step ec ec1 \<Longrightarrow> ec_waited n ec1 ec' \<Longrightarrow> ec_waited n ec ec'"

definition loops :: "(Wait \<Rightarrow> ExitController \<Rightarrow> ExitController) \<Rightarrow> bool" where
  "loops pump \<longleftrightarrow> (\<forall>w ec. preparing ec \<longrightarrow> ec_step\<^sup>*\<^sup>* ec (pump w ec))
     \<and> (\<forall>ec. preparing ec \<longrightarrow> ec_waited (length (cs_posts (ec_core ec))) ec (pump KillWait ec))"

text \<open>The actions that belong to the teardown alone; settings may be saved and exits asked for at any time.\<close>

fun teardownStep :: "Action \<Rightarrow> bool" where
  "teardownStep (SavedSettings s) = False"
| "teardownStep (ExitProgram reason unattended) = False"
| "teardownStep _ = True"

definition quiet :: "ExitController \<Rightarrow> ExitController \<Rightarrow> bool" where
  "quiet ec ec' \<longleftrightarrow> preparing ec' \<and> m_shutdownOptions ec' = m_shutdownOptions ec
     \<and> (noSave (ec_settings ec) \<longrightarrow> noSave (ec_settings ec'))
     \<and> (\<exists>acts. ec_actions ec' = ec_actions ec @ acts \<and> filter teardownStep acts = []
          \<and> (noSave (ec_settings ec) \<longrightarrow> (\<forall>s. SavedSettings s \<notin> set acts)))
     \<and> cs_step\<^sup>*\<^sup>* (ec_core ec) (ec_core ec')"

lemma quiet_refl: "preparing ec \<Longrightarrow> quiet ec ec"
  by (simp add: quiet_def)

lemma quiet_trans: "quiet a b \<Longrightarrow> quiet b c \<Longrightarrow> quiet a c"
  unfolding quiet_def by (auto intro: rtranclp_trans)

text \<open>Asked again, a teardown that has begun returns at once.\<close>

lemma shutdown_again [simp]: "preparing ec \<Longrightarrow> shutdownExit pump ex interactive ec = ec"
  by (simp add: shutdownExit_def)

lemma preparing_did [simp]: "preparing (did a ec) = preparing ec" "preparing (ec\<lparr>ec_queue := q\<rparr>) = preparing ec"
  "preparing (ec\<lparr>ec_settings := s\<rparr>) = preparing ec" "preparing (persistSessionState ec) = preparing ec" "preparing (inCore csShutdown ec) = preparing ec"
  by (simp_all add: preparing_def did_def persistSessionState_def inCore_def Let_def)

lemma preparing_queued:
  "preparing ec \<Longrightarrow> runQueued (\<lambda>reason unattended. shutdownExit pump ex (f unattended)) ec =
     (case ec_queue ec of [] \<Rightarrow> ec | (reason, unattended) # rest \<Rightarrow> did (ExitProgram reason unattended) (ec\<lparr>ec_queue := rest\<rparr>))"
  by (simp add: runQueued_def Let_def split: list.split)

lemma ec_step_core: "ec_step ec ec' \<Longrightarrow> preparing ec \<Longrightarrow> ec_core ec' = ec_core ec \<or> cs_step (ec_core ec) (ec_core ec')"
  by (induction rule: ec_step.induct)
    (auto simp: requestExit_def preparing_queued setExitInProgress_def persistSessionState_def did_def Let_def split: list.split)

lemma ec_step_quiet:
  assumes "ec_step ec ec'" "preparing ec"
  shows "quiet ec ec'"
proof -
  have core: "cs_step\<^sup>*\<^sup>* (ec_core ec) (ec_core ec')" using ec_step_core [OF assms] by auto
  have prep: "preparing ec'" using ec_step_core [OF assms] assms(2) prepare_exit_kept by (auto simp: preparing_def)
  from assms core prep show ?thesis
    by (induction rule: ec_step.induct)
      (auto simp: quiet_def requestExit_def preparing_queued setExitInProgress_def persistSessionState_def did_def Let_def split: list.split)
qed

lemma ec_steps_quiet: "ec_step\<^sup>*\<^sup>* ec ec' \<Longrightarrow> preparing ec \<Longrightarrow> quiet ec ec'"
proof (induction rule: rtranclp_induct)
  case (step y z)
  then show ?case using quiet_trans ec_step_quiet by (metis quiet_def)
qed (rule quiet_refl)

lemma loops_quiet: "loops pump \<Longrightarrow> preparing ec \<Longrightarrow> quiet ec (pump w ec)"
  by (simp add: loops_def ec_steps_quiet)

text \<open>When the wait for the kill is over, no task that starts a core is left.\<close>

lemma runPost_posts [simp]: "cs_posts (runPost p cs) = cs_posts cs" "cs_state (runPost p cs) = cs_state cs"
  "csPrepareExit (runPost p cs) = csPrepareExit cs" "csPrepareExit (cs\<lparr>cs_posts := ps\<rparr>) = csPrepareExit cs"
  by (cases p; simp add: runPost_def csPrepareExit_def)+

lemma drop_tail_subset: "set (drop n ps) \<subseteq> set (drop n (p # ps))"
  using set_drop_subset_set_drop [of "n - 1" n ps] by (cases n) auto

lemma shuttingStep_drop:
  assumes "shuttingStep cs cs'"
  shows "set (drop n (cs_posts cs')) \<subseteq> insert PExitKill (set (drop n (cs_posts cs)))"
proof -
  consider "cs_posts cs' = cs_posts cs" | "cs_posts cs' = cs_posts cs @ [PExitKill]" | p where "cs_posts cs = p # cs_posts cs'"
    using assms by (auto simp: shuttingStep_def)
  then show ?thesis
  proof cases
    case 2
    then show ?thesis using set_drop_subset [of "n - length (cs_posts cs)" "[PExitKill]"] by auto
  next
    case (3 p)
    then show ?thesis using drop_tail_subset [of n "cs_posts cs'" p] by auto
  qed auto
qed

lemma waited_no_starts:
  assumes "ec_waited n ec ec'" "preparing ec" "cs_state (ec_core ec) = ShuttingDown" "\<forall>p \<in> set (drop n (cs_posts (ec_core ec))). \<not> startsCore p"
  shows "\<forall>p \<in> set (cs_posts (ec_core ec')). \<not> startsCore p"
  using assms
proof (induction rule: ec_waited.induct)
  case (waited_done ec ec')
  then have "cs_step\<^sup>*\<^sup>* (ec_core ec) (ec_core ec')" using ec_steps_quiet by (simp add: quiet_def)
  then have "shutFrom (ec_core ec) (ec_core ec')" using shutFrom_steps waited_done.prems by blast
  then show ?case using waited_done.prems by (auto simp: shutFrom_def startsCore_def)
next
  case (waited_task ec p ps n ec')
  then show ?case by (simp add: inCore_def preparing_def)
next
  case (waited_event ec ec1 n ec')
  have q: "preparing ec1" using ec_step_quiet waited_event by (simp add: quiet_def)
  have "cs_state (ec_core ec1) = ShuttingDown \<and> (\<forall>p \<in> set (drop n (cs_posts (ec_core ec1))). \<not> startsCore p)"
  proof (cases "ec_core ec1 = ec_core ec")
    case False
    then have "cs_step (ec_core ec) (ec_core ec1)" using ec_step_core waited_event by blast
    then have sh: "shuttingStep (ec_core ec) (ec_core ec1)" using shutting_step waited_event.prems by blast
    then show ?thesis using waited_event.prems shuttingStep_drop [OF sh, of n] by (auto simp: shuttingStep_def startsCore_def)
  qed (use waited_event in simp)
  then show ?case using waited_event.IH q by blast
qed

subsection \<open>The phases of the teardown\<close>

text \<open>The program when the session is persisted, when the core is told to go, and when that wait is over.\<close>

definition beforePersist :: "(Wait \<Rightarrow> ExitController \<Rightarrow> ExitController) \<Rightarrow> ExitController \<Rightarrow> ExitController" where
  "beforePersist pump ec =
     (let ec = did ApiShutdown (did ShutdownStarted (setPrepareExit ec))
      in if clearSystemProxy (m_shutdownOptions ec) then pump ProxyWait (did ClearProxy ec) else ec)"

definition persisted :: "ExitController \<Rightarrow> ExitController" where
  "persisted ec = (let ec = did ScansStopped (persistSessionState (did SessionPersisting ec)) in ec\<lparr>ec_settings := (ec_settings ec)\<lparr>noSave := True\<rparr>\<rparr>)"

definition stopping :: "bool \<Rightarrow> ExitController \<Rightarrow> ExitController" where
  "stopping interactive ec = did (ConnectionStopped interactive (stopRpcTimeoutMs (m_shutdownOptions ec)) (\<not> stopTests (m_shutdownOptions ec))) ec"

definition beforeKill :: "(Wait \<Rightarrow> ExitController \<Rightarrow> ExitController) \<Rightarrow> bool \<Rightarrow> ExitController \<Rightarrow> ExitController" where
  "beforeKill pump interactive ec = pump StopWait (stopping interactive (persisted (beforePersist pump ec)))"

lemma shutdown_phases:
  "\<not> preparing ec \<Longrightarrow> shutdownExit pump ex interactive ec =
     (let k = beforeKill pump interactive ec in
      did GuardsClosed (inCore (closeGuards ex) (did CoreShutDown (did (CoreKilled (coreKillWaitMs (m_shutdownOptions k))) (pump KillWait (inCore csShutdown k))))))"
  by (simp add: shutdownExit_def beforeKill_def stopping_def persisted_def beforePersist_def Let_def)

lemma did_fields [simp]:
  "ec_actions (did a ec) = ec_actions ec @ [a]" "m_shutdownOptions (did a ec) = m_shutdownOptions ec"
  "ec_settings (did a ec) = ec_settings ec" "ec_core (did a ec) = ec_core ec"
  by (simp_all add: did_def)

lemma inCore_fields [simp]:
  "ec_actions (inCore f ec) = ec_actions ec" "m_shutdownOptions (inCore f ec) = m_shutdownOptions ec"
  "ec_settings (inCore f ec) = ec_settings ec" "ec_core (inCore f ec) = f (ec_core ec)"
  by (simp_all add: inCore_def)

lemma setPrepareExit_fields [simp]:
  "preparing (setPrepareExit ec)" "ec_actions (setPrepareExit ec) = ec_actions ec"
  "m_shutdownOptions (setPrepareExit ec) = m_shutdownOptions ec"
  by (simp_all add: setPrepareExit_def preparing_def csPrepareExit_def Let_def)

lemma persist_fields [simp]:
  "m_shutdownOptions (persistSessionState ec) = m_shutdownOptions ec" "ec_core (persistSessionState ec) = ec_core ec"
  "noSave (ec_settings (persistSessionState ec)) = noSave (ec_settings ec)"
  by (simp_all add: persistSessionState_def Let_def)

lemma beforePersist_facts:
  assumes "loops pump"
  shows "preparing (beforePersist pump ec)" "m_shutdownOptions (beforePersist pump ec) = m_shutdownOptions ec"
    "\<exists>acts. ec_actions (beforePersist pump ec) = ec_actions ec @ acts
       \<and> filter teardownStep acts = [ShutdownStarted, ApiShutdown] @ (if clearSystemProxy (m_shutdownOptions ec) then [ClearProxy] else [])"
    "cs_step\<^sup>*\<^sup>* (ec_core ec) (ec_core (beforePersist pump ec))"
proof -
  define e1 where "e1 = did ApiShutdown (did ShutdownStarted (setPrepareExit ec))"
  have e1: "preparing e1" "m_shutdownOptions e1 = m_shutdownOptions ec" "ec_actions e1 = ec_actions ec @ [ShutdownStarted, ApiShutdown]"
    "cs_step (ec_core ec) (ec_core e1)"
    using setPrepareExit_step [of ec] by (simp_all add: e1_def)
  have q: "quiet (did ClearProxy e1) (pump ProxyWait (did ClearProxy e1))" using loops_quiet [OF assms] e1(1) by simp
  have b: "beforePersist pump ec = (if clearSystemProxy (m_shutdownOptions ec) then pump ProxyWait (did ClearProxy e1) else e1)"
    unfolding beforePersist_def Let_def e1_def [symmetric] e1(2) by (rule refl)
  show "preparing (beforePersist pump ec)" "m_shutdownOptions (beforePersist pump ec) = m_shutdownOptions ec"
    "\<exists>acts. ec_actions (beforePersist pump ec) = ec_actions ec @ acts
       \<and> filter teardownStep acts = [ShutdownStarted, ApiShutdown] @ (if clearSystemProxy (m_shutdownOptions ec) then [ClearProxy] else [])"
    using e1 q by (auto simp: b quiet_def)
  show "cs_step\<^sup>*\<^sup>* (ec_core ec) (ec_core (beforePersist pump ec))"
    using e1(4) q by (auto simp: b quiet_def intro: converse_rtranclp_into_rtranclp)
qed

text \<open>What persisting writes.\<close>

definition remembers :: "ShutdownOptions \<Rightarrow> SessionSettings \<Rightarrow> bool" where
  "remembers opts s \<longleftrightarrow> (remember_enable s \<and> 0 \<le> started_id s \<longrightarrow> remember_id s = started_id s)
     \<and> (persistModes opts \<longrightarrow> remember_system_proxy s = spmode_system_proxy s \<and> remember_tun s = spmode_vpn s)"

lemma persisted_facts:
  "preparing (persisted ec) = preparing ec" "m_shutdownOptions (persisted ec) = m_shutdownOptions ec" "noSave (ec_settings (persisted ec))"
  "ec_core (persisted ec) = ec_core ec"
  "\<exists>saved. ec_actions (persisted ec) = ec_actions ec @ [SessionPersisting] @ saved @ [ScansStopped] \<and> filter teardownStep saved = []
     \<and> (\<not> noSave (ec_settings ec) \<longrightarrow> (\<exists>s. saved = [SavedSettings s] \<and> remembers (m_shutdownOptions ec) s \<and> started_id s = started_id (ec_settings ec)))"
  by (auto simp: persisted_def Let_def persistSessionState_def remembers_def)

lemma stopping_facts:
  "preparing (stopping i ec) = preparing ec" "m_shutdownOptions (stopping i ec) = m_shutdownOptions ec" "ec_settings (stopping i ec) = ec_settings ec"
  "ec_core (stopping i ec) = ec_core ec"
  "ec_actions (stopping i ec) = ec_actions ec @ [ConnectionStopped i (stopRpcTimeoutMs (m_shutdownOptions ec)) (\<not> stopTests (m_shutdownOptions ec))]"
  by (simp_all add: stopping_def)

text \<open>Everything the teardown did, and in which state it leaves the core.\<close>

lemma beforeKill_facts:
  assumes "loops pump" and k: "k = beforeKill pump interactive ec"
  shows "preparing k \<and> m_shutdownOptions k = m_shutdownOptions ec \<and> noSave (ec_settings k) \<and> cs_step\<^sup>*\<^sup>* (ec_core ec) (ec_core k)
    \<and> (\<exists>acts saved more. ec_actions k = ec_actions ec @ acts @ [SessionPersisting] @ saved @ [ScansStopped]
           @ [ConnectionStopped interactive (stopRpcTimeoutMs (m_shutdownOptions ec)) (\<not> stopTests (m_shutdownOptions ec))] @ more
         \<and> filter teardownStep acts = [ShutdownStarted, ApiShutdown] @ (if clearSystemProxy (m_shutdownOptions ec) then [ClearProxy] else [])
         \<and> filter teardownStep saved = [] \<and> filter teardownStep more = [] \<and> (\<forall>s. SavedSettings s \<notin> set more)
         \<and> (\<not> noSave (ec_settings (beforePersist pump ec)) \<longrightarrow> (\<exists>s. saved = [SavedSettings s] \<and> remembers (m_shutdownOptions ec) s
              \<and> started_id s = started_id (ec_settings (beforePersist pump ec)))))"
proof -
  let ?b = "beforePersist pump ec" and ?s = "stopping interactive (persisted (beforePersist pump ec))"
  note b = beforePersist_facts [OF assms(1), of ec]
  have s: "preparing ?s" "m_shutdownOptions ?s = m_shutdownOptions ec" "noSave (ec_settings ?s)" "ec_core ?s = ec_core ?b"
    using b(1,2) by (simp_all add: stopping_facts persisted_facts)
  have q: "quiet ?s k" unfolding k beforeKill_def by (rule loops_quiet [OF assms(1) s(1)])
  obtain more where more: "ec_actions k = ec_actions ?s @ more" "filter teardownStep more = []" "\<forall>s. SavedSettings s \<notin> set more"
    using q s(3) unfolding quiet_def by blast
  obtain acts where acts: "ec_actions ?b = ec_actions ec @ acts"
    "filter teardownStep acts = [ShutdownStarted, ApiShutdown] @ (if clearSystemProxy (m_shutdownOptions ec) then [ClearProxy] else [])"
    using b(3) by blast
  obtain saved where saved: "ec_actions (persisted ?b) = ec_actions ?b @ [SessionPersisting] @ saved @ [ScansStopped]" "filter teardownStep saved = []"
    "\<not> noSave (ec_settings ?b) \<longrightarrow> (\<exists>s. saved = [SavedSettings s] \<and> remembers (m_shutdownOptions ec) s \<and> started_id s = started_id (ec_settings ?b))"
    using persisted_facts(5) [of ?b] unfolding b(2) by blast
  have "ec_actions k = ec_actions ec @ acts @ [SessionPersisting] @ saved @ [ScansStopped]
           @ [ConnectionStopped interactive (stopRpcTimeoutMs (m_shutdownOptions ec)) (\<not> stopTests (m_shutdownOptions ec))] @ more"
    using more(1) acts(1) saved(1) b(2) by (simp add: stopping_facts persisted_facts)
  moreover have "preparing k \<and> m_shutdownOptions k = m_shutdownOptions ec \<and> noSave (ec_settings k) \<and> cs_step\<^sup>*\<^sup>* (ec_core ec) (ec_core k)"
    using q s b(4) by (auto simp: quiet_def)
  ultimately show ?thesis using acts(2) saved(2,3) more(2,3) by blast
qed

lemma shutdown_down:
  assumes "csReachable (ec_core ec)" "\<not> preparing ec" "loops pump"
  shows "downFor (ec_core (shutdownExit pump ex interactive ec))"
proof -
  define k where "k = beforeKill pump interactive ec"
  define w where "w = pump KillWait (inCore csShutdown k)"
  have k: "preparing k" "cs_step\<^sup>*\<^sup>* (ec_core ec) (ec_core k)" using beforeKill_facts [OF assms(3) k_def] by blast+
  have p: "preparing (inCore csShutdown k)" using k(1) by simp
  have q: "quiet (inCore csShutdown k) w" unfolding w_def by (rule loops_quiet [OF assms(3) p])
  have steps: "cs_step\<^sup>*\<^sup>* (csShutdown (ec_core k)) (ec_core w)" using q by (simp add: quiet_def)
  have none: "\<forall>p \<in> set (cs_posts (ec_core w)). \<not> startsCore p"
  proof -
    have "ec_waited (length (cs_posts (ec_core (inCore csShutdown k)))) (inCore csShutdown k) w"
      using assms(3) p unfolding loops_def w_def by blast
    from waited_no_starts [OF this p] show ?thesis by simp
  qed
  have reach: "csReachable (closeGuards ex (ec_core w))"
    using csReachable_step [OF pump_reachable [OF csReachable_step [OF pump_reachable [OF assms(1) k(2)] cs_shutdown] steps] closeGuards_step] .
  have sh: "shutFrom (csShutdown (ec_core k)) (ec_core w)" using shutFrom_steps [OF steps] by simp
  have "csPrepareExit (ec_core w)" using q by (simp add: quiet_def preparing_def)
  then show ?thesis unfolding shutdown_phases [OF assms(2)] Let_def k_def [symmetric] w_def [symmetric] downFor_def
    using cs_reachable_inv [OF reach] cs_reachable_ksInv [OF reach] sh none by (simp add: shutFrom_def)
qed

lemma shutdown_actions:
  assumes "\<not> preparing ec" "loops pump" and ec': "ec' = shutdownExit pump ex interactive ec"
  shows "noSave (ec_settings ec') \<and> m_shutdownOptions ec' = m_shutdownOptions ec
    \<and> (\<exists>acts saved more. ec_actions ec' = ec_actions ec @ acts @ [SessionPersisting] @ saved @ [ScansStopped]
           @ [ConnectionStopped interactive (stopRpcTimeoutMs (m_shutdownOptions ec)) (\<not> stopTests (m_shutdownOptions ec))] @ more
           @ [CoreKilled (coreKillWaitMs (m_shutdownOptions ec)), CoreShutDown, GuardsClosed]
         \<and> filter teardownStep acts = [ShutdownStarted, ApiShutdown] @ (if clearSystemProxy (m_shutdownOptions ec) then [ClearProxy] else [])
         \<and> filter teardownStep saved = [] \<and> filter teardownStep more = [] \<and> (\<forall>s. SavedSettings s \<notin> set more)
         \<and> (\<not> noSave (ec_settings (beforePersist pump ec)) \<longrightarrow> (\<exists>s. saved = [SavedSettings s] \<and> remembers (m_shutdownOptions ec) s
              \<and> started_id s = started_id (ec_settings (beforePersist pump ec)))))"
proof -
  define k where "k = beforeKill pump interactive ec"
  define w where "w = pump KillWait (inCore csShutdown k)"
  note f = beforeKill_facts [OF assms(2) k_def]
  have p: "preparing (inCore csShutdown k)" using f by simp
  have q: "quiet (inCore csShutdown k) w" unfolding w_def by (rule loops_quiet [OF assms(2) p])
  have e: "ec' = did GuardsClosed (inCore (closeGuards ex) (did CoreShutDown (did (CoreKilled (coreKillWaitMs (m_shutdownOptions ec))) w)))"
    unfolding ec' shutdown_phases [OF assms(1)] Let_def k_def [symmetric] w_def [symmetric] using f by simp
  obtain later where later: "ec_actions w = ec_actions k @ later" "filter teardownStep later = []" "\<forall>s. SavedSettings s \<notin> set later"
    "m_shutdownOptions w = m_shutdownOptions ec" "noSave (ec_settings w)"
    using q f unfolding quiet_def by auto
  obtain acts saved more where m: "ec_actions k = ec_actions ec @ acts @ [SessionPersisting] @ saved @ [ScansStopped]
           @ [ConnectionStopped interactive (stopRpcTimeoutMs (m_shutdownOptions ec)) (\<not> stopTests (m_shutdownOptions ec))] @ more"
         "filter teardownStep acts = [ShutdownStarted, ApiShutdown] @ (if clearSystemProxy (m_shutdownOptions ec) then [ClearProxy] else [])"
         "filter teardownStep saved = []" "filter teardownStep more = []" "\<forall>s. SavedSettings s \<notin> set more"
         "\<not> noSave (ec_settings (beforePersist pump ec)) \<longrightarrow> (\<exists>s. saved = [SavedSettings s] \<and> remembers (m_shutdownOptions ec) s
              \<and> started_id s = started_id (ec_settings (beforePersist pump ec)))"
    using f by blast
  have "ec_actions ec' = ec_actions ec @ acts @ [SessionPersisting] @ saved @ [ScansStopped]
           @ [ConnectionStopped interactive (stopRpcTimeoutMs (m_shutdownOptions ec)) (\<not> stopTests (m_shutdownOptions ec))] @ (more @ later)
           @ [CoreKilled (coreKillWaitMs (m_shutdownOptions ec)), CoreShutDown, GuardsClosed]"
    using later(1) m(1) by (simp add: e)
  moreover have "filter teardownStep (more @ later) = []" "\<forall>s. SavedSettings s \<notin> set (more @ later)" using m later by simp_all
  moreover have "noSave (ec_settings ec')" "m_shutdownOptions ec' = m_shutdownOptions ec" using later by (simp_all add: e)
  ultimately show ?thesis using m(2,3,6) by blast
qed

text \<open>The log from the start of the teardown on: the steps once and in order, no save after the scans are stopped, and what the last save holds.\<close>

definition tornDown :: "(Wait \<Rightarrow> ExitController \<Rightarrow> ExitController) \<Rightarrow> bool \<Rightarrow> ExitController \<Rightarrow> Action list \<Rightarrow> bool" where
  "tornDown pump interactive ec acts \<longleftrightarrow>
     filter teardownStep acts = [ShutdownStarted, ApiShutdown] @ (if clearSystemProxy (m_shutdownOptions ec) then [ClearProxy] else [])
          @ [SessionPersisting, ScansStopped, ConnectionStopped interactive (stopRpcTimeoutMs (m_shutdownOptions ec)) (\<not> stopTests (m_shutdownOptions ec)),
             CoreKilled (coreKillWaitMs (m_shutdownOptions ec)), CoreShutDown, GuardsClosed]
      \<and> (\<forall>pre post s. acts = pre @ ScansStopped # post \<longrightarrow> SavedSettings s \<notin> set post)
      \<and> (\<not> noSave (ec_settings (beforePersist pump ec)) \<longrightarrow> (\<exists>pre post s. acts = pre @ SavedSettings s # ScansStopped # post
            \<and> remembers (m_shutdownOptions ec) s \<and> started_id s = started_id (ec_settings (beforePersist pump ec))))"

lemma shutdown_acts:
  assumes "\<not> preparing ec" "loops pump" "ec' = shutdownExit pump ex interactive ec" "quiet ec' ec''"
  shows "noSave (ec_settings ec'') \<and> (\<exists>acts. ec_actions ec'' = ec_actions ec @ acts \<and> tornDown pump interactive ec acts)"
proof -
  let ?o = "m_shutdownOptions ec"
  have n: "noSave (ec_settings ec')" using shutdown_actions [OF assms(1-3)] by blast
  obtain a saved more where a: "ec_actions ec' = ec_actions ec @ a @ [SessionPersisting] @ saved @ [ScansStopped]
        @ [ConnectionStopped interactive (stopRpcTimeoutMs ?o) (\<not> stopTests ?o)] @ more @ [CoreKilled (coreKillWaitMs ?o), CoreShutDown, GuardsClosed]"
      "filter teardownStep a = [ShutdownStarted, ApiShutdown] @ (if clearSystemProxy ?o then [ClearProxy] else [])"
      "filter teardownStep saved = []" "filter teardownStep more = []" "\<forall>s. SavedSettings s \<notin> set more"
      "\<not> noSave (ec_settings (beforePersist pump ec)) \<longrightarrow> (\<exists>s. saved = [SavedSettings s] \<and> remembers ?o s
              \<and> started_id s = started_id (ec_settings (beforePersist pump ec)))"
    using shutdown_actions [OF assms(1-3)] by blast
  obtain z where z: "ec_actions ec'' = ec_actions ec' @ z" "filter teardownStep z = []" "\<forall>s. SavedSettings s \<notin> set z" "noSave (ec_settings ec'')"
    using assms(4) n unfolding quiet_def by blast
  define pre where "pre = a @ [SessionPersisting] @ saved"
  define post where "post = [ConnectionStopped interactive (stopRpcTimeoutMs ?o) (\<not> stopTests ?o)] @ more
      @ [CoreKilled (coreKillWaitMs ?o), CoreShutDown, GuardsClosed] @ z"
  have log: "ec_actions ec'' = ec_actions ec @ (pre @ ScansStopped # post)" using z(1) a(1) by (simp add: pre_def post_def)
  have f: "filter teardownStep (pre @ ScansStopped # post) = [ShutdownStarted, ApiShutdown] @ (if clearSystemProxy ?o then [ClearProxy] else [])
          @ [SessionPersisting, ScansStopped, ConnectionStopped interactive (stopRpcTimeoutMs ?o) (\<not> stopTests ?o),
             CoreKilled (coreKillWaitMs ?o), CoreShutDown, GuardsClosed]"
    using a(2-4) z(2) by (simp add: pre_def post_def)
  have absent: "ScansStopped \<notin> set xs" if "ScansStopped \<notin> set (filter teardownStep xs)" for xs using that by simp
  have "ScansStopped \<notin> set a" by (rule absent) (simp add: a(2))
  moreover have "ScansStopped \<notin> set saved" "ScansStopped \<notin> set more" "ScansStopped \<notin> set z"
    using absent [of saved] absent [of more] absent [of z] a(3,4) z(2) by simp_all
  ultimately have "ScansStopped \<notin> set pre" "ScansStopped \<notin> set post" by (simp_all add: pre_def post_def)
  then have once: "pre @ ScansStopped # post = pre' @ ScansStopped # post' \<longleftrightarrow> pre = pre' \<and> post = post'" for pre' post'
    by (simp add: append_Cons_eq_iff)
  have unsaved: "SavedSettings s \<notin> set post" for s using a(5) z(3) by (simp add: post_def)
  have last: "\<exists>pre' post' s. pre @ ScansStopped # post = pre' @ SavedSettings s # ScansStopped # post'
      \<and> remembers ?o s \<and> started_id s = started_id (ec_settings (beforePersist pump ec))"
    if saving: "\<not> noSave (ec_settings (beforePersist pump ec))"
  proof -
    obtain s where s: "saved = [SavedSettings s]" "remembers ?o s" "started_id s = started_id (ec_settings (beforePersist pump ec))"
      using a(6) saving by blast
    then have "pre @ ScansStopped # post = (a @ [SessionPersisting]) @ SavedSettings s # ScansStopped # post" by (simp add: pre_def)
    with s show ?thesis by blast
  qed
  have "tornDown pump interactive ec (pre @ ScansStopped # post)"
    unfolding tornDown_def using f once unsaved last by metis
  with log z(4) show ?thesis by blast
qed

subsection \<open>Running the queued tasks\<close>

definition runTasks :: "CoreSup \<Rightarrow> CoreSup" where
  "runTasks cs = fold runPost (cs_posts cs) (cs\<lparr>cs_posts := []\<rparr>)"

lemma runPost_posts_update: "runPost p (cs\<lparr>cs_posts := ps\<rparr>) = (runPost p cs)\<lparr>cs_posts := ps\<rparr>"
  by (cases p) (simp_all add: runPost_def csPrepareExit_def)

lemma runTasks_waited: "cs_posts (ec_core ec) = ps \<Longrightarrow> ec_waited (length ps) ec (inCore runTasks ec)"
proof (induction ps arbitrary: ec)
  case Nil
  then have "inCore runTasks ec = ec" by (simp add: inCore_def runTasks_def)
  then show ?case by (simp add: waited_done)
next
  case (Cons p ps)
  let ?e = "inCore (\<lambda>cs. runPost p (cs\<lparr>cs_posts := ps\<rparr>)) ec"
  have "inCore runTasks ?e = inCore runTasks ec"
    using Cons.prems by (simp add: inCore_def runTasks_def runPost_posts_update)
  moreover have "ec_waited (length ps) ?e (inCore runTasks ?e)" by (rule Cons.IH) simp
  ultimately show ?case using waited_task [OF Cons.prems] by simp
qed

lemma waited_steps: "ec_waited n ec ec' \<Longrightarrow> ec_step\<^sup>*\<^sup>* ec ec'"
proof (induction rule: ec_waited.induct)
  case (waited_task ec p ps n ec')
  have "ec_step ec (inCore (\<lambda>cs. runPost p (cs\<lparr>cs_posts := ps\<rparr>)) ec)"
    unfolding inCore_def by (rule ec_coreStep [OF cs_run [OF waited_task.hyps(1)]])
  then show ?case using waited_task.IH by (rule converse_rtranclp_into_rtranclp)
qed (auto intro: converse_rtranclp_into_rtranclp)

end
