(* ===== verification/Resume_Guard.thy ===== *)
theory Resume_Guard
  imports Wd_Prelude
begin

text \<open>
  The crash-loop guard of the headless mode (\<^verbatim>\<open>src/src/engine/headless/ResumeGuard.cpp\<close>): a small record on disk that
  counts how often a boot ended shortly after it resumed a profile. The file is modelled by what the
  constructor can find there (\<open>StateFile\<close>): no file, one it cannot use, or a JSON document; \<open>save\<close>
  replaces it when the write succeeds, which is an argument of every operation that saves. JSON text
  itself is Qt's; a document is a \<open>Json\<close> value. A process that dies loses the record in memory and keeps
  the file, so a sequence of boots is a sequence of \<open>loadGuard\<close> and operations on the file left behind.

  Results: the bounds kept by every operation from any file content (an interpretation of
  \<open>transition_system\<close>), the round trip of the file, and that a profile is resumed at most three times in
  a row by boots that crash, whatever the file contained before.
\<close>

subsection \<open>The file\<close>

datatype Json = JNull | JBool bool | JInt int | JString qstring | JObject "(string \<times> Json) list"

definition jvalue :: "string \<Rightarrow> Json \<Rightarrow> Json" where
  "jvalue key j = (case j of JObject kvs \<Rightarrow> (case map_of kvs key of Some v \<Rightarrow> v | None \<Rightarrow> JNull) | _ \<Rightarrow> JNull)"

definition jToInt :: "int \<Rightarrow> Json \<Rightarrow> int" where
  "jToInt d j = (case j of JInt n \<Rightarrow> n | _ \<Rightarrow> d)"

definition jToBool :: "bool \<Rightarrow> Json \<Rightarrow> bool" where
  "jToBool d j = (case j of JBool b \<Rightarrow> b | _ \<Rightarrow> d)"

definition jToObject :: "Json \<Rightarrow> Json" where
  "jToObject j = (case j of JObject kvs \<Rightarrow> JObject kvs | _ \<Rightarrow> JObject [])"

definition jIsEmpty :: "Json \<Rightarrow> bool" where
  "jIsEmpty j \<longleftrightarrow> j = JObject []"

datatype StateFile = NoFile | BadFile | Document Json

record ResumeGuard =
  m_profile :: int
  m_strikes :: int
  m_armed :: bool
  m_armedAt :: int
  m_suppressed :: bool
  m_bootOpen :: bool
  m_unstableBoots :: int
  m_previousExit :: Json
  m_lastExit :: Json
  m_file :: StateFile

definition kResumeGuardVersion :: int where "kResumeGuardVersion = 1"
definition kResumeGuardMaxUnstableBoots :: int where "kResumeGuardMaxUnstableBoots = 1000000"
definition kStrikesToSuppress :: int where "kStrikesToSuppress = 3"
definition kUnstableBootsToStayUp :: int where "kUnstableBootsToStayUp = 3"

lemmas rg_constants = kResumeGuardVersion_def kResumeGuardMaxUnstableBoots_def kStrikesToSuppress_def kUnstableBootsToStayUp_def

definition ExitCode_CoreGaveUp :: int where "ExitCode_CoreGaveUp = 70"
definition ExitCode_Stuck :: int where "ExitCode_Stuck = 71"

definition qBound :: "int \<Rightarrow> int \<Rightarrow> int \<Rightarrow> int" where
  "qBound lo v hi = max lo (min v hi)"

definition save :: "bool \<Rightarrow> ResumeGuard \<Rightarrow> ResumeGuard" where
  "save ok rg =
     (let root = [(''version'', JInt kResumeGuardVersion),
            (''resume'', JObject [(''profile'', JInt (m_profile rg)), (''strikes'', JInt (m_strikes rg)),
               (''armed'', JBool (m_armed rg)), (''armed_at'', JInt (m_armedAt rg))]),
            (''boot'', JObject [(''open'', JBool (m_bootOpen rg)), (''unstable'', JInt (m_unstableBoots rg))])];
          doc = JObject (if jIsEmpty (m_lastExit rg) then root else root @ [(''last_exit'', m_lastExit rg)])
      in if ok then rg\<lparr>m_file := Document doc\<rparr> else rg)"

definition freshGuard :: "StateFile \<Rightarrow> ResumeGuard" where
  "freshGuard fl = \<lparr>m_profile = - 1, m_strikes = 0, m_armed = False, m_armedAt = 0, m_suppressed = False, m_bootOpen = False,
     m_unstableBoots = 0, m_previousExit = JObject [], m_lastExit = JObject [], m_file = fl\<rparr>"

definition loadGuard :: "bool \<Rightarrow> StateFile \<Rightarrow> ResumeGuard" where
  "loadGuard ok fl =
     (case fl of
        Document root \<Rightarrow>
          if (case root of JObject _ \<Rightarrow> False | _ \<Rightarrow> True) then freshGuard fl
          else if jToInt 0 (jvalue ''version'' root) \<noteq> kResumeGuardVersion then freshGuard fl
          else
            let resume = jToObject (jvalue ''resume'' root);
                profile = jToInt (- 1) (jvalue ''profile'' resume);
                profile' = (if profile < 0 then - 1 else profile);
                armed = (profile' \<ge> 0 \<and> jToBool False (jvalue ''armed'' resume));
                boot = jToObject (jvalue ''boot'' root);
                rg = (freshGuard fl)\<lparr>m_profile := profile',
                   m_strikes := qBound 0 (jToInt 0 (jvalue ''strikes'' resume)) kStrikesToSuppress,
                   m_armed := armed, m_armedAt := (if armed then jToInt 0 (jvalue ''armed_at'' resume) else 0),
                   m_bootOpen := jToBool False (jvalue ''open'' boot),
                   m_unstableBoots := qBound 0 (jToInt 0 (jvalue ''unstable'' boot)) kResumeGuardMaxUnstableBoots,
                   m_previousExit := jToObject (jvalue ''last_exit'' root)\<rparr>
            in if \<not> jIsEmpty (m_previousExit rg) then save ok rg else rg
      | _ \<Rightarrow> freshGuard fl)"

subsection \<open>Operations\<close>

definition settlePrevious :: "bool \<Rightarrow> ResumeGuard \<Rightarrow> ResumeGuard" where
  "settlePrevious ok rg =
     (let rg1 = (if m_bootOpen rg
                 then rg\<lparr>m_unstableBoots := min (m_unstableBoots rg + 1) kResumeGuardMaxUnstableBoots\<rparr> else rg);
          rg2 = rg1\<lparr>m_bootOpen := True\<rparr>
      in if \<not> m_armed rg2 then save ok rg2
         else save ok (rg2\<lparr>m_strikes := min (m_strikes rg2 + 1) kStrikesToSuppress, m_armed := False, m_armedAt := 0\<rparr>))"

definition stayUp :: "ResumeGuard \<Rightarrow> bool" where
  "stayUp rg \<longleftrightarrow> m_unstableBoots rg \<ge> kUnstableBootsToStayUp"

definition markStable :: "bool \<Rightarrow> ResumeGuard \<Rightarrow> ResumeGuard" where
  "markStable ok rg =
     (if \<not> m_bootOpen rg \<and> m_unstableBoots rg = 0 then rg
      else save ok (rg\<lparr>m_bootOpen := False, m_unstableBoots := 0\<rparr>))"

definition decide :: "bool \<Rightarrow> int \<Rightarrow> ResumeGuard \<Rightarrow> int \<times> ResumeGuard" where
  "decide ok candidateId rg0 =
     (let rg = rg0\<lparr>m_suppressed := False\<rparr>
      in if candidateId < 0 then (- 1, rg)
         else if candidateId \<noteq> m_profile rg then
           let hadRecord = (m_profile rg \<ge> 0);
               rg1 = rg\<lparr>m_profile := candidateId, m_strikes := 0, m_armed := False, m_armedAt := 0\<rparr>
           in (candidateId, if hadRecord then save ok rg1 else rg1)
         else if m_strikes rg \<ge> kStrikesToSuppress then (- 1, rg\<lparr>m_suppressed := True\<rparr>)
         else (candidateId, rg))"

definition liftSuppression :: "int \<Rightarrow> ResumeGuard \<Rightarrow> ResumeGuard" where
  "liftSuppression startedProfileId rg =
     (if startedProfileId \<ge> 0 \<and> startedProfileId \<noteq> m_profile rg then rg\<lparr>m_suppressed := False\<rparr> else rg)"

definition arm :: "bool \<Rightarrow> int \<Rightarrow> int \<Rightarrow> ResumeGuard \<Rightarrow> ResumeGuard" where
  "arm ok now profileId rg =
     (if profileId < 0 then rg
      else
        let rg1 = (if profileId \<noteq> m_profile rg then rg\<lparr>m_profile := profileId, m_strikes := 0\<rparr> else rg)
        in save ok (rg1\<lparr>m_armed := True, m_armedAt := now\<rparr>))"

definition disarm :: "bool \<Rightarrow> ResumeGuard \<Rightarrow> ResumeGuard" where
  "disarm ok rg = (if \<not> m_armed rg then rg else save ok (rg\<lparr>m_armed := False, m_armedAt := 0\<rparr>))"

definition strike :: "bool \<Rightarrow> ResumeGuard \<Rightarrow> ResumeGuard" where
  "strike ok rg =
     (if \<not> m_armed rg then rg
      else save ok (rg\<lparr>m_strikes := min (m_strikes rg + 1) kStrikesToSuppress, m_armed := False, m_armedAt := 0\<rparr>))"

definition survived :: "bool \<Rightarrow> int \<Rightarrow> ResumeGuard \<Rightarrow> ResumeGuard" where
  "survived ok profileId rg =
     (if profileId < 0 \<or> profileId \<noteq> m_profile rg then rg
      else if m_strikes rg = 0 \<and> \<not> m_armed rg \<and> \<not> m_suppressed rg then rg
      else save ok (rg\<lparr>m_strikes := 0, m_armed := False, m_armedAt := 0, m_suppressed := False\<rparr>))"

definition noteExit :: "bool \<Rightarrow> int \<Rightarrow> int \<Rightarrow> qstring \<Rightarrow> ResumeGuard \<Rightarrow> ResumeGuard" where
  "noteExit ok now code reason rg =
     (let rg1 = rg\<lparr>m_lastExit := JObject [(''code'', JInt code), (''reason'', JString reason), (''at'', JInt now)]\<rparr>;
          rg2 = (if code \<noteq> ExitCode_CoreGaveUp \<and> code \<noteq> ExitCode_Stuck then rg1\<lparr>m_armed := False, m_armedAt := 0\<rparr> else rg1)
      in save ok rg2)"

subsection \<open>Bounds\<close>

definition rgInv :: "ResumeGuard \<Rightarrow> bool" where
  "rgInv rg \<longleftrightarrow> 0 \<le> m_strikes rg \<and> m_strikes rg \<le> kStrikesToSuppress \<and> 0 \<le> m_unstableBoots rg
     \<and> m_unstableBoots rg \<le> kResumeGuardMaxUnstableBoots \<and> - 1 \<le> m_profile rg
     \<and> (m_armed rg \<longrightarrow> 0 \<le> m_profile rg) \<and> (\<not> m_armed rg \<longrightarrow> m_armedAt rg = 0)
     \<and> (\<exists>kvs. m_lastExit rg = JObject kvs)"

lemma save_fields [simp]:
  "m_profile (save ok rg) = m_profile rg" "m_strikes (save ok rg) = m_strikes rg" "m_armed (save ok rg) = m_armed rg"
  "m_armedAt (save ok rg) = m_armedAt rg" "m_suppressed (save ok rg) = m_suppressed rg" "m_bootOpen (save ok rg) = m_bootOpen rg"
  "m_unstableBoots (save ok rg) = m_unstableBoots rg" "m_previousExit (save ok rg) = m_previousExit rg"
  "m_lastExit (save ok rg) = m_lastExit rg"
  by (simp_all add: save_def Let_def)

lemma rgInv_save [simp]: "rgInv (save ok rg) = rgInv rg"
  by (simp add: rgInv_def)

lemma fresh_inv: "rgInv (freshGuard fl)"
  by (simp add: rgInv_def freshGuard_def rg_constants)

lemma loadGuard_inv: "rgInv (loadGuard ok fl)"
  by (auto simp: loadGuard_def Let_def fresh_inv split: StateFile.splits)
    (auto simp: rgInv_def freshGuard_def qBound_def rg_constants)

inductive rg_step :: "ResumeGuard \<Rightarrow> ResumeGuard \<Rightarrow> bool" where
  rg_settle: "rg_step rg (settlePrevious ok rg)"
| rg_stable: "rg_step rg (markStable ok rg)"
| rg_decide: "rg_step rg (snd (decide ok c rg))"
| rg_lift: "rg_step rg (liftSuppression p rg)"
| rg_arm: "rg_step rg (arm ok now p rg)"
| rg_disarm: "rg_step rg (disarm ok rg)"
| rg_strike: "rg_step rg (strike ok rg)"
| rg_survived: "rg_step rg (survived ok p rg)"
| rg_exit: "rg_step rg (noteExit ok now code reason rg)"

definition rg_init :: "ResumeGuard \<Rightarrow> bool" where
  "rg_init rg \<longleftrightarrow> (\<exists>ok fl. rg = loadGuard ok fl)"

lemmas rg_ops = settlePrevious_def markStable_def decide_def liftSuppression_def arm_def disarm_def strike_def survived_def
  noteExit_def Let_def

lemma rg_step_inv: "rg_step rg rg' \<Longrightarrow> rgInv rg \<Longrightarrow> rgInv rg'"
  by (induction rule: rg_step.induct) (auto simp: rg_ops, auto simp: rgInv_def rg_constants)

interpretation resumeGuard: transition_system rg_init rg_step rgInv
  by unfold_locales (auto simp: rg_init_def loadGuard_inv intro: rg_step_inv)

text \<open>Whatever is in the file, and in whatever order the operations are called, the strikes stay within
  0..3, the unstable boots within 0..1000000, and the guard is armed only for a profile.\<close>

theorem resume_guard_bounds:
  assumes "rg_step\<^sup>*\<^sup>* (loadGuard ok fl) rg"
  shows "0 \<le> m_strikes rg \<and> m_strikes rg \<le> 3 \<and> 0 \<le> m_unstableBoots rg \<and> m_unstableBoots rg \<le> 1000000
    \<and> (m_armed rg \<longrightarrow> 0 \<le> m_profile rg) \<and> (\<not> m_armed rg \<longrightarrow> m_armedAt rg = 0)"
proof -
  have "rg_init (loadGuard ok fl)" by (auto simp: rg_init_def)
  then have "rgInv rg" using assms by (rule resumeGuard.inv_reachable)
  then show ?thesis by (simp add: rgInv_def rg_constants)
qed

theorem resume_guard_bounds_witness:
  "m_strikes (strike True (arm True 5 7 (loadGuard True NoFile))) \<le> 3"
proof -
  have "rg_step\<^sup>*\<^sup>* (loadGuard True NoFile) (strike True (arm True 5 7 (loadGuard True NoFile)))"
    by (rule rtranclp.rtrancl_into_rtrancl [OF r_into_rtranclp]) (rule rg_arm rg_strike)+
  from resume_guard_bounds [OF this] show ?thesis by blast
qed

subsection \<open>The file round trip\<close>

lemma qBound_id: "lo \<le> v \<Longrightarrow> v \<le> hi \<Longrightarrow> qBound lo v hi = v"
  by (simp add: qBound_def)

lemma load_saved:
  assumes "rgInv rg"
  shows "m_profile (loadGuard ok (m_file (save True rg))) = m_profile rg"
    "m_strikes (loadGuard ok (m_file (save True rg))) = m_strikes rg"
    "m_armed (loadGuard ok (m_file (save True rg))) = m_armed rg"
    "m_armedAt (loadGuard ok (m_file (save True rg))) = m_armedAt rg"
    "m_bootOpen (loadGuard ok (m_file (save True rg))) = m_bootOpen rg"
    "m_unstableBoots (loadGuard ok (m_file (save True rg))) = m_unstableBoots rg"
    "m_previousExit (loadGuard ok (m_file (save True rg))) = m_lastExit rg"
  using assms
  by (auto simp: loadGuard_def save_def Let_def jvalue_def jToInt_def jToBool_def jToObject_def jIsEmpty_def qBound_id
      freshGuard_def rgInv_def kResumeGuardVersion_def)

text \<open>What a boot saves is what the next boot loads: profile, strikes, arming, boot streak; and the exit
  it noted is the previous exit of the next boot.\<close>

theorem resume_file_roundtrip:
  assumes "rgInv rg"
  shows "\<exists>l. loadGuard ok (m_file (save True rg)) = l \<and> m_profile l = m_profile rg \<and> m_strikes l = m_strikes rg
    \<and> m_armed l = m_armed rg \<and> m_armedAt l = m_armedAt rg \<and> m_bootOpen l = m_bootOpen rg
    \<and> m_unstableBoots l = m_unstableBoots rg \<and> m_previousExit l = m_lastExit rg"
  using load_saved [OF assms] by blast

theorem resume_file_roundtrip_witness:
  "m_strikes (loadGuard True (m_file (save True ((freshGuard NoFile)\<lparr>m_profile := 4, m_strikes := 2\<rparr>)))) = 2"
proof -
  have "rgInv ((freshGuard NoFile)\<lparr>m_profile := 4, m_strikes := 2\<rparr>)" by (simp add: rgInv_def freshGuard_def rg_constants)
  from resume_file_roundtrip [OF this, of True] show ?thesis by auto
qed

subsection \<open>Crash loops\<close>

text \<open>A boot that resumes profile \<open>p\<close> if the guard lets it and then dies: the result is what \<open>decide\<close>
  answered and the fl left behind.\<close>

definition crashBoot :: "int \<Rightarrow> int \<Rightarrow> StateFile \<Rightarrow> int \<times> StateFile" where
  "crashBoot p now fl =
     (let (r, rg) = decide True p (settlePrevious True (loadGuard True fl)) in (r, m_file (arm True now r rg)))"

fun crashBoots :: "int \<Rightarrow> int list \<Rightarrow> StateFile \<Rightarrow> int list" where
  "crashBoots p [] fl = []"
| "crashBoots p (now # nows) fl = (let (r, fl') = crashBoot p now fl in r # crashBoots p nows fl')"

definition crashCount :: "int \<Rightarrow> StateFile \<Rightarrow> int" where
  "crashCount p fl =
     (let rg = loadGuard True fl
      in if m_profile rg = p then min (m_strikes rg + (if m_armed rg then 1 else 0)) 3 else 0)"

lemma settle_saved: "\<exists>rg'. settlePrevious True rg = save True rg' \<and> (rgInv rg \<longrightarrow> rgInv rg') \<and> \<not> m_armed rg'
    \<and> m_profile rg' = m_profile rg \<and> m_strikes rg' = (if m_armed rg then min (m_strikes rg + 1) 3 else m_strikes rg)"
  by (auto simp: settlePrevious_def Let_def rgInv_def rg_constants intro!: exI)

lemma arm_count:
  assumes "rgInv rg" "0 \<le> p" "m_profile rg = p"
  shows "crashCount p (m_file (arm ok' now p rg)) = min (m_strikes rg + 1) 3 \<or> \<not> ok'"
proof -
  have "rgInv (rg\<lparr>m_armed := True, m_armedAt := now\<rparr>)" using assms by (simp add: rgInv_def)
  from load_saved [OF this, of True] show ?thesis using assms
    by (auto simp: arm_def crashCount_def Let_def)
qed

lemma crashBoot_count:
  assumes p: "0 \<le> p"
  shows "if crashCount p fl < 3
    then fst (crashBoot p now fl) = p \<and> crashCount p (snd (crashBoot p now fl)) = crashCount p fl + 1
    else fst (crashBoot p now fl) = - 1 \<and> crashCount p (snd (crashBoot p now fl)) = 3"
proof -
  define rg where "rg = loadGuard True fl"
  have inv: "rgInv rg" by (simp add: rg_def loadGuard_inv)
  obtain rg' where rg': "settlePrevious True rg = save True rg'" "rgInv rg'" "\<not> m_armed rg'" "m_profile rg' = m_profile rg"
    "m_strikes rg' = (if m_armed rg then min (m_strikes rg + 1) 3 else m_strikes rg)"
    using settle_saved [of rg] inv by blast
  show ?thesis
  proof (cases "m_profile rg = p")
    case same: True
    then have k: "crashCount p fl = m_strikes rg'"
      using inv rg' by (auto simp: crashCount_def rg_def [symmetric] rgInv_def rg_constants)
    show ?thesis
    proof (cases "m_strikes rg' < 3")
      case True
      have d: "decide True p (settlePrevious True rg) = (p, (save True rg')\<lparr>m_suppressed := False\<rparr>)"
        using True same rg' p by (simp add: decide_def rg'(1) rg_constants)
      have "rgInv ((save True rg')\<lparr>m_suppressed := False\<rparr>)" using rg'(2) by (simp add: rgInv_def)
      from arm_count [OF this p, of True now] show ?thesis using True same rg' k d
        by (simp add: crashBoot_def rg_def [symmetric])
    next
      case False
      have d: "decide True p (settlePrevious True rg) = (- 1, (save True rg')\<lparr>m_suppressed := True\<rparr>)"
        using False same rg' p by (simp add: decide_def rg'(1) rg_constants)
      have "m_strikes rg' = 3" using False rg'(2) by (simp add: rgInv_def rg_constants)
      then have "crashCount p (m_file (save True rg')) = 3"
        using load_saved [OF rg'(2), of True] same rg' by (simp add: crashCount_def)
      then show ?thesis using False k d by (simp add: crashBoot_def rg_def [symmetric] arm_def)
    qed
  next
    case False
    define rg1 where "rg1 = (save True rg')\<lparr>m_suppressed := False, m_profile := p, m_strikes := 0, m_armed := False, m_armedAt := 0\<rparr>"
    have d: "decide True p (settlePrevious True rg) = (p, if m_profile rg' \<ge> 0 then save True rg1 else rg1)"
      using False rg' p by (simp add: decide_def rg'(1) Let_def rg1_def)
    have i1: "rgInv rg1" using rg'(2) p by (simp add: rgInv_def rg1_def rg_constants)
    have "crashCount p fl = 0" using False by (simp add: crashCount_def rg_def [symmetric])
    moreover have "crashCount p (m_file (arm True now p (if m_profile rg' \<ge> 0 then save True rg1 else rg1))) = 1"
      using arm_count [of rg1 p True now] arm_count [of "save True rg1" p True now] i1 p by (simp add: rg1_def)
    ultimately show ?thesis using d by (simp add: crashBoot_def rg_def [symmetric])
  qed
qed

text \<open>C7: the crash loop is cut. Whatever the file contains at first, among any number of boots in a row that
  die after resuming profile \<open>p\<close>, at most three resume it; all later ones are refused.\<close>

theorem crash_loop_bounded:
  assumes "0 \<le> p"
  shows "length (filter (\<lambda>r. r = p) (crashBoots p nows fl)) \<le> 3
    \<and> list_all (\<lambda>r. r = - 1) (drop 3 (crashBoots p nows fl))"
proof -
  have count: "\<exists>n. crashBoots p nows fl = replicate n p @ replicate (length nows - n) (- 1)
      \<and> int n \<le> 3 - crashCount p fl \<and> n \<le> length nows" for fl
  proof (induction nows arbitrary: fl)
    case Nil
    have "crashCount p fl \<le> 3" by (simp add: crashCount_def Let_def)
    then show ?case by (intro exI [of _ 0]) simp
  next
    case (Cons now nows)
    obtain n where n: "crashBoots p nows (snd (crashBoot p now fl)) = replicate n p @ replicate (length nows - n) (- 1)"
      "int n \<le> 3 - crashCount p (snd (crashBoot p now fl))" "n \<le> length nows" using Cons.IH by blast
    show ?case
    proof (cases "crashCount p fl < 3")
      case True
      then show ?thesis using crashBoot_count [OF assms, of fl now] n
        by (intro exI [of _ "Suc n"]) (auto simp: case_prod_beta)
    next
      case False
      moreover have "crashCount p fl \<le> 3" by (simp add: crashCount_def Let_def)
      moreover from False have "n = 0" using crashBoot_count [OF assms, of fl now] n(2) by simp
      ultimately show ?thesis using crashBoot_count [OF assms, of fl now] n
        by (intro exI [of _ 0]) (auto simp: case_prod_beta)
    qed
  qed
  obtain n where n: "crashBoots p nows fl = replicate n p @ replicate (length nows - n) (- 1)" "int n \<le> 3 - crashCount p fl"
    using count by blast
  moreover have "0 \<le> crashCount p fl" using loadGuard_inv [of True fl] by (auto simp: crashCount_def Let_def rgInv_def)
  ultimately have "n \<le> 3" by linarith
  with n(1) assms show ?thesis by (auto simp: list_all_iff)
qed

theorem crash_loop_bounded_witness: "crashBoots 7 [1, 2, 3, 4, 5] BadFile = [7, 7, 7, - 1, - 1] \<and> (0::int) \<le> 7
   \<and> length (filter (\<lambda>r. r = 7) (crashBoots 7 [1, 2, 3, 4, 5] BadFile)) \<le> 3"
proof -
  have "crashBoots 7 [1, 2, 3, 4, 5] BadFile = [7, 7, 7, - 1, - 1]" by code_simp
  then show ?thesis using crash_loop_bounded [of 7 "[1, 2, 3, 4, 5]" BadFile] by simp
qed

end
