(* ===== verification/Validation_Base.thy ===== *)
theory Validation_Base
  imports Wd_Prelude
begin

text \<open>
  The input checks of \<^verbatim>\<open>src/src/global/Validation.cpp\<close>: the vocabulary, the integer and port checks, lists of items and
  the rule combinators. A check of the program returns an empty string for acceptable text and a
  translated sentence otherwise; here it returns \<open>None\<close> or \<open>Some\<close> of a \<open>vmsg\<close>, one constructor per
  sentence with the values the sentence shows. The functions of the namespace carry the prefix \<open>v\<close>.

  The contract the header of the program states for every check (it looks only at the trimmed text, and
  blank text is treated as empty) is the locale \<open>field_rule\<close>; each check of this and the
  following validation theories is shown to obey it by an interpretation.

  The digit loop of \<open>validationParseInt\<close> is written over natural numbers; \<open>parseIntLoop_bound\<close> shows
  that its accumulator never exceeds the limit, so the 64-bit arithmetic of the program does not wrap.
\<close>

subsection \<open>Vocabulary\<close>

datatype Severity = Severity_Error | Severity_Warning

datatype Empty = Empty_Allowed | Empty_Required

datatype Family = Family_Any | Family_V4 | Family_V6

datatype RangeSep = Colon | Dash

datatype (plugins only: code) vmsg =
    MRequired
  | MWholeNumber
  | MRange int int
  | MPort
  | MUseRange RangeSep
  | MSinglePort RangeSep qstring
  | MPortsTooLarge
  | MRangeMatchesNothing
  | MIntOrRange
  | MRangeReversed
  | MAddDurationUnit qstring
  | MNotDuration
  | MNotNegative
  | MWholeSeconds
  | MAtLeast qstring
  | MAtMost qstring
  | MWholeBeforeUnit
  | MNumberTooLarge
  | MAddMemoryUnit
  | MNotSize
  | MUnknownUnit qstring
  | MBadIp Family
  | MZoneNotAllowed
  | MNeedPrefix
  | MNoNetmask
  | MPrefixLeadingZero
  | MPrefixRange nat
  | MBadHost
  | MHostScheme
  | MNoSpaces
  | MHostPath
  | MPortOwnField
  | MBracketIpv6
  | MAddPort
  | MBadKey bool bool nat nat
  | MNotBase64
  | MNotHex
  | MEvenLength
  | MMaxChars nat
  | MMinChars nat
  | MNotUuid
  | MNotXrayId
  | MUrlScheme "qstring list"
  | MNotUrl
  | MUnknownValue qstring qstring
  | MTokenChars
  | MBadRegex qstring
  | MRe2Unsupported qstring
  | MRe2TooManyRepeats
  | MBadJson qstring nat nat
  | MNotObject
  | MItem nat "qstring option" vmsg

record Issue =
  severity :: Severity
  issueField :: qstring
  issueMessage :: "vmsg option"
  issueValue :: qstring

type_synonym Rule = "qstring \<Rightarrow> vmsg option"

abbreviation accepts :: "Rule \<Rightarrow> qstring \<Rightarrow> bool" where
  "accepts r t \<equiv> r t = None"

definition HasError :: "Issue list \<Rightarrow> bool" where
  "HasError issues \<longleftrightarrow> list_ex (\<lambda>issue. severity issue = Severity_Error) issues"

subsection \<open>Characters and digits\<close>

definition validationDigit :: "qchar \<Rightarrow> bool" where
  "validationDigit c \<longleftrightarrow> 48 \<le> c \<and> c \<le> 57"

definition validationHexDigit :: "qchar \<Rightarrow> bool" where
  "validationHexDigit u \<longleftrightarrow> (48 \<le> u \<and> u \<le> 57) \<or> (97 \<le> u \<and> u \<le> 102) \<or> (65 \<le> u \<and> u \<le> 70)"

definition validationAsciiAlnum :: "qchar \<Rightarrow> bool" where
  "validationAsciiAlnum u \<longleftrightarrow> (48 \<le> u \<and> u \<le> 57) \<or> (97 \<le> u \<and> u \<le> 122) \<or> (65 \<le> u \<and> u \<le> 90)"

definition validationAllDigits :: "qstring \<Rightarrow> bool" where
  "validationAllDigits s \<longleftrightarrow> s \<noteq> [] \<and> list_all validationDigit s"

definition validationSignedDigits :: "qstring \<Rightarrow> bool" where
  "validationSignedDigits s \<longleftrightarrow> validationAllDigits (if startsWith u_dash s then drop 1 s else s)"

definition vRequired :: Rule where
  "vRequired text = (if trimmed text \<noteq> [] then None else Some MRequired)"

definition validationEmpty :: "Empty \<Rightarrow> vmsg option" where
  "validationEmpty emp = (if emp = Empty_Required then vRequired [] else None)"

definition validationShort :: "qstring \<Rightarrow> qstring" where
  "validationShort text = (if length text > 40 then take 40 text @ [0x2026] else text)"

subsection \<open>Numbers\<close>

fun parseIntLoop :: "nat \<Rightarrow> nat \<Rightarrow> qstring \<Rightarrow> nat option" where
  "parseIntLoop limit v [] = Some v"
| "parseIntLoop limit v (c # cs) =
     (if \<not> validationDigit c then None
      else let d = c - 48
        in if v > (limit - d) div 10 then None else parseIntLoop limit (v * 10 + d) cs)"

definition validationParseInt :: "qstring \<Rightarrow> int option" where
  "validationParseInt s =
     (if s = [] then None
      else
        let neg = (hd s = u_dash);
            rest = (if neg then tl s else s);
            limit = 2 ^ 63 - 1 + (if neg then 1 else 0)
        in if rest = [] then None
           else case parseIntLoop limit 0 rest of
                None \<Rightarrow> None
              | Some v \<Rightarrow> if \<not> neg then Some (int v) else if v = limit then Some (- (2 ^ 63)) else Some (- int v))"

definition ToInt :: "qstring \<Rightarrow> int option" where
  "ToInt text = validationParseInt (trimmed text)"

text \<open>The loop that skips leading zeros keeps the last character.\<close>

fun skipZeros :: "qstring \<Rightarrow> qstring" where
  "skipZeros (c # c' # cs) = (if c = u_0 then skipZeros (c' # cs) else c # c' # cs)"
| "skipZeros s = s"

definition validationParseUint16 :: "qstring \<Rightarrow> nat option" where
  "validationParseUint16 s0 =
     (if \<not> validationAllDigits s0 then None
      else
        let s = skipZeros s0
        in if length s > 5 then None
           else let v = value_base 10 s in if v > 65535 then None else Some v)"

definition validationRangeMessage :: "int \<Rightarrow> int \<Rightarrow> vmsg" where
  "validationRangeMessage mn mx = MRange mn mx"

definition vInt :: "int \<Rightarrow> int \<Rightarrow> Empty \<Rightarrow> Rule" where
  "vInt mn mx emp text =
     (let t = trimmed text
      in if t = [] then validationEmpty emp
         else case validationParseInt t of
             None \<Rightarrow> if validationSignedDigits t then Some (validationRangeMessage mn mx) else Some MWholeNumber
           | Some v \<Rightarrow> if v < mn \<or> v > mx then Some (validationRangeMessage mn mx) else None)"

definition validationPortNumber :: "qstring \<Rightarrow> bool" where
  "validationPortNumber t = (case validationParseInt t of None \<Rightarrow> False | Some v \<Rightarrow> \<not> (v < 1 \<or> v > 65535))"

definition vPort :: "Empty \<Rightarrow> Rule" where
  "vPort emp text =
     (let t = trimmed text
      in if t = [] then validationEmpty emp
         else if \<not> validationPortNumber t then Some MPort else None)"

record PortRangeStyle =
  sep :: RangeSep
  allowSingle :: bool
  allowOpenEnds :: bool
  checkOrder :: bool

text \<open>One side of the loop over both sides of the separator; the empty side keeps its default.\<close>

definition portRangeSide :: "PortRangeStyle \<Rightarrow> qstring \<Rightarrow> nat \<Rightarrow> vmsg + nat" where
  "portRangeSide style side dflt =
     (if side = [] then (if \<not> allowOpenEnds style then Inl (MUseRange (sep style)) else Inr dflt)
      else case validationParseUint16 side of
          None \<Rightarrow> Inl (if validationAllDigits side then MPortsTooLarge else MUseRange (sep style))
        | Some v \<Rightarrow> Inr v)"

definition vPortRange :: "PortRangeStyle \<Rightarrow> Rule" where
  "vPortRange style text =
     (let t = trimmed text
      in if t = [] then None
         else case indexOf (if sep style = Colon then u_colon else u_dash) t of
             None \<Rightarrow>
               (if validationParseUint16 t \<noteq> None
                then (if allowSingle style then None else Some (MSinglePort (sep style) t))
                else Some (if validationAllDigits t then MPortsTooLarge else MUseRange (sep style)))
           | Some at \<Rightarrow>
               (case portRangeSide style (take at t) 0 of
                  Inl m \<Rightarrow> Some m
                | Inr start \<Rightarrow>
                    (case portRangeSide style (drop (at + 1) t) 65535 of
                       Inl m \<Rightarrow> Some m
                     | Inr end' \<Rightarrow> if checkOrder style \<and> start > end' then Some MRangeMatchesNothing else None)))"

definition vPortRangeOrder :: "PortRangeStyle \<Rightarrow> Rule" where
  "vPortRangeOrder style text =
     (if vPortRange (style\<lparr>checkOrder := False\<rparr>) text \<noteq> None then None
      else vPortRange (style\<lparr>checkOrder := True\<rparr>) text)"

definition intRangePart :: "int \<Rightarrow> int \<Rightarrow> qstring \<Rightarrow> vmsg + int" where
  "intRangePart mn mx part =
     (if \<not> validationSignedDigits part \<or> (\<not> mn < 0 \<and> startsWith u_dash part) then Inl MIntOrRange
      else case validationParseInt part of
          None \<Rightarrow> Inl (validationRangeMessage mn mx)
        | Some v \<Rightarrow> if v < mn \<or> v > mx then Inl (validationRangeMessage mn mx) else Inr v)"

definition vIntOrRange :: "int \<Rightarrow> int \<Rightarrow> Empty \<Rightarrow> bool \<Rightarrow> Rule" where
  "vIntOrRange mn mx emp allowReversed text =
     (let t = trimmed text
      in if t = [] then validationEmpty emp
         else
           let from = (if mn < 0 \<and> startsWith u_dash t then 1 else 0);
               dash = map_option ((+) from) (indexOf u_dash (drop from t));
               a = (case dash of None \<Rightarrow> t | Some k \<Rightarrow> take k t);
               b = (case dash of None \<Rightarrow> t | Some k \<Rightarrow> drop (k + 1) t)
           in case intRangePart mn mx a of
                Inl m \<Rightarrow> Some m
              | Inr va \<Rightarrow>
                  (case intRangePart mn mx b of
                     Inl m \<Rightarrow> Some m
                   | Inr vb \<Rightarrow> if \<not> allowReversed \<and> va > vb then Some MRangeReversed else None))"

subsection \<open>Lists, tokens and combinators\<close>

datatype Split = Split_Comma | Split_Newline | Split_CommaOrNewline | Split_Whitespace

definition Items :: "qstring \<Rightarrow> Split \<Rightarrow> qstring list" where
  "Items text split =
     (let parts = (case split of
          Split_Comma \<Rightarrow> qsplit u_comma text
        | Split_Newline \<Rightarrow> qsplit u_lf text
        | Split_CommaOrNewline \<Rightarrow> qsplit u_comma (map (\<lambda>c. if c = u_lf then u_comma else c) text)
        | Split_Whitespace \<Rightarrow> qsplit u_space (simplified text))
      in filter (\<lambda>item. item \<noteq> []) (map trimmed parts))"

fun eachItemLoop :: "Rule \<Rightarrow> bool \<Rightarrow> nat \<Rightarrow> qstring list \<Rightarrow> vmsg option" where
  "eachItemLoop item echoItem i [] = None"
| "eachItemLoop item echoItem i (x # xs) =
     (case item x of
        None \<Rightarrow> eachItemLoop item echoItem (i + 1) xs
      | Some message \<Rightarrow> Some (MItem (i + 1) (if echoItem then Some (validationShort x) else None) message))"

definition vEachItem :: "Split \<Rightarrow> Rule option \<Rightarrow> Empty \<Rightarrow> bool \<Rightarrow> Rule" where
  "vEachItem split item emp echoItem text =
     (let items = Items text split
      in if items = [] then validationEmpty emp
         else case item of None \<Rightarrow> None | Some r \<Rightarrow> eachItemLoop r echoItem 0 items)"

fun vAllOf :: "Rule option list \<Rightarrow> Rule" where
  "vAllOf [] text = None"
| "vAllOf (None # rules) text = vAllOf rules text"
| "vAllOf (Some rule # rules) text = (case rule text of None \<Rightarrow> vAllOf rules text | Some message \<Rightarrow> Some message)"

fun shownValues :: "qstring list \<Rightarrow> qstring list \<Rightarrow> qstring list" where
  "shownValues shown [] = shown"
| "shownValues shown (value # rest) =
     (if value = [] then shownValues shown rest
      else if length shown = 12 then shown @ [[0x2026]]
      else shownValues (shown @ [value]) rest)"

text \<open>\<open>same\<close> is the string comparison of the requested case sensitivity.\<close>

definition vOneOf :: "(qstring \<Rightarrow> qstring \<Rightarrow> bool) \<Rightarrow> qstring list \<Rightarrow> Empty \<Rightarrow> Rule" where
  "vOneOf same allowed emp text =
     (let t = trimmed text
      in if t = [] then validationEmpty emp
         else if list_ex (\<lambda>v. same v t) allowed then None
         else Some (MUnknownValue (validationShort t) (qjoin [u_comma, u_space] (shownValues [] allowed))))"

definition validationHttpTokenChar :: "qchar \<Rightarrow> bool" where
  "validationHttpTokenChar u \<longleftrightarrow> validationAsciiAlnum u
     \<or> (u \<noteq> 0 \<and> u < 0x80 \<and> u \<in> set [33, 35, 36, 37, 38, 39, 42, 43, 45, 46, 94, 95, 96, 124, 126])"

definition vHttpToken :: "Empty \<Rightarrow> Rule" where
  "vHttpToken emp text =
     (let t = trimmed text
      in if t = [] then validationEmpty emp
         else if list_all validationHttpTokenChar t then None else Some MTokenChars)"

subsection \<open>What the number parsers accept\<close>

lemma all_digits_simps [simp]:
  "\<not> validationAllDigits []" "validationAllDigits (c # cs) \<longleftrightarrow> validationDigit c \<and> list_all validationDigit cs"
  by (simp_all add: validationAllDigits_def)

lemma digitVal_decimal: "validationDigit c \<Longrightarrow> digitVal c = c - 48 \<and> c - 48 \<le> 9"
  by (auto simp: validationDigit_def digitVal_def)

lemma digits_value_ge: "v \<le> foldl (\<lambda>v c. v * 10 + digitVal c) (v::nat) cs"
proof (induction cs arbitrary: v)
  case (Cons c cs)
  have "v \<le> v * 10 + digitVal c" by simp
  also have "\<dots> \<le> foldl (\<lambda>v c. v * 10 + digitVal c) (v * 10 + digitVal c) cs" by (rule Cons.IH)
  finally show ?case by simp
qed simp

lemma parse_guard: "d \<le> limit \<Longrightarrow> (limit - d) div 10 < v \<longleftrightarrow> limit < v * 10 + (d::nat)"
  by (auto simp: div_less_iff_less_mult)

text \<open>The accumulator never exceeds the limit, so it never wraps.\<close>

lemma parseIntLoop_bound: "9 \<le> limit \<Longrightarrow> v \<le> limit \<Longrightarrow> parseIntLoop limit v cs = Some n \<Longrightarrow> n \<le> limit"
proof (induction limit v cs rule: parseIntLoop.induct)
  case (2 limit v c cs)
  then have "c - 48 \<le> limit" using digitVal_decimal [of c] by (auto split: if_splits)
  with 2 show ?case by (auto simp: Let_def parse_guard not_less split: if_splits)
qed simp

lemma parseIntLoop_spec:
  "9 \<le> limit \<Longrightarrow> v \<le> limit \<Longrightarrow> list_all validationDigit cs \<Longrightarrow>
   parseIntLoop limit v cs =
     (if foldl (\<lambda>v c. v * 10 + digitVal c) v cs \<le> limit then Some (foldl (\<lambda>v c. v * 10 + digitVal c) v cs) else None)"
proof (induction limit v cs rule: parseIntLoop.induct)
  case (2 limit v c cs)
  then have d: "digitVal c = c - 48" "c - 48 \<le> limit" using digitVal_decimal [of c] by auto
  show ?case
  proof (cases "limit < v * 10 + (c - 48)")
    case True
    moreover have "v * 10 + (c - 48) \<le> foldl (\<lambda>v c. v * 10 + digitVal c) (v * 10 + (c - 48)) cs" by (rule digits_value_ge)
    ultimately show ?thesis using 2 d by (simp add: parse_guard)
  next
    case False
    with 2 d show ?thesis by (simp add: parse_guard)
  qed
qed simp

lemma parseIntLoop_not_digits: "\<not> list_all validationDigit cs \<Longrightarrow> parseIntLoop limit v cs = None"
  by (induction limit v cs rule: parseIntLoop.induct) (auto simp: Let_def)

text \<open>The integer a text denotes: an optional minus sign and decimal digits.\<close>

definition decimalInt :: "qstring \<Rightarrow> int option" where
  "decimalInt s =
     (if validationSignedDigits s
      then Some (if startsWith u_dash s then - int (value_base 10 (drop 1 s)) else int (value_base 10 s)) else None)"

lemma parse_int_decimal:
  "validationParseInt s = (case decimalInt s of None \<Rightarrow> None | Some n \<Rightarrow> if - (2 ^ 63) \<le> n \<and> n < 2 ^ 63 then Some n else None)"
proof (cases s)
  case Nil
  then show ?thesis by (simp add: validationParseInt_def decimalInt_def validationSignedDigits_def)
next
  case (Cons c cs)
  show ?thesis
  proof (cases "c = u_dash")
    case True
    show ?thesis
    proof (cases "cs = [] \<or> \<not> list_all validationDigit cs")
      case True
      then show ?thesis using Cons \<open>c = u_dash\<close>
        by (auto simp: validationParseInt_def decimalInt_def validationSignedDigits_def validationAllDigits_def parseIntLoop_not_digits)
    next
      case False
      then show ?thesis using Cons \<open>c = u_dash\<close>
        by (auto simp: validationParseInt_def decimalInt_def validationSignedDigits_def validationAllDigits_def
            parseIntLoop_spec value_base_def)
    qed
  next
    case False
    show ?thesis
    proof (cases "list_all validationDigit (c # cs)")
      case True
      then show ?thesis using Cons False parseIntLoop_spec [of "2 ^ 63 - 1" 0 "c # cs"]
        by (auto simp: validationParseInt_def decimalInt_def validationSignedDigits_def value_base_def simp del: parseIntLoop.simps)
    next
      case False
      then show ?thesis using Cons \<open>c \<noteq> u_dash\<close> parseIntLoop_not_digits [of "c # cs"]
        by (auto simp: validationParseInt_def decimalInt_def validationSignedDigits_def simp del: parseIntLoop.simps)
    qed
  qed
qed

lemma decimalInt_Some: "decimalInt s = Some n \<Longrightarrow> validationSignedDigits s"
  by (simp add: decimalInt_def split: if_splits)

lemma decimalInt_None: "decimalInt s = None \<longleftrightarrow> \<not> validationSignedDigits s"
  by (simp add: decimalInt_def)

lemma value_skipZeros: "list_all validationDigit s \<Longrightarrow> value_base 10 (skipZeros s) = value_base 10 s"
  by (induction s rule: skipZeros.induct) (auto simp: value_base_def digitVal_def)

lemma skipZeros_digits: "list_all validationDigit s \<Longrightarrow> list_all validationDigit (skipZeros s)"
  by (induction s rule: skipZeros.induct) auto

lemma skipZeros_head: "length (skipZeros s) > 1 \<Longrightarrow> hd (skipZeros s) \<noteq> u_0"
  by (induction s rule: skipZeros.induct) (auto split: if_splits)

lemma digits_value_lower: "v * 10 ^ length cs \<le> foldl (\<lambda>v c. v * 10 + digitVal c) (v::nat) cs"
proof (induction cs arbitrary: v)
  case (Cons c cs)
  have "v * 10 ^ length (c # cs) \<le> (v * 10 + digitVal c) * 10 ^ length cs" by (simp add: algebra_simps)
  also have "\<dots> \<le> foldl (\<lambda>v c. v * 10 + digitVal c) (v * 10 + digitVal c) cs" by (rule Cons.IH)
  finally show ?case by simp
qed simp

lemma parse_uint16_decimal:
  "validationParseUint16 s = (if validationAllDigits s \<and> value_base 10 s \<le> 65535 then Some (value_base 10 s) else None)"
proof (cases "validationAllDigits s")
  case True
  then have dig: "list_all validationDigit s" by (simp add: validationAllDigits_def)
  have "65535 < value_base 10 s" if long: "length (skipZeros s) > 5"
  proof -
    obtain c cs where s: "skipZeros s = c # cs" using long by (cases "skipZeros s") auto
    have "c \<noteq> u_0" using skipZeros_head [of s] long s by (cases cs) auto
    moreover have "validationDigit c" using skipZeros_digits [OF dig] s by simp
    ultimately have "1 \<le> digitVal c" by (auto simp: validationDigit_def digitVal_def)
    moreover have "(10::nat) ^ 5 \<le> 10 ^ length cs" using long s by (intro power_increasing) auto
    ultimately have "10 ^ 5 \<le> digitVal c * 10 ^ length cs" using mult_le_mono [of 1 "digitVal c" "10 ^ 5" "10 ^ length cs"] by simp
    also have "\<dots> \<le> value_base 10 (skipZeros s)" using digits_value_lower [of "digitVal c" cs] by (simp add: s value_base_def)
    finally show ?thesis by (simp add: value_skipZeros [OF dig])
  qed
  with True show ?thesis by (auto simp: validationParseUint16_def Let_def value_skipZeros [OF dig])
qed (simp add: validationParseUint16_def)


subsection \<open>The contract of a check\<close>

locale trim_rule =
  fixes rule :: Rule
  assumes reads_trimmed: "rule (trimmed t) = rule t"
begin

lemma same_trimmed: "trimmed s = trimmed t \<Longrightarrow> rule s = rule t"
  using reads_trimmed [of s] reads_trimmed [of t] by simp

lemma padding_irrelevant: "\<forall>c \<in> set pre \<union> set post. isSpace c \<Longrightarrow> rule (pre @ t @ post) = rule t"
  by (rule same_trimmed) (rule trimmed_padded)

end

locale field_rule = trim_rule rule for rule :: Rule +
  fixes emp :: Empty
  assumes blank: "trimmed t = [] \<Longrightarrow> rule t = validationEmpty emp"
begin

lemma blank_verdict: "\<forall>c \<in> set t. isSpace c \<Longrightarrow> accepts rule t \<longleftrightarrow> emp = Empty_Allowed"
  by (cases emp) (simp_all add: blank trimmed_blank validationEmpty_def vRequired_def)

end


subsection \<open>Items\<close>

definition cleanParts :: "qchar \<Rightarrow> qstring \<Rightarrow> qstring list" where
  "cleanParts c s = filter (\<lambda>item. item \<noteq> []) (map trimmed (qsplit c s))"

lemma qsplit_snoc:
  "qsplit c (s @ [x]) = (if x = c then qsplit c s @ [[]] else butlast (qsplit c s) @ [last (qsplit c s) @ [x]])"
proof (induction s)
  case (Cons y s)
  then show ?case by (cases "qsplit c s") (auto split: list.splits)
qed simp

lemma trimmed_space_Cons: "isSpace x \<Longrightarrow> trimmed (x # s) = trimmed s"
  using trimmed_padded [of "[x]" "[]" s] by simp

lemma trimmed_space_snoc: "isSpace x \<Longrightarrow> trimmed (s @ [x]) = trimmed s"
  using trimmed_padded [of "[]" "[x]" s] by simp

lemma cleanParts_Cons: "isSpace x \<or> x = c \<Longrightarrow> cleanParts c (x # s) = cleanParts c s"
  by (cases "qsplit c s") (auto simp: cleanParts_def trimmed_space_Cons trimmed_blank)

lemma cleanParts_snoc: "isSpace x \<or> x = c \<Longrightarrow> cleanParts c (s @ [x]) = cleanParts c s"
  by (cases "qsplit c s" rule: rev_cases) (auto simp: cleanParts_def qsplit_snoc trimmed_space_snoc trimmed_blank)

lemma cleanParts_padded:
  "(\<forall>x \<in> set pre \<union> set post. isSpace x \<or> x = c) \<Longrightarrow> cleanParts c (pre @ s @ post) = cleanParts c s"
proof (induction pre)
  case Nil
  then show ?case
  proof (induction post rule: rev_induct)
    case (snoc x post)
    then show ?case using cleanParts_snoc [of x c "s @ post"] by simp
  qed simp
next
  case (Cons x pre)
  then show ?case by (simp add: cleanParts_Cons)
qed

lemma Items_cleanParts:
  "Items text Split_Comma = cleanParts u_comma text"
  "Items text Split_Newline = cleanParts u_lf text"
  "Items text Split_CommaOrNewline = cleanParts u_comma (map (\<lambda>c. if c = u_lf then u_comma else c) text)"
  "Items text Split_Whitespace = cleanParts u_space (simplified text)"
  by (simp_all add: Items_def cleanParts_def)

lemma Items_trimmed: "Items (trimmed text) split = Items text split"
proof -
  obtain pre post where t: "text = pre @ trimmed text @ post" "\<forall>c \<in> set pre \<union> set post. isSpace c"
    using trimmed_decompose [of "text"] by blast
  have "Items (pre @ trimmed text @ post) split = Items (trimmed text) split" if "split \<noteq> Split_Whitespace"
    using that t(2) by (cases split) (auto simp: Items_cleanParts intro!: cleanParts_padded)
  moreover have "Items (trimmed text) Split_Whitespace = Items text Split_Whitespace"
    by (simp add: Items_cleanParts simplified_def)
  ultimately show ?thesis using t(1) by (cases "split = Split_Whitespace") auto
qed

lemma Items_blank: "trimmed text = [] \<Longrightarrow> Items text split = []"
proof -
  assume "trimmed text = []"
  then have "Items text split = Items [] split" using Items_trimmed [of "text" split] by simp
  also have "\<dots> = []" by (cases split) (simp_all add: Items_def simplified_def)
  finally show ?thesis .
qed

lemma Items_trimmed_nonempty: "x \<in> set (Items text split) \<Longrightarrow> trimmed x = x \<and> x \<noteq> []"
  by (cases split) (auto simp: Items_def)

subsection \<open>The checks obey the contract\<close>

interpretation required: field_rule vRequired Empty_Required
  by unfold_locales (simp_all add: vRequired_def validationEmpty_def)

interpretation intRule: field_rule "vInt mn mx emp" emp for mn mx emp
  by unfold_locales (simp_all add: vInt_def)

interpretation portRule: field_rule "vPort emp" emp for emp
  by unfold_locales (simp_all add: vPort_def)

interpretation portRange: field_rule "vPortRange style" Empty_Allowed for style
  by unfold_locales (simp_all add: vPortRange_def validationEmpty_def)

interpretation portRangeOrder: field_rule "vPortRangeOrder style" Empty_Allowed for style
  by unfold_locales (simp_all add: vPortRangeOrder_def portRange.reads_trimmed portRange.blank validationEmpty_def)

interpretation intOrRange: field_rule "vIntOrRange mn mx emp allowReversed" emp for mn mx emp allowReversed
  by unfold_locales (simp_all add: vIntOrRange_def)

interpretation oneOf: field_rule "vOneOf same allowed emp" emp for same allowed emp
  by unfold_locales (simp_all add: vOneOf_def)

interpretation httpToken: field_rule "vHttpToken emp" emp for emp
  by unfold_locales (simp_all add: vHttpToken_def)

interpretation eachItem: field_rule "vEachItem split item emp echoItem" emp for split item emp echoItem
  by unfold_locales (simp_all add: vEachItem_def Items_trimmed Items_blank)

text \<open>A conjunction of such checks looks only at the trimmed text too.\<close>

lemma allOf_trim_rule: "(\<And>r. Some r \<in> set rules \<Longrightarrow> trim_rule r) \<Longrightarrow> trim_rule (vAllOf rules)"
proof (induction rules)
  case Nil
  show ?case by unfold_locales simp
next
  case (Cons r rules)
  then have IH: "vAllOf rules (trimmed t) = vAllOf rules t" for t by (simp add: trim_rule_def)
  show ?case
  proof unfold_locales
    fix t
    show "vAllOf (r # rules) (trimmed t) = vAllOf (r # rules) t"
      using Cons.prems trim_rule.reads_trimmed [of "the r" t] by (cases r) (auto simp: IH split: option.splits)
  qed
qed

lemma allOf_accepts: "accepts (vAllOf rules) t \<longleftrightarrow> (\<forall>r. Some r \<in> set rules \<longrightarrow> accepts r t)"
  by (induction rules t rule: vAllOf.induct) (auto split: option.splits)

subsection \<open>Verdicts\<close>

text \<open>The integer check, for bounds that are 64-bit integers: blank text is decided by the rule for
  empty fields, text that is not an optional minus and digits is no whole number, and a number is
  accepted exactly when it lies within the bounds, however many digits it has.\<close>

theorem int_check_exact:
  assumes "- (2 ^ 63) \<le> mn" "mx < 2 ^ 63"
  shows "vInt mn mx emp text =
    (if trimmed text = [] then validationEmpty emp
     else case decimalInt (trimmed text) of
         None \<Rightarrow> Some MWholeNumber
       | Some n \<Rightarrow> if mn \<le> n \<and> n \<le> mx then None else Some (MRange mn mx))"
proof -
  have "validationSignedDigits (trimmed text) \<longleftrightarrow> decimalInt (trimmed text) \<noteq> None" by (simp add: decimalInt_None)
  then show ?thesis using assms
    by (cases "decimalInt (trimmed text)") (auto simp: vInt_def Let_def parse_int_decimal validationRangeMessage_def)
qed

theorem int_check_exact_witness:
  "vInt 1 9 Empty_Allowed (qs '' 007 '') = None \<and> vInt 1 9 Empty_Allowed (qs ''99999999999999999999'') = Some (MRange 1 9)"
  using int_check_exact [of 1 9 Empty_Allowed "qs '' 007 ''"] int_check_exact [of 1 9 Empty_Allowed "qs ''99999999999999999999''"]
  by (simp add: trimmed_def isSpace_def decimalInt_def validationSignedDigits_def validationDigit_def value_base_def digitVal_def)

definition portSide :: "PortRangeStyle \<Rightarrow> qstring \<Rightarrow> nat \<Rightarrow> nat option" where
  "portSide style side dflt =
     (if side = [] then (if allowOpenEnds style then Some dflt else None)
      else if validationAllDigits side \<and> value_base 10 side \<le> 65535 then Some (value_base 10 side) else None)"

lemma portRangeSide_spec:
  "portRangeSide style side dflt = Inr v \<longleftrightarrow> portSide style side dflt = Some v"
  by (auto simp: portRangeSide_def portSide_def parse_uint16_decimal)

abbreviation sepChar :: "PortRangeStyle \<Rightarrow> qchar" where
  "sepChar style \<equiv> if sep style = Colon then 58 else 45"

definition wellFormedRange :: "PortRangeStyle \<Rightarrow> qstring \<Rightarrow> nat \<Rightarrow> nat \<Rightarrow> bool" where
  "wellFormedRange style t a b \<longleftrightarrow> (\<exists>l r. t = l @ sepChar style # r \<and> sepChar style \<notin> set l
     \<and> portSide style l 0 = Some a \<and> portSide style r 65535 = Some b)"

lemma wellFormedRange_unique:
  assumes "wellFormedRange style t a b" "wellFormedRange style t a' b'"
  shows "a = a' \<and> b = b'"
proof -
  obtain l r where l: "t = l @ sepChar style # r" "sepChar style \<notin> set l" "portSide style l 0 = Some a" "portSide style r 65535 = Some b"
    using assms(1) unfolding wellFormedRange_def by blast
  obtain l' r' where l': "t = l' @ sepChar style # r'" "sepChar style \<notin> set l'" "portSide style l' 0 = Some a'"
      "portSide style r' 65535 = Some b'"
    using assms(2) unfolding wellFormedRange_def by blast
  have "l = l' \<and> r = r'" using first_split_unique [of l "sepChar style" r l' r'] l l' by simp
  with l l' show ?thesis by simp
qed

lemma port_range_cases:
  assumes "trimmed t = t" "t \<noteq> []"
  shows "accepts (vPortRange style) t \<longleftrightarrow>
      (sepChar style \<notin> set t \<and> validationAllDigits t \<and> value_base 10 t \<le> 65535 \<and> allowSingle style)
    \<or> (\<exists>a b. wellFormedRange style t a b \<and> (checkOrder style \<longrightarrow> a \<le> b))"
proof (cases "indexOf (sepChar style) t")
  case None
  then have "sepChar style \<notin> set t" by (simp add: indexOf_None)
  then show ?thesis using assms None by (auto simp: vPortRange_def parse_uint16_decimal wellFormedRange_def)
next
  case (Some k)
  then have in_t: "sepChar style \<in> set t" by (metis indexOf_None option.distinct(1))
  define l r where "l = take k t" and "r = drop (k + 1) t"
  have t: "t = l @ sepChar style # r" "sepChar style \<notin> set l"
    using indexOf_decompose [OF Some] by (auto simp: l_def r_def)
  have wf: "wellFormedRange style t a b \<longleftrightarrow> portSide style l 0 = Some a \<and> portSide style r 65535 = Some b" for a b
    using t first_split_unique [of l "sepChar style" r] unfolding wellFormedRange_def by metis
  have "accepts (vPortRange style) t \<longleftrightarrow>
      (\<exists>a b. portRangeSide style l 0 = Inr a \<and> portRangeSide style r 65535 = Inr b \<and> (checkOrder style \<longrightarrow> a \<le> b))"
    using assms Some by (auto simp: vPortRange_def l_def r_def not_less split: sum.splits if_splits)
  then show ?thesis using in_t by (auto simp: portRangeSide_spec wf)
qed


text \<open>The port range check. Text is accepted exactly when it is blank, or a single port where the style
  allows it, or two sides around the first separator, each a decimal number up to 65535 or (where open
  ends are allowed) empty, in order when the order is checked. The order warning is given exactly for
  well-formed ranges that start after they end.\<close>

theorem port_range_verdict:
  "(accepts (vPortRange style) text \<longleftrightarrow>
      trimmed text = []
    \<or> (sepChar style \<notin> set (trimmed text) \<and> validationAllDigits (trimmed text) \<and> value_base 10 (trimmed text) \<le> 65535
        \<and> allowSingle style)
    \<or> (\<exists>a b. wellFormedRange style (trimmed text) a b \<and> (if checkOrder style then a \<le> b else True)))
   \<and> (accepts (vPortRangeOrder style) text \<longleftrightarrow> \<not> (\<exists>a b. wellFormedRange style (trimmed text) a b \<and> b < a))"
proof (cases "trimmed text = []")
  case True
  then show ?thesis
    by (auto simp: portRange.blank portRangeOrder.blank validationEmpty_def wellFormedRange_def)
next
  case False
  note cases' = port_range_cases [of "trimmed text", OF trimmed_trimmed False, unfolded portRange.reads_trimmed]
  have style_indep: "wellFormedRange (style\<lparr>checkOrder := f\<rparr>) = wellFormedRange style" for f
    by (intro ext) (simp add: wellFormedRange_def portSide_def)
  note func = wellFormedRange_unique
  have wf_sep: "wellFormedRange style t a b \<Longrightarrow> sepChar style \<in> set t" for t a b
    by (auto simp: wellFormedRange_def)
  have "accepts (vPortRangeOrder style) text \<longleftrightarrow> \<not> (\<exists>a b. wellFormedRange style (trimmed text) a b \<and> b < a)"
  proof (cases "\<exists>a b. wellFormedRange style (trimmed text) a b")
    case True
    then obtain a b where ab: "wellFormedRange style (trimmed text) a b" by blast
    then have ex: "(\<exists>a b. wellFormedRange style (trimmed text) a b \<and> P a b) \<longleftrightarrow> P a b" for P
      using func by blast
    then have "accepts (vPortRange (style\<lparr>checkOrder := False\<rparr>)) text" by (auto simp: cases' style_indep)
    moreover have "accepts (vPortRange (style\<lparr>checkOrder := True\<rparr>)) text \<longleftrightarrow> a \<le> b"
      using wf_sep [OF ab] by (simp add: cases' style_indep ex)
    ultimately show ?thesis by (simp add: vPortRangeOrder_def ex not_less)
  next
    case False
    then show ?thesis by (auto simp: vPortRangeOrder_def cases' style_indep)
  qed
  then show ?thesis using False by (auto simp: cases')
qed

lemma eachItemLoop_find:
  "eachItemLoop r echo i xs =
     (case find (\<lambda>(k, x). r x \<noteq> None) (enumerate (i + 1) xs) of
        None \<Rightarrow> None
      | Some (k, x) \<Rightarrow> Some (MItem k (if echo then Some (validationShort x) else None) (the (r x))))"
  by (induction r echo i xs rule: eachItemLoop.induct) (auto split: option.splits)

text \<open>A list of items is judged by its first rejected item: blank text by the rule for empty fields,
  otherwise the message names the position, from 1, and the text of the first item the rule rejects, and the list
  is accepted exactly when every item is. The items are never blank and carry no outer white space.\<close>

theorem each_item_verdict:
  "vEachItem split (Some r) emp echo text =
     (if Items text split = [] then validationEmpty emp
      else case find (\<lambda>(k, x). r x \<noteq> None) (enumerate 1 (Items text split)) of
          None \<Rightarrow> None
        | Some (k, x) \<Rightarrow> Some (MItem k (if echo then Some (validationShort x) else None) (the (r x))))
   \<and> list_all (\<lambda>x. trimmed x = x \<and> x \<noteq> []) (Items text split)"
  using Items_trimmed_nonempty [of _ "text" split]
  by (auto simp: vEachItem_def eachItemLoop_find list_all_iff)

end
