(* ===== verification/Validation_Ip.thy ===== *)
theory Validation_Ip
  imports Validation_Base
begin

text \<open>
  The address checks of \<^verbatim>\<open>src/src/global/Validation.cpp\<close>: IPv4 and IPv6 literals, CIDR blocks, host names and host:port pairs. The two
  literal parsers are index loops in the program; here they walk the suffix of the text that is left, with the
  same variables. They are shown equivalent to grammars: an IPv4 literal is the canonical print of four
  numbers up to 255, an IPv6 literal is made of groups (\<open>groups\<close>) that fill sixteen bytes or leave room for one
  double colon. \<open>QUrl::toAce\<close> is an argument of the host checks.
\<close>

subsection \<open>IPv4\<close>

fun ipv4Loop :: "qchar option \<Rightarrow> nat \<Rightarrow> nat \<Rightarrow> nat \<Rightarrow> qstring \<Rightarrow> bool" where
  "ipv4Loop prev val pos digLen [] \<longleftrightarrow> pos = 3"
| "ipv4Loop prev val pos digLen (c # cs) \<longleftrightarrow>
     (if validationDigit c then
        if digLen = 1 \<and> val = 0 then False
        else let val' = val * 10 + (c - 48)
          in if val' > 255 then False else ipv4Loop (Some c) val' pos (digLen + 1) cs
      else if c = u_dot then
        if prev = None \<or> cs = [] \<or> prev = Some u_dot then False
        else if pos = 3 then False
        else ipv4Loop (Some c) 0 (pos + 1) 0 cs
      else False)"

definition validationIpv4Fields :: "qstring \<Rightarrow> bool" where
  "validationIpv4Fields s = ipv4Loop None 0 0 0 s"

subsection \<open>IPv6\<close>

definition hexVal :: "qchar \<Rightarrow> nat" where
  "hexVal u = (if u \<le> 57 then u - 48 else if u \<le> 70 then u - 65 + 10 else u - 97 + 10)"

text \<open>The digits of one group: how many, and what follows; \<open>None\<close> for more than four digits or a value
  over 0xFFFF.\<close>

fun hexRun :: "nat \<Rightarrow> nat \<Rightarrow> qstring \<Rightarrow> (nat \<times> qstring) option" where
  "hexRun off acc [] = Some (off, [])"
| "hexRun off acc (c # cs) =
     (if \<not> validationHexDigit c then Some (off, c # cs)
      else let acc' = acc * 16 + hexVal c
        in if off > 3 \<or> acc' > 0xFFFF then None else hexRun (off + 1) acc' cs)"

definition ipv6End :: "qstring \<Rightarrow> nat \<Rightarrow> nat option \<Rightarrow> bool" where
  "ipv6End rest i ellipsis \<longleftrightarrow> (if rest \<noteq> [] then False else if i < 16 then ellipsis \<noteq> None else ellipsis = None)"

function ipv6Loop :: "nat \<Rightarrow> nat option \<Rightarrow> qstring \<Rightarrow> bool" where
  "ipv6Loop i ellipsis s \<longleftrightarrow>
     (if \<not> i < 16 then ipv6End s i ellipsis
      else case hexRun 0 0 s of
          None \<Rightarrow> False
        | Some (off, rest) \<Rightarrow>
            if off = 0 then False
            else case rest of
                [] \<Rightarrow> ipv6End [] (i + 2) ellipsis
              | c # rest' \<Rightarrow>
                  if c = u_dot then
                    if ellipsis = None \<and> i \<noteq> 12 then False
                    else if i + 4 > 16 then False
                    else if \<not> validationIpv4Fields s then False
                    else ipv6End [] (i + 4) ellipsis
                  else if c \<noteq> u_colon \<or> rest' = [] then False
                  else if startsWith u_colon rest' then
                    if ellipsis \<noteq> None then False
                    else if tl rest' = [] then ipv6End [] (i + 2) (Some (i + 2))
                    else ipv6Loop (i + 2) (Some (i + 2)) (tl rest')
                  else ipv6Loop (i + 2) ellipsis rest')"
  by pat_completeness auto
termination
  by (relation "measure (\<lambda>(i, ellipsis, s). 16 - i)") auto

declare ipv6Loop.simps [simp del]

definition ipv6Body :: "qstring \<Rightarrow> bool" where
  "ipv6Body s \<longleftrightarrow>
     (if length s \<ge> 2 \<and> s ! 0 = u_colon \<and> s ! 1 = u_colon
      then (if length s = 2 then True else ipv6Loop 0 (Some 0) (drop 2 s))
      else ipv6Loop 0 None s)"

text \<open>The verdict and the flag for a zone.\<close>

definition validationIpv6 :: "qstring \<Rightarrow> bool \<times> bool" where
  "validationIpv6 s =
     (case indexOf u_percent s of
        Some pct \<Rightarrow> if pct = length s - 1 then (False, False) else (ipv6Body (take pct s), True)
      | None \<Rightarrow> (ipv6Body s, False))"

datatype ValidationIpKind = IpInvalid | IpV4 | IpV6

record ValidationIp =
  kind :: ValidationIpKind
  zoned :: bool

fun parseIpScan :: "qstring \<Rightarrow> qstring \<Rightarrow> ValidationIp" where
  "parseIpScan s [] = \<lparr>kind = IpInvalid, zoned = False\<rparr>"
| "parseIpScan s (c # cs) =
     (if c = u_dot then \<lparr>kind = (if validationIpv4Fields s then IpV4 else IpInvalid), zoned = False\<rparr>
      else if c = u_colon then
        let (ok, z) = validationIpv6 s in \<lparr>kind = (if ok then IpV6 else IpInvalid), zoned = z\<rparr>
      else if c = u_percent then \<lparr>kind = IpInvalid, zoned = False\<rparr>
      else parseIpScan s cs)"

definition validationParseIp :: "qstring \<Rightarrow> ValidationIp" where
  "validationParseIp s = parseIpScan s s"

definition validationIpMessage :: "Family \<Rightarrow> vmsg" where
  "validationIpMessage family = MBadIp family"

definition validationCheckIp :: "ValidationIp \<Rightarrow> Family \<Rightarrow> vmsg option" where
  "validationCheckIp ip family =
     (if kind ip = IpInvalid then Some (validationIpMessage family)
      else if family = Family_V4 \<and> kind ip \<noteq> IpV4 then Some (validationIpMessage family)
      else if family = Family_V6 \<and> kind ip \<noteq> IpV6 then Some (validationIpMessage family)
      else if zoned ip then Some MZoneNotAllowed
      else None)"

definition vIp :: "Family \<Rightarrow> Empty \<Rightarrow> Rule" where
  "vIp family emp text =
     (let t = trimmed text
      in if t = [] then validationEmpty emp else validationCheckIp (validationParseIp t) family)"

definition vCidr :: "Family \<Rightarrow> bool \<Rightarrow> Empty \<Rightarrow> Rule" where
  "vCidr family allowBareIp emp text =
     (let t = trimmed text
      in if t = [] then validationEmpty emp
         else case lastIndexOf u_slash t of
             None \<Rightarrow> if allowBareIp then validationCheckIp (validationParseIp t) family else Some MNeedPrefix
           | Some slash \<Rightarrow>
               let ip = validationParseIp (take slash t);
                   bits = drop (slash + 1) t;
                   maxBits = (if kind ip = IpV4 then 32 else 128)
               in case validationCheckIp ip family of
                    Some message \<Rightarrow> Some message
                  | None \<Rightarrow>
                      if u_dot \<in> set bits then Some MNoNetmask
                      else if \<not> validationAllDigits bits then Some MNeedPrefix
                      else if length bits > 1 \<and> bits ! 0 = u_0 then Some MPrefixLeadingZero
                      else if length bits > 3 \<or> value_base 10 bits > maxBits then Some (MPrefixRange maxBits)
                      else None)"

subsection \<open>Hosts\<close>

definition validationZoneHasColon :: "qstring \<Rightarrow> bool" where
  "validationZoneHasColon s = (case indexOf u_percent s of None \<Rightarrow> False | Some pct \<Rightarrow> u_colon \<in> set (drop (pct + 1) s))"

definition validationIpv6Like :: "qstring \<Rightarrow> bool" where
  "validationIpv6Like s =
     (let address = (case indexOf u_percent s of None \<Rightarrow> s | Some pct \<Rightarrow> take pct s)
      in case indexOf u_colon address of
           None \<Rightarrow> False
         | Some colon \<Rightarrow>
             if (case indexOf u_dot address of None \<Rightarrow> False | Some dot \<Rightarrow> dot < colon) then False
             else list_all (\<lambda>c. validationHexDigit c \<or> c = u_colon \<or> c = u_dot) address)"

definition schemeSep :: qstring where
  "schemeSep = [58, 47, 47]"

definition validLabel :: "nat list \<Rightarrow> bool" where
  "validLabel label \<longleftrightarrow> \<not> (label = [] \<or> length label > 63 \<or> startsWith u_dash label \<or> endsWith u_dash label)
     \<and> list_all (\<lambda>c. validationAsciiAlnum c \<or> c = u_dash \<or> c = 95) label"

definition validDnsName :: "nat list \<Rightarrow> bool" where
  "validDnsName ace =
     (let name = (if endsWith u_dot ace then butlast ace else ace)
      in if name = [] \<or> length name > 253 then False else list_all validLabel (qsplit u_dot name))"

definition vHost :: "(qstring \<Rightarrow> nat list) \<Rightarrow> Empty \<Rightarrow> Rule" where
  "vHost toAce emp text =
     (let t = trimmed text
      in if t = [] then validationEmpty emp
         else if containsStr schemeSep t then Some MHostScheme
         else if list_ex isSpace t then Some MNoSpaces
         else if list_ex (\<lambda>c. c = u_slash \<or> c = 63 \<or> c = u_hash \<or> c = 64) t then Some MHostPath
         else if startsWith u_lbracket t then
           (case indexOf u_rbracket t of
              None \<Rightarrow> Some MBadHost
            | Some close \<Rightarrow>
                if kind (validationParseIp (take (close - 1) (drop 1 t))) \<noteq> IpV6 then Some MBadHost
                else let rest = drop (close + 1) t
                  in if rest = [] then None
                     else if startsWith u_colon rest \<and> validationAllDigits (drop 1 rest) then Some MPortOwnField
                     else Some MBadHost)
         else if kind (validationParseIp t) \<noteq> IpInvalid then
           (if \<not> validationZoneHasColon t then None
            else if validationAllDigits (case lastIndexOf u_colon t of None \<Rightarrow> t | Some k \<Rightarrow> drop (k + 1) t)
              then Some MPortOwnField else Some (validationIpMessage Family_V6))
         else case lastIndexOf u_colon t of
             Some colon \<Rightarrow>
               if indexOf u_colon t \<noteq> Some colon
               then Some (if validationIpv6Like t then validationIpMessage Family_V6 else MBadHost)
               else if validationAllDigits (drop (colon + 1) t) then Some MPortOwnField
               else Some MBadHost
           | None \<Rightarrow>
               if list_all (\<lambda>c. validationDigit c \<or> c = u_dot) t then Some (validationIpMessage Family_V4)
               else if validDnsName (toAce t) then None else Some MBadHost)"

text \<open>The end of \<open>HostPort\<close>: the port, or its absence.\<close>

definition hostPortTail :: "bool \<Rightarrow> qstring option \<Rightarrow> vmsg option" where
  "hostPortTail portRequired port =
     (case port of
        None \<Rightarrow> if portRequired then Some MAddPort else None
      | Some p \<Rightarrow> if \<not> validationPortNumber p then Some MPort else None)"

definition vHostPort :: "(qstring \<Rightarrow> nat list) \<Rightarrow> bool \<Rightarrow> Empty \<Rightarrow> Rule" where
  "vHostPort toAce portRequired emp text =
     (let t = trimmed text
      in if t = [] then validationEmpty emp
         else if containsStr schemeSep t then Some MHostScheme
         else if startsWith u_lbracket t then
           (case indexOf u_rbracket t of
              None \<Rightarrow> Some (validationIpMessage Family_V6)
            | Some close \<Rightarrow>
                if kind (validationParseIp (take (close - 1) (drop 1 t))) \<noteq> IpV6 then Some (validationIpMessage Family_V6)
                else let rest = drop (close + 1) t
                  in if rest = [] then hostPortTail portRequired None
                     else if \<not> startsWith u_colon rest then Some MBadHost
                     else hostPortTail portRequired (Some (drop 1 rest)))
         else if kind (validationParseIp t) = IpV6 then
           (if portRequired \<or> validationZoneHasColon t then Some MBracketIpv6 else None)
         else
           let colon = lastIndexOf u_colon t;
               host = (case colon of None \<Rightarrow> t | Some k \<Rightarrow> take k t);
               port = (case colon of None \<Rightarrow> None | Some k \<Rightarrow> Some (drop (k + 1) t))
           in if colon \<noteq> None \<and> u_colon \<in> set host
              then Some (if validationIpv6Like host then MBracketIpv6 else MBadHost)
              else if host = [] then Some MBadHost
              else case vHost toAce Empty_Required host of
                  Some message \<Rightarrow> Some message
                | None \<Rightarrow> hostPortTail portRequired port)"

interpretation ipRule: field_rule "vIp family emp" emp for family emp
  by unfold_locales (simp_all add: vIp_def)

interpretation cidrRule: field_rule "vCidr family allowBareIp emp" emp for family allowBareIp emp
  by unfold_locales (simp_all add: vCidr_def)

interpretation hostRule: field_rule "vHost toAce emp" emp for toAce emp
  by unfold_locales (simp_all add: vHost_def)

interpretation hostPortRule: field_rule "vHostPort toAce portRequired emp" emp for toAce portRequired emp
  by unfold_locales (simp_all add: vHostPort_def)

subsection \<open>The IPv4 grammar\<close>

definition octet :: "qstring \<Rightarrow> bool" where
  "octet g \<longleftrightarrow> validationAllDigits g \<and> value_base 10 g \<le> 255 \<and> (length g > 1 \<longrightarrow> hd g \<noteq> u_0)"

definition octetPrefix :: "qstring \<Rightarrow> bool" where
  "octetPrefix g \<longleftrightarrow> g = [] \<or> octet g"

lemma value_prefix_le: "value_base 10 g \<le> value_base 10 (g @ r)"
  using digits_value_ge [of "value_base 10 g" r] by (simp add: value_base_def)

lemma octet_prefix_closed: "octet (g @ r) \<Longrightarrow> g \<noteq> [] \<Longrightarrow> octet g"
  using value_prefix_le [of g r] by (cases g) (auto simp: octet_def)

lemma qsplit_notin: "c \<notin> set s \<Longrightarrow> qsplit c s = [s]"
  by (induction s) auto

lemma qsplit_at: "c \<notin> set g \<Longrightarrow> qsplit c (g @ c # s) = g # qsplit c s"
  by (induction g) auto

lemma qsplit_prefix: "c \<notin> set g \<Longrightarrow> qsplit c (g @ s) = (g @ hd (qsplit c s)) # tl (qsplit c s)"
  by (induction g) auto

lemma qjoin_step: "xs \<noteq> [] \<Longrightarrow> qjoin sp (x # xs) = x @ sp @ qjoin sp xs"
  by (cases xs) auto

lemma qjoin_qsplit: "qjoin [c] (qsplit c s) = s"
proof (induction s)
  case (Cons x s)
  then show ?case
    by (cases "qsplit c s"; cases "tl (qsplit c s)") (auto simp: qjoin_step)
qed simp

lemma octet_snoc:
  assumes "octetPrefix g" "validationDigit c"
  shows "octet (g @ [c]) \<longleftrightarrow> \<not> (length g = 1 \<and> value_base 10 g = 0) \<and> value_base 10 g * 10 + (c - 48) \<le> 255"
proof (cases g)
  case Nil
  then show ?thesis using assms by (auto simp: octet_def value_base_def digitVal_def validationDigit_def)
next
  case (Cons d ds)
  then have g: "validationDigit d" "list_all validationDigit ds" "length g > 1 \<longrightarrow> d \<noteq> u_0"
    using assms by (auto simp: octetPrefix_def octet_def)
  have "digitVal c = c - 48" using assms digitVal_decimal by blast
  moreover have "(length g = 1 \<and> value_base 10 g = 0) \<longleftrightarrow> d = u_0"
    using g Cons by (auto simp: value_base_def digitVal_def validationDigit_def)
  ultimately show ?thesis using g Cons assms value_base_snoc [of 10 g c] by (auto simp: octet_def)
qed

lemma ipv4Loop_spec:
  assumes "octetPrefix g" "val = value_base 10 g" "digLen = length g" "pos \<le> 3"
    and "prev = (if g \<noteq> [] then Some (last g) else if pos = 0 then None else Some u_dot)"
    and "g = [] \<longrightarrow> pos = 0 \<or> s \<noteq> []"
  shows "ipv4Loop prev val pos digLen s \<longleftrightarrow> pos + length (qsplit u_dot (g @ s)) = 4 \<and> list_all octet (qsplit u_dot (g @ s))"
  using assms
proof (induction prev val pos digLen s arbitrary: g rule: ipv4Loop.induct)
  case (1 prev val pos digLen)
  then have "u_dot \<notin> set g" by (auto simp: octetPrefix_def octet_def validationAllDigits_def list_all_iff validationDigit_def)
  then have "qsplit u_dot g = [g]" by (rule qsplit_notin)
  moreover have "octet []  = False" by (simp add: octet_def)
  ultimately show ?case using 1 by (auto simp: octetPrefix_def)
next
  case (2 prev val pos digLen c cs)
  have dig: "list_all validationDigit g" using "2.prems"(1) by (auto simp: octetPrefix_def octet_def validationAllDigits_def)
  have dot: "u_dot \<notin> set g" using dig by (auto simp: list_all_iff validationDigit_def)
  consider "validationDigit c" | "c = u_dot" | "\<not> validationDigit c" "c \<noteq> u_dot" by blast
  then show ?case
  proof cases
    case c: 1
    have gc: "octet (g @ [c]) \<longleftrightarrow> \<not> (digLen = 1 \<and> val = 0) \<and> val * 10 + (c - 48) \<le> 255"
      using octet_snoc [OF "2.prems"(1) c] "2.prems" by simp
    show ?thesis
    proof (cases "octet (g @ [c])")
      case True
      have "value_base 10 (g @ [c]) = val * 10 + (c - 48)" using "2.prems" digitVal_decimal [OF c] by (simp add: value_base_snoc)
      with True gc c "2.prems" "2.IH"(1) [of "val * 10 + (c - 48)" "g @ [c]"] show ?thesis by (auto simp: octetPrefix_def)
    next
      case False
      have "u_dot \<notin> set (g @ [c])" using dot c by (auto simp: validationDigit_def)
      then obtain ps where "qsplit u_dot (g @ [c] @ cs) = (g @ [c] @ hd (qsplit u_dot cs)) # ps"
        using qsplit_prefix [of u_dot "g @ [c]" cs] by auto
      moreover have "\<not> octet (g @ [c] @ hd (qsplit u_dot cs))" using False octet_prefix_closed [of "g @ [c]"] by auto
      ultimately show ?thesis using False gc c by auto
    qed
  next
    case c: 2
    have sp: "qsplit u_dot (g @ c # cs) = g # qsplit u_dot cs" using c qsplit_at [OF dot] by simp
    have o0: "octet [] = False" by (simp add: octet_def)
    have nd: "\<not> validationDigit u_dot" by (simp add: validationDigit_def)
    have lastg: "g \<noteq> [] \<Longrightarrow> last g \<noteq> u_dot" using dot last_in_set [of g] by metis
    show ?thesis
    proof (cases "g = [] \<or> cs = [] \<or> pos = 3")
      case True
      then show ?thesis using c sp nd o0 "2.prems" qsplit_nonempty [of u_dot cs] by (auto simp: octetPrefix_def Suc_le_eq)
    next
      case False
      with "2.IH"(2) [of "[]"] c sp nd "2.prems" lastg show ?thesis by (auto simp: octetPrefix_def value_base_def)
    qed
  next
    case c: 3
    obtain ps where ps: "qsplit u_dot (g @ c # cs) = (g @ hd (qsplit u_dot (c # cs))) # ps"
      using qsplit_prefix [OF dot, of "c # cs"] by auto
    have "c \<in> set (hd (qsplit u_dot (c # cs)))" using c by (auto split: list.splits)
    then have "\<not> octet (g @ hd (qsplit u_dot (c # cs)))"
      using c by (auto simp: octet_def validationAllDigits_def list_all_iff)
    then show ?thesis using c ps by simp
  qed
qed

lemma ipv4_grammar: "validationIpv4Fields s \<longleftrightarrow> length (qsplit u_dot s) = 4 \<and> list_all octet (qsplit u_dot s)"
  using ipv4Loop_spec [of "[]" 0 0 0 None s] by (simp add: validationIpv4Fields_def octetPrefix_def value_base_def)


text \<open>Decimal text without a leading zero is the print of its value.\<close>

lemma number_value:
  "validationAllDigits g \<Longrightarrow> (length g > 1 \<longrightarrow> hd g \<noteq> u_0) \<Longrightarrow> number (value_base 10 g) = g"
proof (induction g rule: rev_induct)
  case (snoc c g)
  then have c: "validationDigit c" "digitVal c = c - 48" "c - 48 \<le> 9" "48 \<le> c"
    using digitVal_decimal [of c] by (auto simp: validationAllDigits_def validationDigit_def)
  then obtain e where e: "c = 48 + e" "e \<le> 9" by (metis add_diff_inverse_nat le_imp_less_Suc not_less_eq less_or_eq_imp_le linorder_not_less)
  then have dc: "digitChar e = c" by (simp add: digitChar_def)
  show ?case
  proof (cases "g = []")
    case True
    then show ?thesis using c dc e by (simp add: value_base_def number_base.simps)
  next
    case False
    then obtain d ds where g: "g = d # ds" by (cases g) auto
    have dig: "validationAllDigits g" "d \<noteq> u_0" using snoc.prems g by (auto simp: validationAllDigits_def)
    then have "1 \<le> digitVal d" using g by (auto simp: digitVal_def validationDigit_def)
    then have "1 \<le> value_base 10 g" using value_prefix_le [of "[d]" ds] g by (simp add: value_base_def)
    moreover have "number (value_base 10 g) = g" using snoc.IH dig g by auto
    moreover have "value_base 10 (g @ [c]) = value_base 10 g * 10 + e" using c e by (simp add: value_base_snoc)
    ultimately show ?thesis using dc e number_base.simps [of 10 "value_base 10 (g @ [c])"] by simp
  qed
qed simp

lemma octet_number: "octet g \<longleftrightarrow> (\<exists>n \<le> 255. g = number n)"
proof
  assume "octet g"
  then show "\<exists>n \<le> 255. g = number n" using number_value [of g] by (metis octet_def)
next
  assume "\<exists>n \<le> 255. g = number n"
  then obtain n where n: "n \<le> 255" "g = number n" by blast
  have "list_all validationDigit (number n)"
    using set_number_digits by (auto simp: list_all_iff validationDigit_def isDigit_def)
  with n show "octet g" using number_canonical [of 10 n]
    by (simp add: octet_def validationAllDigits_def value_number_base)
qed

subsection \<open>The IPv6 grammar\<close>

definition hexGroup :: "qstring \<Rightarrow> bool" where
  "hexGroup g \<longleftrightarrow> g \<noteq> [] \<and> length g \<le> 4 \<and> list_all validationHexDigit g"

text \<open>Groups separated by colons that fill so many bytes; the last one may be an IPv4 literal.\<close>

inductive groups :: "nat \<Rightarrow> qstring \<Rightarrow> bool" where
  one_group: "hexGroup g \<Longrightarrow> groups 2 g"
| v4_tail: "validationIpv4Fields s \<Longrightarrow> groups 4 s"
| more_groups: "hexGroup g \<Longrightarrow> groups k s \<Longrightarrow> groups (k + 2) (g @ u_colon # s)"

text \<open>The same without an IPv4 literal, each group followed by a colon: what stands before the second colon of
  a double colon.\<close>

inductive leading :: "nat \<Rightarrow> qstring \<Rightarrow> bool" where
  first_leading: "hexGroup g \<Longrightarrow> leading 2 (g @ [u_colon])"
| more_leading: "hexGroup g \<Longrightarrow> leading k s \<Longrightarrow> leading (k + 2) (g @ u_colon # s)"

lemma hexVal_le: "validationHexDigit c \<Longrightarrow> hexVal c \<le> 15"
  by (auto simp: validationHexDigit_def hexVal_def)

lemma hexRun_spec:
  "off \<le> 4 \<Longrightarrow> acc < 16 ^ off \<Longrightarrow>
   hexRun off acc s =
     (let g = takeWhile validationHexDigit s
      in if off + length g \<le> 4 then Some (off + length g, dropWhile validationHexDigit s) else None)"
proof (induction off acc s rule: hexRun.induct)
  case (2 off acc c cs)
  show ?case
  proof (cases "validationHexDigit c")
    case True
    have acc': "acc * 16 + hexVal c < 16 ^ (off + 1)" using "2.prems" hexVal_le [OF True] by simp
    show ?thesis
    proof (cases "off > 3")
      case False
      then have "(16::nat) ^ (off + 1) \<le> 16 ^ 4" by (intro power_increasing) auto
      then have "acc * 16 + hexVal c \<le> 0xFFFF" using acc' by simp
      then show ?thesis using True False 2 acc' by (auto simp: Let_def)
    qed (use True in \<open>auto simp: Let_def\<close>)
  qed (use 2 in simp)
qed simp

lemma hexRun_start:
  "hexRun 0 0 s = (let g = takeWhile validationHexDigit s in if length g \<le> 4 then Some (length g, dropWhile validationHexDigit s) else None)"
  using hexRun_spec [of 0 0 s] by (simp add: Let_def)

lemma not_hex_simps [simp]: "\<not> validationHexDigit 58" "\<not> validationHexDigit 46"
  by (simp_all add: validationHexDigit_def)

lemma hexGroup_run:
  assumes "hexGroup g" "s = [] \<or> \<not> validationHexDigit (hd s)"
  shows "takeWhile validationHexDigit (g @ s) = g" "dropWhile validationHexDigit (g @ s) = s"
  using assms by (cases s; auto simp: hexGroup_def list_all_iff takeWhile_append)+

lemma ipv4_head: "validationIpv4Fields s \<Longrightarrow> \<exists>g r. hexGroup g \<and> s = g @ u_dot # r"
proof -
  assume v4: "validationIpv4Fields s"
  then obtain g ps where g: "qsplit u_dot s = g # ps" "octet g" "ps \<noteq> []"
    unfolding ipv4_grammar by (cases "qsplit u_dot s"; fastforce)
  have dot: "u_dot \<in> set s" using g qsplit_notin [of u_dot s] by (cases "u_dot \<in> set s") auto
  then obtain l r where s: "s = l @ u_dot # r" "u_dot \<notin> set l" using split_list_first by metis
  then have "l = g" using g qsplit_at by auto
  obtain n where "n \<le> 255" "g = number n" using g octet_number by blast
  then have "length g \<le> 4" using length_number_base [of 10 n 2] by simp
  moreover have "list_all validationHexDigit g" "g \<noteq> []"
    using g by (auto simp: octet_def validationAllDigits_def list_all_iff validationDigit_def validationHexDigit_def)
  ultimately show ?thesis using s \<open>l = g\<close> by (auto simp: hexGroup_def)
qed

lemma groups_step:
  fixes s defines "g \<equiv> takeWhile validationHexDigit s" and "rest \<equiv> dropWhile validationHexDigit s"
  shows "groups k s \<longleftrightarrow> hexGroup g \<and> ((rest = [] \<and> k = 2) \<or> (startsWith u_dot rest \<and> validationIpv4Fields s \<and> k = 4)
    \<or> (\<exists>r k'. rest = u_colon # r \<and> groups k' r \<and> k = k' + 2))" (is "_ \<longleftrightarrow> ?R")
proof
  assume "groups k s"
  then show ?R
  proof cases
    case one_group
    then have "g = s" "rest = []" using hexGroup_run [of s "[]"]
      by (simp_all add: g_def rest_def del: takeWhile_eq_all_conv dropWhile_eq_Nil_conv)
    then show ?thesis using one_group by simp
  next
    case v4_tail
    then show ?thesis using ipv4_head [of s] hexGroup_run by (auto simp: g_def rest_def)
  next
    case (more_groups h k' r)
    then show ?thesis using hexGroup_run [of h "u_colon # r"] by (auto simp: g_def rest_def)
  qed
next
  have s: "s = g @ rest" by (simp add: g_def rest_def)
  assume ?R
  then show "groups k s" using s one_group [of g] v4_tail [of s] more_groups [of g] by auto
qed

lemma groups_head: "groups k s \<Longrightarrow> s \<noteq> [] \<and> \<not> startsWith u_colon s"
  using groups_step [of k s] by (cases s) (auto simp: hexGroup_def split: if_splits)

lemma leading_head: "leading k s \<Longrightarrow> s \<noteq> [] \<and> \<not> startsWith u_colon s"
proof (induction rule: leading.induct)
  case (first_leading g)
  then show ?case by (cases g) (auto simp: hexGroup_def)
next
  case (more_leading g k s)
  then show ?case by (cases g) (auto simp: hexGroup_def)
qed

text \<open>A text with a double colon whose groups fill less than \<open>m\<close> bytes.\<close>

definition compressed :: "nat \<Rightarrow> qstring \<Rightarrow> bool" where
  "compressed m s \<longleftrightarrow> (\<exists>k l. leading k l \<and> ((s = l @ [u_colon] \<and> k < m)
     \<or> (\<exists>k' r. s = l @ u_colon # r \<and> groups k' r \<and> k + k' < m)))"

lemma compressed_step:
  fixes s defines "g \<equiv> takeWhile validationHexDigit s" and "rest \<equiv> dropWhile validationHexDigit s"
  shows "compressed m s \<longleftrightarrow> hexGroup g \<and> (\<exists>r. rest = u_colon # r \<and>
     ((r = [u_colon] \<and> 2 < m) \<or> (\<exists>k' r'. r = u_colon # r' \<and> groups k' r' \<and> 2 + k' < m) \<or> (2 < m \<and> compressed (m - 2) r)))"
    (is "_ \<longleftrightarrow> ?R")
proof
  assume "compressed m s"
  then obtain k l where kl: "leading k l" "(s = l @ [u_colon] \<and> k < m) \<or> (\<exists>k' r. s = l @ u_colon # r \<and> groups k' r \<and> k + k' < m)"
    unfolding compressed_def by blast
  from kl(1) show ?R
  proof cases
    case (first_leading h)
    then obtain r where r: "s = h @ u_colon # u_colon # r" using kl(2) by auto
    then have "g = h" "rest = u_colon # u_colon # r"
      using hexGroup_run [of h "u_colon # u_colon # r"] first_leading by (simp_all add: g_def rest_def)
    then show ?thesis using kl(2) first_leading r by auto
  next
    case (more_leading h j l')
    then obtain r where r: "s = h @ u_colon # l' @ u_colon # r" using kl(2) by auto
    then have g: "g = h" "rest = u_colon # l' @ u_colon # r"
      using hexGroup_run [of h "u_colon # l' @ u_colon # r"] more_leading by (simp_all add: g_def rest_def)
    have "2 < m \<and> compressed (m - 2) (l' @ u_colon # r)"
      using kl(2) more_leading r unfolding compressed_def by fastforce
    then show ?thesis using g more_leading by simp
  qed
next
  have s: "s = g @ rest" by (simp add: g_def rest_def)
  assume R: ?R
  then obtain r where g: "hexGroup g" "rest = u_colon # r" by blast
  from R g consider "r = [u_colon]" "2 < m" | k' r' where "r = u_colon # r'" "groups k' r'" "2 + k' < m"
    | "2 < m" "compressed (m - 2) r" by auto
  then show "compressed m s"
  proof cases
    case 1
    then show ?thesis using first_leading [OF g(1)] s g unfolding compressed_def by force
  next
    case 2
    then show ?thesis using first_leading [OF g(1)] s g unfolding compressed_def by force
  next
    case 3
    then obtain k l where kl: "leading k l" "(r = l @ [u_colon] \<and> k < m - 2) \<or> (\<exists>k' r'. r = l @ u_colon # r' \<and> groups k' r' \<and> k + k' < m - 2)"
      unfolding compressed_def by blast
    have "leading (k + 2) (g @ u_colon # l)" using more_leading g kl(1) by blast
    then show ?thesis using kl(2) s g 3(1) unfolding compressed_def
      by (intro exI [of _ "k + 2"] exI [of _ "g @ u_colon # l"]) force
  qed
qed


lemma colon_first [simp]:
  "\<not> groups k []" "\<not> groups k (58 # s)" "\<not> compressed m []" "\<not> compressed m (58 # s)"
proof -
  show "\<not> groups k []" "\<not> groups k (58 # s)" using groups_head [of k "[]"] groups_head [of k "58 # s"] by auto
  show "\<not> compressed m []" by (simp add: compressed_def)
  show "\<not> compressed m (58 # s)"
    using leading_head unfolding compressed_def by (fastforce simp: startsWith_def Cons_eq_append_conv split: list.splits)
qed

lemma ipv6_loop_after: "ipv6Loop i (Some e) s \<longleftrightarrow> (\<exists>k. groups k s \<and> i + k < 16)"
proof (induction i "Some e" s arbitrary: e rule: ipv6Loop.induct)
  case (1 i s e)
  define g rest where "g = takeWhile validationHexDigit s" and "rest = dropWhile validationHexDigit s"
  note unf = ipv6Loop.simps [of i "Some e" s]
  note grp = groups_step [of _ s, folded g_def rest_def]
  show ?case
  proof (cases "i < 16 \<and> hexGroup g")
    case False
    have "length g \<le> 4 \<Longrightarrow> list_all validationHexDigit g" by (auto simp: g_def list_all_iff dest: set_takeWhileD)
    then have "\<not> ipv6Loop i (Some e) s"
      using False by (subst unf) (auto simp: ipv6End_def hexRun_start Let_def g_def [symmetric] hexGroup_def)
    moreover have "\<not> (\<exists>k. groups k s \<and> i + k < 16)" using False by (auto simp: grp)
    ultimately show ?thesis by blast
  next
    case True
    then have run: "hexRun 0 0 s = Some (length g, rest)" "length g \<noteq> 0"
      by (auto simp: hexRun_start g_def rest_def hexGroup_def Let_def)
    show ?thesis
    proof (cases rest)
      case Nil
      then show ?thesis using True run by (subst unf) (auto simp: ipv6End_def grp)
    next
      case (Cons c r)
      consider "c = u_dot" | "c = u_colon" | "c \<noteq> u_dot" "c \<noteq> u_colon" by blast
      then show ?thesis
      proof cases
        case 1
        then show ?thesis using True run Cons by (subst unf) (auto simp: ipv6End_def grp)
      next
        case 2
        have "ipv6Loop i (Some e) s \<longleftrightarrow> r \<noteq> [] \<and> \<not> startsWith u_colon r \<and> ipv6Loop (i + 2) (Some e) r"
          using True run Cons 2 by (subst unf) auto
        also have "\<dots> \<longleftrightarrow> (\<exists>k. groups k r \<and> i + 2 + k < 16)"
          using 1(2) [OF _ run(1) refl run(2)] True Cons 2 groups_head by auto
        also have "\<dots> \<longleftrightarrow> (\<exists>k. groups k s \<and> i + k < 16)"
          using True Cons 2 by (auto simp: grp)
        finally show ?thesis .
      next
        case 3
        then show ?thesis using True run Cons by (subst unf) (auto simp: grp)
      qed
    qed
  qed
qed


lemma ipv6_loop_before:
  "even i \<Longrightarrow> i < 16 \<or> s \<noteq> [] \<and> i = 16 \<Longrightarrow>
   ipv6Loop i None s \<longleftrightarrow> (\<exists>k. groups k s \<and> i + k = 16) \<or> compressed (16 - i) s"
proof (induction i "None :: nat option" s rule: ipv6Loop.induct)
  case (1 i s)
  define g rest where "g = takeWhile validationHexDigit s" and "rest = dropWhile validationHexDigit s"
  note unf = ipv6Loop.simps [of i None s]
  note grp = groups_step [of _ s, folded g_def rest_def]
  note cmp = compressed_step [of _ s, folded g_def rest_def]
  show ?case
  proof (cases "i < 16 \<and> hexGroup g")
    case False
    have "list_all validationHexDigit g" by (auto simp: g_def list_all_iff dest: set_takeWhileD)
    then have "\<not> ipv6Loop i None s"
      using False 1(2,3) by (subst unf) (auto simp: ipv6End_def hexRun_start Let_def g_def [symmetric] hexGroup_def)
    moreover have "\<not> (\<exists>k. groups k s \<and> i + k = 16)" "\<not> compressed (16 - i) s"
      using False 1(3) by (auto simp: grp cmp)
    ultimately show ?thesis by blast
  next
    case True
    then have run: "hexRun 0 0 s = Some (length g, rest)" "length g \<noteq> 0"
      by (auto simp: hexRun_start g_def rest_def hexGroup_def Let_def)
    show ?thesis
    proof (cases rest)
      case Nil
      then show ?thesis using True run 1(2) by (subst unf) (auto simp: ipv6End_def grp cmp elim!: evenE)
    next
      case (Cons c r)
      consider "c = u_dot" | "c = u_colon" | "c \<noteq> u_dot" "c \<noteq> u_colon" by blast
      then show ?thesis
      proof cases
        case 1
        then show ?thesis using True run Cons by (subst unf) (auto simp: ipv6End_def grp cmp)
      next
        case c: 2
        have step: "ipv6Loop i None s \<longleftrightarrow> r \<noteq> [] \<and> (if startsWith u_colon r
            then (tl r = [] \<and> i + 2 < 16) \<or> (\<exists>k. groups k (tl r) \<and> i + 2 + k < 16) else ipv6Loop (i + 2) None r)"
          using True run Cons c groups_head by (subst unf) (auto simp: ipv6End_def ipv6_loop_after)
        show ?thesis
        proof (cases "r = [] \<or> startsWith u_colon r")
          case True
          then show ?thesis using step Cons c \<open>i < 16 \<and> hexGroup g\<close>
            by (cases r) (auto simp: grp cmp less_diff_conv add.commute)
        next
          case False
          have "even (i + 2)" "i + 2 < 16 \<or> r \<noteq> [] \<and> i + 2 = 16" using 1(2) True False by (auto elim!: evenE)
          then have "ipv6Loop (i + 2) None r \<longleftrightarrow> (\<exists>k. groups k r \<and> i + 2 + k = 16) \<or> compressed (16 - (i + 2)) r"
            using 1(1) [OF _ run(1) refl run(2)] True Cons c False by auto
          moreover have "compressed 0 r = False" by (simp add: compressed_def)
          moreover have "i + 2 < 16 \<or> 16 - (i + 2) = 0" by auto
          ultimately show ?thesis using step False Cons c True by (cases r) (auto simp: grp cmp)
        qed
      next
        case 3
        then show ?thesis using True run Cons by (subst unf) (auto simp: grp cmp)
      qed
    qed
  qed
qed

text \<open>What \<open>Ip\<close> accepts as IPv6: groups that fill sixteen bytes, or a double colon (which may come first or
  last) with groups that fill at most fourteen.\<close>

definition ipv6Text :: "qstring \<Rightarrow> bool" where
  "ipv6Text s \<longleftrightarrow> groups 16 s \<or> s = [u_colon, u_colon] \<or> (\<exists>k r. s = u_colon # u_colon # r \<and> groups k r \<and> k < 16) \<or> compressed 16 s"

lemma ipv6_grammar: "ipv6Body s \<longleftrightarrow> ipv6Text s"
proof (cases "length s \<ge> 2 \<and> s ! 0 = u_colon \<and> s ! 1 = u_colon")
  case True
  then obtain r where s: "s = u_colon # u_colon # r" by (cases s; cases "tl s") auto
  then show ?thesis by (auto simp: ipv6Body_def ipv6Text_def ipv6_loop_after)
next
  case False
  then have "\<not> (\<exists>r. s = u_colon # u_colon # r)" by auto
  then show ?thesis using False ipv6_loop_before [of 0 s] unfolding ipv6Body_def ipv6Text_def by auto
qed

text \<open>C10: the literals the address check accepts are exactly those of the grammars: an IPv4 literal is the
  canonical decimal print of four numbers up to 255 with dots between them, an IPv6 literal (without zone) is groups of one to
  four hexadecimal digits and possibly a final IPv4 literal that fill sixteen bytes, or at most fourteen around one
  double colon.\<close>

theorem ip_literal_grammar:
  "(validationIpv4Fields s \<longleftrightarrow> (\<exists>a b c d. a \<le> 255 \<and> b \<le> 255 \<and> c \<le> 255 \<and> d \<le> 255
      \<and> s = number a @ [u_dot] @ number b @ [u_dot] @ number c @ [u_dot] @ number d))
   \<and> (if u_percent \<in> set s then True else validationIpv6 s = (ipv6Text s, False))"
proof -
  have nodot: "u_dot \<notin> set (number n)" for n using set_number_digits [of u_dot n] by (auto simp: isDigit_def)
  have "validationIpv4Fields s \<longleftrightarrow> (\<exists>a b c d. a \<le> 255 \<and> b \<le> 255 \<and> c \<le> 255 \<and> d \<le> 255
      \<and> s = number a @ [u_dot] @ number b @ [u_dot] @ number c @ [u_dot] @ number d)" (is "_ \<longleftrightarrow> ?R")
  proof
    assume "validationIpv4Fields s"
    then obtain o1 o2 o3 o4 where o: "qsplit u_dot s = [o1, o2, o3, o4]" "octet o1" "octet o2" "octet o3" "octet o4"
      by (auto simp: ipv4_grammar numeral_eq_Suc length_Suc_conv)
    have "s = qjoin [u_dot] (qsplit u_dot s)" by (rule qjoin_qsplit [symmetric])
    then show ?R using o by (auto simp: octet_number)
  next
    assume ?R
    then show "validationIpv4Fields s" by (auto simp: ipv4_grammar qsplit_at nodot qsplit_notin octet_number)
  qed
  then show ?thesis by (simp add: validationIpv6_def ipv6_grammar)
qed


subsection \<open>Blocks\<close>

lemma lastIndexOf_hit: "c \<notin> set r \<Longrightarrow> lastIndexOf c (l @ c # r) = Some (length l)"
  using indexOf_append_hit [of c "rev r" "rev l"] by (simp add: lastIndexOf_def)

lemma lastIndexOf_None: "lastIndexOf c s = None \<longleftrightarrow> c \<notin> set s"
  by (simp add: lastIndexOf_def indexOf_None)

lemma lastIndexOf_cases:
  obtains "c \<notin> set s" "lastIndexOf c s = None" | l r where "s = l @ c # r" "c \<notin> set r" "lastIndexOf c s = Some (length l)"
  using split_list_last [of c s] lastIndexOf_hit [of c] by (cases "c \<in> set s") (auto simp: lastIndexOf_None)

definition maxBits :: "ValidationIp \<Rightarrow> nat" where
  "maxBits ip = (if kind ip = IpV4 then 32 else 128)"

text \<open>A prefix length: decimal, no leading zero, at most the given maximum, is the print of a number.\<close>

lemma prefix_length_number:
  assumes "mx \<le> 128"
  shows "(u_dot \<notin> set bits \<and> validationAllDigits bits \<and> \<not> (length bits > 1 \<and> bits ! 0 = u_0)
      \<and> \<not> (length bits > 3 \<or> value_base 10 bits > mx)) \<longleftrightarrow> (\<exists>n \<le> mx. bits = number n)" (is "?L \<longleftrightarrow> ?R")
proof
  assume L: ?L
  then have "length bits > 1 \<longrightarrow> hd bits \<noteq> u_0" by (cases bits) auto
  then show ?R using L number_value [of bits] by (metis leI)
next
  assume ?R
  then obtain n where n: "n \<le> mx" "bits = number n" by blast
  have "list_all validationDigit bits" using n set_number_digits by (auto simp: list_all_iff validationDigit_def isDigit_def)
  moreover have "u_dot \<notin> set bits" using n set_number_digits [of u_dot n] by (auto simp: isDigit_def)
  moreover have "length bits > 1 \<longrightarrow> bits ! 0 \<noteq> u_0" using n number_canonical [of 10 n] by (simp add: hd_conv_nth)
  moreover have "length bits \<le> 3" using n assms length_number_base [of 10 n 2] by simp
  moreover have "bits \<noteq> []" using n by simp
  ultimately show ?L using n by (simp add: validationAllDigits_def value_number_base)
qed

text \<open>The block check accepts exactly: blank text where it may be empty, an accepted bare address where those are
  allowed, and an accepted address, a slash and a prefix length in canonical decimal that does not exceed 32 for
  IPv4 and 128 for IPv6.\<close>

theorem cidr_check_exact:
  "accepts (vCidr family allowBareIp emp) text \<longleftrightarrow>
     (trimmed text = [] \<and> emp = Empty_Allowed)
   \<or> (allowBareIp \<and> u_slash \<notin> set (trimmed text) \<and> trimmed text \<noteq> [] \<and> validationCheckIp (validationParseIp (trimmed text)) family = None)
   \<or> (\<exists>a n. trimmed text = a @ u_slash # number n \<and> validationCheckIp (validationParseIp a) family = None
        \<and> n \<le> maxBits (validationParseIp a))"
proof (cases "trimmed text = []")
  case True
  then show ?thesis by (cases emp) (simp_all add: vCidr_def validationEmpty_def vRequired_def)
next
  case False
  have noslash: "u_slash \<notin> set (number n)" for n using set_number_digits [of u_slash n] by (auto simp: isDigit_def)
  show ?thesis
  proof (cases rule: lastIndexOf_cases [of u_slash "trimmed text"])
    case 1
    then show ?thesis using False by (auto simp: vCidr_def)
  next
    case (2 l r)
    have mb: "maxBits (validationParseIp l) \<le> 128" by (simp add: maxBits_def)
    have "accepts (vCidr family allowBareIp emp) text \<longleftrightarrow> validationCheckIp (validationParseIp l) family = None
        \<and> (\<exists>n \<le> maxBits (validationParseIp l). r = number n)"
      using False 2 unfolding prefix_length_number [OF mb, symmetric]
      by (auto simp: vCidr_def Let_def maxBits_def split: option.splits if_splits)
    also have "\<dots> \<longleftrightarrow> (\<exists>a n. trimmed text = a @ u_slash # number n \<and> validationCheckIp (validationParseIp a) family = None
        \<and> n \<le> maxBits (validationParseIp a))"
      using 2 noslash lastIndexOf_hit [of u_slash] by (metis append_eq_append_conv list.inject option.inject)
    finally show ?thesis using 2 False by auto
  qed
qed


subsection \<open>Host and port together\<close>

lemma groups_colons: "groups k s \<Longrightarrow> k \<le> 2 * count_list s u_colon + 4"
  by (induction rule: groups.induct) auto

lemma leading_colons: "leading k s \<Longrightarrow> 1 \<le> count_list s u_colon"
  by (induction rule: leading.induct) auto

text \<open>Text with at most one colon is no IPv6 literal.\<close>

lemma one_colon_not_ipv6: "count_list s u_colon \<le> 1 \<Longrightarrow> \<not> ipv6Text s"
  using groups_colons [of 16 s] leading_colons by (fastforce simp: ipv6Text_def compressed_def)

lemma parseIpScan_v6: "kind (parseIpScan s cs) = IpV6 \<Longrightarrow> fst (validationIpv6 s)"
  by (induction s cs rule: parseIpScan.induct) (auto simp: Let_def split: prod.splits if_splits)

lemma one_colon_kind:
  assumes "count_list s u_colon \<le> 1"
  shows "kind (validationParseIp s) \<noteq> IpV6"
proof
  assume "kind (validationParseIp s) = IpV6"
  then have v6: "fst (validationIpv6 s)" unfolding validationParseIp_def by (rule parseIpScan_v6)
  obtain s' where s': "ipv6Body s'" "count_list s' u_colon \<le> count_list s u_colon"
  proof (cases "indexOf u_percent s")
    case None
    with v6 that [of s] show ?thesis by (simp add: validationIpv6_def)
  next
    case (Some k)
    have "count_list (take k s) u_colon \<le> count_list (take k s @ drop k s) u_colon" by (simp only: count_list_append)
    with v6 Some that [of "take k s"] show ?thesis by (auto simp: validationIpv6_def split: if_splits)
  qed
  then show False using one_colon_not_ipv6 [of s'] assms by (simp add: ipv6_grammar)
qed

lemma schemeSep_colon:
  "indexOfStr schemeSep s \<noteq> None \<Longrightarrow> \<exists>l r. s = l @ 58 # 47 # 47 # r"
proof (induction s)
  case (Cons x xs)
  show ?case
  proof (cases "take 3 (x # xs) = [58, 47, 47]")
    case True
    then have "x # xs = [58, 47, 47] @ drop 3 (x # xs)" by (metis append_take_drop_id)
    then show ?thesis by (intro exI [of _ "[]"] exI [of _ "drop 3 (x # xs)"]) simp
  next
    case False
    then have "indexOfStr schemeSep xs \<noteq> None"
      using Cons.prems by (auto simp: schemeSep_def numeral_eq_Suc split: if_splits)
    then obtain l r where "xs = l @ 58 # 47 # 47 # r" using Cons.IH by blast
    then show ?thesis by (intro exI [of _ "x # l"] exI [of _ r]) simp
  qed
qed (simp add: schemeSep_def)

lemma no_scheme:
  assumes "\<And>l r. s \<noteq> l @ 58 # 47 # 47 # r"
  shows "\<not> containsStr schemeSep s"
  using schemeSep_colon [of s] assms unfolding containsStr_def by blast

lemma length_trimmed_le: "length (trimmed s) \<le> length s"
  using trimmed_decompose [of s] by (metis le_add1 le_add2 le_trans length_append)

lemma trimmed_fixed: "trimmed s = s \<Longrightarrow> s \<noteq> [] \<Longrightarrow> \<not> isSpace (hd s)"
proof (cases s)
  case (Cons x xs)
  assume "trimmed s = s"
  then show ?thesis using Cons trimmed_space_Cons [of x xs] length_trimmed_le [of xs] by (cases "isSpace x") auto
qed simp

lemma digit_facts: "validationDigit c \<Longrightarrow> \<not> isSpace c \<and> c \<noteq> u_colon \<and> c \<noteq> u_slash \<and> c \<noteq> u_rbracket"
  by (auto simp: validationDigit_def isSpace_def)

lemma port_number_exact: "validationAllDigits p \<Longrightarrow> validationPortNumber p \<longleftrightarrow> 1 \<le> value_base 10 p \<and> value_base 10 p \<le> 65535"
proof -
  assume p: "validationAllDigits p"
  then have "\<not> startsWith u_dash p" by (cases p) (auto simp: validationDigit_def)
  then have "decimalInt p = Some (int (value_base 10 p))" using p by (simp add: decimalInt_def validationSignedDigits_def)
  then show ?thesis by (auto simp: validationPortNumber_def parse_int_decimal)
qed

lemma trimmed_with_port:
  assumes "\<not> isSpace (hd h)" "h \<noteq> []" "validationAllDigits p"
  shows "trimmed (h @ u_colon # p) = h @ u_colon # p"
proof -
  have "validationDigit (last p)" using assms(3) by (auto simp: validationAllDigits_def list_all_iff)
  then have "\<not> isSpace (last (h @ u_colon # p))" using assms(3) digit_facts by (auto simp: validationAllDigits_def)
  then show ?thesis using assms by (intro trimmed_ends) auto
qed

lemma port_chars: "validationAllDigits p \<Longrightarrow> u_colon \<notin> set p \<and> u_slash \<notin> set p"
  using digit_facts by (auto simp: validationAllDigits_def list_all_iff)

lemma no_scheme_before_port:
  assumes "u_colon \<notin> set h" "validationAllDigits p"
  shows "\<not> containsStr schemeSep (h @ u_colon # p)"
proof (rule no_scheme, rule notI)
  fix l r
  assume eq: "h @ u_colon # p = l @ 58 # 47 # 47 # r"
  have "count_list (h @ u_colon # p) 58 = 1" using assms port_chars by (simp add: count_notin)
  then have "58 \<notin> set l" unfolding eq by (auto simp: count_list_0_iff)
  then have "p = 47 # 47 # r" using first_split_unique [OF eq] assms by simp
  then show False using port_chars [OF assms(2)] by simp
qed

lemma host_port_plain:
  assumes h: "trimmed h = h" "h \<noteq> []" "u_colon \<notin> set h" "\<not> startsWith u_lbracket h" and p: "validationAllDigits p"
  shows "vHostPort toAce portRequired emp (h @ u_colon # p) =
    (case vHost toAce Empty_Required h of Some m \<Rightarrow> Some m | None \<Rightarrow> hostPortTail portRequired (Some p))"
proof -
  have "\<not> isSpace (hd h)" using trimmed_fixed h by blast
  then have "trimmed (h @ u_colon # p) = h @ u_colon # p" using trimmed_with_port h p by blast
  moreover have "kind (validationParseIp (h @ u_colon # p)) \<noteq> IpV6"
    using h port_chars [OF p] by (intro one_colon_kind) (simp add: count_notin)
  moreover have "\<not> startsWith u_lbracket (h @ u_colon # p)" using h by (cases h) auto
  moreover have "lastIndexOf u_colon (h @ u_colon # p) = Some (length h)" using port_chars [OF p] by (simp add: lastIndexOf_hit)
  ultimately show ?thesis using no_scheme_before_port [OF h(3) p] h by (auto simp: vHostPort_def split: option.splits)
qed

lemma host_port_bracket:
  assumes a: "kind (validationParseIp a) = IpV6" "u_rbracket \<notin> set a" "u_slash \<notin> set a" and p: "validationAllDigits p"
  shows "vHostPort toAce portRequired emp (u_lbracket # a @ u_rbracket # u_colon # p) = hostPortTail portRequired (Some p)"
proof -
  let ?t = "u_lbracket # a @ u_rbracket # u_colon # p"
  have t: "trimmed ?t = ?t" using trimmed_with_port [of "u_lbracket # a @ [u_rbracket]" p] p by simp
  have "47 \<notin> set ?t" using a port_chars [OF p] by auto
  then have "?t \<noteq> l @ 58 # 47 # 47 # r" for l r by (metis in_set_conv_decomp list.set_intros(1,2) Un_iff set_append)
  then have sch: "\<not> containsStr schemeSep ?t" by (rule no_scheme)
  have "indexOf u_rbracket ?t = Some (length a + 1)"
    using a indexOf_append_hit [of u_rbracket "u_lbracket # a" "u_colon # p"] by simp
  then show ?thesis using t sch a by (simp add: vHostPort_def)
qed

text \<open>Host and port compose. For a digit string \<open>p\<close>: \<open>h:p\<close> with a colon-free host \<open>h\<close> gets the verdict of the
  host check on \<open>h\<close>, and if that accepts, is accepted exactly when \<open>p\<close> is from 1 to 65535; \<open>[a]:p\<close> with an IPv6
  literal \<open>a\<close> is accepted exactly when \<open>p\<close> is.\<close>

theorem host_port_composed:
  assumes "validationAllDigits p"
  shows "(trimmed h = h \<and> h \<noteq> [] \<and> u_colon \<notin> set h \<and> \<not> startsWith u_lbracket h \<longrightarrow>
      vHostPort toAce portRequired emp (h @ u_colon # p) =
        (case vHost toAce Empty_Required h of
           Some m \<Rightarrow> Some m
         | None \<Rightarrow> if 1 \<le> value_base 10 p \<and> value_base 10 p \<le> 65535 then None else Some MPort))
    \<and> (kind (validationParseIp a) = IpV6 \<and> u_rbracket \<notin> set a \<and> u_slash \<notin> set a \<longrightarrow>
      vHostPort toAce portRequired emp (u_lbracket # a @ u_rbracket # u_colon # p) =
        (if 1 \<le> value_base 10 p \<and> value_base 10 p \<le> 65535 then None else Some MPort))"
  using host_port_plain [of h p] host_port_bracket [of a p] port_number_exact [OF assms] assms
  by (auto simp: hostPortTail_def split: option.splits)

lemma demo_host: "vHost (\<lambda>t. t) Empty_Required (qs ''a.b'') = None"
  by (simp add: vHost_def trimmed_def isSpace_def containsStr_def schemeSep_def validationParseIp_def validationIpv4Fields_def
      validationDigit_def lastIndexOf_def validDnsName_def validLabel_def validationAsciiAlnum_def endsWith_def)

lemma demo_ipv6: "kind (validationParseIp (qs ''::1'')) = IpV6"
  by (simp add: validationParseIp_def validationIpv6_def ipv6Body_def ipv6Loop.simps ipv6End_def validationHexDigit_def hexVal_def)

theorem host_port_composed_witness:
  "vHostPort (\<lambda>t. t) True Empty_Required (qs ''a.b:80'') = None \<and> vHostPort (\<lambda>t. t) True Empty_Required (qs ''[::1]:99999'') = Some MPort"
proof -
  have "validationAllDigits (qs ''80'')" "trimmed (qs ''a.b'') = qs ''a.b''" "validationAllDigits (qs ''99999'')"
    "value_base 10 (qs ''80'') = 80" "value_base 10 (qs ''99999'') = 99999"
    by (simp_all add: validationDigit_def trimmed_def isSpace_def value_base_def digitVal_def)
  then show ?thesis
    using host_port_composed [of "qs ''80''" "qs ''a.b''" "\<lambda>t. t" True Empty_Required] demo_host demo_ipv6
      host_port_composed [of "qs ''99999''" "[]" "\<lambda>t. t" True Empty_Required "qs ''::1''"] by simp
qed

end
