(* ===== verification/Validation_Units.thy ===== *)
theory Validation_Units
  imports Validation_Base Complex_Main
begin

text \<open>
  Durations and memory sizes of \<^verbatim>\<open>src/src/global/Validation.cpp\<close>. \<open>ParseDurationNs\<close> works on the UTF-8 bytes of the trimmed text
  (\<open>toUtf8\<close>; a lone surrogate becomes a question mark, as in Qt). The digits after a decimal point are the one place where the program
  uses floating point; \<open>toDouble\<close> rounds a rational to the nearest number with 53 significant bits, ties to even, which is what each double
  operation there does (a value that leaves the range of double contributes zero nanoseconds, as it does here).
  The sum of the segments is kept modulo 2 to the 64, as \<open>quint64\<close> does.

  Results: parsing what \<open>validationFormatDuration\<close> prints returns the number printed, for every 64-bit number; decimal
  seconds with up to nine digits are exact; a size is accepted exactly when it is digits and a known unit and fits 64 bits. The
  sum can wrap: two segments of exactly 2 to the 63 nanoseconds add up to zero (\<open>duration_sum_wraps\<close>).
\<close>

subsection \<open>UTF-8\<close>

definition utf8Code :: "nat \<Rightarrow> nat list" where
  "utf8Code u =
     (if u < 0x80 then [u]
      else if u < 0x800 then [0xC0 + u div 64, 0x80 + u mod 64]
      else if u < 0x10000 then [0xE0 + u div 4096, 0x80 + u div 64 mod 64, 0x80 + u mod 64]
      else [0xF0 + u div 262144, 0x80 + u div 4096 mod 64, 0x80 + u div 64 mod 64, 0x80 + u mod 64])"

abbreviation highSurrogate :: "qchar \<Rightarrow> bool" where "highSurrogate u \<equiv> 0xD800 \<le> u \<and> u < 0xDC00"
abbreviation lowSurrogate :: "qchar \<Rightarrow> bool" where "lowSurrogate u \<equiv> 0xDC00 \<le> u \<and> u < 0xE000"

fun toUtf8 :: "qstring \<Rightarrow> nat list" where
  "toUtf8 [] = []"
| "toUtf8 [u] = (if highSurrogate u \<or> lowSurrogate u then [63] else utf8Code u)"
| "toUtf8 (u # w # s) =
     (if highSurrogate u then
        (if lowSurrogate w then utf8Code (0x10000 + (u - 0xD800) * 1024 + (w - 0xDC00)) @ toUtf8 s else 63 # toUtf8 (w # s))
      else if lowSurrogate u then 63 # toUtf8 (w # s)
      else utf8Code u @ toUtf8 (w # s))"

lemma toUtf8_ascii: "\<forall>c \<in> set s. c < 0x80 \<Longrightarrow> toUtf8 s = s"
  by (induction s rule: toUtf8.induct) (auto simp: utf8Code_def)

subsection \<open>Double precision\<close>

fun bitCount :: "nat \<Rightarrow> nat" where
  "bitCount n = (if n = 0 then 0 else Suc (bitCount (n div 2)))"

declare bitCount.simps [simp del]

definition exp2 :: "int \<Rightarrow> rat" where
  "exp2 e = (if 0 \<le> e then 2 ^ nat e else 1 / 2 ^ nat (- e))"

definition ilog2 :: "rat \<Rightarrow> int" where
  "ilog2 r =
     (let (n, d) = quotient_of r;
          e = int (bitCount (nat n)) - int (bitCount (nat d))
      in if exp2 e \<le> r then e else e - 1)"

definition roundEven :: "rat \<Rightarrow> int" where
  "roundEven q =
     (let n = \<lfloor>q\<rfloor>; r = q - of_int n
      in if r < 1 / 2 then n else if r > 1 / 2 then n + 1 else if even n then n else n + 1)"

definition toDouble :: "rat \<Rightarrow> rat" where
  "toDouble r = (if r \<le> 0 then 0 else let e = ilog2 r - 52 in of_int (roundEven (r / exp2 e)) * exp2 e)"

subsection \<open>Durations\<close>

definition kLimit :: nat where
  "kLimit = 2 ^ 63"

definition durationUnits :: "(nat list \<times> nat) list" where
  "durationUnits = [(qs ''ns'', 1), (qs ''us'', 1000), ([0xC2, 0xB5, 115], 1000), ([0xCE, 0xBC, 115], 1000), (qs ''ms'', 1000000),
     (qs ''s'', 1000000000), (qs ''m'', 60000000000), (qs ''h'', 3600000000000), (qs ''d'', 86400000000000)]"

definition validationDurationUnit :: "nat list \<Rightarrow> nat" where
  "validationDurationUnit u = (case map_of durationUnits u of Some v \<Rightarrow> v | None \<Rightarrow> 0)"

fun durInt :: "nat \<Rightarrow> nat list \<Rightarrow> (nat \<times> nat list) option" where
  "durInt v (c # cs) =
     (if validationDigit c then
        if v > kLimit div 10 then None
        else let v' = v * 10 + (c - 48) in if v' > kLimit then None else durInt v' cs
      else Some (v, c # cs))"
| "durInt v [] = Some (v, [])"

fun durFrac :: "nat \<Rightarrow> rat \<Rightarrow> bool \<Rightarrow> nat list \<Rightarrow> nat \<times> rat \<times> nat list" where
  "durFrac f scale overflow (c # cs) =
     (if validationDigit c then
        if overflow then durFrac f scale overflow cs
        else if f > (kLimit - 1) div 10 then durFrac f scale True cs
        else let y = f * 10 + (c - 48)
          in if y > kLimit then durFrac f scale True cs else durFrac y (toDouble (scale * 10)) overflow cs
      else (f, scale, c # cs))"
| "durFrac f scale overflow [] = (f, scale, [])"

definition unitChar :: "nat \<Rightarrow> bool" where
  "unitChar c \<longleftrightarrow> c \<noteq> u_dot \<and> \<not> validationDigit c"

definition fracNs :: "nat \<Rightarrow> nat \<Rightarrow> rat \<Rightarrow> nat" where
  "fracNs f unit scale = nat \<lfloor>toDouble (toDouble (of_nat f) * toDouble (toDouble (of_nat unit) / scale))\<rfloor>"

text \<open>One segment: a number, a fraction and a unit.\<close>

definition durSegment :: "nat \<Rightarrow> nat list \<Rightarrow> (nat \<times> nat list) option" where
  "durSegment d s =
     (if \<not> (hd s = u_dot \<or> validationDigit (hd s)) then None
      else case durInt 0 s of
          None \<Rightarrow> None
        | Some (v, s1) \<Rightarrow>
            let pre = (length s1 \<noteq> length s);
                (f, scale, s2) = (if startsWith u_dot s1 then durFrac 0 1 False (drop 1 s1) else (0, 1, s1));
                post = (startsWith u_dot s1 \<and> length s2 \<noteq> length (drop 1 s1));
                unitText = takeWhile unitChar s2;
                s3 = dropWhile unitChar s2;
                unit = validationDurationUnit unitText
            in if \<not> pre \<and> \<not> post then None
               else if unitText = [] then None
               else if unit = 0 then None
               else if v > kLimit div unit then None
               else
                 let v1 = v * unit;
                     v2 = (if f > 0 then (v1 + fracNs f unit scale) mod 2 ^ 64 else v1);
                     d' = (d + v2) mod 2 ^ 64
                 in if f > 0 \<and> v2 > kLimit then None
                    else if d' > kLimit then None
                    else Some (d', s3))"

lemma durInt_length: "durInt v s = Some (v', s') \<Longrightarrow> length s' \<le> length s"
  by (induction v s rule: durInt.induct) (auto simp: Let_def split: if_splits)

lemma durFrac_length: "durFrac f sc ov s = (f', sc', s') \<Longrightarrow> length s' \<le> length s"
  by (induction f sc ov s rule: durFrac.induct) (auto simp: Let_def validationDigit_def split: if_splits)

lemma durSegment_shorter: "durSegment d s = Some (d', s') \<Longrightarrow> length s' < length s"
proof -
  assume seg: "durSegment d s = Some (d', s')"
  then obtain v s1 where s1: "durInt 0 s = Some (v, s1)" by (auto simp: durSegment_def split: if_splits option.splits)
  obtain f sc s2 where s2: "(if startsWith u_dot s1 then durFrac 0 1 False (drop 1 s1) else (0, 1, s1)) = (f, sc, s2)"
    by (metis prod_cases3)
  have "length s2 \<le> length s1" using s2 durFrac_length [of 0 1 False "drop 1 s1" f sc s2] by (auto split: if_splits)
  moreover have "length s1 \<le> length s" using durInt_length [OF s1] .
  moreover have "takeWhile unitChar s2 \<noteq> [] \<and> s' = dropWhile unitChar s2"
    using seg s1 s2 by (auto simp: durSegment_def Let_def split: if_splits)
  moreover have "length (takeWhile unitChar s2) + length (dropWhile unitChar s2) = length s2"
    by (metis length_append takeWhile_dropWhile_id)
  ultimately show ?thesis by (cases "takeWhile unitChar s2") auto
qed

function durLoop :: "nat \<Rightarrow> nat list \<Rightarrow> nat option" where
  "durLoop d s =
     (if s = [] then Some d
      else case durSegment d s of None \<Rightarrow> None | Some (d', s') \<Rightarrow> durLoop d' s')"
  by pat_completeness auto
termination
  by (relation "measure (\<lambda>(d, s). length s)") (auto dest: durSegment_shorter)

declare durLoop.simps [simp del]

definition ParseDurationNs :: "qstring \<Rightarrow> int option" where
  "ParseDurationNs text =
     (let bytes = toUtf8 (trimmed text);
          signed = (bytes \<noteq> [] \<and> (hd bytes = u_dash \<or> hd bytes = 43));
          neg = (signed \<and> hd bytes = u_dash);
          s = (if signed then tl bytes else bytes)
      in if s = [u_0] then Some 0
         else if s = [] then None
         else case durLoop 0 s of
             None \<Rightarrow> None
           | Some d \<Rightarrow>
               if neg then Some (if d = kLimit then - (2 ^ 63) else - int d)
               else if d > kLimit - 1 then None
               else Some (int d))"

definition formatUnits :: "(nat \<times> qstring) list" where
  "formatUnits = [(3600000000000, qs ''h''), (60000000000, qs ''m''), (1000000000, qs ''s''), (1000000, qs ''ms''), (1000, qs ''us''), (1, qs ''ns'')]"

fun formatLoop :: "nat \<Rightarrow> (nat \<times> qstring) list \<Rightarrow> qstring" where
  "formatLoop v [] = []"
| "formatLoop v ((unit, name) # us) =
     (if v div unit \<noteq> 0 then number (v div unit) @ name @ formatLoop (v mod unit) us else formatLoop v us)"

text \<open>\<open>quint64(ns)\<close>, negated when \<open>ns\<close> is negative.\<close>

definition magnitude :: "int \<Rightarrow> nat" where
  "magnitude ns = (let v = ns mod 2 ^ 64 in if ns < 0 then nat ((0 - v) mod 2 ^ 64) else nat v)"

definition validationFormatDuration :: "int \<Rightarrow> qstring" where
  "validationFormatDuration ns =
     (if ns = 0 then qs ''0s''
      else (if ns < 0 then [u_dash] else []) @ formatLoop (magnitude ns) formatUnits)"

record DurationRule =
  durEmpty :: Empty
  allowNegative :: bool
  wholeSeconds :: bool
  minNs :: "int option"
  maxNs :: "int option"

definition bareNumber :: "qstring \<Rightarrow> bool" where
  "bareNumber t =
     (case indexOf u_dot t of
        None \<Rightarrow> validationAllDigits t
      | Some dot \<Rightarrow> validationAllDigits (take dot t) \<and> validationAllDigits (drop (dot + 1) t))"

definition vDuration :: "DurationRule \<Rightarrow> Rule" where
  "vDuration rule text =
     (let t = trimmed text
      in if t = [] then validationEmpty (durEmpty rule)
         else case ParseDurationNs t of
             None \<Rightarrow> if bareNumber t then Some (MAddDurationUnit t) else Some MNotDuration
           | Some ns \<Rightarrow>
               if \<not> allowNegative rule \<and> ns < 0 then Some MNotNegative
               else if wholeSeconds rule \<and> ns mod 1000000000 \<noteq> 0 then Some MWholeSeconds
               else if (case minNs rule of None \<Rightarrow> False | Some m \<Rightarrow> ns < m)
                 then Some (MAtLeast (validationFormatDuration (the (minNs rule))))
               else if (case maxNs rule of None \<Rightarrow> False | Some m \<Rightarrow> ns > m)
                 then Some (MAtMost (validationFormatDuration (the (maxNs rule))))
               else None)"

subsection \<open>Sizes\<close>

definition memoryUnits :: "(qstring \<times> nat) list" where
  "memoryUnits = [(qs ''b'', 1), (qs ''k'', 2 ^ 10), (qs ''kb'', 2 ^ 10), (qs ''m'', 2 ^ 20), (qs ''mb'', 2 ^ 20), (qs ''g'', 2 ^ 30),
     (qs ''gb'', 2 ^ 30), (qs ''t'', 2 ^ 40), (qs ''tb'', 2 ^ 40), (qs ''p'', 2 ^ 50), (qs ''pb'', 2 ^ 50), (qs ''e'', 2 ^ 60), (qs ''eb'', 2 ^ 60)]"

definition validationMemoryUnit :: "qstring \<Rightarrow> nat" where
  "validationMemoryUnit unit = (case map_of memoryUnits unit of Some v \<Rightarrow> v | None \<Rightarrow> 0)"

text \<open>\<open>QString::toLower\<close> as far as a comparison with ASCII names can tell: the ASCII capitals, and the
  Kelvin sign, whose lower case is an ASCII letter.\<close>

definition toLower :: "qstring \<Rightarrow> qstring" where
  "toLower s = map (\<lambda>c. if 65 \<le> c \<and> c \<le> 90 then c + 32 else if c = 0x212A then 107 else c) s"

definition vMemoryBytes :: "bool \<Rightarrow> Empty \<Rightarrow> Rule" where
  "vMemoryBytes allowBareInteger emp text =
     (let t = trimmed text
      in if t = [] then validationEmpty emp
         else
           let digits = takeWhile validationDigit t;
               rest = dropWhile validationDigit t
           in case rest of
                [] \<Rightarrow>
                  if \<not> allowBareInteger then Some MAddMemoryUnit
                  else if validationParseInt t \<noteq> None then None else Some MNumberTooLarge
              | c # cs \<Rightarrow>
                  let digitNext = (cs \<noteq> [] \<and> validationDigit (hd cs))
                  in if digits = [] then
                       (if c = u_dash \<and> digitNext then Some MNotNegative
                        else if c = u_dot \<and> digitNext then Some MWholeBeforeUnit
                        else Some MNotSize)
                     else if (c = u_dot \<or> c = u_comma) \<and> digitNext then Some MWholeBeforeUnit
                     else
                       let val = value_base 10 digits;
                           unit = trimmed rest;
                           unitValue = validationMemoryUnit (toLower unit)
                       in if val \<ge> 2 ^ 64 then Some MNumberTooLarge
                          else if unitValue = 0 then Some (MUnknownUnit (validationShort unit))
                          else if val > (2 ^ 64 - 1) div unitValue then Some MNumberTooLarge
                          else None)"

interpretation durationRule: field_rule "vDuration rule" "durEmpty rule" for rule
  by unfold_locales (simp_all add: vDuration_def)

interpretation memoryRule: field_rule "vMemoryBytes allowBareInteger emp" emp for allowBareInteger emp
  by unfold_locales (simp_all add: vMemoryBytes_def)


subsection \<open>Printing and parsing durations\<close>

lemma durInt_digits:
  "list_all validationDigit ds \<Longrightarrow> rest = [] \<or> \<not> validationDigit (hd rest) \<Longrightarrow>
   foldl (\<lambda>v c. v * 10 + digitVal c) v ds \<le> kLimit \<Longrightarrow>
   durInt v (ds @ rest) = Some (foldl (\<lambda>v c. v * 10 + digitVal c) v ds, rest)"
proof (induction ds arbitrary: v)
  case Nil
  then show ?case by (cases rest) auto
next
  case (Cons c ds)
  then have c: "digitVal c = c - 48" using digitVal_decimal by simp
  have le: "v * 10 + (c - 48) \<le> kLimit"
    using Cons.prems(3) digits_value_ge [of "v * 10 + digitVal c" ds] c by simp
  then have "v \<le> kLimit div 10" by (simp add: less_eq_div_iff_mult_less_eq)
  then show ?case using Cons c le by simp
qed

lemma number_digits: "list_all validationDigit (number n)"
  using set_number_digits by (auto simp: list_all_iff validationDigit_def isDigit_def)

lemma number_cons: "\<exists>c cs. number n = c # cs \<and> validationDigit c"
  using number_digits [of n] by (cases "number n") auto

lemma number_head [simp]: "validationDigit (hd (number n))"
  using number_cons [of n] by auto

lemma durSegment_whole:
  assumes unit: "\<forall>c \<in> set name. unitChar c" "name \<noteq> []" "validationDurationUnit name = unit" "0 < unit"
    and rest: "rest = [] \<or> validationDigit (hd rest)"
    and bound: "d + q * unit \<le> kLimit"
  shows "durSegment d (number q @ name @ rest) = Some (d + q * unit, rest)"
proof -
  have q: "q \<le> kLimit" "q \<le> kLimit div unit"
  proof -
    have "q * 1 \<le> q * unit" using unit by (intro mult_le_mono) auto
    then show "q \<le> kLimit" using bound by linarith
    show "q \<le> kLimit div unit" using bound unit by (simp add: less_eq_div_iff_mult_less_eq)
  qed
  have nd: "\<not> validationDigit (hd (name @ rest))" "hd (name @ rest) \<noteq> u_dot"
    using unit by (auto simp: unitChar_def hd_append)
  have int: "durInt 0 (number q @ name @ rest) = Some (q, name @ rest)"
    using durInt_digits [of "number q" "name @ rest" 0] number_digits nd q value_number_base [of 10 q]
    by (simp add: value_base_def)
  have "\<not> startsWith u_dot (name @ rest)" using nd unit by (cases name) auto
  moreover have "takeWhile unitChar (name @ rest) = name \<and> dropWhile unitChar (name @ rest) = rest"
    using unit rest by (cases rest) (auto simp: takeWhile_append dropWhile_append unitChar_def)
  moreover have "hd (number q @ name @ rest) = hd (number q)" "validationDigit (hd (number q))"
    using number_cons [of q] by auto
  moreover have "d + q * unit < 2 ^ 64" using bound by (simp add: kLimit_def)
  ultimately show ?thesis using int q unit bound by (simp add: durSegment_def Let_def)
qed

lemma format_head: "formatLoop v us = [] \<or> validationDigit (hd (formatLoop v us))"
  by (induction v us rule: formatLoop.induct) auto

text \<open>The text the format loop writes is read back as what the loop subtracted.\<close>

fun formatRest :: "nat \<Rightarrow> (nat \<times> qstring) list \<Rightarrow> nat" where
  "formatRest v [] = v"
| "formatRest v ((unit, name) # us) = formatRest (v mod unit) us"

definition goodUnit :: "nat \<times> qstring \<Rightarrow> bool" where
  "goodUnit u \<longleftrightarrow> (\<forall>c \<in> set (snd u). unitChar c) \<and> snd u \<noteq> [] \<and> validationDurationUnit (snd u) = fst u \<and> 0 < fst u"

lemma formatUnits_good: "list_all goodUnit formatUnits"
  by (simp add: formatUnits_def goodUnit_def validationDurationUnit_def durationUnits_def unitChar_def validationDigit_def)

lemma durLoop_format:
  "list_all goodUnit us \<Longrightarrow> d + v \<le> kLimit \<Longrightarrow> durLoop d (formatLoop v us) = Some (d + (v - formatRest v us))"
proof (induction v us arbitrary: d rule: formatLoop.induct)
  case (1 v)
  then show ?case by (simp add: durLoop.simps)
next
  case (2 v unit name us)
  have rest_le: "formatRest w us' \<le> w" for w us'
    by (induction w us' rule: formatRest.induct) (auto intro: order_trans [OF _ mod_less_eq_dividend])
  show ?case
  proof (cases "v div unit = 0")
    case True
    then have "v mod unit = v" using 2 by (metis add_0 div_mult_mod_eq mult_0)
    then show ?thesis using True 2 by simp
  next
    case False
    have split: "v = v div unit * unit + v mod unit" by simp
    then have b: "d + v div unit * unit + v mod unit \<le> kLimit" using "2.prems"(2) by simp
    have seg: "durSegment d (number (v div unit) @ name @ formatLoop (v mod unit) us)
        = Some (d + v div unit * unit, formatLoop (v mod unit) us)"
      using "2.prems"(1) add_leD1 [OF b] format_head by (intro durSegment_whole) (auto simp: goodUnit_def)
    have "durLoop d (formatLoop v ((unit, name) # us)) = durLoop (d + v div unit * unit) (formatLoop (v mod unit) us)"
      using False seg by (subst durLoop.simps) simp
    also have "\<dots> = Some (d + v div unit * unit + (v mod unit - formatRest (v mod unit) us))"
      using 2 False b by simp
    also have "\<dots> = Some (d + (v - formatRest v ((unit, name) # us)))"
      using split order_trans [OF rest_le [of "v mod unit" us] mod_less_eq_dividend [of v unit]] rest_le [of "v mod unit" us] by simp
    finally show ?thesis .
  qed
qed

lemma formatRest_units: "formatRest v formatUnits = 0"
  by (simp add: formatUnits_def)

lemma durLoop_formatted: "v \<le> kLimit \<Longrightarrow> durLoop 0 (formatLoop v formatUnits) = Some v"
  using durLoop_format [OF formatUnits_good, of 0 v] by (simp add: formatRest_units)

lemma magnitude_abs: "- (2 ^ 63) \<le> ns \<Longrightarrow> ns < 2 ^ 63 \<Longrightarrow> magnitude ns = nat \<bar>ns\<bar>"
proof (cases "ns < 0")
  case True
  assume "- (2 ^ 63) \<le> ns"
  moreover have "(0 - ns mod 2 ^ 64) mod 2 ^ 64 = - ns mod 2 ^ 64" by (simp only: diff_0 mod_minus_eq)
  ultimately show ?thesis using True by (simp add: magnitude_def)
qed (simp add: magnitude_def)

lemma duration_chars:
  "\<forall>u \<in> set us. \<forall>c \<in> set (snd u). c < 128 \<and> \<not> isSpace c \<Longrightarrow> c \<in> set (formatLoop v us) \<Longrightarrow> c < 128 \<and> \<not> isSpace c"
proof (induction v us rule: formatLoop.induct)
  case (2 v unit name us)
  moreover have "c \<in> set (number n) \<Longrightarrow> c < 128 \<and> \<not> isSpace c" for n
    using set_number_digits [of c n] by (auto simp: isDigit_def isSpace_def)
  ultimately show ?case by (auto split: if_splits)
qed simp

lemma formatted_chars: "c \<in> set (formatLoop v formatUnits) \<Longrightarrow> c < 128 \<and> \<not> isSpace c"
  by (rule duration_chars [of formatUnits]) (auto simp: formatUnits_def isSpace_def)

lemma formatLoop_nonempty: "0 < v \<Longrightarrow> formatLoop v formatUnits \<noteq> []"
  using formatRest_units [of v] by (auto simp: formatUnits_def)

lemma formatted_not_zero_digit: "list_all goodUnit us \<Longrightarrow> formatLoop v us \<noteq> [u_0]"
  by (induction v us rule: formatLoop.induct) (auto simp: goodUnit_def append_eq_Cons_conv split: if_splits)

lemma parse_formatted:
  assumes "0 < v" "v \<le> kLimit"
  shows "ParseDurationNs (formatLoop v formatUnits) = (if v = kLimit then None else Some (int v))"
    and "ParseDurationNs (u_dash # formatLoop v formatUnits) = Some (- int v)"
proof -
  define s where "s = formatLoop v formatUnits"
  have s: "s \<noteq> []" "s \<noteq> [u_0]" "validationDigit (hd s)" "durLoop 0 s = Some v"
    using formatLoop_nonempty [OF assms(1)] formatted_not_zero_digit formatUnits_good format_head [of v formatUnits]
      durLoop_formatted [OF assms(2)] by (auto simp: s_def)
  have c: "\<forall>c \<in> set s. c < 128 \<and> \<not> isSpace c" using formatted_chars by (auto simp: s_def)
  have id: "trimmed s = s" "trimmed (u_dash # s) = u_dash # s" using c by (auto intro!: trimmed_id)
  have utf: "toUtf8 s = s" "toUtf8 (u_dash # s) = u_dash # s" using c by (auto intro!: toUtf8_ascii)
  have "hd s \<noteq> u_dash" "hd s \<noteq> 43" using s by (auto simp: validationDigit_def)
  then show "ParseDurationNs (formatLoop v formatUnits) = (if v = kLimit then None else Some (int v))"
    "ParseDurationNs (u_dash # formatLoop v formatUnits) = Some (- int v)"
    using s id utf assms unfolding s_def [symmetric] by (auto simp: ParseDurationNs_def Let_def kLimit_def)
qed

text \<open>C12: what the program prints as a duration it reads back as the same number, for every 64-bit number of
  nanoseconds, the smallest included.\<close>

theorem duration_roundtrip:
  assumes "- (2 ^ 63) \<le> ns" "ns < 2 ^ 63"
  shows "ParseDurationNs (validationFormatDuration ns) = Some ns"
proof -
  note m = magnitude_abs [OF assms]
  consider "ns = 0" | "0 < ns" | "ns < 0" by linarith
  then show ?thesis
  proof cases
    case 1
    have "durSegment 0 (qs ''0s'') = Some (0, [])"
      using durSegment_whole [of "qs ''s''" 1000000000 "[]" 0 0]
      by (simp add: validationDurationUnit_def durationUnits_def unitChar_def validationDigit_def number_zero)
    then have "durLoop 0 (qs ''0s'') = Some 0" by (subst durLoop.simps) (simp add: durLoop.simps)
    moreover have "trimmed (qs ''0s'') = qs ''0s''" by (simp add: trimmed_def isSpace_def)
    ultimately show ?thesis using 1 by (simp add: ParseDurationNs_def validationFormatDuration_def utf8Code_def kLimit_def)
  next
    case 2
    then show ?thesis using parse_formatted(1) [of "nat ns"] m assms by (simp add: validationFormatDuration_def kLimit_def)
  next
    case 3
    then show ?thesis using parse_formatted(2) [of "nat (- ns)"] m assms by (simp add: validationFormatDuration_def kLimit_def)
  qed
qed

theorem duration_roundtrip_witness:
  "ParseDurationNs (validationFormatDuration (- (2 ^ 63))) = Some (- (2 ^ 63)) \<and> ParseDurationNs (validationFormatDuration 90061000000000) = Some 90061000000000"
  using duration_roundtrip [of "- (2 ^ 63)"] duration_roundtrip [of 90061000000000] by simp


subsection \<open>Decimal fractions\<close>

lemma bitCount_bounds: "0 < n \<Longrightarrow> 2 ^ (bitCount n - 1) \<le> n \<and> n < 2 ^ bitCount n \<and> 0 < bitCount n"
proof (induction n rule: bitCount.induct)
  case (1 n)
  show ?case
  proof (cases "n div 2 = 0")
    case True
    then have "n = 1" using 1 by auto
    then show ?thesis by (simp add: bitCount.simps)
  next
    case False
    define m p :: nat where "m = n div 2" and "p = 2 ^ (bitCount m - 1)"
    have IH: "p \<le> m" "m < 2 ^ bitCount m" "0 < bitCount m" using 1 False by (auto simp: m_def p_def)
    have "bitCount n = Suc (bitCount m)" using 1 by (simp add: bitCount.simps [of n] m_def)
    moreover have "2 ^ bitCount m = 2 * p" using IH(3) by (cases "bitCount m") (simp_all add: p_def)
    moreover have "n = 2 * m + n mod 2" "n mod 2 < 2" by (simp_all add: m_def)
    ultimately show ?thesis using IH by (simp only: diff_Suc_1 power_Suc) linarith
  qed
qed

lemma roundEven_int: "roundEven (of_int k) = k"
  by (simp add: roundEven_def)

lemma toDouble_nat:
  assumes "n < 2 ^ 53"
  shows "toDouble (of_nat n) = of_nat n"
proof (cases "n = 0")
  case True
  then show ?thesis by (simp add: toDouble_def)
next
  case False
  define b where "b = bitCount n"
  have b: "2 ^ (b - 1) \<le> n" "0 < b" using bitCount_bounds False by (auto simp: b_def)
  have "(2::nat) ^ (b - 1) < 2 ^ 53" using b(1) assms by linarith
  then have "b - 1 < 53" by (rule power_less_imp_less_exp [rotated]) simp
  then have "b \<le> 53" by simp
  have q: "quotient_of (of_nat n :: rat) = (int n, 1)" using quotient_of_int [of "int n"] by simp
  have "exp2 (int b - 1) = 2 ^ (b - 1)" using b(2) by (simp add: exp2_def nat_diff_distrib')
  moreover have "(2 ^ (b - 1) :: rat) \<le> of_nat n" using b(1) by (metis of_nat_le_iff of_nat_numeral of_nat_power)
  ultimately have "ilog2 (of_nat n) = int b - 1" using q by (simp add: ilog2_def b_def bitCount.simps [of "Suc 0"] bitCount.simps [of 0])
  moreover have e: "exp2 (int b - 53) = 1 / 2 ^ (53 - b)"
    using \<open>b \<le> 53\<close> by (cases "b = 53") (auto simp: exp2_def nat_diff_distrib')
  moreover have "roundEven (of_nat n * 2 ^ (53 - b)) = int n * 2 ^ (53 - b)"
    using roundEven_int [of "int n * 2 ^ (53 - b)"] by simp
  ultimately show ?thesis using False by (simp add: toDouble_def)
qed

lemma durFrac_exact:
  "list_all validationDigit ds \<Longrightarrow> rest = [] \<or> \<not> validationDigit (hd rest) \<Longrightarrow> k + length ds \<le> 15 \<Longrightarrow> f < 10 ^ k \<Longrightarrow>
   durFrac f (10 ^ k) False (ds @ rest) = (foldl (\<lambda>v c. v * 10 + digitVal c) f ds, 10 ^ (k + length ds), rest)
     \<and> foldl (\<lambda>v c. v * 10 + digitVal c) f ds < 10 ^ (k + length ds)"
proof (induction ds arbitrary: f k)
  case Nil
  then show ?case by (cases rest) auto
next
  case (Cons c ds)
  then have c: "digitVal c = c - 48" "c - 48 \<le> 9" "validationDigit c" using digitVal_decimal by auto
  have y: "f * 10 + (c - 48) < 10 ^ (k + 1)" using Cons.prems(4) c by simp
  have "(10::nat) ^ (k + 1) \<le> 10 ^ 15" using Cons.prems(3) by (intro power_increasing) auto
  then have small: "f * 10 + (c - 48) < 10 ^ 15" "(10::nat) ^ (k + 1) < 2 ^ 53" using y by simp_all
  then have "f \<le> (kLimit - 1) div 10" "f * 10 + (c - 48) \<le> kLimit" by (auto simp: kLimit_def)
  moreover have "toDouble (10 ^ k * 10) = 10 ^ (k + 1)" using toDouble_nat [OF small(2)] by (simp add: mult.commute)
  ultimately show ?case using Cons.IH [of "k + 1" "f * 10 + (c - 48)"] Cons.prems c y by (simp add: not_less)
qed

lemma fracNs_exact:
  assumes "k \<le> 9" "f < 10 ^ k"
  shows "fracNs f 1000000000 (10 ^ k) = f * 10 ^ (9 - k)"
proof -
  have "f * 10 ^ (9 - k) < 10 ^ k * 10 ^ (9 - k)" using assms by simp
  also have "\<dots> = 10 ^ 9" using assms by (simp add: power_add [symmetric])
  finally have p: "f * 10 ^ (9 - k) < 2 ^ 53" "f * 10 ^ (9 - k) < 10 ^ 9" by simp_all
  have "(10::nat) ^ (9 - k) \<le> 10 ^ 9" "(10::nat) ^ k \<le> 10 ^ 9" by (rule power_increasing; use assms in simp)+
  then have s: "(10::nat) ^ (9 - k) < 2 ^ 53" "f < 2 ^ 53" using assms by simp_all
  have "(1000000000::rat) = 10 ^ (9 - k) * 10 ^ k" using assms by (simp add: power_add [symmetric])
  then have "(1000000000::rat) / 10 ^ k = 10 ^ (9 - k)" by (simp add: divide_eq_eq)
  moreover have "toDouble 1000000000 = 1000000000" using toDouble_nat [of 1000000000] by simp
  moreover have "toDouble (10 ^ (9 - k)) = 10 ^ (9 - k)" using toDouble_nat [OF s(1)] by simp
  moreover have "toDouble (of_nat f * 10 ^ (9 - k)) = of_nat f * 10 ^ (9 - k)" using toDouble_nat [OF p(1)] by simp
  ultimately have "fracNs f 1000000000 (10 ^ k) = nat \<lfloor>of_nat (f * 10 ^ (9 - k)) :: rat\<rfloor>"
    using toDouble_nat [OF s(2)] by (simp add: fracNs_def)
  then show ?thesis by (simp only: floor_of_nat nat_int)
qed


lemma durSegment_decimal:
  assumes ds: "list_all validationDigit ds" "ds \<noteq> []" "length ds \<le> 9"
    and bound: "q * 1000000000 + value_base 10 ds * 10 ^ (9 - length ds) < kLimit"
  shows "durSegment 0 (number q @ u_dot # ds @ [115]) = Some (q * 1000000000 + value_base 10 ds * 10 ^ (9 - length ds), [])"
proof -
  have dot: "\<not> validationDigit u_dot" "\<not> validationDigit 115" by (simp_all add: validationDigit_def)
  have q: "q * 1000000000 < kLimit" "q \<le> kLimit div 1000000000" using bound by (simp_all add: less_eq_div_iff_mult_less_eq)
  then have int: "durInt 0 (number q @ u_dot # ds @ [115]) = Some (q, u_dot # ds @ [115])"
    using durInt_digits [of "number q" "u_dot # ds @ [115]" 0] number_digits dot value_number_base [of 10 q] by (simp add: value_base_def)
  have frac: "durFrac 0 1 False (ds @ [115]) = (value_base 10 ds, 10 ^ length ds, [115])" "value_base 10 ds < 10 ^ length ds"
    using durFrac_exact [of ds "[115]" 0 0] ds dot by (simp_all add: value_base_def)
  have unit: "validationDurationUnit [115] = 1000000000" "unitChar 115"
    by (simp_all add: validationDurationUnit_def durationUnits_def unitChar_def dot)
  have "hd (number q @ u_dot # ds @ [115]) = hd (number q)" "validationDigit (hd (number q))" using number_cons [of q] by auto
  then show ?thesis using int frac q unit ds bound fracNs_exact [OF ds(3) frac(2)]
    by (simp add: durSegment_def Let_def kLimit_def)
qed

text \<open>Decimal seconds are exact: a number, a point, up to nine digits and \<open>s\<close> is that many nanoseconds,
  in spite of the floating-point arithmetic on the fraction.\<close>

theorem decimal_seconds_exact:
  assumes "validationAllDigits ds" "length ds \<le> 9" "q * 1000000000 + value_base 10 ds * 10 ^ (9 - length ds) < 2 ^ 63"
  shows "ParseDurationNs (number q @ [u_dot] @ ds @ qs ''s'') = Some (int (q * 1000000000 + value_base 10 ds * 10 ^ (9 - length ds)))"
proof -
  define s where "s = number q @ u_dot # ds @ [115]"
  have ds: "list_all validationDigit ds" "ds \<noteq> []" using assms(1) by (auto simp: validationAllDigits_def)
  have "c \<in> set s \<Longrightarrow> validationDigit c \<or> c = u_dot \<or> c = 115" for c
    using number_digits [of q] ds by (auto simp: s_def list_all_iff)
  then have c: "\<forall>c \<in> set s. c < 128 \<and> \<not> isSpace c" by (fastforce simp: validationDigit_def isSpace_def)
  have "durLoop 0 s = Some (q * 1000000000 + value_base 10 ds * 10 ^ (9 - length ds))"
    using durSegment_decimal [OF ds assms(2)] assms(3) unfolding s_def by (subst durLoop.simps) (simp add: durLoop.simps kLimit_def)
  moreover have "trimmed s = s" "toUtf8 s = s" using c by (auto intro!: trimmed_id toUtf8_ascii)
  moreover have "validationDigit (hd s)" "s \<noteq> []" using number_cons [of q] by (auto simp: s_def)
  moreover have "s \<noteq> [u_0]" by (auto simp: s_def append_eq_Cons_conv)
  ultimately have "ParseDurationNs s = Some (int (q * 1000000000 + value_base 10 ds * 10 ^ (9 - length ds)))"
    using assms(3) by (auto simp: ParseDurationNs_def Let_def kLimit_def validationDigit_def)
  then show ?thesis by (simp add: s_def)
qed

theorem decimal_seconds_exact_witness: "ParseDurationNs (qs ''1.25s'') = Some 1250000000"
proof -
  have "number 1 = qs ''1''" by (simp add: number_base.simps digitChar_def)
  moreover have "validationAllDigits (qs ''25'')" "value_base 10 (qs ''25'') = 25" by (simp_all add: validationDigit_def value_base_def digitVal_def)
  ultimately show ?thesis using decimal_seconds_exact [of "qs ''25''" 1] by simp
qed

text \<open>The sum of the segments wraps: the text below denotes minus twice 2 to the 63 nanoseconds and is read as 0.\<close>

theorem duration_sum_wraps: "ParseDurationNs (u_dash # number (2 ^ 63) @ qs ''ns'' @ number (2 ^ 63) @ qs ''ns'') = Some 0"
proof -
  define n where "n = number (2 ^ 63)"
  define s where "s = n @ qs ''ns'' @ n @ qs ''ns''"
  have ns: "\<forall>c \<in> set (qs ''ns''). unitChar c" "validationDurationUnit (qs ''ns'') = 1"
    by (simp_all add: validationDurationUnit_def durationUnits_def unitChar_def validationDigit_def)
  have "durSegment 0 s = Some (2 ^ 63, n @ qs ''ns'')"
    using durSegment_whole [of "qs ''ns''" 1 "n @ qs ''ns''" 0 "2 ^ 63"] ns number_cons [of "2 ^ 63"]
    by (auto simp: s_def n_def kLimit_def)
  moreover have "durSegment (2 ^ 63) (n @ qs ''ns'') = Some (0, [])"
  proof -
    have dig: "list_all validationDigit n" "n \<noteq> []" "validationDigit (hd n)" using number_digits by (simp_all add: n_def)
    have "durInt 0 (n @ qs ''ns'') = Some (2 ^ 63, qs ''ns'')"
      using durInt_digits [of n "qs ''ns''" 0] dig value_number_base [of 10 "2 ^ 63"]
      by (simp add: n_def value_base_def kLimit_def validationDigit_def)
    then show ?thesis using dig ns by (simp add: durSegment_def Let_def kLimit_def unitChar_def validationDigit_def)
  qed
  ultimately have "durLoop 0 s = Some 0"
    by (subst durLoop.simps) (simp add: durLoop.simps s_def n_def)
  moreover have "c \<in> set s \<Longrightarrow> validationDigit c \<or> c = 110 \<or> c = 115" for c
    using number_digits [of "2 ^ 63"] by (auto simp: s_def n_def list_all_iff)
  then have c: "\<forall>c \<in> set s. c < 128 \<and> \<not> isSpace c" by (fastforce simp: validationDigit_def isSpace_def)
  have "trimmed (u_dash # s) = u_dash # s" "toUtf8 (u_dash # s) = u_dash # s" using c by (auto intro!: trimmed_id toUtf8_ascii)
  moreover have "s \<noteq> []" "s \<noteq> [u_0]" by (auto simp: s_def append_eq_Cons_conv)
  ultimately show ?thesis unfolding s_def [symmetric] n_def [symmetric] by (simp add: ParseDurationNs_def kLimit_def)
qed

subsection \<open>Sizes\<close>

lemma trimmed_keeps_head: "\<not> isSpace c \<Longrightarrow> \<exists>r. trimmed (c # cs) = c # r"
proof -
  assume c: "\<not> isSpace c"
  obtain pre post where p: "c # cs = pre @ trimmed (c # cs) @ post" "\<forall>x \<in> set pre \<union> set post. isSpace x"
    using trimmed_decompose [of "c # cs"] by blast
  with c have "pre = []" "trimmed (c # cs) \<noteq> []" by (auto simp: Cons_eq_append_conv)
  with p(1) show ?thesis by (cases "trimmed (c # cs)") auto
qed

lemma digits_split:
  "list_all validationDigit ds \<Longrightarrow> r \<noteq> [] \<Longrightarrow> \<not> validationDigit (hd r) \<Longrightarrow>
   takeWhile validationDigit (ds @ r) = ds \<and> dropWhile validationDigit (ds @ r) = r"
  by (cases r) (auto simp: list_all_iff takeWhile_append dropWhile_append)

lemma memory_unit_facts:
  assumes "map_of memoryUnits x = Some u"
  shows "0 < u" "x \<noteq> []" "98 \<le> hd x"
  using map_of_SomeD [OF assms] by (auto simp: memoryUnits_def)

lemma memoryUnit_zero: "validationMemoryUnit x = 0 \<longleftrightarrow> map_of memoryUnits x = None"
  using memory_unit_facts(1) [of x] by (cases "map_of memoryUnits x") (auto simp: validationMemoryUnit_def)

lemma bare_integer: "validationAllDigits t \<Longrightarrow> validationParseInt t \<noteq> None \<longleftrightarrow> value_base 10 t < 2 ^ 63"
proof -
  assume t: "validationAllDigits t"
  then have "\<not> startsWith u_dash t" by (cases t) (auto simp: validationDigit_def)
  then show ?thesis using t by (simp add: parse_int_decimal decimalInt_def validationSignedDigits_def)
qed

lemma point_no_unit: "c = u_dot \<or> c = u_comma \<Longrightarrow> map_of memoryUnits (toLower (trimmed (c # cs))) = None"
proof -
  assume c: "c = u_dot \<or> c = u_comma"
  then obtain r where "trimmed (c # cs) = c # r" using trimmed_keeps_head [of c cs] by auto
  then have "hd (toLower (trimmed (c # cs))) < 98" using c by (auto simp: toLower_def)
  then show ?thesis using memory_unit_facts(3) [of "toLower (trimmed (c # cs))"]
    by (cases "map_of memoryUnits (toLower (trimmed (c # cs)))") auto
qed

text \<open>The verdict for text that is not all digits, in terms of its digits and the rest.\<close>

lemma memory_with_unit:
  assumes t: "trimmed text \<noteq> []" "dropWhile validationDigit (trimmed text) = c # cs" "takeWhile validationDigit (trimmed text) = ds"
  shows "accepts (vMemoryBytes bare emp) text \<longleftrightarrow> ds \<noteq> []
    \<and> (\<exists>u. map_of memoryUnits (toLower (trimmed (c # cs))) = Some u \<and> value_base 10 ds * u < 2 ^ 64)"
proof -
  define U where "U = validationMemoryUnit (toLower (trimmed (c # cs)))"
  have verdict: "accepts (vMemoryBytes bare emp) text \<longleftrightarrow> ds \<noteq> [] \<and> \<not> ((c = u_dot \<or> c = u_comma) \<and> cs \<noteq> [] \<and> validationDigit (hd cs))
      \<and> value_base 10 ds < 2 ^ 64 \<and> U \<noteq> 0 \<and> value_base 10 ds \<le> (2 ^ 64 - 1) div U"
    unfolding vMemoryBytes_def Let_def t(2,3) list.case U_def [symmetric] using t(1) by (simp add: not_le not_less)
  show ?thesis
  proof (cases "map_of memoryUnits (toLower (trimmed (c # cs)))")
    case None
    then show ?thesis unfolding verdict by (simp add: U_def validationMemoryUnit_def)
  next
    case (Some u)
    have "0 < u" "U = u" using memory_unit_facts [OF Some] Some by (simp_all add: U_def validationMemoryUnit_def)
    moreover have "\<not> (c = u_dot \<or> c = u_comma)" using point_no_unit [of c cs] Some by (metis option.distinct(1))
    moreover have "value_base 10 ds \<le> (2 ^ 64 - 1) div u \<longleftrightarrow> value_base 10 ds * u < 2 ^ 64"
      using \<open>0 < u\<close> by (auto simp: less_eq_div_iff_mult_less_eq)
    moreover have "value_base 10 ds * u < 2 ^ 64 \<Longrightarrow> value_base 10 ds < 2 ^ 64"
      using mult_le_mono [of "value_base 10 ds" "value_base 10 ds" 1 u] \<open>0 < u\<close> by linarith
    ultimately show ?thesis unfolding verdict Some by (metis gr_implies_not0 option.inject)
  qed
qed

lemma memory_unit_text:
  assumes False: "\<not> (trimmed text = [] \<or> list_all validationDigit (trimmed text))"
  shows "accepts (vMemoryBytes bare emp) text \<longleftrightarrow> (\<exists>ds r u. trimmed text = ds @ r \<and> validationAllDigits ds \<and> \<not> validationDigit (hd r)
        \<and> map_of memoryUnits (toLower (trimmed r)) = Some u \<and> value_base 10 ds * u < 2 ^ 64)"
proof -
  obtain c cs where r: "dropWhile validationDigit (trimmed text) = c # cs"
    using False by (cases "dropWhile validationDigit (trimmed text)") (auto simp: list_all_iff)
  define ds where "ds = takeWhile validationDigit (trimmed text)"
  have nd: "\<not> validationDigit c" using hd_dropWhile [of validationDigit "trimmed text"] r by simp
  have split: "trimmed text = ds @ c # cs" using r by (metis ds_def takeWhile_dropWhile_id)
  have dig: "list_all validationDigit ds" by (auto simp: ds_def list_all_iff dest: set_takeWhileD)
  have "(\<exists>ds r u. trimmed text = ds @ r \<and> validationAllDigits ds \<and> \<not> validationDigit (hd r)
        \<and> map_of memoryUnits (toLower (trimmed r)) = Some u \<and> value_base 10 ds * u < 2 ^ 64)
    \<longleftrightarrow> ds \<noteq> [] \<and> (\<exists>u. map_of memoryUnits (toLower (trimmed (c # cs))) = Some u \<and> value_base 10 ds * u < 2 ^ 64)" (is "?L \<longleftrightarrow> ?R")
  proof
    assume ?L
    then obtain ds' r u where d: "trimmed text = ds' @ r" "validationAllDigits ds'" "\<not> validationDigit (hd r)"
      "map_of memoryUnits (toLower (trimmed r)) = Some u" "value_base 10 ds' * u < 2 ^ 64" by blast
    have "r \<noteq> []" using False d by (auto simp: validationAllDigits_def)
    then have "ds' = ds" "r = c # cs" using digits_split [of ds' r] d r by (auto simp: validationAllDigits_def ds_def)
    with d show ?R by auto
  next
    assume ?R
    then show ?L using split dig nd by (intro exI [of _ ds] exI [of _ "c # cs"]) (auto simp: validationAllDigits_def)
  qed
  then show ?thesis using False memory_with_unit [OF _ r, of ds] by (simp add: ds_def)
qed

text \<open>The size check accepts exactly: blank text where it may be empty, a bare 64-bit signed number where that is allowed, and
  decimal digits followed by a known unit (in any case, possibly after white space) whose product is below 2 to
  the 64.\<close>

theorem memory_check_exact:
  "accepts (vMemoryBytes allowBareInteger emp) text \<longleftrightarrow>
     (if trimmed text = [] then emp = Empty_Allowed
      else if list_all validationDigit (trimmed text) then allowBareInteger \<and> value_base 10 (trimmed text) < 2 ^ 63
      else \<exists>ds r u. trimmed text = ds @ r \<and> validationAllDigits ds \<and> \<not> validationDigit (hd r)
        \<and> map_of memoryUnits (toLower (trimmed r)) = Some u \<and> value_base 10 ds * u < 2 ^ 64)"
proof -
  consider "trimmed text = []" | "trimmed text \<noteq> []" "list_all validationDigit (trimmed text)"
    | "\<not> (trimmed text = [] \<or> list_all validationDigit (trimmed text))" by blast
  then show ?thesis
  proof cases
    case 1
    then show ?thesis by (cases emp) (auto simp: memoryRule.blank validationEmpty_def vRequired_def)
  next
    case 2
    then have "dropWhile validationDigit (trimmed text) = []" by (simp add: list_all_iff)
    then have "accepts (vMemoryBytes allowBareInteger emp) text \<longleftrightarrow> allowBareInteger \<and> validationParseInt (trimmed text) \<noteq> None"
      using 2(1) by (simp add: vMemoryBytes_def Let_def del: dropWhile_eq_Nil_conv)
    then show ?thesis using 2 bare_integer [of "trimmed text"] by (simp add: validationAllDigits_def)
  next
    case 3
    then show ?thesis using memory_unit_text [of "text"] by auto
  qed
qed
end
