(* ===== verification/Validation_Keys.thy ===== *)
theory Validation_Keys
  imports Validation_Units
begin

text \<open>
  Keys, identifiers, URLs and JSON of \<^verbatim>\<open>src/src/global/Validation.cpp\<close>. What Qt decides is an argument: \<open>fromBase64\<close> is
  \<open>QByteArray::fromBase64Encoding\<close> with the aborting option, \<open>QUrl\<close> gives the parts of a tolerantly parsed URL, \<open>fromJson\<close> is the
  JSON parser with its error text and offset, and \<open>fromUtf8Size\<close> the length of a decoded byte string.

  Results: the UUID check accepts exactly the 32-digit and the canonical form, bare, in braces or behind
  \<open>urn:uuid:\<close>, and the Xray check accepts the first two as well.
\<close>

subsection \<open>Base64 and hexadecimal\<close>

definition validationBase64Char :: "bool \<Rightarrow> qchar \<Rightarrow> bool" where
  "validationBase64Char url u \<longleftrightarrow>
     (if validationAsciiAlnum u then True else if url then u = u_dash \<or> u = 95 else u = 43 \<or> u = u_slash)"

definition toLatin1 :: "qstring \<Rightarrow> nat list" where
  "toLatin1 s = map (\<lambda>c. if c < 256 then c else 63) s"

definition padBase64 :: "nat list \<Rightarrow> nat list" where
  "padBase64 b = b @ replicate ((4 - length b mod 4) mod 4) 61"

definition validationDecodeBase64 :: "(bool \<Rightarrow> nat list \<Rightarrow> nat list option) \<Rightarrow> qstring \<Rightarrow> bool \<Rightarrow> nat list option" where
  "validationDecodeBase64 fromBase64 text url = fromBase64 url (padBase64 (toLatin1 text))"

definition keyDataChars :: "nat \<Rightarrow> nat" where
  "keyDataChars bytes = bytes div 3 * 4 + (if bytes mod 3 \<noteq> 0 then bytes mod 3 + 1 else 0)"

definition keyTotal :: "nat \<Rightarrow> bool \<Rightarrow> nat" where
  "keyTotal bytes padded = keyDataChars bytes + (if padded \<and> bytes mod 3 \<noteq> 0 then 3 - bytes mod 3 else 0)"

definition vBase64Key :: "(bool \<Rightarrow> nat list \<Rightarrow> nat list option) \<Rightarrow> nat \<Rightarrow> bool \<Rightarrow> bool \<Rightarrow> Empty \<Rightarrow> Rule" where
  "vBase64Key fromBase64 bytes urlAlphabet padded emp text =
     (let t = trimmed text
      in if t = [] then validationEmpty emp
         else
           let total = keyTotal bytes padded;
               ok = (length t = total \<and> list_all (\<lambda>i. if i < keyDataChars bytes then validationBase64Char urlAlphabet (t ! i) else t ! i = 61) [0..<total]);
               ok' = (ok \<and> (case validationDecodeBase64 fromBase64 t urlAlphabet of None \<Rightarrow> False | Some decoded \<Rightarrow> length decoded = bytes))
           in if ok' then None else Some (MBadKey urlAlphabet padded bytes total))"

definition trailingEquals :: "qstring \<Rightarrow> nat" where
  "trailingEquals t = length (takeWhile (\<lambda>c. c = 61) (rev t))"

definition vBase64 :: "(bool \<Rightarrow> nat list \<Rightarrow> nat list option) \<Rightarrow> Empty \<Rightarrow> Rule" where
  "vBase64 fromBase64 emp text =
     (let t = trimmed text
      in if t = [] then validationEmpty emp
         else
           let equals = trailingEquals t;
               data = length t - equals;
               ok = (data > 0 \<and> equals \<le> 2 \<and> (if equals \<noteq> 0 then length t mod 4 = 0 else length t mod 4 \<noteq> 1)
                     \<and> list_all (validationBase64Char False) (take data t));
               ok' = (ok \<and> (case validationDecodeBase64 fromBase64 t False of None \<Rightarrow> False | Some decoded \<Rightarrow> decoded \<noteq> []))
           in if ok' then None else Some MNotBase64)"

definition vHex :: "nat \<Rightarrow> nat \<Rightarrow> bool \<Rightarrow> Empty \<Rightarrow> Rule" where
  "vHex minChars maxChars evenLength emp text =
     (let t = trimmed text
      in if t = [] then validationEmpty emp
         else if \<not> list_all validationHexDigit t then Some MNotHex
         else if evenLength \<and> odd (length t) then Some MEvenLength
         else if maxChars > 0 \<and> length t > maxChars then Some (MMaxChars maxChars)
         else if minChars > 0 \<and> length t < minChars then Some (MMinChars minChars)
         else None)"

subsection \<open>Identifiers\<close>

definition urnPrefix :: "nat list" where
  "urnPrefix = qs ''urn:uuid:''"

text \<open>The digits and dashes left after a pair of braces or the prefix is taken off, by the length.\<close>

definition uuidBody :: "nat list \<Rightarrow> nat list option" where
  "uuidBody b =
     (if length b = 32 \<or> length b = 36 then Some b
      else if length b = 34 \<or> length b = 38 then
        (if hd b \<noteq> 123 \<or> last b \<noteq> 125 then None else Some (take (length b - 2) (drop 1 b)))
      else if length b = 41 \<or> length b = 45 then
        (if take 9 b \<noteq> urnPrefix then None else Some (drop 9 b))
      else None)"

definition uuidCharOk :: "nat list \<Rightarrow> nat \<Rightarrow> bool" where
  "uuidCharOk b i \<longleftrightarrow>
     (if length b = 36 \<and> (i = 8 \<or> i = 13 \<or> i = 18 \<or> i = 23) then b ! i = u_dash else validationHexDigit (b ! i))"

definition validationGofrsUuid :: "nat list \<Rightarrow> bool" where
  "validationGofrsUuid b = (case uuidBody b of None \<Rightarrow> False | Some x \<Rightarrow> list_all (uuidCharOk x) [0..<length x])"

fun xrayGroups :: "nat list \<Rightarrow> nat list \<Rightarrow> bool" where
  "xrayGroups [] rest \<longleftrightarrow> True"
| "xrayGroups (g # gs) rest \<longleftrightarrow>
     (let r = (if startsWith u_dash rest then drop 1 rest else rest)
      in if length r < g then False
         else if \<not> list_all validationHexDigit (take g r) then False
         else xrayGroups gs (drop g r))"

definition validationXrayUuid :: "nat list \<Rightarrow> bool" where
  "validationXrayUuid b \<longleftrightarrow>
     (if length b < 32 \<or> length b > 36 then length b \<noteq> 0 \<and> length b \<le> 30 else xrayGroups [8, 4, 4, 4, 12] b)"

definition vUuid :: "Empty \<Rightarrow> Rule" where
  "vUuid emp text =
     (let t = trimmed text
      in if t = [] then validationEmpty emp
         else if validationGofrsUuid (toUtf8 t) then None else Some MNotUuid)"

definition vXrayId :: "Empty \<Rightarrow> Rule" where
  "vXrayId emp text =
     (let t = trimmed text
      in if t = [] then validationEmpty emp
         else if validationXrayUuid (toUtf8 t) then None else Some MNotXrayId)"

subsection \<open>URLs and JSON\<close>

definition schemeChar :: "qchar \<Rightarrow> bool" where
  "schemeChar c \<longleftrightarrow> validationAsciiAlnum c \<or> c = 43 \<or> c = u_dash \<or> c = u_dot"

definition validationUrlPort :: "qstring \<Rightarrow> qstring" where
  "validationUrlPort t =
     (case indexOfStr [58, 47, 47] t of
        None \<Rightarrow> []
      | Some sp \<Rightarrow>
          if \<not> (sp > 0 \<and> validationAsciiAlnum (t ! 0) \<and> \<not> validationDigit (t ! 0)) \<or> \<not> list_all schemeChar (take sp t) then []
          else
            let authority = takeWhile (\<lambda>c. c \<noteq> u_slash \<and> c \<noteq> 63 \<and> c \<noteq> u_hash) (drop (sp + 3) t);
                host = (case lastIndexOf 64 authority of None \<Rightarrow> authority | Some k \<Rightarrow> drop (k + 1) authority)
            in if startsWith u_lbracket host then
                 (case indexOf u_rbracket host of
                    None \<Rightarrow> []
                  | Some close \<Rightarrow>
                      if close + 1 \<ge> length host \<or> host ! (close + 1) \<noteq> u_colon then [] else drop (close + 2) host)
               else case lastIndexOf u_colon host of None \<Rightarrow> [] | Some colon \<Rightarrow> drop (colon + 1) host)"

record UrlParts =
  urlValid :: bool
  urlScheme :: qstring
  urlHost :: qstring

text \<open>\<open>same\<close> is the case-insensitive comparison of schemes.\<close>

definition vUrl :: "(qstring \<Rightarrow> UrlParts) \<Rightarrow> (qstring \<Rightarrow> qstring \<Rightarrow> bool) \<Rightarrow> qstring list \<Rightarrow> Empty \<Rightarrow> Rule" where
  "vUrl QUrl same schemes emp text =
     (let t = trimmed text
      in if t = [] then validationEmpty emp
         else if list_ex isSpace t then Some MNoSpaces
         else
           let url = QUrl t
           in if schemes \<noteq> [] \<and> \<not> list_ex (\<lambda>s. same s (urlScheme url)) schemes then
                Some (MUrlScheme (map (\<lambda>s. toLower s @ [58, 47, 47]) schemes))
              else if validationUrlPort t \<noteq> [] \<and> \<not> validationPortNumber (validationUrlPort t) then Some MPort
              else if \<not> urlValid url \<or> urlScheme url = [] \<or> urlHost url = [] then Some MNotUrl
              else None)"

datatype JsonResult = JsonError qstring int | JsonDoc bool

fun lineAndStart :: "nat list \<Rightarrow> nat \<Rightarrow> nat \<Rightarrow> nat \<Rightarrow> nat \<times> nat" where
  "lineAndStart [] i line lineStart = (line, lineStart)"
| "lineAndStart (c # cs) i line lineStart =
     (if c = u_lf then lineAndStart cs (i + 1) (line + 1) (i + 1) else lineAndStart cs (i + 1) line lineStart)"

definition vJsonObject :: "(nat list \<Rightarrow> JsonResult) \<Rightarrow> (nat list \<Rightarrow> nat) \<Rightarrow> Empty \<Rightarrow> Rule" where
  "vJsonObject fromJson fromUtf8Size emp text =
     (if trimmed text = [] then validationEmpty emp
      else
        let utf8 = toUtf8 text
        in case fromJson utf8 of
             JsonError errorString errorOffset \<Rightarrow>
               let offset = nat (max 0 (min errorOffset (int (length utf8))));
                   (line, lineStart) = lineAndStart (take offset utf8) 0 1 0;
                   column = fromUtf8Size (drop lineStart (take offset utf8)) + 1
               in Some (MBadJson errorString line column)
           | JsonDoc isObject \<Rightarrow> if \<not> isObject then Some MNotObject else None)"

interpretation base64Key: field_rule "vBase64Key fromBase64 bytes urlAlphabet padded emp" emp for fromBase64 bytes urlAlphabet padded emp
  by unfold_locales (simp_all add: vBase64Key_def)

interpretation base64: field_rule "vBase64 fromBase64 emp" emp for fromBase64 emp
  by unfold_locales (simp_all add: vBase64_def)

interpretation hexRule: field_rule "vHex minChars maxChars evenLength emp" emp for minChars maxChars evenLength emp
  by unfold_locales (simp_all add: vHex_def)

interpretation uuidRule: field_rule "vUuid emp" emp for emp
  by unfold_locales (simp_all add: vUuid_def)

interpretation xrayId: field_rule "vXrayId emp" emp for emp
  by unfold_locales (simp_all add: vXrayId_def)

interpretation urlRule: field_rule "vUrl QUrl same schemes emp" emp for QUrl same schemes emp
  by unfold_locales (simp_all add: vUrl_def)

subsection \<open>What a UUID is\<close>

definition hexRunOf :: "nat \<Rightarrow> nat list \<Rightarrow> bool" where
  "hexRunOf n g \<longleftrightarrow> length g = n \<and> list_all validationHexDigit g"

definition plainUuid :: "nat list \<Rightarrow> bool" where
  "plainUuid x \<longleftrightarrow> hexRunOf 32 x \<or> (\<exists>a b c d e. hexRunOf 8 a \<and> hexRunOf 4 b \<and> hexRunOf 4 c \<and> hexRunOf 4 d \<and> hexRunOf 12 e
     \<and> x = a @ [u_dash] @ b @ [u_dash] @ c @ [u_dash] @ d @ [u_dash] @ e)"


lemma list_all_segment: "k + n \<le> length x \<Longrightarrow> list_all P (take n (drop k x)) \<longleftrightarrow> (\<forall>i < n. P (x ! (k + i)))"
  by (auto simp: list_all_length)

lemma all_less_add: "(\<forall>i < m + n. P i) \<longleftrightarrow> (\<forall>i < m. P i) \<and> (\<forall>i < n. P (m + (i::nat)))"
  by (metis add.commute add_less_cancel_left le_iff_add linorder_not_less trans_less_add1)

text \<open>The canonical form by positions: the dashes cut 36 bytes into five runs.\<close>

lemma dashed_segments:
  assumes "length x = 36"
  shows "list_all (uuidCharOk x) [0..<36] \<longleftrightarrow>
    list_all validationHexDigit (take 8 x) \<and> x ! 8 = u_dash \<and> list_all validationHexDigit (take 4 (drop 9 x)) \<and> x ! 13 = u_dash
    \<and> list_all validationHexDigit (take 4 (drop 14 x)) \<and> x ! 18 = u_dash \<and> list_all validationHexDigit (take 4 (drop 19 x)) \<and> x ! 23 = u_dash
    \<and> list_all validationHexDigit (take 12 (drop 24 x))"
proof -
  have "list_all (uuidCharOk x) [0..<36] \<longleftrightarrow> (\<forall>i < 8 + (1 + (4 + (1 + (4 + (1 + (4 + (1 + 12))))))). uuidCharOk x i)"
    by (simp add: list_all_iff atLeast0LessThan Ball_def)
  also have "\<dots> \<longleftrightarrow> (\<forall>i < 8. uuidCharOk x i) \<and> uuidCharOk x 8 \<and> (\<forall>i < 4. uuidCharOk x (9 + i)) \<and> uuidCharOk x 13
      \<and> (\<forall>i < 4. uuidCharOk x (14 + i)) \<and> uuidCharOk x 18 \<and> (\<forall>i < 4. uuidCharOk x (19 + i)) \<and> uuidCharOk x 23 \<and> (\<forall>i < 12. uuidCharOk x (24 + i))"
    unfolding all_less_add by (simp add: add.assoc [symmetric])
  finally show ?thesis using assms list_all_segment [of 0 8 x validationHexDigit] list_all_segment [of 24 12 x validationHexDigit]
    by (simp add: list_all_segment uuidCharOk_def)
qed

lemma cut_at: "k < length x \<Longrightarrow> drop k x = x ! k # take n (drop (Suc k) x) @ drop (Suc k + n) x"
  by (metis Cons_nth_drop_Suc add.commute append_take_drop_id drop_drop)

lemma dashed_form:
  assumes "length x = 36"
  shows "list_all (uuidCharOk x) [0..<36] \<longleftrightarrow> (\<exists>a b c d e. hexRunOf 8 a \<and> hexRunOf 4 b \<and> hexRunOf 4 c \<and> hexRunOf 4 d \<and> hexRunOf 12 e
     \<and> x = a @ [u_dash] @ b @ [u_dash] @ c @ [u_dash] @ d @ [u_dash] @ e)" (is "_ \<longleftrightarrow> ?R")
proof
  assume L: "list_all (uuidCharOk x) [0..<36]"
  have "x = take 8 x @ drop 8 x" by simp
  also have "drop 8 x = x ! 8 # take 4 (drop 9 x) @ drop 13 x" using assms cut_at [of 8 x 4] by simp
  also have "drop 13 x = x ! 13 # take 4 (drop 14 x) @ drop 18 x" using assms cut_at [of 13 x 4] by simp
  also have "drop 18 x = x ! 18 # take 4 (drop 19 x) @ drop 23 x" using assms cut_at [of 18 x 4] by simp
  also have "drop 23 x = x ! 23 # take 12 (drop 24 x)" using assms cut_at [of 23 x 12] by simp
  finally have "x = take 8 x @ [u_dash] @ take 4 (drop 9 x) @ [u_dash] @ take 4 (drop 14 x) @ [u_dash] @ take 4 (drop 19 x) @ [u_dash] @ take 12 (drop 24 x)"
    using L unfolding dashed_segments [OF assms] by simp
  moreover have "hexRunOf 8 (take 8 x)" "hexRunOf 4 (take 4 (drop 9 x))" "hexRunOf 4 (take 4 (drop 14 x))" "hexRunOf 4 (take 4 (drop 19 x))"
    "hexRunOf 12 (take 12 (drop 24 x))" using L assms unfolding dashed_segments [OF assms] by (simp_all add: hexRunOf_def)
  ultimately show ?R by blast
next
  assume ?R
  then show "list_all (uuidCharOk x) [0..<36]" unfolding dashed_segments [OF assms] by (auto simp: hexRunOf_def nth_append)
qed

lemma undashed_form: "length x = 32 \<Longrightarrow> list_all (uuidCharOk x) [0..<32] \<longleftrightarrow> hexRunOf 32 x"
  by (auto simp: uuidCharOk_def hexRunOf_def list_all_length list_all_iff)

lemma plainUuid_length: "plainUuid x \<Longrightarrow> length x = 32 \<or> length x = 36"
  by (auto simp: plainUuid_def hexRunOf_def)

lemma plain_chars:
  assumes "length x = 32 \<or> length x = 36"
  shows "list_all (uuidCharOk x) [0..<length x] \<longleftrightarrow> plainUuid x"
proof (cases "length x = 36")
  case True
  then have "\<not> hexRunOf 32 x" by (simp add: hexRunOf_def)
  then show ?thesis unfolding plainUuid_def dashed_form [OF True, symmetric] by (simp add: True)
next
  case False
  then have "length x = 32" using assms by simp
  moreover from this have "\<not> (\<exists>a b c d e. hexRunOf 8 a \<and> hexRunOf 4 b \<and> hexRunOf 4 c \<and> hexRunOf 4 d \<and> hexRunOf 12 e
     \<and> x = a @ [u_dash] @ b @ [u_dash] @ c @ [u_dash] @ d @ [u_dash] @ e)" by (auto simp: hexRunOf_def)
  ultimately show ?thesis unfolding plainUuid_def using undashed_form [of x] by metis
qed

lemma uuidBody_cases:
  assumes "uuidBody b = Some x"
  shows "(length x = 32 \<or> length x = 36) \<and> (b = x \<or> b = [123] @ x @ [125] \<or> b = urnPrefix @ x)"
proof -
  have braces: "b = [hd b] @ take (length b - 2) (drop 1 b) @ [last b]" if "length b \<ge> 2"
  proof (cases b)
    case (Cons c l)
    then have "l \<noteq> []" "take (length b - 2) (drop 1 b) = butlast l" using that by (auto simp: butlast_conv_take)
    then show ?thesis using Cons by simp
  qed (use that in simp)
  have urn: "length urnPrefix = 9" by (simp add: urnPrefix_def)
  have "take 9 b = urnPrefix \<Longrightarrow> b = urnPrefix @ drop 9 b" by (metis append_take_drop_id)
  then show ?thesis using assms braces urn by (auto simp: uuidBody_def split: if_splits)
qed

lemma xray_plain: "plainUuid x \<Longrightarrow> validationXrayUuid x"
proof -
  have nd: "hexRunOf n g \<Longrightarrow> 0 < n \<Longrightarrow> \<not> startsWith u_dash (g @ r)" for n g r
    by (cases g) (auto simp: hexRunOf_def validationHexDigit_def)
  assume "plainUuid x"
  then consider "hexRunOf 32 x" | a b c d e where "hexRunOf 8 a" "hexRunOf 4 b" "hexRunOf 4 c" "hexRunOf 4 d" "hexRunOf 12 e"
    "x = a @ [u_dash] @ b @ [u_dash] @ c @ [u_dash] @ d @ [u_dash] @ e" unfolding plainUuid_def by blast
  then show ?thesis
  proof cases
    case 1
    have all: "list_all validationHexDigit (drop k x)" for k using 1 by (auto simp: hexRunOf_def list_all_iff dest: in_set_dropD)
    have sub: "list_all validationHexDigit (take n (drop k x))" for k n using all [of k] by (auto simp: list_all_iff dest: in_set_takeD)
    have nd': "\<not> startsWith u_dash (drop k x)" for k using all [of k] by (cases "drop k x") (auto simp: validationHexDigit_def)
    then show ?thesis using 1 sub sub [of _ 0] nd' [of 0] all [of 20] by (simp add: validationXrayUuid_def hexRunOf_def)
  next
    case 2
    then show ?thesis using nd [of 8 a] nd [of 4 b] nd [of 4 c] nd [of 4 d] nd [of 12 e "[]"]
      by (simp add: validationXrayUuid_def hexRunOf_def)
  qed
qed

text \<open>The UUID check accepts exactly the 32 hexadecimal digits or the canonical dashed form, bare, in braces or
  after \<open>urn:uuid:\<close>; and the Xray identifier check accepts every bare one of these, so the same text serves both
  cores.\<close>

theorem uuid_forms:
  "(validationGofrsUuid b \<longleftrightarrow> (\<exists>x. plainUuid x \<and> (b = x \<or> b = [123] @ x @ [125] \<or> b = urnPrefix @ x)))
   \<and> (if plainUuid b then validationXrayUuid b else True)"
proof -
  have urn: "length urnPrefix = 9" by (simp add: urnPrefix_def)
  have "validationGofrsUuid b" if "plainUuid x" "b = x \<or> b = [123] @ x @ [125] \<or> b = urnPrefix @ x" for x
  proof -
    have "uuidBody b = Some x" using that(2) plainUuid_length [OF that(1)] urn by (auto simp: uuidBody_def)
    then show ?thesis using that(1) plain_chars [OF plainUuid_length [OF that(1)]] by (simp add: validationGofrsUuid_def)
  qed
  moreover have "\<exists>x. plainUuid x \<and> (b = x \<or> b = [123] @ x @ [125] \<or> b = urnPrefix @ x)" if "validationGofrsUuid b"
  proof -
    obtain x where x: "uuidBody b = Some x" "list_all (uuidCharOk x) [0..<length x]"
      using \<open>validationGofrsUuid b\<close> by (auto simp: validationGofrsUuid_def split: option.splits)
    have "(length x = 32 \<or> length x = 36) \<and> (b = x \<or> b = [123] @ x @ [125] \<or> b = urnPrefix @ x)"
      using uuidBody_cases [OF x(1)] .
    then show ?thesis using x(2) plain_chars by blast
  qed
  ultimately show ?thesis using xray_plain by auto
qed

end
