(* ===== verification/Validation_Regex.thy ===== *)
theory Validation_Regex
  imports Validation_Base
begin

text \<open>
  The regular-expression checks of \<^verbatim>\<open>src/src/global/Validation.cpp\<close>: what Go's engine refuses (\<open>validationRe2Unsupported\<close>) and the copy of a
  pattern that is judged by PCRE (\<open>validationPcreCopy\<close>). The program walks the pattern with an index \<open>i\<close>; here the state
  holds the text from \<open>i\<close> on (\<open>rest\<close>), and the test \<open>i > classStart\<close> is a flag that is set until the first character
  after the opening bracket is consumed. The stack of group weights has its top first. Whether PCRE accepts a pattern is an argument.

  Each pass over the pattern is a step function on a state; \<open>scanStep_shorter\<close> and \<open>copyStep_shorter\<close> show that every step consumes
  text, which makes both loops total.
\<close>

subsection \<open>Pieces of a pattern\<close>

definition escapePropertyName :: "qstring \<Rightarrow> qstring" where
  "escapePropertyName name = dropWhile (\<lambda>c. c = 95 \<or> c = 45 \<or> c = 32) (if startsWith 94 name then drop 1 name else name)"

definition pcreOnlyProperty :: "qstring \<Rightarrow> bool" where
  "pcreOnlyProperty name \<longleftrightarrow> startsWith 88 name \<or> startsWith 120 name \<or> 38 \<in> set name \<or> 58 \<in> set name \<or> 61 \<in> set name"

definition hexValue :: "qstring \<Rightarrow> nat" where
  "hexValue s = foldl (\<lambda>v u. v * 16 + (if u \<le> 57 then u - 48 else if u \<le> 70 then u - 55 else u - 87)) 0 s"

text \<open>\<open>validationRe2Escape\<close> on the character \<open>c\<close> after the backslash and the text \<open>r\<close> after it: the offending token
  and what is left.\<close>

definition validationRe2Escape :: "qchar \<Rightarrow> qstring \<Rightarrow> bool \<Rightarrow> qstring \<times> qstring" where
  "validationRe2Escape c r inClass =
     (let escape = [92, c]
      in if c < 0x80 \<and> \<not> validationAsciiAlnum c then ([], r)
         else if c = 112 \<or> c = 80 then
           (if startsWith 123 r then
              (case indexOf 125 r of
                 None \<Rightarrow> ([], r)
               | Some k \<Rightarrow>
                   (if pcreOnlyProperty (escapePropertyName (take (k - 1) (drop 1 r))) then escape @ take (k + 1) r else [], drop (k + 1) r))
            else (if pcreOnlyProperty (escapePropertyName (take 1 r)) then escape @ take 1 r else [], drop 1 r))
         else if c = 120 then
           (if startsWith 123 r then
              (case indexOf 125 r of
                 None \<Rightarrow> (escape @ r, [])
               | Some k \<Rightarrow>
                   let digits = take (k - 1) (drop 1 r);
                       ok = (digits \<noteq> [] \<and> list_all validationHexDigit digits \<and> hexValue digits \<le> 0x10FFFF)
                   in (if ok then [] else escape @ take (k + 1) r, drop (k + 1) r))
            else if length r > 1 \<and> validationHexDigit (r ! 0) \<and> validationHexDigit (r ! 1) then ([], drop 2 r)
            else (escape @ take 2 r, r))
         else if c \<in> set (qs ''dDsSwWafnrtv0'') then ([], r)
         else if c \<in> set (qs ''AbBz'') \<and> \<not> inClass then ([], r)
         else if 49 \<le> c \<and> c \<le> 55 \<and> r \<noteq> [] \<and> 48 \<le> hd r \<and> hd r \<le> 55 then ([], r)
         else (escape, r))"

definition validationGoCaptureName :: "qstring \<Rightarrow> bool" where
  "validationGoCaptureName name \<longleftrightarrow> name \<noteq> [] \<and> list_all (\<lambda>c. validationAsciiAlnum c \<or> c = 95) name"

record ValidationRe2Group =
  bad :: qstring
  grpLength :: nat
  opens :: bool

definition groupToken :: "qstring \<Rightarrow> nat \<Rightarrow> ValidationRe2Group" where
  "groupToken rest n = \<lparr>bad = [40, 63] @ take n rest, grpLength = 0, opens = True\<rparr>"

fun groupFlags :: "qstring \<Rightarrow> nat \<Rightarrow> bool \<Rightarrow> bool \<Rightarrow> qstring \<Rightarrow> ValidationRe2Group" where
  "groupFlags rest k negated sawFlag [] = \<lparr>bad = [], grpLength = 0, opens = True\<rparr>"
| "groupFlags rest k negated sawFlag (f # fs) =
     (if f = 58 \<or> f = 41 then
        (if negated \<and> \<not> sawFlag then groupToken rest (k + 1) else \<lparr>bad = [], grpLength = k + 1, opens = (f = 58)\<rparr>)
      else if f = 45 then
        (if negated then groupToken rest (k + 1) else groupFlags rest (k + 1) True False fs)
      else if f = 105 \<or> f = 109 \<or> f = 115 \<or> f = 85 then groupFlags rest (k + 1) negated True fs
      else groupToken rest (k + 1))"

definition charAt :: "qstring \<Rightarrow> nat \<Rightarrow> qchar" where
  "charAt s k = (if k < length s then s ! k else 0)"

definition validationRe2Group :: "qstring \<Rightarrow> ValidationRe2Group" where
  "validationRe2Group rest =
     (let c0 = charAt rest 0; c1 = charAt rest 1
      in if (c0 = 80 \<and> c1 = 60) \<or> (c0 = 60 \<and> c1 \<noteq> 61 \<and> c1 \<noteq> 33) then
           let nameStart = (if c0 = 80 then 2 else 1)
           in case indexOf 62 rest of
                None \<Rightarrow> \<lparr>bad = [], grpLength = 0, opens = True\<rparr>
              | Some close \<Rightarrow>
                  if \<not> validationGoCaptureName (take (close - nameStart) (drop nameStart rest)) then groupToken rest (close + 1)
                  else \<lparr>bad = [], grpLength = close + 1, opens = True\<rparr>
         else if c0 = 60 \<or> (c0 = 80 \<and> (c1 = 61 \<or> c1 = 62)) \<or> (c0 = 45 \<and> validationDigit c1) then groupToken rest 2
         else if c0 \<in> set (qs ''=!>(#|'') \<or> c0 = 39 \<or> c0 = 82 \<or> c0 = 38 \<or> c0 = 43 \<or> validationDigit c0 then groupToken rest 1
         else groupFlags rest 0 False False rest)"

definition repeatNumber :: "qstring \<Rightarrow> (nat \<times> qstring) option" where
  "repeatNumber r =
     (let ds = takeWhile validationDigit r
      in if ds = [] \<or> (length ds > 1 \<and> hd ds = 48) then None
         else Some (if length ds > 7 then 100000000 else value_base 10 ds, dropWhile validationDigit r))"

text \<open>\<open>validationRepeatEnd\<close> on the text after the brace: the counts (no maximum is \<open>None\<close>) and what is left.\<close>

definition validationRepeatEnd :: "qstring \<Rightarrow> (nat \<times> nat option \<times> qstring) option" where
  "validationRepeatEnd r =
     (case repeatNumber r of
        None \<Rightarrow> None
      | Some (mn, r1) \<Rightarrow>
          if startsWith 44 r1 then
            (if startsWith 125 (drop 1 r1) then Some (mn, None, drop 2 r1)
             else case repeatNumber (drop 1 r1) of
                 None \<Rightarrow> None
               | Some (mx, r2) \<Rightarrow> if startsWith 125 r2 then Some (mn, Some mx, drop 1 r2) else None)
          else if startsWith 125 r1 then Some (mn, Some mn, drop 1 r1)
          else None)"

subsection \<open>What RE2 refuses\<close>

record ScanState =
  weights :: "nat list"
  lastWeight :: nat
  inClass :: bool
  classFirst :: bool
  rest :: qstring

definition commit :: "ScanState \<Rightarrow> ScanState" where
  "commit st = st\<lparr>weights := max (hd (weights st)) (lastWeight st) # tl (weights st), lastWeight := 0\<rparr>"

definition scanAtom :: "qstring \<Rightarrow> ScanState \<Rightarrow> ScanState" where
  "scanAtom r st = (commit st)\<lparr>lastWeight := 1, rest := r\<rparr>"

definition unsupported :: "qstring \<Rightarrow> vmsg option" where
  "unsupported token = Some (MRe2Unsupported token)"

definition scanEscape :: "qstring \<Rightarrow> ScanState \<Rightarrow> vmsg option + ScanState" where
  "scanEscape r st =
     (case r of
        [] \<Rightarrow> Inl None
      | d # r' \<Rightarrow>
          let st1 = (if inClass st then st else (commit st)\<lparr>lastWeight := 1\<rparr>)
          in if \<not> inClass st \<and> d = 81 then
               (case indexOfStr [92, 69] r' of None \<Rightarrow> Inl None | Some k \<Rightarrow> Inr (st1\<lparr>rest := drop (k + 2) r'\<rparr>))
             else
               let (tok, r2) = validationRe2Escape d r' (inClass st)
               in if tok \<noteq> [] then Inl (unsupported tok) else Inr (st1\<lparr>rest := r2, classFirst := False\<rparr>))"

definition scanInClass :: "qchar \<Rightarrow> qstring \<Rightarrow> ScanState \<Rightarrow> ScanState" where
  "scanInClass c r st =
     (let plain = st\<lparr>inClass := \<not> (c = 93 \<and> \<not> classFirst st), classFirst := False, rest := r\<rparr>
      in if c = 91 \<and> startsWith 58 r then
           (case indexOfStr [58, 93] (drop 1 r) of
              Some k \<Rightarrow> st\<lparr>rest := drop (k + 2) (drop 1 r), classFirst := False\<rparr>
            | None \<Rightarrow> plain)
         else plain)"

definition scanOpen :: "qstring \<Rightarrow> ScanState \<Rightarrow> vmsg option + ScanState" where
  "scanOpen r st =
     (if startsWith 42 r then
        Inl (unsupported (case indexOf 41 (40 # r) of None \<Rightarrow> [40, 42] | Some k \<Rightarrow> take (k + 1) (40 # r)))
      else
        let st1 = commit st
        in if startsWith 63 r then
             let g = validationRe2Group (drop 1 r)
             in if bad g \<noteq> [] then Inl (unsupported (bad g))
                else Inr (st1\<lparr>weights := (if opens g then 1 # weights st1 else weights st1), rest := drop (grpLength g) (drop 1 r)\<rparr>)
           else Inr (st1\<lparr>weights := 1 # weights st1, rest := r\<rparr>))"

definition scanClose :: "qstring \<Rightarrow> ScanState \<Rightarrow> ScanState" where
  "scanClose r st =
     (let st1 = commit st
      in if length (weights st1) > 1 then st1\<lparr>lastWeight := hd (weights st1), weights := tl (weights st1), rest := r\<rparr>
         else st1\<lparr>rest := r\<rparr>)"

definition scanRepeat :: "qstring \<Rightarrow> ScanState \<Rightarrow> vmsg option + ScanState" where
  "scanRepeat r st =
     (case validationRepeatEnd r of
        None \<Rightarrow> Inr (scanAtom r st)
      | Some (mn, mx, r') \<Rightarrow>
          if mn > 1000 \<or> (case mx of None \<Rightarrow> False | Some m \<Rightarrow> m > 1000) then Inl (Some MRe2TooManyRepeats)
          else if startsWith 43 r' then Inl (unsupported (take (length r - length r' + 2) (123 # r)))
          else
            let m = (case mx of None \<Rightarrow> mn | Some m \<Rightarrow> m);
                weight = (if mx = Some 0 then 1 else if m > 1 then lastWeight st * m else lastWeight st)
            in if mx \<noteq> Some 0 \<and> m > 1 \<and> weight > 1000 then Inl (Some MRe2TooManyRepeats)
               else Inr (st\<lparr>lastWeight := weight, rest := (if startsWith 63 r' then drop 1 r' else r')\<rparr>))"

text \<open>One turn of the loop; \<open>Inl\<close> is a return.\<close>

definition scanStep :: "ScanState \<Rightarrow> vmsg option + ScanState" where
  "scanStep st =
     (let c = hd (rest st); r = tl (rest st)
      in if c = 92 then scanEscape r st
         else if inClass st then Inr (scanInClass c r st)
         else if c = 91 then
           Inr (let st1 = (commit st)\<lparr>lastWeight := 1, inClass := True, classFirst := True\<rparr>
                in st1\<lparr>rest := (if startsWith 94 r then drop 1 r else r)\<rparr>)
         else if c = 40 then scanOpen r st
         else if c = 41 then Inr (scanClose r st)
         else if c = 124 then Inr ((commit st)\<lparr>rest := r\<rparr>)
         else if c = 42 \<or> c = 43 \<or> c = 63 then
           (if startsWith 43 r then Inl (unsupported [c, 43]) else Inr (st\<lparr>rest := (if startsWith 63 r then drop 1 r else r)\<rparr>))
         else if c = 123 then scanRepeat r st
         else Inr (scanAtom r st))"


lemma startsWith_length: "startsWith c s \<Longrightarrow> 0 < length s"
  by (cases s) auto

lemma repeatNumber_shorter: "repeatNumber r = Some (n, r') \<Longrightarrow> length r' < length r"
  using length_append [of "takeWhile validationDigit r" "dropWhile validationDigit r"]
  by (auto simp: repeatNumber_def Let_def split: if_splits)

lemma repeatEnd_shorter: "validationRepeatEnd r = Some (mn, mx, r') \<Longrightarrow> length r' < length r"
proof -
  assume e: "validationRepeatEnd r = Some (mn, mx, r')"
  then obtain n r1 where r1: "repeatNumber r = Some (n, r1)" by (auto simp: validationRepeatEnd_def split: option.splits)
  then have "length r1 < length r" by (rule repeatNumber_shorter)
  moreover have "length r' \<le> length r1"
  proof (cases "startsWith 44 r1 \<and> \<not> startsWith 125 (drop 1 r1)")
    case True
    then obtain m r2 where r2: "repeatNumber (drop 1 r1) = Some (m, r2)" "r' = drop 1 r2"
      using e r1 by (auto simp: validationRepeatEnd_def split: option.splits if_splits)
    then show ?thesis using repeatNumber_shorter [OF r2(1)] by simp
  next
    case False
    then show ?thesis using e r1 by (auto simp: validationRepeatEnd_def split: if_splits)
  qed
  ultimately show ?thesis by simp
qed

lemma re2Escape_shorter: "length (snd (validationRe2Escape c r b)) \<le> length r"
  by (auto simp: validationRe2Escape_def Let_def split: option.splits)

lemma scanEscape_shorter: "scanEscape r st = Inr st' \<Longrightarrow> length (rest st') \<le> length r"
  using re2Escape_shorter [of "hd r" "tl r" "inClass st"]
  by (cases r) (auto simp: scanEscape_def Let_def split: if_splits option.splits prod.splits)

lemma scanOpen_shorter: "scanOpen r st = Inr st' \<Longrightarrow> length (rest st') \<le> length r"
  by (auto simp: scanOpen_def Let_def split: if_splits)

lemma scanRepeat_shorter: "scanRepeat r st = Inr st' \<Longrightarrow> length (rest st') \<le> length r"
proof (cases "validationRepeatEnd r")
  case (Some t)
  assume "scanRepeat r st = Inr st'"
  moreover obtain mn mx r' where t: "t = (mn, mx, r')" by (cases t) auto
  moreover have "length r' < length r" using Some t repeatEnd_shorter by simp
  ultimately show ?thesis using Some by (auto simp: scanRepeat_def Let_def split: option.splits if_splits)
qed (auto simp: scanRepeat_def scanAtom_def)

lemma scanStep_shorter: "rest st \<noteq> [] \<Longrightarrow> scanStep st = Inr st' \<Longrightarrow> length (rest st') < length (rest st)"
proof -
  assume ne: "rest st \<noteq> []" and st': "scanStep st = Inr st'"
  have "length (rest st') \<le> length (tl (rest st))"
    using st' scanEscape_shorter [of "tl (rest st)" st st'] scanOpen_shorter [of "tl (rest st)" st st']
      scanRepeat_shorter [of "tl (rest st)" st st']
    by (auto simp: scanStep_def Let_def scanInClass_def scanClose_def scanAtom_def split: if_splits option.splits)
  with ne show ?thesis by (cases "rest st") auto
qed

function scanLoop :: "ScanState \<Rightarrow> vmsg option" where
  "scanLoop st =
     (if rest st = [] then None else case scanStep st of Inl result \<Rightarrow> result | Inr st' \<Rightarrow> scanLoop st')"
  by pat_completeness auto
termination
  by (relation "measure (\<lambda>st. length (rest st))") (auto dest: scanStep_shorter)

declare scanLoop.simps [simp del]

definition scanStart :: "qstring \<Rightarrow> ScanState" where
  "scanStart p = \<lparr>weights = [1], lastWeight = 0, inClass = False, classFirst = False, rest = p\<rparr>"

definition validationRe2Unsupported :: "qstring \<Rightarrow> vmsg option" where
  "validationRe2Unsupported p = scanLoop (scanStart p)"

subsection \<open>The copy for PCRE\<close>

definition goOnlyNames :: "qstring list" where
  "goOnlyNames = map (\<lambda>s. qs s)
     [''assigned'', ''casedletter'', ''closepunctuation'', ''cntrl'', ''combiningmark'', ''connectorpunctuation'', ''control'',
      ''currencysymbol'', ''dashpunctuation'', ''decimalnumber'', ''digit'', ''enclosingmark'', ''finalpunctuation'', ''format'',
      ''initialpunctuation'', ''letter'', ''letternumber'', ''lineseparator'', ''lowercaseletter'', ''mark'', ''mathsymbol'',
      ''modifierletter'', ''modifiersymbol'', ''nonspacingmark'', ''number'', ''openpunctuation'', ''other'', ''otherletter'',
      ''othernumber'', ''otherpunctuation'', ''othersymbol'', ''paragraphseparator'', ''privateuse'', ''punct'', ''punctuation'',
      ''separator'', ''spaceseparator'', ''spacingmark'', ''surrogate'', ''symbol'', ''titlecaseletter'', ''unassigned'',
      ''uppercaseletter'']"

definition validationGoOnlyProperty :: "qstring \<Rightarrow> bool" where
  "validationGoOnlyProperty name =
     (let kept = filter (\<lambda>u. \<not> (u = 95 \<or> u = 45 \<or> u = 32)) name
      in if \<not> list_all validationAsciiAlnum kept then False
         else map (\<lambda>u. if 65 \<le> u \<and> u \<le> 90 then u + 32 else u) kept \<in> set goOnlyNames)"

function flagGroupsEnd :: "qstring \<Rightarrow> qstring" where
  "flagGroupsEnd s =
     (if startsWith 40 s \<and> startsWith 63 (drop 1 s) then
        let g = validationRe2Group (drop 2 s)
        in if bad g \<noteq> [] \<or> opens g then s else flagGroupsEnd (drop (grpLength g) (drop 2 s))
      else s)"
  by pat_completeness auto
termination
  by (relation "measure length") (auto dest: startsWith_length)

declare flagGroupsEnd.simps [simp del]

definition quantifierEnd :: "qstring \<Rightarrow> qstring option" where
  "quantifierEnd s =
     (case s of
        [] \<Rightarrow> None
      | c # r \<Rightarrow>
          map_option (\<lambda>e. if startsWith 63 e \<or> startsWith 43 e then drop 1 e else e)
            (if c = 42 \<or> c = 43 \<or> c = 63 then Some r
             else if c = 123 then map_option (\<lambda>(mn, mx, r'). r') (validationRepeatEnd r)
             else None))"

record CopyState =
  cOut :: qstring
  cNames :: "qstring list"
  cRenamed :: nat
  cInClass :: bool
  cAfterClass :: bool
  cFirst :: bool
  cRest :: qstring

text \<open>The text between the current position and a later one.\<close>

definition upTo :: "qstring \<Rightarrow> qstring \<Rightarrow> qstring" where
  "upTo s s' = take (length s - length s') s"

definition emit :: "qstring \<Rightarrow> qstring \<Rightarrow> CopyState \<Rightarrow> CopyState" where
  "emit t r st = st\<lparr>cOut := cOut st @ t, cRest := r, cFirst := False\<rparr>"

definition copyProperty :: "CopyState \<Rightarrow> CopyState" where
  "copyProperty st =
     (let s = cRest st; r = drop 2 s
      in if startsWith 123 r then
           (case indexOf 125 r of
              None \<Rightarrow> emit s [] st
            | Some k \<Rightarrow>
                let name = take (k - 1) (drop 1 r);
                    name' = (if startsWith 94 name then drop 1 name else name)
                in emit (if validationGoOnlyProperty name' then [92, 112, 76] else take (k + 3) s) (drop (k + 3) s) st)
         else
           let name = take 1 r;
               name' = (if startsWith 94 name then drop 1 name else name)
           in emit (if validationGoOnlyProperty name' then [92, 112, 76] else take 3 s) (drop 3 s) st)"

definition copyAssertion :: "nat \<Rightarrow> CopyState \<Rightarrow> CopyState" where
  "copyAssertion n st =
     (let token = take n (cRest st); r = drop n (cRest st)
      in emit (if quantifierEnd (flagGroupsEnd r) \<noteq> None then [40, 63, 58] @ token @ [41] else token) r st)"

definition copyInClass :: "CopyState \<Rightarrow> CopyState" where
  "copyInClass st =
     (let s = cRest st; c = hd s; r = tl s;
          plain = (if c = 45 \<and> cAfterClass st then emit [92, 45] r st
            else if c = 91 \<and> (startsWith 46 r \<or> startsWith 61 r) then emit [92, 91] r st
            else (emit [c] r st)\<lparr>cInClass := \<not> (c = 93 \<and> \<not> cFirst st)\<rparr>)\<lparr>cAfterClass := False\<rparr>
      in if c = 92 \<and> r \<noteq> [] then
           (if hd r = 112 \<or> hd r = 80 then (copyProperty st)\<lparr>cAfterClass := True\<rparr>
            else (emit (take 2 s) (drop 2 s) st)\<lparr>cAfterClass := hd r \<in> set (qs ''dDsSwW'')\<rparr>)
         else if c = 91 \<and> startsWith 58 r then
           (case indexOfStr [58, 93] (drop 1 r) of
              Some k \<Rightarrow> (emit (take (k + 4) s) (drop (k + 4) s) st)\<lparr>cAfterClass := True\<rparr>
            | None \<Rightarrow> plain)
         else plain)"

definition copyEscape :: "CopyState \<Rightarrow> CopyState" where
  "copyEscape st =
     (let s = cRest st; d = hd (tl s); r = drop 2 s
      in if d = 81 then
           (case indexOfStr [92, 69] r of None \<Rightarrow> emit s [] st | Some k \<Rightarrow> emit (take (k + 4) s) (drop (k + 4) s) st)
         else if d = 112 \<or> d = 80 then copyProperty st
         else if d = 98 \<or> d = 66 \<or> d = 65 \<or> d = 122 then copyAssertion 2 st
         else if d \<in> set (qs ''xogkN'') \<and> startsWith 123 r then
           (case indexOf 125 (drop 1 r) of None \<Rightarrow> emit s [] st | Some k \<Rightarrow> emit (take (k + 4) s) (drop (k + 4) s) st)
         else emit (take 2 s) r st)"

definition copyClassStart :: "CopyState \<Rightarrow> CopyState" where
  "copyClassStart st =
     (let r = tl (cRest st);
          neg = startsWith 94 r;
          r' = (if neg then drop 1 r else r);
          guard = (startsWith 58 r' \<or> startsWith 46 r' \<or> startsWith 61 r')
      in (emit ([91] @ (if neg then [94] else []) @ (if guard then [92] else [])) r' st)
           \<lparr>cInClass := True, cAfterClass := False, cFirst := True\<rparr>)"

text \<open>The loop that looks for an unused name: the first index after \<open>k\<close>.\<close>

function freshIndex :: "qstring list \<Rightarrow> nat \<Rightarrow> nat" where
  "freshIndex names k = (if 95 # number (k + 1) \<in> set names then freshIndex names (k + 1) else k + 1)"
  by pat_completeness auto
termination
proof (relation "measure (\<lambda>(names, k). card {x \<in> set names. \<exists>m > k. x = 95 # number m})")
  fix names :: "qstring list" and k
  assume used: "95 # number (k + 1) \<in> set names"
  have "{x \<in> set names. \<exists>m > k + 1. x = 95 # number m} \<subset> {x \<in> set names. \<exists>m > k. x = 95 # number m}" (is "?A \<subset> ?B")
  proof
    show "?A \<subseteq> ?B" by (safe, metis Suc_eq_plus1 Suc_lessD)
    have "95 # number (k + 1) \<notin> ?A" using number_inj by fastforce
    moreover have "95 # number (k + 1) \<in> ?B" using used by auto
    ultimately show "?A \<noteq> ?B" by blast
  qed
  then have "card ?A < card ?B" by (intro psubset_card_mono) auto
  then show "((names, k + 1), names, k) \<in> measure (\<lambda>(names, k). card {x \<in> set names. \<exists>m > k. x = 95 # number m})" by simp
qed simp

declare freshIndex.simps [simp del]

definition copyNamedGroup :: "CopyState \<Rightarrow> CopyState" where
  "copyNamedGroup st =
     (let s = cRest st; r = drop 2 s;
          angle = (startsWith 60 r \<and> \<not> startsWith 61 (drop 1 r) \<and> \<not> startsWith 33 (drop 1 r));
          nameStart = (if startsWith 80 r \<and> startsWith 60 (drop 1 r) then 2 else if angle then 1 else 0)
      in case (if nameStart > 0 then indexOf 62 r else None) of
           Some close \<Rightarrow>
             if close > nameStart then
               let name = take (close - nameStart) (drop nameStart r);
                   r' = drop (close + 1) r
               in if validationGoCaptureName name \<and> (validationDigit (hd name) \<or> length name > 32 \<or> name \<in> set (cNames st)) then
                    let k = freshIndex (cNames st) (cRenamed st); fresh = 95 # number k
                    in (emit (take (2 + nameStart) s @ fresh @ [62]) r' st)\<lparr>cRenamed := k, cNames := fresh # cNames st\<rparr>
                  else (emit (take (2 + close + 1) s) r' st)\<lparr>cNames := name # cNames st\<rparr>
             else emit (take 2 s) r st
         | None \<Rightarrow> emit (take 2 s) r st)"

definition copyGroup :: "CopyState \<Rightarrow> CopyState" where
  "copyGroup st =
     (let s = cRest st; flags = flagGroupsEnd s
      in if length flags < length s then
           (case quantifierEnd flags of
              Some r \<Rightarrow> emit (upTo flags r @ upTo s flags) r st
            | None \<Rightarrow> emit (upTo s flags) flags st)
         else copyNamedGroup st)"

definition copyStep :: "CopyState \<Rightarrow> CopyState" where
  "copyStep st =
     (let c = hd (cRest st); r = tl (cRest st)
      in if cInClass st then copyInClass st
         else if c = 92 \<and> r \<noteq> [] then copyEscape st
         else if c = 94 \<or> c = 36 then copyAssertion 1 st
         else if c = 91 then copyClassStart st
         else if c = 40 \<and> startsWith 63 r then copyGroup st
         else if c = 123 \<and> validationRepeatEnd r = None then emit [92, 123] r st
         else emit [c] r st)"


lemma flagGroupsEnd_le: "length (flagGroupsEnd s) \<le> length s"
proof (induction s rule: flagGroupsEnd.induct)
  case (1 s)
  then show ?case by (subst flagGroupsEnd.simps) (fastforce simp: Let_def)
qed

lemma quantifierEnd_less: "quantifierEnd s = Some r \<Longrightarrow> length r < length s"
  using repeatEnd_shorter [of "tl s"] by (cases s) (fastforce simp: quantifierEnd_def split: if_splits)+

lemma emit_rest [simp]: "cRest (emit t r st) = r"
  by (simp add: emit_def)

lemma copyProperty_shorter: "cRest st \<noteq> [] \<Longrightarrow> length (cRest (copyProperty st)) < length (cRest st)"
  by (auto simp: copyProperty_def Let_def split: option.splits)

lemma copyInClass_shorter: "cRest st \<noteq> [] \<Longrightarrow> length (cRest (copyInClass st)) < length (cRest st)"
  using copyProperty_shorter [of st] by (auto simp: copyInClass_def Let_def split: option.splits)

lemma copyEscape_shorter: "cRest st \<noteq> [] \<Longrightarrow> length (cRest (copyEscape st)) < length (cRest st)"
  using copyProperty_shorter [of st] by (auto simp: copyEscape_def copyAssertion_def Let_def split: option.splits)

lemma copyNamedGroup_shorter: "cRest st \<noteq> [] \<Longrightarrow> length (cRest (copyNamedGroup st)) < length (cRest st)"
  by (auto simp: copyNamedGroup_def Let_def split: option.splits)

lemma copyGroup_shorter: "cRest st \<noteq> [] \<Longrightarrow> length (cRest (copyGroup st)) < length (cRest st)"
  using copyNamedGroup_shorter [of st] quantifierEnd_less [of "flagGroupsEnd (cRest st)"]
  by (fastforce simp: copyGroup_def Let_def split: option.splits)

lemma copyStep_shorter: "cRest st \<noteq> [] \<Longrightarrow> length (cRest (copyStep st)) < length (cRest st)"
  using copyInClass_shorter [of st] copyEscape_shorter [of st] copyGroup_shorter [of st]
  by (auto simp: copyStep_def copyAssertion_def copyClassStart_def Let_def)

function copyLoop :: "CopyState \<Rightarrow> CopyState" where
  "copyLoop st = (if cRest st = [] then st else copyLoop (copyStep st))"
  by pat_completeness auto
termination
  by (relation "measure (\<lambda>st. length (cRest st))") (auto dest: copyStep_shorter)

declare copyLoop.simps [simp del]

definition copyStart :: "qstring \<Rightarrow> CopyState" where
  "copyStart p = \<lparr>cOut = [], cNames = [], cRenamed = 0, cInClass = False, cAfterClass = False, cFirst = False, cRest = p\<rparr>"

definition validationPcreCopy :: "qstring \<Rightarrow> qstring" where
  "validationPcreCopy p = cOut (copyLoop (copyStart p))"

subsection \<open>The checks\<close>

text \<open>\<open>pcreError\<close> is the error text of \<open>QRegularExpression\<close>, or \<open>None\<close> when the pattern is valid.\<close>

definition vRegex :: "(qstring \<Rightarrow> qstring option) \<Rightarrow> Rule" where
  "vRegex pcreError pattern =
     (let t = trimmed pattern
      in if t = [] then None else case pcreError t of None \<Rightarrow> None | Some e \<Rightarrow> Some (MBadRegex e))"

definition vGoRegex :: "(qstring \<Rightarrow> qstring option) \<Rightarrow> Rule" where
  "vGoRegex pcreError pattern =
     (let t = trimmed pattern
      in case vRegex pcreError (validationPcreCopy t) of Some message \<Rightarrow> Some message | None \<Rightarrow> validationRe2Unsupported t)"

interpretation regexRule: field_rule "vRegex pcreError" Empty_Allowed for pcreError
  by unfold_locales (simp_all add: vRegex_def validationEmpty_def)

interpretation goRegex: field_rule "vGoRegex pcreError" Empty_Allowed for pcreError
  by unfold_locales
    (simp_all add: vGoRegex_def validationEmpty_def validationPcreCopy_def copyLoop.simps copyStart_def vRegex_def validationRe2Unsupported_def
      scanLoop.simps scanStart_def)

subsection \<open>Weights stay small\<close>

definition scanInv :: "ScanState \<Rightarrow> bool" where
  "scanInv st \<longleftrightarrow> weights st \<noteq> [] \<and> list_all (\<lambda>w. 1 \<le> w \<and> w \<le> 1000) (weights st) \<and> lastWeight st \<le> 1000"

inductive scan_step :: "ScanState \<Rightarrow> ScanState \<Rightarrow> bool" where
  "rest st \<noteq> [] \<Longrightarrow> scanStep st = Inr st' \<Longrightarrow> scan_step st st'"

definition scan_init :: "ScanState \<Rightarrow> bool" where
  "scan_init st \<longleftrightarrow> (\<exists>p. st = scanStart p)"

lemma scanInv_rest [simp]: "scanInv (st\<lparr>rest := r\<rparr>) = scanInv st" "scanInv (st\<lparr>inClass := b\<rparr>) = scanInv st"
  "scanInv (st\<lparr>classFirst := b\<rparr>) = scanInv st"
  by (simp_all add: scanInv_def)

lemma scanInv_last: "scanInv st \<Longrightarrow> w \<le> 1000 \<Longrightarrow> scanInv (st\<lparr>lastWeight := w\<rparr>)"
  by (simp add: scanInv_def)

lemma scanInv_push: "scanInv st \<Longrightarrow> scanInv (st\<lparr>weights := 1 # weights st\<rparr>)"
  by (simp add: scanInv_def)

lemma scanInv_commit: "scanInv st \<Longrightarrow> scanInv (commit st)"
  by (cases "weights st") (auto simp: scanInv_def commit_def)

lemma scanInv_atom: "scanInv st \<Longrightarrow> scanInv (scanAtom r st)"
  by (simp add: scanAtom_def scanInv_last scanInv_commit)

lemma scanInv_close: "scanInv st \<Longrightarrow> scanInv (scanClose r st)"
  using scanInv_commit [of st] by (cases "weights (commit st)") (auto simp: scanClose_def Let_def scanInv_def)

lemma scanInv_escape: "scanInv st \<Longrightarrow> scanEscape r st = Inr st' \<Longrightarrow> scanInv st'"
  using scanInv_commit [of st] scanInv_last [of "commit st" 1]
  by (auto simp: scanEscape_def Let_def split: list.splits if_splits option.splits prod.splits)

lemma scanInv_open: "scanInv st \<Longrightarrow> scanOpen r st = Inr st' \<Longrightarrow> scanInv st'"
  using scanInv_commit [of st] scanInv_push [of "commit st"]
  by (auto simp: scanOpen_def Let_def split: if_splits)

lemma scanInv_repeat: "scanInv st \<Longrightarrow> scanRepeat r st = Inr st' \<Longrightarrow> scanInv st'"
  by (auto simp: scanRepeat_def Let_def scanInv_atom intro!: scanInv_last split: option.splits if_splits)

lemma scanInv_inClass: "scanInv st \<Longrightarrow> scanInv (scanInClass c r st)"
  by (simp add: scanInClass_def Let_def split: option.splits)

lemma scanInv_step: "scanInv st \<Longrightarrow> scanStep st = Inr st' \<Longrightarrow> scanInv st'"
  using scanInv_escape [of st "tl (rest st)" st'] scanInv_open [of st "tl (rest st)" st'] scanInv_repeat [of st "tl (rest st)" st']
  by (auto simp: scanStep_def Let_def scanInv_inClass scanInv_atom scanInv_close scanInv_commit scanInv_last split: if_splits)

interpretation re2Scan: transition_system scan_init scan_step scanInv
proof
  show "scanInv st" if "scan_init st" for st using that by (auto simp: scan_init_def scanStart_def scanInv_def)
  show "scanInv st'" if "scanInv st" "scan_step st st'" for st st' using that scanInv_step by (auto elim!: scan_step.cases)
qed

text \<open>C30: whatever the pattern, at every turn of the scan the weight of the last atom and of every open group is at
  most 1000, so the product with a repeat count (itself at most 1000) fits an \<open>int\<close>, the stack of groups is never empty, and the
  turn consumes text or returns.\<close>

theorem re2_scan_bounded:
  assumes "scan_step\<^sup>*\<^sup>* (scanStart p) st"
  shows "weights st \<noteq> [] \<and> list_all (\<lambda>w. 1 \<le> w \<and> w \<le> 1000) (weights st) \<and> lastWeight st \<le> 1000
    \<and> (\<forall>st'. scan_step st st' \<longrightarrow> length (rest st') < length (rest st))"
proof -
  have "scanInv st" using assms by (rule re2Scan.inv_reachable [rotated]) (auto simp: scan_init_def)
  then show ?thesis using scanStep_shorter by (auto simp: scanInv_def elim!: scan_step.cases)
qed


theorem re2_scan_bounded_witness:
  "scan_step\<^sup>*\<^sup>* (scanStart (qs ''a'')) (scanAtom [] (scanStart (qs ''a''))) \<and> lastWeight (scanAtom [] (scanStart (qs ''a''))) \<le> 1000"
proof -
  have "scan_step (scanStart (qs ''a'')) (scanAtom [] (scanStart (qs ''a'')))"
    by (rule scan_step.intros) (simp_all add: scanStart_def scanStep_def Let_def)
  then have "scan_step\<^sup>*\<^sup>* (scanStart (qs ''a'')) (scanAtom [] (scanStart (qs ''a'')))" by (rule r_into_rtranclp)
  with re2_scan_bounded [OF this] show ?thesis by blast
qed

subsection \<open>Nested repeats\<close>

text \<open>Patterns as RE2 has them, and how they are written: literals, escapes of one character, classes (characters, escapes and named classes, also
  negated), sequences, alternatives, groups (capturing, with flags, named in either syntax) and quantified atoms, greedy or lazy.\<close>

datatype citem = CChar qchar | CEsc qchar | CNamed qstring
datatype gkind = GPlain | GFlags qstring | GName bool qstring
datatype quant = QStar | QPlus | QOpt | QExact nat | QAtLeast nat | QBetween nat nat

datatype rx =
    RLit qchar
  | REsc qchar
  | RClass bool "citem list"
  | RSeq rx rx
  | RAlt rx rx
  | RGroup gkind rx
  | RQuant rx quant bool

fun writtenItem :: "citem \<Rightarrow> qstring" where
  "writtenItem (CChar c) = [c]"
| "writtenItem (CEsc c) = [92, c]"
| "writtenItem (CNamed name) = [91, 58] @ name @ [58, 93]"

fun writtenOpen :: "gkind \<Rightarrow> qstring" where
  "writtenOpen GPlain = [40]"
| "writtenOpen (GFlags fs) = [40, 63] @ fs @ [58]"
| "writtenOpen (GName p name) = [40, 63] @ (if p then [80] else []) @ [60] @ name @ [62]"

fun writtenQuant :: "quant \<Rightarrow> qstring" where
  "writtenQuant QStar = [42]"
| "writtenQuant QPlus = [43]"
| "writtenQuant QOpt = [63]"
| "writtenQuant (QExact k) = [123] @ number k @ [125]"
| "writtenQuant (QAtLeast k) = [123] @ number k @ [44, 125]"
| "writtenQuant (QBetween k m) = [123] @ number k @ [44] @ number m @ [125]"

fun written :: "rx \<Rightarrow> qstring" where
  "written (RLit c) = [c]"
| "written (REsc c) = [92, c]"
| "written (RClass neg items) = [91] @ (if neg then [94] else []) @ concat (map writtenItem items) @ [93]"
| "written (RSeq a b) = written a @ written b"
| "written (RAlt a b) = written a @ [124] @ written b"
| "written (RGroup k a) = writtenOpen k @ written a @ [41]"
| "written (RQuant a q lazy) = written a @ writtenQuant q @ (if lazy then [63] else [])"

definition literalChar :: "qchar \<Rightarrow> bool" where
  "literalChar c \<longleftrightarrow> c \<notin> {92, 91, 40, 41, 124, 42, 43, 63, 123}"

definition simpleEscape :: "qchar \<Rightarrow> bool" where
  "simpleEscape c \<longleftrightarrow> (c < 0x80 \<and> \<not> validationAsciiAlnum c) \<or> c \<in> set (qs ''dDsSwWafnrtv0'')"

fun plainItem :: "citem \<Rightarrow> bool" where
  "plainItem (CChar c) = (c \<notin> {91, 92, 93})"
| "plainItem (CEsc c) = simpleEscape c"
| "plainItem (CNamed name) = (58 \<notin> set name)"

fun plainKind :: "gkind \<Rightarrow> bool" where
  "plainKind GPlain = True"
| "plainKind (GFlags fs) = (set fs \<subseteq> {105, 109, 115, 85})"
| "plainKind (GName p name) = validationGoCaptureName name"

fun atomic :: "rx \<Rightarrow> bool" where
  "atomic (RSeq a b) = False"
| "atomic (RAlt a b) = False"
| "atomic (RQuant a q lazy) = False"
| "atomic _ = True"

fun plainRx :: "rx \<Rightarrow> bool" where
  "plainRx (RLit c) = literalChar c"
| "plainRx (REsc c) = (simpleEscape c \<or> c \<in> set (qs ''AbBz''))"
| "plainRx (RClass neg items) = (items \<noteq> [] \<and> list_all plainItem items \<and> (\<not> neg \<longrightarrow> hd items \<noteq> CChar 94))"
| "plainRx (RSeq a b) = (plainRx a \<and> plainRx b)"
| "plainRx (RAlt a b) = (plainRx a \<and> plainRx b)"
| "plainRx (RGroup k a) = (plainKind k \<and> plainRx a)"
| "plainRx (RQuant a q lazy) = (plainRx a \<and> atomic a)"

text \<open>Go's rule: a count is at most 1000, and so is the product of the counts nested inside each other. The count of a repeat is its maximum, or its minimum
  when there is no maximum; a repeat that allows none at all starts over.\<close>

fun counts :: "quant \<Rightarrow> (nat \<times> nat option) option" where
  "counts (QExact k) = Some (k, Some k)"
| "counts (QAtLeast k) = Some (k, None)"
| "counts (QBetween k m) = Some (k, Some m)"
| "counts _ = None"

definition repeated :: "quant \<Rightarrow> nat \<Rightarrow> nat" where
  "repeated q n = (case counts q of None \<Rightarrow> n | Some (mn, mx) \<Rightarrow> if mx = Some 0 then 1 else n * max 1 (case mx of None \<Rightarrow> mn | Some m \<Rightarrow> m))"

definition countsOk :: "quant \<Rightarrow> bool" where
  "countsOk q \<longleftrightarrow> (case counts q of None \<Rightarrow> True | Some (mn, mx) \<Rightarrow> mn \<le> 1000 \<and> (case mx of None \<Rightarrow> True | Some m \<Rightarrow> m \<le> 1000))"

fun nesting :: "rx \<Rightarrow> nat" where
  "nesting (RSeq a b) = max (nesting a) (nesting b)"
| "nesting (RAlt a b) = max (nesting a) (nesting b)"
| "nesting (RGroup k a) = nesting a"
| "nesting (RQuant a q lazy) = repeated q (nesting a)"
| "nesting _ = 1"

fun within :: "rx \<Rightarrow> bool" where
  "within (RSeq a b) = (within a \<and> within b)"
| "within (RAlt a b) = (within a \<and> within b)"
| "within (RGroup k a) = within a"
| "within (RQuant a q lazy) = (within a \<and> countsOk q \<and> repeated q (nesting a) \<le> 1000)"
| "within _ = True"

lemma repeated_pos: "1 \<le> n \<Longrightarrow> 1 \<le> repeated q n"
  by (auto simp: repeated_def split: option.splits)

lemma nesting_pos: "1 \<le> nesting r"
  by (induction r) (auto simp: repeated_pos [simplified])

lemma nesting_within: "within r \<Longrightarrow> nesting r \<le> 1000"
  by (induction r) auto

definition quietHead :: "qstring \<Rightarrow> bool" where
  "quietHead s \<longleftrightarrow> \<not> startsWith 42 s \<and> \<not> startsWith 43 s \<and> \<not> startsWith 63 s"

lemma written_head: "plainRx r \<Longrightarrow> written r \<noteq> [] \<and> quietHead (written r @ s)"
proof (induction r arbitrary: s)
  case (RLit c)
  then show ?case by (auto simp: literalChar_def quietHead_def)
next
  case (RGroup k a)
  then show ?case by (cases k) (auto simp: quietHead_def)
qed (auto simp: quietHead_def)

subsubsection \<open>Counts\<close>

definition capped :: "nat \<Rightarrow> nat" where
  "capped k = (if length (number k) > 7 then 100000000 else k)"

lemma long_number: "length (number k) > 7 \<Longrightarrow> 1000 < k"
  using length_number_base [of 10 k 3] by (rule_tac ccontr) auto

lemma capped_over: "1000 < capped k \<longleftrightarrow> 1000 < k"
  using long_number by (auto simp: capped_def)

lemma capped_same: "k \<le> 1000 \<Longrightarrow> capped k = k"
  using long_number [of k] by (auto simp: capped_def)

lemma repeat_number:
  assumes "\<not> validationDigit c"
  shows "repeatNumber (number k @ c # post) = Some (capped k, c # post)"
proof -
  have "list_all validationDigit (number k)"
    using set_number_digits by (auto simp: list_all_iff validationDigit_def isDigit_def)
  then have "takeWhile validationDigit (number k @ c # post) = number k" "dropWhile validationDigit (number k @ c # post) = c # post"
    using assms by (auto simp: list_all_iff takeWhile_append dropWhile_append)
  then show ?thesis
    using number_canonical [of 10 k] value_number_base [of 10 k] by (auto simp: repeatNumber_def Let_def capped_def)
qed

lemma number_no_brace: "\<not> startsWith 125 (number m @ s)"
proof -
  have "number m \<noteq> []" using number_canonical [of 10 m] by auto
  then have "hd (number m) \<in> set (number m)" by simp
  then have "hd (number m) \<noteq> 125" using set_number_digits [of "hd (number m)" m] by (auto simp: isDigit_def)
  with \<open>number m \<noteq> []\<close> show ?thesis by (cases "number m") auto
qed

lemma repeat_written:
  "validationRepeatEnd (number k @ 125 # post) = Some (capped k, Some (capped k), post)"
  "validationRepeatEnd (number k @ 44 # 125 # post) = Some (capped k, None, post)"
  "validationRepeatEnd (number k @ 44 # number m @ 125 # post) = Some (capped k, Some (capped m), post)"
  using number_no_brace [of m "125 # post"]
  by (simp_all add: validationRepeatEnd_def repeat_number validationDigit_def)

subsubsection \<open>One step of the loop\<close>

definition heaviest :: "ScanState \<Rightarrow> nat" where
  "heaviest st = max (hd (weights st)) (lastWeight st)"

text \<open>Scanning a written pattern either stops with the message, or goes on behind it with its nesting
  accounted for in the innermost open group; behind an atom its own weight is the last one.\<close>

definition scanned :: "bool \<Rightarrow> nat \<Rightarrow> qstring \<Rightarrow> ScanState \<Rightarrow> bool" where
  "scanned ok n post st \<longleftrightarrow>
     (if ok
      then \<exists>st'. scanLoop st = scanLoop st' \<and> rest st' = post \<and> \<not> inClass st' \<and> weights st' \<noteq> [] \<and> tl (weights st') = tl (weights st)
        \<and> heaviest st' = max (heaviest st) n
      else scanLoop st = Some MRe2TooManyRepeats)"

definition atomScanned :: "bool \<Rightarrow> nat \<Rightarrow> qstring \<Rightarrow> ScanState \<Rightarrow> bool" where
  "atomScanned ok n post st \<longleftrightarrow>
     (if ok
      then \<exists>st'. scanLoop st = scanLoop st' \<and> rest st' = post \<and> \<not> inClass st' \<and> weights st' = heaviest st # tl (weights st) \<and> lastWeight st' = n
      else scanLoop st = Some MRe2TooManyRepeats)"

lemma atomScanned_scanned: "atomScanned ok n post st \<Longrightarrow> scanned ok n post st"
  unfolding atomScanned_def scanned_def by (auto simp: heaviest_def split: if_splits)

lemma scan_continue: "rest st \<noteq> [] \<Longrightarrow> scanStep st = Inr st' \<Longrightarrow> scanLoop st = scanLoop st'"
  by (subst scanLoop.simps) simp

lemma scan_return: "rest st \<noteq> [] \<Longrightarrow> scanStep st = Inl m \<Longrightarrow> scanLoop st = m"
  by (subst scanLoop.simps) simp

lemma scanned_seq:
  assumes "scanned ok1 m mid st" "\<And>st'. rest st' = mid \<Longrightarrow> \<not> inClass st' \<Longrightarrow> weights st' \<noteq> [] \<Longrightarrow> scanned ok2 n post st'"
  shows "scanned (ok1 \<and> ok2) (max m n) post st"
proof (cases ok1)
  case True
  then obtain st' where st': "scanLoop st = scanLoop st'" "rest st' = mid" "\<not> inClass st'" "weights st' \<noteq> []"
    "tl (weights st') = tl (weights st)" "heaviest st' = max (heaviest st) m"
    using assms(1) by (auto simp: scanned_def)
  then have "scanned ok2 n post st'" using assms(2) by blast
  then show ?thesis using True st' unfolding scanned_def by (auto simp: max.assoc split: if_splits)
next
  case False
  then show ?thesis using assms(1) by (simp add: scanned_def)
qed

lemma scanned_from:
  "scanLoop st = scanLoop st1 \<Longrightarrow> heaviest st1 = heaviest st \<Longrightarrow> tl (weights st1) = tl (weights st) \<Longrightarrow> scanned ok n post st1 \<Longrightarrow> scanned ok n post st"
  unfolding scanned_def by presburger

lemma scanned_bar:
  assumes "rest st = 124 # s" "\<not> inClass st" "weights st \<noteq> []"
    and "\<And>st'. rest st' = s \<Longrightarrow> \<not> inClass st' \<Longrightarrow> weights st' \<noteq> [] \<Longrightarrow> scanned ok n post st'"
  shows "scanned ok n post st"
proof -
  let ?st = "(commit st)\<lparr>rest := s\<rparr>"
  have "scanLoop st = scanLoop ?st" using assms by (intro scan_continue) (auto simp: scanStep_def)
  then show ?thesis
    by (rule scanned_from) (use assms in \<open>auto simp: heaviest_def commit_def intro!: assms(4)\<close>)
qed

lemma scanned_literal:
  assumes "rest st = c # post" "literalChar c" "\<not> inClass st"
  shows "atomScanned True 1 post st"
proof -
  have "scanStep st = Inr (scanAtom post st)" using assms by (simp add: scanStep_def literalChar_def Let_def)
  then have "scanLoop st = scanLoop (scanAtom post st)" using assms by (intro scan_continue) auto
  then show ?thesis using assms unfolding atomScanned_def
    by (auto simp: scanAtom_def commit_def heaviest_def intro!: exI [of _ "scanAtom post st"])
qed

lemma escape_ok:
  "simpleEscape c \<Longrightarrow> validationRe2Escape c r b = ([], r)" "c \<in> set (qs ''AbBz'') \<Longrightarrow> validationRe2Escape c r False = ([], r)"
proof -
  have l: "list_all (\<lambda>c. validationRe2Escape c r b = ([], r)) (qs ''dDsSwWafnrtv0'')"
    "list_all (\<lambda>c. validationRe2Escape c r False = ([], r)) (qs ''AbBz'')"
    by (simp_all add: validationRe2Escape_def validationAsciiAlnum_def)
  have "c < 0x80 \<and> \<not> validationAsciiAlnum c \<Longrightarrow> validationRe2Escape c r b = ([], r)" by (simp add: validationRe2Escape_def)
  then show "simpleEscape c \<Longrightarrow> validationRe2Escape c r b = ([], r)" using l(1) unfolding simpleEscape_def list_all_iff by blast
  show "c \<in> set (qs ''AbBz'') \<Longrightarrow> validationRe2Escape c r False = ([], r)" using l(2) unfolding list_all_iff by blast
qed

lemma escape_noQuote: "simpleEscape c \<or> c \<in> set (qs ''AbBz'') \<Longrightarrow> c \<noteq> 81"
  by (auto simp: simpleEscape_def validationAsciiAlnum_def)

lemma scanned_escape:
  assumes "rest st = 92 # c # post" "simpleEscape c \<or> c \<in> set (qs ''AbBz'')" "\<not> inClass st"
  shows "atomScanned True 1 post st"
proof -
  define st1 where "st1 = (commit st)\<lparr>lastWeight := 1, rest := post, classFirst := False\<rparr>"
  have "validationRe2Escape c post False = ([], post)" using escape_ok assms(2) by blast
  then have "scanStep st = Inr st1" using assms escape_noQuote [OF assms(2)]
    by (simp add: scanStep_def scanEscape_def Let_def st1_def)
  then have "scanLoop st = scanLoop st1" using assms by (intro scan_continue) auto
  then show ?thesis using assms unfolding atomScanned_def
    by (auto simp: st1_def commit_def heaviest_def intro!: exI [of _ st1])
qed


subsubsection \<open>Classes\<close>

lemma indexOfStr_name: "58 \<notin> set name \<Longrightarrow> indexOfStr [58, 93] (name @ 58 # 93 # s) = Some (length name)"
  by (induction name) auto

lemma scan_item:
  assumes "plainItem it" "inClass st" "rest st = writtenItem it @ s"
  shows "scanLoop st = scanLoop (st\<lparr>rest := s, classFirst := False\<rparr>)"
proof -
  have same: "st\<lparr>inClass := True, classFirst := False, rest := s\<rparr> = st\<lparr>rest := s, classFirst := False\<rparr>" using assms(2) by (cases st) simp
  have "scanStep st = Inr (st\<lparr>rest := s, classFirst := False\<rparr>)"
  proof (cases it)
    case (CChar c)
    then show ?thesis using assms same by (simp add: scanStep_def scanInClass_def Let_def)
  next
    case (CEsc c)
    then show ?thesis using assms escape_ok(1) [of c s True] by (simp add: scanStep_def scanEscape_def Let_def)
  next
    case (CNamed name)
    then show ?thesis using assms by (simp add: scanStep_def scanInClass_def indexOfStr_name Let_def)
  qed
  then show ?thesis using assms(3) by (intro scan_continue) (cases it; simp)+
qed

lemma scan_items:
  assumes "list_all plainItem items" "items \<noteq> []" "inClass st" "rest st = concat (map writtenItem items) @ s"
  shows "scanLoop st = scanLoop (st\<lparr>rest := s, classFirst := False\<rparr>)"
  using assms
proof (induction items arbitrary: st)
  case (Cons it items)
  let ?st = "st\<lparr>rest := concat (map writtenItem items) @ s, classFirst := False\<rparr>"
  have l: "scanLoop st = scanLoop ?st" using Cons.prems by (intro scan_item [of it]) auto
  show ?case
  proof (cases "items = []")
    case False
    then have "scanLoop ?st = scanLoop (?st\<lparr>rest := s, classFirst := False\<rparr>)" using Cons.prems by (intro Cons.IH) auto
    then show ?thesis using l by simp
  qed (use l in simp)
qed simp

lemma scanned_class:
  assumes "rest st = written (RClass neg items) @ post" "plainRx (RClass neg items)" "\<not> inClass st"
  shows "atomScanned True 1 post st"
proof -
  let ?s = "concat (map writtenItem items) @ 93 # post"
  define st1 where "st1 = (commit st)\<lparr>lastWeight := 1, inClass := True, classFirst := True, rest := ?s\<rparr>"
  have head: "\<not> neg \<Longrightarrow> \<not> startsWith 94 ?s" using assms(2)
    by (cases items; cases "hd items") auto
  have "scanStep st = Inr st1" using assms head by (cases neg) (simp_all add: scanStep_def Let_def st1_def)
  then have l1: "scanLoop st = scanLoop st1" using assms by (intro scan_continue) auto
  define st2 where "st2 = st1\<lparr>rest := 93 # post, classFirst := False\<rparr>"
  have l2: "scanLoop st1 = scanLoop st2" unfolding st2_def using assms(2) by (intro scan_items [of items]) (auto simp: st1_def)
  define st3 where "st3 = st2\<lparr>inClass := False, rest := post\<rparr>"
  have "scanStep st2 = Inr st3" by (simp add: scanStep_def scanInClass_def Let_def st3_def st2_def st1_def)
  then have "scanLoop st2 = scanLoop st3" by (intro scan_continue) (auto simp: st2_def)
  then have "scanLoop st = scanLoop st3" using l1 l2 by simp
  then show ?thesis unfolding atomScanned_def
    by (auto simp: st3_def st2_def st1_def commit_def heaviest_def intro!: exI [of _ st3])
qed

subsubsection \<open>Groups\<close>

lemma flags_ok: "set fs \<subseteq> {105, 109, 115, 85} \<Longrightarrow> groupFlags r k False saw (fs @ 58 # s) = \<lparr>bad = [], grpLength = k + length fs + 1, opens = True\<rparr>"
  by (induction fs arbitrary: k saw) auto

lemma group_flags:
  assumes "set fs \<subseteq> {105, 109, 115, 85}"
  shows "validationRe2Group (fs @ 58 # s) = \<lparr>bad = [], grpLength = length fs + 1, opens = True\<rparr>"
proof -
  have "charAt (fs @ 58 # s) 0 \<in> {105, 109, 115, 85, 58}" using assms by (cases fs) (auto simp: charAt_def)
  then have "validationRe2Group (fs @ 58 # s) = groupFlags (fs @ 58 # s) 0 False False (fs @ 58 # s)"
    by (auto simp: validationRe2Group_def Let_def validationDigit_def)
  then show ?thesis using flags_ok [OF assms, of "fs @ 58 # s" 0 False s] by simp
qed

lemma group_name:
  assumes "validationGoCaptureName name"
  shows "validationRe2Group ((if p then [80] else []) @ 60 # name @ 62 # s) =
    \<lparr>bad = [], grpLength = (if p then 1 else 0) + length name + 2, opens = True\<rparr>"
proof -
  obtain c cs where n: "name = c # cs" and c: "c \<noteq> 61" "c \<noteq> 33"
    using assms by (cases name) (auto simp: validationGoCaptureName_def validationAsciiAlnum_def)
  have "62 \<notin> set name" using assms by (auto simp: validationGoCaptureName_def list_all_iff validationAsciiAlnum_def)
  then have "indexOf 62 (60 # name @ 62 # s) = Some (Suc (length name))" "indexOf 62 (80 # 60 # name @ 62 # s) = Some (length name + 2)"
    using indexOf_append_hit [of 62 "60 # name" s] indexOf_append_hit [of 62 "80 # 60 # name" s] by simp_all
  then show ?thesis using assms c by (cases p) (simp_all add: validationRe2Group_def charAt_def n)
qed

lemma scan_open:
  assumes "rest st = writtenOpen k @ s" "plainKind k" "\<not> inClass st" "quietHead s"
  shows "scanLoop st = scanLoop (st\<lparr>weights := 1 # heaviest st # tl (weights st), lastWeight := 0, rest := s\<rparr>)"
proof -
  have "scanStep st = Inr (st\<lparr>weights := 1 # heaviest st # tl (weights st), lastWeight := 0, rest := s\<rparr>)"
  proof (cases k)
    case GPlain
    then show ?thesis using assms by (simp add: scanStep_def scanOpen_def commit_def quietHead_def heaviest_def Let_def)
  next
    case (GFlags fs)
    then show ?thesis using assms by (simp add: scanStep_def scanOpen_def commit_def heaviest_def group_flags Let_def)
  next
    case (GName p name)
    then show ?thesis using assms group_name [of name p s]
      by (cases p) (simp_all add: scanStep_def scanOpen_def commit_def heaviest_def Let_def)
  qed
  then show ?thesis using assms(1) by (intro scan_continue) (cases k; simp)+
qed

lemma scanned_group:
  assumes st: "rest st = writtenOpen k @ s @ 41 # post" "plainKind k" "\<not> inClass st" "quietHead (s @ 41 # post)" and n: "1 \<le> n"
    and inner: "\<And>st'. rest st' = s @ 41 # post \<Longrightarrow> \<not> inClass st' \<Longrightarrow> weights st' \<noteq> [] \<Longrightarrow> scanned ok n (41 # post) st'"
  shows "atomScanned ok n post st"
proof -
  define st1 where "st1 = st\<lparr>weights := 1 # heaviest st # tl (weights st), lastWeight := 0, rest := s @ 41 # post\<rparr>"
  have l1: "scanLoop st = scanLoop st1" unfolding st1_def using st by (intro scan_open) auto
  have sc: "scanned ok n (41 # post) st1" using st by (intro inner) (auto simp: st1_def)
  show ?thesis
  proof (cases ok)
    case True
    then obtain st2 where st2: "scanLoop st1 = scanLoop st2" "rest st2 = 41 # post" "\<not> inClass st2" "weights st2 \<noteq> []"
        "tl (weights st2) = heaviest st # tl (weights st)" "heaviest st2 = max (heaviest st1) n"
      using sc unfolding scanned_def by (auto simp: st1_def)
    define st3 where "st3 = st2\<lparr>lastWeight := n, weights := heaviest st # tl (weights st), rest := post\<rparr>"
    have "max (hd (weights st2)) (lastWeight st2) = n" using st2(6) n by (simp add: heaviest_def st1_def)
    then have "scanStep st2 = Inr st3" using st2
      by (cases "weights st2") (simp_all add: scanStep_def scanClose_def commit_def st3_def Let_def)
    then have "scanLoop st2 = scanLoop st3" using st2 by (intro scan_continue) auto
    then show ?thesis using True l1 st2(1,3) unfolding atomScanned_def by (auto simp: st3_def intro!: exI [of _ st3])
  qed (use sc l1 in \<open>simp add: scanned_def atomScanned_def\<close>)
qed

subsubsection \<open>Quantifiers\<close>

lemma scan_brace:
  assumes "validationRepeatEnd r = Some (capped mn, map_option capped mx, r')" "counts q = Some (mn, mx)"
    and "\<not> startsWith 43 r'" "1 \<le> lastWeight st" "lastWeight st \<le> 1000"
  shows "scanRepeat r st = (if countsOk q \<and> repeated q (lastWeight st) \<le> 1000
    then Inr (st\<lparr>lastWeight := repeated q (lastWeight st), rest := (if startsWith 63 r' then drop 1 r' else r')\<rparr>) else Inl (Some MRe2TooManyRepeats))"
proof (cases "countsOk q")
  case False
  then have "1000 < capped mn \<or> (case map_option capped mx of None \<Rightarrow> False | Some m \<Rightarrow> 1000 < m)"
    using assms(2) by (auto simp: countsOk_def capped_over not_le split: option.splits)
  then show ?thesis using False assms(1) by (simp add: scanRepeat_def)
next
  case True
  then have c: "capped mn = mn" "mn \<le> 1000" "map_option capped mx = mx" "\<And>m. mx = Some m \<Longrightarrow> m \<le> 1000"
    using assms(2) by (auto simp: countsOk_def capped_same split: option.splits)
  let ?m = "case mx of None \<Rightarrow> mn | Some m \<Rightarrow> m"
  have "(if mx = Some 0 then 1 else if ?m > 1 then lastWeight st * ?m else lastWeight st) = repeated q (lastWeight st)"
    using assms(2) by (auto simp: repeated_def max_def)
  moreover have "(mx \<noteq> Some 0 \<and> ?m > 1 \<and> repeated q (lastWeight st) > 1000) = (\<not> repeated q (lastWeight st) \<le> 1000)"
  proof (cases "mx \<noteq> Some 0 \<and> ?m > 1")
    case False
    then have "repeated q (lastWeight st) = (if mx = Some 0 then 1 else lastWeight st)" using assms(2) by (auto simp: repeated_def max_def)
    then show ?thesis using False assms(5) by auto
  qed auto
  ultimately show ?thesis using True assms(1,3) c
    by (auto simp: scanRepeat_def Let_def split: option.splits)
qed

lemma quant_repeat:
  assumes "counts q = Some (mn, mx)"
  obtains r where "writtenQuant q @ post = 123 # r" "validationRepeatEnd r = Some (capped mn, map_option capped mx, post)"
proof (cases q)
  case (QExact k)
  then have "mn = k" "mx = Some k" using assms by auto
  then show ?thesis using that [of "number k @ 125 # post"] QExact by (simp add: repeat_written)
next
  case (QAtLeast k)
  then have "mn = k" "mx = None" using assms by auto
  then show ?thesis using that [of "number k @ 44 # 125 # post"] QAtLeast by (simp add: repeat_written)
next
  case (QBetween k m)
  then have "mn = k" "mx = Some m" using assms by auto
  then show ?thesis using that [of "number k @ 44 # number m @ 125 # post"] QBetween by (simp add: repeat_written)
qed (use assms in simp_all)

lemma scan_quant:
  assumes "rest st = writtenQuant q @ (if lazy then [63] else []) @ post" "\<not> inClass st" "quietHead post" "1 \<le> lastWeight st" "lastWeight st \<le> 1000"
  shows "scanLoop st = (if countsOk q \<and> repeated q (lastWeight st) \<le> 1000 then scanLoop (st\<lparr>lastWeight := repeated q (lastWeight st), rest := post\<rparr>)
    else Some MRe2TooManyRepeats)"
proof -
  let ?p = "(if lazy then [63] else []) @ post"
  have lz: "\<not> startsWith 43 ?p" "(if startsWith 63 ?p then drop 1 ?p else ?p) = post" using assms(3) by (auto simp: quietHead_def)
  have "scanStep st = (if countsOk q \<and> repeated q (lastWeight st) \<le> 1000
    then Inr (st\<lparr>lastWeight := repeated q (lastWeight st), rest := post\<rparr>) else Inl (Some MRe2TooManyRepeats))"
  proof (cases "counts q")
    case None
    have "\<exists>c. writtenQuant q = [c] \<and> (c = 42 \<or> c = 43 \<or> c = 63)" using None by (cases q) auto
    then obtain c where c: "rest st = c # ?p" "c = 42 \<or> c = 43 \<or> c = 63" using assms(1) by auto
    have "st\<lparr>lastWeight := lastWeight st, rest := post\<rparr> = st\<lparr>rest := post\<rparr>" by (cases st) simp
    then show ?thesis using c assms(2,5) lz None by (auto simp: scanStep_def Let_def countsOk_def repeated_def)
  next
    case (Some b)
    obtain mn mx where b: "b = (mn, mx)" by (cases b)
    obtain r where r: "writtenQuant q @ ?p = 123 # r" "validationRepeatEnd r = Some (capped mn, map_option capped mx, ?p)"
      using quant_repeat [OF Some [unfolded b]] by metis
    have "scanStep st = scanRepeat r st" using assms(1,2) r(1) by (simp add: scanStep_def Let_def)
    then show ?thesis using scan_brace [OF r(2) Some [unfolded b] lz(1) assms(4,5)] lz(2) by simp
  qed
  moreover have "rest st \<noteq> []" using assms(1) by (cases q) auto
  ultimately show ?thesis using scan_continue scan_return by auto
qed

subsubsection \<open>The pattern as a whole\<close>

lemma scanned_quant:
  assumes "atomScanned ok n (writtenQuant q @ (if lazy then [63] else []) @ post) st" "quietHead post" "1 \<le> n" "ok \<Longrightarrow> n \<le> 1000"
  shows "scanned (ok \<and> countsOk q \<and> repeated q n \<le> 1000) (repeated q n) post st"
proof (cases ok)
  case True
  then obtain st1 where st1: "scanLoop st = scanLoop st1" "rest st1 = writtenQuant q @ (if lazy then [63] else []) @ post" "\<not> inClass st1"
      "weights st1 = heaviest st # tl (weights st)" "lastWeight st1 = n"
    using assms(1) by (auto simp: atomScanned_def)
  then show ?thesis using scan_quant [OF st1(2,3) assms(2)] assms(3,4) True unfolding scanned_def
    by (auto simp: heaviest_def intro!: exI [of _ "st1\<lparr>lastWeight := repeated q n, rest := post\<rparr>"])
qed (use assms(1) in \<open>simp add: atomScanned_def scanned_def\<close>)

lemma scan_written:
  assumes "plainRx r" "rest st = written r @ post" "\<not> inClass st" "weights st \<noteq> []"
  shows "(atomic r \<longrightarrow> atomScanned (within r) (nesting r) post st) \<and> (quietHead post \<longrightarrow> scanned (within r) (nesting r) post st)"
  using assms
proof (induction r arbitrary: st post)
  case (RLit c)
  then show ?case using scanned_literal [of st c post] atomScanned_scanned by auto
next
  case (REsc c)
  then show ?case using scanned_escape [of st c post] atomScanned_scanned by auto
next
  case (RClass neg items)
  then have "atomScanned True 1 post st" by (intro scanned_class) auto
  then show ?case using atomScanned_scanned by auto
next
  case (RSeq a b)
  have "scanned (within a) (nesting a) (written b @ post) st" using RSeq written_head [of b post] by auto
  then show ?case using RSeq scanned_seq [of "within a" "nesting a" "written b @ post" st "within b" "nesting b" post] by auto
next
  case (RAlt a b)
  have "scanned (within a) (nesting a) (124 # written b @ post) st" using RAlt by (auto simp: quietHead_def)
  moreover have "scanned (within b) (nesting b) post st'" if "quietHead post" "rest st' = 124 # written b @ post" "\<not> inClass st'" "weights st' \<noteq> []" for st'
    using that RAlt by (intro scanned_bar [of st' "written b @ post"]) auto
  ultimately show ?case by (auto intro: scanned_seq)
next
  case (RGroup k a)
  have "atomScanned (within a) (nesting a) post st"
  proof (rule scanned_group)
    show "rest st = writtenOpen k @ written a @ 41 # post" "plainKind k" "\<not> inClass st" "quietHead (written a @ 41 # post)" "1 \<le> nesting a"
      using RGroup.prems written_head [of a] nesting_pos [of a] by simp_all
    show "scanned (within a) (nesting a) (41 # post) st'" if "rest st' = written a @ 41 # post" "\<not> inClass st'" "weights st' \<noteq> []" for st'
      using RGroup.IH [of st' "41 # post"] RGroup.prems that by (simp add: quietHead_def)
  qed
  then show ?case using atomScanned_scanned by auto
next
  case (RQuant a q lazy)
  have "atomScanned (within a) (nesting a) (writtenQuant q @ (if lazy then [63] else []) @ post) st" using RQuant by auto
  then show ?case using scanned_quant nesting_pos nesting_within by simp
qed

text \<open>C15: the check for repeats is Go's rule. For every pattern of literals, one-character escapes, classes, alternatives, groups and quantified atoms
  (\<open>*\<close>, \<open>+\<close>, \<open>?\<close>, \<open>{n}\<close>, \<open>{n,}\<close>, \<open>{n,m}\<close>, greedy or lazy) it gives the message about repeats exactly when a count is over 1000 or the counts
  nested inside each other multiply to more than 1000, and nothing otherwise. A repeat counts with its maximum, without one with its minimum, and with at
  least 1; a repeat of at most zero times starts over at 1.\<close>

theorem re2_nested_repeats:
  assumes "plainRx r"
  shows "validationRe2Unsupported (written r) = (if within r then None else Some MRe2TooManyRepeats)"
proof -
  have "scanned (within r) (nesting r) [] (scanStart (written r))"
    using assms scan_written [of r "scanStart (written r)" "[]"] by (auto simp: scanStart_def quietHead_def)
  moreover have "rest st = [] \<Longrightarrow> scanLoop st = None" for st by (subst scanLoop.simps) simp
  ultimately show ?thesis by (auto simp: scanned_def validationRe2Unsupported_def split: if_splits)
qed

text \<open>\<^verbatim>\<open>(?i:[^a-z]\d{2,50}?){30}\<close> is refused, \<^verbatim>\<open>(?:a{50})*(b+){30}\<close> is not, and a count over 1000 is refused even around \<^verbatim>\<open>a{0}\<close>.\<close>

definition demoRx :: rx where
  "demoRx = RQuant (RGroup (GFlags [105]) (RSeq (RClass True [CChar 97, CChar 45, CChar 122]) (RQuant (REsc 100) (QBetween 2 50) True))) (QExact 30) False"

definition demoRx2 :: rx where
  "demoRx2 = RSeq (RQuant (RGroup (GFlags []) (RQuant (RLit 97) (QExact 50) False)) QStar False)
     (RQuant (RGroup GPlain (RQuant (RLit 98) QPlus False)) (QExact 30) False)"

theorem re2_nested_repeats_witness:
  "validationRe2Unsupported (written demoRx) = Some MRe2TooManyRepeats
   \<and> validationRe2Unsupported (written demoRx2) = None
   \<and> validationRe2Unsupported (written (RQuant (RGroup GPlain (RQuant (RLit 97) (QExact 0) False)) (QExact 1001) False)) = Some MRe2TooManyRepeats"
  using re2_nested_repeats [of demoRx] re2_nested_repeats [of demoRx2]
    re2_nested_repeats [of "RQuant (RGroup GPlain (RQuant (RLit 97) (QExact 0) False)) (QExact 1001) False"]
  by (simp add: demoRx_def demoRx2_def literalChar_def simpleEscape_def repeated_def countsOk_def)

end
