(* ===== verification/Stable_Sort.thy ===== *)
theory Stable_Sort
  imports Wd_Prelude
begin

text \<open>
  \<open>std::stable_sort\<close> with a comparator, used by the rankings of the program. The C++ standard asks of the comparator that it is a strict
  weak ordering (anything else is undefined behaviour) and promises a sorted permutation that keeps equivalent elements in
  their order. The locale states the requirement, and shows that the promise determines the result: every list that
  satisfies it is the one \<open>stableSort\<close> computes. So the interpretations in the client theories discharge the requirement
  for the program's comparators, and the model of the call is exact.
\<close>

fun stableInsert :: "('a \<Rightarrow> 'a \<Rightarrow> bool) \<Rightarrow> 'a \<Rightarrow> 'a list \<Rightarrow> 'a list" where
  "stableInsert lt x [] = [x]"
| "stableInsert lt x (y # ys) = (if lt y x then y # stableInsert lt x ys else x # y # ys)"

definition stableSort :: "('a \<Rightarrow> 'a \<Rightarrow> bool) \<Rightarrow> 'a list \<Rightarrow> 'a list" where
  "stableSort lt xs = foldr (stableInsert lt) xs []"

lemma stableSort_simps [simp]:
  "stableSort lt [] = []" "stableSort lt (x # xs) = stableInsert lt x (stableSort lt xs)"
  by (simp_all add: stableSort_def)

lemma mset_stableInsert: "mset (stableInsert lt x ys) = add_mset x (mset ys)"
  by (induction ys) auto

lemma set_stableInsert: "set (stableInsert lt x ys) = insert x (set ys)"
  by (induction ys) auto

lemma mset_stableSort [simp]: "mset (stableSort lt xs) = mset xs"
  by (induction xs) (auto simp: mset_stableInsert)

lemma set_stableSort [simp]: "set (stableSort lt xs) = set xs"
  by (metis mset_stableSort set_mset_mset)

lemma length_stableSort [simp]: "length (stableSort lt xs) = length xs"
  by (metis mset_stableSort size_mset)

lemma distinct_stableSort [simp]: "distinct (stableSort lt xs) = distinct xs"
  using mset_eq_imp_distinct_iff mset_stableSort by blast

locale strict_weak_order =
  fixes lt :: "'a \<Rightarrow> 'a \<Rightarrow> bool"
  assumes irreflexive: "\<not> lt x x"
    and transitive: "lt x y \<Longrightarrow> lt y z \<Longrightarrow> lt x z"
    and incomparable_transitive: "\<not> lt x y \<Longrightarrow> \<not> lt y z \<Longrightarrow> \<not> lt x z"
begin

definition same_rank :: "'a \<Rightarrow> 'a \<Rightarrow> bool" where
  "same_rank x y \<longleftrightarrow> \<not> lt x y \<and> \<not> lt y x"

lemma asymmetric: "lt x y \<Longrightarrow> \<not> lt y x"
  using irreflexive transitive by blast

lemma same_rank_refl: "same_rank x x"
  by (simp add: same_rank_def irreflexive)

lemma same_rank_lt: "same_rank x y \<Longrightarrow> lt y z \<longleftrightarrow> lt x z"
  unfolding same_rank_def using incomparable_transitive by blast

lemma sorted_stableInsert:
  "sorted_wrt (\<lambda>a b. \<not> lt b a) ys \<Longrightarrow> sorted_wrt (\<lambda>a b. \<not> lt b a) (stableInsert lt x ys)"
proof (induction ys)
  case (Cons y ys)
  show ?case
  proof (cases "lt y x")
    case True
    then show ?thesis using Cons asymmetric [OF True] by (auto simp: set_stableInsert)
  next
    case False
    then have "\<not> lt b x" if "b \<in> set ys" for b using Cons.prems that incomparable_transitive [of b y x] by simp
    then show ?thesis using Cons.prems False by auto
  qed
qed simp

lemma sorted_stableSort: "sorted_wrt (\<lambda>a b. \<not> lt b a) (stableSort lt xs)"
  by (induction xs) (auto intro: sorted_stableInsert)

lemma filter_stableInsert: "filter (same_rank z) (stableInsert lt x ys) = filter (same_rank z) (x # ys)"
proof (induction ys)
  case (Cons y ys)
  have "lt y x \<Longrightarrow> same_rank z y \<Longrightarrow> \<not> same_rank z x"
    unfolding same_rank_def using incomparable_transitive asymmetric by blast
  with Cons show ?case by auto
qed simp

text \<open>Elements of the same rank keep their order.\<close>

lemma stable_stableSort: "filter (same_rank z) (stableSort lt xs) = filter (same_rank z) xs"
  by (induction xs) (auto simp: filter_stableInsert)

text \<open>Sortedness and stability determine the list.\<close>

lemma sorted_stable_unique:
  "sorted_wrt (\<lambda>a b. \<not> lt b a) xs \<Longrightarrow> sorted_wrt (\<lambda>a b. \<not> lt b a) ys \<Longrightarrow>
   (\<And>z. filter (same_rank z) xs = filter (same_rank z) ys) \<Longrightarrow> xs = ys"
proof (induction xs arbitrary: ys)
  case Nil
  show ?case
  proof (cases ys)
    case (Cons y ys')
    then show ?thesis using Nil(3) [of y] same_rank_refl [of y] by simp
  qed simp
next
  case (Cons x xs)
  then obtain y ys' where ys: "ys = y # ys'" using same_rank_refl [of x] by (cases ys) (auto dest: meta_spec [of _ x])
  have "y \<in> set (x # xs)"
  proof -
    have "y \<in> set (filter (same_rank y) (x # xs))" using Cons.prems(3) [of y] ys same_rank_refl by simp
    then show ?thesis by (simp only: set_filter mem_Collect_eq)
  qed
  moreover have "x \<in> set ys"
  proof -
    have "x \<in> set (filter (same_rank x) ys)" using Cons.prems(3) [of x] same_rank_refl by (metis filter.simps(2) list.set_intros(1))
    then show ?thesis by simp
  qed
  ultimately have "\<not> lt x y" "\<not> lt y x" using Cons.prems(1,2) ys irreflexive by auto
  then have xy: "same_rank x y" by (simp add: same_rank_def)
  then have "x = y" using Cons.prems(3) [of x] ys same_rank_refl by simp
  moreover have "filter (same_rank z) xs = filter (same_rank z) ys'" for z
    using Cons.prems(3) [of z] ys \<open>x = y\<close> by (simp split: if_splits)
  ultimately show ?case using Cons.IH [of ys'] Cons.prems(1,2) ys by simp
qed

lemma stableSort_unique:
  assumes "sorted_wrt (\<lambda>a b. \<not> lt b a) ys" "\<And>z. filter (same_rank z) ys = filter (same_rank z) xs"
  shows "ys = stableSort lt xs"
  by (rule sorted_stable_unique [OF assms(1) sorted_stableSort]) (simp only: assms(2) stable_stableSort)

text \<open>Sorting a sorted list changes nothing, and sorting commutes with leaving elements out.\<close>

lemma stableSort_sorted: "sorted_wrt (\<lambda>a b. \<not> lt b a) xs \<Longrightarrow> stableSort lt xs = xs"
  using stableSort_unique [of xs xs] by simp

lemma filter_stableSort: "filter P (stableSort lt xs) = stableSort lt (filter P xs)"
proof (rule stableSort_unique)
  show "sorted_wrt (\<lambda>a b. \<not> lt b a) (filter P (stableSort lt xs))" by (rule sorted_wrt_filter [OF sorted_stableSort])
  have swap: "filter (same_rank z) (filter P l) = filter P (filter (same_rank z) l)" for z l
    by (simp add: conj_commute)
  show "filter (same_rank z) (filter P (stableSort lt xs)) = filter (same_rank z) (filter P xs)" for z
    by (simp only: swap stable_stableSort)
qed

end

text \<open>A comparator on keys is one on the elements.\<close>

lemma strict_weak_key: "strict_weak_order lt \<Longrightarrow> strict_weak_order (\<lambda>x y. lt (f x) (f y))"
  unfolding strict_weak_order_def by blast

end
