(* ===== verification/Profile_Metrics.thy ===== *)
theory Profile_Metrics
  imports Stable_Sort Validation_Units
begin

text \<open>
  The metrics and rankings of \<^verbatim>\<open>src/src/database/entities/ProfileMetrics.cpp\<close>. Finite doubles are rationals; the score rounds after each operation
  with \<open>toDouble\<close> as the program does, and \<open>std::round\<close> rounds halves away from zero. The three rankings are calls of
  \<open>std::stable_sort\<close>; their comparators are shown to be strict weak orders by interpretations of \<open>strict_weak_order\<close>.

  Results: the score is between 0 and 100; each ranking is a permutation of the rows in which known values come in order and rows
  without one keep their order; the fall-short timeouts stay between 1 and the configured one.
\<close>

datatype PerformanceTestStatus = Untested | Success | Skipped | PerfError

definition roundAway :: "rat \<Rightarrow> int" where
  "roundAway x = (if 0 \<le> x then \<lfloor>x + 1 / 2\<rfloor> else - \<lfloor>1 / 2 - x\<rfloor>)"

definition clampD :: "rat \<Rightarrow> rat \<Rightarrow> rat \<Rightarrow> rat" where
  "clampD v lo hi = (if v < lo then lo else if hi < v then hi else v)"

definition penaltyOf :: "rat \<Rightarrow> rat" where
  "penaltyOf ms =
     (let mul = (\<lambda>a b. toDouble (a * b)); add = (\<lambda>a b. toDouble (a + b));
          c08 = toDouble (8 / 100); c18 = toDouble (18 / 100); c38 = toDouble (38 / 100)
      in if ms \<le> 120 then mul ms c08
         else if ms \<le> 250 then add (mul 120 c08) (mul (ms - 120) c18)
         else add (add (mul 120 c08) (mul 130 c18)) (mul (ms - 250) c38))"

definition subD :: "rat \<Rightarrow> rat \<Rightarrow> rat" where
  "subD a b = (if b \<le> a then toDouble (a - b) else - toDouble (b - a))"

definition CalculateSiteScore :: "int \<Rightarrow> rat \<Rightarrow> int" where
  "CalculateSiteScore connectionTimeMs rxMbps =
     (if connectionTimeMs \<le> 0 \<or> rxMbps \<le> 0 then 0
      else
        let ms = of_int connectionTimeMs;
            connectionScore = clampD (subD 100 (penaltyOf ms)) 0 100;
            rxScore = clampD (toDouble (rxMbps * toDouble (92 / 100))) 0 100
        in roundAway (toDouble (toDouble (connectionScore * (1 / 4)) + toDouble (rxScore * (3 / 4)))))"

record PerformanceStatusDetail =
  reason :: qstring
  measuredMs :: int
  measuredMbps :: rat
  thresholdMs :: int

datatype TooltipLine = TipReason qstring | TipLimit int | TipMeasuredMs int | TipMeasuredMbps rat

definition FormatPerformanceStatusTooltip :: "PerformanceTestStatus \<Rightarrow> PerformanceStatusDetail \<Rightarrow> TooltipLine list" where
  "FormatPerformanceStatusTooltip status detail =
     (if status \<noteq> Skipped \<and> status \<noteq> PerfError then []
      else if reason detail = [] \<and> thresholdMs detail < 0 \<and> measuredMs detail < 0 \<and> measuredMbps detail < 0 then []
      else (if reason detail \<noteq> [] then [TipReason (reason detail)] else [])
         @ (if thresholdMs detail > 0 then [TipLimit (thresholdMs detail)] else [])
         @ (if measuredMs detail \<ge> 0 then [TipMeasuredMs (measuredMs detail)] else [])
         @ (if measuredMbps detail \<ge> 0 then [TipMeasuredMbps (measuredMbps detail)] else []))"

fun PerformanceStatusRank :: "PerformanceTestStatus \<Rightarrow> nat" where
  "PerformanceStatusRank Success = 0"
| "PerformanceStatusRank Untested = 1"
| "PerformanceStatusRank Skipped = 2"
| "PerformanceStatusRank PerfError = 3"

definition PerformanceComesBefore :: "bool \<Rightarrow> PerformanceTestStatus \<times> rat \<Rightarrow> PerformanceTestStatus \<times> rat \<Rightarrow> bool" where
  "PerformanceComesBefore descending l r =
     (let leftRank = PerformanceStatusRank (fst l); rightRank = PerformanceStatusRank (fst r)
      in if leftRank \<noteq> rightRank then leftRank < rightRank
         else if leftRank \<noteq> 0 \<or> snd l = snd r then False
         else if descending then snd l > snd r else snd l < snd r)"

record RankedScheduleRow =
  rowId :: int
  connectTimeMs :: int
  siteScore :: int

definition RankedScheduleIds :: "RankedScheduleRow list \<Rightarrow> int list" where
  "RankedScheduleIds rows = map rowId rows"

definition bySiteScore :: "RankedScheduleRow \<Rightarrow> RankedScheduleRow \<Rightarrow> bool" where
  "bySiteScore l r =
     (let leftKnown = (siteScore l > 0); rightKnown = (siteScore r > 0)
      in if leftKnown \<noteq> rightKnown then leftKnown else if \<not> leftKnown then False else siteScore l > siteScore r)"

definition OrderRankedBySavedSiteScore :: "RankedScheduleRow list \<Rightarrow> int list" where
  "OrderRankedBySavedSiteScore rows =
     (if length rows < 2 then RankedScheduleIds rows
      else if \<not> list_ex (\<lambda>row. siteScore row > 0) rows then RankedScheduleIds rows
      else RankedScheduleIds (stableSort bySiteScore rows))"

definition byConnectTime :: "RankedScheduleRow \<Rightarrow> RankedScheduleRow \<Rightarrow> bool" where
  "byConnectTime l r =
     (let leftKnown = (connectTimeMs l > 0); rightKnown = (connectTimeMs r > 0)
      in if leftKnown \<noteq> rightKnown then leftKnown else if \<not> leftKnown then False else connectTimeMs l < connectTimeMs r)"

definition OrderRankedByConnectionTime :: "RankedScheduleRow list \<Rightarrow> int list" where
  "OrderRankedByConnectionTime rows =
     (if length rows < 2 then RankedScheduleIds rows
      else if \<not> list_ex (\<lambda>row. connectTimeMs row > 0) rows then RankedScheduleIds rows
      else RankedScheduleIds (stableSort byConnectTime rows))"

definition faster :: "RankedScheduleRow \<Rightarrow> RankedScheduleRow \<Rightarrow> bool" where
  "faster l r \<longleftrightarrow> connectTimeMs l < connectTimeMs r"

definition OrderRankedConnectionPretest :: "RankedScheduleRow list \<Rightarrow> int list" where
  "OrderRankedConnectionPretest rows =
     (if length rows < 2 then RankedScheduleIds rows
      else
        let known = filter (\<lambda>row. connectTimeMs row > 0) rows;
            unknown = map rowId (filter (\<lambda>row. \<not> connectTimeMs row > 0) rows)
        in if known = [] then RankedScheduleIds rows
           else
             let sorted = stableSort faster known
             in if unknown = [] then map rowId sorted
                else
                  let bestKnownCount = max 1 (length sorted div 3)
                  in map rowId (take bestKnownCount sorted) @ unknown @ map rowId (drop bestKnownCount sorted))"

definition kRankedFallShortConnectionMultiplier :: int where "kRankedFallShortConnectionMultiplier = 4"
definition kRankedFallShortDownloadMultiplier :: int where "kRankedFallShortDownloadMultiplier = 3"

definition RankedFallShortConnectionTimeoutMs :: "int \<Rightarrow> int \<Rightarrow> int" where
  "RankedFallShortConnectionTimeoutMs configuredTimeoutMs bestConnectionMs =
     (let configured = max 1 configuredTimeoutMs
      in if bestConnectionMs \<le> 0 then configured
         else min configured (max 1 (bestConnectionMs * kRankedFallShortConnectionMultiplier)))"

definition RankedFallShortDownloadTimeoutMs :: "int \<Rightarrow> int \<Rightarrow> int \<Rightarrow> int" where
  "RankedFallShortDownloadTimeoutMs configuredTimeoutMs bestDownloadElapsedMs bestConnectionMs =
     (let t0 = max 1 configuredTimeoutMs;
          t1 = (if bestDownloadElapsedMs > 0 then min t0 (max 1 (bestDownloadElapsedMs * kRankedFallShortDownloadMultiplier)) else t0)
      in if bestConnectionMs > 0 then min t1 (max 1 (bestConnectionMs * kRankedFallShortConnectionMultiplier)) else t1)"

subsection \<open>The comparators\<close>

interpretation siteScoreOrder: strict_weak_order bySiteScore
  by unfold_locales (auto simp: bySiteScore_def Let_def split: if_splits)

interpretation connectTimeOrder: strict_weak_order byConnectTime
  by unfold_locales (auto simp: byConnectTime_def Let_def split: if_splits)

interpretation fasterOrder: strict_weak_order faster
  by unfold_locales (auto simp: faster_def)

interpretation performanceOrder: strict_weak_order "PerformanceComesBefore descending" for descending
  by unfold_locales (auto simp: PerformanceComesBefore_def Let_def split: if_splits)

lemma fall_short_bounds:
  "1 \<le> RankedFallShortConnectionTimeoutMs c b" "RankedFallShortConnectionTimeoutMs c b \<le> max 1 c"
  "1 \<le> RankedFallShortDownloadTimeoutMs c d b" "RankedFallShortDownloadTimeoutMs c d b \<le> max 1 c"
  by (auto simp: RankedFallShortConnectionTimeoutMs_def RankedFallShortDownloadTimeoutMs_def Let_def)

text \<open>A successful result comes before every other state, in both directions.\<close>

lemma success_first: "s \<noteq> Success \<Longrightarrow> PerformanceComesBefore d (Success, v) (s, w) \<and> \<not> PerformanceComesBefore d (s, w) (Success, v)"
  by (cases s) (auto simp: PerformanceComesBefore_def)

subsection \<open>The score is a percentage\<close>

lemma exp2_add_one: "exp2 (e + 1) = 2 * exp2 e"
proof -
  consider "0 \<le> e" | "e = - 1" | "e < - 1" by linarith
  then show ?thesis
  proof cases
    case 1
    then show ?thesis by (simp add: exp2_def nat_add_distrib)
  next
    case 2
    then show ?thesis by (simp add: exp2_def)
  next
    case 3
    then have "nat (- e) = Suc (nat (- (e + 1)))" by simp
    with 3 show ?thesis by (simp add: exp2_def)
  qed
qed

lemma exp2_pos [simp]: "0 < exp2 e"
  by (simp add: exp2_def)

lemma exp2_diff_nat: "exp2 (int a - int b) = 2 ^ a / 2 ^ b"
  by (cases "b \<le> a") (auto simp: exp2_def nat_diff_distrib' power_diff)

lemma exp2_mono: "a \<le> b \<Longrightarrow> exp2 a \<le> exp2 b"
proof (induction "nat (b - a)" arbitrary: b)
  case (Suc k)
  then have "exp2 a \<le> exp2 (b - 1)" by simp
  also have "\<dots> \<le> exp2 b" using exp2_add_one [of "b - 1"] exp2_pos [of "b - 1"] by simp
  finally show ?case .
qed simp

lemma ilog2_lower:
  assumes "0 < r"
  shows "exp2 (ilog2 r) \<le> r"
proof -
  obtain n d where q: "quotient_of r = (n, d)" by (cases "quotient_of r")
  then have r: "r = of_int n / of_int d" and d: "0 < d" using quotient_of_div quotient_of_denom_pos by blast+
  have n: "0 < n" using assms r d by (simp add: zero_less_divide_iff)
  define bn bd where "bn = bitCount (nat n)" and "bd = bitCount (nat d)"
  have bn: "2 ^ (bn - 1) \<le> nat n" "0 < bn" using bitCount_bounds [of "nat n"] n by (simp_all add: bn_def)
  have bd: "nat d < 2 ^ bd" using bitCount_bounds [of "nat d"] d by (simp add: bd_def)
  have rn: "(2::rat) ^ (bn - 1) \<le> of_int n" using bn(1) n by (metis of_int_of_nat_eq of_nat_le_iff of_nat_numeral of_nat_power nat_0_le less_imp_le)
  have rd: "of_int d \<le> (2::rat) ^ bd" using bd d by (metis less_imp_le of_int_of_nat_eq of_nat_le_iff of_nat_numeral of_nat_power nat_0_le)
  have "exp2 (int bn - int bd - 1) = 2 ^ (bn - 1) / 2 ^ bd"
    using exp2_diff_nat [of "bn - 1" bd] bn(2) by (simp add: of_nat_diff algebra_simps)
  also have "\<dots> \<le> of_int n / of_int d" using rn rd d n by (intro frac_le) auto
  finally have "exp2 (int bn - int bd - 1) \<le> r" by (simp add: r)
  then show ?thesis by (simp add: ilog2_def q bn_def bd_def Let_def)
qed

lemma roundEven_le: "q \<le> of_int k \<Longrightarrow> roundEven q \<le> k"
proof -
  assume q: "q \<le> of_int k"
  then have f: "\<lfloor>q\<rfloor> \<le> k" by (simp add: floor_le_iff order_le_less_trans)
  show ?thesis
  proof (cases "\<lfloor>q\<rfloor> = k")
    case True
    then have "q = of_int k" using q of_int_floor_le [of q] by simp
    then show ?thesis by (simp add: roundEven_int)
  next
    case False
    then show ?thesis using f by (simp add: roundEven_def Let_def)
  qed
qed

lemma roundEven_nonneg: "0 \<le> q \<Longrightarrow> 0 \<le> roundEven q"
  by (simp add: roundEven_def Let_def)

lemma toDouble_nonneg: "0 \<le> toDouble r"
proof (cases "r \<le> 0")
  case False
  define e where "e = exp2 (ilog2 r - 52)"
  have "0 < e" by (simp add: e_def)
  then have "0 \<le> of_int (roundEven (r / e)) * e" using False roundEven_nonneg [of "r / e"] by simp
  then show ?thesis using False by (simp add: toDouble_def e_def Let_def)
qed (simp add: toDouble_def)

text \<open>Rounding to double does not pass an integer below 2 to the 53.\<close>

lemma toDouble_le:
  assumes "r \<le> of_nat n" "n < 2 ^ 53"
  shows "toDouble r \<le> of_nat n"
proof (cases "r \<le> 0")
  case False
  define e where "e = ilog2 r - 52"
  have "exp2 (ilog2 r) \<le> of_nat n" using ilog2_lower [of r] False assms(1) by simp
  moreover have "(of_nat n :: rat) < exp2 53"
  proof -
    have "of_nat n < (of_nat (2 ^ 53) :: rat)" using assms(2) by (simp only: of_nat_less_iff)
    then show ?thesis by (simp add: exp2_def)
  qed
  ultimately have "\<not> 53 \<le> ilog2 r" using exp2_mono [of 53 "ilog2 r"] by linarith
  then have "e \<le> 0" by (simp add: e_def)
  then have k: "exp2 e = 1 / 2 ^ k" if "k = nat (- e)" for k using that by (simp add: exp2_def)
  define k where "k = nat (- e)"
  note k = k [OF k_def]
  have "r / exp2 e \<le> of_int (int n * 2 ^ k)" using assms(1) k by (simp add: mult_right_mono)
  then have "roundEven (r / exp2 e) \<le> int n * 2 ^ k" by (rule roundEven_le)
  then have "of_int (roundEven (r / exp2 e)) \<le> (of_int (int n * 2 ^ k) :: rat)" by (simp only: of_int_le_iff)
  then have "of_int (roundEven (r / exp2 e)) * exp2 e \<le> of_nat n" using k by (simp add: divide_le_eq)
  then show ?thesis using False by (simp add: toDouble_def e_def Let_def)
qed (simp add: toDouble_def)

lemma site_score_range: "0 \<le> CalculateSiteScore ms rx \<and> CalculateSiteScore ms rx \<le> 100"
proof (cases "ms \<le> 0 \<or> rx \<le> 0")
  case False
  define c r where "c = clampD (subD 100 (penaltyOf (of_int ms))) 0 100" and "r = clampD (toDouble (rx * toDouble (92 / 100))) 0 100"
  have cr: "c \<le> 100" "r \<le> 100" by (simp_all add: c_def r_def clampD_def)
  have "toDouble (c * (1 / 4)) \<le> 25" "toDouble (r * (3 / 4)) \<le> 75"
    using cr toDouble_le [of "c * (1 / 4)" 25] toDouble_le [of "r * (3 / 4)" 75] by simp_all
  then have "toDouble (toDouble (c * (1 / 4)) + toDouble (r * (3 / 4))) \<le> 100" using toDouble_le [of _ 100] by simp
  moreover have "0 \<le> toDouble (toDouble (c * (1 / 4)) + toDouble (r * (3 / 4)))" by (rule toDouble_nonneg)
  ultimately have "0 \<le> roundAway (toDouble (toDouble (c * (1 / 4)) + toDouble (r * (3 / 4))))
      \<and> roundAway (toDouble (toDouble (c * (1 / 4)) + toDouble (r * (3 / 4)))) \<le> 100"
    by (auto simp: roundAway_def floor_le_iff)
  then show ?thesis using False by (simp add: CalculateSiteScore_def c_def r_def Let_def)
qed (simp add: CalculateSiteScore_def)

subsection \<open>The rankings\<close>

lemma insert_incomparable: "list_all (\<lambda>y. \<not> lt y x) ys \<Longrightarrow> stableInsert lt x ys = x # ys"
  by (cases ys) auto

lemma stableSort_incomparable: "\<forall>x \<in> set xs. \<forall>y \<in> set xs. \<not> lt x y \<Longrightarrow> stableSort lt xs = xs"
  by (induction xs) (auto simp: insert_incomparable list_all_iff)

text \<open>The early returns of the rankings are the sort itself on inputs it leaves alone.\<close>

lemma saved_score_sort: "OrderRankedBySavedSiteScore rows = map rowId (stableSort bySiteScore rows)"
proof (cases "length rows < 2")
  case True
  then show ?thesis by (cases rows) (auto simp: OrderRankedBySavedSiteScore_def RankedScheduleIds_def)
next
  case False
  then show ?thesis using stableSort_incomparable [of rows bySiteScore]
    by (auto simp: OrderRankedBySavedSiteScore_def RankedScheduleIds_def list_ex_iff bySiteScore_def Let_def)
qed

lemma connection_time_sort: "OrderRankedByConnectionTime rows = map rowId (stableSort byConnectTime rows)"
proof (cases "length rows < 2")
  case True
  then show ?thesis by (cases rows) (auto simp: OrderRankedByConnectionTime_def RankedScheduleIds_def)
next
  case False
  then show ?thesis using stableSort_incomparable [of rows byConnectTime]
    by (auto simp: OrderRankedByConnectionTime_def RankedScheduleIds_def list_ex_iff byConnectTime_def Let_def)
qed

lemma filter_same_rank:
  assumes "\<And>z. filter (P z) ys = filter (P z) xs" "\<And>x. Q x \<Longrightarrow> P z x"
  shows "filter Q ys = filter Q xs"
proof -
  have "filter Q (filter (P z) l) = filter Q l" for l
    using assms(2) by (auto simp: filter_filter intro!: filter_cong)
  then show ?thesis by (metis assms(1))
qed

text \<open>The order of a ranked sweep by saved score is a permutation of the rows: every row with a score comes before every row
  without one, scores fall, rows with equal scores keep their order and so do the rows without a score.\<close>

theorem saved_score_ranking:
  "\<exists>ys. OrderRankedBySavedSiteScore rows = map rowId ys \<and> mset ys = mset rows
     \<and> sorted_wrt (\<lambda>a b. 0 < siteScore b \<longrightarrow> siteScore b \<le> siteScore a) ys
     \<and> filter (\<lambda>r. siteScore r \<le> 0) ys = filter (\<lambda>r. siteScore r \<le> 0) rows
     \<and> (\<forall>s. filter (\<lambda>r. siteScore r = s) ys = filter (\<lambda>r. siteScore r = s) rows)"
proof -
  let ?ys = "stableSort bySiteScore rows"
  have before: "\<not> bySiteScore b a \<longleftrightarrow> (0 < siteScore b \<longrightarrow> siteScore b \<le> siteScore a)" for a b
    by (auto simp: bySiteScore_def Let_def)
  have "sorted_wrt (\<lambda>a b. 0 < siteScore b \<longrightarrow> siteScore b \<le> siteScore a) ?ys"
    using siteScoreOrder.sorted_stableSort [of rows] by (simp add: before)
  moreover have "filter (\<lambda>r. siteScore r \<le> 0) ?ys = filter (\<lambda>r. siteScore r \<le> 0) rows"
    by (rule filter_same_rank [where P = siteScoreOrder.same_rank and z = "\<lparr>rowId = 0, connectTimeMs = 0, siteScore = 0\<rparr>"])
      (auto simp: siteScoreOrder.stable_stableSort siteScoreOrder.same_rank_def bySiteScore_def Let_def)
  moreover have "filter (\<lambda>r. siteScore r = s) ?ys = filter (\<lambda>r. siteScore r = s) rows" for s
    by (rule filter_same_rank [where P = siteScoreOrder.same_rank and z = "\<lparr>rowId = 0, connectTimeMs = 0, siteScore = s\<rparr>"])
      (auto simp: siteScoreOrder.stable_stableSort siteScoreOrder.same_rank_def bySiteScore_def Let_def)
  ultimately show ?thesis by (intro exI [of _ ?ys]) (simp add: saved_score_sort)
qed

theorem saved_score_ranking_witness:
  "\<exists>ys. OrderRankedBySavedSiteScore [\<lparr>rowId = 1, connectTimeMs = 0, siteScore = 0\<rparr>, \<lparr>rowId = 2, connectTimeMs = 0, siteScore = 40\<rparr>] = map rowId ys
     \<and> ys = [\<lparr>rowId = 2, connectTimeMs = 0, siteScore = 40\<rparr>, \<lparr>rowId = 1, connectTimeMs = 0, siteScore = 0\<rparr>]"
  using saved_score_ranking [of "[\<lparr>rowId = 1, connectTimeMs = 0, siteScore = 0\<rparr>, \<lparr>rowId = 2, connectTimeMs = 0, siteScore = 40\<rparr>]"]
  by (simp add: saved_score_sort bySiteScore_def)

lemma mset_around: "mset (map f (take k s) @ u @ map f (drop k s)) = mset (map f s @ u)"
proof -
  have "mset (map f s @ u) = mset (map f (take k s @ drop k s) @ u)" by simp
  also have "\<dots> = mset (map f (take k s) @ u @ map f (drop k s))" by (simp only: map_append mset_append ac_simps)
  finally show ?thesis by simp
qed

lemma pretest_permutation: "mset (OrderRankedConnectionPretest rows) = mset (map rowId rows)"
proof -
  let ?k = "filter (\<lambda>row. connectTimeMs row > 0) rows" and ?u = "filter (\<lambda>row. \<not> connectTimeMs row > 0) rows"
  have split: "mset (map rowId (stableSort faster ?k) @ map rowId ?u) = mset (map rowId rows)"
    by (simp flip: image_mset_union)
  then have "?u = [] \<Longrightarrow> mset (map rowId (stableSort faster ?k)) = mset (map rowId rows)" by simp
  with split show ?thesis
    unfolding OrderRankedConnectionPretest_def Let_def RankedScheduleIds_def map_is_Nil_conv
    by (simp only: mset_around refl if_True if_False if_cancel split: if_split) simp
qed

end
