(* ===== verification/Json_Values.thy ===== *)
theory Json_Values
  imports Validation_Units
begin

text \<open>
  \<open>QJsonValue\<close>, \<open>QJsonObject\<close> and \<open>QJsonArray\<close> as the components that store and exchange settings use them. A finite number is a rational; an object is a
  list of key-value pairs whose order nothing reads; a missing key reads as \<open>JNull\<close>, which every conversion treats as \<open>Undefined\<close>. The conversions
  return their default for a value of another kind, as Qt does. The JSON text itself is Qt's.
\<close>

datatype json = JNull | JBool bool | JNum rat | JStr qstring | JArr "json list" | JObj "(qstring \<times> json) list"

type_synonym jobject = "(qstring \<times> json) list"

definition jcontains :: "jobject \<Rightarrow> qstring \<Rightarrow> bool" where
  "jcontains obj k \<longleftrightarrow> map_of obj k \<noteq> None"

definition jat :: "jobject \<Rightarrow> qstring \<Rightarrow> json" where
  "jat obj k = (case map_of obj k of None \<Rightarrow> JNull | Some v \<Rightarrow> v)"

definition isInt32 :: "int \<Rightarrow> bool" where
  "isInt32 n \<longleftrightarrow> - (2 ^ 31) \<le> n \<and> n < 2 ^ 31"

definition jtoInt :: "int \<Rightarrow> json \<Rightarrow> int" where
  "jtoInt d v = (case v of JNum r \<Rightarrow> if of_int \<lfloor>r\<rfloor> = r \<and> isInt32 \<lfloor>r\<rfloor> then \<lfloor>r\<rfloor> else d | _ \<Rightarrow> d)"

definition jtoDouble :: "json \<Rightarrow> rat" where
  "jtoDouble v = (case v of JNum r \<Rightarrow> r | _ \<Rightarrow> 0)"

definition jtoBool :: "bool \<Rightarrow> json \<Rightarrow> bool" where
  "jtoBool d v = (case v of JBool b \<Rightarrow> b | _ \<Rightarrow> d)"

definition jtoString :: "qstring \<Rightarrow> json \<Rightarrow> qstring" where
  "jtoString d v = (case v of JStr s \<Rightarrow> s | _ \<Rightarrow> d)"

definition jtoArray :: "json \<Rightarrow> json list" where
  "jtoArray v = (case v of JArr xs \<Rightarrow> xs | _ \<Rightarrow> [])"

definition jtoObject :: "json \<Rightarrow> jobject" where
  "jtoObject v = (case v of JObj obj \<Rightarrow> obj | _ \<Rightarrow> [])"

text \<open>The casts between \<open>qint64\<close> and \<open>double\<close>.\<close>

definition doubleOf :: "int \<Rightarrow> rat" where
  "doubleOf n = (if 0 \<le> n then toDouble (of_int n) else - toDouble (of_int (- n)))"

definition int64Of :: "rat \<Rightarrow> int" where
  "int64Of r = (if 0 \<le> r then \<lfloor>r\<rfloor> else - \<lfloor>- r\<rfloor>)"

definition QListInt2QJsonArray :: "int list \<Rightarrow> json list" where
  "QListInt2QJsonArray xs = map (\<lambda>n. JNum (of_int n)) xs"

definition QJsonArray2QListInt :: "json list \<Rightarrow> int list" where
  "QJsonArray2QListInt xs = map (jtoInt 0) xs"

lemma doubleOf_exact: "\<bar>n\<bar> < 2 ^ 53 \<Longrightarrow> doubleOf n = of_int n"
proof -
  assume "\<bar>n\<bar> < 2 ^ 53"
  then have "nat \<bar>n\<bar> < 2 ^ 53" by (simp add: nat_less_iff)
  then have "toDouble (of_nat (nat \<bar>n\<bar>)) = of_nat (nat \<bar>n\<bar>)" by (rule toDouble_nat)
  then show ?thesis by (auto simp: doubleOf_def)
qed

lemma int64Of_int [simp]: "int64Of (of_int n) = n"
  by (simp add: int64Of_def flip: of_int_minus)

lemma jtoInt_num [simp]: "isInt32 n \<Longrightarrow> jtoInt d (JNum (of_int n)) = n"
  by (simp add: jtoInt_def)

text \<open>\<open>QString::toInt\<close> and \<open>toLongLong\<close> of trimmed text: an optional sign, digits, and a value that fits \<open>w\<close> bits.\<close>

definition toSigned :: "nat \<Rightarrow> qstring \<Rightarrow> int option" where
  "toSigned w s =
     (let neg = startsWith u_dash s;
          ds = (if neg \<or> startsWith 43 s then tl s else s);
          n = (if neg then - int (value_base 10 ds) else int (value_base 10 ds))
      in if ds \<noteq> [] \<and> list_all isDigit ds \<and> - (2 ^ (w - 1)) \<le> n \<and> n < 2 ^ (w - 1) then Some n else None)"

text \<open>\<open>QString::number\<close> of an integer.\<close>

definition numberInt :: "int \<Rightarrow> qstring" where
  "numberInt n = (if n < 0 then u_dash # number (nat (- n)) else number (nat n))"

lemma trimmed_number [simp]: "0 \<le> n \<Longrightarrow> trimmed (numberInt n) = numberInt n"
  using set_number_digits isDigit_not_space by (auto simp: numberInt_def intro!: trimmed_id)

lemma toSigned_number:
  assumes "0 \<le> n" "n < 2 ^ (w - 1)"
  shows "toSigned w (numberInt n) = Some n"
proof -
  have d: "list_all isDigit (number (nat n))" using set_number_digits by (auto simp: list_all_iff)
  then have "\<not> startsWith 45 (number (nat n))" "\<not> startsWith 43 (number (nat n))"
    by (auto simp: list_all_iff isDigit_def dest!: startsWith_in_set bspec)
  moreover have "- (2 ^ (w - 1)) \<le> n" using assms(1) by (meson neg_le_0_iff_le order_trans zero_le_power zero_le_numeral)
  ultimately show ?thesis using assms d by (simp add: toSigned_def numberInt_def Let_def value_number_base)
qed

end
