(* ===== verification/Auto_Selector_Config.thy ===== *)
theory Auto_Selector_Config
  imports Json_Values "HOL-Library.AList"
begin

text \<open>
  The auto selector's settings, \<^verbatim>\<open>src/include/configs/outbounds/autoselector.h\<close>: the record, the clamping of \<open>Normalize\<close>, reading and
  writing JSON, and the usage history, together with the cross-field checks of \<^verbatim>\<open>src/src/configs/outbounds/autoselector.cpp\<close>.

  JSON is that of \<open>Json_Values\<close>: an object is a list of key-value pairs whose order nothing reads, and a
  missing key reads as \<open>JNull\<close>, which every conversion treats as \<open>Undefined\<close>. A \<open>qint64\<close> is written as the nearest double.

  Results: \<open>Normalize\<close> establishes the bounds the rest of the code relies on, is idempotent and leaves settings within them alone, and after it
  no cross-field check complains; writing and reading settings is a round trip; the history is an LRU list: recording moves the used profiles to
  the front and keeps at most 2000.
\<close>

subsection \<open>The settings\<close>

record autoSelector =
  outName :: qstring
  gids :: "int list"
  nameFilter :: qstring
  countryFilter :: qstring
  excludeUnavailable :: bool
  poolCap :: int
  buildLimit :: int
  resultValidityMins :: int
  testURL :: qstring
  connectivityURL :: qstring
  intervalSec :: int
  benchIntervalSec :: int
  watchIntervalSec :: int
  activeSize :: int
  sampling :: int
  toleranceMs :: int
  maxRTTms :: int
  expectedReady :: int
  dialRetries :: int
  interruptOnSwitch :: bool
  balance :: bool
  balanceMode :: qstring
  balanceIntervalSec :: int
  pool :: "int list"
  poolRankedAt :: int
  pinnedID :: int
  lastBuilt :: "int list"
  lastBuiltAt :: int
  historyOf :: "json list"

definition defaultSelector :: autoSelector where
  "defaultSelector =
     \<lparr>outName = [], gids = [], nameFilter = [], countryFilter = [], excludeUnavailable = True, poolCap = 1000, buildLimit = 300,
      resultValidityMins = 1440, testURL = [], connectivityURL = [], intervalSec = 300, benchIntervalSec = 600, watchIntervalSec = 15,
      activeSize = 8, sampling = 10, toleranceMs = 300, maxRTTms = 0, expectedReady = 3, dialRetries = 2, interruptOnSwitch = True,
      balance = False, balanceMode = qs ''rotate'', balanceIntervalSec = 30, pool = [], poolRankedAt = 0, pinnedID = - 1, lastBuilt = [],
      lastBuiltAt = 0, historyOf = []\<rparr>"

definition kMaxPoolCap :: int where "kMaxPoolCap = 3000"
definition kMaxBuildLimit :: int where "kMaxBuildLimit = 500"
definition kMaxHistoryEntries :: nat where "kMaxHistoryEntries = 2000"

definition Tracks :: "autoSelector \<Rightarrow> int \<Rightarrow> bool" where
  "Tracks s gid \<longleftrightarrow> gid \<in> set (gids s)"

fun trackedGids :: "int list \<Rightarrow> int list \<Rightarrow> int list" where
  "trackedGids tracked [] = tracked"
| "trackedGids tracked (gid # rest) =
     trackedGids (if gid \<ge> 0 \<and> gid \<notin> set tracked then tracked @ [gid] else tracked) rest"

definition Normalize :: "autoSelector \<Rightarrow> autoSelector" where
  "Normalize s =
     (let cap = (if poolCap s < 1 then 1 else poolCap s);
          cap = (if cap > kMaxPoolCap then kMaxPoolCap else cap);
          lim = (if buildLimit s < 1 then 1 else buildLimit s);
          lim = (if lim > kMaxBuildLimit then kMaxBuildLimit else lim);
          lim = (if lim > cap then cap else lim);
          validity = (if resultValidityMins s < 0 then 0 else resultValidityMins s);
          interval = (if intervalSec s < 10 then 10 else intervalSec s);
          bench = (if benchIntervalSec s < interval then interval else benchIntervalSec s);
          watch = (if watchIntervalSec s < 5 then 5 else watchIntervalSec s);
          watch = (if watch > interval then interval else watch);
          active = (if activeSize s < 1 then 1 else activeSize s);
          expect = (if expectedReady s < 1 then 1 else expectedReady s);
          active = (if active < expect then expect else active);
          active = (if active > lim then lim else active);
          sample = (if sampling s < 2 then 2 else sampling s);
          sample = (if sample > 60 then 60 else sample);
          tolerance = (if toleranceMs s < 0 then 0 else toleranceMs s);
          maxRtt = (if maxRTTms s < 0 then 0 else maxRTTms s);
          expect = (if expect > lim then lim else expect);
          retries = (if dialRetries s < 0 then 0 else dialRetries s);
          retries = (if retries > 5 then 5 else retries);
          balInterval = (if balanceIntervalSec s < 5 then 5 else balanceIntervalSec s);
          mode = (if balanceMode s \<noteq> qs ''connection'' then qs ''rotate'' else balanceMode s)
      in s\<lparr>gids := trackedGids [] (gids s), poolCap := cap, buildLimit := lim, resultValidityMins := validity, intervalSec := interval,
           benchIntervalSec := bench, watchIntervalSec := watch, activeSize := active, expectedReady := expect, sampling := sample,
           toleranceMs := tolerance, maxRTTms := maxRtt, dialRetries := retries, balanceIntervalSec := balInterval, balanceMode := mode\<rparr>)"

text \<open>What \<open>Normalize\<close> is for: the bounds a profile has before a build.\<close>

definition normalised :: "autoSelector \<Rightarrow> bool" where
  "normalised s \<longleftrightarrow>
     distinct (gids s) \<and> (\<forall>g \<in> set (gids s). 0 \<le> g)
     \<and> 1 \<le> buildLimit s \<and> buildLimit s \<le> poolCap s \<and> poolCap s \<le> kMaxPoolCap \<and> buildLimit s \<le> kMaxBuildLimit
     \<and> 0 \<le> resultValidityMins s
     \<and> 10 \<le> intervalSec s \<and> intervalSec s \<le> benchIntervalSec s \<and> 5 \<le> watchIntervalSec s \<and> watchIntervalSec s \<le> intervalSec s
     \<and> 1 \<le> expectedReady s \<and> expectedReady s \<le> activeSize s \<and> activeSize s \<le> buildLimit s
     \<and> 2 \<le> sampling s \<and> sampling s \<le> 60 \<and> 0 \<le> toleranceMs s \<and> 0 \<le> maxRTTms s
     \<and> 0 \<le> dialRetries s \<and> dialRetries s \<le> 5 \<and> 5 \<le> balanceIntervalSec s
     \<and> balanceMode s \<in> {qs ''rotate'', qs ''connection''}"

subsection \<open>The cross-field checks\<close>

datatype SelectorMessage =
    MsgBuildLimit int | MsgBenchInterval int | MsgWatchInterval int | MsgReadyCount int | MsgCloseCount int

definition AutoSelectorBuildLimit :: "int \<Rightarrow> int \<Rightarrow> SelectorMessage option" where
  "AutoSelectorBuildLimit limit cap = (if limit \<le> cap then None else Some (MsgBuildLimit cap))"

definition AutoSelectorBenchInterval :: "int \<Rightarrow> int \<Rightarrow> SelectorMessage option" where
  "AutoSelectorBenchInterval bench interval = (if bench \<ge> interval then None else Some (MsgBenchInterval interval))"

definition AutoSelectorWatchInterval :: "int \<Rightarrow> int \<Rightarrow> SelectorMessage option" where
  "AutoSelectorWatchInterval watch interval = (if watch \<le> interval then None else Some (MsgWatchInterval interval))"

definition AutoSelectorReadyCount :: "int \<Rightarrow> int \<Rightarrow> SelectorMessage option" where
  "AutoSelectorReadyCount active ready = (if active \<ge> ready then None else Some (MsgReadyCount ready))"

definition AutoSelectorCloseCount :: "int \<Rightarrow> int \<Rightarrow> SelectorMessage option" where
  "AutoSelectorCloseCount active limit = (if active \<le> limit then None else Some (MsgCloseCount limit))"

subsection \<open>JSON\<close>

definition getInt :: "jobject \<Rightarrow> qstring \<Rightarrow> int \<Rightarrow> int \<Rightarrow> int" where
  "getInt obj k d old = (if jcontains obj k then jtoInt d (jat obj k) else old)"

definition getBool :: "jobject \<Rightarrow> qstring \<Rightarrow> bool \<Rightarrow> bool \<Rightarrow> bool" where
  "getBool obj k d old = (if jcontains obj k then jtoBool d (jat obj k) else old)"

definition getString :: "jobject \<Rightarrow> qstring \<Rightarrow> qstring \<Rightarrow> qstring \<Rightarrow> qstring" where
  "getString obj k d old = (if jcontains obj k then jtoString d (jat obj k) else old)"

definition getInts :: "jobject \<Rightarrow> qstring \<Rightarrow> int list \<Rightarrow> int list" where
  "getInts obj k old = (if jcontains obj k then QJsonArray2QListInt (jtoArray (jat obj k)) else old)"

definition getTime :: "jobject \<Rightarrow> qstring \<Rightarrow> int \<Rightarrow> int" where
  "getTime obj k old = (if jcontains obj k then int64Of (jtoDouble (jat obj k)) else old)"

definition getGids :: "jobject \<Rightarrow> int list \<Rightarrow> int list" where
  "getGids obj old =
     (if jcontains obj (qs ''gids'') then QJsonArray2QListInt (jtoArray (jat obj (qs ''gids'')))
      else let gid = jtoInt (- 1) (jat obj (qs ''gid'')) in if gid \<ge> 0 then [gid] else old)"

definition ParseFromJson :: "jobject \<Rightarrow> autoSelector \<Rightarrow> bool \<times> autoSelector" where
  "ParseFromJson obj s =
     (if obj = [] then (False, s)
      else (True, Normalize
        \<lparr>outName = getString obj (qs ''name'') [] (outName s),
         gids = getGids obj (gids s),
         nameFilter = getString obj (qs ''name_filter'') [] (nameFilter s),
         countryFilter = getString obj (qs ''country_filter'') [] (countryFilter s),
         excludeUnavailable = getBool obj (qs ''exclude_unavailable'') True (excludeUnavailable s),
         poolCap = getInt obj (qs ''pool_cap'') 3000 (poolCap s),
         buildLimit = getInt obj (qs ''build_limit'') 300 (buildLimit s),
         resultValidityMins = getInt obj (qs ''result_validity_mins'') 60 (resultValidityMins s),
         testURL = getString obj (qs ''test_url'') [] (testURL s),
         connectivityURL = getString obj (qs ''connectivity_url'') [] (connectivityURL s),
         intervalSec = getInt obj (qs ''interval_sec'') 60 (intervalSec s),
         benchIntervalSec = getInt obj (qs ''bench_interval_sec'') 600 (benchIntervalSec s),
         watchIntervalSec = getInt obj (qs ''watch_interval_sec'') 15 (watchIntervalSec s),
         activeSize = getInt obj (qs ''active_size'') 10 (activeSize s),
         sampling = getInt obj (qs ''sampling'') 10 (sampling s),
         toleranceMs = getInt obj (qs ''tolerance_ms'') 100 (toleranceMs s),
         maxRTTms = getInt obj (qs ''max_rtt_ms'') 0 (maxRTTms s),
         expectedReady = getInt obj (qs ''expected'') 3 (expectedReady s),
         dialRetries = getInt obj (qs ''dial_retries'') 2 (dialRetries s),
         interruptOnSwitch = getBool obj (qs ''interrupt_on_switch'') True (interruptOnSwitch s),
         balance = getBool obj (qs ''balance'') False (balance s),
         balanceMode = getString obj (qs ''balance_mode'') (qs ''rotate'') (balanceMode s),
         balanceIntervalSec = getInt obj (qs ''balance_interval_sec'') 30 (balanceIntervalSec s),
         pool = getInts obj (qs ''pool'') (pool s),
         poolRankedAt = getTime obj (qs ''pool_ranked_at'') (poolRankedAt s),
         pinnedID = getInt obj (qs ''pinned_id'') (- 1) (pinnedID s),
         lastBuilt = getInts obj (qs ''last_built'') (lastBuilt s),
         lastBuiltAt = getTime obj (qs ''last_built_at'') (lastBuiltAt s),
         historyOf = (if jcontains obj (qs ''history'') then jtoArray (jat obj (qs ''history'')) else historyOf s)\<rparr>))"

definition ExportToJson :: "autoSelector \<Rightarrow> jobject" where
  "ExportToJson s =
     [(qs ''name'', JStr (outName s)),
      (qs ''type'', JStr (qs ''autoselector'')),
      (qs ''gids'', JArr (QListInt2QJsonArray (gids s))),
      (qs ''gid'', JNum (of_int (case gids s of [] \<Rightarrow> - 1 | g # _ \<Rightarrow> g))),
      (qs ''name_filter'', JStr (nameFilter s)),
      (qs ''country_filter'', JStr (countryFilter s)),
      (qs ''exclude_unavailable'', JBool (excludeUnavailable s)),
      (qs ''pool_cap'', JNum (of_int (poolCap s))),
      (qs ''build_limit'', JNum (of_int (buildLimit s))),
      (qs ''result_validity_mins'', JNum (of_int (resultValidityMins s))),
      (qs ''test_url'', JStr (testURL s)),
      (qs ''connectivity_url'', JStr (connectivityURL s)),
      (qs ''interval_sec'', JNum (of_int (intervalSec s))),
      (qs ''bench_interval_sec'', JNum (of_int (benchIntervalSec s))),
      (qs ''watch_interval_sec'', JNum (of_int (watchIntervalSec s))),
      (qs ''active_size'', JNum (of_int (activeSize s))),
      (qs ''sampling'', JNum (of_int (sampling s))),
      (qs ''tolerance_ms'', JNum (of_int (toleranceMs s))),
      (qs ''max_rtt_ms'', JNum (of_int (maxRTTms s))),
      (qs ''expected'', JNum (of_int (expectedReady s))),
      (qs ''dial_retries'', JNum (of_int (dialRetries s))),
      (qs ''interrupt_on_switch'', JBool (interruptOnSwitch s)),
      (qs ''balance'', JBool (balance s)),
      (qs ''balance_mode'', JStr (balanceMode s)),
      (qs ''balance_interval_sec'', JNum (of_int (balanceIntervalSec s))),
      (qs ''pool'', JArr (QListInt2QJsonArray (pool s))),
      (qs ''pool_ranked_at'', JNum (doubleOf (poolRankedAt s))),
      (qs ''pinned_id'', JNum (of_int (pinnedID s))),
      (qs ''last_built'', JArr (QListInt2QJsonArray (lastBuilt s))),
      (qs ''last_built_at'', JNum (doubleOf (lastBuiltAt s))),
      (qs ''history'', JArr (historyOf s))]"

subsection \<open>The usage history\<close>

record HistoryEntry =
  entryId :: int
  firstUsed :: int
  lastUsed :: int
  builds :: int
  failures :: int
  entryName :: qstring

definition noEntry :: HistoryEntry where
  "noEntry = \<lparr>entryId = - 1, firstUsed = 0, lastUsed = 0, builds = 0, failures = 0, entryName = []\<rparr>"

definition entryOf :: "json \<Rightarrow> HistoryEntry" where
  "entryOf v =
     (let obj = jtoObject v
      in \<lparr>entryId = jtoInt (- 1) (jat obj (qs ''id'')), firstUsed = int64Of (jtoDouble (jat obj (qs ''first''))),
          lastUsed = int64Of (jtoDouble (jat obj (qs ''last''))), builds = jtoInt 0 (jat obj (qs ''builds'')),
          failures = jtoInt 0 (jat obj (qs ''fails'')), entryName = jtoString [] (jat obj (qs ''name''))\<rparr>)"

definition HistoryEntries :: "autoSelector \<Rightarrow> HistoryEntry list" where
  "HistoryEntries s = filter (\<lambda>e. entryId e \<ge> 0) (map entryOf (historyOf s))"

definition entryJson :: "HistoryEntry \<Rightarrow> json" where
  "entryJson e =
     JObj [(qs ''id'', JNum (of_int (entryId e))), (qs ''first'', JNum (doubleOf (firstUsed e))), (qs ''last'', JNum (doubleOf (lastUsed e))),
           (qs ''builds'', JNum (of_int (builds e))), (qs ''fails'', JNum (of_int (failures e))), (qs ''name'', JStr (entryName e))]"

type_synonym history_index = "(int \<Rightarrow> HistoryEntry option) \<times> int list"

definition valueOf :: "(int \<Rightarrow> HistoryEntry option) \<Rightarrow> int \<Rightarrow> HistoryEntry" where
  "valueOf byID i = (case byID i of None \<Rightarrow> noEntry | Some e \<Rightarrow> e)"

definition indexEntry :: "HistoryEntry \<Rightarrow> history_index \<Rightarrow> history_index" where
  "indexEntry e st = ((fst st)(entryId e \<mapsto> e), snd st @ [entryId e])"

definition recordOne :: "(int \<Rightarrow> qstring option) \<Rightarrow> int \<Rightarrow> int \<Rightarrow> history_index \<Rightarrow> history_index" where
  "recordOne names now i st =
     (let (byID, order) = st;
          found = valueOf byID i;
          (e, order) = (if entryId found < 0 then (found\<lparr>entryId := i, firstUsed := now\<rparr>, order) else (found, remove1 i order));
          e = e\<lparr>lastUsed := now, builds := builds e + 1\<rparr>;
          e = (case names i of None \<Rightarrow> e | Some n \<Rightarrow> e\<lparr>entryName := n\<rparr>)
      in (byID(i \<mapsto> e), i # order))"

function trimHistory :: "history_index \<Rightarrow> history_index" where
  "trimHistory (byID, order) =
     (if length order > kMaxHistoryEntries then trimHistory (byID(last order := None), butlast order) else (byID, order))"
  by pat_completeness auto
termination by (relation "measure (length \<circ> snd)") auto

declare trimHistory.simps [simp del]

definition RecordHistory :: "int list \<Rightarrow> (int \<Rightarrow> qstring option) \<Rightarrow> int \<Rightarrow> autoSelector \<Rightarrow> autoSelector" where
  "RecordHistory ids names now s =
     (let st = fold indexEntry (HistoryEntries s) (Map.empty, []);
          st = fold (recordOne names now) ids st;
          (byID, order) = trimHistory st
      in s\<lparr>historyOf := map (\<lambda>i. entryJson (valueOf byID i)) order\<rparr>)"

definition jset :: "qstring \<Rightarrow> json \<Rightarrow> jobject \<Rightarrow> jobject" where
  "jset k v obj = AList.update k v obj"

fun failureAt :: "int \<Rightarrow> json list \<Rightarrow> json list" where
  "failureAt i [] = []"
| "failureAt i (v # vs) =
     (let obj = jtoObject v
      in if jtoInt (- 1) (jat obj (qs ''id'')) \<noteq> i then v # failureAt i vs
         else JObj (jset (qs ''fails'') (JNum (of_int (jtoInt 0 (jat obj (qs ''fails'')) + 1))) obj) # vs)"

definition RecordHistoryFailure :: "int \<Rightarrow> autoSelector \<Rightarrow> autoSelector" where
  "RecordHistoryFailure i s = s\<lparr>historyOf := failureAt i (historyOf s)\<rparr>"

subsection \<open>Normalize\<close>

lemma distinct_trackedGids: "distinct t \<Longrightarrow> distinct (trackedGids t gs)"
  by (induction gs arbitrary: t) auto

lemma trackedGids_set: "set (trackedGids t gs) = set t \<union> {g \<in> set gs. 0 \<le> g}"
  by (induction gs arbitrary: t) auto

lemma trackedGids_id: "distinct (t @ gs) \<Longrightarrow> \<forall>g \<in> set gs. 0 \<le> g \<Longrightarrow> trackedGids t gs = t @ gs"
  by (induction gs arbitrary: t) auto

text \<open>The settings \<open>Normalize\<close> changes, as clamps.\<close>

lemma Normalize_fields:
  "gids (Normalize s) = trackedGids [] (gids s)"
  "poolCap (Normalize s) = min kMaxPoolCap (max 1 (poolCap s))"
  "buildLimit (Normalize s) = min (poolCap (Normalize s)) (min kMaxBuildLimit (max 1 (buildLimit s)))"
  "resultValidityMins (Normalize s) = max 0 (resultValidityMins s)"
  "intervalSec (Normalize s) = max 10 (intervalSec s)"
  "benchIntervalSec (Normalize s) = max (intervalSec (Normalize s)) (benchIntervalSec s)"
  "watchIntervalSec (Normalize s) = min (intervalSec (Normalize s)) (max 5 (watchIntervalSec s))"
  "activeSize (Normalize s) = min (buildLimit (Normalize s)) (max (max 1 (expectedReady s)) (max 1 (activeSize s)))"
  "expectedReady (Normalize s) = min (buildLimit (Normalize s)) (max 1 (expectedReady s))"
  "sampling (Normalize s) = min 60 (max 2 (sampling s))"
  "toleranceMs (Normalize s) = max 0 (toleranceMs s)"
  "maxRTTms (Normalize s) = max 0 (maxRTTms s)"
  "dialRetries (Normalize s) = min 5 (max 0 (dialRetries s))"
  "balanceIntervalSec (Normalize s) = max 5 (balanceIntervalSec s)"
  "balanceMode (Normalize s) = (if balanceMode s = qs ''connection'' then balanceMode s else qs ''rotate'')"
  by (simp_all add: Normalize_def Let_def min_def max_def)

lemma normalised_Normalize: "normalised (Normalize s)"
proof -
  let ?n = "Normalize s"
  have p: "1 \<le> poolCap ?n" "poolCap ?n \<le> kMaxPoolCap" by (simp_all add: Normalize_fields kMaxPoolCap_def)
  then have b: "1 \<le> buildLimit ?n" "buildLimit ?n \<le> poolCap ?n" "buildLimit ?n \<le> kMaxBuildLimit"
    by (simp_all add: Normalize_fields(3) kMaxBuildLimit_def min.coboundedI2)
  have i: "10 \<le> intervalSec ?n" by (simp add: Normalize_fields)
  have "5 \<le> watchIntervalSec ?n" "watchIntervalSec ?n \<le> intervalSec ?n" "intervalSec ?n \<le> benchIntervalSec ?n"
    using i by (simp_all add: Normalize_fields(6,7))
  moreover have "1 \<le> expectedReady ?n" "expectedReady ?n \<le> activeSize ?n" "activeSize ?n \<le> buildLimit ?n"
    using b(1) by (simp_all add: Normalize_fields(8,9) min.coboundedI2)
  moreover have "distinct (gids ?n)" "\<forall>g \<in> set (gids ?n). 0 \<le> g"
    by (simp_all add: Normalize_fields(1) distinct_trackedGids trackedGids_set)
  moreover have "0 \<le> resultValidityMins ?n" "2 \<le> sampling ?n" "sampling ?n \<le> 60" "0 \<le> toleranceMs ?n" "0 \<le> maxRTTms ?n"
    "0 \<le> dialRetries ?n" "dialRetries ?n \<le> 5" "5 \<le> balanceIntervalSec ?n" "balanceMode ?n \<in> {qs ''rotate'', qs ''connection''}"
    by (simp_all add: Normalize_fields(4,10-15))
  ultimately show ?thesis unfolding normalised_def using p b i by blast
qed

lemma Normalize_id: "normalised s \<Longrightarrow> Normalize s = s"
proof (rule autoSelector.equality)
  assume n: "normalised s"
  then show "gids (Normalize s) = gids s" by (simp add: normalised_def Normalize_fields trackedGids_id)
  have "poolCap (Normalize s) = poolCap s" "intervalSec (Normalize s) = intervalSec s"
    using n by (simp_all add: normalised_def Normalize_fields(2,5))
  moreover from this have "buildLimit (Normalize s) = buildLimit s" using n by (simp add: normalised_def Normalize_fields(3))
  ultimately show "poolCap (Normalize s) = poolCap s" "intervalSec (Normalize s) = intervalSec s" "buildLimit (Normalize s) = buildLimit s"
    "benchIntervalSec (Normalize s) = benchIntervalSec s" "watchIntervalSec (Normalize s) = watchIntervalSec s"
    "activeSize (Normalize s) = activeSize s" "expectedReady (Normalize s) = expectedReady s"
    using n by (simp_all add: normalised_def Normalize_fields(6-9))
qed (auto simp: normalised_def Normalize_fields(4,10-15), simp_all add: Normalize_def Let_def)

text \<open>C37: \<open>Normalize\<close> establishes every bound the build relies on (tracked groups distinct and valid, at least one member built and no more than ranked,
  the ready set within the closely checked set within the built set, the watch interval within the check interval within the sweep interval),
  keeps exactly the valid groups the user tracked, changes nothing of settings that are already within the bounds, and after it none of the
  cross-field checks has anything to report.\<close>

theorem normalize_bounds:
  "normalised (Normalize s) \<and> set (gids (Normalize s)) = {g \<in> set (gids s). 0 \<le> g} \<and> (Normalize s = s \<longleftrightarrow> normalised s)
   \<and> (let n = Normalize s
      in AutoSelectorBuildLimit (buildLimit n) (poolCap n) = None \<and> AutoSelectorBenchInterval (benchIntervalSec n) (intervalSec n) = None
       \<and> AutoSelectorWatchInterval (watchIntervalSec n) (intervalSec n) = None \<and> AutoSelectorReadyCount (activeSize n) (expectedReady n) = None
       \<and> AutoSelectorCloseCount (activeSize n) (buildLimit n) = None)"
proof -
  have n: "normalised (Normalize s)" by (rule normalised_Normalize)
  moreover have "set (gids (Normalize s)) = {g \<in> set (gids s). 0 \<le> g}" by (simp add: Normalize_def Let_def trackedGids_set)
  moreover have "Normalize s = s \<longleftrightarrow> normalised s" using n Normalize_id [of s] by auto
  ultimately show ?thesis
    by (simp add: normalised_def Let_def AutoSelectorBuildLimit_def AutoSelectorBenchInterval_def AutoSelectorWatchInterval_def
        AutoSelectorReadyCount_def AutoSelectorCloseCount_def)
qed

subsection \<open>The JSON round trip\<close>

lemma conversions [simp]:
  "jtoDouble (JNum r) = r" "jtoBool b (JBool c) = c" "jtoString d (JStr t) = t" "jtoArray (JArr xs) = xs" "jtoObject (JObj obj) = obj"
  by (simp_all add: jtoDouble_def jtoBool_def jtoString_def jtoArray_def jtoObject_def)

lemma ints_roundtrip: "\<forall>n \<in> set ns. isInt32 n \<Longrightarrow> QJsonArray2QListInt (QListInt2QJsonArray ns) = ns"
  by (induction ns) (auto simp: QJsonArray2QListInt_def QListInt2QJsonArray_def)

lemmas json_get = getInt_def getBool_def getString_def getInts_def getTime_def getGids_def jcontains_def jat_def

text \<open>What the C++ types give: every \<open>int\<close> is a 32-bit number, and a time stamp is a number of seconds below 2 to the 53.\<close>

definition machineInts :: "autoSelector \<Rightarrow> bool" where
  "machineInts s \<longleftrightarrow> (\<forall>n \<in> set (gids s) \<union> set (pool s) \<union> set (lastBuilt s)
      \<union> {poolCap s, buildLimit s, resultValidityMins s, intervalSec s, benchIntervalSec s, watchIntervalSec s, activeSize s, sampling s,
         toleranceMs s, maxRTTms s, expectedReady s, dialRetries s, balanceIntervalSec s, pinnedID s}. isInt32 n)
     \<and> \<bar>poolRankedAt s\<bar> < 2 ^ 53 \<and> \<bar>lastBuiltAt s\<bar> < 2 ^ 53"

text \<open>Reading back what was written restores normalised settings completely, whatever the object read into held before: every field is written
  and every field is read under the same key.\<close>

theorem selector_json_roundtrip:
  assumes "normalised s" "machineInts s"
  shows "ParseFromJson (ExportToJson s) old = (True, s)"
proof -
  have "snd (ParseFromJson (ExportToJson s) old) = Normalize s"
    using assms(2)
    by (cases s) (simp add: ParseFromJson_def ExportToJson_def json_get machineInts_def doubleOf_exact ints_roundtrip)
  moreover have "fst (ParseFromJson (ExportToJson s) old)" by (simp add: ParseFromJson_def ExportToJson_def)
  ultimately show ?thesis using Normalize_id [OF assms(1)] by (metis prod.collapse)
qed

theorem selector_json_roundtrip_witness:
  "ParseFromJson (ExportToJson (defaultSelector\<lparr>gids := [4, 1], pool := [7, 9], poolRankedAt := 1700000000\<rparr>)) defaultSelector
     = (True, defaultSelector\<lparr>gids := [4, 1], pool := [7, 9], poolRankedAt := 1700000000\<rparr>)"
  by (rule selector_json_roundtrip)
    (simp_all add: defaultSelector_def normalised_def machineInts_def isInt32_def kMaxPoolCap_def kMaxBuildLimit_def)

subsection \<open>The history is an LRU list\<close>

definition useEntry :: "(int \<Rightarrow> qstring option) \<Rightarrow> int \<Rightarrow> int \<Rightarrow> HistoryEntry list \<Rightarrow> HistoryEntry list" where
  "useEntry names now i es =
     (let e = (case find (\<lambda>e. entryId e = i) es of None \<Rightarrow> noEntry\<lparr>entryId := i, firstUsed := now\<rparr> | Some e \<Rightarrow> e)
      in e\<lparr>lastUsed := now, builds := builds e + 1, entryName := (case names i of None \<Rightarrow> entryName e | Some n \<Rightarrow> n)\<rparr>
         # filter (\<lambda>e. entryId e \<noteq> i) es)"

definition represents :: "history_index \<Rightarrow> HistoryEntry list \<Rightarrow> bool" where
  "represents st es \<longleftrightarrow> snd st = map entryId es \<and> distinct (map entryId es) \<and> (\<forall>e \<in> set es. 0 \<le> entryId e)
     \<and> fst st = map_of (map (\<lambda>e. (entryId e, e)) es)"

lemma map_of_ids: "map_of (map (\<lambda>e. (entryId e, e)) es) i = find (\<lambda>e. entryId e = i) es"
  by (induction es) auto

lemma find_append_id: "find P (xs @ ys) = (case find P xs of None \<Rightarrow> find P ys | Some x \<Rightarrow> Some x)"
  by (induction xs) auto

lemma find_filter_other: "find (\<lambda>e. entryId e = j) (filter (\<lambda>e. entryId e \<noteq> i) es) = (if i = j then None else find (\<lambda>e. entryId e = j) es)"
  by (induction es) auto

lemma find_id_props: "find (\<lambda>e. entryId e = i) es = Some e \<Longrightarrow> entryId e = i \<and> e \<in> set es"
  by (induction es) (auto split: if_splits)

lemma find_id_None: "find (\<lambda>e. entryId e = i) es = None \<longleftrightarrow> i \<notin> entryId ` set es"
  by (induction es) auto

lemma find_own_id: "distinct (map entryId es) \<Longrightarrow> e \<in> set es \<Longrightarrow> find (\<lambda>x. entryId x = entryId e) es = Some e"
  by (induction es) (auto simp: rev_image_eqI)

lemma filter_no_id: "i \<notin> entryId ` set es \<Longrightarrow> filter (\<lambda>e. entryId e \<noteq> i) es = es"
  by (induction es) auto

lemma remove1_ids: "distinct (map entryId es) \<Longrightarrow> remove1 i (map entryId es) = map entryId (filter (\<lambda>e. entryId e \<noteq> i) es)"
  by (induction es) (auto simp: filter_no_id)

lemma represents_find: "represents st es \<longleftrightarrow> snd st = map entryId es \<and> distinct (map entryId es) \<and> (\<forall>e \<in> set es. 0 \<le> entryId e)
     \<and> (\<forall>i. fst st i = find (\<lambda>e. entryId e = i) es)"
  by (auto simp: represents_def fun_eq_iff map_of_ids)

lemma represents_index:
  "represents st es \<Longrightarrow> entryId e \<notin> entryId ` set es \<Longrightarrow> 0 \<le> entryId e \<Longrightarrow> represents (indexEntry e st) (es @ [e])"
  using find_id_None [of "entryId e" es] by (auto simp: represents_find indexEntry_def find_append_id split: option.splits)

lemma represents_fold_index:
  "represents st es \<Longrightarrow> distinct (map entryId (es @ new)) \<Longrightarrow> \<forall>e \<in> set new. 0 \<le> entryId e \<Longrightarrow>
   represents (fold indexEntry new st) (es @ new)"
proof (induction new arbitrary: st es)
  case (Cons e new)
  have "represents (indexEntry e st) (es @ [e])" using Cons.prems by (intro represents_index) auto
  then show ?case using Cons.IH [of "indexEntry e st" "es @ [e]"] Cons.prems by simp
qed simp

lemma represents_front:
  "represents st es \<Longrightarrow> entryId e = i \<Longrightarrow> 0 \<le> i \<Longrightarrow>
   represents ((fst st)(i \<mapsto> e), i # remove1 i (snd st)) (e # filter (\<lambda>x. entryId x \<noteq> i) es)"
  by (auto simp: represents_find remove1_ids find_filter_other distinct_map_filter)

definition usedEntry :: "(int \<Rightarrow> qstring option) \<Rightarrow> int \<Rightarrow> int \<Rightarrow> HistoryEntry list \<Rightarrow> HistoryEntry" where
  "usedEntry names now i es = hd (useEntry names now i es)"

lemma useEntry_split: "useEntry names now i es = usedEntry names now i es # filter (\<lambda>x. entryId x \<noteq> i) es"
  by (simp add: usedEntry_def useEntry_def Let_def)

lemma recordOne_eq:
  assumes "represents st es"
  shows "recordOne names now i st = ((fst st)(i \<mapsto> usedEntry names now i es), i # remove1 i (snd st))"
proof (cases "find (\<lambda>e. entryId e = i) es")
  case None
  then have "i \<notin> set (snd st)" "fst st i = None" using assms by (auto simp: represents_find find_id_None)
  then show ?thesis using None
    by (cases "names i") (auto simp: recordOne_def usedEntry_def useEntry_def valueOf_def noEntry_def Let_def remove1_idem split: prod.split)
next
  case (Some e)
  then have "entryId e = i" "0 \<le> entryId e" "fst st i = Some e" using find_id_props [OF Some] assms by (auto simp: represents_find)
  then show ?thesis using Some
    by (cases "names i") (auto simp: recordOne_def usedEntry_def useEntry_def valueOf_def Let_def split: prod.split)
qed

lemma usedEntry_id: "entryId (usedEntry names now i es) = i"
  by (auto simp: usedEntry_def useEntry_def Let_def split: option.splits dest: find_id_props)

lemma represents_record: "represents st es \<Longrightarrow> 0 \<le> i \<Longrightarrow> represents (recordOne names now i st) (useEntry names now i es)"
  using represents_front [OF _ usedEntry_id] by (simp add: recordOne_eq useEntry_split)

lemma represents_fold_record:
  "represents st es \<Longrightarrow> \<forall>i \<in> set ids. 0 \<le> i \<Longrightarrow> represents (fold (recordOne names now) ids st) (fold (useEntry names now) ids es)"
  by (induction ids arbitrary: st es) (auto simp: represents_record)

lemma represents_butlast:
  assumes "represents (byID, order) es" "order \<noteq> []"
  shows "represents (byID(last order := None), butlast order) (butlast es)"
proof -
  obtain es' e where es: "es = es' @ [e]" using assms by (cases es rule: rev_cases) (auto simp: represents_find)
  have "entryId e \<notin> entryId ` set es'" using assms by (auto simp: represents_find es)
  then have "find (\<lambda>x. entryId x = entryId e) es' = None" by (simp add: find_id_None)
  then show ?thesis using assms by (auto simp: represents_find es find_append_id split: option.splits)
qed

lemma represents_trim: "represents st es \<Longrightarrow> represents (trimHistory st) (take kMaxHistoryEntries es)"
proof (induction st arbitrary: es rule: trimHistory.induct)
  case (1 byID order)
  have len: "length order = length es" using "1.prems" by (simp add: represents_def)
  show ?case
  proof (cases "length order > kMaxHistoryEntries")
    case True
    then have "order \<noteq> []" by auto
    then have "represents (trimHistory (byID(last order := None), butlast order)) (take kMaxHistoryEntries (butlast es))"
      using "1.IH" [OF True represents_butlast [OF "1.prems"]] by simp
    moreover have "take kMaxHistoryEntries (butlast es) = take kMaxHistoryEntries es" using True len by (simp add: take_butlast)
    ultimately show ?thesis using True by (simp add: trimHistory.simps [of byID order])
  next
    case False
    then show ?thesis using "1.prems" len by (simp add: trimHistory.simps [of byID order])
  qed
qed

text \<open>An entry whose numbers fit their JSON form even after \<open>k\<close> more uses.\<close>

definition storable :: "nat \<Rightarrow> HistoryEntry \<Rightarrow> bool" where
  "storable k e \<longleftrightarrow> 0 \<le> entryId e \<and> entryId e < 2 ^ 31 \<and> \<bar>firstUsed e\<bar> < 2 ^ 53 \<and> \<bar>lastUsed e\<bar> < 2 ^ 53
     \<and> 0 \<le> builds e \<and> builds e + int k < 2 ^ 31 \<and> isInt32 (failures e)"

lemma entry_roundtrip: "storable k e \<Longrightarrow> entryOf (entryJson e) = e"
  by (cases e) (simp add: entryOf_def entryJson_def jat_def storable_def doubleOf_exact isInt32_def)

lemma storable_use:
  assumes "\<forall>e \<in> set es. storable (Suc k) e" "0 \<le> i" "i < 2 ^ 31" "\<bar>now\<bar> < 2 ^ 53" "Suc k < 2 ^ 31"
  shows "\<forall>e \<in> set (useEntry names now i es). storable k e"
proof -
  have mono: "storable (Suc k) e \<Longrightarrow> storable k e" for e by (simp add: storable_def)
  have hd: "storable (Suc k) e \<Longrightarrow> storable k (e\<lparr>lastUsed := now, builds := builds e + 1, entryName := n\<rparr>)" for e n
    using assms(4) by (simp add: storable_def)
  have "storable (Suc k) (noEntry\<lparr>entryId := i, firstUsed := now\<rparr>)"
    using assms(2-5) by (simp add: storable_def noEntry_def isInt32_def)
  then have "storable (Suc k) (case find (\<lambda>e. entryId e = i) es of None \<Rightarrow> noEntry\<lparr>entryId := i, firstUsed := now\<rparr> | Some e \<Rightarrow> e)"
    using assms(1) by (auto split: option.splits dest: find_id_props)
  then show ?thesis using assms(1) mono hd by (auto simp: useEntry_def Let_def)
qed

lemma storable_fold_use:
  "\<forall>e \<in> set es. storable (length ids) e \<Longrightarrow> \<forall>i \<in> set ids. 0 \<le> i \<and> i < 2 ^ 31 \<Longrightarrow> \<bar>now\<bar> < 2 ^ 53 \<Longrightarrow> length ids < 2 ^ 31 \<Longrightarrow>
   \<forall>e \<in> set (fold (useEntry names now) ids es). storable 0 e"
proof (induction ids arbitrary: es)
  case (Cons i ids)
  have "\<forall>e \<in> set (useEntry names now i es). storable (length ids) e" using Cons.prems by (intro storable_use) auto
  then show ?case using Cons.IH [of "useEntry names now i es"] Cons.prems by simp
qed simp

text \<open>C20: the history refines an LRU list of entries: recording a build moves each member to the front with its new time and count (a new
  entry for a profile not yet in the list), leaves the others in their order, and then keeps the 2000 most recently used. The index by
  id and the JSON text in between change nothing, as long as the numbers fit their JSON form.\<close>

theorem history_refines_lru:
  assumes "distinct (map entryId (HistoryEntries s))" "\<forall>e \<in> set (HistoryEntries s). storable (length ids) e"
    "\<forall>i \<in> set ids. 0 \<le> i \<and> i < 2 ^ 31" "\<bar>now\<bar> < 2 ^ 53" "length ids < 2 ^ 31"
  shows "HistoryEntries (RecordHistory ids names now s)
     = take kMaxHistoryEntries (fold (useEntry names now) ids (HistoryEntries s))"
proof -
  let ?es = "fold (useEntry names now) ids (HistoryEntries s)"
  have "represents (fold indexEntry (HistoryEntries s) (Map.empty, [])) ([] @ HistoryEntries s)"
    using assms(1,2) by (intro represents_fold_index) (auto simp: represents_def storable_def)
  then have "represents (fold (recordOne names now) ids (fold indexEntry (HistoryEntries s) (Map.empty, []))) ?es"
    using assms(3) represents_fold_record by simp
  then have "represents (trimHistory (fold (recordOne names now) ids (fold indexEntry (HistoryEntries s) (Map.empty, [])))) (take kMaxHistoryEntries ?es)"
    by (rule represents_trim)
  moreover obtain byID order where t: "trimHistory (fold (recordOne names now) ids (fold indexEntry (HistoryEntries s) (Map.empty, []))) = (byID, order)"
    by fastforce
  ultimately have r: "order = map entryId (take kMaxHistoryEntries ?es)" "distinct (map entryId (take kMaxHistoryEntries ?es))"
    "\<And>i. byID i = find (\<lambda>e. entryId e = i) (take kMaxHistoryEntries ?es)"
    by (auto simp: represents_find)
  have "historyOf (RecordHistory ids names now s) = map entryJson (take kMaxHistoryEntries ?es)"
    using r by (auto simp: RecordHistory_def t valueOf_def find_own_id)
  moreover have "\<forall>e \<in> set (take kMaxHistoryEntries ?es). storable 0 e"
    using storable_fold_use [OF assms(2-5)] by (auto dest: in_set_takeD)
  then have "map entryOf (map entryJson (take kMaxHistoryEntries ?es)) = take kMaxHistoryEntries ?es"
    "filter (\<lambda>e. 0 \<le> entryId e) (take kMaxHistoryEntries ?es) = take kMaxHistoryEntries ?es"
    by (auto intro!: map_idI entry_roundtrip simp: filter_id_conv) (simp add: storable_def)
  ultimately show ?thesis by (simp add: HistoryEntries_def)
qed

definition seenBefore :: autoSelector where
  "seenBefore = defaultSelector\<lparr>historyOf :=
     [entryJson \<lparr>entryId = 7, firstUsed = 10, lastUsed = 20, builds = 2, failures = 1, entryName = [65]\<rparr>,
      entryJson \<lparr>entryId = 5, firstUsed = 10, lastUsed = 10, builds = 1, failures = 0, entryName = [66]\<rparr>]\<rparr>"

lemma seenBefore_entries: "HistoryEntries seenBefore =
  [\<lparr>entryId = 7, firstUsed = 10, lastUsed = 20, builds = 2, failures = 1, entryName = [65]\<rparr>,
   \<lparr>entryId = 5, firstUsed = 10, lastUsed = 10, builds = 1, failures = 0, entryName = [66]\<rparr>]"
  by (simp add: seenBefore_def HistoryEntries_def entry_roundtrip [of 0] storable_def isInt32_def)

theorem history_refines_lru_witness:
  "HistoryEntries (RecordHistory [5, 3] Map.empty 30 seenBefore) =
     [\<lparr>entryId = 3, firstUsed = 30, lastUsed = 30, builds = 1, failures = 0, entryName = []\<rparr>,
      \<lparr>entryId = 5, firstUsed = 10, lastUsed = 30, builds = 2, failures = 0, entryName = [66]\<rparr>,
      \<lparr>entryId = 7, firstUsed = 10, lastUsed = 20, builds = 2, failures = 1, entryName = [65]\<rparr>]"
  using history_refines_lru [of seenBefore "[5, 3]" 30 Map.empty]
  by (simp add: seenBefore_entries storable_def isInt32_def useEntry_def noEntry_def kMaxHistoryEntries_def Let_def)

end
