(* ===== verification/Auto_Selector.thy ===== *)
theory Auto_Selector
  imports Auto_Selector_Config Stable_Sort "HOL-Library.Sublist"
begin

text \<open>
  The membership plan of an auto selector, \<^verbatim>\<open>src/src/configs/AutoSelectorPlan.cpp\<close>: which profiles of the tracked groups may take part, in which
  order they are ranked, and which of them are built.

  The repositories are functions from ids to values (\<open>None\<close> is the null pointer), the clock readings are arguments, and what the code asks Qt
  (whether a pattern is valid and matches, upper case, whether a configuration parses to a non-empty object) are the fields of
  \<open>PlanEnv\<close>. \<open>QMap\<close> of skips is a count per reason listed in the order of the enumeration; a \<open>QSet\<close> is a list or a set. The operations that
  normalise the settings in place return them too.

  Results: the plan accounts for every profile of the groups exactly once; the pool is a duplicate-free selection of eligible members, the
  largest the cap allows, in the persisted order followed by newcomers from fastest to untested to failed; the build is a prefix of it; a
  selector whose members all failed keeps them.
\<close>

datatype AutoSelectorSkip =
    SkipNone | Missing | MetaType | CoreTransitions | ExtraCore | FullConfig | Malformed | Tailscale | ManagementEndpoint
  | NameFilter | CountryFilter | Unavailable | XrayFullChained

record CustomOut =
  customType :: qstring
  customConfig :: qstring

record OutboundInfo =
  IsExtraCore :: bool
  IsXray :: bool
  IsXrayFullConfig :: bool
  DisplayName :: qstring
  asCustom :: "CustomOut option"
  asAutoSelector :: "autoSelector option"

record ProfileInfo =
  profileId :: int
  profileType :: qstring
  latency :: int
  latency_at :: int
  test_country :: qstring
  outbound :: "OutboundInfo option"

record GroupInfo =
  front_proxy_id :: int
  landing_proxy_id :: int
  groupProfiles :: "int list"

record PlanEnv =
  GetProfile :: "int \<Rightarrow> ProfileInfo option"
  GetGroup :: "int \<Rightarrow> GroupInfo option"
  patternValid :: "qstring \<Rightarrow> bool"
  patternMatches :: "qstring \<Rightarrow> qstring \<Rightarrow> bool"
  upper :: "qstring \<Rightarrow> qstring"
  parsesEmpty :: "qstring \<Rightarrow> bool"

subsection \<open>Filters and eligibility\<close>

record MemberFilters =
  nameRe :: qstring
  hasName :: bool
  countries :: "qstring list"
  excludedCountries :: "qstring list"

definition countryItem :: "PlanEnv \<Rightarrow> qstring \<Rightarrow> MemberFilters \<Rightarrow> MemberFilters" where
  "countryItem env item f =
     (let code = trimmed item;
          exclude = startsWith 33 code;
          code = (if exclude then trimmed (drop 1 code) else code)
      in if code = [] then f
         else if exclude then f\<lparr>excludedCountries := List.insert (upper env code) (excludedCountries f)\<rparr>
         else f\<lparr>countries := List.insert (upper env code) (countries f)\<rparr>)"

definition buildFilters :: "PlanEnv \<Rightarrow> autoSelector \<Rightarrow> MemberFilters" where
  "buildFilters env s =
     (let f0 = \<lparr>nameRe = [], hasName = False, countries = [], excludedCountries = []\<rparr>;
          f1 = (if trimmed (nameFilter s) \<noteq> [] then f0\<lparr>nameRe := nameFilter s, hasName := patternValid env (nameFilter s)\<rparr> else f0)
      in fold (countryItem env) (filter (\<lambda>p. p \<noteq> []) (qsplit u_comma (countryFilter s))) f1)"

definition hasFreshResult :: "ProfileInfo option \<Rightarrow> autoSelector \<Rightarrow> int \<Rightarrow> bool" where
  "hasFreshResult member s now =
     (case member of
        None \<Rightarrow> False
      | Some m \<Rightarrow>
          if latency m = 0 then False
          else if resultValidityMins s \<le> 0 then False
          else if latency_at m \<le> 0 then False
          else now - latency_at m \<le> resultValidityMins s * 60)"

definition countryBlocked :: "PlanEnv \<Rightarrow> MemberFilters \<Rightarrow> ProfileInfo \<Rightarrow> bool" where
  "countryBlocked env f m \<longleftrightarrow>
     (countries f \<noteq> [] \<or> excludedCountries f \<noteq> []) \<and>
     (let country = upper env (trimmed (test_country m))
      in country = [] \<or> country \<in> set (excludedCountries f) \<or> (countries f \<noteq> [] \<and> country \<notin> set (countries f)))"

definition customSkip :: "PlanEnv \<Rightarrow> OutboundInfo \<Rightarrow> AutoSelectorSkip" where
  "customSkip env out =
     (case asCustom out of
        None \<Rightarrow> Missing
      | Some c \<Rightarrow>
          if customType c \<noteq> qs ''outbound'' \<and> customType c \<noteq> qs ''xrayoutbound'' \<and> customType c \<noteq> qs ''xrayfullconfig'' then FullConfig
          else if parsesEmpty env (customConfig c) then Malformed
          else SkipNone)"

definition eligibilityOf :: "PlanEnv \<Rightarrow> ProfileInfo option \<Rightarrow> autoSelector \<Rightarrow> MemberFilters \<Rightarrow> int \<Rightarrow> AutoSelectorSkip" where
  "eligibilityOf env member s f now =
     (case member of
        None \<Rightarrow> Missing
      | Some m \<Rightarrow>
          (case outbound m of
             None \<Rightarrow> Missing
           | Some out \<Rightarrow>
               if profileType m = qs ''chain'' \<or> profileType m = qs ''autoselector'' then MetaType
               else if profileType m = qs ''tailscale'' then Tailscale
               else if profileType m = qs ''openvpn'' \<or> profileType m = qs ''openconnect'' then ManagementEndpoint
               else if IsExtraCore out then ExtraCore
               else if profileType m = qs ''custom'' \<and> customSkip env out \<noteq> SkipNone then customSkip env out
               else if hasName f \<and> \<not> patternMatches env (nameRe f) (DisplayName out) then NameFilter
               else if countryBlocked env f m then CountryFilter
               else if excludeUnavailable s \<and> latency m < 0 \<and> hasFreshResult member s now then Unavailable
               else SkipNone))"

definition coreTransitions :: "ProfileInfo option \<Rightarrow> ProfileInfo option \<Rightarrow> ProfileInfo option \<Rightarrow> nat" where
  "coreTransitions landing member front =
     fst (fold (\<lambda>hop (transitions, inXray).
            case hop of
              None \<Rightarrow> (transitions, inXray)
            | Some p \<Rightarrow> (case outbound p of
                 None \<Rightarrow> (transitions, inXray)
               | Some out \<Rightarrow> (if IsXray out \<noteq> inXray then Suc transitions else transitions, IsXray out)))
          [landing, member, front] (0, False))"

definition xrayFullConfigFitsChain :: "ProfileInfo option \<Rightarrow> ProfileInfo option \<Rightarrow> bool" where
  "xrayFullConfigFitsChain landing front =
     (if front \<noteq> None then False
      else case landing of
             None \<Rightarrow> True
           | Some l \<Rightarrow> (case outbound l of
                 None \<Rightarrow> True
               | Some out \<Rightarrow> \<not> IsXray out \<and> \<not> IsXrayFullConfig out \<and> \<not> IsExtraCore out))"

subsection \<open>Order by latency\<close>

text \<open>\<open>QList::mid(0, n)\<close>: a negative length is the rest of the list.\<close>

definition mid0 :: "int \<Rightarrow> 'a list \<Rightarrow> 'a list" where
  "mid0 n xs = (if n < 0 then xs else take (nat n) xs)"

definition latencyRank :: "int \<Rightarrow> nat" where
  "latencyRank l = (if l > 0 then 0 else if l = 0 then 1 else 2)"

definition effectiveLatency :: "ProfileInfo option \<Rightarrow> autoSelector \<Rightarrow> int \<Rightarrow> int" where
  "effectiveLatency member s now =
     (if hasFreshResult member s now then (case member of None \<Rightarrow> 0 | Some m \<Rightarrow> latency m) else 0)"

definition effectiveLatencyOf :: "PlanEnv \<Rightarrow> int \<Rightarrow> autoSelector \<Rightarrow> int \<Rightarrow> int" where
  "effectiveLatencyOf env i s now = effectiveLatency (GetProfile env i) s now"

definition byLatency :: "int \<Rightarrow> int \<Rightarrow> bool" where
  "byLatency l r =
     (if latencyRank l \<noteq> latencyRank r then latencyRank l < latencyRank r
      else if latencyRank l = 0 then l < r
      else False)"

definition latencyKey :: "PlanEnv \<Rightarrow> autoSelector \<Rightarrow> int \<Rightarrow> int list \<Rightarrow> int \<Rightarrow> int" where
  "latencyKey env s now untrusted i = (if i \<in> set untrusted then 0 else effectiveLatencyOf env i s now)"

definition sortByLatency :: "PlanEnv \<Rightarrow> autoSelector \<Rightarrow> int \<Rightarrow> int list \<Rightarrow> int list \<Rightarrow> int list" where
  "sortByLatency env s now untrusted ids =
     stableSort (\<lambda>l r. byLatency (latencyKey env s now untrusted l) (latencyKey env s now untrusted r)) ids"

subsection \<open>Membership\<close>

record AutoSelectorPlan =
  planPool :: "int list"
  planBuild :: "int list"
  membersInGroups :: nat
  missingGroups :: nat
  eligible :: nat
  rankedByTest :: nat
  keptUnavailable :: nat
  skipped :: "(AutoSelectorSkip \<times> nat) list"
  truncated :: bool
  poolCapUsed :: int
  buildLimitUsed :: int
  needsRanking :: bool
  planError :: qstring

definition emptyPlan :: AutoSelectorPlan where
  "emptyPlan = \<lparr>planPool = [], planBuild = [], membersInGroups = 0, missingGroups = 0, eligible = 0, rankedByTest = 0, keptUnavailable = 0,
     skipped = [], truncated = False, poolCapUsed = 0, buildLimitUsed = 0, needsRanking = False, planError = []\<rparr>"

definition skippedCount :: "AutoSelectorPlan \<Rightarrow> nat" where
  "skippedCount plan = sum_list (map snd (skipped plan))"

record Scan =
  members :: "int list"
  unavailable :: "int list"
  seen :: "int list"
  skips :: "AutoSelectorSkip \<Rightarrow> nat"
  inGroups :: nat
  ranked :: nat

definition countSkip :: "AutoSelectorSkip \<Rightarrow> Scan \<Rightarrow> Scan" where
  "countSkip r sc = sc\<lparr>skips := (skips sc)(r := skips sc r + 1)\<rparr>"

definition chainSkip :: "ProfileInfo option \<Rightarrow> ProfileInfo option \<Rightarrow> ProfileInfo option \<Rightarrow> AutoSelectorSkip option" where
  "chainSkip landing member front =
     (let full = (case member of None \<Rightarrow> False | Some m \<Rightarrow> (case outbound m of None \<Rightarrow> False | Some out \<Rightarrow> IsXrayFullConfig out))
      in if full then (if \<not> xrayFullConfigFitsChain landing front then Some XrayFullChained else None)
         else if coreTransitions landing member front > 2 then Some CoreTransitions else None)"

definition scanMember :: "PlanEnv \<Rightarrow> int \<Rightarrow> autoSelector \<Rightarrow> MemberFilters \<Rightarrow> int \<Rightarrow> ProfileInfo option \<Rightarrow> ProfileInfo option \<Rightarrow> int \<Rightarrow> Scan \<Rightarrow> Scan" where
  "scanMember env self s f now landing front i sc =
     (if i = self \<or> i \<in> set (seen sc) then sc
      else
        let member = GetProfile env i;
            sc = sc\<lparr>seen := i # seen sc, inGroups := inGroups sc + 1\<rparr>;
            skip = eligibilityOf env member s f now
        in if skip \<noteq> SkipNone \<and> skip \<noteq> Unavailable then countSkip skip sc
           else case chainSkip landing member front of
                  Some r \<Rightarrow> countSkip r sc
                | None \<Rightarrow>
                    if skip = Unavailable then sc\<lparr>unavailable := unavailable sc @ [i]\<rparr>
                    else sc\<lparr>members := members sc @ [i],
                            ranked := (if effectiveLatency member s now > 0 then ranked sc + 1 else ranked sc)\<rparr>)"

definition proxyOf :: "PlanEnv \<Rightarrow> int \<Rightarrow> ProfileInfo option" where
  "proxyOf env i = (if i \<ge> 0 then GetProfile env i else None)"

definition scanGroup :: "PlanEnv \<Rightarrow> int \<Rightarrow> autoSelector \<Rightarrow> MemberFilters \<Rightarrow> int \<Rightarrow> GroupInfo \<Rightarrow> Scan \<Rightarrow> Scan" where
  "scanGroup env self s f now g sc =
     fold (scanMember env self s f now (proxyOf env (landing_proxy_id g)) (proxyOf env (front_proxy_id g))) (groupProfiles g) sc"

definition emptyScan :: Scan where
  "emptyScan = \<lparr>members = [], unavailable = [], seen = [], skips = (\<lambda>_. 0), inGroups = 0, ranked = 0\<rparr>"

definition reasons :: "AutoSelectorSkip list" where
  "reasons = [SkipNone, Missing, MetaType, CoreTransitions, ExtraCore, FullConfig, Malformed, Tailscale, ManagementEndpoint, NameFilter,
     CountryFilter, Unavailable, XrayFullChained]"

definition skipList :: "(AutoSelectorSkip \<Rightarrow> nat) \<Rightarrow> (AutoSelectorSkip \<times> nat) list" where
  "skipList sk = filter (\<lambda>p. snd p \<noteq> 0) (map (\<lambda>r. (r, sk r)) reasons)"

definition eligibleMembers :: "PlanEnv \<Rightarrow> int \<Rightarrow> autoSelector \<Rightarrow> int \<Rightarrow> AutoSelectorPlan \<Rightarrow> int list \<times> AutoSelectorPlan" where
  "eligibleMembers env self s now plan =
     (if gids s = [] then ([], plan\<lparr>planError := qs ''Auto selector tracks no group''\<rparr>)
      else
        let found = map (GetGroup env) (gids s);
            plan = plan\<lparr>missingGroups := missingGroups plan + length (filter (\<lambda>g. g = None) found)\<rparr>;
            gs = List.map_filter id found
        in if gs = [] then ([], plan\<lparr>planError := qs ''Auto selector points at a group that no longer exists''\<rparr>)
           else
             let sc = fold (scanGroup env self s (buildFilters env s) now) gs emptyScan;
                 plan = plan\<lparr>membersInGroups := membersInGroups plan + inGroups sc, rankedByTest := rankedByTest plan + ranked sc\<rparr>
             in if members sc = [] \<and> unavailable sc \<noteq> [] then
                  (unavailable sc, plan\<lparr>keptUnavailable := length (unavailable sc), skipped := skipped plan @ skipList (skips sc)\<rparr>)
                else
                  (members sc,
                   plan\<lparr>skipped := skipped plan @ skipList
                     (if unavailable sc \<noteq> [] then (skips sc)(Unavailable := skips sc Unavailable + length (unavailable sc)) else skips sc)\<rparr>))"

definition orderMembers :: "PlanEnv \<Rightarrow> int list \<Rightarrow> int list \<Rightarrow> autoSelector \<Rightarrow> int \<Rightarrow> int list" where
  "orderMembers env ms persistedPool s now =
     (let ordered = fold (\<lambda>i placed. if i \<notin> set ms \<or> i \<in> set placed then placed else placed @ [i]) persistedPool [];
          newcomers = filter (\<lambda>i. i \<notin> set ordered) ms
      in ordered @ sortByLatency env s now [] newcomers)"

subsection \<open>The operations\<close>

definition selectorOf :: "ProfileInfo option \<Rightarrow> autoSelector option" where
  "selectorOf ent = (case ent of None \<Rightarrow> None | Some e \<Rightarrow> (case outbound e of None \<Rightarrow> None | Some out \<Rightarrow> asAutoSelector out))"

definition PlanSelector :: "PlanEnv \<Rightarrow> int \<Rightarrow> int \<Rightarrow> int \<Rightarrow> autoSelector \<Rightarrow> AutoSelectorPlan" where
  "PlanSelector env now1 now2 self s =
     (let plan = emptyPlan\<lparr>poolCapUsed := poolCap s, buildLimitUsed := buildLimit s\<rparr>;
          (ms, plan) = eligibleMembers env self s now1 plan
      in if planError plan \<noteq> [] then plan
         else
           let plan = plan\<lparr>eligible := length ms\<rparr>
           in if ms = [] then plan\<lparr>planError := qs ''Auto selector has no usable members''\<rparr>
              else
                let ordered = orderMembers env ms (pool s) s now2;
                    cut = (int (length ordered) > poolCap s);
                    ordered = (if cut then mid0 (poolCap s) ordered else ordered);
                    build = mid0 (min (int (length ordered)) (buildLimit s)) ordered;
                    unranked = length (filter (\<lambda>i. effectiveLatencyOf env i s now2 = 0) build)
                in plan\<lparr>truncated := cut, planPool := ordered, planBuild := build,
                        needsRanking := (int (length ordered) > buildLimit s \<and> unranked > 0)\<rparr>)"

definition PlanAutoSelector :: "PlanEnv \<Rightarrow> int \<Rightarrow> int \<Rightarrow> ProfileInfo option \<Rightarrow> AutoSelectorPlan \<times> autoSelector option" where
  "PlanAutoSelector env now1 now2 ent =
     (case ent of
        None \<Rightarrow> (emptyPlan\<lparr>planError := qs ''Null profile passed to PlanAutoSelector''\<rparr>, None)
      | Some e \<Rightarrow>
          (case selectorOf ent of
             None \<Rightarrow> (emptyPlan\<lparr>planError := qs ''Profile is not an auto selector, data is corrupted''\<rparr>, None)
           | Some s \<Rightarrow> (PlanSelector env now1 now2 (profileId e) (Normalize s), Some (Normalize s))))"

definition AutoSelectorRankingCandidates :: "PlanEnv \<Rightarrow> int \<Rightarrow> ProfileInfo option \<Rightarrow> int list \<times> autoSelector option" where
  "AutoSelectorRankingCandidates env now ent =
     (case (ent, selectorOf ent) of
        (Some e, Some s) \<Rightarrow> (fst (eligibleMembers env (profileId e) (Normalize s) now emptyPlan), Some (Normalize s))
      | _ \<Rightarrow> ([], None))"

definition AutoSelectorUnmeasuredCandidates ::
    "PlanEnv \<Rightarrow> int \<Rightarrow> int \<Rightarrow> ProfileInfo option \<Rightarrow> int list \<Rightarrow> (int list \<times> nat) \<times> autoSelector option" where
  "AutoSelectorUnmeasuredCandidates env now1 now2 ent stale =
     (case AutoSelectorRankingCandidates env now1 ent of
        (_, None) \<Rightarrow> (([], 0), None)
      | (candidates, Some s) \<Rightarrow>
          (fold (\<lambda>i (needed, working).
              if i \<in> set stale then (needed @ [i], working)
              else if effectiveLatencyOf env i s now2 = 0 then (needed @ [i], working)
              else if effectiveLatencyOf env i s now2 > 0 then (needed, Suc working)
              else (needed, working)) candidates ([], 0), Some s))"

definition AutoSelectorMemberWorks :: "int \<Rightarrow> ProfileInfo option \<Rightarrow> ProfileInfo option \<Rightarrow> bool" where
  "AutoSelectorMemberWorks now ent member =
     (case selectorOf ent of None \<Rightarrow> False | Some s \<Rightarrow> effectiveLatency member s now > 0)"

definition AutoSelectorStartQuorum :: "ProfileInfo option \<Rightarrow> int \<times> autoSelector option" where
  "AutoSelectorStartQuorum ent =
     (case selectorOf ent of
        None \<Rightarrow> (0, None)
      | Some s \<Rightarrow> let n = Normalize s in (min (max (expectedReady n) (activeSize n)) (buildLimit n), Some n))"

definition AutoSelectorBuildChanged :: "PlanEnv \<Rightarrow> int \<Rightarrow> int \<Rightarrow> int \<Rightarrow> ProfileInfo option \<Rightarrow> bool \<times> autoSelector option" where
  "AutoSelectorBuildChanged env now1 now2 now3 ent =
     (case PlanAutoSelector env now1 now2 ent of
        (_, None) \<Rightarrow> (False, None)
      | (plan, Some s) \<Rightarrow>
          (planError plan = []
           \<and> (list_ex (\<lambda>i. i \<notin> set (planBuild plan)) (lastBuilt s)
             \<or> list_ex (\<lambda>i. i \<notin> set (lastBuilt s) \<and> effectiveLatencyOf env i s now3 > 0) (planBuild plan)), Some s))"

definition RerankAutoSelectorPool :: "PlanEnv \<Rightarrow> int \<Rightarrow> int \<Rightarrow> int \<Rightarrow> ProfileInfo option \<Rightarrow> int list \<Rightarrow> int list \<times> autoSelector option" where
  "RerankAutoSelectorPool env now1 now2 now3 ent untrusted =
     (case (ent, selectorOf ent) of
        (Some e, Some s) \<Rightarrow>
          let ms = fst (eligibleMembers env (profileId e) s now1 emptyPlan);
              ms = sortByLatency env s now2 untrusted ms;
              ms = (if int (length ms) > poolCap s then mid0 (poolCap s) ms else ms)
          in (ms, Some (s\<lparr>pool := ms, poolRankedAt := now3\<rparr>))
      | _ \<Rightarrow> ([], None))"

subsection \<open>The scan\<close>

interpretation latencyOrder: strict_weak_order byLatency
  by unfold_locales (auto simp: byLatency_def latencyRank_def split: if_splits)

interpretation memberOrder: strict_weak_order "\<lambda>l r. byLatency (latencyKey env s now untrusted l) (latencyKey env s now untrusted r)"
  for env s now untrusted
  by (rule strict_weak_key) (rule latencyOrder.strict_weak_order_axioms)

definition skipTotal :: "(AutoSelectorSkip \<Rightarrow> nat) \<Rightarrow> nat" where
  "skipTotal sk = sum_list (map sk reasons)"

lemma skipTotal_list: "sum_list (map snd (skipList sk)) = skipTotal sk"
  by (simp add: skipTotal_def skipList_def reasons_def)

lemma skipTotal_add: "skipTotal (sk(r := sk r + n)) = skipTotal sk + n"
  by (cases r) (simp_all add: skipTotal_def reasons_def)

text \<open>What the scan has established about the profiles it has seen.\<close>

definition scanCounted :: "PlanEnv \<Rightarrow> int \<Rightarrow> autoSelector \<Rightarrow> MemberFilters \<Rightarrow> int \<Rightarrow> Scan \<Rightarrow> bool" where
  "scanCounted env self s f now sc \<longleftrightarrow>
     distinct (seen sc) \<and> self \<notin> set (seen sc) \<and> inGroups sc = length (seen sc)
     \<and> distinct (members sc) \<and> distinct (unavailable sc) \<and> set (members sc) \<subseteq> set (seen sc) \<and> set (unavailable sc) \<subseteq> set (seen sc)
     \<and> inGroups sc = length (members sc) + length (unavailable sc) + skipTotal (skips sc)
     \<and> (\<forall>i \<in> set (members sc). eligibilityOf env (GetProfile env i) s f now = SkipNone)
     \<and> (\<forall>i \<in> set (unavailable sc). eligibilityOf env (GetProfile env i) s f now = Unavailable)"

lemma scanned_empty: "scanCounted env self s f now emptyScan"
  by (simp add: scanCounted_def emptyScan_def skipTotal_def reasons_def)

lemma skipTotal_Suc: "skipTotal (sk(r := Suc (sk r))) = Suc (skipTotal sk)"
  using skipTotal_add [of sk r 1] by simp

lemma scanned_outcomes:
  fixes sc :: Scan
  defines "sc' \<equiv> \<lambda>i. sc\<lparr>seen := i # seen sc, inGroups := inGroups sc + 1\<rparr>"
  assumes "scanCounted env self s f now sc" "i \<noteq> self" "i \<notin> set (seen sc)"
  shows "scanCounted env self s f now (countSkip r (sc' i))"
    and "eligibilityOf env (GetProfile env i) s f now = Unavailable \<Longrightarrow> scanCounted env self s f now ((sc' i)\<lparr>unavailable := unavailable sc @ [i]\<rparr>)"
    and "eligibilityOf env (GetProfile env i) s f now = SkipNone \<Longrightarrow> scanCounted env self s f now ((sc' i)\<lparr>members := members sc @ [i], ranked := k\<rparr>)"
proof -
  have "i \<notin> set (members sc)" "i \<notin> set (unavailable sc)" using assms(2,4) by (auto simp: scanCounted_def)
  with assms(2-4) show "scanCounted env self s f now (countSkip r (sc' i))"
    "eligibilityOf env (GetProfile env i) s f now = Unavailable \<Longrightarrow> scanCounted env self s f now ((sc' i)\<lparr>unavailable := unavailable sc @ [i]\<rparr>)"
    "eligibilityOf env (GetProfile env i) s f now = SkipNone \<Longrightarrow> scanCounted env self s f now ((sc' i)\<lparr>members := members sc @ [i], ranked := k\<rparr>)"
    by (simp_all add: scanCounted_def sc'_def countSkip_def skipTotal_Suc subset_insertI2)
qed

lemma scanned_member:
  "scanCounted env self s f now sc \<Longrightarrow> scanCounted env self s f now (scanMember env self s f now landing front i sc)"
  using scanned_outcomes [of env self s f now sc i] scanned_outcomes(3) [of env self s f now sc i "ranked sc"]
  by (simp add: scanMember_def Let_def split: option.split)

lemma scan_keeps_group: "scanCounted env self s f now sc \<Longrightarrow> scanCounted env self s f now (scanGroup env self s f now g sc)"
  unfolding scanGroup_def by (rule fold_invariant [where Q = "\<lambda>_. True"]) (auto intro: scanned_member)

lemma scanned_groups: "scanCounted env self s f now sc \<Longrightarrow> scanCounted env self s f now (fold (scanGroup env self s f now) gs sc)"
  by (rule fold_invariant [where Q = "\<lambda>_. True"]) (auto intro: scan_keeps_group)

lemma seen_member: "set (seen (scanMember env self s f now landing front i sc)) = set (seen sc) \<union> ({i} - {self})"
  by (auto simp: scanMember_def countSkip_def Let_def split: option.splits)

lemma seen_members: "set (seen (fold (scanMember env self s f now landing front) is sc)) = set (seen sc) \<union> (set is - {self})"
  by (induction "is" arbitrary: sc) (auto simp: seen_member)

lemma seen_groups: "set (seen (fold (scanGroup env self s f now) gs sc)) = set (seen sc) \<union> ((\<Union>g \<in> set gs. set (groupProfiles g)) - {self})"
  by (induction gs arbitrary: sc) (auto simp: scanGroup_def seen_members)

subsection \<open>The members\<close>

definition trackedProfiles :: "PlanEnv \<Rightarrow> autoSelector \<Rightarrow> int set" where
  "trackedProfiles env s = (\<Union>gid \<in> set (gids s). case GetGroup env gid of None \<Rightarrow> {} | Some g \<Rightarrow> set (groupProfiles g))"

lemma tracked_groups: "(\<Union>g \<in> set (List.map_filter id (map (GetGroup env) (gids s))). set (groupProfiles g)) = trackedProfiles env s"
  by (force simp: trackedProfiles_def map_filter_def split: option.splits)

definition mayJoin :: "PlanEnv \<Rightarrow> autoSelector \<Rightarrow> int \<Rightarrow> int \<Rightarrow> AutoSelectorSkip \<Rightarrow> bool" where
  "mayJoin env s now i why \<longleftrightarrow> eligibilityOf env (GetProfile env i) s (buildFilters env s) now = why"

lemma eligibleMembers_facts:
  assumes "eligibleMembers env self s now plan = (ms, plan')"
    and "membersInGroups plan = 0" "skipped plan = []" "keptUnavailable plan = 0"
  shows "distinct ms \<and> set ms \<subseteq> trackedProfiles env s - {self}"
    and "membersInGroups plan' = length ms + skippedCount plan'"
    and "membersInGroups plan' = card (trackedProfiles env s - {self})"
    and "if keptUnavailable plan' = 0 then \<forall>i \<in> set ms. mayJoin env s now i SkipNone
         else keptUnavailable plan' = length ms \<and> (\<forall>i \<in> set ms. mayJoin env s now i Unavailable)"
proof -
  let ?gs = "List.map_filter id (map (GetGroup env) (gids s))"
  define sc where "sc = fold (scanGroup env self s (buildFilters env s) now) ?gs emptyScan"
  have sc: "scanCounted env self s (buildFilters env s) now sc" unfolding sc_def by (intro scanned_groups scanned_empty)
  have seen: "set (seen sc) = trackedProfiles env s - {self}"
    unfolding sc_def seen_groups tracked_groups by (simp add: emptyScan_def)
  then have card: "inGroups sc = card (trackedProfiles env s - {self})" using sc distinct_card [of "seen sc"] by (simp add: scanCounted_def)
  have none: "gids s = [] \<or> ?gs = [] \<Longrightarrow> trackedProfiles env s = {}" using tracked_groups [of env s] by (auto simp: trackedProfiles_def)
  consider "gids s = [] \<or> ?gs = []"
    | "gids s \<noteq> []" "?gs \<noteq> []" "members sc = []" "unavailable sc \<noteq> []"
    | "gids s \<noteq> []" "?gs \<noteq> []" "members sc \<noteq> [] \<or> unavailable sc = []" by blast
  note cases = this
  show "distinct ms \<and> set ms \<subseteq> trackedProfiles env s - {self}"
    using assms sc seen by (cases rule: cases) (auto simp: eligibleMembers_def Let_def sc_def [symmetric] scanCounted_def split: if_splits)
  show "membersInGroups plan' = length ms + skippedCount plan'"
    using assms sc by (cases rule: cases)
      (auto simp: eligibleMembers_def Let_def sc_def [symmetric] scanCounted_def skippedCount_def skipTotal_list skipTotal_add split: if_splits)
  show "membersInGroups plan' = card (trackedProfiles env s - {self})"
    using assms card none by (cases rule: cases) (auto simp: eligibleMembers_def Let_def sc_def [symmetric] split: if_splits)
  show "if keptUnavailable plan' = 0 then \<forall>i \<in> set ms. mayJoin env s now i SkipNone
        else keptUnavailable plan' = length ms \<and> (\<forall>i \<in> set ms. mayJoin env s now i Unavailable)"
    using assms sc by (cases rule: cases) (auto simp: eligibleMembers_def Let_def sc_def [symmetric] scanCounted_def mayJoin_def split: if_splits)
qed

subsection \<open>The order\<close>

definition keepFirst :: "int list \<Rightarrow> int list \<Rightarrow> int list" where
  "keepFirst ms persisted = fold (\<lambda>i placed. if i \<notin> set ms \<or> i \<in> set placed then placed else placed @ [i]) persisted []"

lemma keepFirst_snoc: "keepFirst ms (xs @ [x]) = (if x \<notin> set ms \<or> x \<in> set (keepFirst ms xs) then keepFirst ms xs else keepFirst ms xs @ [x])"
  by (simp add: keepFirst_def)

lemma set_keepFirst: "set (keepFirst ms xs) = set xs \<inter> set ms"
  by (induction xs rule: rev_induct) (auto simp: keepFirst_snoc, simp_all add: keepFirst_def)

lemma distinct_keepFirst: "distinct (keepFirst ms xs)"
  by (induction xs rule: rev_induct) (auto simp: keepFirst_snoc, simp_all add: keepFirst_def)

lemma orderMembers_eq:
  "orderMembers env ms persisted s now = keepFirst ms persisted @ sortByLatency env s now [] (filter (\<lambda>i. i \<notin> set persisted) ms)"
proof -
  have "filter (\<lambda>i. i \<notin> set (keepFirst ms persisted)) ms = filter (\<lambda>i. i \<notin> set persisted) ms"
    by (rule filter_cong) (auto simp: set_keepFirst)
  then show ?thesis by (simp add: orderMembers_def keepFirst_def Let_def)
qed

lemma orderMembers_perm:
  assumes "distinct ms"
  shows "distinct (orderMembers env ms persisted s now) \<and> set (orderMembers env ms persisted s now) = set ms
    \<and> length (orderMembers env ms persisted s now) = length ms"
proof -
  have "distinct (orderMembers env ms persisted s now)" "set (orderMembers env ms persisted s now) = set ms"
    using assms by (auto simp: orderMembers_eq sortByLatency_def set_keepFirst distinct_keepFirst)
  then show ?thesis using assms distinct_card by metis
qed

lemma subseq_keepFirst: "subseq (keepFirst ms xs) xs"
proof (induction xs rule: rev_induct)
  case (snoc x xs)
  then show ?case by (auto simp: keepFirst_snoc intro: list_emb_append_mono subseq_append_le_same_iff [THEN iffD2])
qed (simp add: keepFirst_def)

subsection \<open>The plan\<close>

lemma planError_kept:
  "eligibleMembers env self s now plan = (ms, plan') \<Longrightarrow> planError plan = [] \<Longrightarrow> planError plan' \<noteq> [] \<Longrightarrow> ms = []"
  by (auto simp: eligibleMembers_def Let_def split: if_splits)

lemma eligible_zero: "eligibleMembers env self s now plan = (ms, plan') \<Longrightarrow> eligible plan' = eligible plan"
  by (auto simp: eligibleMembers_def Let_def split: if_splits)

lemma PlanSelector_counts:
  "membersInGroups (PlanSelector env t1 t2 self s) = eligible (PlanSelector env t1 t2 self s) + skippedCount (PlanSelector env t1 t2 self s)"
  "membersInGroups (PlanSelector env t1 t2 self s) = card (trackedProfiles env s - {self})"
proof -
  obtain ms plan where p: "eligibleMembers env self s t1 (emptyPlan\<lparr>poolCapUsed := poolCap s, buildLimitUsed := buildLimit s\<rparr>) = (ms, plan)"
    by fastforce
  have f: "membersInGroups plan = length ms + skippedCount plan" "membersInGroups plan = card (trackedProfiles env s - {self})"
    using eligibleMembers_facts(2,3) [OF p] by (simp_all add: emptyPlan_def)
  moreover have "planError plan \<noteq> [] \<Longrightarrow> ms = [] \<and> eligible plan = 0"
    using planError_kept [OF p] eligible_zero [OF p] by (simp add: emptyPlan_def)
  ultimately show "membersInGroups (PlanSelector env t1 t2 self s) = eligible (PlanSelector env t1 t2 self s) + skippedCount (PlanSelector env t1 t2 self s)"
    "membersInGroups (PlanSelector env t1 t2 self s) = card (trackedProfiles env s - {self})"
    by (auto simp: PlanSelector_def p Let_def skippedCount_def)
qed

text \<open>C26: the plan accounts for every profile: the number of profiles it reports is the number of different profiles in the tracked groups that exist, the
  selector itself left out, and each of them is either eligible or counted under exactly one reason for skipping it, whether or not the plan succeeds.\<close>

theorem plan_accounts_for_all:
  "let (plan, sel) = PlanAutoSelector env t1 t2 (Some e)
   in membersInGroups plan = eligible plan + skippedCount plan
      \<and> membersInGroups plan = (case sel of None \<Rightarrow> 0 | Some s \<Rightarrow> card (trackedProfiles env s - {profileId e}))"
proof (cases "selectorOf (Some e)")
  case None
  then show ?thesis by (simp add: PlanAutoSelector_def emptyPlan_def skippedCount_def)
next
  case (Some s)
  then show ?thesis
    using PlanSelector_counts [of env t1 t2 "profileId e" "Normalize s"] by (simp add: PlanAutoSelector_def)
qed

lemma mid0_take: "0 \<le> n \<Longrightarrow> mid0 n xs = take (nat n) xs"
  by (simp add: mid0_def)

lemma PlanSelector_ok:
  assumes "planError (PlanSelector env t1 t2 self s) = []" "1 \<le> poolCap s" "1 \<le> buildLimit s"
  obtains ms plan where "eligibleMembers env self s t1 (emptyPlan\<lparr>poolCapUsed := poolCap s, buildLimitUsed := buildLimit s\<rparr>) = (ms, plan)" "ms \<noteq> []"
    "eligible (PlanSelector env t1 t2 self s) = length ms"
    "keptUnavailable (PlanSelector env t1 t2 self s) = keptUnavailable plan"
    "planPool (PlanSelector env t1 t2 self s) = take (nat (poolCap s)) (orderMembers env ms (pool s) s t2)"
    "planBuild (PlanSelector env t1 t2 self s) = take (nat (buildLimit s)) (planPool (PlanSelector env t1 t2 self s))"
proof -
  obtain ms plan where p: "eligibleMembers env self s t1 (emptyPlan\<lparr>poolCapUsed := poolCap s, buildLimitUsed := buildLimit s\<rparr>) = (ms, plan)"
    by fastforce
  have e: "planError plan = []" "ms \<noteq> []" using assms(1) by (auto simp: PlanSelector_def p Let_def split: if_splits)
  let ?o = "orderMembers env ms (pool s) s t2"
  have pool: "planPool (PlanSelector env t1 t2 self s) = take (nat (poolCap s)) ?o"
    using e assms(2) by (simp add: PlanSelector_def p Let_def mid0_take)
  have "mid0 (min (int (length xs)) (buildLimit s)) xs = take (nat (buildLimit s)) xs" for xs :: "int list"
    using assms(3) by (simp add: mid0_take min_def)
  then have "planBuild (PlanSelector env t1 t2 self s) = take (nat (buildLimit s)) (planPool (PlanSelector env t1 t2 self s))"
    using e by (simp add: PlanSelector_def p Let_def)
  then show ?thesis using that [OF p e(2)] pool e by (simp add: PlanSelector_def p Let_def)
qed

text \<open>C23: a plan without an error ranks as many eligible members as the cap allows: the pool has no duplicates, holds only profiles of the tracked groups, never
  the selector itself, begins with what is left of the persisted order and goes on with newcomers from fast to slow, then untested, then
  failed; the build is the longest prefix of it within the build limit and is not empty; and the pool holds members that pass every filter,
  or else, when every other member failed its last test, only such members.\<close>

theorem plan_pool_selection:
  assumes "PlanAutoSelector env t1 t2 (Some e) = (plan, Some s)" "planError plan = []"
  shows "distinct (planPool plan) \<and> set (planPool plan) \<subseteq> trackedProfiles env s - {profileId e}
    \<and> length (planPool plan) = min (nat (poolCap s)) (eligible plan)
    \<and> planBuild plan = take (nat (buildLimit s)) (planPool plan) \<and> planBuild plan \<noteq> []
    \<and> (\<exists>kept new. planPool plan = take (nat (poolCap s)) (kept @ new) \<and> subseq kept (pool s) \<and> set new \<inter> set (pool s) = {}
         \<and> sorted_wrt (\<lambda>a b. \<not> byLatency (effectiveLatencyOf env b s t2) (effectiveLatencyOf env a s t2)) new)
    \<and> (\<forall>i \<in> set (planPool plan). mayJoin env s t1 i (if keptUnavailable plan = 0 then SkipNone else Unavailable))"
proof -
  have plan: "plan = PlanSelector env t1 t2 (profileId e) s" and n: "normalised s"
    using assms(1) by (auto simp: PlanAutoSelector_def normalised_Normalize split: option.splits)
  then have b: "1 \<le> poolCap s" "1 \<le> buildLimit s" by (auto simp: normalised_def)
  obtain ms plan' where p: "eligibleMembers env (profileId e) s t1 (emptyPlan\<lparr>poolCapUsed := poolCap s, buildLimitUsed := buildLimit s\<rparr>) = (ms, plan')" "ms \<noteq> []"
    and q: "eligible plan = length ms" "keptUnavailable plan = keptUnavailable plan'"
      "planPool plan = take (nat (poolCap s)) (orderMembers env ms (pool s) s t2)" "planBuild plan = take (nat (buildLimit s)) (planPool plan)"
    using PlanSelector_ok [OF assms(2) [unfolded plan] b] unfolding plan by blast
  note facts = eligibleMembers_facts [OF p(1), unfolded emptyPlan_def, simplified]
  have o: "distinct (orderMembers env ms (pool s) s t2)" "set (orderMembers env ms (pool s) s t2) = set ms"
    "length (orderMembers env ms (pool s) s t2) = length ms" using orderMembers_perm facts(1) by blast+
  then have in_ms: "set (planPool plan) \<subseteq> set ms" unfolding q(3) by (metis set_take_subset)
  have len: "length (planPool plan) = min (nat (poolCap s)) (eligible plan)" by (simp add: q o(3) min.commute)
  moreover have "0 < length (planBuild plan)" using b p(2) by (simp add: q(4) len q(1))
  moreover have "\<exists>kept new. planPool plan = take (nat (poolCap s)) (kept @ new) \<and> subseq kept (pool s) \<and> set new \<inter> set (pool s) = {}
         \<and> sorted_wrt (\<lambda>a b. \<not> byLatency (effectiveLatencyOf env b s t2) (effectiveLatencyOf env a s t2)) new"
    using memberOrder.sorted_stableSort [of env s t2 "[]"]
    by (intro exI [of _ "keepFirst ms (pool s)"] exI [of _ "sortByLatency env s t2 [] (filter (\<lambda>i. i \<notin> set (pool s)) ms)"])
      (auto simp: q(3) orderMembers_eq subseq_keepFirst sortByLatency_def latencyKey_def)
  moreover have "\<forall>i \<in> set (planPool plan). mayJoin env s t1 i (if keptUnavailable plan = 0 then SkipNone else Unavailable)"
    using facts(4) in_ms q(2) by (auto split: if_splits)
  ultimately show ?thesis using in_ms facts(1) o(1) q(3,4) by auto
qed

definition demoProfile :: "int \<Rightarrow> int \<Rightarrow> ProfileInfo" where
  "demoProfile i ms = \<lparr>profileId = i, profileType = qs ''vless'', latency = ms, latency_at = 50, test_country = [],
     outbound = Some \<lparr>IsExtraCore = False, IsXray = False, IsXrayFullConfig = False, DisplayName = [], asCustom = None, asAutoSelector = None\<rparr>\<rparr>"

definition demoEnv :: PlanEnv where
  "demoEnv = \<lparr>GetProfile = (\<lambda>i. if i = 1 then Some (demoProfile 1 90) else if i = 2 then Some (demoProfile 2 30) else None),
     GetGroup = (\<lambda>g. if g = 0 then Some \<lparr>front_proxy_id = - 1, landing_proxy_id = - 1, groupProfiles = [1, 2, 3]\<rparr> else None),
     patternValid = (\<lambda>_. True), patternMatches = (\<lambda>_ _. True), upper = (\<lambda>t. t), parsesEmpty = (\<lambda>_. False)\<rparr>"

definition demoSelector :: ProfileInfo where
  "demoSelector = (demoProfile 3 0)\<lparr>outbound := Some \<lparr>IsExtraCore = False, IsXray = False, IsXrayFullConfig = False, DisplayName = [], asCustom = None,
     asAutoSelector = Some (defaultSelector\<lparr>gids := [0]\<rparr>)\<rparr>\<rparr>"

lemma demo_normalised: "Normalize (defaultSelector\<lparr>gids := [0]\<rparr>) = defaultSelector\<lparr>gids := [0]\<rparr>"
  by (rule Normalize_id) (simp add: normalised_def defaultSelector_def kMaxPoolCap_def kMaxBuildLimit_def)

lemma demo_plan: "planPool (fst (PlanAutoSelector demoEnv 60 60 (Some demoSelector))) = [2, 1]"
  "planError (fst (PlanAutoSelector demoEnv 60 60 (Some demoSelector))) = []"
  "snd (PlanAutoSelector demoEnv 60 60 (Some demoSelector)) = Some (defaultSelector\<lparr>gids := [0]\<rparr>)"
  by (simp_all add: PlanAutoSelector_def demoSelector_def selectorOf_def demo_normalised)
    (simp_all add: PlanSelector_def eligibleMembers_def demoEnv_def defaultSelector_def emptyPlan_def emptyScan_def scanGroup_def scanMember_def
      proxyOf_def demoProfile_def eligibilityOf_def buildFilters_def countryBlocked_def chainSkip_def coreTransitions_def map_filter_def
      hasFreshResult_def effectiveLatency_def effectiveLatencyOf_def orderMembers_def sortByLatency_def latencyKey_def byLatency_def
      latencyRank_def trimmed_def Let_def)

theorem plan_pool_selection_witness:
  "distinct (planPool (fst (PlanAutoSelector demoEnv 60 60 (Some demoSelector)))) \<and>
   planPool (fst (PlanAutoSelector demoEnv 60 60 (Some demoSelector))) = [2, 1] \<and>
   mayJoin demoEnv (defaultSelector\<lparr>gids := [0]\<rparr>) 60 1
     (if keptUnavailable (fst (PlanAutoSelector demoEnv 60 60 (Some demoSelector))) = 0 then SkipNone else Unavailable)"
  using plan_pool_selection [of demoEnv 60 60 demoSelector "fst (PlanAutoSelector demoEnv 60 60 (Some demoSelector))" "defaultSelector\<lparr>gids := [0]\<rparr>"]
  by (simp add: demo_plan prod_eq_iff)

end
