(* ===== verification/Series_Buffer.thy ===== *)
theory Series_Buffer
  imports Wd_Prelude Complex_Main
begin

text \<open>
  The columnar ring behind the live charts, \<^verbatim>\<open>src/src/ui/widget/SeriesBuffer.cpp\<close> and its header: one time and one running flag per slot, one
  vector of values per key, a logical index 0 for the oldest point. A value is \<open>None\<close> where the program has NaN.

  Results: the ring refines a plain list of points: pushing appends a point without values and drops the oldest one exactly when the ring is full,
  setting the latest value changes the last point only, adding a column shows no value anywhere; a column loses its key only when no
  point in the window shows a value for it; the binary search ends and finds the first point at or after a time.
\<close>

type_synonym sample = "rat option"

record Marker =
  markerTime :: int
  markerKind :: int
  markerText :: qstring

record Column =
  key :: qstring
  vals :: "sample list"
  lastSerial :: int

record SeriesBuffer =
  m_capacity :: nat
  m_head :: nat
  m_size :: nat
  m_serial :: int
  m_times :: "int list"
  m_running :: "bool list"
  m_columns :: "Column list"
  m_index :: "qstring \<Rightarrow> nat option"
  m_markers :: "Marker list"

definition newSeries :: "int \<Rightarrow> SeriesBuffer" where
  "newSeries capacity =
     (let cap = nat (max 1 capacity)
      in \<lparr>m_capacity = cap, m_head = 0, m_size = 0, m_serial = 0, m_times = replicate cap 0, m_running = replicate cap False,
          m_columns = [], m_index = Map.empty, m_markers = []\<rparr>)"

definition slot :: "SeriesBuffer \<Rightarrow> nat \<Rightarrow> nat" where
  "slot b i = (let s = m_head b + i in if s \<ge> m_capacity b then s - m_capacity b else s)"

definition time :: "SeriesBuffer \<Rightarrow> nat \<Rightarrow> int" where
  "time b i = m_times b ! slot b i"

definition running :: "SeriesBuffer \<Rightarrow> nat \<Rightarrow> bool" where
  "running b i = m_running b ! slot b i"

definition valueAt :: "SeriesBuffer \<Rightarrow> nat \<Rightarrow> nat \<Rightarrow> sample" where
  "valueAt b c i = vals (m_columns b ! c) ! slot b i"

definition latestTime :: "SeriesBuffer \<Rightarrow> int" where
  "latestTime b = time b (m_size b - 1)"

fun freeColumn :: "nat \<Rightarrow> Column list \<Rightarrow> nat option" where
  "freeColumn i [] = None"
| "freeColumn i (c # cs) = (if key c = [] then Some i else freeColumn (Suc i) cs)"

definition addColumn :: "qstring \<Rightarrow> SeriesBuffer \<Rightarrow> nat \<times> SeriesBuffer" where
  "addColumn k b =
     (case m_index b k of
        Some i \<Rightarrow> (i, b)
      | None \<Rightarrow>
          let fresh = \<lparr>key = k, vals = replicate (m_capacity b) None, lastSerial = m_serial b - 1\<rparr>
          in case freeColumn 0 (m_columns b) of
               Some i \<Rightarrow> (i, b\<lparr>m_columns := (m_columns b)[i := fresh], m_index := (m_index b)(k \<mapsto> i)\<rparr>)
             | None \<Rightarrow> (length (m_columns b),
                 b\<lparr>m_columns := m_columns b @ [fresh], m_index := (m_index b)(k \<mapsto> length (m_columns b))\<rparr>))"

definition findColumn :: "qstring \<Rightarrow> SeriesBuffer \<Rightarrow> int" where
  "findColumn k b = (case m_index b k of None \<Rightarrow> - 1 | Some i \<Rightarrow> int i)"

definition releaseColumn :: "qstring list \<Rightarrow> int \<Rightarrow> Column \<Rightarrow> (qstring \<Rightarrow> nat option) \<Rightarrow> Column \<times> (qstring \<Rightarrow> nat option)" where
  "releaseColumn keep oldestSerial c idx =
     (if key c = [] \<or> key c \<in> set keep \<or> lastSerial c \<ge> oldestSerial then (c, idx)
      else (c\<lparr>key := []\<rparr>, idx(key c := None)))"

fun releaseLoop :: "qstring list \<Rightarrow> int \<Rightarrow> Column list \<Rightarrow> (qstring \<Rightarrow> nat option) \<Rightarrow> Column list \<times> (qstring \<Rightarrow> nat option)" where
  "releaseLoop keep oldest [] idx = ([], idx)"
| "releaseLoop keep oldest (c # cs) idx =
     (let (c', idx') = releaseColumn keep oldest c idx; (cs', idx'') = releaseLoop keep oldest cs idx' in (c' # cs', idx''))"

definition releaseDeadColumns :: "qstring list \<Rightarrow> SeriesBuffer \<Rightarrow> SeriesBuffer" where
  "releaseDeadColumns keep b =
     (let (cs, idx) = releaseLoop keep (m_serial b - int (m_size b)) (m_columns b) (m_index b)
      in b\<lparr>m_columns := cs, m_index := idx\<rparr>)"

definition push :: "int \<Rightarrow> bool \<Rightarrow> SeriesBuffer \<Rightarrow> SeriesBuffer" where
  "push t run b =
     (let evicting = (m_size b = m_capacity b);
          s = (if evicting then m_head b else slot b (m_size b));
          b = (if evicting then b\<lparr>m_head := (if m_head b + 1 = m_capacity b then 0 else m_head b + 1)\<rparr> else b\<lparr>m_size := m_size b + 1\<rparr>);
          b = b\<lparr>m_times := (m_times b)[s := t], m_running := (m_running b)[s := run],
                m_columns := map (\<lambda>c. c\<lparr>vals := (vals c)[s := None]\<rparr>) (m_columns b), m_serial := m_serial b + 1\<rparr>
      in if \<not> evicting then b
         else b\<lparr>m_markers := dropWhile (\<lambda>m. markerTime m < time b 0) (m_markers b)\<rparr>)"

definition setLatest :: "int \<Rightarrow> sample \<Rightarrow> SeriesBuffer \<Rightarrow> SeriesBuffer" where
  "setLatest column v b =
     (if m_size b = 0 \<or> column < 0 \<or> column \<ge> int (length (m_columns b)) then b
      else
        let i = nat column; c = m_columns b ! i; c = c\<lparr>vals := (vals c)[slot b (m_size b - 1) := v]\<rparr>
        in b\<lparr>m_columns := (m_columns b)[i := (if v \<noteq> None then c\<lparr>lastSerial := m_serial b - 1\<rparr> else c)]\<rparr>)"

function lowerLoop :: "SeriesBuffer \<Rightarrow> int \<Rightarrow> nat \<Rightarrow> nat \<Rightarrow> nat" where
  "lowerLoop b t lo hi =
     (if lo < hi then
        let mid = (lo + hi) div 2 in if time b mid < t then lowerLoop b t (mid + 1) hi else lowerLoop b t lo mid
      else lo)"
  by pat_completeness auto
termination by (relation "measure (\<lambda>(b, t, lo, hi). hi - lo)") auto

declare lowerLoop.simps [simp del]

definition lowerBound :: "int \<Rightarrow> SeriesBuffer \<Rightarrow> nat" where
  "lowerBound t b = lowerLoop b t 0 (m_size b)"

definition addMarker :: "int \<Rightarrow> int \<Rightarrow> qstring \<Rightarrow> SeriesBuffer \<Rightarrow> SeriesBuffer" where
  "addMarker t kind txt b = b\<lparr>m_markers := m_markers b @ [\<lparr>markerTime = t, markerKind = kind, markerText = txt\<rparr>]\<rparr>"

definition clearSeries :: "SeriesBuffer \<Rightarrow> SeriesBuffer" where
  "clearSeries b = b\<lparr>m_head := 0, m_size := 0, m_markers := []\<rparr>"

subsection \<open>The window of points\<close>

type_synonym point = "int \<times> bool \<times> sample list"

definition pointAt :: "SeriesBuffer \<Rightarrow> nat \<Rightarrow> point" where
  "pointAt b i = (time b i, running b i, map (\<lambda>c. vals c ! slot b i) (m_columns b))"

definition window :: "SeriesBuffer \<Rightarrow> point list" where
  "window b = map (pointAt b) [0..<m_size b]"

definition ringOk :: "SeriesBuffer \<Rightarrow> bool" where
  "ringOk b \<longleftrightarrow> m_head b < m_capacity b \<and> m_size b \<le> m_capacity b \<and> length (m_times b) = m_capacity b \<and> length (m_running b) = m_capacity b
     \<and> (\<forall>c \<in> set (m_columns b). length (vals c) = m_capacity b)"

text \<open>Where a point of the window shows a value, its column was written no earlier than that point was pushed.\<close>

definition serialOk :: "SeriesBuffer \<Rightarrow> bool" where
  "serialOk b \<longleftrightarrow> (\<forall>c \<in> set (m_columns b). \<forall>i < m_size b. vals c ! slot b i \<noteq> None \<longrightarrow> m_serial b - int (m_size b) + int i \<le> lastSerial c)"

text \<open>The index names exactly the columns in use.\<close>

definition indexOk :: "SeriesBuffer \<Rightarrow> bool" where
  "indexOk b \<longleftrightarrow> (\<forall>k i. k \<noteq> [] \<longrightarrow> m_index b k = Some i \<longleftrightarrow> i < length (m_columns b) \<and> key (m_columns b ! i) = k)"

inductive series_step :: "SeriesBuffer \<Rightarrow> SeriesBuffer \<Rightarrow> bool" where
  step_push: "series_step b (push t run b)"
| step_set: "series_step b (setLatest c v b)"
| step_add: "k \<noteq> [] \<Longrightarrow> series_step b (snd (addColumn k b))"
| step_release: "series_step b (releaseDeadColumns keep b)"
| step_marker: "series_step b (addMarker t kind txt b)"
| step_clear: "series_step b (clearSeries b)"

subsection \<open>Slots\<close>

lemma slot_less: "ringOk b \<Longrightarrow> i < m_capacity b \<Longrightarrow> slot b i < m_capacity b"
  by (auto simp: slot_def ringOk_def Let_def)

lemma slot_inj: "ringOk b \<Longrightarrow> i < m_capacity b \<Longrightarrow> j < m_capacity b \<Longrightarrow> slot b i = slot b j \<longleftrightarrow> i = j"
  by (auto simp: slot_def ringOk_def Let_def split: if_splits)

text \<open>The slot a push writes, and the buffer it writes it in.\<close>

definition advance :: "SeriesBuffer \<Rightarrow> SeriesBuffer" where
  "advance b = (if m_size b = m_capacity b then b\<lparr>m_head := (if m_head b + 1 = m_capacity b then 0 else m_head b + 1)\<rparr>
     else b\<lparr>m_size := m_size b + 1\<rparr>)"

definition kept :: "SeriesBuffer \<Rightarrow> nat" where
  "kept b = (if m_size b = m_capacity b then m_size b - 1 else m_size b)"

definition shift :: "SeriesBuffer \<Rightarrow> nat" where
  "shift b = (if m_size b = m_capacity b then 1 else 0)"

lemma advance_fields [simp]:
  "m_times (advance b) = m_times b" "m_running (advance b) = m_running b" "m_columns (advance b) = m_columns b" "m_capacity (advance b) = m_capacity b"
  "m_serial (advance b) = m_serial b" "m_index (advance b) = m_index b" "m_markers (advance b) = m_markers b"
  by (simp_all add: advance_def)

lemma advance_size: "ringOk b \<Longrightarrow> m_size (advance b) = Suc (kept b)"
  by (auto simp: advance_def kept_def ringOk_def)

lemma advance_slot: "ringOk b \<Longrightarrow> i < kept b \<Longrightarrow> slot (advance b) i = slot b (i + shift b)"
  by (auto simp: advance_def kept_def shift_def slot_def ringOk_def Let_def)

lemma advance_new: "ringOk b \<Longrightarrow> slot (advance b) (kept b) = (if m_size b = m_capacity b then m_head b else slot b (m_size b))"
  by (auto simp: advance_def kept_def slot_def ringOk_def Let_def)

lemma advance_ring: "ringOk b \<Longrightarrow> ringOk (advance b)"
  by (auto simp: ringOk_def advance_def)

lemma push_advance:
  "ringOk b \<Longrightarrow> push t run b =
    (let a = advance b; s = slot a (kept b);
         b' = a\<lparr>m_times := (m_times b)[s := t], m_running := (m_running b)[s := run],
           m_columns := map (\<lambda>c. c\<lparr>vals := (vals c)[s := None]\<rparr>) (m_columns b), m_serial := m_serial b + 1\<rparr>
     in if m_size b = m_capacity b then b'\<lparr>m_markers := dropWhile (\<lambda>m. markerTime m < time b' 0) (m_markers b)\<rparr> else b')"
  by (simp add: push_def advance_new Let_def) (simp add: advance_def)

lemma push_fields:
  assumes "ringOk b"
  defines "s \<equiv> slot (advance b) (kept b)"
  shows "m_times (push t run b) = (m_times b)[s := t]" "m_running (push t run b) = (m_running b)[s := run]"
    "m_columns (push t run b) = map (\<lambda>c. c\<lparr>vals := (vals c)[s := None]\<rparr>) (m_columns b)" "m_serial (push t run b) = m_serial b + 1"
    "m_size (push t run b) = Suc (kept b)" "m_capacity (push t run b) = m_capacity b" "slot (push t run b) = slot (advance b)"
    "m_head (push t run b) = m_head (advance b)" "m_index (push t run b) = m_index b"
  using assms(1) by (simp_all add: push_advance s_def Let_def advance_size fun_eq_iff slot_def)

lemma kept_less: "ringOk b \<Longrightarrow> kept b < m_capacity b"
  by (auto simp: kept_def ringOk_def)

lemma push_slot_other: "ringOk b \<Longrightarrow> i < kept b \<Longrightarrow> slot (advance b) (kept b) \<noteq> slot (advance b) i"
  using slot_inj [of "advance b" i "kept b"] kept_less [of b] advance_ring [of b] by simp

lemma pointAt_push:
  assumes "ringOk b" "i \<le> kept b"
  shows "pointAt (push t run b) i = (if i = kept b then (t, run, replicate (length (m_columns b)) None) else pointAt b (i + shift b))"
proof -
  have "slot (advance b) (kept b) < m_capacity b" using slot_less [OF advance_ring [OF assms(1)]] kept_less [OF assms(1)] by simp
  then show ?thesis
    using assms push_slot_other [OF assms(1), of i]
    by (auto simp: pointAt_def time_def running_def push_fields advance_slot ringOk_def map_replicate_const [symmetric] intro!: map_cong)
qed

lemma window_push:
  assumes "ringOk b"
  shows "window (push t run b) = (if m_size b = m_capacity b then tl (window b) else window b) @ [(t, run, replicate (length (m_columns b)) None)]"
proof (rule nth_equalityI)
  show "length (window (push t run b)) = length ((if m_size b = m_capacity b then tl (window b) else window b) @ [(t, run, replicate (length (m_columns b)) None)])"
    using assms by (auto simp: window_def push_fields kept_def ringOk_def)
  fix i assume "i < length (window (push t run b))"
  then have i: "i \<le> kept b" using assms by (simp add: window_def push_fields)
  then show "window (push t run b) ! i = ((if m_size b = m_capacity b then tl (window b) else window b) @ [(t, run, replicate (length (m_columns b)) None)]) ! i"
    using assms by (auto simp: window_def push_fields pointAt_push nth_append nth_tl kept_def shift_def ringOk_def simp del: upt_Suc)
qed

subsection \<open>The invariants\<close>

lemma ringOk_push: "ringOk b \<Longrightarrow> ringOk (push t run b)"
  using kept_less [of b] advance_ring [of b] by (auto simp: ringOk_def push_fields)

lemma serialOkD:
  "serialOk b \<Longrightarrow> c \<in> set (m_columns b) \<Longrightarrow> i < m_size b \<Longrightarrow> vals c ! slot b i \<noteq> None \<Longrightarrow> m_serial b - int (m_size b) + int i \<le> lastSerial c"
  by (simp add: serialOk_def)

lemma serialOk_push:
  assumes "ringOk b" "serialOk b"
  shows "serialOk (push t run b)"
proof -
  have "m_serial b + 1 - int (Suc (kept b)) + int i \<le> lastSerial c"
    if c: "c \<in> set (m_columns b)" and i: "i < Suc (kept b)" and v: "(vals c)[slot (advance b) (kept b) := None] ! slot (advance b) i \<noteq> None" for c i
  proof -
    have "slot (advance b) (kept b) < length (vals c)"
      using c assms(1) slot_less [OF advance_ring [OF assms(1)]] kept_less [OF assms(1)] by (simp add: ringOk_def)
    then have ne: "i \<noteq> kept b" using v by auto
    then have "i < kept b" using i by simp
    then have "vals c ! slot b (i + shift b) \<noteq> None" using v push_slot_other [OF assms(1), of i] advance_slot [OF assms(1), of i] by simp
    moreover have "i + shift b < m_size b" using \<open>i < kept b\<close> by (auto simp: kept_def shift_def split: if_splits)
    ultimately have "m_serial b - int (m_size b) + int (i + shift b) \<le> lastSerial c" using assms(2) c serialOkD by blast
    moreover have "int (m_size b) = int (kept b) + int (shift b)" using assms(1) by (auto simp: kept_def shift_def ringOk_def)
    ultimately show ?thesis by simp
  qed
  then show ?thesis using assms(1) by (auto simp: serialOk_def push_fields)
qed

lemma slot_updates [simp]:
  "slot (b\<lparr>m_columns := cs\<rparr>) = slot b" "slot (b\<lparr>m_index := idx\<rparr>) = slot b" "slot (b\<lparr>m_markers := ms\<rparr>) = slot b"
  "slot (b\<lparr>m_columns := cs, m_index := idx\<rparr>) = slot b"
  by (simp_all add: slot_def fun_eq_iff Let_def)

lemma setLatest_fields [simp]:
  "m_times (setLatest c v b) = m_times b" "m_running (setLatest c v b) = m_running b" "m_capacity (setLatest c v b) = m_capacity b"
  "m_head (setLatest c v b) = m_head b" "m_size (setLatest c v b) = m_size b" "m_serial (setLatest c v b) = m_serial b"
  "m_index (setLatest c v b) = m_index b" "slot (setLatest c v b) = slot b" "length (m_columns (setLatest c v b)) = length (m_columns b)"
  by (simp_all add: setLatest_def Let_def)

lemma setLatest_column:
  "j < length (m_columns b) \<Longrightarrow> m_columns (setLatest c v b) ! j =
     (if m_size b \<noteq> 0 \<and> c = int j then (m_columns b ! j)\<lparr>vals := (vals (m_columns b ! j))[slot b (m_size b - 1) := v],
        lastSerial := (if v \<noteq> None then m_serial b - 1 else lastSerial (m_columns b ! j))\<rparr> else m_columns b ! j)"
  by (auto simp: setLatest_def Let_def nth_list_update)

lemma columns_all: "(\<forall>c \<in> set cs. P c) \<longleftrightarrow> (\<forall>j < length cs. P (cs ! j))"
  by (rule all_set_conv_all_nth)

lemma ringOk_set: "ringOk b \<Longrightarrow> ringOk (setLatest c v b)"
  by (simp add: ringOk_def columns_all setLatest_column)

lemma serialOk_set:
  assumes "ringOk b" "serialOk b"
  shows "serialOk (setLatest c v b)"
proof -
  have "m_serial b - int (m_size b) + int i \<le> lastSerial (m_columns (setLatest c v b) ! j)"
    if "j < length (m_columns b)" "i < m_size b" "vals (m_columns (setLatest c v b) ! j) ! slot b i \<noteq> None" for i j
  proof (cases "c = int j \<and> i = m_size b - 1")
    case True
    moreover have "slot b (m_size b - 1) < length (vals (m_columns b ! j))"
      using assms(1) that(1,2) slot_less [OF assms(1), of "m_size b - 1"] by (auto simp: ringOk_def)
    ultimately show ?thesis using that by (simp add: setLatest_column)
  next
    case False
    have "m_size b - 1 < m_capacity b" "i < m_capacity b" using that(2) assms(1) by (auto simp: ringOk_def)
    then have "c = int j \<Longrightarrow> slot b (m_size b - 1) \<noteq> slot b i" using False slot_inj [OF assms(1)] by blast
    then have "vals (m_columns b ! j) ! slot b i \<noteq> None" using that(1,3) by (auto simp: setLatest_column split: if_splits)
    then have "m_serial b - int (m_size b) + int i \<le> lastSerial (m_columns b ! j)" using serialOkD [OF assms(2)] that(1,2) by simp
    then show ?thesis using that(1,2) by (auto simp: setLatest_column)
  qed
  then show ?thesis by (simp add: serialOk_def columns_all)
qed

lemma freeColumn_spec:
  "freeColumn n cs = Some i \<Longrightarrow> n \<le> i \<and> i - n < length cs \<and> key (cs ! (i - n)) = []"
proof (induction n cs rule: freeColumn.induct)
  case (2 n c cs)
  then show ?case by (cases "key c = []") (auto simp: nth_Cons' Suc_diff_le)
qed simp

definition freshColumn :: "qstring \<Rightarrow> SeriesBuffer \<Rightarrow> Column" where
  "freshColumn k b = \<lparr>key = k, vals = replicate (m_capacity b) None, lastSerial = m_serial b - 1\<rparr>"

lemma addColumn_cases:
  obtains (found) i where "m_index b k = Some i" "addColumn k b = (i, b)"
  | (reuse) i where "m_index b k = None" "i < length (m_columns b)" "key (m_columns b ! i) = []"
      "addColumn k b = (i, b\<lparr>m_columns := (m_columns b)[i := freshColumn k b], m_index := (m_index b)(k \<mapsto> i)\<rparr>)"
  | (append) "m_index b k = None"
      "addColumn k b = (length (m_columns b), b\<lparr>m_columns := m_columns b @ [freshColumn k b], m_index := (m_index b)(k \<mapsto> length (m_columns b))\<rparr>)"
proof (cases "m_index b k")
  case (Some i)
  then show ?thesis using found by (simp add: addColumn_def)
next
  case None
  show ?thesis
  proof (cases "freeColumn 0 (m_columns b)")
    case (Some i)
    then show ?thesis using None reuse [of i] freeColumn_spec [OF Some] by (simp add: addColumn_def freshColumn_def)
  next
    case no_free: None
    then show ?thesis using None append by (simp add: addColumn_def freshColumn_def)
  qed
qed

lemma ringOk_add: "ringOk b \<Longrightarrow> ringOk (snd (addColumn k b))"
  by (cases rule: addColumn_cases [of b k]) (auto simp: ringOk_def freshColumn_def dest!: set_update_subset_insert [THEN subsetD])

lemma fresh_shows_nothing: "ringOk b \<Longrightarrow> i < m_size b \<Longrightarrow> vals (freshColumn k b) ! slot b i = None"
  using slot_less [of b i] by (simp add: freshColumn_def ringOk_def)

lemma serialOk_add:
  assumes "ringOk b" "serialOk b"
  shows "serialOk (snd (addColumn k b))"
proof (cases rule: addColumn_cases [of b k])
  case (reuse i)
  then show ?thesis using assms(2) reuse fresh_shows_nothing [OF assms(1)]
    by (auto simp: serialOk_def dest!: set_update_subset_insert [THEN subsetD])
next
  case append
  then show ?thesis using assms(2) append fresh_shows_nothing [OF assms(1)] by (auto simp: serialOk_def)
qed (use assms in auto)

lemma index_fresh: "indexOk b \<Longrightarrow> k \<noteq> [] \<Longrightarrow> m_index b k = None \<Longrightarrow> \<forall>j < length (m_columns b). key (m_columns b ! j) \<noteq> k"
  unfolding indexOk_def by (metis option.distinct(1))

lemma indexOk_add:
  assumes "indexOk b" "k \<noteq> []"
  shows "indexOk (snd (addColumn k b))"
proof (cases rule: addColumn_cases [of b k])
  case (reuse i)
  then have "\<forall>j < length (m_columns b). key (m_columns b ! j) \<noteq> k" using index_fresh [OF assms] by simp
  then show ?thesis using reuse assms by (auto simp: indexOk_def freshColumn_def nth_list_update)
next
  case append
  then have "\<forall>j < length (m_columns b). key (m_columns b ! j) \<noteq> k" using index_fresh [OF assms] by simp
  then show ?thesis using append assms by (auto simp: indexOk_def freshColumn_def nth_append less_Suc_eq)
qed (use assms in auto)

text \<open>Releasing only clears keys: of columns that are not kept and whose values are all older than the window.\<close>

lemma releaseLoop_columns:
  "fst (releaseLoop keep oldest cs idx) =
     map (\<lambda>c. if key c = [] \<or> key c \<in> set keep \<or> lastSerial c \<ge> oldest then c else c\<lparr>key := []\<rparr>) cs"
  by (induction cs arbitrary: idx) (auto simp: releaseColumn_def case_prod_beta Let_def)

lemma releaseLoop_index:
  "snd (releaseLoop keep oldest cs idx) k =
     (if \<exists>c \<in> set cs. key c = k \<and> k \<noteq> [] \<and> k \<notin> set keep \<and> lastSerial c < oldest then None else idx k)"
  by (induction cs arbitrary: idx) (auto simp: releaseColumn_def case_prod_beta Let_def)

lemma release_fields:
  "m_columns (releaseDeadColumns keep b) =
     map (\<lambda>c. if key c = [] \<or> key c \<in> set keep \<or> lastSerial c \<ge> m_serial b - int (m_size b) then c else c\<lparr>key := []\<rparr>) (m_columns b)"
  "m_index (releaseDeadColumns keep b) k =
     (if \<exists>c \<in> set (m_columns b). key c = k \<and> k \<noteq> [] \<and> k \<notin> set keep \<and> lastSerial c < m_serial b - int (m_size b) then None else m_index b k)"
  "m_times (releaseDeadColumns keep b) = m_times b" "m_running (releaseDeadColumns keep b) = m_running b"
  "m_capacity (releaseDeadColumns keep b) = m_capacity b" "m_head (releaseDeadColumns keep b) = m_head b"
  "m_size (releaseDeadColumns keep b) = m_size b" "m_serial (releaseDeadColumns keep b) = m_serial b" "slot (releaseDeadColumns keep b) = slot b"
  using releaseLoop_columns [of keep "m_serial b - int (m_size b)" "m_columns b" "m_index b"]
    releaseLoop_index [of keep "m_serial b - int (m_size b)" "m_columns b" "m_index b" k]
  by (simp_all add: releaseDeadColumns_def case_prod_beta)

lemma release_vals: "c' \<in> set (m_columns (releaseDeadColumns keep b)) \<Longrightarrow>
   \<exists>c \<in> set (m_columns b). vals c' = vals c \<and> lastSerial c' = lastSerial c"
  by (auto simp: release_fields split: if_splits)

lemma ringOk_release: "ringOk b \<Longrightarrow> ringOk (releaseDeadColumns keep b)"
  using release_vals [of _ keep b] by (force simp: ringOk_def release_fields(3-9))

lemma serialOk_release: "serialOk b \<Longrightarrow> serialOk (releaseDeadColumns keep b)"
  unfolding serialOk_def release_fields(3-9) using release_vals [of _ keep b] by metis

lemma indexOk_release:
  assumes "indexOk b"
  shows "indexOk (releaseDeadColumns keep b)"
proof -
  have "m_index (releaseDeadColumns keep b) k = Some i \<longleftrightarrow>
      i < length (m_columns (releaseDeadColumns keep b)) \<and> key (m_columns (releaseDeadColumns keep b) ! i) = k" if "k \<noteq> []" for k i
  proof (cases "\<exists>c \<in> set (m_columns b). key c = k \<and> k \<notin> set keep \<and> lastSerial c < m_serial b - int (m_size b)")
    case True
    then obtain j where j: "j < length (m_columns b)" "key (m_columns b ! j) = k" "k \<notin> set keep" "lastSerial (m_columns b ! j) < m_serial b - int (m_size b)"
      by (auto simp: in_set_conv_nth)
    moreover have "i < length (m_columns b) \<Longrightarrow> key (m_columns b ! i) = k \<Longrightarrow> i = j" using assms that j(1,2) unfolding indexOk_def by (metis option.inject)
    ultimately show ?thesis using True that by (auto simp: release_fields)
  next
    case False
    then have "m_index (releaseDeadColumns keep b) k = m_index b k" using that by (auto simp: release_fields)
    moreover have "i < length (m_columns b) \<Longrightarrow> key (m_columns (releaseDeadColumns keep b) ! i) = k \<longleftrightarrow> key (m_columns b ! i) = k"
      using False that by (auto simp: release_fields not_less)
    ultimately show ?thesis using assms that by (auto simp: indexOk_def release_fields(1))
  qed
  then show ?thesis by (simp add: indexOk_def)
qed

definition seriesInv :: "SeriesBuffer \<Rightarrow> bool" where
  "seriesInv b \<longleftrightarrow> ringOk b \<and> serialOk b \<and> indexOk b"

definition series_init :: "SeriesBuffer \<Rightarrow> bool" where
  "series_init b \<longleftrightarrow> (\<exists>capacity. b = newSeries capacity)"

lemma indexOk_cong: "m_index b' = m_index b \<Longrightarrow> map key (m_columns b') = map key (m_columns b) \<Longrightarrow> indexOk b \<Longrightarrow> indexOk b'"
  unfolding indexOk_def by (metis length_map nth_map)

lemma indexOk_push: "ringOk b \<Longrightarrow> indexOk b \<Longrightarrow> indexOk (push t run b)"
  by (rule indexOk_cong [of _ b]) (auto simp: push_fields)

lemma indexOk_set: "indexOk b \<Longrightarrow> indexOk (setLatest c v b)"
  by (rule indexOk_cong [of _ b]) (auto intro!: nth_equalityI simp: setLatest_column)

interpretation series: transition_system series_init series_step seriesInv
proof
  show "series_init s \<Longrightarrow> seriesInv s" for s
    by (auto simp: series_init_def newSeries_def seriesInv_def ringOk_def serialOk_def indexOk_def Let_def)
  show "seriesInv t" if "seriesInv s" "series_step s t" for s t
    using that(2,1)
  proof (cases rule: series_step.cases)
    case step_marker
    then show ?thesis using that(1) by (auto simp: seriesInv_def addMarker_def ringOk_def serialOk_def indexOk_def)
  next
    case step_clear
    then show ?thesis using that(1) by (auto simp: seriesInv_def clearSeries_def ringOk_def serialOk_def indexOk_def)
  qed (use that(1) in \<open>auto simp: seriesInv_def ringOk_push serialOk_push indexOk_push ringOk_set serialOk_set indexOk_set ringOk_add serialOk_add indexOk_add
      ringOk_release serialOk_release indexOk_release\<close>)
qed

subsection \<open>Refinement of a list of points\<close>

lemma length_window [simp]: "length (window b) = m_size b"
  by (simp add: window_def)

lemma window_nth: "i < m_size b \<Longrightarrow> window b ! i = pointAt b i"
  by (simp add: window_def)

lemma window_set:
  assumes "ringOk b" "j < length (m_columns b)" "m_size b \<noteq> 0"
  shows "window (setLatest (int j) v b) = butlast (window b) @ [(\<lambda>(t, r, vs). (t, r, vs[j := v])) (last (window b))]"
proof (rule nth_equalityI)
  show len: "length (window (setLatest (int j) v b)) = length (butlast (window b) @ [(\<lambda>(t, r, vs). (t, r, vs[j := v])) (last (window b))])"
    using assms(3) by (simp add: window_def)
  fix i assume "i < length (window (setLatest (int j) v b))"
  then have i: "i < m_size b" by (simp add: window_def)
  have s: "m_size b - 1 < m_capacity b" "i < m_capacity b" using i assms(1) by (auto simp: ringOk_def)
  have l: "last (window b) = pointAt b (m_size b - 1)" using assms(3) by (simp add: window_def last_map)
  have "vals (m_columns (setLatest (int j) v b) ! k) ! slot b i =
      (if k = j \<and> i = m_size b - 1 then v else vals (m_columns b ! k) ! slot b i)" if "k < length (m_columns b)" for k
    using that assms s slot_inj [OF assms(1) s] slot_less [OF assms(1) s(1)] by (auto simp: setLatest_column ringOk_def nth_list_update)
  then have "map (\<lambda>c. vals c ! slot b i) (m_columns (setLatest (int j) v b)) =
      (if i = m_size b - 1 then (map (\<lambda>c. vals c ! slot b i) (m_columns b))[j := v] else map (\<lambda>c. vals c ! slot b i) (m_columns b))"
    by (intro nth_equalityI) (auto simp: nth_list_update)
  then show "window (setLatest (int j) v b) ! i = (butlast (window b) @ [(\<lambda>(t, r, vs). (t, r, vs[j := v])) (last (window b))]) ! i"
    using i by (auto simp: window_nth l pointAt_def time_def running_def nth_append nth_butlast)
qed

lemma window_cong:
  assumes "m_size b' = m_size b" "slot b' = slot b" "m_times b' = m_times b" "m_running b' = m_running b"
    "\<And>i. i < m_size b \<Longrightarrow> map (\<lambda>c. vals c ! slot b i) (m_columns b') = f (map (\<lambda>c. vals c ! slot b i) (m_columns b))"
  shows "window b' = map (\<lambda>(t, r, vs). (t, r, f vs)) (window b)"
  using assms by (simp add: window_def pointAt_def time_def running_def)

definition blankColumn :: "nat \<Rightarrow> sample list \<Rightarrow> sample list" where
  "blankColumn i vs = (if i < length vs then vs[i := None] else vs @ [None])"

lemma window_add:
  assumes "ringOk b" "m_index b k = None"
  shows "window (snd (addColumn k b)) = map (\<lambda>(t, r, vs). (t, r, blankColumn (fst (addColumn k b)) vs)) (window b)"
proof (cases rule: addColumn_cases [of b k])
  case (reuse i)
  then show ?thesis using fresh_shows_nothing [OF assms(1)]
    by (intro window_cong) (auto simp: blankColumn_def map_update)
next
  case append
  then show ?thesis using fresh_shows_nothing [OF assms(1)] by (intro window_cong) (auto simp: blankColumn_def)
qed (use assms in auto)

lemma window_release: "window (releaseDeadColumns keep b) = window b"
  using window_cong [where f = id, of "releaseDeadColumns keep b" b] by (simp add: release_fields case_prod_beta cong: if_cong)

text \<open>C29: the ring refines a list of points. In every state the operations can reach, pushing appends a point without values and drops the oldest
  point exactly when the ring holds as many points as its capacity; the window never exceeds the capacity; setting the latest value changes one entry of the last
  point; a new column shows no value at any point, whether or not it takes over the storage of a released one; releasing columns, adding a marker
  and looking up a present key change no point; clearing empties the window.\<close>

theorem series_refines_points:
  assumes "series_init b0" "series_step\<^sup>*\<^sup>* b0 b"
  shows "length (window b) \<le> m_capacity b
    \<and> window (push t run b) = (if length (window b) = m_capacity b then tl (window b) else window b) @ [(t, run, replicate (length (m_columns b)) None)]
    \<and> window (setLatest c v b) = (if window b = [] \<or> c < 0 \<or> c \<ge> int (length (m_columns b)) then window b
         else butlast (window b) @ [(\<lambda>(t, r, vs). (t, r, vs[nat c := v])) (last (window b))])
    \<and> window (snd (addColumn k b)) = (if m_index b k = None then map (\<lambda>(t, r, vs). (t, r, blankColumn (fst (addColumn k b)) vs)) (window b) else window b)
    \<and> window (releaseDeadColumns keep b) = window b \<and> window (addMarker mt mk txt b) = window b \<and> window (clearSeries b) = []"
proof -
  have r: "ringOk b" using series.inv_reachable [OF assms] by (simp add: seriesInv_def)
  have "window (setLatest c v b) = (if window b = [] \<or> c < 0 \<or> c \<ge> int (length (m_columns b)) then window b
         else butlast (window b) @ [(\<lambda>(t, r, vs). (t, r, vs[nat c := v])) (last (window b))])"
    using window_set [OF r, of "nat c" v] by (auto simp: setLatest_def simp flip: length_0_conv)
  moreover have "window (snd (addColumn k b)) = (if m_index b k = None then map (\<lambda>(t, r, vs). (t, r, blankColumn (fst (addColumn k b)) vs)) (window b) else window b)"
    using window_add [OF r, of k] by (auto simp: addColumn_def)
  moreover have "window (addMarker mt mk txt b) = window b" "window (clearSeries b) = []"
    by (simp_all add: window_def addMarker_def clearSeries_def pointAt_def time_def running_def)
  ultimately show ?thesis using r window_push [OF r, of t run] by (simp add: ringOk_def window_release)
qed

text \<open>A key a chart still draws is never taken away: after releasing dead columns, a column that shows a value at any point of the window has its
  key, and looking the key up still finds that column.\<close>

theorem shown_column_kept:
  assumes "series_init b0" "series_step\<^sup>*\<^sup>* b0 b" "j < length (m_columns b)" "key (m_columns b ! j) = k" "k \<noteq> []"
    "p \<in> set (window b)" "snd (snd p) ! j \<noteq> None"
  shows "key (m_columns (releaseDeadColumns keep b) ! j) = k \<and> findColumn k (releaseDeadColumns keep b) = int j"
proof -
  have inv: "serialOk b" "indexOk b" using series.inv_reachable [OF assms(1,2)] by (simp_all add: seriesInv_def)
  obtain i where i: "i < m_size b" "p = pointAt b i" using assms(6) by (auto simp: window_def)
  then have "vals (m_columns b ! j) ! slot b i \<noteq> None" using assms(3,7) by (simp add: pointAt_def)
  then have "m_serial b - int (m_size b) + int i \<le> lastSerial (m_columns b ! j)" using serialOkD [OF inv(1)] i(1) assms(3) by simp
  then have k: "key (m_columns (releaseDeadColumns keep b) ! j) = k" using assms(3,4) by (simp add: release_fields)
  have "indexOk (releaseDeadColumns keep b)" by (rule indexOk_release [OF inv(2)])
  then have "m_index (releaseDeadColumns keep b) k = Some j" using k assms(3,5) by (simp add: indexOk_def release_fields(1))
  then show ?thesis using k by (simp add: findColumn_def)
qed

text \<open>A ring of capacity 2 with one column, full, its last point showing a value.\<close>

definition demoSeries :: SeriesBuffer where
  "demoSeries = setLatest 0 (Some 5) (push 2 True (push 1 False (snd (addColumn [97] (newSeries 2)))))"

lemma demoSeries_reachable: "series_init (newSeries 2) \<and> series_step\<^sup>*\<^sup>* (newSeries 2) demoSeries"
proof -
  have "series_step (newSeries 2) (snd (addColumn [97] (newSeries 2)))" by (rule step_add) simp
  then have "series_step\<^sup>*\<^sup>* (newSeries 2) demoSeries"
    unfolding demoSeries_def by (meson r_into_rtranclp rtranclp.rtrancl_into_rtrancl step_push step_set)
  then show ?thesis by (auto simp: series_init_def)
qed

lemma demoSeries_eq: "demoSeries =
  \<lparr>m_capacity = 2, m_head = 0, m_size = 2, m_serial = 2, m_times = [1, 2], m_running = [False, True],
   m_columns = [\<lparr>key = [97], vals = [None, Some 5], lastSerial = 1\<rparr>], m_index = [[97] \<mapsto> 0], m_markers = []\<rparr>"
  by (simp add: demoSeries_def newSeries_def addColumn_def push_def setLatest_def slot_def Let_def numeral_2_eq_2)

lemma demoSeries_window: "window demoSeries = [(1, False, [None]), (2, True, [Some 5])]"
  by (simp add: demoSeries_eq window_def pointAt_def time_def running_def slot_def numeral_2_eq_2)

theorem series_refines_points_witness:
  "window (push 3 True demoSeries) = [(2, True, [Some 5]), (3, True, [None])]"
  using series_refines_points [of "newSeries 2" demoSeries 3 True] demoSeries_reachable demoSeries_window
  by (simp add: demoSeries_eq)

theorem shown_column_kept_witness:
  "key (m_columns (releaseDeadColumns [] demoSeries) ! 0) = [97] \<and> findColumn [97] (releaseDeadColumns [] demoSeries) = int 0"
  by (rule shown_column_kept [of "newSeries 2" _ _ _ "(2, True, [Some 5])"])
    (use demoSeries_reachable demoSeries_window in \<open>simp_all add: demoSeries_eq\<close>)

subsection \<open>Searching\<close>

lemma lowerLoop_spec:
  "lo \<le> hi \<Longrightarrow> \<forall>i j. i \<le> j \<longrightarrow> j < n \<longrightarrow> time b i \<le> time b j \<Longrightarrow> hi \<le> n \<Longrightarrow> (\<forall>i < lo. time b i < t) \<Longrightarrow> (\<forall>i. hi \<le> i \<longrightarrow> i < n \<longrightarrow> t \<le> time b i) \<Longrightarrow>
   lowerLoop b t lo hi \<le> n \<and> (\<forall>i < lowerLoop b t lo hi. time b i < t) \<and> (\<forall>i. lowerLoop b t lo hi \<le> i \<longrightarrow> i < n \<longrightarrow> t \<le> time b i)"
proof (induction b t lo hi rule: lowerLoop.induct)
  case (1 b t lo hi)
  define mid where "mid = (lo + hi) div 2"
  show ?case
  proof (cases "lo < hi")
    case True
    then have m: "lo \<le> mid" "mid < hi" by (simp_all add: mid_def)
    show ?thesis
    proof (cases "time b mid < t")
      case less: True
      have "\<forall>i < mid + 1. time b i < t" using less m "1.prems"(2,3) by (metis Suc_eq_plus1 le_less_trans less_Suc_eq_le less_le_trans)
      then have "lowerLoop b t (mid + 1) hi \<le> n \<and> (\<forall>i < lowerLoop b t (mid + 1) hi. time b i < t) \<and> (\<forall>i. lowerLoop b t (mid + 1) hi \<le> i \<longrightarrow> i < n \<longrightarrow> t \<le> time b i)"
        using m "1.prems" by (intro "1.IH"(1) [OF True mid_def less]) auto
      then show ?thesis using True less by (simp add: lowerLoop.simps [of b t lo hi] mid_def)
    next
      case False
      have "\<forall>i. mid \<le> i \<longrightarrow> i < n \<longrightarrow> t \<le> time b i" using False "1.prems"(2) by (meson not_less order_trans)
      then have "lowerLoop b t lo mid \<le> n \<and> (\<forall>i < lowerLoop b t lo mid. time b i < t) \<and> (\<forall>i. lowerLoop b t lo mid \<le> i \<longrightarrow> i < n \<longrightarrow> t \<le> time b i)"
        using m "1.prems" by (intro "1.IH"(2) [OF True mid_def False]) auto
      then show ?thesis using True False by (simp add: lowerLoop.simps [of b t lo hi] mid_def)
    qed
  next
    case False
    then have "lo = hi" using "1.prems"(1) by simp
    moreover have "lowerLoop b t hi hi = hi" by (simp add: lowerLoop.simps)
    ultimately show ?thesis using "1.prems" by simp
  qed
qed

lemma lower_bound_first:
  assumes "sorted (map fst (window b))"
  shows "lowerBound t b = length (takeWhile (\<lambda>p. fst p < t) (window b))"
proof -
  have mono: "time b i \<le> time b j" if "i \<le> j" "j < m_size b" for i j
    using sorted_nth_mono [OF assms that(1)] that by (simp add: window_nth pointAt_def)
  have s: "lowerBound t b \<le> m_size b" "\<forall>i < lowerBound t b. time b i < t" "\<forall>i. lowerBound t b \<le> i \<longrightarrow> i < m_size b \<longrightarrow> t \<le> time b i"
    using lowerLoop_spec [of 0 "m_size b" "m_size b" b t] mono by (auto simp: lowerBound_def)
  show ?thesis
  proof (cases "lowerBound t b < m_size b")
    case True
    then have "takeWhile (\<lambda>p. fst p < t) (window b) = take (lowerBound t b) (window b)"
      using s by (intro takeWhile_eq_take_P_nth) (auto simp: window_nth pointAt_def)
    then show ?thesis using s(1) by simp
  next
    case False
    then have "\<forall>p \<in> set (window b). fst p < t" using s(1,2) by (auto simp: window_def pointAt_def)
    then show ?thesis using False s(1) by (simp add: takeWhile_eq_all_conv [THEN iffD2])
  qed
qed

end
