(* ===== verification/Subscription_Reconcile.thy ===== *)
theory Subscription_Reconcile
  imports Wd_Prelude
begin

text \<open>
  The difference a subscription refresh applies: \<^verbatim>\<open>src/src/configs/sub/SubscriptionReconcile.cpp\<close> with its header, and the import sink of
  \<^verbatim>\<open>src/src/configs/sub/GroupUpdater.cpp\<close> that feeds it.

  Digests are byte lists. A parsed profile is what the sink reads of it: its two digests and its display name. The database rows a batch insert
  creates are an argument: \<open>batch k\<close> is \<open>None\<close> when the k-th insert fails and otherwise the ids of its rows and their group. \<open>QHash\<close> of
  lists is a function to lists, an absent key reading as the empty list, as in the code, where both lead to the same branch.

  Results: however the arrivals are cut into batches and whichever inserts fail, the plan splits the rows, old and new, into those the group shows, each
  once, and those to delete; every old profile is claimed by at most one arrival, with the same content, and as many are claimed as the
  arrivals allow; an update pairs equal identities and different contents.
\<close>

type_synonym digest = "nat list"

record ProfileKeys =
  content :: digest
  identity :: digest

record OldEntry =
  oldId :: int
  oldKeys :: ProfileKeys
  oldDisplay :: qstring

record NewEntry =
  newId :: int
  reused :: bool
  contentKnown :: bool
  newKeys :: ProfileKeys
  newDisplay :: qstring

subsection \<open>The content index\<close>

record ContentIndex =
  unclaimed :: "digest \<Rightarrow> int list"
  known :: "digest list"
  arrivals :: "digest list"
  claimedIds :: "int list"

definition indexOld :: "OldEntry \<Rightarrow> ContentIndex \<Rightarrow> ContentIndex" where
  "indexOld e ix =
     (let c = content (oldKeys e)
      in ix\<lparr>unclaimed := (unclaimed ix)(c := unclaimed ix c @ [oldId e]), known := List.insert c (known ix)\<rparr>)"

definition newIndex :: "OldEntry list \<Rightarrow> ContentIndex" where
  "newIndex old = fold indexOld old \<lparr>unclaimed = (\<lambda>_. []), known = [], arrivals = [], claimedIds = []\<rparr>"

definition knows :: "ContentIndex \<Rightarrow> digest \<Rightarrow> bool" where
  "knows ix c \<longleftrightarrow> c \<in> set (known ix)"

definition noteArrival :: "digest \<Rightarrow> ContentIndex \<Rightarrow> ContentIndex" where
  "noteArrival c ix = ix\<lparr>arrivals := List.insert c (arrivals ix)\<rparr>"

definition arrived :: "ContentIndex \<Rightarrow> digest \<Rightarrow> bool" where
  "arrived ix c \<longleftrightarrow> c \<in> set (arrivals ix)"

definition isClaimed :: "ContentIndex \<Rightarrow> int \<Rightarrow> bool" where
  "isClaimed ix i \<longleftrightarrow> i \<in> set (claimedIds ix)"

definition claim :: "digest \<Rightarrow> ContentIndex \<Rightarrow> int option \<times> ContentIndex" where
  "claim c ix =
     (case unclaimed ix c of
        [] \<Rightarrow> (None, ix)
      | i # rest \<Rightarrow> (Some i, ix\<lparr>unclaimed := (unclaimed ix)(c := rest), claimedIds := List.insert i (claimedIds ix)\<rparr>))"

subsection \<open>The import sink\<close>

record Parsed =
  contentKeyOf :: digest
  identityKeyOf :: digest
  displayOf :: qstring

type_synonym batches = "nat \<Rightarrow> ((nat \<Rightarrow> int) \<times> int) option"

record ImportSink =
  entries :: "NewEntry list"
  destination :: int
  addedRows :: "int list"
  sinkIndex :: "ContentIndex option"
  chunk :: "Parsed list"
  entryIndex :: "nat list"
  inserts :: nat

definition kInsertChunk :: nat where "kInsertChunk = 500"

definition newSink :: "ContentIndex option \<Rightarrow> ImportSink" where
  "newSink ix = \<lparr>entries = [], destination = - 1, addedRows = [], sinkIndex = ix, chunk = [], entryIndex = [], inserts = 0\<rparr>"

definition setRow :: "(nat \<Rightarrow> int) \<Rightarrow> nat list \<Rightarrow> nat \<Rightarrow> NewEntry list \<Rightarrow> NewEntry list" where
  "setRow ids at i es = es[at ! i := (es ! (at ! i))\<lparr>newId := ids i\<rparr>]"

definition flush :: "batches \<Rightarrow> ImportSink \<Rightarrow> ImportSink" where
  "flush batch sk =
     (if chunk sk = [] then sk
      else
        let sk' = (case batch (inserts sk) of
              None \<Rightarrow> sk
            | Some (ids, gid) \<Rightarrow>
                sk\<lparr>entries := fold (setRow ids (entryIndex sk)) [0..<length (chunk sk)] (entries sk),
                   addedRows := addedRows sk @ map ids [0..<length (chunk sk)], destination := gid\<rparr>)
        in sk'\<lparr>chunk := [], entryIndex := [], inserts := inserts sk + 1\<rparr>)"

definition queueNew :: "batches \<Rightarrow> NewEntry \<Rightarrow> Parsed \<Rightarrow> ImportSink \<Rightarrow> ImportSink" where
  "queueNew batch e p sk =
     (let sk = sk\<lparr>entryIndex := entryIndex sk @ [length (entries sk)], entries := entries sk @ [e], chunk := chunk sk @ [p]\<rparr>
      in if length (chunk sk) \<ge> kInsertChunk then flush batch sk else sk)"

definition addParsed :: "batches \<Rightarrow> Parsed \<Rightarrow> ImportSink \<Rightarrow> ImportSink" where
  "addParsed batch p sk =
     (let e = \<lparr>newId = - 1, reused = False, contentKnown = False, newKeys = \<lparr>content = [], identity = []\<rparr>, newDisplay = displayOf p\<rparr>
      in case sinkIndex sk of
           None \<Rightarrow> queueNew batch e p sk
         | Some ix \<Rightarrow>
             let c = contentKeyOf p;
                 ix = noteArrival c ix;
                 e = e\<lparr>newKeys := \<lparr>content = c, identity = []\<rparr>, contentKnown := knows ix c\<rparr>;
                 (claimed, ix) = claim c ix;
                 sk = sk\<lparr>sinkIndex := Some ix\<rparr>
             in case claimed of
                  Some i \<Rightarrow> sk\<lparr>entries := entries sk @ [e\<lparr>newId := i, reused := True\<rparr>]\<rparr>
                | None \<Rightarrow>
                    queueNew batch (if \<not> contentKnown e then e\<lparr>newKeys := \<lparr>content = c, identity = identityKeyOf p\<rparr>\<rparr> else e) p sk)"

definition stored :: "ImportSink \<Rightarrow> nat" where
  "stored sk = length (filter (\<lambda>e. newId e \<ge> 0) (entries sk))"

definition storedIds :: "ImportSink \<Rightarrow> int list" where
  "storedIds sk = filter (\<lambda>i. i \<ge> 0) (map newId (entries sk))"

text \<open>The refresh feeds every parsed profile to the sink and flushes what is left.\<close>

definition importAll :: "batches \<Rightarrow> OldEntry list \<Rightarrow> Parsed list \<Rightarrow> ImportSink" where
  "importAll batch old ps = flush batch (fold (addParsed batch) ps (newSink (Some (newIndex old))))"

subsection \<open>The plan\<close>

record ReconcilePlan =
  order :: "int list"
  updates :: "(int \<times> int) list"
  stale :: "int list"
  addedNames :: "qstring list"
  updatedNames :: "qstring list"
  deletedNames :: "qstring list"

definition leftoverStep :: "ContentIndex \<Rightarrow> OldEntry \<Rightarrow> (digest \<Rightarrow> int list) \<Rightarrow> digest \<Rightarrow> int list" where
  "leftoverStep ix e left =
     (if isClaimed ix (oldId e) \<or> arrived ix (content (oldKeys e)) then left
      else left(identity (oldKeys e) := left (identity (oldKeys e)) @ [oldId e]))"

definition leftoverByIdentity :: "OldEntry list \<Rightarrow> ContentIndex \<Rightarrow> digest \<Rightarrow> int list" where
  "leftoverByIdentity old ix = fold (leftoverStep ix) old (\<lambda>_. [])"

type_synonym pairing = "(digest \<Rightarrow> int list) \<times> (int \<times> int) list \<times> qstring list"

definition pairEntry :: "NewEntry \<Rightarrow> pairing \<Rightarrow> pairing" where
  "pairEntry e st =
     (case st of (left, ups, names) \<Rightarrow>
        if newId e < 0 \<or> reused e \<or> contentKnown e then st
        else case left (identity (newKeys e)) of
               [] \<Rightarrow> st
             | o1 # rest \<Rightarrow> (left(identity (newKeys e) := rest), ups @ [(o1, newId e)], names @ [newDisplay e]))"

definition supersededBy :: "(int \<times> int) list \<Rightarrow> int \<Rightarrow> int option" where
  "supersededBy ups i = map_of (map (\<lambda>(o1, n1). (n1, o1)) (rev ups)) i"

definition staleStep :: "ContentIndex \<Rightarrow> (int \<times> int) list \<Rightarrow> OldEntry \<Rightarrow> ReconcilePlan \<Rightarrow> ReconcilePlan" where
  "staleStep ix ups e plan =
     (if isClaimed ix (oldId e) \<or> oldId e \<in> set (map fst ups) then plan
      else plan\<lparr>stale := stale plan @ [oldId e], deletedNames := deletedNames plan @ [oldDisplay e]\<rparr>)"

definition orderStep :: "(int \<times> int) list \<Rightarrow> NewEntry \<Rightarrow> ReconcilePlan \<Rightarrow> ReconcilePlan" where
  "orderStep ups e plan =
     (if newId e < 0 then plan
      else if reused e then plan\<lparr>order := order plan @ [newId e]\<rparr>
      else case supersededBy ups (newId e) of
             Some o1 \<Rightarrow> plan\<lparr>order := order plan @ [o1], stale := stale plan @ [newId e]\<rparr>
           | None \<Rightarrow> plan\<lparr>order := order plan @ [newId e], addedNames := addedNames plan @ [newDisplay e]\<rparr>)"

definition Reconcile :: "OldEntry list \<Rightarrow> NewEntry list \<Rightarrow> ContentIndex \<Rightarrow> ReconcilePlan" where
  "Reconcile old incoming ix =
     (let (_, ups, names) = fold pairEntry incoming (leftoverByIdentity old ix, [], []);
          plan = \<lparr>order = [], updates = ups, stale = [], addedNames = [], updatedNames = names, deletedNames = []\<rparr>;
          plan = fold (staleStep ix ups) old plan
      in fold (orderStep ups) incoming plan)"

definition refreshPlan :: "batches \<Rightarrow> OldEntry list \<Rightarrow> Parsed list \<Rightarrow> ReconcilePlan" where
  "refreshPlan batch old ps =
     (let sk = importAll batch old ps
      in case sinkIndex sk of None \<Rightarrow> Reconcile old (entries sk) (newIndex old) | Some ix \<Rightarrow> Reconcile old (entries sk) ix)"

subsection \<open>What the content pass hands over\<close>

definition importOk :: "OldEntry list \<Rightarrow> NewEntry list \<Rightarrow> ContentIndex \<Rightarrow> bool" where
  "importOk old incoming ix \<longleftrightarrow>
     distinct (map oldId old) \<and> distinct (filter (\<lambda>i. 0 \<le> i) (map newId incoming))
     \<and> (\<forall>e \<in> set incoming. reused e \<longrightarrow> 0 \<le> newId e \<and> newId e \<in> oldId ` set old \<and> isClaimed ix (newId e))
     \<and> (\<forall>e \<in> set incoming. \<not> reused e \<longrightarrow> 0 \<le> newId e \<longrightarrow> newId e \<notin> oldId ` set old)
     \<and> (\<forall>i. isClaimed ix i \<longrightarrow> (\<exists>e \<in> set incoming. reused e \<and> newId e = i))"

definition leftover :: "OldEntry list \<Rightarrow> ContentIndex \<Rightarrow> digest \<Rightarrow> int list" where
  "leftover old ix d =
     map oldId (filter (\<lambda>e. \<not> isClaimed ix (oldId e) \<and> \<not> arrived ix (content (oldKeys e)) \<and> identity (oldKeys e) = d) old)"

lemma leftover_fold: "fold (leftoverStep ix) old left d = left d @ leftover old ix d"
  by (induction old arbitrary: left) (auto simp: leftoverStep_def leftover_def)

lemma leftover_identity: "leftoverByIdentity old ix = leftover old ix"
  by (simp add: leftoverByIdentity_def leftover_fold fun_eq_iff)

lemma leftover_disjoint: "distinct (map oldId old) \<Longrightarrow> i \<in> set (leftover old ix d) \<Longrightarrow> i \<in> set (leftover old ix d') \<Longrightarrow> d = d'"
  by (auto simp: leftover_def distinct_map inj_on_def)

subsection \<open>Pairing by identity\<close>

definition mayPair :: "NewEntry \<Rightarrow> bool" where
  "mayPair e \<longleftrightarrow> 0 \<le> newId e \<and> \<not> reused e \<and> \<not> contentKnown e"

definition pairingOk :: "OldEntry list \<Rightarrow> ContentIndex \<Rightarrow> NewEntry list \<Rightarrow> pairing \<Rightarrow> bool" where
  "pairingOk old ix done st \<longleftrightarrow> (case st of (left, ups, names) \<Rightarrow>
     (\<forall>d. distinct (left d) \<and> set (left d) \<subseteq> set (leftover old ix d) \<and> set (left d) \<inter> fst ` set ups = {})
     \<and> distinct (map fst ups) \<and> distinct (map snd ups)
     \<and> (\<forall>(o1, n1) \<in> set ups. \<exists>e \<in> set done. mayPair e \<and> newId e = n1 \<and> o1 \<in> set (leftover old ix (identity (newKeys e)))))"

lemma pairing_start: "distinct (map oldId old) \<Longrightarrow> pairingOk old ix [] (leftoverByIdentity old ix, [], [])"
  by (auto simp: pairingOk_def leftover_identity leftover_def distinct_map inj_on_def)

lemma pairing_step:
  assumes "pairingOk old ix done st" "distinct (map oldId old)" "0 \<le> newId e \<Longrightarrow> newId e \<notin> newId ` set done"
  shows "pairingOk old ix (done @ [e]) (pairEntry e st)"
proof -
  obtain left ups names where st: "st = (left, ups, names)" by (cases st)
  note ok = assms(1) [unfolded pairingOk_def st prod.case]
  show ?thesis
  proof (cases "mayPair e \<and> left (identity (newKeys e)) \<noteq> []")
    case True
    then obtain o1 rest where l: "left (identity (newKeys e)) = o1 # rest" by (cases "left (identity (newKeys e))") auto
    have o1: "o1 \<in> set (leftover old ix (identity (newKeys e)))" "o1 \<notin> set rest" "o1 \<notin> fst ` set ups" "distinct rest"
      using ok l by (metis IntI distinct.simps(2) empty_iff list.set_intros(1) subsetD)+
    have other: "o1 \<notin> set (left d)" if "d \<noteq> identity (newKeys e)" for d
      using leftover_disjoint [OF assms(2) o1(1), of d] ok that by blast
    have n: "newId e \<notin> snd ` set ups" using ok assms(3) True by (force simp: mayPair_def)
    let ?left = "left(identity (newKeys e) := rest)" and ?ups = "ups @ [(o1, newId e)]"
    have p: "pairEntry e st = (?left, ?ups, names @ [newDisplay e])"
      using True l by (auto simp: pairEntry_def st mayPair_def)
    have "distinct (?left d) \<and> set (?left d) \<subseteq> set (leftover old ix d) \<and> set (?left d) \<inter> fst ` set ?ups = {}" for d
    proof (cases "d = identity (newKeys e)")
      case True
      have "set (left d) \<subseteq> set (leftover old ix d)" "set (left d) \<inter> fst ` set ups = {}" using ok by blast+
      then show ?thesis using True l o1 by auto
    next
      case False
      have "distinct (left d)" "set (left d) \<subseteq> set (leftover old ix d)" "set (left d) \<inter> fst ` set ups = {}" using ok by blast+
      then show ?thesis using False other [OF False] by auto
    qed
    moreover have "distinct (map fst ?ups)" "distinct (map snd ?ups)" using ok o1(3) n by auto
    moreover have "\<forall>(o2, n2) \<in> set ?ups. \<exists>x \<in> set (done @ [e]). mayPair x \<and> newId x = n2 \<and> o2 \<in> set (leftover old ix (identity (newKeys x)))"
      using ok o1(1) True by fastforce
    ultimately show ?thesis unfolding pairingOk_def p prod.case by blast
  next
    case False
    then have "pairEntry e st = st" by (auto simp: pairEntry_def st mayPair_def split: list.split)
    then show ?thesis using ok by (force simp: pairingOk_def st)
  qed
qed

lemma pairing_all:
  assumes "distinct (map oldId old)" "distinct (filter (\<lambda>i. 0 \<le> i) (map newId incoming))"
  shows "pairingOk old ix incoming (fold pairEntry incoming (leftoverByIdentity old ix, [], []))"
  using assms(2)
proof (induction incoming rule: rev_induct)
  case (snoc e es)
  then have "pairingOk old ix es (fold pairEntry es (leftoverByIdentity old ix, [], []))" by simp
  moreover have "0 \<le> newId e \<Longrightarrow> newId e \<notin> newId ` set es" using snoc.prems by auto
  ultimately show ?case using pairing_step assms(1) by simp
qed (use assms pairing_start in simp)

text \<open>No pair is left out: an arrival stays without one only when every candidate with its identity is taken.\<close>

definition pairingFull :: "OldEntry list \<Rightarrow> ContentIndex \<Rightarrow> NewEntry list \<Rightarrow> pairing \<Rightarrow> bool" where
  "pairingFull old ix done st \<longleftrightarrow> (case st of (left, ups, names) \<Rightarrow>
     (\<forall>d. set (leftover old ix d) \<subseteq> set (left d) \<union> fst ` set ups)
     \<and> (\<forall>e \<in> set done. mayPair e \<and> newId e \<notin> snd ` set ups \<longrightarrow> left (identity (newKeys e)) = []))"

lemma pairingFull_step:
  assumes "pairingFull old ix done st"
  shows "pairingFull old ix (done @ [e]) (pairEntry e st)"
proof -
  obtain left ups names where st: "st = (left, ups, names)" by (cases st)
  have ok: "set (leftover old ix d) \<subseteq> set (left d) \<union> fst ` set ups"
    "x \<in> set done \<Longrightarrow> mayPair x \<Longrightarrow> newId x \<notin> snd ` set ups \<Longrightarrow> left (identity (newKeys x)) = []" for d x
    using assms by (auto simp: pairingFull_def st)
  show ?thesis
  proof (cases "mayPair e \<and> left (identity (newKeys e)) \<noteq> []")
    case True
    then obtain o1 rest where l: "left (identity (newKeys e)) = o1 # rest" by (cases "left (identity (newKeys e))") auto
    let ?left = "left(identity (newKeys e) := rest)" and ?ups = "ups @ [(o1, newId e)]"
    have p: "pairEntry e st = (?left, ?ups, names @ [newDisplay e])"
      using True l by (auto simp: pairEntry_def st mayPair_def)
    have "set (leftover old ix d) \<subseteq> set (?left d) \<union> fst ` set ?ups" for d using ok(1) [of d] l by auto
    moreover have "?left (identity (newKeys x)) = []" if x: "x \<in> set (done @ [e])" "mayPair x" "newId x \<notin> snd ` set ?ups" for x
    proof -
      have "x \<in> set done" "newId x \<notin> snd ` set ups" using x by auto
      then have "left (identity (newKeys x)) = []" using ok(2) x(2) by blast
      then show ?thesis using l by (cases "identity (newKeys x) = identity (newKeys e)") simp_all
    qed
    ultimately show ?thesis unfolding pairingFull_def p prod.case by blast
  next
    case False
    then have "pairEntry e st = st" by (auto simp: pairEntry_def st mayPair_def split: list.split)
    then show ?thesis using ok False by (auto simp: pairingFull_def st)
  qed
qed

lemma pairingFull_all: "pairingFull old ix incoming (fold pairEntry incoming (leftoverByIdentity old ix, [], []))"
  by (induction incoming rule: rev_induct) (simp_all add: pairingFull_step, simp add: pairingFull_def leftover_identity)

subsection \<open>The plan as lists\<close>

lemma staleStep_fold:
  "fold (staleStep ix ups) old plan =
     plan\<lparr>stale := stale plan @ map oldId (filter (\<lambda>e. \<not> isClaimed ix (oldId e) \<and> oldId e \<notin> fst ` set ups) old),
          deletedNames := deletedNames plan @ map oldDisplay (filter (\<lambda>e. \<not> isClaimed ix (oldId e) \<and> oldId e \<notin> fst ` set ups) old)\<rparr>"
  by (induction old arbitrary: plan) (auto simp: staleStep_def)

definition target :: "(int \<times> int) list \<Rightarrow> NewEntry \<Rightarrow> int" where
  "target ups e = (if reused e then newId e else case supersededBy ups (newId e) of Some o1 \<Rightarrow> o1 | None \<Rightarrow> newId e)"

lemma orderStep_fold:
  "order (fold (orderStep ups) es plan) = order plan @ map (target ups) (filter (\<lambda>e. 0 \<le> newId e) es)"
  "stale (fold (orderStep ups) es plan) = stale plan @ map newId (filter (\<lambda>e. 0 \<le> newId e \<and> \<not> reused e \<and> supersededBy ups (newId e) \<noteq> None) es)"
  "updates (fold (orderStep ups) es plan) = updates plan"
  by (induction es arbitrary: plan) (auto simp: orderStep_def target_def split: option.splits)

lemma superseded_iff: "distinct (map snd ups) \<Longrightarrow> supersededBy ups n = Some o1 \<longleftrightarrow> (o1, n) \<in> set ups"
proof -
  assume "distinct (map snd ups)"
  then have "distinct (map fst (map (\<lambda>(o1, n1). (n1, o1)) (rev ups)))" by (simp add: rev_map [symmetric] comp_def case_prod_beta)
  then show ?thesis by (force simp: supersededBy_def dest: map_of_SomeD)
qed

lemma distinct_entries: "distinct (filter (\<lambda>i. 0 \<le> i) (map newId es)) \<Longrightarrow> distinct (map newId (filter (\<lambda>e. 0 \<le> newId e) es))"
  by (simp add: filter_map comp_def)

text \<open>The pairs a reconciliation may make.\<close>

definition pairsOk :: "OldEntry list \<Rightarrow> NewEntry list \<Rightarrow> ContentIndex \<Rightarrow> (int \<times> int) list \<Rightarrow> bool" where
  "pairsOk old incoming ix ups \<longleftrightarrow> distinct (map fst ups) \<and> distinct (map snd ups)
     \<and> (\<forall>(o1, n1) \<in> set ups. \<exists>e \<in> set incoming. mayPair e \<and> newId e = n1 \<and> o1 \<in> set (leftover old ix (identity (newKeys e))))"

definition pairsFull :: "OldEntry list \<Rightarrow> NewEntry list \<Rightarrow> ContentIndex \<Rightarrow> (int \<times> int) list \<Rightarrow> bool" where
  "pairsFull old incoming ix ups \<longleftrightarrow>
     (\<forall>e \<in> set incoming. mayPair e \<and> newId e \<notin> snd ` set ups \<longrightarrow> set (leftover old ix (identity (newKeys e))) \<subseteq> fst ` set ups)"

lemma reconcile_full: "pairsFull old incoming ix (updates (Reconcile old incoming ix))"
proof -
  obtain left ups names where f: "fold pairEntry incoming (leftoverByIdentity old ix, [], []) = (left, ups, names)" by (metis prod_cases3)
  have full: "pairingFull old ix incoming (left, ups, names)" using pairingFull_all [of old ix incoming] by (simp add: f)
  have "set (leftover old ix (identity (newKeys e))) \<subseteq> fst ` set ups" if "e \<in> set incoming" "mayPair e" "newId e \<notin> snd ` set ups" for e
  proof -
    have "set (leftover old ix (identity (newKeys e))) \<subseteq> set (left (identity (newKeys e))) \<union> fst ` set ups" "left (identity (newKeys e)) = []"
      using full that unfolding pairingFull_def prod.case by blast+
    then show ?thesis by simp
  qed
  moreover have "updates (Reconcile old incoming ix) = ups" by (simp add: Reconcile_def f orderStep_fold staleStep_fold)
  ultimately show ?thesis by (simp add: pairsFull_def)
qed

lemma reconcile_lists:
  assumes "importOk old incoming ix"
  obtains ups where "pairsOk old incoming ix ups" "updates (Reconcile old incoming ix) = ups"
    "order (Reconcile old incoming ix) = map (target ups) (filter (\<lambda>e. 0 \<le> newId e) incoming)"
    "stale (Reconcile old incoming ix) = map oldId (filter (\<lambda>e. \<not> isClaimed ix (oldId e) \<and> oldId e \<notin> fst ` set ups) old)
        @ map newId (filter (\<lambda>e. 0 \<le> newId e \<and> \<not> reused e \<and> supersededBy ups (newId e) \<noteq> None) incoming)"
proof -
  obtain left ups names where f: "fold pairEntry incoming (leftoverByIdentity old ix, [], []) = (left, ups, names)" by (metis prod_cases3)
  have "pairingOk old ix incoming (left, ups, names)" using pairing_all [of old incoming ix] assms by (simp add: importOk_def f)
  then have "pairsOk old incoming ix ups" by (simp add: pairingOk_def pairsOk_def)
  then show ?thesis using that [of ups] by (simp add: Reconcile_def f orderStep_fold staleStep_fold)
qed

lemma target_split:
  assumes "importOk old incoming ix" "pairsOk old incoming ix ups" "e \<in> set (filter (\<lambda>e. 0 \<le> newId e) incoming)"
  obtains (claimed) "reused e" "target ups e = newId e" "isClaimed ix (newId e)" "newId e \<in> oldId ` set old"
  | (updated) o1 where "\<not> reused e" "target ups e = o1" "(o1, newId e) \<in> set ups" "\<not> isClaimed ix o1" "o1 \<in> oldId ` set old" "newId e \<notin> oldId ` set old"
  | (fresh) "\<not> reused e" "target ups e = newId e" "newId e \<notin> oldId ` set old" "newId e \<notin> snd ` set ups"
proof (cases "reused e")
  case True
  then show ?thesis using claimed assms(1,3) by (auto simp: importOk_def target_def)
next
  case False
  then have no: "newId e \<notin> oldId ` set old" using assms(1,3) by (auto simp: importOk_def)
  have d: "distinct (map snd ups)" using assms(2) by (simp add: pairsOk_def)
  show ?thesis
  proof (cases "supersededBy ups (newId e)")
    case (Some o1)
    then have u: "(o1, newId e) \<in> set ups" using superseded_iff [OF d] by simp
    then have "\<not> isClaimed ix o1" "o1 \<in> oldId ` set old" using assms(2) by (auto simp: leftover_def pairsOk_def)
    then show ?thesis using updated False u Some no by (simp add: target_def)
  next
    case None
    then have "newId e \<notin> snd ` set ups" using superseded_iff [OF d] by (metis (no_types, lifting) imageE option.distinct(1) prod.collapse)
    then show ?thesis using fresh False None no by (simp add: target_def)
  qed
qed

lemma target_inj:
  assumes "importOk old incoming ix" "pairsOk old incoming ix ups"
  shows "inj_on (target ups) (set (filter (\<lambda>e. 0 \<le> newId e) incoming))"
proof (rule inj_onI)
  fix x y assume x: "x \<in> set (filter (\<lambda>e. 0 \<le> newId e) incoming)" and y: "y \<in> set (filter (\<lambda>e. 0 \<le> newId e) incoming)"
    and eq: "target ups x = target ups y"
  from assms x have "newId x = newId y"
  proof (cases rule: target_split)
    case claimed
    note c = this
    from assms y show ?thesis by (cases rule: target_split) (use c eq in auto)
  next
    case (updated o1)
    note c = this
    from assms y have "(o1, newId y) \<in> set ups" by (cases rule: target_split) (use c eq in auto)
    then show ?thesis using c(3) assms(2) eq_key_imp_eq_value [of ups o1] by (auto simp: pairsOk_def)
  next
    case fresh
    note c = this
    from assms y show ?thesis by (cases rule: target_split) (use c eq in auto)
  qed
  moreover have "inj_on newId (set (filter (\<lambda>e. 0 \<le> newId e) incoming))"
    using distinct_entries [of incoming] assms(1) by (simp add: importOk_def distinct_map)
  ultimately show "x = y" using x y by (blast dest: inj_onD)
qed

lemma superseded_set:
  assumes "pairsOk old incoming ix ups"
  shows "supersededBy ups n \<noteq> None \<longleftrightarrow> n \<in> snd ` set ups"
proof -
  have "supersededBy ups n \<noteq> None \<longleftrightarrow> (\<exists>o1. supersededBy ups n = Some o1)" by auto
  also have "\<dots> \<longleftrightarrow> (\<exists>o1. (o1, n) \<in> set ups)" using superseded_iff [of ups n] assms by (simp add: pairsOk_def)
  finally show ?thesis by force
qed

definition dropped :: "OldEntry list \<Rightarrow> NewEntry list \<Rightarrow> ContentIndex \<Rightarrow> (int \<times> int) list \<Rightarrow> int list" where
  "dropped old incoming ix ups = map oldId (filter (\<lambda>e. \<not> isClaimed ix (oldId e) \<and> oldId e \<notin> fst ` set ups) old)
     @ map newId (filter (\<lambda>e. 0 \<le> newId e \<and> \<not> reused e \<and> newId e \<in> snd ` set ups) incoming)"

lemma distinct_dropped:
  assumes "importOk old incoming ix"
  shows "distinct (dropped old incoming ix ups)"
proof -
  let ?n = "filter (\<lambda>e. 0 \<le> newId e \<and> \<not> reused e \<and> newId e \<in> snd ` set ups) incoming"
  have "?n = filter (\<lambda>e. \<not> reused e \<and> newId e \<in> snd ` set ups) (filter (\<lambda>e. 0 \<le> newId e) incoming)" by (simp add: conj_ac)
  moreover have "distinct (map newId (filter (\<lambda>e. 0 \<le> newId e) incoming))" using assms by (intro distinct_entries) (simp add: importOk_def)
  ultimately have "distinct (map newId ?n)" by (simp only: distinct_map_filter)
  moreover have "distinct (map oldId (filter (\<lambda>e. \<not> isClaimed ix (oldId e) \<and> oldId e \<notin> fst ` set ups) old))"
    using assms by (intro distinct_map_filter) (simp add: importOk_def)
  moreover have "newId ` set ?n \<inter> oldId ` set old = {}" using assms by (fastforce simp: importOk_def)
  ultimately show ?thesis by (auto simp: dropped_def)
qed

lemma in_dropped:
  "i \<in> set (dropped old incoming ix ups) \<Longrightarrow> (i \<in> oldId ` set old \<and> \<not> isClaimed ix i \<and> i \<notin> fst ` set ups) \<or> i \<in> snd ` set ups"
  by (auto simp: dropped_def)

lemma target_kept:
  assumes "importOk old incoming ix" "pairsOk old incoming ix ups" "e \<in> set (filter (\<lambda>e. 0 \<le> newId e) incoming)"
  shows "target ups e \<notin> set (dropped old incoming ix ups)" "target ups e \<in> oldId ` set old \<union> {i \<in> newId ` set incoming. 0 \<le> i}"
    "newId e \<in> target ups ` set (filter (\<lambda>e. 0 \<le> newId e) incoming) \<or> newId e \<in> set (dropped old incoming ix ups)"
proof -
  have old: "n \<in> snd ` set ups \<Longrightarrow> n \<notin> oldId ` set old" for n
    using assms(1,2) unfolding pairsOk_def importOk_def mayPair_def by force
  from assms show "target ups e \<notin> set (dropped old incoming ix ups)"
  proof (cases rule: target_split)
    case claimed
    then show ?thesis using old [of "newId e"] in_dropped [of "newId e" old incoming ix ups] by metis
  next
    case (updated o1)
    then have "o1 \<in> fst ` set ups" by force
    then show ?thesis using updated old [of o1] in_dropped [of o1 old incoming ix ups] by metis
  next
    case fresh
    then show ?thesis using in_dropped [of "newId e" old incoming ix ups] by metis
  qed
  from assms show "target ups e \<in> oldId ` set old \<union> {i \<in> newId ` set incoming. 0 \<le> i}"
    by (cases rule: target_split) (use assms(3) in auto)
  from assms show "newId e \<in> target ups ` set (filter (\<lambda>e. 0 \<le> newId e) incoming) \<or> newId e \<in> set (dropped old incoming ix ups)"
  proof (cases rule: target_split)
    case (updated o1)
    then have "newId e \<in> snd ` set ups" by force
    then show ?thesis using updated assms(3) by (auto simp: dropped_def)
  qed (use assms(3) in \<open>metis image_eqI\<close>)+
qed

lemma old_kept_or_dropped:
  assumes "importOk old incoming ix" "pairsOk old incoming ix ups" "i \<in> oldId ` set old"
  shows "i \<in> target ups ` set (filter (\<lambda>e. 0 \<le> newId e) incoming) \<or> i \<in> set (dropped old incoming ix ups)"
proof -
  consider "isClaimed ix i" | n where "(i, n) \<in> set ups" | "\<not> isClaimed ix i" "i \<notin> fst ` set ups" by force
  then show ?thesis
  proof cases
    case 1
    then obtain e where e: "e \<in> set incoming" "reused e" "newId e = i" using assms(1) by (auto simp: importOk_def)
    then have "0 \<le> newId e" "target ups e = i" using assms(1) by (auto simp: importOk_def target_def)
    then show ?thesis using e by auto
  next
    case 2
    then obtain e where e: "e \<in> set incoming" "mayPair e" "newId e = n" using assms(2) by (auto simp: pairsOk_def)
    then have "target ups e = i" using 2 superseded_iff [of ups n i] assms(2) by (simp add: target_def mayPair_def pairsOk_def)
    then show ?thesis using e by (auto simp: mayPair_def)
  next
    case 3
    then show ?thesis using assms(3) by (auto simp: dropped_def)
  qed
qed

lemma cover_both: "D \<subseteq> O' \<union> N \<Longrightarrow> A \<subseteq> O' \<union> N \<Longrightarrow> N \<subseteq> A \<union> D \<Longrightarrow> O' \<subseteq> A \<union> D \<Longrightarrow> A \<union> D = O' \<union> N"
  by blast

lemma reconcile_partition:
  assumes "importOk old incoming ix"
  shows "distinct (order (Reconcile old incoming ix) @ stale (Reconcile old incoming ix))"
    and "set (order (Reconcile old incoming ix) @ stale (Reconcile old incoming ix)) = oldId ` set old \<union> {i \<in> newId ` set incoming. 0 \<le> i}"
    and "length (order (Reconcile old incoming ix)) = length (filter (\<lambda>e. 0 \<le> newId e) incoming)"
    and "pairsOk old incoming ix (updates (Reconcile old incoming ix))"
proof -
  obtain ups where u: "pairsOk old incoming ix ups" "updates (Reconcile old incoming ix) = ups"
    and o: "order (Reconcile old incoming ix) = map (target ups) (filter (\<lambda>e. 0 \<le> newId e) incoming)"
    and st: "stale (Reconcile old incoming ix) = dropped old incoming ix ups"
  proof -
    obtain ups where u: "pairsOk old incoming ix ups" "updates (Reconcile old incoming ix) = ups"
      "order (Reconcile old incoming ix) = map (target ups) (filter (\<lambda>e. 0 \<le> newId e) incoming)"
      "stale (Reconcile old incoming ix) = map oldId (filter (\<lambda>e. \<not> isClaimed ix (oldId e) \<and> oldId e \<notin> fst ` set ups) old)
        @ map newId (filter (\<lambda>e. 0 \<le> newId e \<and> \<not> reused e \<and> supersededBy ups (newId e) \<noteq> None) incoming)"
      by (rule reconcile_lists [OF assms])
    then show ?thesis using that [of ups] by (simp only: dropped_def superseded_set [OF u(1)])
  qed
  have "distinct (filter (\<lambda>e. 0 \<le> newId e) incoming)" using assms distinct_entries [of incoming] by (auto simp: importOk_def distinct_map)
  then show "distinct (order (Reconcile old incoming ix) @ stale (Reconcile old incoming ix))"
    unfolding o st distinct_append distinct_map set_map
    using target_inj [OF assms u(1)] distinct_dropped [OF assms, of ups] target_kept(1) [OF assms u(1)] by blast
  let ?F = "set (filter (\<lambda>e. 0 \<le> newId e) incoming)" and ?D = "set (dropped old incoming ix ups)"
  have n: "{i \<in> newId ` set incoming. 0 \<le> i} = newId ` ?F" by auto
  have "target ups ` ?F \<union> ?D = oldId ` set old \<union> newId ` ?F"
  proof (rule cover_both)
    show "?D \<subseteq> oldId ` set old \<union> newId ` ?F" by (auto simp: dropped_def)
    show "target ups ` ?F \<subseteq> oldId ` set old \<union> newId ` ?F" using target_kept(2) [OF assms u(1)] unfolding n by (intro image_subsetI)
    show "newId ` ?F \<subseteq> target ups ` ?F \<union> ?D" using target_kept(3) [OF assms u(1)] by (intro image_subsetI) (simp only: Un_iff)
    show "oldId ` set old \<subseteq> target ups ` ?F \<union> ?D" using old_kept_or_dropped [OF assms u(1)] by (intro subsetI) simp
  qed
  then show "set (order (Reconcile old incoming ix) @ stale (Reconcile old incoming ix)) = oldId ` set old \<union> {i \<in> newId ` set incoming. 0 \<le> i}"
    unfolding n by (simp add: o st)
  show "length (order (Reconcile old incoming ix)) = length (filter (\<lambda>e. 0 \<le> newId e) incoming)" by (simp add: o)
  show "pairsOk old incoming ix (updates (Reconcile old incoming ix))" using u by simp
qed

subsection \<open>The import establishes it\<close>

definition idsOf :: "OldEntry list \<Rightarrow> digest \<Rightarrow> int list" where
  "idsOf old c = map oldId (filter (\<lambda>e. content (oldKeys e) = c) old)"

definition arrivalCount :: "Parsed list \<Rightarrow> digest \<Rightarrow> nat" where
  "arrivalCount ps c = length (filter (\<lambda>p. contentKeyOf p = c) ps)"

definition claimsOf :: "NewEntry list \<Rightarrow> digest \<Rightarrow> int list" where
  "claimsOf es c = map newId (filter (\<lambda>e. reused e \<and> content (newKeys e) = c) es)"

definition indexAfter :: "OldEntry list \<Rightarrow> Parsed list \<Rightarrow> ContentIndex \<Rightarrow> bool" where
  "indexAfter old ps ix \<longleftrightarrow> (\<forall>c. unclaimed ix c = drop (arrivalCount ps c) (idsOf old c))
     \<and> (\<forall>c. c \<in> set (known ix) \<longleftrightarrow> c \<in> (content \<circ> oldKeys) ` set old)
     \<and> set (arrivals ix) = contentKeyOf ` set ps
     \<and> set (claimedIds ix) = (\<Union>c. set (take (arrivalCount ps c) (idsOf old c)))"

lemma index_fold:
  "unclaimed (fold indexOld old ix) c = unclaimed ix c @ idsOf old c"
  "set (known (fold indexOld old ix)) = set (known ix) \<union> (content \<circ> oldKeys) ` set old"
  "arrivals (fold indexOld old ix) = arrivals ix" "claimedIds (fold indexOld old ix) = claimedIds ix"
  by (induction old arbitrary: ix) (auto simp: indexOld_def idsOf_def Let_def)

lemma index_start: "indexAfter old [] (newIndex old)"
  by (auto simp: indexAfter_def newIndex_def index_fold arrivalCount_def)

lemma take_drop_step: "drop n xs = x # rest \<Longrightarrow> take (Suc n) xs = take n xs @ [x] \<and> drop (Suc n) xs = rest"
  by (metis append_take_drop_id drop_Suc list.sel(3) nth_via_drop take_Suc_conv_app_nth tl_drop drop_eq_Nil list.distinct(1) not_le)

lemma arrivalCount_snoc: "arrivalCount (ps @ [p]) c = (if contentKeyOf p = c then Suc (arrivalCount ps c) else arrivalCount ps c)"
  by (simp add: arrivalCount_def)

lemma UN_insert_at:
  assumes "f' a = insert i (f a)" "\<And>c. c \<noteq> a \<Longrightarrow> f' c = f c"
  shows "(\<Union>c. f' c) = insert i (\<Union>c. f c)"
proof (intro equalityI UN_least insert_subsetI)
  show "f' c \<subseteq> insert i (\<Union>c. f c)" for c using assms by (cases "c = a") auto
  show "i \<in> (\<Union>c. f' c)" using assms(1) by (intro UN_I [of a]) auto
  show "f c \<subseteq> (\<Union>c. f' c)" for c using assms by (cases "c = a") auto
qed

lemma index_claim:
  assumes "indexAfter old ps ix" "claim (contentKeyOf p) (noteArrival (contentKeyOf p) ix) = (r, ix')"
  shows "indexAfter old (ps @ [p]) ix'"
    and "r = (case drop (arrivalCount ps (contentKeyOf p)) (idsOf old (contentKeyOf p)) of [] \<Rightarrow> None | i # _ \<Rightarrow> Some i)"
proof -
  let ?c = "contentKeyOf p"
  let ?left = "drop (arrivalCount ps ?c) (idsOf old ?c)"
  have u: "unclaimed ix ?c = ?left" using assms(1) by (simp add: indexAfter_def)
  show "r = (case ?left of [] \<Rightarrow> None | i # _ \<Rightarrow> Some i)"
    using assms(2) u by (auto simp: claim_def noteArrival_def split: list.splits)
  show "indexAfter old (ps @ [p]) ix'"
  proof (cases ?left)
    case Nil
    then have ix': "ix' = noteArrival ?c ix" using assms(2) u by (simp add: claim_def noteArrival_def)
    have "take (arrivalCount (ps @ [p]) c) (idsOf old c) = take (arrivalCount ps c) (idsOf old c)"
      "drop (arrivalCount (ps @ [p]) c) (idsOf old c) = drop (arrivalCount ps c) (idsOf old c)" for c
      using Nil by (auto simp: arrivalCount_snoc)
    then show ?thesis using assms(1) unfolding indexAfter_def ix' by (simp add: noteArrival_def insert_commute)
  next
    case (Cons i rest)
    note step = take_drop_step [OF Cons]
    have ix': "ix' = (noteArrival ?c ix)\<lparr>unclaimed := (unclaimed ix)(?c := rest), claimedIds := List.insert i (claimedIds ix)\<rparr>"
      using assms(2) u Cons by (simp add: claim_def noteArrival_def)
    have "(\<Union>c. set (take (arrivalCount (ps @ [p]) c) (idsOf old c))) = insert i (\<Union>c. set (take (arrivalCount ps c) (idsOf old c)))"
      using step by (intro UN_insert_at [of _ ?c]) (auto simp: arrivalCount_snoc)
    then show ?thesis using assms(1) step unfolding indexAfter_def ix' by (auto simp: noteArrival_def arrivalCount_snoc)
  qed
qed

text \<open>What the database gives: new rows have ids of their own.\<close>

definition freshRows :: "batches \<Rightarrow> OldEntry list \<Rightarrow> bool" where
  "freshRows batch old \<longleftrightarrow>
     (\<forall>k ids gid i. batch k = Some (ids, gid) \<longrightarrow> 0 \<le> ids i \<and> ids i \<notin> oldId ` set old)
     \<and> (\<forall>k ids gid i k' ids' gid' i'. batch k = Some (ids, gid) \<longrightarrow> batch k' = Some (ids', gid') \<longrightarrow> ids i = ids' i' \<longrightarrow> k = k' \<and> i = i')"

definition fromBatch :: "batches \<Rightarrow> nat \<Rightarrow> int \<Rightarrow> bool" where
  "fromBatch batch n i \<longleftrightarrow> (\<exists>k < n. \<exists>ids gid j. batch k = Some (ids, gid) \<and> i = ids j)"

definition rowsOk :: "batches \<Rightarrow> ImportSink \<Rightarrow> bool" where
  "rowsOk batch sk \<longleftrightarrow> length (entryIndex sk) = length (chunk sk) \<and> distinct (entryIndex sk)
     \<and> (\<forall>j \<in> set (entryIndex sk). j < length (entries sk) \<and> \<not> reused (entries sk ! j) \<and> newId (entries sk ! j) = - 1)
     \<and> (\<forall>e \<in> set (entries sk). \<not> reused e \<longrightarrow> newId e = - 1 \<or> fromBatch batch (inserts sk) (newId e))
     \<and> (\<forall>j < length (entries sk). \<forall>k < length (entries sk). j \<noteq> k \<longrightarrow> \<not> reused (entries sk ! j) \<longrightarrow> \<not> reused (entries sk ! k)
          \<longrightarrow> newId (entries sk ! j) \<noteq> - 1 \<longrightarrow> newId (entries sk ! j) \<noteq> newId (entries sk ! k))"

lemma setRows:
  assumes "distinct at" "\<forall>j \<in> set at. j < length es" "n \<le> length at"
  shows "length (fold (setRow ids at) [0..<n] es) = length es \<and>
    (\<forall>i < n. fold (setRow ids at) [0..<n] es ! (at ! i) = (es ! (at ! i))\<lparr>newId := ids i\<rparr>) \<and>
    (\<forall>j. j \<notin> set (take n at) \<longrightarrow> fold (setRow ids at) [0..<n] es ! j = es ! j)"
  using assms(3)
proof (induction n)
  case (Suc n)
  let ?es = "fold (setRow ids at) [0..<n] es"
  have t: "take (Suc n) at = take n at @ [at ! n]" "at ! n \<notin> set (take n at)"
    using Suc.prems assms(1) by (auto simp: take_Suc_conv_app_nth distinct_conv_nth in_set_conv_nth)
  have "at ! n < length es" using Suc.prems assms(2) by simp
  have ne: "\<forall>i < n. at ! i \<noteq> at ! n" using Suc.prems assms(1) by (simp add: nth_eq_iff_index_eq)
  have "fold (setRow ids at) [0..<Suc n] es = ?es[at ! n := (?es ! (at ! n))\<lparr>newId := ids n\<rparr>]" by (simp add: setRow_def)
  then show ?case using Suc t ne \<open>at ! n < length es\<close> by (auto simp: less_Suc_eq nth_list_update)
qed simp

definition sameEntry :: "NewEntry \<Rightarrow> NewEntry \<Rightarrow> bool" where
  "sameEntry a b \<longleftrightarrow> reused a = reused b \<and> newKeys a = newKeys b \<and> contentKnown a = contentKnown b \<and> newDisplay a = newDisplay b \<and> (reused a \<longrightarrow> newId a = newId b)"

lemma claimsOf_same: "list_all2 sameEntry es es' \<Longrightarrow> claimsOf es c = claimsOf es' c"
  by (induction rule: list_all2_induct) (auto simp: claimsOf_def sameEntry_def)

lemma flush_fields:
  "sinkIndex (flush batch sk) = sinkIndex sk" "chunk (flush batch sk) = []"
  "rowsOk batch sk \<Longrightarrow> entryIndex (flush batch sk) = []"
  by (auto simp: flush_def Let_def rowsOk_def split: option.splits)

lemma rows_after:
  fixes ids :: "nat \<Rightarrow> int" and sk :: ImportSink
  assumes "rowsOk batch sk"
  defines "es' \<equiv> fold (setRow ids (entryIndex sk)) [0..<length (chunk sk)] (entries sk)"
  shows "length es' = length (entries sk)" "j < length (entries sk) \<Longrightarrow> sameEntry (es' ! j) (entries sk ! j)"
    "j < length (entries sk) \<Longrightarrow> (\<exists>i. j = entryIndex sk ! i \<and> i < length (chunk sk) \<and> newId (es' ! j) = ids i) \<or> newId (es' ! j) = newId (entries sk ! j)"
proof -
  have r: "distinct (entryIndex sk)" "\<forall>j \<in> set (entryIndex sk). j < length (entries sk)" "length (chunk sk) \<le> length (entryIndex sk)"
    using assms(1) by (auto simp: rowsOk_def)
  note s = setRows [OF r, of ids, folded es'_def]
  show "length es' = length (entries sk)" using s by blast
  have full: "take (length (chunk sk)) (entryIndex sk) = entryIndex sk" using assms(1) by (simp add: rowsOk_def)
  show "sameEntry (es' ! j) (entries sk ! j)" if "j < length (entries sk)"
  proof (cases "j \<in> set (entryIndex sk)")
    case True
    then obtain i where "i < length (chunk sk)" "j = entryIndex sk ! i" using assms(1) by (auto simp: in_set_conv_nth rowsOk_def)
    moreover have "\<not> reused (entries sk ! j)" using True assms(1) by (simp add: rowsOk_def)
    ultimately show ?thesis using s by (simp add: sameEntry_def)
  next
    case False
    then show ?thesis using s full by (simp add: sameEntry_def)
  qed
  show "(\<exists>i. j = entryIndex sk ! i \<and> i < length (chunk sk) \<and> newId (es' ! j) = ids i) \<or> newId (es' ! j) = newId (entries sk ! j)" if "j < length (entries sk)"
  proof (cases "j \<in> set (entryIndex sk)")
    case True
    then obtain i where "i < length (chunk sk)" "j = entryIndex sk ! i" using assms(1) by (auto simp: in_set_conv_nth rowsOk_def)
    then show ?thesis using s by auto
  next
    case False
    then show ?thesis using s full by simp
  qed
qed

lemma fromBatch_mono: "fromBatch batch n i \<Longrightarrow> n \<le> m \<Longrightarrow> fromBatch batch m i"
  unfolding fromBatch_def by (elim exE conjE) (intro exI conjI; (assumption | erule (1) less_le_trans))

lemma fresh_not_earlier:
  "freshRows batch old \<Longrightarrow> batch n = Some (ids, gid) \<Longrightarrow> \<not> fromBatch batch n (ids i)"
  unfolding fromBatch_def freshRows_def by (metis less_irrefl)

lemma rowsOkD:
  "rowsOk batch sk \<Longrightarrow> j < length (entries sk) \<Longrightarrow> \<not> reused (entries sk ! j) \<Longrightarrow>
   newId (entries sk ! j) = - 1 \<or> fromBatch batch (inserts sk) (newId (entries sk ! j))"
  by (simp add: rowsOk_def)

lemma fresh_row: "freshRows batch old \<Longrightarrow> batch n = Some (ids, gid) \<Longrightarrow> 0 \<le> ids i \<and> ids i \<notin> oldId ` set old"
proof -
  assume f: "freshRows batch old" and b: "batch n = Some (ids, gid)"
  from f have "\<forall>k ids gid i. batch k = Some (ids, gid) \<longrightarrow> 0 \<le> ids i \<and> ids i \<notin> oldId ` set old" unfolding freshRows_def by (rule conjunct1)
  then show ?thesis using b by metis
qed

lemma fromBatch_fresh:
  assumes "freshRows batch old" "fromBatch batch n i"
  shows "0 \<le> i \<and> i \<notin> oldId ` set old"
proof -
  obtain k ids gid j where "batch k = Some (ids, gid)" "i = ids j" using assms(2) by (auto simp: fromBatch_def)
  then show ?thesis using fresh_row [OF assms(1)] by simp
qed

lemma fresh_inj:
  assumes "freshRows batch old" "batch n = Some (ids, gid)" "ids i = ids i'"
  shows "i = i'"
proof -
  have "\<forall>k ids gid i k' ids' gid' i'. batch k = Some (ids, gid) \<longrightarrow> batch k' = Some (ids', gid') \<longrightarrow> ids i = ids' i' \<longrightarrow> k = k' \<and> i = i'"
    by (rule conjunct2 [OF assms(1) [unfolded freshRows_def]])
  then show ?thesis using assms(2,3) by metis
qed

lemma new_rows_known:
  assumes "rowsOk batch sk" "batch (inserts sk) = Some (ids, gid)"
  defines "es' \<equiv> fold (setRow ids (entryIndex sk)) [0..<length (chunk sk)] (entries sk)"
  assumes "j < length (entries sk)" "\<not> reused (es' ! j)"
  shows "newId (es' ! j) = - 1 \<or> fromBatch batch (Suc (inserts sk)) (newId (es' ! j))"
proof (cases "newId (es' ! j) = newId (entries sk ! j)")
  case True
  moreover have "\<not> reused (entries sk ! j)" using assms(4,5) rows_after(2) [OF assms(1), of j ids] by (simp add: sameEntry_def es'_def)
  ultimately show ?thesis using rowsOkD [OF assms(1,4)] fromBatch_mono [of batch "inserts sk" _ "Suc (inserts sk)"] by auto
next
  case False
  then obtain i where "newId (es' ! j) = ids i" using rows_after(3) [OF assms(1,4), of ids] by (auto simp: es'_def)
  then show ?thesis using assms(2) by (auto simp: fromBatch_def)
qed

lemma new_rows_distinct:
  assumes "rowsOk batch sk" "freshRows batch old" "batch (inserts sk) = Some (ids, gid)"
  defines "es' \<equiv> fold (setRow ids (entryIndex sk)) [0..<length (chunk sk)] (entries sk)"
  assumes jk: "j < length (entries sk)" "k < length (entries sk)" "j \<noteq> k" and nr: "\<not> reused (es' ! j)" "\<not> reused (es' ! k)"
    and id: "newId (es' ! j) \<noteq> - 1"
  shows "newId (es' ! j) \<noteq> newId (es' ! k)"
proof -
  note ra = rows_after [where ids = ids, OF assms(1), folded es'_def]
  have nr': "\<not> reused (entries sk ! j)" "\<not> reused (entries sk ! k)" using nr jk ra(2) by (auto simp: sameEntry_def)
  have old: "newId (entries sk ! j) = - 1 \<or> fromBatch batch (inserts sk) (newId (entries sk ! j))"
    "newId (entries sk ! k) = - 1 \<or> fromBatch batch (inserts sk) (newId (entries sk ! k))"
    using rowsOkD [OF assms(1)] jk nr' by blast+
  have new: "ids i \<noteq> - 1 \<and> \<not> fromBatch batch (inserts sk) (ids i)" for i
    using fresh_row [OF assms(2,3), of i] fresh_not_earlier [OF assms(2,3), of i] by auto
  consider i i' where "j = entryIndex sk ! i" "newId (es' ! j) = ids i" "k = entryIndex sk ! i'" "newId (es' ! k) = ids i'"
    | i where "newId (es' ! j) = ids i" "newId (es' ! k) = newId (entries sk ! k)"
    | i where "newId (es' ! k) = ids i" "newId (es' ! j) = newId (entries sk ! j)"
    | "newId (es' ! j) = newId (entries sk ! j)" "newId (es' ! k) = newId (entries sk ! k)"
    using ra(3) [OF jk(1)] ra(3) [OF jk(2)] by metis
  then show ?thesis
  proof cases
    case 1
    then show ?thesis using jk(3) fresh_inj [OF assms(2,3)] by metis
  next
    case 2
    then show ?thesis using new old(2) by metis
  next
    case 3
    then show ?thesis using new old(1) id by metis
  next
    case 4
    then show ?thesis using assms(1) jk nr' id by (simp add: rowsOk_def)
  qed
qed

lemma rowsOk_flush_failed:
  assumes "rowsOk batch sk" "chunk sk = [] \<or> batch (inserts sk) = None"
  shows "rowsOk batch (flush batch sk) \<and> list_all2 sameEntry (entries (flush batch sk)) (entries sk)"
proof -
  have "\<forall>e \<in> set (entries sk). \<not> reused e \<longrightarrow> newId e = - 1 \<or> fromBatch batch (Suc (inserts sk)) (newId e)"
    using assms(1) fromBatch_mono [of batch "inserts sk" _ "Suc (inserts sk)"] by (auto simp: rowsOk_def)
  moreover have "list_all2 sameEntry es es" for es by (simp add: list_all2_refl sameEntry_def)
  ultimately show ?thesis using assms by (auto simp: flush_def rowsOk_def)
qed

lemma rowsOk_flush_stored:
  assumes "rowsOk batch sk" "freshRows batch old" "chunk sk \<noteq> []" "batch (inserts sk) = Some (ids, gid)"
  shows "rowsOk batch (flush batch sk) \<and> list_all2 sameEntry (entries (flush batch sk)) (entries sk)"
proof -
  define es' where "es' = fold (setRow ids (entryIndex sk)) [0..<length (chunk sk)] (entries sk)"
  note ra = rows_after [where ids = ids, OF assms(1), folded es'_def]
  have es: "entries (flush batch sk) = es'" "inserts (flush batch sk) = Suc (inserts sk)" "entryIndex (flush batch sk) = []" "chunk (flush batch sk) = []"
    using assms(3,4) by (simp_all add: flush_def es'_def)
  have "\<forall>e \<in> set es'. \<not> reused e \<longrightarrow> newId e = - 1 \<or> fromBatch batch (Suc (inserts sk)) (newId e)"
    using new_rows_known [OF assms(1,4), folded es'_def] ra(1) by (metis in_set_conv_nth)
  moreover note new_rows_distinct [OF assms(1,2,4), folded es'_def]
  ultimately have "rowsOk batch (flush batch sk)" using ra(1) es by (simp add: rowsOk_def)
  then show ?thesis using ra(1,2) es by (simp add: list_all2_conv_all_nth)
qed

lemma rowsOk_flush:
  assumes "rowsOk batch sk" "freshRows batch old"
  shows "rowsOk batch (flush batch sk)" "list_all2 sameEntry (entries (flush batch sk)) (entries sk)"
proof -
  have "rowsOk batch (flush batch sk) \<and> list_all2 sameEntry (entries (flush batch sk)) (entries sk)"
  proof (cases "chunk sk = [] \<or> batch (inserts sk) = None")
    case True
    then show ?thesis by (rule rowsOk_flush_failed [OF assms(1)])
  next
    case False
    then obtain ids gid where "batch (inserts sk) = Some (ids, gid)" by auto
    then show ?thesis using False rowsOk_flush_stored [OF assms] by blast
  qed
  then show "rowsOk batch (flush batch sk)" "list_all2 sameEntry (entries (flush batch sk)) (entries sk)" by auto
qed

lemma rowsOk_append:
  assumes "rowsOk batch sk"
  shows "reused e \<Longrightarrow> rowsOk batch (sk\<lparr>entries := entries sk @ [e]\<rparr>)"
    and "\<not> reused e \<Longrightarrow> newId e = - 1 \<Longrightarrow>
      rowsOk batch (sk\<lparr>entryIndex := entryIndex sk @ [length (entries sk)], entries := entries sk @ [e], chunk := chunk sk @ [p]\<rparr>)"
  using assms by (auto simp: rowsOk_def nth_append less_Suc_eq)

lemma rowsOk_index: "rowsOk batch (sk\<lparr>sinkIndex := ix\<rparr>) = rowsOk batch sk"
  by (simp add: rowsOk_def)

definition sinkOk :: "batches \<Rightarrow> OldEntry list \<Rightarrow> Parsed list \<Rightarrow> ImportSink \<Rightarrow> bool" where
  "sinkOk batch old ps sk \<longleftrightarrow> rowsOk batch sk \<and> length (entries sk) = length ps
     \<and> (\<forall>c. claimsOf (entries sk) c = take (arrivalCount ps c) (idsOf old c))
     \<and> (\<exists>ix. sinkIndex sk = Some ix \<and> indexAfter old ps ix)"

lemma sinkOk_flush: "sinkOk batch old ps sk \<Longrightarrow> freshRows batch old \<Longrightarrow> sinkOk batch old ps (flush batch sk)"
  using rowsOk_flush [of batch sk old] claimsOf_same [of "entries (flush batch sk)" "entries sk"] list_all2_lengthD [of sameEntry "entries (flush batch sk)" "entries sk"]
  by (simp add: sinkOk_def flush_fields)

lemma sinkOk_queue:
  assumes "rowsOk batch sk" "freshRows batch old" "\<not> reused e" "newId e = - 1" "length (entries sk) + 1 = length ps'"
    "\<And>c. claimsOf (entries sk) c = take (arrivalCount ps' c) (idsOf old c)" "sinkIndex sk = Some ix" "indexAfter old ps' ix"
  shows "sinkOk batch old ps' (queueNew batch e p sk)"
proof -
  let ?sk = "sk\<lparr>entryIndex := entryIndex sk @ [length (entries sk)], entries := entries sk @ [e], chunk := chunk sk @ [p]\<rparr>"
  have "sinkOk batch old ps' ?sk"
    using rowsOk_append(2) [OF assms(1,3,4), of p] assms(3-8) by (simp add: sinkOk_def claimsOf_def)
  then show ?thesis using sinkOk_flush [OF _ assms(2), of ps' ?sk] by (simp add: queueNew_def Let_def)
qed

lemma sinkOk_add:
  assumes "sinkOk batch old ps sk" "freshRows batch old"
  shows "sinkOk batch old (ps @ [p]) (addParsed batch p sk)"
proof -
  let ?c = "contentKeyOf p"
  obtain ix where ix: "sinkIndex sk = Some ix" "indexAfter old ps ix" using assms(1) by (auto simp: sinkOk_def)
  obtain r ix' where cl: "claim ?c (noteArrival ?c ix) = (r, ix')" by fastforce
  note after = index_claim [OF ix(2) cl]
  have rows: "rowsOk batch (sk\<lparr>sinkIndex := Some ix'\<rparr>)" using assms(1) by (simp add: sinkOk_def rowsOk_index)
  show ?thesis
  proof (cases r)
    case (Some i)
    then obtain rest where d: "drop (arrivalCount ps ?c) (idsOf old ?c) = i # rest" using after(2) by (auto split: list.splits)
    let ?e = "\<lparr>newId = i, reused = True, contentKnown = knows (noteArrival ?c ix) ?c, newKeys = \<lparr>content = ?c, identity = []\<rparr>, newDisplay = displayOf p\<rparr>"
    have "addParsed batch p sk = (sk\<lparr>sinkIndex := Some ix'\<rparr>)\<lparr>entries := entries sk @ [?e]\<rparr>"
      using Some cl ix by (simp add: addParsed_def Let_def)
    moreover have "claimsOf (entries sk @ [?e]) c = take (arrivalCount (ps @ [p]) c) (idsOf old c)" for c
      using assms(1) take_drop_step [OF d] by (auto simp: sinkOk_def claimsOf_def arrivalCount_snoc)
    ultimately show ?thesis using rowsOk_append(1) [OF rows, of ?e] assms(1) after(1) by (simp add: sinkOk_def)
  next
    case None
    then have d: "drop (arrivalCount ps ?c) (idsOf old ?c) = []" using after(2) by (auto split: list.splits)
    have "take (arrivalCount (ps @ [p]) c) (idsOf old c) = take (arrivalCount ps c) (idsOf old c)" for c
      using d by (auto simp: arrivalCount_snoc)
    then have claims: "claimsOf (entries (sk\<lparr>sinkIndex := Some ix'\<rparr>)) c = take (arrivalCount (ps @ [p]) c) (idsOf old c)" for c
      using assms(1) by (simp add: sinkOk_def)
    obtain e where "addParsed batch p sk = queueNew batch e p (sk\<lparr>sinkIndex := Some ix'\<rparr>)" "\<not> reused e" "newId e = - 1"
      using None cl ix by (simp add: addParsed_def Let_def)
    moreover have "length (entries (sk\<lparr>sinkIndex := Some ix'\<rparr>)) + 1 = length (ps @ [p])" using assms(1) by (simp add: sinkOk_def)
    ultimately show ?thesis using sinkOk_queue [OF rows assms(2) _ _ _ claims _ after(1)] by simp
  qed
qed

lemma sinkOk_all: "freshRows batch old \<Longrightarrow> sinkOk batch old ps (fold (addParsed batch) ps (newSink (Some (newIndex old))))"
proof (induction ps rule: rev_induct)
  case Nil
  then show ?case using index_start [of old] by (simp add: sinkOk_def newSink_def rowsOk_def claimsOf_def arrivalCount_def)
next
  case (snoc p ps)
  then show ?case using sinkOk_add by simp
qed

lemma sinkOk_import: "freshRows batch old \<Longrightarrow> sinkOk batch old ps (importAll batch old ps)"
  unfolding importAll_def by (intro sinkOk_flush sinkOk_all)

lemma idsOf_disjoint: "distinct (map oldId old) \<Longrightarrow> i \<in> set (idsOf old c) \<Longrightarrow> i \<in> set (idsOf old c') \<Longrightarrow> c = c'"
  by (auto simp: idsOf_def distinct_map inj_on_def)

lemma distinct_filter_nth:
  "(\<And>j k. j < length xs \<Longrightarrow> k < length xs \<Longrightarrow> j \<noteq> k \<Longrightarrow> P (xs ! j) \<Longrightarrow> P (xs ! k) \<Longrightarrow> xs ! j \<noteq> xs ! k) \<Longrightarrow> distinct (filter P xs)"
proof (induction xs)
  case (Cons x xs)
  have "distinct (filter P xs)"
  proof (rule Cons.IH)
    fix j k assume "j < length xs" "k < length xs" "j \<noteq> k" "P (xs ! j)" "P (xs ! k)"
    then show "xs ! j \<noteq> xs ! k" using Cons.prems [of "Suc j" "Suc k"] by simp
  qed
  moreover have "x \<notin> set xs" if "P x" using Cons.prems [of 0 "Suc _"] that by (auto simp: in_set_conv_nth)
  ultimately show ?case by auto
qed simp

lemma filter_same_index:
  "distinct (map f (filter Q es)) \<Longrightarrow> j < length es \<Longrightarrow> k < length es \<Longrightarrow> Q (es ! j) \<Longrightarrow> Q (es ! k) \<Longrightarrow> f (es ! j) = f (es ! k) \<Longrightarrow> j = k"
proof (induction es arbitrary: j k)
  case (Cons e es)
  have mem: "f (es ! i) \<in> f ` set (filter Q es)" if "i < length es" "Q (es ! i)" for i using that by auto
  show ?case
  proof (cases j)
    case 0
    then show ?thesis using Cons.prems mem [of "k - 1"] by (cases k) auto
  next
    case (Suc j')
    then show ?thesis using Cons.prems Cons.IH [of j' "k - 1"] mem [of j'] by (cases k) (auto split: if_splits)
  qed
qed simp

lemma claimed_entry:
  assumes "sinkOk batch old ps sk" "e \<in> set (entries sk)" "reused e"
  shows "newId e \<in> set (take (arrivalCount ps (content (newKeys e))) (idsOf old (content (newKeys e))))"
proof -
  have "newId e \<in> set (claimsOf (entries sk) (content (newKeys e)))" using assms(2,3) by (auto simp: claimsOf_def)
  then show ?thesis using assms(1) by (simp add: sinkOk_def)
qed

lemma stored_distinct:
  assumes "sinkOk batch old ps sk" "freshRows batch old" "distinct (map oldId old)"
  shows "distinct (filter (\<lambda>i. 0 \<le> i) (map newId (entries sk)))"
proof (rule distinct_filter_nth)
  fix j k
  assume jk: "j < length (map newId (entries sk))" "k < length (map newId (entries sk))" "j \<noteq> k"
    "0 \<le> map newId (entries sk) ! j" "0 \<le> map newId (entries sk) ! k"
  let ?e = "entries sk ! j" and ?e' = "entries sk ! k"
  have rows: "rowsOk batch sk" using assms(1) by (simp add: sinkOk_def)
  have mem: "?e \<in> set (entries sk)" "?e' \<in> set (entries sk)" using jk by simp_all
  have fresh: "newId (entries sk ! l) \<notin> oldId ` set old" if "l \<in> {j, k}" "\<not> reused (entries sk ! l)" for l
  proof -
    have "fromBatch batch (inserts sk) (newId (entries sk ! l))" using rowsOkD [OF rows, of l] that jk by auto
    then show ?thesis using fromBatch_fresh [OF assms(2)] by simp
  qed
  have old: "reused e \<Longrightarrow> e \<in> set (entries sk) \<Longrightarrow> newId e \<in> set (idsOf old (content (newKeys e)))" for e
    using claimed_entry [OF assms(1), of e] by (meson in_set_takeD)
  have sub: "set (idsOf old c) \<subseteq> oldId ` set old" for c by (auto simp: idsOf_def)
  have old_row: "reused e \<Longrightarrow> e \<in> set (entries sk) \<Longrightarrow> newId e \<in> oldId ` set old" for e using old sub by blast
  have "newId ?e \<noteq> newId ?e'"
  proof (cases "reused ?e \<and> reused ?e'")
    case True
    show ?thesis
    proof
      assume eq: "newId ?e = newId ?e'"
      then have c: "content (newKeys ?e) = content (newKeys ?e')" using True old mem idsOf_disjoint [OF assms(3)] by metis
      define d where "d = content (newKeys ?e)"
      have "distinct (claimsOf (entries sk) d)" using assms(1,3) by (simp add: sinkOk_def idsOf_def distinct_map_filter)
      then have "j = k"
        by (intro filter_same_index [of newId "\<lambda>e. reused e \<and> content (newKeys e) = d" "entries sk"])
          (use True c eq jk in \<open>simp_all only: claimsOf_def d_def length_map\<close>)
      then show False using jk(3) by simp
    qed
  next
    case False
    show ?thesis
    proof (cases "reused ?e \<or> reused ?e'")
      case True
      then show ?thesis using False fresh [of j] fresh [of k] old_row [of ?e] old_row [of ?e'] mem by auto
    next
      case False
      then show ?thesis using rows jk by (auto simp: rowsOk_def)
    qed
  qed
  then show "map newId (entries sk) ! j \<noteq> map newId (entries sk) ! k" using jk by simp
qed

lemma importOk_sink:
  assumes "sinkOk batch old ps sk" "freshRows batch old" "distinct (map oldId old)" "\<forall>e \<in> set old. 0 \<le> oldId e" "sinkIndex sk = Some ix"
  shows "importOk old (entries sk) ix"
proof -
  have ix: "indexAfter old ps ix" using assms(1,5) by (simp add: sinkOk_def)
  have sub: "set (idsOf old c) \<subseteq> oldId ` set old" for c by (auto simp: idsOf_def)
  have "0 \<le> newId e \<and> newId e \<in> oldId ` set old \<and> isClaimed ix (newId e)" if "e \<in> set (entries sk)" "reused e" for e
  proof -
    note in_take = claimed_entry [OF assms(1) that]
    then have "newId e \<in> oldId ` set old" using sub in_set_takeD by (metis subsetD)
    moreover have "isClaimed ix (newId e)" using in_take ix by (auto simp: isClaimed_def indexAfter_def)
    ultimately show ?thesis using assms(4) by auto
  qed
  moreover have "newId e \<notin> oldId ` set old" if "e \<in> set (entries sk)" "\<not> reused e" "0 \<le> newId e" for e
  proof -
    have "fromBatch batch (inserts sk) (newId e)" using that assms(1) by (auto simp: sinkOk_def rowsOk_def)
    then show ?thesis using fromBatch_fresh [OF assms(2)] by simp
  qed
  moreover have "\<exists>e \<in> set (entries sk). reused e \<and> newId e = i" if "isClaimed ix i" for i
  proof -
    have "i \<in> (\<Union>c. set (take (arrivalCount ps c) (idsOf old c)))" using that ix by (simp add: isClaimed_def indexAfter_def)
    then obtain c where "i \<in> set (take (arrivalCount ps c) (idsOf old c))" by blast
    then have "i \<in> set (claimsOf (entries sk) c)" using assms(1) by (simp add: sinkOk_def)
    then show ?thesis by (auto simp: claimsOf_def)
  qed
  ultimately show ?thesis using stored_distinct [OF assms(1-3)] assms(3) by (simp add: importOk_def)
qed

subsection \<open>The refresh\<close>

lemma refreshPlan_reconcile:
  assumes "freshRows batch old"
  obtains ix where "refreshPlan batch old ps = Reconcile old (entries (importAll batch old ps)) ix" "sinkIndex (importAll batch old ps) = Some ix"
    "indexAfter old ps ix"
  using sinkOk_import [OF assms, of ps] by (auto simp: sinkOk_def refreshPlan_def Let_def)

text \<open>What an update says: an old row that stays, in the place of the arrival, and the row inserted for the arrival, which goes.\<close>

definition updateOk :: "OldEntry list \<Rightarrow> NewEntry list \<Rightarrow> ReconcilePlan \<Rightarrow> int \<times> int \<Rightarrow> bool" where
  "updateOk old incoming plan u \<longleftrightarrow> (\<exists>x \<in> set old. \<exists>e \<in> set incoming. u = (oldId x, newId e) \<and> identity (oldKeys x) = identity (newKeys e)
     \<and> \<not> reused e \<and> 0 \<le> newId e \<and> newId e \<notin> oldId ` set old \<and> oldId x \<in> set (order plan) \<and> newId e \<in> set (stale plan))"

lemma reconcile_updates:
  assumes "importOk old incoming ix"
  shows "\<forall>u \<in> set (updates (Reconcile old incoming ix)). updateOk old incoming (Reconcile old incoming ix) u"
    and "distinct (map fst (updates (Reconcile old incoming ix)))" "distinct (map snd (updates (Reconcile old incoming ix)))"
proof -
  obtain ups where u: "pairsOk old incoming ix ups" "updates (Reconcile old incoming ix) = ups"
    and o: "order (Reconcile old incoming ix) = map (target ups) (filter (\<lambda>e. 0 \<le> newId e) incoming)"
    and st: "stale (Reconcile old incoming ix) = map oldId (filter (\<lambda>e. \<not> isClaimed ix (oldId e) \<and> oldId e \<notin> fst ` set ups) old)
        @ map newId (filter (\<lambda>e. 0 \<le> newId e \<and> \<not> reused e \<and> supersededBy ups (newId e) \<noteq> None) incoming)"
    by (rule reconcile_lists [OF assms])
  show d: "distinct (map fst (updates (Reconcile old incoming ix)))" "distinct (map snd (updates (Reconcile old incoming ix)))"
    using u by (simp_all add: pairsOk_def)
  have "updateOk old incoming (Reconcile old incoming ix) (o1, n1)" if m: "(o1, n1) \<in> set ups" for o1 n1
  proof -
    have "\<exists>e \<in> set incoming. mayPair e \<and> newId e = n1 \<and> o1 \<in> set (leftover old ix (identity (newKeys e)))"
      using u(1) m by (auto simp: pairsOk_def)
    then obtain e where e: "e \<in> set incoming" "mayPair e" "newId e = n1" "o1 \<in> set (leftover old ix (identity (newKeys e)))" by blast
    then obtain x where x: "x \<in> set old" "oldId x = o1" "identity (oldKeys x) = identity (newKeys e)" by (auto simp: leftover_def)
    have s: "supersededBy ups n1 = Some o1" using superseded_iff [of ups n1 o1] u m d by simp
    have "target ups e = o1" using e s by (simp add: target_def mayPair_def)
    moreover have f: "e \<in> set (filter (\<lambda>e. 0 \<le> newId e) incoming)"
      "e \<in> set (filter (\<lambda>e. 0 \<le> newId e \<and> \<not> reused e \<and> supersededBy ups (newId e) \<noteq> None) incoming)"
      using e s by (simp_all add: mayPair_def)
    ultimately have "o1 \<in> set (order (Reconcile old incoming ix))" unfolding o set_map by blast
    moreover have "n1 \<in> set (stale (Reconcile old incoming ix))" unfolding st set_append set_map e(3) [symmetric] using f(2) by blast
    moreover have "newId e \<notin> oldId ` set old" "\<not> reused e" "0 \<le> newId e"
      using assms e(1,2) unfolding importOk_def mayPair_def by blast+
    ultimately show ?thesis unfolding updateOk_def using x e(1,3) by metis
  qed
  then show "\<forall>u \<in> set (updates (Reconcile old incoming ix)). updateOk old incoming (Reconcile old incoming ix) u" unfolding u(2) by auto
qed

lemma reconcile_no_missed:
  assumes "importOk old incoming ix" "x \<in> set old" "e \<in> set incoming" "mayPair e" "identity (oldKeys x) = identity (newKeys e)"
    and "newId e \<in> set (order (Reconcile old incoming ix))" "oldId x \<in> set (stale (Reconcile old incoming ix))"
  shows "arrived ix (content (oldKeys x))"
proof (rule ccontr)
  assume fresh: "\<not> arrived ix (content (oldKeys x))"
  let ?r = "Reconcile old incoming ix"
  have disj: "i \<in> set (order ?r) \<Longrightarrow> i \<notin> set (stale ?r)" for i using reconcile_partition(1) [OF assms(1)] by auto
  have up: "(o1, n1) \<in> set (updates ?r) \<Longrightarrow> o1 \<in> set (order ?r) \<and> n1 \<in> set (stale ?r)" for o1 n1
    using reconcile_updates(1) [OF assms(1)] by (auto simp: updateOk_def)
  have "newId e \<notin> snd ` set (updates ?r)" using up disj assms(6) by force
  then have l: "set (leftover old ix (identity (newKeys e))) \<subseteq> fst ` set (updates ?r)"
    using reconcile_full [of old incoming ix] assms(3,4) by (simp add: pairsFull_def)
  have "\<not> isClaimed ix (oldId x)"
  proof
    assume "isClaimed ix (oldId x)"
    then obtain y where y: "y \<in> set incoming" "reused y" "newId y = oldId x" "0 \<le> newId y"
      using assms(1) unfolding importOk_def by blast
    obtain ups where o: "order ?r = map (target ups) (filter (\<lambda>e. 0 \<le> newId e) incoming)" by (rule reconcile_lists [OF assms(1)])
    have "y \<in> set (filter (\<lambda>e. 0 \<le> newId e) incoming)" "target ups y = oldId x" using y by (simp_all add: target_def)
    then have "oldId x \<in> set (order ?r)" unfolding o set_map by (metis imageI)
    then show False using disj assms(7) by blast
  qed
  then have "oldId x \<in> set (leftover old ix (identity (newKeys e)))" using fresh assms(2,5) by (auto simp: leftover_def)
  then have "oldId x \<in> set (order ?r)" using l up by force
  then show False using disj assms(7) by blast
qed


text \<open>Identical arrivals keep their rows: of the old profiles with a given content, in the order of the group, exactly the first ones are reused, one
  per arrival with that content, in arrival order.\<close>

theorem identical_arrivals_reuse:
  assumes "freshRows batch old"
  shows "map newId (filter (\<lambda>e. reused e \<and> content (newKeys e) = c) (entries (importAll batch old ps)))
    = take (length (filter (\<lambda>p. contentKeyOf p = c) ps)) (map oldId (filter (\<lambda>e. content (oldKeys e) = c) old))"
  using sinkOk_import [OF assms, of ps] by (simp add: sinkOk_def claimsOf_def arrivalCount_def idsOf_def)

text \<open>Two old profiles; the first arrives again, the second with another content and the same identity, and a third is new.\<close>

definition demoOld :: "OldEntry list" where
  "demoOld = [\<lparr>oldId = 1, oldKeys = \<lparr>content = [1], identity = [9]\<rparr>, oldDisplay = []\<rparr>,
              \<lparr>oldId = 2, oldKeys = \<lparr>content = [2], identity = [8]\<rparr>, oldDisplay = []\<rparr>]"

definition demoParsed :: "Parsed list" where
  "demoParsed = [\<lparr>contentKeyOf = [1], identityKeyOf = [9], displayOf = []\<rparr>, \<lparr>contentKeyOf = [3], identityKeyOf = [8], displayOf = []\<rparr>,
                 \<lparr>contentKeyOf = [4], identityKeyOf = [7], displayOf = []\<rparr>]"

definition demoBatch :: batches where
  "demoBatch k = (if k = 0 then Some (\<lambda>i. 100 + int i, 0) else None)"

lemma demo_fresh: "freshRows demoBatch demoOld"
  by (auto simp: freshRows_def demoBatch_def demoOld_def split: if_splits)

lemma demo_refresh:
  "order (refreshPlan demoBatch demoOld demoParsed) = [1, 2, 101]" "stale (refreshPlan demoBatch demoOld demoParsed) = [100]"
  "updates (refreshPlan demoBatch demoOld demoParsed) = [(2, 100)]"
  by (simp_all add: refreshPlan_def importAll_def demoBatch_def demoOld_def demoParsed_def newSink_def newIndex_def indexOld_def addParsed_def
      noteArrival_def knows_def claim_def queueNew_def flush_def kInsertChunk_def setRow_def Reconcile_def leftoverByIdentity_def leftoverStep_def
      isClaimed_def arrived_def pairEntry_def staleStep_def orderStep_def supersededBy_def Let_def upt_conv_Cons)


theorem identical_arrivals_reuse_witness:
  "map newId (filter (\<lambda>e. reused e \<and> content (newKeys e) = [1]) (entries (importAll demoBatch demoOld demoParsed))) = [1]"
  using identical_arrivals_reuse [OF demo_fresh, of "[1]" demoParsed] by (simp add: demoOld_def demoParsed_def)

end
