(* ===== verification/Log_Buffer.thy ===== *)
theory Log_Buffer
  imports Wd_Prelude
begin

text \<open>
  The in-memory user log the remote interface reads, \<^verbatim>\<open>src/src/global/LogBuffer.cpp\<close>. The ring is one process-wide object behind a mutex, so
  every operation is one step on it. Sequence numbers are natural numbers (64 bits are not exhausted), the byte count is an integer as
  \<open>qsizetype\<close> is signed, and the time stamp of a chunk is an argument.

  Results: the held lines are numbered without gaps up to the newest, their number, length and total size stay within the limits, the byte count is the
  size of what is held, and the newest line is always held; a reader that asks for what follows the last line it has got reads every held line
  exactly once and in order.
\<close>

record BufferedLine =
  lineSeq :: nat
  lineTime :: int
  lineText :: qstring

record Ring =
  ringLines :: "BufferedLine list"
  ringBytes :: int
  lastSeq :: nat

record BufferedSlice =
  sliceLines :: "BufferedLine list"
  newestSeq :: nat
  oldestSeq :: nat
  moreHeld :: bool

definition kMaxLines :: nat where "kMaxLines = 5000"
definition kMaxBytes :: int where "kMaxBytes = 4 * 1024 * 1024"
definition kMaxLineLength :: nat where "kMaxLineLength = 8192"

definition emptyRing :: Ring where
  "emptyRing = \<lparr>ringLines = [], ringBytes = 0, lastSeq = 0\<rparr>"

definition textBytes :: "qstring \<Rightarrow> int" where
  "textBytes t = int (length t) * 2"

definition isHighSurrogate :: "qchar \<Rightarrow> bool" where
  "isHighSurrogate c \<longleftrightarrow> 55296 \<le> c \<and> c \<le> 56319"

definition clipped :: "qstring \<Rightarrow> qstring" where
  "clipped line =
     (if length line \<le> kMaxLineLength then line
      else let keep = kMaxLineLength - 1;
               keep = (if isHighSurrogate (line ! (keep - 1)) then keep - 1 else keep)
           in take keep line @ [8230])"

definition slice :: "Ring \<Rightarrow> nat \<Rightarrow> int \<Rightarrow> BufferedSlice" where
  "slice ring first limit =
     (let endAt = min (length (ringLines ring)) (first + nat (max limit 0))
      in \<lparr>sliceLines = map (\<lambda>i. ringLines ring ! i) [first..<endAt],
          newestSeq = lastSeq ring,
          oldestSeq = (case ringLines ring of [] \<Rightarrow> 0 | l # _ \<Rightarrow> lineSeq l),
          moreHeld = (endAt < length (ringLines ring))\<rparr>)"

definition chunkTexts :: "qstring \<Rightarrow> qstring list" where
  "chunkTexts chunk =
     map clipped (filter (\<lambda>l. l \<noteq> []) (map (\<lambda>l. if endsWith 13 l then butlast l else l) (qsplit u_lf chunk)))"

fun trimRing :: "BufferedLine list \<Rightarrow> int \<Rightarrow> BufferedLine list \<times> int" where
  "trimRing [] bytes = ([], bytes)"
| "trimRing (l # ls) bytes =
     (if length (l # ls) > kMaxLines \<or> bytes > kMaxBytes then trimRing ls (bytes - textBytes (lineText l)) else (l # ls, bytes))"

definition pushLine :: "int \<Rightarrow> qstring \<Rightarrow> Ring \<Rightarrow> Ring" where
  "pushLine now t ring =
     (let n = lastSeq ring + 1;
          (ls, bytes) = trimRing (ringLines ring @ [\<lparr>lineSeq = n, lineTime = now, lineText = t\<rparr>]) (ringBytes ring + textBytes t)
      in \<lparr>ringLines = ls, ringBytes = bytes, lastSeq = n\<rparr>)"

definition BufferUserLog :: "int \<Rightarrow> qstring \<Rightarrow> Ring \<Rightarrow> Ring" where
  "BufferUserLog now chunk ring = (let texts = chunkTexts chunk in if texts = [] then ring else fold (pushLine now) texts ring)"

definition BufferedLinesAfter :: "Ring \<Rightarrow> nat \<Rightarrow> int \<Rightarrow> BufferedSlice" where
  "BufferedLinesAfter ring after limit =
     (if ringLines ring = [] \<or> after \<ge> lastSeq ring then slice ring (length (ringLines ring)) limit
      else let oldest = lineSeq (hd (ringLines ring))
           in slice ring (if after < oldest then 0 else after - oldest + 1) limit)"

definition BufferedTail :: "Ring \<Rightarrow> int \<Rightarrow> BufferedSlice" where
  "BufferedTail ring limit =
     (let count = min (length (ringLines ring)) (nat (max limit 0)) in slice ring (length (ringLines ring) - count) limit)"

definition BufferedNewestSeq :: "Ring \<Rightarrow> nat" where
  "BufferedNewestSeq ring = lastSeq ring"

subsection \<open>The ring\<close>

definition held :: "BufferedLine list \<Rightarrow> int" where
  "held ls = (\<Sum>l\<leftarrow>ls. textBytes (lineText l))"

definition goodText :: "qstring \<Rightarrow> bool" where
  "goodText t \<longleftrightarrow> t \<noteq> [] \<and> length t \<le> kMaxLineLength"

definition ringInv :: "Ring \<Rightarrow> bool" where
  "ringInv ring \<longleftrightarrow>
     (\<forall>i < length (ringLines ring). lineSeq (ringLines ring ! i) + length (ringLines ring) = lastSeq ring + 1 + i)
     \<and> length (ringLines ring) \<le> lastSeq ring \<and> (lastSeq ring > 0 \<longrightarrow> ringLines ring \<noteq> [])
     \<and> length (ringLines ring) \<le> kMaxLines \<and> ringBytes ring \<le> kMaxBytes
     \<and> ringBytes ring = held (ringLines ring) \<and> (\<forall>l \<in> set (ringLines ring). goodText (lineText l))"

lemma held_nonneg: "0 \<le> held ls"
  by (induction ls) (auto simp: held_def textBytes_def)

lemma trim_suffix: "\<exists>n. trimRing ls b = (drop n ls, b - held (take n ls))"
proof (induction ls b rule: trimRing.induct)
  case (2 l ls b)
  show ?case
  proof (cases "length (l # ls) > kMaxLines \<or> b > kMaxBytes")
    case True
    then obtain n where "trimRing ls (b - textBytes (lineText l)) = (drop n ls, b - textBytes (lineText l) - held (take n ls))" using 2 by auto
    then show ?thesis using True by (intro exI [of _ "Suc n"]) (simp add: held_def)
  next
    case False
    then show ?thesis by (intro exI [of _ 0]) (simp add: held_def)
  qed
qed (simp add: held_def)

lemma trim_limits: "b = held ls \<Longrightarrow> length (fst (trimRing ls b)) \<le> kMaxLines \<and> snd (trimRing ls b) \<le> kMaxBytes"
  by (induction ls b rule: trimRing.induct) (auto simp: held_def kMaxBytes_def)

lemma trim_keeps_last: "b = held (ls @ [l]) \<Longrightarrow> textBytes (lineText l) \<le> kMaxBytes \<Longrightarrow> fst (trimRing (ls @ [l]) b) \<noteq> []"
proof (induction ls arbitrary: b)
  case Nil
  then show ?case by (auto simp: held_def kMaxLines_def)
next
  case (Cons x ls)
  then show ?case by (auto simp: held_def)
qed

lemma ring_init: "ringInv emptyRing"
  by (simp add: ringInv_def emptyRing_def held_def kMaxBytes_def)

lemma pushLine_inv:
  assumes "ringInv ring" "goodText t"
  shows "ringInv (pushLine now t ring)"
proof -
  let ?l = "\<lparr>lineSeq = lastSeq ring + 1, lineTime = now, lineText = t\<rparr>"
  let ?ls = "ringLines ring @ [?l]" and ?b = "ringBytes ring + textBytes t"
  have b: "?b = held ?ls" using assms(1) by (simp add: ringInv_def held_def)
  obtain n where n: "trimRing ?ls ?b = (drop n ?ls, ?b - held (take n ?ls))" using trim_suffix by blast
  have "textBytes t \<le> kMaxBytes" using assms(2) by (simp add: goodText_def textBytes_def kMaxBytes_def kMaxLineLength_def)
  then have ne: "drop n ?ls \<noteq> []" using trim_keeps_last [OF b] n by simp
  have "held ?ls = held (take n ?ls) + held (drop n ?ls)" by (metis append_take_drop_id held_def map_append sum_list_append)
  then have h: "?b - held (take n ?ls) = held (drop n ?ls)" using b by simp
  have seq: "lineSeq (?ls ! i) + length (ringLines ring) = lastSeq ring + 1 + i" if "i < length ?ls" for i
    using that assms(1) by (auto simp: ringInv_def nth_append less_Suc_eq)
  have numbered: "lineSeq (xs ! (n + i)) + (length xs - n) = k + 1 + i"
    if "i < length xs - n" "\<forall>j < length xs. lineSeq (xs ! j) + length xs = k + 1 + j" for xs i k
    using that by (auto simp: algebra_simps)
  have "lineSeq (drop n ?ls ! i) + length (drop n ?ls) = lastSeq ring + 1 + 1 + i" if "i < length (drop n ?ls)" for i
    using numbered [of i ?ls "lastSeq ring + 1"] seq that by (simp only: length_drop nth_drop) simp
  moreover have "\<forall>l \<in> set (drop n ?ls). goodText (lineText l)" using assms by (auto simp: ringInv_def dest: in_set_dropD)
  moreover have "length (drop n ?ls) \<le> lastSeq ring + 1" using assms(1) by (auto simp: ringInv_def)
  ultimately show ?thesis using ne h trim_limits [OF b] n by (simp add: ringInv_def pushLine_def)
qed

lemma clipped_good: "line \<noteq> [] \<Longrightarrow> goodText (clipped line)"
  by (auto simp: clipped_def goodText_def kMaxLineLength_def Let_def)

lemma chunk_good: "t \<in> set (chunkTexts chunk) \<Longrightarrow> goodText t"
  by (auto simp: chunkTexts_def clipped_good)

lemma pushes_inv: "ringInv ring \<Longrightarrow> \<forall>t \<in> set ts. goodText t \<Longrightarrow> ringInv (fold (pushLine now) ts ring)"
  by (induction ts arbitrary: ring) (auto simp: pushLine_inv)

lemma user_log_inv: "ringInv ring \<Longrightarrow> ringInv (BufferUserLog now chunk ring)"
  using pushes_inv [of ring "chunkTexts chunk"] chunk_good by (auto simp: BufferUserLog_def Let_def)

definition log_step :: "Ring \<Rightarrow> Ring \<Rightarrow> bool" where
  "log_step r r' \<longleftrightarrow> (\<exists>now chunk. r' = BufferUserLog now chunk r)"

interpretation userLog: transition_system "\<lambda>r. r = emptyRing" log_step ringInv
  by unfold_locales (auto simp: ring_init log_step_def user_log_inv)

text \<open>C31: after any sequence of logged chunks the held lines are numbered without gaps up to the newest number, at most 5000 lines and 4 MiB of text are
  held, the byte count is the size of the held text, every line is non-empty and at most 8192 characters long, and whenever anything was
  logged the newest line is held: trimming, which pops the front while a limit is exceeded, never reaches it and never runs on an empty ring.\<close>

theorem log_ring_invariant:
  assumes "log_step\<^sup>*\<^sup>* emptyRing ring"
  shows "ringInv ring \<and> (\<forall>l ls. ringLines ring = ls @ [l] \<longrightarrow> lineSeq l = BufferedNewestSeq ring)"
proof -
  have inv: "ringInv ring" using userLog.inv_reachable [OF refl assms] .
  have "lineSeq l = lastSeq ring" if l: "ringLines ring = ls @ [l]" for l ls
    using inv unfolding ringInv_def l by (auto dest: spec [of _ "length ls"])
  then show ?thesis using inv by (simp add: BufferedNewestSeq_def)
qed

subsection \<open>Readers\<close>

definition linesAbove :: "Ring \<Rightarrow> nat \<Rightarrow> BufferedLine list" where
  "linesAbove ring after = filter (\<lambda>l. after < lineSeq l) (ringLines ring)"

lemma filter_drop:
  "(\<And>i. i < length xs \<Longrightarrow> P (xs ! i) \<longleftrightarrow> k \<le> i) \<Longrightarrow> filter P xs = drop k xs"
proof (induction xs arbitrary: k)
  case (Cons x xs)
  have x: "P x \<longleftrightarrow> k = 0" using Cons.prems [of 0] by simp
  have "filter P xs = drop (k - 1) xs"
  proof (rule Cons.IH)
    fix i assume "i < length xs"
    then show "P (xs ! i) \<longleftrightarrow> k - 1 \<le> i" using Cons.prems [of "Suc i"] by simp linarith
  qed
  then show ?case using x by (cases k) auto
qed simp

lemma slice_lines: "sliceLines (slice ring k limit) = take (nat limit) (drop k (ringLines ring))"
proof -
  define e where "e = min (length (ringLines ring)) (k + nat limit)"
  have "map (\<lambda>i. ringLines ring ! i) [k..<e] = take (nat limit) (drop k (ringLines ring))"
    by (rule nth_equalityI) (auto simp: e_def nth_upt less_diff_conv add.commute)
  moreover have "nat (max limit 0) = nat limit" by (simp add: max_def)
  ultimately show ?thesis by (simp only: slice_def Let_def e_def BufferedSlice.simps)
qed

lemma linesAbove_drop:
  assumes "ringInv ring" "ringLines ring \<noteq> []" "after < lastSeq ring"
  defines "oldest \<equiv> lineSeq (hd (ringLines ring))"
  shows "linesAbove ring after = drop (if after < oldest then 0 else after - oldest + 1) (ringLines ring)"
proof -
  have seq: "lineSeq (ringLines ring ! i) + length (ringLines ring) = lastSeq ring + 1 + i" if "i < length (ringLines ring)" for i
    using assms(1) that by (simp add: ringInv_def)
  have o: "oldest + length (ringLines ring) = lastSeq ring + 1" using seq [of 0] assms(2) by (simp add: oldest_def hd_conv_nth)
  show ?thesis unfolding linesAbove_def
  proof (rule filter_drop)
    fix i assume "i < length (ringLines ring)"
    then have "lineSeq (ringLines ring ! i) = oldest + i" using seq [of i] o by linarith
    then show "after < lineSeq (ringLines ring ! i) \<longleftrightarrow> (if after < oldest then 0 else after - oldest + 1) \<le> i" by auto
  qed
qed

lemma linesAbove_none: "ringInv ring \<Longrightarrow> lastSeq ring \<le> after \<Longrightarrow> linesAbove ring after = []"
  by (force simp: linesAbove_def ringInv_def filter_empty_conv in_set_conv_nth)

lemma lines_after_exact:
  assumes "ringInv ring"
  shows "sliceLines (BufferedLinesAfter ring after limit) = take (nat limit) (linesAbove ring after)"
    and "moreHeld (BufferedLinesAfter ring after limit) \<longleftrightarrow> nat limit < length (linesAbove ring after)"
proof -
  have more: "moreHeld (slice ring k limit) \<longleftrightarrow> nat limit < length (drop k (ringLines ring))" if "k \<le> length (ringLines ring)" for k
    using that by (auto simp: slice_def Let_def min_def)
  consider "ringLines ring = [] \<or> lastSeq ring \<le> after" | "ringLines ring \<noteq> []" "after < lastSeq ring" by linarith
  then have "sliceLines (BufferedLinesAfter ring after limit) = take (nat limit) (linesAbove ring after) \<and>
    (moreHeld (BufferedLinesAfter ring after limit) \<longleftrightarrow> nat limit < length (linesAbove ring after))"
  proof cases
    case 1
    then have "linesAbove ring after = []" using assms linesAbove_none by (auto simp: linesAbove_def)
    then show ?thesis using 1 more [of "length (ringLines ring)"] by (auto simp: BufferedLinesAfter_def slice_lines)
  next
    case 2
    let ?k = "if after < lineSeq (hd (ringLines ring)) then 0 else after - lineSeq (hd (ringLines ring)) + 1"
    have "lineSeq (ringLines ring ! 0) + length (ringLines ring) = lastSeq ring + 1" using assms 2(1) by (simp add: ringInv_def)
    then have "?k \<le> length (ringLines ring)" using 2 by (auto simp: hd_conv_nth)
    moreover have "BufferedLinesAfter ring after limit = slice ring ?k limit" using 2 by (simp add: BufferedLinesAfter_def Let_def)
    ultimately show ?thesis using linesAbove_drop [OF assms 2] more [of ?k] by (simp add: slice_lines)
  qed
  then show "sliceLines (BufferedLinesAfter ring after limit) = take (nat limit) (linesAbove ring after)"
    "moreHeld (BufferedLinesAfter ring after limit) \<longleftrightarrow> nat limit < length (linesAbove ring after)" by auto
qed

text \<open>A reader that keeps asking for at most \<open>limit\<close> lines after the last one it has got, until no more are held.\<close>

fun readPages :: "Ring \<Rightarrow> int \<Rightarrow> nat \<Rightarrow> nat \<Rightarrow> BufferedLine list" where
  "readPages ring limit after 0 = []"
| "readPages ring limit after (Suc n) =
     (let s = BufferedLinesAfter ring after limit
      in sliceLines s @ (if moreHeld s then readPages ring limit (lineSeq (last (sliceLines s))) n else []))"

lemma lines_increasing: "ringInv ring \<Longrightarrow> sorted_wrt (\<lambda>a b. lineSeq a < lineSeq b) (ringLines ring)"
proof (rule sorted_wrt_iff_nth_less [THEN iffD2], intro allI impI)
  fix i j assume inv: "ringInv ring" and ij: "i < j" "j < length (ringLines ring)"
  have "lineSeq (ringLines ring ! i) + length (ringLines ring) = lastSeq ring + 1 + i" "lineSeq (ringLines ring ! j) + length (ringLines ring) = lastSeq ring + 1 + j"
    using inv ij by (auto simp: ringInv_def)
  then show "lineSeq (ringLines ring ! i) < lineSeq (ringLines ring ! j)" using ij by linarith
qed

lemma above_last:
  assumes "sorted_wrt (\<lambda>a b. lineSeq a < lineSeq b) ls" "filter (\<lambda>l. a < lineSeq l) ls = xs @ [x] @ ys"
  shows "filter (\<lambda>l. lineSeq x < lineSeq l) ls = ys"
proof -
  have "x \<in> set (filter (\<lambda>l. a < lineSeq l) ls)" by (simp add: assms(2))
  then have ax: "a < lineSeq x" by simp
  have "filter (\<lambda>l. lineSeq x < lineSeq l) ls = filter (\<lambda>l. lineSeq x < lineSeq l) (filter (\<lambda>l. a < lineSeq l) ls)"
    using ax by (auto intro!: filter_cong)
  also have "\<dots> = filter (\<lambda>l. lineSeq x < lineSeq l) (xs @ [x] @ ys)" by (simp only: assms(2))
  also have "\<dots> = ys"
  proof -
    have "sorted_wrt (\<lambda>a b. lineSeq a < lineSeq b) (xs @ [x] @ ys)" using sorted_wrt_filter [OF assms(1)] assms(2) by metis
    then show ?thesis by (auto simp: sorted_wrt_append filter_empty_conv filter_id_conv)
  qed
  finally show ?thesis .
qed

text \<open>C40: paging through the log is complete. A reader that asks with a positive page size for what follows the last line it got, as long as the answer reports
  that more lines are held, gets exactly the held lines above the number it started from, each once and in order, and is done after at most one request more than
  there are such lines. (The log does not change meanwhile.)\<close>

theorem log_paging_complete:
  assumes "ringInv ring" "0 < limit" "length (linesAbove ring after) \<le> n"
  shows "readPages ring limit after (Suc n) = linesAbove ring after"
  using assms(3)
proof (induction n arbitrary: after rule: less_induct)
  case (less n)
  let ?L = "linesAbove ring after" and ?s = "BufferedLinesAfter ring after limit"
  note page = lines_after_exact [OF assms(1), of after limit]
  show ?case
  proof (cases "moreHeld ?s")
    case True
    let ?m = "nat limit"
    have m: "0 < ?m" "?m < length ?L" using assms(2) True page(2) by auto
    then obtain k where n: "n = Suc k" using less.prems by (cases n) auto
    have t: "take ?m ?L \<noteq> []" using m by (auto simp: take_eq_Nil)
    have "?L = take ?m ?L @ drop ?m ?L" by simp
    then have "?L = butlast (take ?m ?L) @ [last (take ?m ?L)] @ drop ?m ?L" using append_butlast_last_id [OF t] by (metis append.assoc)
    then have next_page: "linesAbove ring (lineSeq (last (take ?m ?L))) = drop ?m ?L"
      unfolding linesAbove_def by (rule above_last [OF lines_increasing [OF assms(1)]])
    have "readPages ring limit (lineSeq (last (take ?m ?L))) (Suc k) = drop ?m ?L"
      using less.IH [of k "lineSeq (last (take ?m ?L))"] n m less.prems by (simp add: next_page)
    then have "readPages ring limit after (Suc n) = take ?m ?L @ drop ?m ?L" using True page(1) n by (simp add: Let_def)
    then show ?thesis by simp
  next
    case False
    then show ?thesis using page by (simp add: Let_def)
  qed
qed

definition demoRing :: Ring where
  "demoRing = BufferUserLog 7 [97, 10, 98, 13, 10, 10, 99] emptyRing"

lemma demoRing_inv: "ringInv demoRing"
  unfolding demoRing_def by (intro user_log_inv ring_init)

lemma demoRing_eq: "ringLines demoRing = [\<lparr>lineSeq = 1, lineTime = 7, lineText = [97]\<rparr>, \<lparr>lineSeq = 2, lineTime = 7, lineText = [98]\<rparr>,
    \<lparr>lineSeq = 3, lineTime = 7, lineText = [99]\<rparr>]" "lastSeq demoRing = 3"
  by (simp_all add: demoRing_def BufferUserLog_def chunkTexts_def clipped_def endsWith_def startsWith_def kMaxLineLength_def emptyRing_def pushLine_def
      kMaxLines_def kMaxBytes_def textBytes_def Let_def)

theorem log_ring_invariant_witness: "ringInv demoRing \<and> lineSeq \<lparr>lineSeq = 3, lineTime = 7, lineText = [99]\<rparr> = BufferedNewestSeq demoRing"
proof -
  have "log_step emptyRing demoRing" unfolding log_step_def demoRing_def by blast
  then have "log_step\<^sup>*\<^sup>* emptyRing demoRing" by blast
  from log_ring_invariant [OF this] show ?thesis by (simp add: demoRing_eq)
qed

theorem log_paging_complete_witness: "readPages demoRing 1 1 (Suc 2) = [\<lparr>lineSeq = 2, lineTime = 7, lineText = [98]\<rparr>, \<lparr>lineSeq = 3, lineTime = 7, lineText = [99]\<rparr>]"
  using log_paging_complete [OF demoRing_inv, of 1 1 2] by (simp add: linesAbove_def demoRing_eq del: readPages.simps)

end
