(* ===== verification/Otp_Codec.thy ===== *)
theory Otp_Codec
  imports Wd_Prelude
begin

text \<open>
  The byte formats of \<^verbatim>\<open>src/src/global/OTP.cpp\<close>: base32 secrets and the protocol-buffer fields of a migration link. A \<open>QByteArray\<close> is a list of
  8-bit words. The readers of the program hold a position in a fixed array; here they hold what is left of it, and a reader that returns false
  is \<open>None\<close>. Both base32 loops shift a 32-bit buffer whose upper bits are never cleared; only its low \<open>bitsLeft\<close> bits matter.

  Results: the two base32 loops compute what RFC 4648 says, written with lists of bits (\<open>base32_encode_bits\<close>, \<open>base32_decode_bits\<close>), and decoding
  inverts encoding; variable-length integers and fields are read back as written, with what follows them untouched.
\<close>

type_synonym byte = "8 word"

subsection \<open>Base32\<close>

definition BASE32_ALPHABET :: qstring where
  "BASE32_ALPHABET = qs ''ABCDEFGHIJKLMNOPQRSTUVWXYZ234567''"

definition base32Skips :: "qchar \<Rightarrow> bool" where
  "base32Skips c \<longleftrightarrow> c \<in> {32, 45, 95, 9, 13, 10, 61}"

definition base32Digit :: "qchar \<Rightarrow> nat option" where
  "base32Digit c =
     (if 65 \<le> c \<and> c \<le> 90 then Some (c - 65)
      else if 97 \<le> c \<and> c \<le> 122 then Some (c - 97)
      else if 50 \<le> c \<and> c \<le> 55 then Some (c - 50 + 26)
      else None)"

fun decodeLoop :: "32 word \<Rightarrow> nat \<Rightarrow> byte list \<Rightarrow> qstring \<Rightarrow> byte list option" where
  "decodeLoop buffer bitsLeft out [] = Some out"
| "decodeLoop buffer bitsLeft out (c # cs) =
     (if base32Skips c then decodeLoop buffer bitsLeft out cs
      else case base32Digit c of
             None \<Rightarrow> None
           | Some v \<Rightarrow>
               let buffer = push_bit 5 buffer OR word_of_nat v;
                   bitsLeft = bitsLeft + 5
               in if bitsLeft \<ge> 8
                  then decodeLoop buffer (bitsLeft - 8) (out @ [ucast (drop_bit (bitsLeft - 8) buffer AND 0xFF)]) cs
                  else decodeLoop buffer bitsLeft out cs)"

definition Base32Decode :: "qstring \<Rightarrow> byte list option" where
  "Base32Decode input = decodeLoop 0 0 [] input"

definition alphabetAt :: "32 word \<Rightarrow> qchar" where
  "alphabetAt w = BASE32_ALPHABET ! unat (w AND 0x1F)"

function emitLoop :: "32 word \<Rightarrow> nat \<Rightarrow> qstring \<Rightarrow> nat \<times> qstring" where
  "emitLoop buffer bitsLeft out =
     (if bitsLeft \<ge> 5 then emitLoop buffer (bitsLeft - 5) (out @ [alphabetAt (drop_bit (bitsLeft - 5) buffer)])
      else (bitsLeft, out))"
  by pat_completeness auto
termination by (relation "measure (\<lambda>(b, n, out). n)") auto

declare emitLoop.simps [simp del]

fun encodeLoop :: "32 word \<Rightarrow> nat \<Rightarrow> qstring \<Rightarrow> byte list \<Rightarrow> 32 word \<times> nat \<times> qstring" where
  "encodeLoop buffer bitsLeft out [] = (buffer, bitsLeft, out)"
| "encodeLoop buffer bitsLeft out (b # bs) =
     (let buffer = push_bit 8 buffer OR ucast b; (bitsLeft, out) = emitLoop buffer (bitsLeft + 8) out
      in encodeLoop buffer bitsLeft out bs)"

definition Base32Encode :: "byte list \<Rightarrow> qstring" where
  "Base32Encode input =
     (let (buffer, bitsLeft, out) = encodeLoop 0 0 [] input
      in if bitsLeft > 0 then out @ [alphabetAt (push_bit (5 - bitsLeft) buffer)] else out)"

definition NormalizeSecret :: "qstring \<Rightarrow> qstring" where
  "NormalizeSecret secret =
     (case Base32Decode secret of None \<Rightarrow> [] | Some decoded \<Rightarrow> if decoded = [] then [] else Base32Encode decoded)"

subsection \<open>Protocol-buffer fields\<close>

function pbWriteVarint :: "64 word \<Rightarrow> byte list" where
  "pbWriteVarint v =
     (let low = ucast (v AND 0x7F); rest = drop_bit 7 v
      in if rest \<noteq> 0 then (low OR 0x80) # pbWriteVarint rest else [low])"
  by pat_completeness auto
termination
proof (relation "measure unat")
  fix v low :: "64 word" and r assume "r = drop_bit 7 v" "r \<noteq> 0"
  moreover from this have "0 < unat v" by (cases "v = 0") (auto simp: unat_gt_0)
  ultimately show "(r, v) \<in> measure unat" by (simp add: drop_bit_eq_div unat_div_distrib)
qed simp

declare pbWriteVarint.simps [simp del]

definition pbWriteTag :: "nat \<Rightarrow> nat \<Rightarrow> byte list" where
  "pbWriteTag field wireType = pbWriteVarint (push_bit 3 (word_of_nat field) OR word_of_nat wireType)"

definition pbWriteBytes :: "nat \<Rightarrow> byte list \<Rightarrow> byte list" where
  "pbWriteBytes field v = pbWriteTag field 2 @ pbWriteVarint (word_of_nat (length v)) @ v"

definition pbWriteUint :: "nat \<Rightarrow> 64 word \<Rightarrow> byte list" where
  "pbWriteUint field v = pbWriteTag field 0 @ pbWriteVarint v"

fun readVarintLoop :: "nat \<Rightarrow> 64 word \<Rightarrow> byte list \<Rightarrow> (64 word \<times> byte list) option" where
  "readVarintLoop shift v [] = None"
| "readVarintLoop shift v (b # bs) =
     (let v = v OR push_bit shift (ucast (b AND 0x7F))
      in if b AND 0x80 = 0 then Some (v, bs)
         else if shift + 7 > 63 then None
         else readVarintLoop (shift + 7) v bs)"

definition pbReadVarint :: "byte list \<Rightarrow> (64 word \<times> byte list) option" where
  "pbReadVarint bs = readVarintLoop 0 0 bs"

text \<open>A field: its number as the program's \<open>int\<close>, its wire type, the integer and the bytes it carries.\<close>

record PbField =
  pbField :: "32 word"
  pbWire :: nat
  pbVarint :: "64 word"
  pbBytes :: "byte list"

definition pbReadField :: "byte list \<Rightarrow> (PbField \<times> byte list) option" where
  "pbReadField bs =
     (case pbReadVarint bs of
        None \<Rightarrow> None
      | Some (tag, rest) \<Rightarrow>
          let f = \<lparr>pbField = ucast (drop_bit 3 tag), pbWire = unat (tag AND 0x07), pbVarint = 0, pbBytes = []\<rparr>
          in if pbWire f = 0 then map_option (\<lambda>(v, rest). (f\<lparr>pbVarint := v\<rparr>, rest)) (pbReadVarint rest)
             else if pbWire f = 1 then (if 8 > length rest then None else Some (f, drop 8 rest))
             else if pbWire f = 2 then
               (case pbReadVarint rest of
                  None \<Rightarrow> None
                | Some (len, rest) \<Rightarrow>
                    if unat len > length rest then None
                    else Some (f\<lparr>pbBytes := take (unat len) rest\<rparr>, drop (unat len) rest))
             else if pbWire f = 5 then (if 4 > length rest then None else Some (f, drop 4 rest))
             else None)"

subsection \<open>Base32 by bits\<close>

text \<open>The low \<open>n\<close> bits of a word, highest first; the word of a list of bits; a list cut into pieces of \<open>n\<close>, a shorter rest dropped.\<close>

definition bitsOf :: "nat \<Rightarrow> 'a::len word \<Rightarrow> bool list" where
  "bitsOf n w = map (bit w) (rev [0..<n])"

definition ofBits :: "bool list \<Rightarrow> 'a::len word" where
  "ofBits bs = horner_sum of_bool 2 (rev bs)"

function pieces :: "nat \<Rightarrow> 'a list \<Rightarrow> 'a list list" where
  "pieces n xs = (if n = 0 \<or> length xs < n then [] else take n xs # pieces n (drop n xs))"
  by pat_completeness auto
termination by (relation "measure (length \<circ> snd)") auto

declare pieces.simps [simp del]

lemma length_bitsOf [simp]: "length (bitsOf n w) = n"
  by (simp add: bitsOf_def)

lemma bitsOf_0 [simp]: "bitsOf 0 w = []"
  by (simp add: bitsOf_def)

lemma ofBits_bitsOf: "ofBits (bitsOf n w) = take_bit n w"
  by (simp add: ofBits_def bitsOf_def rev_map horner_sum_bit_eq_take_bit)

lemma nth_bitsOf: "i < n \<Longrightarrow> bitsOf n w ! i = bit w (n - 1 - i)"
  by (simp add: bitsOf_def rev_nth)

lemma bitsOf_append:
  assumes "\<And>i. i < m \<Longrightarrow> bit w (i + n) \<longleftrightarrow> bit u i" "\<And>i. i < n \<Longrightarrow> bit w i \<longleftrightarrow> bit v i"
  shows "bitsOf (m + n) w = bitsOf m u @ bitsOf n v"
proof (rule nth_equalityI)
  fix i assume "i < length (bitsOf (m + n) w)"
  then have i: "i < m + n" by simp
  show "bitsOf (m + n) w ! i = (bitsOf m u @ bitsOf n v) ! i"
  proof (cases "i < m")
    case True
    then have "m + n - 1 - i = (m - 1 - i) + n" by simp
    then show ?thesis using True i assms(1) [of "m - 1 - i"] by (simp add: nth_append nth_bitsOf)
  next
    case False
    then have "m + n - 1 - i = n - 1 - (i - m)" by simp
    then show ?thesis using False i assms(2) [of "n - 1 - (i - m)"] by (simp add: nth_append nth_bitsOf)
  qed
qed simp

lemma bitsOf_shiftIn:
  fixes w v :: "'a::len word"
  assumes "n + k \<le> LENGTH('a)" "take_bit k v = v"
  shows "bitsOf (n + k) (push_bit k w OR v) = bitsOf n w @ bitsOf k v"
proof (rule bitsOf_append)
  have "\<not> bit v j" if "k \<le> j" for j using assms(2) that by (metis bit_take_bit_iff not_less)
  then show "bit (push_bit k w OR v) (i + k) \<longleftrightarrow> bit w i" if "i < n" for i
    using that assms(1) by (simp add: bit_or_iff bit_push_bit_iff)
qed (simp add: bit_or_iff bit_push_bit_iff)

lemma bitsOf_shiftOut: "bitsOf (m + k) w = bitsOf m (drop_bit k w) @ bitsOf k w"
  by (rule bitsOf_append) (simp_all add: bit_drop_bit_eq add.commute)

lemma bitsOf_take_bit: "m \<le> n \<Longrightarrow> bitsOf m (take_bit n w) = bitsOf m w"
  by (simp add: bitsOf_def bit_take_bit_iff)

lemma bitsOf_ucast: "n \<le> LENGTH('b) \<Longrightarrow> bitsOf n (ucast (w :: 'a::len word) :: 'b::len word) = bitsOf n w"
  by (auto simp: bitsOf_def bit_ucast_iff)

lemma take_bit_ucast_byte: "take_bit 8 (ucast (b :: byte) :: 32 word) = ucast b"
  by (rule bit_word_eqI) (auto simp: bit_take_bit_iff bit_ucast_iff dest: bit_imp_le_length)

lemma pieces_short [simp]: "length xs < n \<Longrightarrow> pieces n xs = []"
  by (subst pieces.simps) simp

lemma pieces_append: "0 < n \<Longrightarrow> length xs = n \<Longrightarrow> pieces n (xs @ ys) = xs # pieces n ys"
  by (subst pieces.simps) simp

lemma pieces_concat: "0 < n \<Longrightarrow> \<forall>x \<in> set xss. length x = n \<Longrightarrow> length ys < n \<Longrightarrow> pieces n (concat xss @ ys) = xss"
  by (induction xss) (simp_all add: pieces_append)

text \<open>Decoding: the digits' five-bit groups in a row, cut into octets.\<close>

definition digitBits :: "qchar \<Rightarrow> bool list" where
  "digitBits c = bitsOf 5 (word_of_nat (the (base32Digit c)) :: 32 word)"

definition significant :: "qstring \<Rightarrow> qstring" where
  "significant s = filter (\<lambda>c. \<not> base32Skips c) s"

lemma base32Digit_less: "base32Digit c = Some v \<Longrightarrow> v < 32"
  by (auto simp: base32Digit_def split: if_splits)

lemma take_bit_digit: "v < 32 \<Longrightarrow> take_bit 5 (word_of_nat v :: 32 word) = word_of_nat v"
  by (simp add: take_bit_of_nat take_bit_nat_eq_self)

lemma and_masks: "(w AND 0xFF) = take_bit 8 w" "(w AND 0x1F) = take_bit 5 w" for w :: "32 word"
  by (simp_all add: take_bit_eq_mask mask_eq_exp_minus_1)

lemma octet_out: "ofBits (bitsOf 8 w) = (ucast (w AND 0xFF) :: byte)" for w :: "32 word"
proof -
  have "bitsOf 8 (ucast (w AND 0xFF) :: byte) = bitsOf 8 w" by (simp add: bitsOf_ucast bitsOf_take_bit and_masks)
  moreover have "take_bit 8 b = b" for b :: byte by (rule bit_word_eqI) (auto simp: bit_take_bit_iff dest: bit_imp_le_length)
  ultimately show ?thesis using ofBits_bitsOf [of 8 "ucast (w AND 0xFF) :: byte"] by metis
qed

lemma decodeLoop_bits:
  "n < 8 \<Longrightarrow> decodeLoop buffer n out cs =
     (if \<forall>c \<in> set (significant cs). base32Digit c \<noteq> None
      then Some (out @ map ofBits (pieces 8 (bitsOf n buffer @ concat (map digitBits (significant cs))))) else None)"
proof (induction cs arbitrary: buffer n out)
  case (Cons c cs)
  show ?case
  proof (cases "base32Skips c \<or> base32Digit c = None")
    case True
    then show ?thesis using Cons by (auto simp: significant_def)
  next
    case False
    then obtain v where v: "base32Digit c = Some v" by auto
    define w where "w = (push_bit 5 buffer OR word_of_nat v :: 32 word)"
    have b: "bitsOf (n + 5) w = bitsOf n buffer @ digitBits c"
      using Cons.prems v take_bit_digit [OF base32Digit_less [OF v]] by (simp add: digitBits_def bitsOf_shiftIn w_def)
    show ?thesis
    proof (cases "8 \<le> n + 5")
      case True
      have "bitsOf n buffer @ digitBits c = bitsOf 8 (drop_bit (n + 5 - 8) w) @ bitsOf (n + 5 - 8) w"
        using bitsOf_shiftOut [of 8 "n + 5 - 8" w] b True by (simp add: add.commute)
      then have "pieces 8 ((bitsOf n buffer @ digitBits c) @ xs) = bitsOf 8 (drop_bit (n + 5 - 8) w) # pieces 8 (bitsOf (n + 5 - 8) w @ xs)" for xs
        by (metis append_assoc length_bitsOf pieces_append zero_less_numeral)
      then show ?thesis using False True v Cons.IH [of "n + 5 - 8" w] Cons.prems by (simp add: significant_def Let_def w_def [symmetric] octet_out) blast
    next
      case small: False
      then show ?thesis using False v Cons.IH [of "n + 5" w out] b by (simp add: significant_def Let_def w_def [symmetric]) blast
    qed
  qed
qed (simp add: significant_def)

lemma base32_decode_bits:
  "Base32Decode s =
     (if \<forall>c \<in> set (significant s). base32Digit c \<noteq> None then Some (map ofBits (pieces 8 (concat (map digitBits (significant s))))) else None)"
  by (simp add: Base32Decode_def decodeLoop_bits)

text \<open>Encoding: the octets' bits in a row, padded with zeros to a multiple of five, and cut into groups.\<close>

definition digitOf :: "bool list \<Rightarrow> qchar" where
  "digitOf g = BASE32_ALPHABET ! unat (ofBits g :: 32 word)"

lemma alphabetAt_bits: "alphabetAt w = digitOf (bitsOf 5 w)"
  by (simp add: alphabetAt_def digitOf_def ofBits_bitsOf and_masks)

lemma emitLoop_bits:
  "emitLoop buffer n out = (n mod 5, out @ map digitOf (pieces 5 (bitsOf n buffer)))"
proof (induction n arbitrary: out rule: less_induct)
  case (less n)
  show ?case
  proof (cases "5 \<le> n")
    case True
    have "pieces 5 (bitsOf n buffer) = bitsOf 5 (drop_bit (n - 5) buffer) # pieces 5 (bitsOf (n - 5) buffer)"
      using bitsOf_shiftOut [of 5 "n - 5" buffer] True by (simp add: pieces_append)
    moreover have "(n - 5) mod 5 = n mod 5" using True by (simp add: le_mod_geq)
    ultimately show ?thesis using less [of "n - 5"] True by (simp add: emitLoop.simps [of buffer n] alphabetAt_bits)
  next
    case False
    then show ?thesis by (simp add: emitLoop.simps [of buffer n])
  qed
qed

definition leftOver :: "nat \<Rightarrow> 'a list \<Rightarrow> 'a list" where
  "leftOver n xs = drop (n * (length xs div n)) xs"

lemma length_leftOver [simp]: "length (leftOver n xs) = length xs mod n"
  by (simp add: leftOver_def minus_mult_div_eq_mod)

lemma leftOver_step: "0 < n \<Longrightarrow> n \<le> length xs \<Longrightarrow> leftOver n (drop n xs) = leftOver n xs"
  by (simp add: leftOver_def le_div_geq algebra_simps)

lemma leftOver_append: "0 < n \<Longrightarrow> leftOver n (leftOver n xs @ ys) = leftOver n (xs @ ys)"
proof -
  assume n: "0 < n"
  let ?q = "length xs div n" and ?k = "(length xs mod n + length ys) div n"
  have "length xs + length ys = n * ?q + (length xs mod n + length ys)" by simp
  then have "(length xs + length ys) div n = ?q + ?k" using n by (metis div_mult_self2 add.commute less_numeral_extra(3))
  then have "leftOver n (xs @ ys) = drop (n * ?k + n * ?q) (xs @ ys)" by (simp add: leftOver_def distrib_left add.commute)
  also have "\<dots> = drop (n * ?k) (drop (n * ?q) (xs @ ys))" by (simp only: drop_drop)
  also have "\<dots> = drop (n * ?k) (leftOver n xs @ ys)" by (simp add: leftOver_def)
  also have "\<dots> = leftOver n (leftOver n xs @ ys)" by (simp add: leftOver_def [of n "leftOver n xs @ ys"])
  finally show ?thesis by simp
qed

lemma pieces_leftOver: "0 < n \<Longrightarrow> pieces n (xs @ ys) = pieces n xs @ pieces n (leftOver n xs @ ys)"
proof (induction n xs rule: pieces.induct)
  case (1 n xs)
  show ?case
  proof (cases "length xs < n")
    case True
    then show ?thesis by (simp add: leftOver_def)
  next
    case False
    moreover have "pieces n (xs @ ys) = take n xs # pieces n (drop n xs @ ys)" "pieces n xs = take n xs # pieces n (drop n xs)"
      using False 1(2) by (subst pieces.simps; simp)+
    ultimately show ?thesis using 1 leftOver_step [of n xs] by simp
  qed
qed

lemma bitsOf_leftOver: "bitsOf (n mod 5) w = leftOver 5 (bitsOf n w)"
  using bitsOf_shiftOut [of "5 * (n div 5)" "n mod 5" w] by (simp add: leftOver_def)

lemma encodeLoop_bits:
  assumes "n < 5" "encodeLoop buffer n out bs = (buffer', n', out')"
  shows "n' < 5 \<and> out' = out @ map digitOf (pieces 5 (bitsOf n buffer @ concat (map (bitsOf 8) bs)))
    \<and> bitsOf n' buffer' = leftOver 5 (bitsOf n buffer @ concat (map (bitsOf 8) bs))"
  using assms
proof (induction bs arbitrary: buffer n out)
  case Nil
  then show ?case by (simp add: leftOver_def)
next
  case (Cons b bs)
  define w where "w = (push_bit 8 buffer OR ucast b :: 32 word)"
  define r where "r = concat (map (bitsOf 8) bs)"
  have w: "bitsOf n buffer @ bitsOf 8 b = bitsOf (n + 8) w"
    using Cons.prems(1) take_bit_ucast_byte [of b] by (simp add: w_def bitsOf_shiftIn bitsOf_ucast)
  have "encodeLoop w ((n + 8) mod 5) (out @ map digitOf (pieces 5 (bitsOf (n + 8) w))) bs = (buffer', n', out')"
    using Cons.prems(2) by (simp add: w_def [symmetric] emitLoop_bits Let_def)
  from Cons.IH [OF _ this]
  have IH: "n' < 5" "out' = (out @ map digitOf (pieces 5 (bitsOf (n + 8) w))) @ map digitOf (pieces 5 (leftOver 5 (bitsOf (n + 8) w) @ r))"
    "bitsOf n' buffer' = leftOver 5 (leftOver 5 (bitsOf (n + 8) w) @ r)" by (simp_all add: bitsOf_leftOver r_def)
  have "bitsOf n buffer @ concat (map (bitsOf 8) (b # bs)) = bitsOf (n + 8) w @ r" using w by (simp add: r_def flip: w)
  moreover have "leftOver 5 (leftOver 5 (bitsOf (n + 8) w) @ r) = leftOver 5 (bitsOf (n + 8) w @ r)" by (rule leftOver_append) simp
  moreover have "pieces 5 (bitsOf (n + 8) w @ r) = pieces 5 (bitsOf (n + 8) w) @ pieces 5 (leftOver 5 (bitsOf (n + 8) w) @ r)"
    by (rule pieces_leftOver) simp
  ultimately show ?case using IH by simp
qed

definition padded :: "nat \<Rightarrow> bool list \<Rightarrow> bool list" where
  "padded n xs = xs @ replicate ((n - length xs mod n) mod n) False"

lemma bitsOf_zero: "bitsOf n 0 = replicate n False"
  by (rule nth_equalityI) (simp_all add: nth_bitsOf)

lemma base32_encode_bits: "Base32Encode bs = map digitOf (pieces 5 (padded 5 (concat (map (bitsOf 8) bs))))"
proof -
  let ?all = "concat (map (bitsOf 8) bs)"
  obtain buffer n out where e: "encodeLoop 0 0 [] bs = (buffer, n, out)" by (cases "encodeLoop 0 0 [] bs") auto
  have n: "n < 5" and out: "out = map digitOf (pieces 5 ?all)" and rest: "bitsOf n buffer = leftOver 5 ?all"
    using encodeLoop_bits [OF _ e] by simp_all
  from arg_cong [OF rest, of length] have m: "n = length ?all mod 5" by simp
  show ?thesis
  proof (cases "n = 0")
    case True
    then show ?thesis using e out m by (simp add: Base32Encode_def padded_def)
  next
    case False
    have "bitsOf (n + (5 - n)) (push_bit (5 - n) buffer OR 0) = bitsOf n buffer @ bitsOf (5 - n) (0 :: 32 word)"
      using n by (intro bitsOf_shiftIn) simp_all
    then have "bitsOf 5 (push_bit (5 - n) buffer) = leftOver 5 ?all @ replicate (5 - n) False"
      using n rest by (simp add: bitsOf_zero)
    moreover have "pieces 5 (?all @ replicate (5 - n) False) = pieces 5 ?all @ pieces 5 (leftOver 5 ?all @ replicate (5 - n) False)"
      by (rule pieces_leftOver) simp
    moreover have "pieces 5 xs = [xs]" if "length xs = 5" for xs :: "bool list" using pieces_append [of 5 xs "[]"] that by simp
    ultimately show ?thesis using e out m n False by (simp add: Base32Encode_def padded_def alphabetAt_bits)
  qed
qed

lemma alphabet_digits: "list_all (\<lambda>k. base32Digit (BASE32_ALPHABET ! k) = Some k \<and> \<not> base32Skips (BASE32_ALPHABET ! k)) [0..<32]"
  unfolding BASE32_ALPHABET_def base32Digit_def base32Skips_def by code_simp

lemma unat_take5: "unat (take_bit 5 w :: 32 word) < 32"
  by (simp add: take_bit_eq_mod unat_mod_distrib)

lemma ofBits_5: "length g = 5 \<Longrightarrow> take_bit 5 (ofBits g :: 32 word) = ofBits g \<and> bitsOf 5 (ofBits g :: 32 word) = g"
proof -
  assume g: "length g = 5"
  have b: "bit (ofBits g :: 32 word) i \<longleftrightarrow> i < 5 \<and> rev g ! i" for i
    using g by (auto simp: ofBits_def bit_horner_sum_bit_word_iff)
  have "bitsOf 5 (ofBits g :: 32 word) = g"
    by (rule nth_equalityI) (auto simp: g nth_bitsOf b rev_nth)
  moreover have "take_bit 5 (ofBits g :: 32 word) = ofBits g" by (rule bit_word_eqI) (auto simp: bit_take_bit_iff b)
  ultimately show ?thesis by simp
qed

lemma digit_roundtrip:
  assumes "length g = 5"
  shows "base32Digit (digitOf g) \<noteq> None \<and> \<not> base32Skips (digitOf g) \<and> digitBits (digitOf g) = g"
proof -
  let ?k = "unat (ofBits g :: 32 word)"
  have "?k < 32" using unat_take5 [of "ofBits g"] ofBits_5 [OF assms] by metis
  then have "base32Digit (digitOf g) = Some ?k \<and> \<not> base32Skips (digitOf g)" using alphabet_digits by (simp add: list_all_iff digitOf_def)
  then show ?thesis using ofBits_5 [OF assms] by (simp add: digitBits_def)
qed

lemma pieces_length: "g \<in> set (pieces n xs) \<Longrightarrow> length g = n"
  by (induction n xs rule: pieces.induct) (subst (asm) (2) pieces.simps, auto split: if_splits)

lemma concat_pieces: "0 < n \<Longrightarrow> length xs mod n = 0 \<Longrightarrow> concat (pieces n xs) = xs"
proof (induction n xs rule: pieces.induct)
  case (1 n xs)
  show ?case
  proof (cases "length xs < n")
    case True
    then show ?thesis using 1 by simp
  next
    case False
    then have "length (drop n xs) mod n = 0" using 1(3) by (simp add: le_mod_geq)
    then show ?thesis using 1 False by (subst pieces.simps) simp
  qed
qed

lemma length_padded: "length (padded 5 xs) mod 5 = 0"
proof -
  have "m + (5 - m mod 5) = 5 * (m div 5 + 1)" for m :: nat by presburger
  then have "(m + (5 - m mod 5)) mod 5 = 0" for m :: nat by (metis mod_mult_self1_is_0)
  then have "(m + (5 - m mod 5) mod 5) mod 5 = 0" for m :: nat by (simp add: mod_add_right_eq)
  then show ?thesis by (simp add: padded_def)
qed

lemma byte_of_bits: "ofBits (bitsOf 8 b) = b" for b :: byte
  by (simp add: ofBits_bitsOf) (rule bit_word_eqI, auto simp: bit_take_bit_iff dest: bit_imp_le_length)

lemma base32_inverse: "Base32Decode (Base32Encode bs) = Some bs"
proof -
  let ?all = "concat (map (bitsOf 8) bs)" and ?gs = "pieces 5 (padded 5 (concat (map (bitsOf 8) bs)))"
  have g: "base32Digit (digitOf g) \<noteq> None \<and> \<not> base32Skips (digitOf g) \<and> digitBits (digitOf g) = g" if "g \<in> set ?gs" for g
    using digit_roundtrip [OF pieces_length [OF that]] .
  then have sig: "significant (Base32Encode bs) = map digitOf ?gs" by (simp add: base32_encode_bits significant_def filter_id_conv)
  have "map digitBits (map digitOf ?gs) = ?gs" using g by (simp add: map_idI)
  then have "concat (map digitBits (map digitOf ?gs)) = padded 5 ?all" using concat_pieces [OF _ length_padded [of ?all]] by simp
  moreover have "pieces 8 (padded 5 ?all) = map (bitsOf 8) bs" unfolding padded_def by (rule pieces_concat) auto
  ultimately show ?thesis using g sig by (simp add: base32_decode_bits byte_of_bits o_def)
qed

lemma normalize_twice: "NormalizeSecret (NormalizeSecret s) = NormalizeSecret s"
  using base32_inverse by (auto simp: NormalizeSecret_def Base32Decode_def split: option.split)

text \<open>C34: base32 is RFC 4648's. The two shifting loops compute the reference: encoding writes the bits of the bytes, padded with zeros to whole groups of five, one
  letter per group; decoding skips separators and padding, refuses any other character, and cuts the groups' bits into bytes, dropping a rest.
  Decoding inverts encoding, and normalising a secret twice is normalising it once.\<close>

theorem base32_rfc4648:
  "Base32Encode bs = map digitOf (pieces 5 (padded 5 (concat (map (bitsOf 8) bs))))
   \<and> Base32Decode s = (if list_all (\<lambda>c. base32Digit c \<noteq> None) (significant s)
        then Some (map ofBits (pieces 8 (concat (map digitBits (significant s))))) else None)
   \<and> Base32Decode (Base32Encode bs) = Some bs \<and> NormalizeSecret (NormalizeSecret s) = NormalizeSecret s"
  using base32_encode_bits base32_decode_bits base32_inverse normalize_twice by (simp add: list_all_iff)

subsection \<open>Fields are read back\<close>

lemma varint_low: 
  fixes v :: "64 word" and hi :: byte
  assumes h: "\<And>n. bit hi n \<longleftrightarrow> n = 7"
  shows "ucast ((ucast (v AND 0x7F) OR hi) AND 0x7F) = v AND 0x7F" "ucast ((ucast (v AND 0x7F) :: byte) AND 0x7F) = v AND 0x7F"
  "(ucast (v AND 0x7F) OR hi) AND hi \<noteq> 0" "ucast (v AND 0x7F) AND hi = 0"
proof -
  have m: "(0x7F :: 64 word) = mask 7" "(0x7F :: byte) = mask 7" by (simp_all add: mask_eq_exp_minus_1)
  show "ucast ((ucast (v AND 0x7F) OR hi) AND 0x7F) = v AND 0x7F"
    unfolding m by (rule bit_word_eqI) (auto simp: bit_ucast_iff bit_and_iff bit_or_iff bit_mask_iff h)
  show "ucast ((ucast (v AND 0x7F) :: byte) AND 0x7F) = v AND 0x7F"
    unfolding m by (rule bit_word_eqI) (auto simp: bit_ucast_iff bit_and_iff bit_mask_iff)
  have "bit ((ucast (v AND 0x7F) OR hi) AND hi) 7" by (simp add: bit_and_iff bit_or_iff h)
  then show "(ucast (v AND 0x7F) OR hi) AND hi \<noteq> 0" by (cases "(ucast (v AND 0x7F) OR hi) AND hi = 0") auto
  show "ucast (v AND 0x7F) AND hi = 0"
    unfolding m by (rule bit_word_eqI) (auto simp: bit_ucast_iff bit_and_iff bit_mask_iff h)
qed

lemma high_bit: "bit (0x80 :: byte) n \<longleftrightarrow> n = 7"
  using bit_exp_iff [where 'a = byte, of 7 n] by auto

lemma varint_join: "push_bit n (v AND 0x7F) OR push_bit (n + 7) (drop_bit 7 v) = push_bit n v" for v :: "64 word"
proof -
  have m: "(0x7F :: 64 word) = mask 7" by (simp add: mask_eq_exp_minus_1)
  show ?thesis unfolding m
  proof (rule bit_word_eqI)
    fix k
    show "bit (push_bit n (v AND mask 7) OR push_bit (n + 7) (drop_bit 7 v)) k \<longleftrightarrow> bit (push_bit n v) k"
    proof (cases "n + 7 \<le> k")
      case True
      then have "7 + (k - (n + 7)) = k - n" by simp
      then show ?thesis using True by (auto simp: bit_or_iff bit_push_bit_iff bit_and_iff bit_mask_iff bit_drop_bit_eq)
    qed (auto simp: bit_or_iff bit_push_bit_iff bit_and_iff bit_mask_iff bit_drop_bit_eq)
  qed
qed

text \<open>Where \<open>v\<close> still has to be written above \<open>shift\<close> and fits, reading continues and adds it.\<close>

lemma readVarintLoop_write:
  "unat v < 2 ^ (64 - shift) \<Longrightarrow> shift \<le> 63 \<Longrightarrow> readVarintLoop shift acc (pbWriteVarint v @ rest) = Some (acc OR push_bit shift v, rest)"
proof (induction v arbitrary: shift acc rule: pbWriteVarint.induct)
  case (1 v)
  show ?case
  proof (cases "drop_bit 7 v = 0")
    case True
    then have "v AND 0x7F = v" using varint_join [of 0 v] by simp
    then show ?thesis using True varint_low [OF high_bit, of v] by (simp add: pbWriteVarint.simps [of v] Let_def)
  next
    case False
    have "2 ^ 7 \<le> unat v"
    proof (rule ccontr)
      assume "\<not> 2 ^ 7 \<le> unat v"
      then have "unat (drop_bit 7 v) = 0" by (simp add: drop_bit_eq_div unat_div_distrib)
      then show False using False by (simp add: unat_eq_zero)
    qed
    then have "(2 :: nat) ^ 7 < 2 ^ (64 - shift)" using 1(2) by linarith
    then have s: "shift + 7 \<le> 63" using power_less_imp_less_exp [of "2 :: nat" 7 "64 - shift"] by simp
    have "unat (drop_bit 7 v) < 2 ^ (64 - (shift + 7))"
    proof -
      have "64 - shift = 64 - (shift + 7) + 7" using s by simp
      then have "unat v < 2 ^ (64 - (shift + 7)) * 2 ^ 7" using 1(2) by (metis power_add)
      then show ?thesis by (simp add: drop_bit_eq_div unat_div_distrib less_mult_imp_div_less)
    qed
    from 1(1) [OF refl refl False this s]
    show ?thesis using False s varint_low [OF high_bit, of v] varint_join [of shift v]
      by (simp add: pbWriteVarint.simps [of v] Let_def or.assoc)
  qed
qed

lemma pbReadVarint_write [simp]: "pbReadVarint (pbWriteVarint v @ rest) = Some (v, rest)"
  using readVarintLoop_write [of v 0 0 rest] unsigned_less [of v] by (simp add: pbReadVarint_def)

lemma tag_parts: 
  fixes f w :: nat
  assumes "w < 8"
  defines "tag \<equiv> push_bit 3 (word_of_nat f) OR word_of_nat w :: 64 word"
  shows "ucast (drop_bit 3 tag) = (word_of_nat f :: 32 word)" "unat (tag AND 0x07) = w"
proof -
  have "take_bit 3 w = w" using assms(1) by (simp add: take_bit_nat_eq_self)
  then have w: "\<not> bit w k" if "3 \<le> k" for k using that by (metis bit_take_bit_iff not_le)
  show "ucast (drop_bit 3 tag) = (word_of_nat f :: 32 word)" unfolding tag_def
    by (rule bit_word_eqI) (auto simp: bit_simps w)
  have m: "(0x07 :: 64 word) = mask 3" by (simp add: mask_eq_exp_minus_1)
  have "tag AND 0x07 = word_of_nat w" unfolding tag_def m  by (rule bit_word_eqI) (auto simp: bit_simps w not_le [symmetric])
  then show "unat (tag AND 0x07) = w" using assms(1) by (simp add: unat_of_nat)
qed

lemma pbReadField_bytes:
  assumes "length v < 2 ^ 64"
  shows "pbReadField (pbWriteBytes f v @ rest) = Some (\<lparr>pbField = word_of_nat f, pbWire = 2, pbVarint = 0, pbBytes = v\<rparr>, rest)"
proof -
  have "unat (word_of_nat (length v) :: 64 word) = length v" using assms by (simp add: unat_of_nat)
  then show ?thesis using tag_parts [of 2 f] by (simp add: pbReadField_def pbWriteBytes_def pbWriteTag_def Let_def)
qed

lemma pbReadField_uint:
  "pbReadField (pbWriteUint f v @ rest) = Some (\<lparr>pbField = word_of_nat f, pbWire = 0, pbVarint = v, pbBytes = []\<rparr>, rest)"
  using tag_parts [of 0 f] by (simp add: pbReadField_def pbWriteUint_def pbWriteTag_def Let_def)

lemma pbReadVarint_shorter: "readVarintLoop shift acc bs = Some (v, rest) \<Longrightarrow> length rest < length bs"
  by (induction shift acc bs rule: readVarintLoop.induct) (auto simp: Let_def split: if_splits)

lemma pbReadField_shorter: "pbReadField bs = Some (f, rest) \<Longrightarrow> length rest < length bs"
  by (auto simp: pbReadField_def pbReadVarint_def Let_def split: option.splits if_splits dest!: pbReadVarint_shorter) linarith+

lemma pbWriteVarint_nonempty [simp]: "pbWriteVarint v \<noteq> []"
  by (simp add: pbWriteVarint.simps [of v] Let_def)

end
