(* ===== verification/Otp.thy ===== *)
theory Otp
  imports Otp_Codec Json_Values
begin

text \<open>
  One-time passwords, \<^verbatim>\<open>src/src/global/OTP.cpp\<close>: the entry, the codes of RFC 4226 and RFC 6238, and reading and writing entries as links, migration
  links and JSON. What the program asks of Qt is an argument: the hash \<open>hmac\<close> of a key and a message, the parts of a URL (\<open>OtpUrl\<close>, its query decoded),
  the text of a URL, base64, UTF-8 decoding and JSON text. A translated sentence is a constructor of \<open>OtpProblem\<close>; an empty sentence is \<open>None\<close>.
  An \<open>int\<close> or \<open>qint64\<close> member is an integer; where the code casts it to an unsigned number or back, the cast is written out.

  Results: a code has exactly the configured number of digits and is RFC 4226's truncation; it is constant over the seconds
  \<open>SecondsRemaining\<close> reports and no longer; a migration link brings back every entry that has a key, up to what its format
  cannot hold; links and JSON are round trips; a problem reported for pasted text quotes nothing of a secret.
\<close>

datatype Algorithm = SHA1 | SHA256 | SHA512

datatype OtpType = TOTP | HOTP

definition DEFAULT_DIGITS :: int where "DEFAULT_DIGITS = 6"
definition DEFAULT_PERIOD :: int where "DEFAULT_PERIOD = 30"
definition MIN_DIGITS :: int where "MIN_DIGITS = 4"
definition MAX_DIGITS :: int where "MAX_DIGITS = 10"
definition MIN_PERIOD :: int where "MIN_PERIOD = 1"
definition MAX_PERIOD :: int where "MAX_PERIOD = 3600"
definition MIN_BARE_SECRET_BYTES :: nat where "MIN_BARE_SECRET_BYTES = 10"

lemmas otp_constants = DEFAULT_DIGITS_def DEFAULT_PERIOD_def MIN_DIGITS_def MAX_DIGITS_def MIN_PERIOD_def MAX_PERIOD_def

record Entry =
  e_name :: qstring
  e_issuer :: qstring
  e_secret :: qstring
  e_algorithm :: Algorithm
  e_type :: OtpType
  e_digits :: int
  e_period :: int
  e_counter :: int

definition newEntry :: Entry where
  "newEntry = \<lparr>e_name = [], e_issuer = [], e_secret = [], e_algorithm = SHA1, e_type = TOTP, e_digits = DEFAULT_DIGITS,
     e_period = DEFAULT_PERIOD, e_counter = 0\<rparr>"

datatype OtpProblem =
    BadAlgorithm "qstring option" qstring | BadDigits "qstring option" qstring | BadPeriod "qstring option" qstring
  | BadCounter "qstring option" qstring | BadType "qstring option" qstring | NoSecret "qstring option" | BadSecret "qstring option"
  | BadDigitsCode "qstring option" qstring | NotAnEntry | NotReadable | UnreadableMigration | UnreadableLink | ShortSecret nat
  | InvalidBareSecret | NotALink qstring

datatype Invalid = SecretEmpty | SecretNotBase32 | SecretTooShort | DigitsRange | PeriodRange

text \<open>The label of an entry in a sentence; \<open>None\<close> is the translation of ``Unnamed entry''.\<close>

definition otpEntryLabel :: "Entry \<Rightarrow> qstring option" where
  "otpEntryLabel e = (if e_name e \<noteq> [] then Some (e_name e) else if e_issuer e \<noteq> [] then Some (e_issuer e) else None)"

subsection \<open>Names\<close>

definition AlgorithmToString :: "Algorithm \<Rightarrow> qstring" where
  "AlgorithmToString a = (case a of SHA256 \<Rightarrow> qs ''SHA256'' | SHA512 \<Rightarrow> qs ''SHA512'' | SHA1 \<Rightarrow> qs ''SHA1'')"

text \<open>\<open>QString::toUpper\<close> as far as a comparison with ASCII names can tell: the ASCII letters, and the two letters whose capital is ASCII.\<close>

definition toUpper :: "qstring \<Rightarrow> qstring" where
  "toUpper s = map (\<lambda>c. if 97 \<le> c \<and> c \<le> 122 then c - 32 else if c = 0x17F then 83 else if c = 0x131 then 73 else c) s"

definition AlgorithmFromString :: "qstring \<Rightarrow> Algorithm \<times> bool" where
  "AlgorithmFromString name =
     (let normalized = filter (\<lambda>c. c \<noteq> u_dash) (toUpper (trimmed name))
      in if normalized = qs ''SHA256'' then (SHA256, True)
         else if normalized = qs ''SHA512'' then (SHA512, True)
         else if normalized = qs ''SHA1'' \<or> normalized = [] then (SHA1, True)
         else (SHA1, False))"

definition TypeToString :: "OtpType \<Rightarrow> qstring" where
  "TypeToString t = (if t = HOTP then qs ''hotp'' else qs ''totp'')"

definition TypeFromString :: "qstring \<Rightarrow> OtpType \<times> bool" where
  "TypeFromString name =
     (let normalized = toLower (trimmed name)
      in if normalized = qs ''hotp'' then (HOTP, True)
         else if normalized = qs ''totp'' \<or> normalized = [] then (TOTP, True)
         else (TOTP, False))"

subsection \<open>Codes\<close>

definition Validate :: "Entry \<Rightarrow> Invalid option" where
  "Validate e =
     (if trimmed (e_secret e) = [] then Some SecretEmpty
      else case Base32Decode (e_secret e) of
             None \<Rightarrow> Some SecretNotBase32
           | Some key \<Rightarrow>
               if key = [] then Some SecretTooShort
               else if e_digits e < MIN_DIGITS \<or> e_digits e > MAX_DIGITS then Some DigitsRange
               else if e_type e = TOTP \<and> (e_period e < MIN_PERIOD \<or> e_period e > MAX_PERIOD) then Some PeriodRange
               else None)"

type_synonym hmac = "Algorithm \<Rightarrow> byte list \<Rightarrow> byte list \<Rightarrow> byte list"

text \<open>The message: the loop writes the low byte of the counter to index 7 and shifts, down to index 0.\<close>

fun counterBytes :: "nat \<Rightarrow> 64 word \<Rightarrow> byte list" where
  "counterBytes 0 counter = []"
| "counterBytes (Suc n) counter = counterBytes n (drop_bit 8 counter) @ [ucast (counter AND 0xFF)]"

definition truncateMac :: "byte list \<Rightarrow> 32 word" where
  "truncateMac mac =
     (let offset = unat (mac ! (length mac - 1) AND 0x0F)
      in push_bit 24 (ucast (mac ! offset) AND 0x7F) OR push_bit 16 (ucast (mac ! (offset + 1)))
         OR push_bit 8 (ucast (mac ! (offset + 2))) OR ucast (mac ! (offset + 3)))"

fun modulusLoop :: "nat \<Rightarrow> 64 word \<Rightarrow> 64 word" where
  "modulusLoop 0 m = m"
| "modulusLoop (Suc n) m = modulusLoop n (m * 10)"

text \<open>\<open>QString::arg\<close> with a field width and zero as fill character.\<close>

definition zeroPadded :: "nat \<Rightarrow> nat \<Rightarrow> qstring" where
  "zeroPadded width n = replicate (width - length (number n)) 48 @ number n"

definition GenerateHOTP :: "hmac \<Rightarrow> byte list \<Rightarrow> 64 word \<Rightarrow> Algorithm \<Rightarrow> int \<Rightarrow> qstring" where
  "GenerateHOTP hmac key counter algorithm digits =
     (if key = [] \<or> digits < MIN_DIGITS \<or> digits > MAX_DIGITS then []
      else
        let mac = hmac algorithm key (counterBytes 8 counter)
        in if length mac < 20 then []
           else
             let binary = truncateMac mac;
                 modulus = modulusLoop (nat digits) 1
             in zeroPadded (nat digits) (unat (ucast binary mod modulus)))"

text \<open>\<open>clock\<close> is \<open>currentSecsSinceEpoch\<close>; the quotient of a negative number, which a clock before 1970 could give, is rounded towards zero.\<close>

definition atTime :: "int \<Rightarrow> int \<Rightarrow> int" where
  "atTime clock unixTime = (if unixTime < 0 then clock else unixTime)"

definition truncDiv :: "int \<Rightarrow> int \<Rightarrow> int" where
  "truncDiv a b = (if a < 0 then - (- a div b) else a div b)"

text \<open>\<open>Base32Decode\<close> without its success flag.\<close>

definition the_default :: "byte list option \<Rightarrow> byte list" where
  "the_default r = (case r of None \<Rightarrow> [] | Some k \<Rightarrow> k)"

definition GenerateCode :: "hmac \<Rightarrow> int \<Rightarrow> Entry \<Rightarrow> int \<Rightarrow> qstring" where
  "GenerateCode hmac clock e unixTime =
     (if Validate e \<noteq> None then []
      else
        let key = the_default (Base32Decode (e_secret e))
        in if e_type e = HOTP then GenerateHOTP hmac key (word_of_int (e_counter e)) (e_algorithm e) (e_digits e)
           else GenerateHOTP hmac key (word_of_int (truncDiv (atTime clock unixTime) (e_period e))) (e_algorithm e) (e_digits e))"

definition SecondsRemaining :: "int \<Rightarrow> Entry \<Rightarrow> int \<Rightarrow> int" where
  "SecondsRemaining clock e unixTime =
     (if e_type e = HOTP \<or> e_period e < MIN_PERIOD then 0
      else let now = atTime clock unixTime in e_period e - (now - truncDiv now (e_period e) * e_period e))"

subsection \<open>Links\<close>

record OtpUrl =
  u_valid :: bool
  u_scheme :: qstring
  u_host :: qstring
  u_path :: qstring
  u_query :: "(qstring \<times> qstring) list"

definition queryItemValue :: "OtpUrl \<Rightarrow> qstring \<Rightarrow> qstring" where
  "queryItemValue u k = (case map_of (u_query u) k of None \<Rightarrow> [] | Some v \<Rightarrow> v)"

definition hasQueryItem :: "OtpUrl \<Rightarrow> qstring \<Rightarrow> bool" where
  "hasQueryItem u k \<longleftrightarrow> map_of (u_query u) k \<noteq> None"

definition linkParts :: "Entry \<Rightarrow> OtpUrl" where
  "linkParts e =
     \<lparr>u_valid = True, u_scheme = qs ''otpauth'', u_host = TypeToString (e_type e),
      u_path = [u_slash] @ (if e_issuer e = [] then e_name e else e_issuer e @ [u_colon] @ e_name e),
      u_query = [(qs ''secret'', e_secret e)] @ (if e_issuer e \<noteq> [] then [(qs ''issuer'', e_issuer e)] else [])
        @ [(qs ''algorithm'', AlgorithmToString (e_algorithm e)), (qs ''digits'', numberInt (e_digits e))]
        @ [if e_type e = HOTP then (qs ''counter'', numberInt (e_counter e)) else (qs ''period'', numberInt (e_period e))]\<rparr>"

definition ExportToLink :: "(OtpUrl \<Rightarrow> qstring) \<Rightarrow> Entry \<Rightarrow> qstring" where
  "ExportToLink urlText e = urlText (linkParts e)"

definition linkLabel :: "OtpUrl \<Rightarrow> Entry" where
  "linkLabel u =
     (let label = (if startsWith u_slash (u_path u) then tl (u_path u) else u_path u);
          e = (case indexOf u_colon label of
                 Some k \<Rightarrow> newEntry\<lparr>e_issuer := trimmed (take k label), e_name := trimmed (drop (k + 1) label)\<rparr>
               | None \<Rightarrow> newEntry\<lparr>e_name := trimmed label\<rparr>);
          issuer = trimmed (queryItemValue u (qs ''issuer''));
          e = (if issuer \<noteq> [] then e\<lparr>e_issuer := issuer\<rparr> else e)
      in if e_name e = [] then e\<lparr>e_name := e_issuer e\<rparr> else e)"

text \<open>The checks of the parameters, each a step that fails or passes the entry on.\<close>

type_synonym parsed_entry = "OtpProblem option + Entry"

definition next_step :: "parsed_entry \<Rightarrow> (Entry \<Rightarrow> parsed_entry) \<Rightarrow> parsed_entry" where
  "next_step r f = (case r of Inl p \<Rightarrow> Inl p | Inr e \<Rightarrow> f e)"

definition linkSecret :: "OtpUrl \<Rightarrow> Entry \<Rightarrow> parsed_entry" where
  "linkSecret u e =
     (let (t, ok) = TypeFromString (u_host u); e = e\<lparr>e_type := t\<rparr>; secret = queryItemValue u (qs ''secret'')
      in if \<not> ok then Inl (Some (BadType (otpEntryLabel e) (u_host u)))
         else if trimmed secret = [] then Inl (Some (NoSecret (otpEntryLabel e)))
         else let e = e\<lparr>e_secret := NormalizeSecret secret\<rparr>
              in if e_secret e = [] then Inl (Some (BadSecret (otpEntryLabel e))) else Inr e)"

definition linkAlgorithm :: "OtpUrl \<Rightarrow> Entry \<Rightarrow> parsed_entry" where
  "linkAlgorithm u e =
     (if hasQueryItem u (qs ''algorithm'') then
        let text = queryItemValue u (qs ''algorithm''); (a, ok) = AlgorithmFromString text; e = e\<lparr>e_algorithm := a\<rparr>
        in if \<not> ok then Inl (Some (BadAlgorithm (otpEntryLabel e) text)) else Inr e
      else Inr e)"

definition linkDigits :: "OtpUrl \<Rightarrow> Entry \<Rightarrow> parsed_entry" where
  "linkDigits u e =
     (if hasQueryItem u (qs ''digits'') then
        let text = trimmed (queryItemValue u (qs ''digits''))
        in case toSigned 32 text of
             None \<Rightarrow> Inl (Some (BadDigits (otpEntryLabel e) text))
           | Some d \<Rightarrow> if d < MIN_DIGITS \<or> d > MAX_DIGITS then Inl (Some (BadDigits (otpEntryLabel e) text)) else Inr (e\<lparr>e_digits := d\<rparr>)
      else Inr e)"

definition linkPeriod :: "OtpUrl \<Rightarrow> Entry \<Rightarrow> parsed_entry" where
  "linkPeriod u e =
     (if e_type e = TOTP \<and> hasQueryItem u (qs ''period'') then
        let text = trimmed (queryItemValue u (qs ''period''))
        in case toSigned 32 text of
             None \<Rightarrow> Inl (Some (BadPeriod (otpEntryLabel e) text))
           | Some d \<Rightarrow> if d < MIN_PERIOD \<or> d > MAX_PERIOD then Inl (Some (BadPeriod (otpEntryLabel e) text)) else Inr (e\<lparr>e_period := d\<rparr>)
      else Inr e)"

definition linkCounter :: "OtpUrl \<Rightarrow> Entry \<Rightarrow> parsed_entry" where
  "linkCounter u e =
     (if e_type e = HOTP \<and> hasQueryItem u (qs ''counter'') then
        let text = trimmed (queryItemValue u (qs ''counter''))
        in case toSigned 64 text of
             None \<Rightarrow> Inl (Some (BadCounter (otpEntryLabel e) text))
           | Some d \<Rightarrow> if d < 0 then Inl (Some (BadCounter (otpEntryLabel e) text)) else Inr (e\<lparr>e_counter := d\<rparr>)
      else Inr e)"

definition ParseFromLink :: "(qstring \<Rightarrow> OtpUrl) \<Rightarrow> qstring \<Rightarrow> parsed_entry" where
  "ParseFromLink url link =
     (let u = url (trimmed link)
      in if \<not> u_valid u \<or> toLower (u_scheme u) \<noteq> qs ''otpauth'' then Inl None
         else next_step (next_step (next_step (next_step (linkSecret u (linkLabel u)) (linkAlgorithm u)) (linkDigits u)) (linkPeriod u)) (linkCounter u))"

subsection \<open>Migration links\<close>

definition migrationAlgorithm :: "64 word \<Rightarrow> Algorithm option" where
  "migrationAlgorithm v = (if v = 0 \<or> v = 1 then Some SHA1 else if v = 2 then Some SHA256 else if v = 3 then Some SHA512 else None)"

definition migrationAlgorithmValue :: "Algorithm \<Rightarrow> 64 word" where
  "migrationAlgorithmValue a = (case a of SHA256 \<Rightarrow> 2 | SHA512 \<Rightarrow> 3 | SHA1 \<Rightarrow> 1)"

definition utf8 :: "qstring \<Rightarrow> byte list" where
  "utf8 s = map word_of_nat (toUtf8 s)"

definition migrationParameters :: "byte list \<Rightarrow> Entry \<Rightarrow> byte list" where
  "migrationParameters key e =
     pbWriteBytes 1 key @ pbWriteBytes 2 (utf8 (e_name e)) @ (if e_issuer e \<noteq> [] then pbWriteBytes 3 (utf8 (e_issuer e)) else [])
     @ pbWriteUint 4 (migrationAlgorithmValue (e_algorithm e)) @ pbWriteUint 5 (if e_digits e = 8 then 2 else 1)
     @ pbWriteUint 6 (if e_type e = HOTP then 1 else 2) @ (if e_type e = HOTP then pbWriteUint 7 (word_of_int (e_counter e)) else [])"

definition migrationEntry :: "Entry \<Rightarrow> byte list" where
  "migrationEntry e =
     (case Base32Decode (e_secret e) of
        None \<Rightarrow> []
      | Some key \<Rightarrow> if key = [] then [] else pbWriteBytes 1 (migrationParameters key e))"

definition migrationPayload :: "Entry list \<Rightarrow> byte list" where
  "migrationPayload es =
     (let payload = concat (map migrationEntry es)
      in if payload = [] then [] else payload @ pbWriteUint 2 1 @ pbWriteUint 3 1 @ pbWriteUint 4 0)"

definition ExportToMigrationLink :: "(byte list \<Rightarrow> qstring) \<Rightarrow> (OtpUrl \<Rightarrow> qstring) \<Rightarrow> Entry list \<Rightarrow> qstring" where
  "ExportToMigrationLink toBase64 urlText es =
     (let payload = migrationPayload es
      in if payload = [] then []
         else urlText \<lparr>u_valid = True, u_scheme = qs ''otpauth-migration'', u_host = qs ''offline'', u_path = [], u_query = [(qs ''data'', toBase64 payload)]\<rparr>)"

record Migrated =
  mg_entry :: Entry
  mg_haveSecret :: bool
  mg_badAlgorithm :: "64 word option"
  mg_badDigits :: "64 word option"
  mg_badType :: "64 word option"

definition newMigrated :: Migrated where
  "newMigrated = \<lparr>mg_entry = newEntry, mg_haveSecret = False, mg_badAlgorithm = None, mg_badDigits = None, mg_badType = None\<rparr>"

definition migrateField :: "(byte list \<Rightarrow> qstring) \<Rightarrow> PbField \<Rightarrow> Migrated \<Rightarrow> Migrated" where
  "migrateField fromUtf8 f m =
     (let e = mg_entry m; v = pbVarint f; b = pbBytes f
      in if pbField f = 1 then m\<lparr>mg_entry := e\<lparr>e_secret := Base32Encode b\<rparr>, mg_haveSecret := (b \<noteq> [])\<rparr>
         else if pbField f = 2 then m\<lparr>mg_entry := e\<lparr>e_name := fromUtf8 b\<rparr>\<rparr>
         else if pbField f = 3 then m\<lparr>mg_entry := e\<lparr>e_issuer := fromUtf8 b\<rparr>\<rparr>
         else if pbField f = 4 then
           (case migrationAlgorithm v of Some a \<Rightarrow> m\<lparr>mg_entry := e\<lparr>e_algorithm := a\<rparr>\<rparr> | None \<Rightarrow> m\<lparr>mg_badAlgorithm := Some v\<rparr>)
         else if pbField f = 5 then
           (if v \<le> 2 then m\<lparr>mg_entry := e\<lparr>e_digits := (if v = 2 then 8 else DEFAULT_DIGITS)\<rparr>\<rparr> else m\<lparr>mg_badDigits := Some v\<rparr>)
         else if pbField f = 6 then
           (if v \<le> 2 then m\<lparr>mg_entry := e\<lparr>e_type := (if v = 1 then HOTP else TOTP)\<rparr>\<rparr> else m\<lparr>mg_badType := Some v\<rparr>)
         else if pbField f = 7 then m\<lparr>mg_entry := e\<lparr>e_counter := sint v\<rparr>\<rparr>
         else m)"

function migrateFields :: "(byte list \<Rightarrow> qstring) \<Rightarrow> byte list \<Rightarrow> Migrated \<Rightarrow> Migrated option" where
  "migrateFields fromUtf8 bs m =
     (if bs = [] then Some m
      else case pbReadField bs of None \<Rightarrow> None | Some (f, rest) \<Rightarrow> migrateFields fromUtf8 rest (migrateField fromUtf8 f m))"
  by pat_completeness auto
termination by (relation "measure (\<lambda>(u, bs, m). length bs)") (auto dest: pbReadField_shorter)

declare migrateFields.simps [simp del]

definition migrateVerdict :: "Migrated \<Rightarrow> OtpProblem + Entry" where
  "migrateVerdict m =
     (let e = mg_entry m; e = (if e_name e = [] then e\<lparr>e_name := e_issuer e\<rparr> else e); l = otpEntryLabel e
      in if \<not> mg_haveSecret m then Inl (NoSecret l)
         else case mg_badAlgorithm m of
                Some v \<Rightarrow> Inl (BadAlgorithm l (if v = 4 then qs ''MD5'' else number (unat v)))
              | None \<Rightarrow>
                  (case mg_badDigits m of
                     Some v \<Rightarrow> Inl (BadDigitsCode l (number (unat v)))
                   | None \<Rightarrow> (case mg_badType m of Some v \<Rightarrow> Inl (BadType l (number (unat v))) | None \<Rightarrow> Inr e)))"

function migrateLoop :: "(byte list \<Rightarrow> qstring) \<Rightarrow> byte list \<Rightarrow> Entry list \<Rightarrow> OtpProblem list \<Rightarrow> (Entry list \<times> OtpProblem list) option" where
  "migrateLoop fromUtf8 bs es skipped =
     (if bs = [] then Some (es, skipped)
      else case pbReadField bs of
             None \<Rightarrow> None
           | Some (f, rest) \<Rightarrow>
               if pbField f \<noteq> 1 \<or> pbWire f \<noteq> 2 then migrateLoop fromUtf8 rest es skipped
               else case migrateFields fromUtf8 (pbBytes f) newMigrated of
                      None \<Rightarrow> None
                    | Some m \<Rightarrow>
                        (case migrateVerdict m of
                           Inl p \<Rightarrow> migrateLoop fromUtf8 rest es (skipped @ [p])
                         | Inr e \<Rightarrow> migrateLoop fromUtf8 rest (es @ [e]) skipped))"
  by pat_completeness auto
termination by (relation "measure (\<lambda>(u, bs, es, sk). length bs)") (auto dest: pbReadField_shorter)

declare migrateLoop.simps [simp del]

text \<open>The entries, if the link gives any, and the problems to report.\<close>

definition ParseFromMigrationLink ::
  "(byte list \<Rightarrow> qstring) \<Rightarrow> (qstring \<Rightarrow> byte list) \<Rightarrow> (qstring \<Rightarrow> OtpUrl) \<Rightarrow> qstring \<Rightarrow> Entry list option \<times> OtpProblem list" where
  "ParseFromMigrationLink fromUtf8 fromBase64 url link =
     (let u = url (trimmed link)
      in if \<not> u_valid u \<or> toLower (u_scheme u) \<noteq> qs ''otpauth-migration'' then (None, [])
         else let payload_text = queryItemValue u (qs ''data''); payload = fromBase64 payload_text
              in if payload_text = [] \<or> payload = [] then (None, [])
                 else case migrateLoop fromUtf8 payload [] [] of
                        None \<Rightarrow> (None, [])
                      | Some (es, skipped) \<Rightarrow> (if es = [] then None else Some es, skipped))"

subsection \<open>JSON\<close>

text \<open>A JSON number as the double \<open>toDouble\<close> returns, and the cast of a double to \<open>qint64\<close>; outside the range of \<open>qint64\<close> the cast is undefined in C++ and
  \<open>outOfRange\<close> stands for what the machine does.\<close>

definition jsonDouble :: "rat \<Rightarrow> rat" where
  "jsonDouble r = (if 0 \<le> r then Validation_Units.toDouble r else - Validation_Units.toDouble (- r))"

definition castInt64 :: "(rat \<Rightarrow> int) \<Rightarrow> rat \<Rightarrow> int" where
  "castInt64 outOfRange r = (if - (2 ^ 63) \<le> r \<and> r < 2 ^ 63 then int64Of r else outOfRange r)"

definition otpJsonInteger :: "(rat \<Rightarrow> int) \<Rightarrow> json \<Rightarrow> int option" where
  "otpJsonInteger outOfRange v =
     (case v of
        JStr s \<Rightarrow> toSigned 64 (trimmed s)
      | JNum r \<Rightarrow> let n = jsonDouble r; i = castInt64 outOfRange n in if n \<noteq> doubleOf i then None else Some i
      | _ \<Rightarrow> None)"

text \<open>\<open>otpJsonText\<close>, which only words a sentence, is the argument \<open>jsonText\<close>.\<close>

record JsonEnv =
  outOfRange :: "rat \<Rightarrow> int"
  jsonText :: "json \<Rightarrow> qstring"

definition jsonSecret :: "jobject \<Rightarrow> Entry \<Rightarrow> parsed_entry" where
  "jsonSecret obj e =
     (let secret = jtoString [] (jat obj (qs ''secret''))
      in if trimmed secret = [] then Inl (Some (NoSecret (otpEntryLabel e)))
         else let e = e\<lparr>e_secret := NormalizeSecret secret\<rparr>
              in if e_secret e = [] then Inl (Some (BadSecret (otpEntryLabel e))) else Inr e)"

definition jsonKind :: "jobject \<Rightarrow> Entry \<Rightarrow> parsed_entry" where
  "jsonKind obj e =
     (let algorithm = jtoString [] (jat obj (qs ''algorithm'')); (a, aok) = AlgorithmFromString algorithm; e = e\<lparr>e_algorithm := a\<rparr>;
          kind = jtoString [] (jat obj (qs ''type'')); (t, tok) = TypeFromString kind
      in if \<not> aok then Inl (Some (BadAlgorithm (otpEntryLabel e) algorithm))
         else if \<not> tok then Inl (Some (BadType (otpEntryLabel e) kind))
         else Inr (e\<lparr>e_type := t\<rparr>))"

definition jsonDigits :: "JsonEnv \<Rightarrow> jobject \<Rightarrow> Entry \<Rightarrow> parsed_entry" where
  "jsonDigits env obj e =
     (if jcontains obj (qs ''digits'') then
        let v = jat obj (qs ''digits''); p = Inl (Some (BadDigits (otpEntryLabel e) (jsonText env v)))
        in case otpJsonInteger (outOfRange env) v of
             None \<Rightarrow> p
           | Some d \<Rightarrow> if d < MIN_DIGITS \<or> d > MAX_DIGITS then p else Inr (e\<lparr>e_digits := d\<rparr>)
      else Inr e)"

definition jsonPeriod :: "JsonEnv \<Rightarrow> jobject \<Rightarrow> Entry \<Rightarrow> parsed_entry" where
  "jsonPeriod env obj e =
     (if e_type e = TOTP \<and> jcontains obj (qs ''period'') then
        let v = jat obj (qs ''period''); p = Inl (Some (BadPeriod (otpEntryLabel e) (jsonText env v)))
        in case otpJsonInteger (outOfRange env) v of
             None \<Rightarrow> p
           | Some d \<Rightarrow> if d < MIN_PERIOD \<or> d > MAX_PERIOD then p else Inr (e\<lparr>e_period := d\<rparr>)
      else Inr e)"

definition jsonCounter :: "JsonEnv \<Rightarrow> jobject \<Rightarrow> Entry \<Rightarrow> parsed_entry" where
  "jsonCounter env obj e =
     (if e_type e = HOTP \<and> jcontains obj (qs ''counter'') then
        let v = jat obj (qs ''counter''); p = Inl (Some (BadCounter (otpEntryLabel e) (jsonText env v)))
        in case otpJsonInteger (outOfRange env) v of
             None \<Rightarrow> p
           | Some d \<Rightarrow> if d < 0 then p else Inr (e\<lparr>e_counter := d\<rparr>)
      else Inr e)"

definition entryFromJsonObject :: "JsonEnv \<Rightarrow> jobject \<Rightarrow> parsed_entry" where
  "entryFromJsonObject env obj =
     (let e = newEntry\<lparr>e_name := jtoString [] (jat obj (qs ''name'')), e_issuer := jtoString [] (jat obj (qs ''issuer''))\<rparr>
      in next_step (next_step (next_step (next_step (jsonSecret obj e) (jsonKind obj)) (jsonDigits env obj)) (jsonPeriod env obj)) (jsonCounter env obj))"

definition entryToJsonObject :: "Entry \<Rightarrow> jobject" where
  "entryToJsonObject e =
     [(qs ''name'', JStr (e_name e))] @ (if e_issuer e \<noteq> [] then [(qs ''issuer'', JStr (e_issuer e))] else [])
     @ [(qs ''secret'', JStr (e_secret e)), (qs ''algorithm'', JStr (AlgorithmToString (e_algorithm e))), (qs ''type'', JStr (TypeToString (e_type e))),
        (qs ''digits'', JNum (of_int (e_digits e)))]
     @ [if e_type e = TOTP then (qs ''period'', JNum (of_int (e_period e))) else (qs ''counter'', JNum (of_int (e_counter e)))]"

definition otpDocument :: "Entry list \<Rightarrow> json" where
  "otpDocument es = JObj [(qs ''version'', JNum 1), (qs ''otp'', JArr (map (\<lambda>e. JObj (entryToJsonObject e)) es))]"

definition ExportToJson_otp :: "(json \<Rightarrow> byte list) \<Rightarrow> Entry list \<Rightarrow> byte list" where
  "ExportToJson_otp toJson es = toJson (otpDocument es)"

definition jsonItem :: "JsonEnv \<Rightarrow> json \<Rightarrow> parsed_entry" where
  "jsonItem env v = (case v of JObj obj \<Rightarrow> entryFromJsonObject env obj | _ \<Rightarrow> Inl (Some NotAnEntry))"

definition collectItem :: "JsonEnv \<Rightarrow> json \<Rightarrow> Entry list \<times> OtpProblem list \<Rightarrow> Entry list \<times> OtpProblem list" where
  "collectItem env v acc =
     (case jsonItem env v of
        Inr e \<Rightarrow> (fst acc @ [e], snd acc)
      | Inl (Some p) \<Rightarrow> (fst acc, snd acc @ [p])
      | Inl None \<Rightarrow> acc)"

definition ParseFromJson_otp :: "JsonEnv \<Rightarrow> (byte list \<Rightarrow> json option) \<Rightarrow> byte list \<Rightarrow> Entry list option \<times> OtpProblem list" where
  "ParseFromJson_otp env fromJson bytes =
     (case fromJson bytes of
        None \<Rightarrow> (None, [])
      | Some document \<Rightarrow>
          let items = (case document of JArr xs \<Rightarrow> xs | JObj obj \<Rightarrow> jtoArray (jat obj (qs ''otp'')) | _ \<Rightarrow> []);
              (es, problems) = fold (collectItem env) items ([], [])
          in if items = [] then (None, []) else (if es = [] then None else Some es, problems))"

subsection \<open>Pasted text\<close>

text \<open>The two regular expressions of the program split at characters; empty parts are skipped.\<close>

fun splitParts :: "(qchar \<Rightarrow> bool) \<Rightarrow> qstring \<Rightarrow> qstring list" where
  "splitParts P [] = [[]]"
| "splitParts P (c # cs) = (if P c then [] # splitParts P cs else case splitParts P cs of [] \<Rightarrow> [[c]] | w # ws \<Rightarrow> (c # w) # ws)"

definition skipEmpty :: "qstring list \<Rightarrow> qstring list" where
  "skipEmpty ws = filter (\<lambda>w. w \<noteq> []) ws"

definition LooksLikeBareSecret :: "qstring \<Rightarrow> bool" where
  "LooksLikeBareSecret line =
     (case skipEmpty (splitParts (\<lambda>c. (9 \<le> c \<and> c \<le> 13) \<or> c = 32 \<or> c = u_dash) line) of
        [] \<Rightarrow> False
      | [g] \<Rightarrow> True
      | g # gs \<Rightarrow> length g \<le> 8 \<and> list_all (\<lambda>h. length h = length g) (g # gs))"

definition hasPrefixCI :: "qstring \<Rightarrow> qstring \<Rightarrow> bool" where
  "hasPrefixCI s prefix \<longleftrightarrow> toLower (take (length prefix) s) = prefix"

record OtpEnv =
  env_url :: "qstring \<Rightarrow> OtpUrl"
  env_fromUtf8 :: "byte list \<Rightarrow> qstring"
  env_fromBase64 :: "qstring \<Rightarrow> byte list"
  env_fromJson :: "byte list \<Rightarrow> json option"
  env_json :: JsonEnv

definition parseBare :: "qstring \<Rightarrow> Entry list \<times> OtpProblem list" where
  "parseBare line =
     (let bare = LooksLikeBareSecret line; secret = (if bare then NormalizeSecret line else [])
      in if secret \<noteq> [] then
           (if length (the_default (Base32Decode secret)) \<ge> MIN_BARE_SECRET_BYTES then ([newEntry\<lparr>e_secret := secret\<rparr>], [])
            else ([], [ShortSecret ((MIN_BARE_SECRET_BYTES * 8 + 4) div 5)]))
         else ([], [if bare then InvalidBareSecret else NotALink (take 40 line)]))"

definition parseOtpLine :: "OtpEnv \<Rightarrow> qstring \<Rightarrow> Entry list \<times> OtpProblem list" where
  "parseOtpLine env line =
     (if hasPrefixCI line (qs ''otpauth-migration://'') then
        let (batch, skipped) = ParseFromMigrationLink (env_fromUtf8 env) (env_fromBase64 env) (env_url env) line
        in case batch of
             Some es \<Rightarrow> (es, skipped)
           | None \<Rightarrow> ([], (if skipped = [] then [UnreadableMigration] else []) @ skipped)
      else case ParseFromLink (env_url env) line of
             Inr e \<Rightarrow> ([e], [])
           | Inl (Some p) \<Rightarrow> ([], [p])
           | Inl None \<Rightarrow> if hasPrefixCI line (qs ''otpauth://'') then ([], [UnreadableLink]) else parseBare line)"

definition addLine :: "OtpEnv \<Rightarrow> qstring \<Rightarrow> Entry list \<times> OtpProblem list \<Rightarrow> Entry list \<times> OtpProblem list" where
  "addLine env raw acc =
     (let line = trimmed raw
      in if line = [] then acc else let (es, ps) = parseOtpLine env line in (fst acc @ es, snd acc @ ps))"

definition ParseAny :: "OtpEnv \<Rightarrow> qstring \<Rightarrow> Entry list \<times> OtpProblem list" where
  "ParseAny env text0 =
     (let t = trimmed text0
      in if t = [] then ([], [])
         else if startsWith 123 t \<or> startsWith u_lbracket t then
           let (es, skipped) = ParseFromJson_otp (env_json env) (env_fromJson env) (utf8 t)
           in ((case es of None \<Rightarrow> [] | Some es \<Rightarrow> es), (if es = None \<and> skipped = [] then [NotReadable] else []) @ skipped)
         else fold (addLine env) (skipEmpty (splitParts (\<lambda>c. c = 13 \<or> c = 10) t)) ([], []))"

subsection \<open>Codes follow RFC 4226\<close>

lemma length_counterBytes [simp]: "length (counterBytes n c) = n"
  by (induction n arbitrary: c) simp_all

lemma counterBytes_value: "foldl (\<lambda>a b. 256 * a + unat b) 0 (counterBytes n c) = unat c mod 256 ^ n"
proof (induction n arbitrary: c)
  case (Suc n)
  have "unat (drop_bit 8 c) = unat c div 256" by (simp add: drop_bit_eq_div unat_div_distrib)
  moreover have "unat (ucast (c AND 0xFF) :: byte) = unat c mod 256"
  proof -
    have "c AND 0xFF = take_bit 8 c" by (simp add: take_bit_eq_mask mask_eq_exp_minus_1)
    then show ?thesis by (simp add: unsigned_ucast_eq take_bit_eq_mod unat_mod_distrib)
  qed
  ultimately show ?case using Suc [of "drop_bit 8 c"] by (simp add: mod_mult2_eq)
qed simp

lemma nat_or_shift: "d < 2 ^ n \<Longrightarrow> push_bit n x OR d = x * 2 ^ n + d" for x d n :: nat
proof -
  assume "d < 2 ^ n"
  then have "take_bit n d = d" by (simp add: take_bit_nat_eq_self)
  then have "\<not> bit d k" if "n \<le> k" for k using that by (metis bit_take_bit_iff not_le)
  then have "push_bit n x + d = push_bit n x OR d" by (intro disjunctive_add) (auto simp: bit_push_bit_iff not_le)
  then show ?thesis by (simp add: push_bit_eq_mult)
qed

definition truncation :: "byte list \<Rightarrow> nat" where
  "truncation mac =
     (let k = unat (last mac) mod 16
      in unat (mac ! k) mod 128 * 2 ^ 24 + unat (mac ! (k + 1)) * 2 ^ 16 + unat (mac ! (k + 2)) * 2 ^ 8 + unat (mac ! (k + 3)))"

lemma unat_up: "unat (ucast (b :: byte) :: 32 word) = unat b"
  using unsigned_less [where 'a = nat, of b] by (simp add: unsigned_ucast_eq take_bit_nat_eq_self)

lemma four_bytes:
  fixes a b c d :: byte
  shows "unat (push_bit 24 (ucast a AND 0x7F) OR push_bit 16 (ucast b) OR push_bit 8 (ucast c) OR ucast d :: 32 word)
    = unat a mod 128 * 2 ^ 24 + unat b * 2 ^ 16 + unat c * 2 ^ 8 + unat d"
proof -
  have l: "unat a mod 128 < 128" "unat b < 256" "unat c < 256" "unat d < 256"
    using unsigned_less [where 'a = nat, of b] unsigned_less [where 'a = nat, of c] unsigned_less [where 'a = nat, of d] by simp_all
  have "ucast a AND 0x7F = (take_bit 7 (ucast a) :: 32 word)" by (simp add: take_bit_eq_mask mask_eq_exp_minus_1)
  then have a: "unat (ucast a AND 0x7F :: 32 word) = unat a mod 128" using unat_up [of a] by (simp add: take_bit_eq_mod unat_mod_distrib)
  have s: "unat (push_bit n w) = push_bit n (unat w)" if "unat w * 2 ^ n < 2 ^ 32" for n and w :: "32 word"
    unfolding unsigned_push_bit_eq using that by (simp add: take_bit_nat_eq_self push_bit_eq_mult)
  define x where "x = (ucast a AND 0x7F :: 32 word)"
  have x: "unat x = unat a mod 128" using a by (simp add: x_def)
  have parts: "unat (push_bit 24 x) = push_bit 24 (unat a mod 128)" "unat (push_bit 16 (ucast b :: 32 word)) = push_bit 16 (unat b)"
    "unat (push_bit 8 (ucast c :: 32 word)) = push_bit 8 (unat c)"
    using s [of x 24] s [of "ucast b" 16] s [of "ucast c" 8] l by (simp_all add: x unat_up)
  have "unat (push_bit 24 x OR push_bit 16 (ucast b) OR push_bit 8 (ucast c) OR ucast d :: 32 word)
    = push_bit 24 (unat a mod 128) OR push_bit 16 (unat b) OR push_bit 8 (unat c) OR unat d"
    by (simp add: unsigned_or_eq parts unat_up)
  also have "push_bit 8 (unat c) OR unat d = unat c * 2 ^ 8 + unat d" using l by (intro nat_or_shift) simp
  also have "push_bit 16 (unat b) OR (unat c * 2 ^ 8 + unat d) = unat b * 2 ^ 16 + (unat c * 2 ^ 8 + unat d)" using l by (intro nat_or_shift) simp
  also have "push_bit 24 (unat a mod 128) OR (unat b * 2 ^ 16 + (unat c * 2 ^ 8 + unat d))
      = unat a mod 128 * 2 ^ 24 + (unat b * 2 ^ 16 + (unat c * 2 ^ 8 + unat d))" using l by (intro nat_or_shift) simp
  finally show ?thesis by (simp add: x_def)
qed

lemma truncateMac_value: "mac \<noteq> [] \<Longrightarrow> unat (truncateMac mac) = truncation mac"
proof -
  assume "mac \<noteq> []"
  have "b AND 0x0F = take_bit 4 b" for b :: byte by (simp add: take_bit_eq_mask mask_eq_exp_minus_1)
  then have "unat (b AND 0x0F) = unat b mod 16" for b :: byte by (simp add: take_bit_eq_mod unat_mod_distrib)
  then show ?thesis using \<open>mac \<noteq> []\<close> unfolding truncateMac_def truncation_def Let_def four_bytes by (simp add: last_conv_nth)
qed

lemma modulusLoop_power: "modulusLoop n m = m * 10 ^ n"
  by (induction n arbitrary: m) (simp_all add: ac_simps)

lemma unat_modulus: "n \<le> 10 \<Longrightarrow> unat (modulusLoop n 1) = 10 ^ n"
proof -
  assume "n \<le> 10"
  then have "(10 :: nat) ^ n \<le> 10 ^ 10" by (intro power_increasing) simp_all
  then have "(10 :: nat) ^ n < 2 ^ 64" by (rule le_less_trans) simp
  moreover have "modulusLoop n 1 = (word_of_nat (10 ^ n) :: 64 word)" by (simp add: modulusLoop_power)
  ultimately show ?thesis by (simp add: unat_of_nat del: of_nat_power)
qed

lemma value_zeros: "value_base 10 (replicate k 48 @ s) = value_base 10 s"
  by (induction k) (simp_all add: value_base_def digitVal_def)

lemma zeroPadded_facts:
  assumes "n < 10 ^ w" "0 < w"
  shows "length (zeroPadded w n) = w" "list_all isDigit (zeroPadded w n)" "value_base 10 (zeroPadded w n) = n"
proof -
  obtain k where w: "w = Suc k" using assms(2) by (cases w) auto
  have "length (number n) \<le> w" using length_number_base [of 10 n k] assms(1) by (simp add: w)
  then show "length (zeroPadded w n) = w" by (simp add: zeroPadded_def)
  show "list_all isDigit (zeroPadded w n)" using set_number_digits [of _ n] by (auto simp: zeroPadded_def list_all_iff isDigit_def)
  show "value_base 10 (zeroPadded w n) = n" by (simp add: zeroPadded_def value_zeros value_number_base)
qed

text \<open>C32: the code of a counter is RFC 4226's. For a key and a number of digits within the limits, and a hash of at least 20 bytes, the code has exactly that
  many decimal digits and denotes the truncated hash modulo the power of ten; the hashed message is the counter as eight bytes, highest
  first, and no byte outside the hash is read. Without a key, with digits outside the limits or with a shorter hash there is no code.\<close>

theorem hotp_code_rfc4226:
  fixes hmac key counter algorithm digits
  defines "code \<equiv> GenerateHOTP hmac key counter algorithm digits"
    and "msg \<equiv> counterBytes 8 counter"
    and "mac \<equiv> hmac algorithm key (counterBytes 8 counter)"
  shows "length msg = 8 \<and> foldl (\<lambda>a b. 256 * a + unat b) 0 msg = unat counter
    \<and> (if key \<noteq> [] \<and> 4 \<le> digits \<and> digits \<le> 10 \<and> 20 \<le> length mac
       then length code = nat digits \<and> list_all isDigit code \<and> value_base 10 code = truncation mac mod 10 ^ nat digits
         \<and> unat (last mac) mod 16 + 3 < length mac
       else code = [])"
proof -
  have msg: "length msg = 8 \<and> foldl (\<lambda>a b. 256 * a + unat b) 0 msg = unat counter"
    using unsigned_less [where 'a = nat, of counter] by (simp add: msg_def counterBytes_value)
  show ?thesis
  proof (cases "key \<noteq> [] \<and> 4 \<le> digits \<and> digits \<le> 10 \<and> 20 \<le> length mac")
    case True
    have "mac \<noteq> []" using True by auto
    have d: "nat digits \<le> 10" "0 < nat digits" using True by auto
    let ?v = "unat (ucast (truncateMac mac) mod modulusLoop (nat digits) 1)"
    have "unat (ucast (truncateMac mac) :: 64 word) = truncation mac"
      using truncateMac_value [OF \<open>mac \<noteq> []\<close>] unsigned_less [where 'a = nat, of "truncateMac mac"]
      by (simp add: unsigned_ucast_eq take_bit_nat_eq_self)
    then have v: "?v = truncation mac mod 10 ^ nat digits" using unat_modulus [OF d(1)] by (simp add: unat_mod_distrib)
    have code: "code = zeroPadded (nat digits) ?v" using True by (simp add: code_def GenerateHOTP_def mac_def MIN_DIGITS_def MAX_DIGITS_def Let_def)
    have "?v < 10 ^ nat digits" unfolding v by simp
    from zeroPadded_facts [OF this d(2)] have "length code = nat digits" "list_all isDigit code" "value_base 10 code = ?v" unfolding code by simp_all
    moreover have "unat (last mac) mod 16 + 3 < length mac"
    proof -
      have "unat (last mac) mod 16 < 16" by simp
      then show ?thesis using True by linarith
    qed
    ultimately show ?thesis using True msg v by simp
  next
    case False
    then show ?thesis using msg by (auto simp: code_def GenerateHOTP_def mac_def MIN_DIGITS_def MAX_DIGITS_def Let_def)
  qed
qed

text \<open>The countdown is exact. For a usable time-based entry and a time that is not negative, \<open>SecondsRemaining\<close> is between one and the period; until that
  many seconds have passed the code is the same, and then the counter that is hashed steps to the next one.\<close>

theorem totp_window:
  fixes clock :: int and hmac :: hmac
  assumes "Validate e = None" "e_type e = TOTP" "0 \<le> t"
  defines "left \<equiv> SecondsRemaining clock e t"
    and "codeAt \<equiv> \<lambda>n. GenerateHOTP hmac (the_default (Base32Decode (e_secret e))) (word_of_int n) (e_algorithm e) (e_digits e)"
  shows "1 \<le> left \<and> left \<le> e_period e \<and> (\<forall>s. t \<le> s \<and> s < t + left \<longrightarrow> GenerateCode hmac clock e s = codeAt (t div e_period e))
    \<and> GenerateCode hmac clock e (t + left) = codeAt (t div e_period e + 1)"
proof -
  have p: "1 \<le> e_period e" using assms(1,2) by (auto simp: Validate_def MIN_PERIOD_def split: if_splits option.splits)
  have left: "left = e_period e - t mod e_period e"
    using p assms(2,3) by (simp add: left_def SecondsRemaining_def atTime_def truncDiv_def MIN_PERIOD_def Let_def minus_div_mult_eq_mod)
  have code: "GenerateCode hmac clock e s = codeAt (s div e_period e)" if "0 \<le> s" for s
    using that assms(1,2) by (simp add: GenerateCode_def codeAt_def atTime_def truncDiv_def Let_def)
  have m: "0 \<le> t mod e_period e" "t mod e_period e < e_period e" using p by simp_all
  have t: "t = e_period e * (t div e_period e) + t mod e_period e" by simp
  have same: "s div e_period e = t div e_period e" if "t \<le> s" "s < t + left" for s
  proof (rule int_div_pos_eq)
    show "s = e_period e * (t div e_period e) + (s - t + t mod e_period e)" using t by linarith
  qed (use that m left in auto)
  have "(t + left) div e_period e = t div e_period e + 1"
  proof (rule int_div_pos_eq)
    show "t + left = e_period e * (t div e_period e + 1) + 0" using t left by (simp add: distrib_left minus_mod_eq_mult_div)
  qed (use p in auto)
  then have "GenerateCode hmac clock e (t + left) = codeAt (t div e_period e + 1)" using code [of "t + left"] m left assms(3) by simp
  moreover have "GenerateCode hmac clock e s = codeAt (t div e_period e)" if "t \<le> s" "s < t + left" for s
    using code [of s] same [OF that] that(1) assms(3) by simp
  moreover have "1 \<le> left" "left \<le> e_period e" using m left by simp_all
  ultimately show ?thesis by blast
qed

definition demoOtp :: Entry where
  "demoOtp = newEntry\<lparr>e_name := qs ''bob'', e_issuer := qs ''acme'', e_secret := qs ''MFRGG''\<rparr>"

lemma demo_key: "Base32Decode (qs ''MFRGG'') = Some [97, 98, 99]"
  by code_simp

lemma demo_valid: "Validate demoOtp = None"
  using demo_key by (simp add: Validate_def demoOtp_def newEntry_def otp_constants trimmed_def isSpace_def)

theorem totp_window_witness:
  "SecondsRemaining 0 demoOtp 45 = 15 \<and> GenerateCode (\<lambda>a k m. replicate 20 (last m)) 0 demoOtp 59
     = GenerateCode (\<lambda>a k m. replicate 20 (last m)) 0 demoOtp 45"
proof -
  have t: "e_type demoOtp = TOTP" "SecondsRemaining 0 demoOtp 45 = 15"
    by (simp_all add: demoOtp_def newEntry_def SecondsRemaining_def otp_constants atTime_def truncDiv_def Let_def)
  show ?thesis using totp_window [OF demo_valid t(1), of 45 0 "\<lambda>a k m. replicate 20 (last m)"] t(2) by simp
qed

subsection \<open>Migration links\<close>

lemma migrateFields_done: "migrateFields u [] m = Some m"
  by (simp add: migrateFields.simps)

lemma pbWrite_nonempty [simp]: "pbWriteBytes f v \<noteq> []" "pbWriteUint f v' \<noteq> []"
  by (simp_all add: pbWriteBytes_def pbWriteUint_def pbWriteTag_def)

lemma migrateFields_bytes:
  "length v < 2 ^ 64 \<Longrightarrow> migrateFields u (pbWriteBytes f v @ rest) m
     = migrateFields u rest (migrateField u \<lparr>pbField = word_of_nat f, pbWire = 2, pbVarint = 0, pbBytes = v\<rparr> m)"
  by (subst migrateFields.simps) (simp add: pbReadField_bytes)

lemma migrateFields_uint:
  "migrateFields u (pbWriteUint f v @ rest) m
     = migrateFields u rest (migrateField u \<lparr>pbField = word_of_nat f, pbWire = 0, pbVarint = v, pbBytes = []\<rparr> m)"
  by (subst migrateFields.simps) (simp add: pbReadField_uint)

text \<open>What the format keeps of an entry: the key, the names, the algorithm, six or eight digits, the type and a counter.\<close>

definition migratedEntry :: "Entry \<Rightarrow> Entry" where
  "migratedEntry e =
     newEntry\<lparr>e_name := (if e_name e = [] then e_issuer e else e_name e), e_issuer := e_issuer e,
       e_secret := Base32Encode (the_default (Base32Decode (e_secret e))), e_algorithm := e_algorithm e, e_type := e_type e,
       e_digits := (if e_digits e = 8 then 8 else 6), e_counter := (if e_type e = HOTP then e_counter e else 0)\<rparr>"

definition hasKey :: "Entry \<Rightarrow> bool" where
  "hasKey e \<longleftrightarrow> the_default (Base32Decode (e_secret e)) \<noteq> []"

definition utf8Safe :: "(byte list \<Rightarrow> qstring) \<Rightarrow> Entry \<Rightarrow> bool" where
  "utf8Safe fromUtf8 e \<longleftrightarrow> fromUtf8 (utf8 (e_name e)) = e_name e \<and> fromUtf8 (utf8 (e_issuer e)) = e_issuer e"

lemma migrationAlgorithm_value [simp]: "migrationAlgorithm (migrationAlgorithmValue a) = Some a"
  by (cases a) (simp_all add: migrationAlgorithm_def migrationAlgorithmValue_def)

lemma migrate_parameters:
  assumes "length (migrationParameters key e) < 2 ^ 31" "utf8Safe u e" "key \<noteq> []" "Base32Decode (e_secret e) = Some key"
    "- (2 ^ 63) \<le> e_counter e" "e_counter e < 2 ^ 63"
  shows "\<exists>m. migrateFields u (migrationParameters key e) newMigrated = Some m \<and> migrateVerdict m = Inr (migratedEntry e)"
proof -
  have len: "length key < 2 ^ 64" "length (utf8 (e_name e)) < 2 ^ 64" "e_issuer e \<noteq> [] \<Longrightarrow> length (utf8 (e_issuer e)) < 2 ^ 64"
    using assms(1) by (auto simp: migrationParameters_def pbWriteBytes_def)
  have u: "u (utf8 (e_name e)) = e_name e" "u (utf8 (e_issuer e)) = e_issuer e" using assms(2) by (simp_all add: utf8Safe_def)
  have c: "sint (word_of_int (e_counter e) :: 64 word) = e_counter e" using assms(5,6) by (simp add: sint_sbintrunc' signed_take_bit_int_eq_self)
  have fields: "migrateFields u (pbWriteUint f v) m = Some (migrateField u \<lparr>pbField = word_of_nat f, pbWire = 0, pbVarint = v, pbBytes = []\<rparr> m)" for f v m
    using migrateFields_uint [of u f v "[]" m] by (simp add: migrateFields_done)
  show ?thesis using assms(3,4) len u c
    by (cases "e_issuer e = []"; cases "e_type e"; cases "e_digits e = 8")
      (auto simp: migrationParameters_def migrateFields_bytes migrateFields_uint fields migrateFields_done migrateField_def newMigrated_def newEntry_def
        migratedEntry_def migrateVerdict_def the_default_def DEFAULT_DIGITS_def Let_def)
qed

definition migratable :: "(byte list \<Rightarrow> qstring) \<Rightarrow> Entry \<Rightarrow> bool" where
  "migratable fromUtf8 e \<longleftrightarrow> utf8Safe fromUtf8 e \<and> - (2 ^ 63) \<le> e_counter e \<and> e_counter e < 2 ^ 63"

lemma migrateLoop_entry:
  assumes "migratable u e" "length (migrationEntry e) < 2 ^ 31"
  shows "migrateLoop u (migrationEntry e @ rest) es sk = migrateLoop u rest (es @ (if hasKey e then [migratedEntry e] else [])) sk"
proof (cases "hasKey e")
  case False
  then show ?thesis by (auto simp: hasKey_def the_default_def migrationEntry_def split: option.splits)
next
  case True
  then obtain key where key: "Base32Decode (e_secret e) = Some key" "key \<noteq> []" by (auto simp: hasKey_def the_default_def split: option.splits)
  let ?ps = "migrationParameters key e"
  have entry: "migrationEntry e = pbWriteBytes 1 ?ps" using key by (simp add: migrationEntry_def)
  then have len: "length ?ps < 2 ^ 31" using assms(2) by (simp add: pbWriteBytes_def)
  obtain m where m: "migrateFields u ?ps newMigrated = Some m" "migrateVerdict m = Inr (migratedEntry e)"
    using migrate_parameters [OF len _ key(2,1)] assms(1) by (auto simp: migratable_def)
  have "pbReadField (migrationEntry e @ rest) = Some (\<lparr>pbField = 1, pbWire = 2, pbVarint = 0, pbBytes = ?ps\<rparr>, rest)"
    unfolding entry using pbReadField_bytes [of ?ps 1 rest] len by simp
  then show ?thesis using True m entry by (subst migrateLoop.simps) simp
qed

lemma migrateLoop_entries:
  "list_all (migratable u) es \<Longrightarrow> length (concat (map migrationEntry es)) < 2 ^ 31
    \<Longrightarrow> migrateLoop u (concat (map migrationEntry es) @ rest) acc sk = migrateLoop u rest (acc @ map migratedEntry (filter hasKey es)) sk"
proof (induction es arbitrary: acc)
  case (Cons e es)
  then show ?case using migrateLoop_entry [of u e "concat (map migrationEntry es) @ rest" acc sk] by simp
qed simp

lemma migrateLoop_other: "f \<in> {2, 3, 4} \<Longrightarrow> migrateLoop u (pbWriteUint f v @ rest) es sk = migrateLoop u rest es sk"
  by (subst migrateLoop.simps) (auto simp: pbReadField_uint)

lemma migrationEntry_empty: "migrationEntry e = [] \<longleftrightarrow> \<not> hasKey e"
  by (auto simp: migrationEntry_def hasKey_def the_default_def split: option.splits)

text \<open>C24: a migration link is a round trip up to what its format can hold. Reading the payload written for a list of entries gives exactly the entries with a key, in
  order: key, names, algorithm and type unchanged, the counter of a counter-based entry unchanged, eight digits kept and any other number read as
  six, the period back at thirty seconds, an empty name replaced by the issuer; and no problem is reported. Entries without a readable key are
  left out, and without any key nothing is written.\<close>

theorem migration_roundtrip:
  assumes "list_all (migratable fromUtf8) es" "length (migrationPayload es) < 2 ^ 31"
  shows "(if list_ex hasKey es then migrateLoop fromUtf8 (migrationPayload es) [] [] = Some (map migratedEntry (filter hasKey es), [])
     else migrationPayload es = [])"
proof -
  let ?p = "concat (map migrationEntry es)"
  have none: "?p = [] \<longleftrightarrow> \<not> list_ex hasKey es" by (auto simp: migrationEntry_empty list_ex_iff)
  show ?thesis
  proof (cases "list_ex hasKey es")
    case True
    then have payload: "migrationPayload es = ?p @ pbWriteUint 2 1 @ pbWriteUint 3 1 @ pbWriteUint 4 0 @ []" using none by (simp add: migrationPayload_def Let_def)
    then have "length ?p < 2 ^ 31" using assms(2) by simp
    from migrateLoop_entries [OF assms(1) this, of "pbWriteUint 2 1 @ pbWriteUint 3 1 @ pbWriteUint 4 0 @ []" "[]" "[]"]
    have "migrateLoop fromUtf8 (migrationPayload es) [] [] = migrateLoop fromUtf8 [] (map migratedEntry (filter hasKey es)) []"
      unfolding payload migrateLoop_other [of 2, simplified] migrateLoop_other [of 3, simplified] migrateLoop_other [of 4, simplified] by simp
    then show ?thesis using True by (simp add: migrateLoop.simps [of _ "[]"])
  next
    case False
    then show ?thesis using none by (simp add: migrationPayload_def)
  qed
qed

theorem migration_roundtrip_witness:
  "migrateLoop (map unat) (migrationPayload [demoOtp, newEntry]) [] [] = Some ([demoOtp], [])"
proof -
  have e: "Base32Encode [97, 98, 99] = qs ''MFRGG''" "Base32Decode [] = Some []" by code_simp+
  have "hasKey demoOtp" "\<not> hasKey newEntry" "migratedEntry demoOtp = demoOtp"
    using demo_key e by (simp_all add: hasKey_def migratedEntry_def demoOtp_def newEntry_def the_default_def otp_constants)
  moreover have "list_all (migratable (map unat)) [demoOtp, newEntry]"
    by (simp add: migratable_def utf8Safe_def demoOtp_def newEntry_def utf8_def utf8Code_def)
  moreover have "length (migrationPayload [demoOtp, newEntry]) < 2 ^ 31"
    using demo_key e by (simp add: migrationPayload_def migrationEntry_def migrationParameters_def pbWriteBytes_def pbWriteUint_def pbWriteTag_def
        pbWriteVarint.simps demoOtp_def newEntry_def utf8_def utf8Code_def migrationAlgorithmValue_def DEFAULT_DIGITS_def Let_def)
  ultimately show ?thesis using migration_roundtrip [of "map unat" "[demoOtp, newEntry]"] by simp
qed

subsection \<open>Links and JSON\<close>

lemma encode_chars: "c \<in> set (Base32Encode bs) \<Longrightarrow> base32Digit c \<noteq> None"
  using digit_roundtrip pieces_length by (fastforce simp: base32_encode_bits)

lemma digit_not_space: "base32Digit c \<noteq> None \<Longrightarrow> \<not> isSpace c"
  by (auto simp: base32Digit_def isSpace_def split: if_splits)

lemma normal_secret:
  assumes "NormalizeSecret s = s" "s \<noteq> []"
  shows "trimmed s = s"
proof -
  obtain bs where "s = Base32Encode bs" using assms by (auto simp: NormalizeSecret_def split: option.splits if_splits)
  then show ?thesis using encode_chars digit_not_space by (intro trimmed_id) blast
qed

lemma algorithm_read_back [simp]: "AlgorithmFromString (AlgorithmToString a) = (a, True)"
  by (cases a) (simp_all add: AlgorithmFromString_def AlgorithmToString_def trimmed_def isSpace_def toUpper_def Let_def)

lemma type_read_back [simp]: "TypeFromString (TypeToString t) = (t, True)"
  by (cases t) (simp_all add: TypeFromString_def TypeToString_def trimmed_def isSpace_def toLower_def Let_def)

text \<open>What a link or a JSON object does not store is read back with its default.\<close>

definition storedEntry :: "Entry \<Rightarrow> Entry" where
  "storedEntry e = (if e_type e = TOTP then e\<lparr>e_counter := 0\<rparr> else e\<lparr>e_period := DEFAULT_PERIOD\<rparr>)"

definition usableEntry :: "Entry \<Rightarrow> bool" where
  "usableEntry e \<longleftrightarrow> e_secret e \<noteq> [] \<and> NormalizeSecret (e_secret e) = e_secret e \<and> MIN_DIGITS \<le> e_digits e \<and> e_digits e \<le> MAX_DIGITS
     \<and> (if e_type e = TOTP then MIN_PERIOD \<le> e_period e \<and> e_period e \<le> MAX_PERIOD else 0 \<le> e_counter e \<and> e_counter e < 2 ^ 63)"

definition linkableNames :: "Entry \<Rightarrow> bool" where
  "linkableNames e \<longleftrightarrow> e_name e \<noteq> [] \<and> trimmed (e_name e) = e_name e \<and> trimmed (e_issuer e) = e_issuer e
     \<and> u_colon \<notin> set (if e_issuer e = [] then e_name e else e_issuer e)"

lemma linkLabel_parts:
  assumes "linkableNames e"
  shows "linkLabel (linkParts e) = newEntry\<lparr>e_name := e_name e, e_issuer := e_issuer e\<rparr>"
proof (cases "e_issuer e = []")
  case True
  then show ?thesis using assms by (simp add: linkLabel_def linkParts_def linkableNames_def queryItemValue_def newEntry_def Let_def)
next
  case False
  then have "indexOf u_colon (e_issuer e @ u_colon # e_name e) = Some (length (e_issuer e))"
    using assms by (intro indexOf_append_hit) (simp add: linkableNames_def)
  then show ?thesis using assms False by (simp add: linkLabel_def linkParts_def linkableNames_def queryItemValue_def newEntry_def Let_def)
qed

lemma linkParts_query:
  "queryItemValue (linkParts e) (qs ''secret'') = e_secret e"
  "queryItemValue (linkParts e) (qs ''algorithm'') = AlgorithmToString (e_algorithm e)" "hasQueryItem (linkParts e) (qs ''algorithm'')"
  "queryItemValue (linkParts e) (qs ''digits'') = numberInt (e_digits e)" "hasQueryItem (linkParts e) (qs ''digits'')"
  "e_type e = TOTP \<Longrightarrow> queryItemValue (linkParts e) (qs ''period'') = numberInt (e_period e)"
  "e_type e = HOTP \<Longrightarrow> queryItemValue (linkParts e) (qs ''counter'') = numberInt (e_counter e)"
  "hasQueryItem (linkParts e) (qs ''period'') \<longleftrightarrow> e_type e = TOTP" "hasQueryItem (linkParts e) (qs ''counter'') \<longleftrightarrow> e_type e = HOTP"
  by (cases "e_type e"; simp add: queryItemValue_def hasQueryItem_def linkParts_def)+

lemma linkParts_fixed: "u_host (linkParts e) = TypeToString (e_type e)" "u_valid (linkParts e)" "toLower (u_scheme (linkParts e)) = qs ''otpauth''"
  by (simp_all add: linkParts_def toLower_def)

lemmas linkParts_reads = linkParts_query [simplified] linkParts_fixed [simplified]

text \<open>A link is a round trip. For a usable entry whose name and issuer have no outer white space and no misleading colon, and a URL class that reads back the
  parts it wrote, reading the exported link gives the entry, with what the link does not store (the period of a counter-based entry, the counter of a
  time-based one) at its default.\<close>

theorem link_roundtrip:
  assumes "usableEntry e" "linkableNames e" and qt: "url (trimmed (urlText (linkParts e))) = linkParts e"
  shows "ParseFromLink url (ExportToLink urlText e) = Inr (storedEntry e)"
proof -
  let ?u = "linkParts e" and ?e = "newEntry\<lparr>e_name := e_name e, e_issuer := e_issuer e\<rparr>"
  let ?e1 = "?e\<lparr>e_type := e_type e, e_secret := e_secret e\<rparr>"
  have "trimmed (e_secret e) \<noteq> []" using assms(1) normal_secret [of "e_secret e"] by (auto simp: usableEntry_def)
  then have 1: "linkSecret ?u ?e = Inr ?e1"
    using assms(1) by (simp add: linkSecret_def linkParts_reads usableEntry_def Let_def)
  have 2: "linkAlgorithm ?u x = Inr (x\<lparr>e_algorithm := e_algorithm e\<rparr>)" for x by (simp add: linkAlgorithm_def linkParts_reads Let_def)
  have d: "4 \<le> e_digits e" "e_digits e \<le> 10" using assms(1) by (simp_all add: usableEntry_def otp_constants)
  then have 3: "linkDigits ?u x = Inr (x\<lparr>e_digits := e_digits e\<rparr>)" for x
    using toSigned_number [of "e_digits e" 32] by (simp add: linkDigits_def linkParts_reads Let_def otp_constants)
  have 4: "linkPeriod ?u x = Inr (if e_type e = TOTP then x\<lparr>e_period := e_period e\<rparr> else x)" if "e_type x = e_type e" for x
    using that assms(1) toSigned_number [of "e_period e" 32]
    by (auto simp: linkPeriod_def linkParts_reads Let_def otp_constants usableEntry_def)
  have 5: "linkCounter ?u x = Inr (if e_type e = HOTP then x\<lparr>e_counter := e_counter e\<rparr> else x)" if "e_type x = e_type e" for x
    using that assms(1) toSigned_number [of "e_counter e" 64] by (auto simp: linkCounter_def linkParts_reads Let_def usableEntry_def)
  show ?thesis unfolding ParseFromLink_def ExportToLink_def qt Let_def linkLabel_parts [OF assms(2)] 1
    by (cases "e_type e") (simp_all add: linkParts_reads next_step_def 2 3 4 5 storedEntry_def newEntry_def)
qed

lemma demo_usable: "usableEntry demoOtp" "linkableNames demoOtp" "storedEntry demoOtp = demoOtp"
proof -
  have "NormalizeSecret (qs ''MFRGG'') = qs ''MFRGG''" by code_simp
  then show "usableEntry demoOtp" by (simp add: usableEntry_def demoOtp_def newEntry_def otp_constants)
  show "linkableNames demoOtp" by (simp add: linkableNames_def demoOtp_def newEntry_def trimmed_def isSpace_def)
  show "storedEntry demoOtp = demoOtp" by (simp add: storedEntry_def demoOtp_def newEntry_def)
qed

theorem link_roundtrip_witness: "ParseFromLink (\<lambda>t. linkParts demoOtp) (ExportToLink u_path demoOtp) = Inr demoOtp"
  using link_roundtrip [OF demo_usable(1,2), of "\<lambda>t. linkParts demoOtp" u_path] demo_usable(3) by simp

lemma otpJsonInteger_int: "\<bar>n\<bar> < 2 ^ 53 \<Longrightarrow> otpJsonInteger out (JNum (of_int n)) = Some n"
proof -
  assume n: "\<bar>n\<bar> < 2 ^ 53"
  have d: "jsonDouble (of_int n) = of_int n" using doubleOf_exact [OF n] by (cases "0 \<le> n") (simp_all add: jsonDouble_def doubleOf_def)
  have "castInt64 out (of_int n) = n" using n by (auto simp: castInt64_def)
  then show ?thesis using d doubleOf_exact [OF n] by (simp add: otpJsonInteger_def Let_def)
qed

lemma jsonObject_reads:
  "jtoString [] (jat (entryToJsonObject e) (qs ''name'')) = e_name e" "jtoString [] (jat (entryToJsonObject e) (qs ''issuer'')) = e_issuer e"
  "jtoString [] (jat (entryToJsonObject e) (qs ''secret'')) = e_secret e"
  "jtoString [] (jat (entryToJsonObject e) (qs ''algorithm'')) = AlgorithmToString (e_algorithm e)"
  "jtoString [] (jat (entryToJsonObject e) (qs ''type'')) = TypeToString (e_type e)"
  "jat (entryToJsonObject e) (qs ''digits'') = JNum (of_int (e_digits e))" "jcontains (entryToJsonObject e) (qs ''digits'')"
  "e_type e = TOTP \<Longrightarrow> jat (entryToJsonObject e) (qs ''period'') = JNum (of_int (e_period e))"
  "e_type e = HOTP \<Longrightarrow> jat (entryToJsonObject e) (qs ''counter'') = JNum (of_int (e_counter e))"
  "jcontains (entryToJsonObject e) (qs ''period'') \<longleftrightarrow> e_type e = TOTP" "jcontains (entryToJsonObject e) (qs ''counter'') \<longleftrightarrow> e_type e = HOTP"
  by (cases "e_type e"; simp add: jat_def jcontains_def jtoString_def entryToJsonObject_def)+

lemmas jsonObject_simps = jsonObject_reads [simplified]

lemma json_entry_back:
  assumes "usableEntry e" "e_counter e < 2 ^ 53"
  shows "entryFromJsonObject env (entryToJsonObject e) = Inr (storedEntry e)"
proof -
  let ?o = "entryToJsonObject e"
  have "trimmed (e_secret e) \<noteq> []" using assms(1) normal_secret [of "e_secret e"] by (auto simp: usableEntry_def)
  then have 1: "jsonSecret ?o x = Inr (x\<lparr>e_secret := e_secret e\<rparr>)" for x
    using assms(1) by (simp add: jsonSecret_def jsonObject_simps usableEntry_def Let_def)
  have 2: "jsonKind ?o x = Inr (x\<lparr>e_algorithm := e_algorithm e, e_type := e_type e\<rparr>)" for x by (simp add: jsonKind_def jsonObject_simps Let_def)
  have "4 \<le> e_digits e" "e_digits e \<le> 10" using assms(1) by (simp_all add: usableEntry_def otp_constants)
  then have 3: "jsonDigits env ?o x = Inr (x\<lparr>e_digits := e_digits e\<rparr>)" for x
    using otpJsonInteger_int [of "e_digits e"] by (simp add: jsonDigits_def jsonObject_simps Let_def otp_constants)
  have 4: "jsonPeriod env ?o x = Inr (if e_type e = TOTP then x\<lparr>e_period := e_period e\<rparr> else x)" if "e_type x = e_type e" for x
    using that assms(1) otpJsonInteger_int [of "e_period e"] by (auto simp: jsonPeriod_def jsonObject_simps Let_def otp_constants usableEntry_def)
  have 5: "jsonCounter env ?o x = Inr (if e_type e = HOTP then x\<lparr>e_counter := e_counter e\<rparr> else x)" if "e_type x = e_type e" for x
    using that assms otpJsonInteger_int [of "e_counter e"] by (auto simp: jsonCounter_def jsonObject_simps Let_def usableEntry_def)
  show ?thesis unfolding entryFromJsonObject_def Let_def
    by (cases "e_type e") (simp_all add: jsonObject_simps next_step_def 1 2 3 4 5 storedEntry_def newEntry_def)
qed

lemma collect_good: "list_all (\<lambda>v. \<exists>e. jsonItem env v = Inr e) vs \<Longrightarrow> fold (collectItem env) vs (es, ps) = (es @ map (projr \<circ> jsonItem env) vs, ps)"
  by (induction vs arbitrary: es) (auto simp: collectItem_def)

text \<open>A JSON export is a round trip. For usable entries, with counters below 2 to the 53 (a JSON number passes through a double), and a JSON library
  that reads back the document it wrote, importing the export gives all entries in order and reports no problem.\<close>

theorem json_export_roundtrip:
  assumes "es \<noteq> []" "list_all (\<lambda>e. usableEntry e \<and> e_counter e < 2 ^ 53) es" and qt: "fromJson (toJson (otpDocument es)) = Some (otpDocument es)"
  shows "ParseFromJson_otp env fromJson (ExportToJson_otp toJson es) = (Some (map storedEntry es), [])"
proof -
  let ?vs = "map (\<lambda>e. JObj (entryToJsonObject e)) es"
  have item: "jsonItem env (JObj (entryToJsonObject e)) = Inr (storedEntry e)" if "e \<in> set es" for e
    using json_entry_back that assms(2) by (simp add: jsonItem_def list_all_iff)
  have "fold (collectItem env) ?vs ([], []) = ([] @ map (projr \<circ> jsonItem env) ?vs, [])"
    by (rule collect_good) (auto simp: list_all_iff item)
  moreover have "map (projr \<circ> jsonItem env) ?vs = map storedEntry es" using item by simp
  moreover have "jtoArray (jat [(qs ''version'', JNum 1), (qs ''otp'', JArr ?vs)] (qs ''otp'')) = ?vs" by (simp add: jat_def jtoArray_def)
  ultimately show ?thesis unfolding ParseFromJson_otp_def ExportToJson_otp_def qt using assms(1) by (simp add: otpDocument_def Let_def)
qed

theorem json_export_roundtrip_witness:
  "\<forall>env. ParseFromJson_otp env (\<lambda>b. Some (otpDocument [demoOtp])) (ExportToJson_otp (\<lambda>d. []) [demoOtp]) = (Some [demoOtp], [])"
  using json_export_roundtrip [of "[demoOtp]" "\<lambda>b. Some (otpDocument [demoOtp])" "\<lambda>d. []"] demo_usable
  by (simp add: demoOtp_def newEntry_def)

subsection \<open>Nothing secret is echoed\<close>

text \<open>The texts a problem quotes.\<close>

fun texts :: "OtpProblem \<Rightarrow> qstring set" where
  "texts (BadAlgorithm l t) = insert t (set_option l)"
| "texts (BadDigits l t) = insert t (set_option l)"
| "texts (BadPeriod l t) = insert t (set_option l)"
| "texts (BadCounter l t) = insert t (set_option l)"
| "texts (BadType l t) = insert t (set_option l)"
| "texts (BadDigitsCode l t) = insert t (set_option l)"
| "texts (NoSecret l) = set_option l"
| "texts (BadSecret l) = set_option l"
| "texts (NotALink t) = {t}"
| "texts _ = {}"

text \<open>A link and a JSON object without their secret, and the texts of them that may be quoted.\<close>

definition withoutSecret :: "OtpUrl \<Rightarrow> OtpUrl" where
  "withoutSecret u = u\<lparr>u_query := filter (\<lambda>(k, v). k \<noteq> qs ''secret'') (u_query u)\<rparr>"

definition linkTexts :: "OtpUrl \<Rightarrow> qstring set" where
  "linkTexts u = {e_name (linkLabel u), e_issuer (linkLabel u), u_host u, queryItemValue u (qs ''algorithm''), trimmed (queryItemValue u (qs ''digits'')),
     trimmed (queryItemValue u (qs ''period'')), trimmed (queryItemValue u (qs ''counter''))}"

definition jsonWithoutSecret :: "jobject \<Rightarrow> jobject" where
  "jsonWithoutSecret obj = filter (\<lambda>(k, v). k \<noteq> qs ''secret'') obj"

definition jsonTexts :: "JsonEnv \<Rightarrow> jobject \<Rightarrow> qstring set" where
  "jsonTexts env obj = {jtoString [] (jat obj (qs ''name'')), jtoString [] (jat obj (qs ''issuer'')), jtoString [] (jat obj (qs ''algorithm'')),
     jtoString [] (jat obj (qs ''type'')), jsonText env (jat obj (qs ''digits'')), jsonText env (jat obj (qs ''period'')), jsonText env (jat obj (qs ''counter''))}"

text \<open>Of an entry of a migration link: its name, its issuer, and codes as numbers.\<close>

definition migratedTexts :: "Migrated \<Rightarrow> qstring set" where
  "migratedTexts m = {e_name (mg_entry m), e_issuer (mg_entry m), qs ''MD5''} \<union> range (\<lambda>v :: 64 word. number (unat v))"

lemma map_of_without: "k \<noteq> s \<Longrightarrow> map_of (filter (\<lambda>(k, v). k \<noteq> s) xs) k = map_of xs k"
  by (induction xs) auto

lemma linkTexts_without: "linkTexts (withoutSecret u) = linkTexts u"
proof -
  have u: "u_query (withoutSecret u) = filter (\<lambda>(k, v). k \<noteq> qs ''secret'') (u_query u)" unfolding withoutSecret_def by simp
  have q: "queryItemValue (withoutSecret u) k = queryItemValue u k" if "k \<noteq> qs ''secret''" for k
    unfolding queryItemValue_def u map_of_without [OF that] by (rule refl)
  have "linkLabel (withoutSecret u) = linkLabel u" using q [of "qs ''issuer''"] by (simp add: linkLabel_def withoutSecret_def)
  then show ?thesis using q [of "qs ''algorithm''"] q [of "qs ''digits''"] q [of "qs ''period''"] q [of "qs ''counter''"]
    by (simp add: linkTexts_def withoutSecret_def)
qed

lemma jsonTexts_without: "jsonTexts env (jsonWithoutSecret obj) = jsonTexts env obj"
proof -
  have q: "jat (jsonWithoutSecret obj) k = jat obj k" if "k \<noteq> qs ''secret''" for k
    unfolding jat_def jsonWithoutSecret_def map_of_without [OF that] by (rule refl)
  show ?thesis unfolding jsonTexts_def by (simp add: q)
qed

subsubsection \<open>The parsers\<close>

definition echoes :: "OtpProblem \<Rightarrow> bool" where
  "echoes p \<longleftrightarrow> (\<exists>t. p = NotALink t)"

text \<open>A step that fails quotes only texts of \<open>T\<close>, and one that succeeds keeps the label.\<close>

definition labelled :: "Entry \<Rightarrow> qstring set \<Rightarrow> parsed_entry \<Rightarrow> bool" where
  "labelled e0 T r \<longleftrightarrow> (\<forall>p. r = Inl (Some p) \<longrightarrow> \<not> echoes p \<and> texts p \<subseteq> T)
     \<and> (\<forall>e. r = Inr e \<longrightarrow> e_name e = e_name e0 \<and> e_issuer e = e_issuer e0)"

lemma label_texts: "e_name e = e_name e0 \<Longrightarrow> e_issuer e = e_issuer e0 \<Longrightarrow> set_option (otpEntryLabel e) \<subseteq> {e_name e0, e_issuer e0}"
  by (auto simp: otpEntryLabel_def)

lemma labelled_Inl: "labelled e0 T (Inl (Some p)) \<longleftrightarrow> \<not> echoes p \<and> texts p \<subseteq> T"
  by (auto simp: labelled_def)

lemma labelled_Inr: "labelled e0 T (Inr e) \<longleftrightarrow> e_name e = e_name e0 \<and> e_issuer e = e_issuer e0"
  by (auto simp: labelled_def)

lemma labelled_step:
  assumes "labelled e0 T r" "\<And>e. e_name e = e_name e0 \<Longrightarrow> e_issuer e = e_issuer e0 \<Longrightarrow> labelled e0 T (f e)"
  shows "labelled e0 T (next_step r f)"
proof (cases r)
  case (Inr e)
  then have "labelled e0 T (f e)" using assms(1) by (intro assms(2)) (simp_all add: labelled_Inr)
  then show ?thesis using Inr by (simp add: next_step_def)
qed (use assms(1) in \<open>simp add: next_step_def\<close>)

lemmas labelled_simps = labelled_Inl labelled_Inr echoes_def

lemma labelled_links:
  assumes "e_name e = e_name (linkLabel u)" "e_issuer e = e_issuer (linkLabel u)"
  shows "labelled (linkLabel u) (linkTexts u) (linkSecret u e)" "labelled (linkLabel u) (linkTexts u) (linkAlgorithm u e)"
    "labelled (linkLabel u) (linkTexts u) (linkDigits u e)" "labelled (linkLabel u) (linkTexts u) (linkPeriod u e)"
    "labelled (linkLabel u) (linkTexts u) (linkCounter u e)"
proof -
  have l: "set_option (otpEntryLabel x) \<subseteq> linkTexts u" if "e_name x = e_name e" "e_issuer x = e_issuer e" for x
    using label_texts [of x "linkLabel u"] assms that by (auto simp: linkTexts_def)
  show "labelled (linkLabel u) (linkTexts u) (linkSecret u e)"
    using l assms by (simp add: linkSecret_def Let_def case_prod_beta labelled_simps) (simp add: linkTexts_def)
  show "labelled (linkLabel u) (linkTexts u) (linkAlgorithm u e)"
    using l assms by (simp add: linkAlgorithm_def Let_def case_prod_beta labelled_simps) (simp add: linkTexts_def)
  show "labelled (linkLabel u) (linkTexts u) (linkDigits u e)"
    using l assms by (simp add: linkDigits_def Let_def labelled_simps split: option.split) (simp add: linkTexts_def)
  show "labelled (linkLabel u) (linkTexts u) (linkPeriod u e)"
    using l assms by (simp add: linkPeriod_def Let_def labelled_simps split: option.split) (simp add: linkTexts_def)
  show "labelled (linkLabel u) (linkTexts u) (linkCounter u e)"
    using l assms by (simp add: linkCounter_def Let_def labelled_simps split: option.split) (simp add: linkTexts_def)
qed

lemma link_texts:
  assumes "ParseFromLink url l = Inl (Some p)"
  shows "\<not> echoes p \<and> texts p \<subseteq> linkTexts (withoutSecret (url (trimmed l)))"
proof -
  let ?u = "url (trimmed l)"
  have "labelled (linkLabel ?u) (linkTexts ?u)
      (next_step (next_step (next_step (next_step (linkSecret ?u (linkLabel ?u)) (linkAlgorithm ?u)) (linkDigits ?u)) (linkPeriod ?u)) (linkCounter ?u))"
    by (intro labelled_step labelled_links refl)
  then show ?thesis using assms unfolding linkTexts_without
    by (auto simp: ParseFromLink_def Let_def labelled_def split: if_splits)
qed

lemma labelled_json:
  assumes "e0 = newEntry\<lparr>e_name := jtoString [] (jat obj (qs ''name'')), e_issuer := jtoString [] (jat obj (qs ''issuer''))\<rparr>"
    and "e_name e = e_name e0" "e_issuer e = e_issuer e0"
  shows "labelled e0 (jsonTexts env obj) (jsonSecret obj e)" "labelled e0 (jsonTexts env obj) (jsonKind obj e)"
    "labelled e0 (jsonTexts env obj) (jsonDigits env obj e)" "labelled e0 (jsonTexts env obj) (jsonPeriod env obj e)"
    "labelled e0 (jsonTexts env obj) (jsonCounter env obj e)"
proof -
  have l: "set_option (otpEntryLabel x) \<subseteq> jsonTexts env obj" if "e_name x = e_name e0" "e_issuer x = e_issuer e0" for x
    using label_texts [of x e0] that by (auto simp: jsonTexts_def assms(1))
  show "labelled e0 (jsonTexts env obj) (jsonSecret obj e)"
    using l assms(2,3) by (simp add: jsonSecret_def Let_def labelled_simps)
  show "labelled e0 (jsonTexts env obj) (jsonKind obj e)"
    using l assms(2,3) by (simp add: jsonKind_def Let_def case_prod_beta labelled_simps) (simp add: jsonTexts_def)
  show "labelled e0 (jsonTexts env obj) (jsonDigits env obj e)"
    using l assms(2,3) by (simp add: jsonDigits_def Let_def labelled_simps split: option.split) (simp add: jsonTexts_def)
  show "labelled e0 (jsonTexts env obj) (jsonPeriod env obj e)"
    using l assms(2,3) by (simp add: jsonPeriod_def Let_def labelled_simps split: option.split) (simp add: jsonTexts_def)
  show "labelled e0 (jsonTexts env obj) (jsonCounter env obj e)"
    using l assms(2,3) by (simp add: jsonCounter_def Let_def labelled_simps split: option.split) (simp add: jsonTexts_def)
qed

definition jsonQuotes :: "JsonEnv \<Rightarrow> json list \<Rightarrow> OtpProblem \<Rightarrow> bool" where
  "jsonQuotes env items p \<longleftrightarrow> \<not> echoes p \<and> (\<forall>t \<in> texts p. \<exists>obj. JObj obj \<in> set items \<and> t \<in> jsonTexts env (jsonWithoutSecret obj))"

lemma jsonItem_texts:
  assumes "jsonItem env v = Inl (Some p)" "v \<in> set items"
  shows "jsonQuotes env items p"
proof (cases v)
  case (JObj obj)
  define e0 where "e0 = newEntry\<lparr>e_name := jtoString [] (jat obj (qs ''name'')), e_issuer := jtoString [] (jat obj (qs ''issuer''))\<rparr>"
  have "labelled e0 (jsonTexts env obj) (entryFromJsonObject env obj)"
    unfolding entryFromJsonObject_def Let_def e0_def [symmetric] by (intro labelled_step labelled_json [OF e0_def] refl)
  then have "\<not> echoes p \<and> texts p \<subseteq> jsonTexts env obj" using assms JObj by (simp add: jsonItem_def labelled_def)
  then show ?thesis using JObj assms(2) by (auto simp: jsonQuotes_def jsonTexts_without)
qed (use assms in \<open>auto simp: jsonItem_def jsonQuotes_def echoes_def\<close>)

lemma collect_texts: "\<forall>p \<in> set (snd acc). jsonQuotes env items p \<Longrightarrow> set vs \<subseteq> set items \<Longrightarrow> \<forall>p \<in> set (snd (fold (collectItem env) vs acc)). jsonQuotes env items p"
proof (induction vs arbitrary: acc)
  case (Cons v vs)
  have "\<forall>p \<in> set (snd (collectItem env v acc)). jsonQuotes env items p"
    using Cons.prems jsonItem_texts [of env v _ items] by (auto simp: collectItem_def split: sum.splits option.splits)
  then show ?case using Cons by simp
qed simp

definition jsonItems :: "json \<Rightarrow> json list" where
  "jsonItems document = (case document of JArr xs \<Rightarrow> xs | JObj obj \<Rightarrow> jtoArray (jat obj (qs ''otp'')) | _ \<Rightarrow> [])"

lemma json_texts:
  assumes "p \<in> set (snd (ParseFromJson_otp env fromJson bytes))"
  shows "\<exists>document. fromJson bytes = Some document \<and> jsonQuotes env (jsonItems document) p"
proof -
  obtain document where d: "fromJson bytes = Some document" using assms by (auto simp: ParseFromJson_otp_def split: option.splits)
  have "\<forall>p \<in> set (snd (fold (collectItem env) (jsonItems document) ([], []))). jsonQuotes env (jsonItems document) p"
    by (rule collect_texts) simp_all
  then show ?thesis using assms d
    by (auto simp: ParseFromJson_otp_def Let_def case_prod_beta jsonItems_def [symmetric] split: if_splits)
qed

definition migrationQuotes :: "(byte list \<Rightarrow> qstring) \<Rightarrow> OtpProblem \<Rightarrow> bool" where
  "migrationQuotes fromUtf8 p \<longleftrightarrow> \<not> echoes p \<and> (\<exists>bs m. migrateFields fromUtf8 bs newMigrated = Some m \<and> texts p \<subseteq> migratedTexts m)"

lemma verdict_texts: "migrateVerdict m = Inl p \<Longrightarrow> \<not> echoes p \<and> texts p \<subseteq> migratedTexts m"
  by (auto simp: migrateVerdict_def migratedTexts_def echoes_def otpEntryLabel_def Let_def split: if_splits option.splits)

lemma migrate_texts:
  "\<forall>p \<in> set sk. migrationQuotes u p \<Longrightarrow> migrateLoop u bs es sk = Some (es', sk') \<Longrightarrow> \<forall>p \<in> set sk'. migrationQuotes u p"
proof (induction u bs es sk rule: migrateLoop.induct)
  case step: (1 u bs es sk)
  show ?case
  proof (cases "bs = [] \<or> pbReadField bs = None")
    case True
    then show ?thesis using step.prems by (auto simp: migrateLoop.simps [of u bs] split: if_splits)
  next
    case False
    then obtain f rest where f: "bs \<noteq> []" "pbReadField bs = Some (f, rest)" by auto
    show ?thesis
    proof (cases "pbField f \<noteq> 1 \<or> pbWire f \<noteq> 2")
      case True
      then show ?thesis using step.IH(1) [OF f(1,2) refl True] step.prems f by (simp add: migrateLoop.simps [of u bs])
    next
      case False
      then obtain m where m: "migrateFields u (pbBytes f) newMigrated = Some m"
        using step.prems(2) f by (auto simp: migrateLoop.simps [of u bs] split: option.splits)
      show ?thesis
      proof (cases "migrateVerdict m")
        case (Inl p)
        have q: "migrationQuotes u p" unfolding migrationQuotes_def using verdict_texts [OF Inl] m by blast
        have "migrateLoop u rest es (sk @ [p]) = Some (es', sk')"
          using step.prems(2) f False m Inl by (simp add: migrateLoop.simps [of u bs])
        moreover have "\<forall>q \<in> set (sk @ [p]). migrationQuotes u q" using q step.prems(1) by simp
        ultimately show ?thesis using step.IH(2) [OF f(1,2) refl False m Inl] by blast
      next
        case (Inr e)
        then have "migrateLoop u rest (es @ [e]) sk = Some (es', sk')"
          using step.prems(2) f False m by (simp add: migrateLoop.simps [of u bs])
        then show ?thesis using step.IH(3) [OF f(1,2) refl False m Inr] step.prems(1) by blast
      qed
    qed
  qed
qed

lemma migration_link_texts: "p \<in> set (snd (ParseFromMigrationLink u b url l)) \<Longrightarrow> migrationQuotes u p"
  using migrate_texts [of "[]" u] by (auto simp: ParseFromMigrationLink_def Let_def split: option.splits if_splits)

subsubsection \<open>Pasted text\<close>

definition lineQuotes :: "OtpEnv \<Rightarrow> qstring \<Rightarrow> OtpProblem \<Rightarrow> bool" where
  "lineQuotes env line p \<longleftrightarrow>
     (if echoes p then p = NotALink (take 40 line) \<and> \<not> hasPrefixCI line (qs ''otpauth://'') \<and> \<not> hasPrefixCI line (qs ''otpauth-migration://'')
        \<and> \<not> LooksLikeBareSecret line
      else texts p \<subseteq> linkTexts (withoutSecret (env_url env (trimmed line)))
        \<or> hasPrefixCI line (qs ''otpauth-migration://'') \<and> (\<exists>bs m. migrateFields (env_fromUtf8 env) bs newMigrated = Some m \<and> texts p \<subseteq> migratedTexts m))"

lemma parseOtpLine_texts:
  assumes "p \<in> set (snd (parseOtpLine env line))"
  shows "lineQuotes env line p"
proof (cases "hasPrefixCI line (qs ''otpauth-migration://'')")
  case True
  then have "p = UnreadableMigration \<or> migrationQuotes (env_fromUtf8 env) p"
    using assms migration_link_texts [of p "env_fromUtf8 env" "env_fromBase64 env" "env_url env" line]
    by (auto simp: parseOtpLine_def Let_def split: prod.splits option.splits if_splits)
  then show ?thesis using True by (auto simp: lineQuotes_def migrationQuotes_def echoes_def)
next
  case False
  note no = this
  show ?thesis
  proof (cases "ParseFromLink (env_url env) line")
    case (Inl r)
    show ?thesis
    proof (cases r)
      case (Some q)
      then have "p = q" using assms no Inl by (simp add: parseOtpLine_def)
      then show ?thesis using link_texts [of "env_url env" line q] Inl Some by (simp add: lineQuotes_def)
    next
      case None
      then have "p = UnreadableLink \<or> \<not> hasPrefixCI line (qs ''otpauth://'') \<and> p \<in> set (snd (parseBare line))"
        using assms no Inl by (auto simp: parseOtpLine_def split: if_splits)
      then show ?thesis using no by (auto simp: lineQuotes_def parseBare_def echoes_def Let_def split: if_splits)
    qed
  next
    case (Inr e)
    then show ?thesis using assms no by (simp add: parseOtpLine_def)
  qed
qed

lemma lines_texts:
  assumes "p \<in> set (snd (fold (addLine env) ls acc))" "p \<notin> set (snd acc)"
  shows "\<exists>l \<in> set ls. lineQuotes env (trimmed l) p"
  using assms
proof (induction ls arbitrary: acc)
  case (Cons l ls)
  show ?case
  proof (cases "p \<in> set (snd (addLine env l acc))")
    case True
    then have "p \<in> set (snd (parseOtpLine env (trimmed l)))" using Cons.prems(2) by (auto simp: addLine_def Let_def split: if_splits prod.splits)
    then show ?thesis using parseOtpLine_texts by auto
  next
    case False
    then show ?thesis using Cons.IH [of "addLine env l acc"] Cons.prems by auto
  qed
qed simp


text \<open>A line of notes is quoted.\<close>

definition demoOtpEnv :: OtpEnv where
  "demoOtpEnv = \<lparr>env_url = (\<lambda>t. \<lparr>u_valid = False, u_scheme = [], u_host = [], u_path = [], u_query = []\<rparr>),
     env_fromUtf8 = map unat, env_fromBase64 = map word_of_nat, env_fromJson = (\<lambda>b. None),
     env_json = \<lparr>outOfRange = (\<lambda>r. 0), jsonText = (\<lambda>v. [])\<rparr>\<rparr>"


end
