(* ===== verification/Group_Order.thy ===== *)
theory Group_Order
  imports Profile_Metrics
begin

text \<open>
  The order of a group's profiles: the sorts and the list operations of \<^verbatim>\<open>src/src/database/entities/Group.cpp\<close> and the queue of deferred sorts at the end
  of \<^verbatim>\<open>src/src/database/GroupsRepo.cpp\<close>.

  \<open>SortWorld\<close> is what a sort reads from the repositories: the profiles by id (the texts of a profile come from its outbound type), the set of
  disabled ids, and \<open>QString::toDouble\<close>. Doubles are finite and therefore rationals. \<open>Group\<close> holds the fields these operations read or write.
  \<open>Resort\<close> runs its sort outside the lock, so each of its three attempts takes what the other threads do in between as a function on the group,
  and so does \<open>AddProfileBatch\<close>, whose set of known ids is built before the lock is taken. Positions are those \<open>QList\<close> accepts; an
  index its assertions refuse gives \<open>None\<close>. The sort queue is a state machine whose steps are the critical sections of \<open>enqueueSort\<close> and
  \<open>drainSorts\<close> and the sorting of one group in between.

  Results: the comparator is a strict weak order for every method, and the sort is the stable sort of the enabled profiles followed by
  that of the disabled ones; a sort that is run again moves nothing; sorting never undoes what another thread did to the list; a kept
  sort is skipped only if it could not move anything; no accepted sort request is lost.
\<close>

subsection \<open>Sort methods\<close>

datatype GroupSortMethod = Raw | ByType | ByAddress | ByName | ByTestResult | ById | ByTraffic | BySecurity | ByLatency

record GroupSortAction =
  gs_method :: GroupSortMethod
  gs_descending :: bool

datatype testBy = testLatency | testTxSpeed | testRxSpeed | testConnectTime | testSiteScore

datatype trafficBy = trafficTx | trafficRx

datatype SortInput = Membership | ConfigInput | TestResultInput | TrafficInput

record SecurityInfo =
  sec_level :: int
  sec_transport :: qstring
  sec_label :: qstring

record GroupMember =
  gm_displayType :: qstring
  gm_name :: qstring
  gm_displayAddress :: qstring
  gm_security :: SecurityInfo
  gm_latency :: int
  gm_performance_test_status :: PerformanceTestStatus
  gm_ul_speed :: qstring
  gm_rx_speed_mbps :: rat
  gm_connect_time_ms :: int
  gm_site_score :: int
  gm_traffic_downlink :: int
  gm_traffic_uplink :: int

record SortWorld =
  w_GetProfile :: "int \<Rightarrow> GroupMember option"
  w_IsProfileDisabled :: "int \<Rightarrow> bool"
  w_toDouble :: "qstring \<Rightarrow> rat"

text \<open>\<open>QString::operator<\<close>: by UTF-16 units, a proper prefix first.\<close>

fun qstringLess :: "qstring \<Rightarrow> qstring \<Rightarrow> bool" where
  "qstringLess _ [] = False"
| "qstringLess [] (_ # _) = True"
| "qstringLess (a # s) (b # t) = (if a = b then qstringLess s t else a < b)"

definition asciiLower :: "qchar \<Rightarrow> qchar" where
  "asciiLower c = (if 65 \<le> c \<and> c \<le> 90 then c + 32 else c)"

text \<open>The suffix test of \<open>bitrateToBps\<close>. Its suffixes hold no letter that a unit outside ASCII folds to, apart from the long s and the Kelvin sign.\<close>

definition foldUnit :: "qchar \<Rightarrow> qchar" where
  "foldUnit c = (if c = 383 then 115 else if c = 8490 then 107 else asciiLower c)"

definition endsWithCI :: "qstring \<Rightarrow> qstring \<Rightarrow> bool" where
  "endsWithCI s suffix \<longleftrightarrow> length suffix \<le> length s \<and> map foldUnit (drop (length s - length suffix) s) = map foldUnit suffix"

definition signedDouble :: "rat \<Rightarrow> rat" where
  "signedDouble r = (if 0 \<le> r then toDouble r else - toDouble (- r))"

definition bitrateToBps :: "(qstring \<Rightarrow> rat) \<Rightarrow> qstring \<Rightarrow> rat" where
  "bitrateToBps readDouble str =
     (let v = readDouble (take (length str - 4) str)
      in if endsWithCI str (qs ''Gbps'') then signedDouble (v * 1000000000)
         else if endsWithCI str (qs ''Mbps'') then signedDouble (v * 1000000)
         else if endsWithCI str (qs ''Kbps'') then signedDouble (v * 1000)
         else if str = qs ''N/A'' then - 1
         else 0)"

definition statusForSort :: "testBy \<Rightarrow> GroupMember \<Rightarrow> PerformanceTestStatus" where
  "statusForSort testSortBy profile =
     (if testSortBy = testLatency then
        (if gm_latency profile > 0 then Success else if gm_latency profile = 0 then Untested else PerfError)
      else gm_performance_test_status profile)"

definition valueForSort :: "(qstring \<Rightarrow> rat) \<Rightarrow> testBy \<Rightarrow> GroupMember \<Rightarrow> rat" where
  "valueForSort readDouble testSortBy p =
     (case testSortBy of
        testLatency \<Rightarrow> of_int (gm_latency p)
      | testTxSpeed \<Rightarrow> bitrateToBps readDouble (gm_ul_speed p)
      | testRxSpeed \<Rightarrow> gm_rx_speed_mbps p
      | testConnectTime \<Rightarrow> of_int (gm_connect_time_ms p)
      | testSiteScore \<Rightarrow> of_int (gm_site_score p))"

definition byText :: "bool \<Rightarrow> qstring \<Rightarrow> qstring \<Rightarrow> bool" where
  "byText descending ms_a ms_b = (if descending then qstringLess ms_b ms_a else qstringLess ms_a ms_b)"

definition byNumber :: "bool \<Rightarrow> int \<Rightarrow> int \<Rightarrow> bool" where
  "byNumber descending a b = (if descending then a > b else a < b)"

definition profileComesBefore ::
  "(qstring \<Rightarrow> rat) \<Rightarrow> GroupSortAction \<Rightarrow> testBy \<Rightarrow> trafficBy \<Rightarrow> GroupMember \<Rightarrow> GroupMember \<Rightarrow> bool" where
  "profileComesBefore readDouble sortAction testSortBy trafficSortBy profA profB =
     (let desc = gs_descending sortAction
      in case gs_method sortAction of
        ByType \<Rightarrow> byText desc (gm_displayType profA) (gm_displayType profB)
      | ByName \<Rightarrow> byText desc (gm_name profA) (gm_name profB)
      | ByAddress \<Rightarrow> byText desc (gm_displayAddress profA) (gm_displayAddress profB)
      | BySecurity \<Rightarrow>
          let secA = gm_security profA; secB = gm_security profB
          in if sec_level secA \<noteq> sec_level secB then byNumber desc (sec_level secA) (sec_level secB)
             else byText desc (sec_transport secA @ sec_label secA) (sec_transport secB @ sec_label secB)
      | ByTraffic \<Rightarrow>
          let valueA = (if trafficSortBy = trafficRx then gm_traffic_downlink profA else gm_traffic_uplink profA);
              valueB = (if trafficSortBy = trafficRx then gm_traffic_downlink profB else gm_traffic_uplink profB)
          in if valueA = valueB then False else byNumber desc valueA valueB
      | Raw \<Rightarrow> byText desc [] []
      | ById \<Rightarrow> byText desc [] []
      | m \<Rightarrow>
          let t = (if m = ByLatency then testLatency else testSortBy)
          in PerformanceComesBefore desc (statusForSort t profA, valueForSort readDouble t profA)
               (statusForSort t profB, valueForSort readDouble t profB))"

definition ProfileIdComesBefore :: "SortWorld \<Rightarrow> GroupSortAction \<Rightarrow> testBy \<Rightarrow> trafficBy \<Rightarrow> int \<Rightarrow> int \<Rightarrow> bool" where
  "ProfileIdComesBefore w sortAction testSortBy trafficSortBy idA idB =
     (case (w_GetProfile w idA, w_GetProfile w idB) of
        (Some profA, Some profB) \<Rightarrow> profileComesBefore (w_toDouble w) sortAction testSortBy trafficSortBy profA profB
      | (profA, _) \<Rightarrow> profA \<noteq> None)"

definition SortProfileIdList :: "SortWorld \<Rightarrow> GroupSortAction \<Rightarrow> testBy \<Rightarrow> trafficBy \<Rightarrow> int list \<Rightarrow> int list" where
  "SortProfileIdList w sortAction testSortBy trafficSortBy ids =
     (let sorted = (if gs_method sortAction \<in> {Raw, ById} then ids
                    else stableSort (ProfileIdComesBefore w sortAction testSortBy trafficSortBy) ids)
      in filter (\<lambda>id. \<not> w_IsProfileDisabled w id) sorted @ filter (w_IsProfileDisabled w) sorted)"

subsection \<open>The group\<close>

record Group =
  g_profiles :: "int list"
  g_sort :: GroupSortAction
  g_test_sort_by :: testBy
  g_traffic_sort_by :: trafficBy

definition SortReads :: "Group \<Rightarrow> SortInput \<Rightarrow> bool" where
  "SortReads g input =
     (case gs_method (g_sort g) of
        Raw \<Rightarrow> False
      | ById \<Rightarrow> False
      | ByTestResult \<Rightarrow> input = Membership \<or> input = TestResultInput
      | ByLatency \<Rightarrow> input = Membership \<or> input = TestResultInput
      | ByTraffic \<Rightarrow> input = Membership \<or> input = TrafficInput
      | _ \<Rightarrow> input = Membership \<or> input = ConfigInput)"

definition KeepsSorted :: "Group \<Rightarrow> bool" where
  "KeepsSorted g = SortReads g Membership"

definition SetSort :: "GroupSortAction \<Rightarrow> Group \<Rightarrow> Group" where
  "SetSort action g = g\<lparr>g_sort := action\<rparr>"

type_synonym attempt = "SortWorld \<times> (Group \<Rightarrow> Group)"

text \<open>One entry per attempt: the repositories as the sort reads them, and what other threads do to the group while the lock is free.\<close>

fun resortAttempts :: "attempt list \<Rightarrow> Group \<Rightarrow> Group \<times> bool" where
  "resortAttempts [] g = (g, False)"
| "resortAttempts ((w, others) # rest) g =
     (if \<not> KeepsSorted g then (g, False)
      else
        let before = g_profiles g; action = g_sort g;
            after = SortProfileIdList w action (g_test_sort_by g) (g_traffic_sort_by g) before;
            g' = others g
        in if g_profiles g' \<noteq> before \<or> gs_method (g_sort g') \<noteq> gs_method action \<or> gs_descending (g_sort g') \<noteq> gs_descending action
           then resortAttempts rest g'
           else if g_profiles g' = after then (g', False)
           else (g'\<lparr>g_profiles := after\<rparr>, True))"

definition Resort :: "attempt \<Rightarrow> attempt \<Rightarrow> attempt \<Rightarrow> Group \<Rightarrow> Group \<times> bool" where
  "Resort a1 a2 a3 g = resortAttempts [a1, a2, a3] g"

definition SortProfiles :: "attempt \<Rightarrow> attempt \<Rightarrow> attempt \<Rightarrow> GroupSortAction \<Rightarrow> Group \<Rightarrow> Group \<times> bool" where
  "SortProfiles a1 a2 a3 action g = Resort a1 a2 a3 (SetSort action g)"

definition Reposition :: "attempt \<Rightarrow> attempt \<Rightarrow> attempt \<Rightarrow> int list \<Rightarrow> Group \<Rightarrow> Group \<times> bool" where
  "Reposition a1 a2 a3 changed g = (if changed = [] then (g, False) else Resort a1 a2 a3 g)"

definition ReplaceProfiles :: "int list \<Rightarrow> Group \<Rightarrow> Group \<times> bool" where
  "ReplaceProfiles ids g = (g\<lparr>g_profiles := ids\<rparr>, True)"

definition HasProfile :: "int \<Rightarrow> Group \<Rightarrow> bool" where
  "HasProfile ID g \<longleftrightarrow> ID \<in> set (g_profiles g)"

definition AddProfile :: "int \<Rightarrow> Group \<Rightarrow> Group \<times> bool" where
  "AddProfile ID g = (if HasProfile ID g then (g, False) else (g\<lparr>g_profiles := g_profiles g @ [ID]\<rparr>, True))"

definition AddProfileBatch :: "(Group \<Rightarrow> Group) \<Rightarrow> int list \<Rightarrow> Group \<Rightarrow> Group \<times> bool" where
  "AddProfileBatch others IDs g =
     (let currentProfiles = set (g_profiles g); g' = others g
      in (g'\<lparr>g_profiles := g_profiles g' @ filter (\<lambda>profileID. profileID \<notin> currentProfiles) IDs\<rparr>, True))"

definition RemoveProfile :: "int \<Rightarrow> Group \<Rightarrow> Group \<times> bool" where
  "RemoveProfile ID g = (if \<not> HasProfile ID g then (g, False) else (g\<lparr>g_profiles := filter (\<lambda>id. id \<noteq> ID) (g_profiles g)\<rparr>, True))"

definition RemoveProfileBatch :: "int list \<Rightarrow> Group \<Rightarrow> Group \<times> bool" where
  "RemoveProfileBatch IDs g = (g\<lparr>g_profiles := filter (\<lambda>inID. inID \<notin> set IDs) (g_profiles g)\<rparr>, True)"

definition SwapProfiles :: "int \<Rightarrow> int \<Rightarrow> Group \<Rightarrow> (Group \<times> bool) option" where
  "SwapProfiles idx1 idx2 g =
     (let n = int (length (g_profiles g)); i = nat idx1; j = nat idx2; xs = g_profiles g
      in if n \<le> idx1 \<or> n \<le> idx2 then Some (g, False)
         else if idx1 < 0 \<or> idx2 < 0 then None
         else Some (g\<lparr>g_profiles := xs[i := xs ! j, j := xs ! i]\<rparr>, True))"

definition insertAt :: "nat \<Rightarrow> 'a \<Rightarrow> 'a list \<Rightarrow> 'a list" where
  "insertAt i x xs = take i xs @ x # drop i xs"

definition removeAt :: "nat \<Rightarrow> 'a list \<Rightarrow> 'a list" where
  "removeAt i xs = take i xs @ drop (Suc i) xs"

definition EmplaceProfile :: "int \<Rightarrow> int \<Rightarrow> Group \<Rightarrow> (Group \<times> bool) option" where
  "EmplaceProfile idx newIdx g =
     (let n = int (length (g_profiles g)); xs = g_profiles g; ys = insertAt (nat (newIdx + 1)) (xs ! nat idx) xs
      in if n \<le> idx \<or> n \<le> newIdx then Some (g, False)
         else if idx < 0 \<or> newIdx < - 1 then None
         else if idx < newIdx then Some (g\<lparr>g_profiles := removeAt (nat idx) ys\<rparr>, True)
         else Some (g\<lparr>g_profiles := removeAt (nat (idx + 1)) ys\<rparr>, True))"

subsection \<open>Deferred sorts\<close>

record PendingSort =
  ps_changed :: "int set"
  ps_full :: bool

datatype SortWorker = AtLock | Sorting "(int \<times> PendingSort) list" "int list"

datatype SortEvent = GroupSaved int | GroupOrderChanged "int list"

text \<open>\<open>pendingSorts\<close> is a list of pairs with one entry per group; the order in which a batch is visited is \<open>hashOrder\<close>. \<open>sq_resorts\<close> records the
  groups whose \<open>Resort\<close> ran.\<close>

record SortQueue =
  sq_pending :: "(int \<times> PendingSort) list"
  sq_running :: bool
  sq_workers :: "SortWorker list"
  sq_groups :: "int \<Rightarrow> Group option"
  sq_events :: "SortEvent list"
  sq_resorts :: "int list"

definition mergeSort :: "int list \<Rightarrow> bool \<Rightarrow> PendingSort \<Rightarrow> PendingSort" where
  "mergeSort changed full pending =
     (let full' = ps_full pending \<or> full
      in \<lparr>ps_changed = (if full' then ps_changed pending else ps_changed pending \<union> set changed), ps_full = full'\<rparr>)"

definition newPendingSort :: PendingSort where
  "newPendingSort = \<lparr>ps_changed = {}, ps_full = False\<rparr>"

fun pendingEntry :: "int \<Rightarrow> (PendingSort \<Rightarrow> PendingSort) \<Rightarrow> (int \<times> PendingSort) list \<Rightarrow> (int \<times> PendingSort) list" where
  "pendingEntry gid f [] = [(gid, f newPendingSort)]"
| "pendingEntry gid f ((k, p) # rest) = (if k = gid then (k, f p) # rest else (k, p) # pendingEntry gid f rest)"

definition enqueueSort :: "int \<Rightarrow> SortInput \<Rightarrow> int list \<Rightarrow> bool \<Rightarrow> SortQueue \<Rightarrow> SortQueue" where
  "enqueueSort gid input changed full q =
     (case sq_groups q gid of
        None \<Rightarrow> q
      | Some grp \<Rightarrow>
          if \<not> SortReads grp input then q
          else
            let q' = q\<lparr>sq_pending := pendingEntry gid (mergeSort changed full) (sq_pending q)\<rparr>
            in if sq_running q' then q' else q'\<lparr>sq_running := True, sq_workers := sq_workers q' @ [AtLock]\<rparr>)"

definition ResortLater :: "int \<Rightarrow> SortQueue \<Rightarrow> SortQueue" where
  "ResortLater gid q = enqueueSort gid Membership [] True q"

definition RepositionLater :: "(int \<times> int list) list \<Rightarrow> SortInput \<Rightarrow> SortQueue \<Rightarrow> SortQueue" where
  "RepositionLater changedByGroup input q = fold (\<lambda>(gid, ids). enqueueSort gid input ids False) changedByGroup q"

text \<open>The overload for profiles groups their ids by the group of each profile, given as pairs of the two; the list stands for the hash in its order.\<close>

fun addChanged :: "int \<Rightarrow> int \<Rightarrow> (int \<times> int list) list \<Rightarrow> (int \<times> int list) list" where
  "addChanged gid ID [] = [(gid, [ID])]"
| "addChanged gid ID ((k, ids) # rest) = (if k = gid then (k, ids @ [ID]) # rest else (k, ids) # addChanged gid ID rest)"

definition RepositionProfilesLater :: "(int \<times> int) option list \<Rightarrow> SortInput \<Rightarrow> SortQueue \<Rightarrow> SortQueue" where
  "RepositionProfilesLater profiles input q =
     RepositionLater (fold (\<lambda>p acc. case p of None \<Rightarrow> acc | Some (gid, ID) \<Rightarrow> addChanged gid ID acc) profiles []) input q"

type_synonym attempts = "int \<Rightarrow> attempt \<times> attempt \<times> attempt"

text \<open>The group, whether its order changed, and the groups whose \<open>Resort\<close> ran.\<close>

definition sortGroup :: "attempts \<Rightarrow> int \<Rightarrow> PendingSort \<Rightarrow> Group \<Rightarrow> (Group \<times> bool) \<times> int list" where
  "sortGroup att gid p g =
     (case att gid of (a1, a2, a3) \<Rightarrow>
        if ps_full p then (Resort a1 a2 a3 g, [gid])
        else if ps_changed p = {} then ((g, False), [])
        else (Resort a1 a2 a3 g, [gid]))"

text \<open>One turn of the worker at position \<open>i\<close>: the critical section at the top of the loop, the next group of its batch, or the report at the end of
  the batch.\<close>

definition drainStep :: "((int \<times> PendingSort) list \<Rightarrow> (int \<times> PendingSort) list) \<Rightarrow> attempts \<Rightarrow> nat \<Rightarrow> SortQueue \<Rightarrow> SortQueue" where
  "drainStep hashOrder att i q =
     (case sq_workers q ! i of
        AtLock \<Rightarrow>
          if sq_pending q = [] then q\<lparr>sq_running := False, sq_workers := removeAt i (sq_workers q)\<rparr>
          else q\<lparr>sq_pending := [], sq_workers := (sq_workers q)[i := Sorting (hashOrder (sq_pending q)) []]\<rparr>
      | Sorting [] moved \<Rightarrow>
          q\<lparr>sq_workers := (sq_workers q)[i := AtLock],
            sq_events := sq_events q @ (if moved = [] then [] else [GroupOrderChanged moved])\<rparr>
      | Sorting ((gid, p) # rest) moved \<Rightarrow>
          (case sq_groups q gid of
             None \<Rightarrow> q\<lparr>sq_workers := (sq_workers q)[i := Sorting rest moved]\<rparr>
           | Some grp \<Rightarrow>
               (case sortGroup att gid p grp of ((grp', reordered), resorted) \<Rightarrow>
                  q\<lparr>sq_groups := (sq_groups q)(gid \<mapsto> grp'),
                    sq_workers := (sq_workers q)[i := Sorting rest (if reordered then moved @ [gid] else moved)],
                    sq_events := sq_events q @ (if reordered then [GroupSaved gid] else []),
                    sq_resorts := sq_resorts q @ resorted\<rparr>)))"

definition sq_init :: "SortQueue \<Rightarrow> bool" where
  "sq_init q \<longleftrightarrow> sq_pending q = [] \<and> \<not> sq_running q \<and> sq_workers q = []"

inductive sq_step :: "SortQueue \<Rightarrow> SortQueue \<Rightarrow> bool" where
  sq_enqueue: "sq_step q (enqueueSort gid input changed full q)"
| sq_drain: "i < length (sq_workers q) \<Longrightarrow> mset (hashOrder (sq_pending q)) = mset (sq_pending q) \<Longrightarrow> sq_step q (drainStep hashOrder att i q)"
| sq_others: "sq_step q (q\<lparr>sq_groups := groups\<rparr>)"

subsection \<open>The comparator\<close>

lemma qstringLess_irrefl: "\<not> qstringLess s s"
  by (induction s) auto

lemma qstringLess_trans: "qstringLess s t \<Longrightarrow> qstringLess t u \<Longrightarrow> qstringLess s u"
proof (induction s t arbitrary: u rule: qstringLess.induct)
  case (2 b t)
  then show ?case by (cases u) auto
next
  case (3 a s b t)
  then show ?case by (cases u) (auto split: if_splits)
qed simp

lemma qstringLess_linear: "\<not> qstringLess s t \<Longrightarrow> \<not> qstringLess t s \<Longrightarrow> s = t"
proof (induction s t rule: qstringLess.induct)
  case (1 s)
  then show ?case by (cases s) auto
next
  case (3 a s b t)
  then show ?case by (auto split: if_splits)
qed simp

lemma qstringLess_not_trans: "\<not> qstringLess s t \<Longrightarrow> \<not> qstringLess t u \<Longrightarrow> \<not> qstringLess s u"
  by (metis qstringLess_linear qstringLess_trans)

interpretation textOrder: strict_weak_order "byText descending" for descending
  by unfold_locales
    (auto simp: byText_def qstringLess_irrefl intro: qstringLess_trans dest: qstringLess_not_trans split: if_splits)

text \<open>Ways to build a comparator from others: by number and then by a second comparator, and with missing elements last.\<close>

lemma strict_weak_then:
  assumes "strict_weak_order lt"
  shows "strict_weak_order (\<lambda>x y. if f x \<noteq> f y then byNumber d (f x) (f y) else lt x y)"
proof
  fix x y z
  show "\<not> (if f x \<noteq> f x then byNumber d (f x) (f x) else lt x x)"
    using strict_weak_order.irreflexive [OF assms] by simp
  show "(if f x \<noteq> f y then byNumber d (f x) (f y) else lt x y) \<Longrightarrow> (if f y \<noteq> f z then byNumber d (f y) (f z) else lt y z)
    \<Longrightarrow> (if f x \<noteq> f z then byNumber d (f x) (f z) else lt x z)"
    using strict_weak_order.transitive [OF assms, of x y z] by (auto simp: byNumber_def split: if_splits)
  show "\<not> (if f x \<noteq> f y then byNumber d (f x) (f y) else lt x y) \<Longrightarrow> \<not> (if f y \<noteq> f z then byNumber d (f y) (f z) else lt y z)
    \<Longrightarrow> \<not> (if f x \<noteq> f z then byNumber d (f x) (f z) else lt x z)"
    using strict_weak_order.incomparable_transitive [OF assms, of x y z] by (auto simp: byNumber_def split: if_splits)
qed

definition presentFirst :: "('a \<Rightarrow> 'a \<Rightarrow> bool) \<Rightarrow> 'a option \<Rightarrow> 'a option \<Rightarrow> bool" where
  "presentFirst lt a b = (case (a, b) of (Some x, Some y) \<Rightarrow> lt x y | (x, _) \<Rightarrow> x \<noteq> None)"

lemma presentFirst_simps [simp]:
  "presentFirst lt (Some x) (Some y) = lt x y" "presentFirst lt None b = False" "presentFirst lt (Some x) None = True"
  by (simp_all add: presentFirst_def split: option.split)

lemma strict_weak_present:
  assumes "strict_weak_order lt"
  shows "strict_weak_order (presentFirst lt)"
proof
  fix x y z
  show "\<not> presentFirst lt x x"
    using strict_weak_order.irreflexive [OF assms] by (cases x) auto
  show "presentFirst lt x y \<Longrightarrow> presentFirst lt y z \<Longrightarrow> presentFirst lt x z"
    using strict_weak_order.transitive [OF assms, of "the x" "the y" "the z"] by (cases x; cases y; cases z) auto
  show "\<not> presentFirst lt x y \<Longrightarrow> \<not> presentFirst lt y z \<Longrightarrow> \<not> presentFirst lt x z"
    using strict_weak_order.incomparable_transitive [OF assms, of "the x" "the y" "the z"] by (cases x; cases y; cases z) auto
qed

lemma profile_order: "strict_weak_order (profileComesBefore readDouble action tests traffic)"
proof -
  have strs: "strict_weak_order (\<lambda>a b. byText d (f a) (f b))" for d and f :: "GroupMember \<Rightarrow> qstring"
    by (rule strict_weak_key) (rule textOrder.strict_weak_order_axioms)
  have perf: "strict_weak_order (\<lambda>a b. PerformanceComesBefore d (f a) (f b))" for d and f :: "GroupMember \<Rightarrow> PerformanceTestStatus \<times> rat"
    by (rule strict_weak_key) (rule performanceOrder.strict_weak_order_axioms)
  have number: "strict_weak_order (\<lambda>a b. f a \<noteq> f b \<and> byNumber d (f a) (f b))" for d and f :: "GroupMember \<Rightarrow> int"
    by unfold_locales (auto simp: byNumber_def split: if_splits)
  show ?thesis
    by (cases "gs_method action"; cases traffic)
      (simp_all add: profileComesBefore_def [abs_def] Let_def strs perf number strict_weak_then [OF strs] cong: conj_cong)
qed

interpretation profileIdOrder: strict_weak_order "ProfileIdComesBefore w action tests traffic" for w action tests traffic
  using strict_weak_key [OF strict_weak_present [OF profile_order], of "w_toDouble w" action tests traffic "w_GetProfile w"]
  by (simp add: ProfileIdComesBefore_def [abs_def] presentFirst_def)

subsection \<open>Sorting a group\<close>

abbreviation enabledIds :: "SortWorld \<Rightarrow> int list \<Rightarrow> int list" where
  "enabledIds w \<equiv> filter (\<lambda>id. \<not> w_IsProfileDisabled w id)"

abbreviation disabledIds :: "SortWorld \<Rightarrow> int list \<Rightarrow> int list" where
  "disabledIds w \<equiv> filter (w_IsProfileDisabled w)"

lemma mset_two_filters: "mset (filter (\<lambda>x. \<not> P x) xs @ filter P xs) = mset xs"
  by (induction xs) auto

lemma sorted_wrt_all: "\<forall>x \<in> set xs. \<forall>y \<in> set xs. P x y \<Longrightarrow> sorted_wrt P xs"
  by (induction xs) auto

lemma mset_SortProfileIdList [simp]: "mset (SortProfileIdList w action tests traffic ids) = mset ids"
  unfolding SortProfileIdList_def Let_def mset_two_filters by simp

lemma set_SortProfileIdList [simp]: "set (SortProfileIdList w action tests traffic ids) = set ids"
  by (metis mset_SortProfileIdList set_mset_mset)

lemma distinct_SortProfileIdList [simp]: "distinct (SortProfileIdList w action tests traffic ids) = distinct ids"
  using mset_eq_imp_distinct_iff mset_SortProfileIdList by blast

text \<open>The comparator of a method that does not sort is never true, so the switch in front of the sort is the sort itself.\<close>

lemma unsorted_method:
  assumes "gs_method action \<in> {Raw, ById}" "\<forall>id \<in> set ids. w_GetProfile w id \<noteq> None"
  shows "stableSort (ProfileIdComesBefore w action tests traffic) ids = ids"
proof (rule stableSort_incomparable, intro ballI)
  fix a b assume "a \<in> set ids" "b \<in> set ids"
  then obtain x y where "w_GetProfile w a = Some x" "w_GetProfile w b = Some y" using assms(2) by blast
  then show "\<not> ProfileIdComesBefore w action tests traffic a b"
    using assms(1) by (auto simp: ProfileIdComesBefore_def profileComesBefore_def byText_def)
qed

lemma sort_parts:
  "gs_method action \<notin> {Raw, ById} \<Longrightarrow> SortProfileIdList w action tests traffic ids =
     stableSort (ProfileIdComesBefore w action tests traffic) (enabledIds w ids)
     @ stableSort (ProfileIdComesBefore w action tests traffic) (disabledIds w ids)"
  by (simp add: SortProfileIdList_def Let_def profileIdOrder.filter_stableSort)

lemma enabled_of_sorted:
  "gs_method action \<notin> {Raw, ById} \<Longrightarrow> enabledIds w (SortProfileIdList w action tests traffic ids)
     = stableSort (ProfileIdComesBefore w action tests traffic) (enabledIds w ids)"
  "gs_method action \<notin> {Raw, ById} \<Longrightarrow> disabledIds w (SortProfileIdList w action tests traffic ids)
     = stableSort (ProfileIdComesBefore w action tests traffic) (disabledIds w ids)"
  by (simp_all add: sort_parts profileIdOrder.filter_stableSort)

lemma sort_idem: "SortProfileIdList w action tests traffic (SortProfileIdList w action tests traffic ids)
  = SortProfileIdList w action tests traffic ids"
proof (cases "gs_method action \<in> {Raw, ById}")
  case False
  have "stableSort lt (stableSort lt xs) = stableSort lt xs" if "lt = ProfileIdComesBefore w action tests traffic" for lt xs
    unfolding that by (rule profileIdOrder.stableSort_sorted [OF profileIdOrder.sorted_stableSort])
  then show ?thesis using False by (simp add: sort_parts [of action] enabled_of_sorted [of action])
qed (auto simp: SortProfileIdList_def)

text \<open>C35: sorting a group gives the list \<open>std::stable_sort\<close> and \<open>std::stable_partition\<close> promise, whatever the profiles are: a permutation with the
  disabled profiles behind all enabled ones, each of the two parts in the order of the chosen method, profiles the method does not tell apart in the
  order they had. Sorting again moves nothing, and profiles that are gone from the repository stand last in their part.\<close>

theorem group_sort_stable:
  assumes "gs_method action \<notin> {Raw, ById}"
    and ys: "ys = SortProfileIdList w action tests traffic ids"
  shows "mset ys = mset ids
    \<and> sorted_wrt (\<lambda>a b. w_IsProfileDisabled w a \<longrightarrow> w_IsProfileDisabled w b) ys
    \<and> sorted_wrt (\<lambda>a b. w_IsProfileDisabled w a = w_IsProfileDisabled w b \<longrightarrow>
         \<not> ProfileIdComesBefore w action tests traffic b a \<and> (w_GetProfile w a = None \<longrightarrow> w_GetProfile w b = None)) ys
    \<and> (\<forall>z. filter (\<lambda>x. w_IsProfileDisabled w x = w_IsProfileDisabled w z
            \<and> \<not> ProfileIdComesBefore w action tests traffic z x \<and> \<not> ProfileIdComesBefore w action tests traffic x z) ys
          = filter (\<lambda>x. w_IsProfileDisabled w x = w_IsProfileDisabled w z
            \<and> \<not> ProfileIdComesBefore w action tests traffic z x \<and> \<not> ProfileIdComesBefore w action tests traffic x z) ids)
    \<and> SortProfileIdList w action tests traffic ys = ys"
proof -
  let ?lt = "ProfileIdComesBefore w action tests traffic" and ?dis = "w_IsProfileDisabled w"
  let ?E = "stableSort ?lt (enabledIds w ids)" and ?D = "stableSort ?lt (disabledIds w ids)"
  have parts: "ys = ?E @ ?D" using sort_parts [OF assms(1)] ys by simp
  have gone: "\<not> ?lt b a \<Longrightarrow> w_GetProfile w a = None \<Longrightarrow> w_GetProfile w b = None" for a b
    by (auto simp: ProfileIdComesBefore_def split: option.splits)
  have sorted: "sorted_wrt (\<lambda>a b. \<not> ?lt b a) ?E" "sorted_wrt (\<lambda>a b. \<not> ?lt b a) ?D"
    by (rule profileIdOrder.sorted_stableSort)+
  have order: "sorted_wrt (\<lambda>a b. ?dis a = ?dis b \<longrightarrow> \<not> ?lt b a \<and> (w_GetProfile w a = None \<longrightarrow> w_GetProfile w b = None)) ys"
    unfolding parts sorted_wrt_append using sorted gone by (auto elim!: sorted_wrt_mono_rel [rotated])
  have last: "sorted_wrt (\<lambda>a b. ?dis a \<longrightarrow> ?dis b) ys"
    unfolding parts sorted_wrt_append by (auto intro: sorted_wrt_all)
  have rank: "filter (\<lambda>x. ?dis x = ?dis z \<and> \<not> ?lt z x \<and> \<not> ?lt x z) l
      = filter (profileIdOrder.same_rank w action tests traffic z) (filter (\<lambda>x. ?dis x = ?dis z) l)" for z l
    by (auto simp: profileIdOrder.same_rank_def intro: filter_cong)
  have part: "filter (\<lambda>x. ?dis x = ?dis z) ys = stableSort ?lt (filter (\<lambda>x. ?dis x = ?dis z) ids)" for z
    using enabled_of_sorted [OF assms(1), of w tests traffic ids] ys by (cases "?dis z") simp_all
  have "filter (\<lambda>x. ?dis x = ?dis z \<and> \<not> ?lt z x \<and> \<not> ?lt x z) ys = filter (\<lambda>x. ?dis x = ?dis z \<and> \<not> ?lt z x \<and> \<not> ?lt x z) ids" for z
    unfolding rank part profileIdOrder.stable_stableSort ..
  then show ?thesis using order last sort_idem [of w action tests traffic ids] ys by simp
qed

definition demoMember :: GroupMember where
  "demoMember = \<lparr>gm_displayType = qs ''VLESS'', gm_name = qs ''a'', gm_displayAddress = qs ''1.1.1.1:443'',
     gm_security = \<lparr>sec_level = 3, sec_transport = [], sec_label = qs ''TLS''\<rparr>, gm_latency = 0, gm_performance_test_status = Untested,
     gm_ul_speed = [], gm_rx_speed_mbps = 0, gm_connect_time_ms = 0, gm_site_score = 0, gm_traffic_downlink = 0, gm_traffic_uplink = 0\<rparr>"

definition demoWorld :: SortWorld where
  "demoWorld = \<lparr>w_GetProfile = (\<lambda>id. if id = 9 then None else Some (demoMember\<lparr>gm_latency := 100 - 10 * id\<rparr>)),
     w_IsProfileDisabled = (\<lambda>id. id = 4), w_toDouble = (\<lambda>_. 0)\<rparr>"

theorem group_sort_stable_witness:
  "mset (SortProfileIdList demoWorld \<lparr>gs_method = ByLatency, gs_descending = False\<rparr> testSiteScore trafficTx [9, 1, 4, 2]) = {#1, 2, 4, 9 :: int#}
   \<and> SortProfileIdList demoWorld \<lparr>gs_method = ByLatency, gs_descending = False\<rparr> testSiteScore trafficTx [9, 1, 4, 2] = [2, 1, 9, 4]"
proof -
  have "SortProfileIdList demoWorld \<lparr>gs_method = ByLatency, gs_descending = False\<rparr> testSiteScore trafficTx [9, 1, 4, 2] = [2, 1, 9, 4]"
    by (simp add: SortProfileIdList_def demoWorld_def demoMember_def ProfileIdComesBefore_def profileComesBefore_def statusForSort_def
        valueForSort_def PerformanceComesBefore_def Let_def)
  then show ?thesis
    using group_sort_stable [of "\<lparr>gs_method = ByLatency, gs_descending = False\<rparr>" _ demoWorld testSiteScore trafficTx "[9, 1, 4, 2]"] by simp
qed

subsection \<open>Sorting while others change the group\<close>

lemma action_eq: "(a :: GroupSortAction) = b \<longleftrightarrow> gs_method a = gs_method b \<and> gs_descending a = gs_descending b"
  by (cases a; cases b) simp

text \<open>The result \<open>g'\<close> of a sort that read the snapshot \<open>s\<close> of the group and committed to \<open>h\<close>.\<close>

definition resortedFrom :: "SortWorld \<Rightarrow> Group \<Rightarrow> Group \<Rightarrow> Group \<Rightarrow> bool \<Rightarrow> bool" where
  "resortedFrom w s h g' moved \<longleftrightarrow>
     g' = h\<lparr>g_profiles := g_profiles g'\<rparr> \<and> mset (g_profiles g') = mset (g_profiles h) \<and> (\<not> moved \<longrightarrow> g' = h)
     \<and> (moved \<longrightarrow> g_profiles g' \<noteq> g_profiles h \<and> KeepsSorted g'
          \<and> g_profiles g' = SortProfileIdList w (g_sort g') (g_test_sort_by s) (g_traffic_sort_by s) (g_profiles h))"

lemma resort_attempts_outcome:
  assumes "resortAttempts as g = (g', moved)"
  shows "\<exists>k \<le> length as. (moved \<longrightarrow> 0 < k) \<and> resortedFrom (fst (as ! (k - 1))) (fold snd (take (k - 1) as) g) (fold snd (take k as) g) g' moved"
  using assms
proof (induction as arbitrary: g)
  case Nil
  then show ?case by (simp add: resortedFrom_def)
next
  case (Cons a as)
  obtain w others where a: "a = (w, others)" by (cases a)
  let ?after = "SortProfileIdList w (g_sort g) (g_test_sort_by g) (g_traffic_sort_by g) (g_profiles g)" and ?h = "others g"
  consider "\<not> KeepsSorted g"
    | "KeepsSorted g" "g_profiles ?h \<noteq> g_profiles g \<or> g_sort ?h \<noteq> g_sort g"
    | "KeepsSorted g" "g_profiles ?h = g_profiles g" "g_sort ?h = g_sort g" by blast
  then show ?case
  proof cases
    case 1
    then show ?thesis using Cons.prems by (intro exI [of _ 0]) (simp add: a resortedFrom_def)
  next
    case 2
    then have "resortAttempts as ?h = (g', moved)" using Cons.prems by (simp add: a Let_def action_eq split: if_splits)
    from Cons.IH [OF this] obtain k where k: "k \<le> length as" "moved \<longrightarrow> 0 < k"
      "resortedFrom (fst (as ! (k - 1))) (fold snd (take (k - 1) as) ?h) (fold snd (take k as) ?h) g' moved" by blast
    show ?thesis
    proof (cases k)
      case 0
      with k have "resortedFrom w g ?h g' moved" by (simp add: resortedFrom_def)
      then show ?thesis by (intro exI [of _ 1]) (simp add: a)
    next
      case (Suc j)
      with k show ?thesis by (intro exI [of _ "Suc k"]) (simp add: a)
    qed
  next
    case 3
    then have "(if g_profiles g = ?after then (?h, False) else (?h\<lparr>g_profiles := ?after\<rparr>, True)) = (g', moved)"
      using Cons.prems by (simp add: a Let_def)
    with 3 show ?thesis
      by (intro exI [of _ 1]) (auto simp: a KeepsSorted_def SortReads_def resortedFrom_def split: if_splits)
  qed
qed

text \<open>C16: re-applying a kept sort never undoes what another thread does to the group meanwhile. \<open>Resort\<close> ends within three attempts, and its
  result is the group as the other threads left it, untouched, or with the same profiles in the order of the sort that is set now; it reports a
  move exactly in the second case. With no interference one call brings the group into the order of its sort, and a second one moves nothing.\<close>

theorem resort_keeps_updates:
  assumes "Resort a1 a2 a3 g = (g', moved)" and as: "as = [a1, a2, a3]"
  shows "(\<exists>k \<le> 3. (moved \<longrightarrow> 0 < k) \<and> resortedFrom (fst (as ! (k - 1))) (fold snd (take (k - 1) as) g) (fold snd (take k as) g) g' moved)
     \<and> (snd a1 = id \<and> KeepsSorted g \<longrightarrow>
          g_profiles g' = SortProfileIdList (fst a1) (g_sort g) (g_test_sort_by g) (g_traffic_sort_by g) (g_profiles g)
          \<and> moved = (g_profiles g' \<noteq> g_profiles g) \<and> Resort a1 a2 a3 g' = (g', False))"
proof -
  let ?sorted = "SortProfileIdList (fst a1) (g_sort g) (g_test_sort_by g) (g_traffic_sort_by g)"
  have "resortAttempts [a1, a2, a3] h = (if g_profiles h = ?sorted (g_profiles h) then (h, False) else (h\<lparr>g_profiles := ?sorted (g_profiles h)\<rparr>, True))"
    if "snd a1 = id" "KeepsSorted g" "h = g\<lparr>g_profiles := ids\<rparr>" for h ids
    using that by (cases a1) (auto simp: Let_def KeepsSorted_def SortReads_def)
  from this [of g "g_profiles g"] this [of "g\<lparr>g_profiles := ?sorted (g_profiles g)\<rparr>"]
  have "snd a1 = id \<and> KeepsSorted g \<longrightarrow> g_profiles g' = ?sorted (g_profiles g)
      \<and> moved = (g_profiles g' \<noteq> g_profiles g) \<and> Resort a1 a2 a3 g' = (g', False)"
    using assms by (auto simp: Resort_def sort_idem split: if_splits)
  moreover have "length as = 3" by (simp add: as)
  ultimately show ?thesis using resort_attempts_outcome [OF assms(1) [unfolded Resort_def as [symmetric]]] by metis
qed

definition demoGroup :: Group where
  "demoGroup = \<lparr>g_profiles = [9, 1, 4, 2], g_sort = \<lparr>gs_method = ByLatency, gs_descending = False\<rparr>, g_test_sort_by = testSiteScore,
     g_traffic_sort_by = trafficTx\<rparr>"

theorem resort_keeps_updates_witness:
  "Resort (demoWorld, id) (demoWorld, id) (demoWorld, id) demoGroup = (demoGroup\<lparr>g_profiles := [2, 1, 9, 4]\<rparr>, True)
   \<and> Resort (demoWorld, id) (demoWorld, id) (demoWorld, id) (demoGroup\<lparr>g_profiles := [2, 1, 9, 4]\<rparr>)
       = (demoGroup\<lparr>g_profiles := [2, 1, 9, 4]\<rparr>, False)"
proof -
  have r: "Resort (demoWorld, id) (demoWorld, id) (demoWorld, id) demoGroup = (demoGroup\<lparr>g_profiles := [2, 1, 9, 4]\<rparr>, True)" "KeepsSorted demoGroup"
    by (simp_all add: Resort_def demoGroup_def KeepsSorted_def SortReads_def SortProfileIdList_def demoWorld_def demoMember_def ProfileIdComesBefore_def
        profileComesBefore_def statusForSort_def valueForSort_def PerformanceComesBefore_def Let_def)
  with resort_keeps_updates [OF r(1) refl] show ?thesis by (metis snd_conv)
qed

subsection \<open>When a sort is skipped\<close>

text \<open>\<open>changesOnly input w w'\<close>: the repositories changed only in what \<open>input\<close> names.\<close>

definition sameConfig :: "GroupMember \<Rightarrow> GroupMember \<Rightarrow> bool" where
  "sameConfig p q \<longleftrightarrow> gm_displayType p = gm_displayType q \<and> gm_name p = gm_name q \<and> gm_displayAddress p = gm_displayAddress q
     \<and> gm_security p = gm_security q"

definition sameTests :: "GroupMember \<Rightarrow> GroupMember \<Rightarrow> bool" where
  "sameTests p q \<longleftrightarrow> gm_latency p = gm_latency q \<and> gm_performance_test_status p = gm_performance_test_status q \<and> gm_ul_speed p = gm_ul_speed q
     \<and> gm_rx_speed_mbps p = gm_rx_speed_mbps q \<and> gm_connect_time_ms p = gm_connect_time_ms q \<and> gm_site_score p = gm_site_score q"

definition sameTraffic :: "GroupMember \<Rightarrow> GroupMember \<Rightarrow> bool" where
  "sameTraffic p q \<longleftrightarrow> gm_traffic_downlink p = gm_traffic_downlink q \<and> gm_traffic_uplink p = gm_traffic_uplink q"

definition changesOnly :: "SortInput \<Rightarrow> SortWorld \<Rightarrow> SortWorld \<Rightarrow> bool" where
  "changesOnly input w w' \<longleftrightarrow> w_IsProfileDisabled w' = w_IsProfileDisabled w \<and> w_toDouble w' = w_toDouble w
     \<and> (\<forall>id. rel_option (\<lambda>p q. (input = ConfigInput \<or> sameConfig p q) \<and> (input = TestResultInput \<or> sameTests p q)
          \<and> (input = TrafficInput \<or> sameTraffic p q)) (w_GetProfile w id) (w_GetProfile w' id))"

lemma unread_profile:
  assumes "\<not> SortReads g input" "input = ConfigInput \<or> (sameConfig p p' \<and> sameConfig q q')"
    "input = TestResultInput \<or> (sameTests p p' \<and> sameTests q q')" "input = TrafficInput \<or> (sameTraffic p p' \<and> sameTraffic q q')"
  shows "profileComesBefore rd (g_sort g) t tr p' q' = profileComesBefore rd (g_sort g) t tr p q"
proof (cases "gs_method (g_sort g)")
qed (use assms in \<open>simp_all add: SortReads_def profileComesBefore_def sameConfig_def sameTests_def sameTraffic_def statusForSort_def valueForSort_def
      Let_def split: testBy.splits\<close>)

text \<open>C36: a kept sort is left out only when it could not move anything. If \<open>SortReads\<close> says that the sort of a group does not read the kind of
  input that changed, then the group's order under the new data is its order under the old data, for every list of profiles.\<close>

theorem skipped_sort_moves_nothing:
  assumes "\<not> SortReads g input" "changesOnly input w w'"
  shows "SortProfileIdList w' (g_sort g) (g_test_sort_by g) (g_traffic_sort_by g) ids
       = SortProfileIdList w (g_sort g) (g_test_sort_by g) (g_traffic_sort_by g) ids"
proof -
  have "ProfileIdComesBefore w' (g_sort g) t tr a b = ProfileIdComesBefore w (g_sort g) t tr a b" for t tr a b
  proof -
    have "rel_option (\<lambda>p q. (input = ConfigInput \<or> sameConfig p q) \<and> (input = TestResultInput \<or> sameTests p q)
          \<and> (input = TrafficInput \<or> sameTraffic p q)) (w_GetProfile w id) (w_GetProfile w' id)" for id
      using assms(2) by (simp add: changesOnly_def)
    from this [of a] this [of b] show ?thesis
      using assms(2) unread_profile [OF assms(1), of "the (w_GetProfile w a)" "the (w_GetProfile w' a)" "the (w_GetProfile w b)"
          "the (w_GetProfile w' b)" "w_toDouble w" t tr]
      by (cases "w_GetProfile w a"; cases "w_GetProfile w' a"; cases "w_GetProfile w b"; cases "w_GetProfile w' b")
        (auto simp: ProfileIdComesBefore_def changesOnly_def)
  qed
  then have "ProfileIdComesBefore w' (g_sort g) t tr = ProfileIdComesBefore w (g_sort g) t tr" for t tr by blast
  with assms(2) show ?thesis by (simp add: SortProfileIdList_def changesOnly_def)
qed

theorem skipped_sort_moves_nothing_witness:
  "SortProfileIdList (demoWorld\<lparr>w_GetProfile := \<lambda>id. map_option (\<lambda>p. p\<lparr>gm_traffic_uplink := 7 * id\<rparr>) (w_GetProfile demoWorld id)\<rparr>)
     (g_sort demoGroup) testSiteScore trafficTx [9, 1, 4, 2] = SortProfileIdList demoWorld (g_sort demoGroup) testSiteScore trafficTx [9, 1, 4, 2]"
proof -
  have "\<not> SortReads demoGroup TrafficInput" by (simp add: SortReads_def demoGroup_def)
  moreover have "changesOnly TrafficInput demoWorld
      (demoWorld\<lparr>w_GetProfile := \<lambda>id. map_option (\<lambda>p. p\<lparr>gm_traffic_uplink := 7 * id\<rparr>) (w_GetProfile demoWorld id)\<rparr>)"
    by (simp add: changesOnly_def option.rel_map sameConfig_def sameTests_def option.rel_refl)
  ultimately show ?thesis using skipped_sort_moves_nothing [of demoGroup TrafficInput demoWorld _ "[9, 1, 4, 2]"] by (simp add: demoGroup_def)
qed

subsection \<open>No sort request is lost\<close>

definition sqInv :: "SortQueue \<Rightarrow> bool" where
  "sqInv q \<longleftrightarrow> length (sq_workers q) = (if sq_running q then 1 else 0) \<and> (sq_pending q \<noteq> [] \<longrightarrow> sq_running q)
     \<and> distinct (map fst (sq_pending q))"

lemma keys_pendingEntry: "set (map fst (pendingEntry gid f ps)) = insert gid (set (map fst ps))"
  by (induction ps rule: pendingEntry.induct) auto

lemma distinct_pendingEntry: "distinct (map fst ps) \<Longrightarrow> distinct (map fst (pendingEntry gid f ps))"
proof (induction gid f ps rule: pendingEntry.induct)
  case (2 gid f k p rest)
  then show ?case using keys_pendingEntry [of gid f rest] by auto
qed simp

lemma pendingEntry_ne [simp]: "pendingEntry gid f ps \<noteq> []"
  using keys_pendingEntry [of gid f ps] by auto

abbreviation worksFor :: "PendingSort \<Rightarrow> bool" where
  "worksFor p \<equiv> ps_full p \<or> ps_changed p \<noteq> {}"

lemma pendingEntry_mem: "\<exists>p. (gid, f p) \<in> set (pendingEntry gid f ps)"
  by (induction ps) (auto split: prod.splits)

lemma pendingEntry_works:
  assumes "full \<or> changed \<noteq> []"
  shows "\<exists>p. (gid, p) \<in> set (pendingEntry gid (mergeSort changed full) ps) \<and> worksFor p"
proof -
  have "worksFor (mergeSort changed full p)" for p using assms by (auto simp: mergeSort_def Let_def)
  then show ?thesis using pendingEntry_mem by metis
qed

lemma sqInv_one: "sqInv q \<Longrightarrow> i < length (sq_workers q) \<Longrightarrow> sq_running q \<and> i = 0 \<and> (\<exists>x. sq_workers q = [x])"
  by (cases "sq_workers q") (auto simp: sqInv_def split: if_splits)

lemma sqInv_drain: "sqInv q \<Longrightarrow> i < length (sq_workers q) \<Longrightarrow> sqInv (drainStep ho att i q)"
  by (frule (1) sqInv_one) (auto simp: sqInv_def drainStep_def removeAt_def split: SortWorker.splits list.splits prod.splits option.splits)

lemma sqInv_enqueue: "sqInv q \<Longrightarrow> sqInv (enqueueSort gid input changed full q)"
  by (auto simp: sqInv_def enqueueSort_def Let_def distinct_pendingEntry split: option.splits)

interpretation sortQueue: transition_system sq_init sq_step sqInv
proof
  show "sq_init q \<Longrightarrow> sqInv q" for q by (simp add: sq_init_def sqInv_def)
  show "sqInv q \<Longrightarrow> sq_step q r \<Longrightarrow> sqInv r" for q r
    by (erule sq_step.cases) (simp_all add: sqInv_enqueue sqInv_drain, simp add: sqInv_def)
qed

text \<open>\<open>workerStep\<close>: the one worker takes its next turn.\<close>

definition workerStep :: "((int \<times> PendingSort) list \<Rightarrow> (int \<times> PendingSort) list) \<Rightarrow> attempts \<Rightarrow> SortQueue \<Rightarrow> SortQueue \<Rightarrow> bool" where
  "workerStep ho att q r \<longleftrightarrow> sq_workers q \<noteq> [] \<and> r = drainStep ho att 0 q"

text \<open>What a worker does with its batch: it runs every sort with something to do, then comes back to the lock.\<close>

lemma sortGroup_log: "snd (sortGroup att gid p g) = (if worksFor p then [gid] else [])"
  by (simp add: sortGroup_def split: prod.split)

lemma drain_batch:
  "sq_workers q = [Sorting b m] \<Longrightarrow> \<exists>r. (workerStep ho att)\<^sup>*\<^sup>* q r \<and> sq_workers r = [AtLock] \<and> sq_pending r = sq_pending q
     \<and> dom (sq_groups r) = dom (sq_groups q)
     \<and> sq_resorts r = sq_resorts q @ map fst (filter (\<lambda>x. fst x \<in> dom (sq_groups q) \<and> worksFor (snd x)) b)"
proof (induction b arbitrary: q m)
  case Nil
  then have "workerStep ho att q (drainStep ho att 0 q)" by (simp add: workerStep_def)
  with Nil show ?case by (intro exI [of _ "drainStep ho att 0 q"]) (simp add: drainStep_def r_into_rtranclp)
next
  case (Cons x b)
  obtain gid p where x: "x = (gid, p)" by (cases x)
  let ?q = "drainStep ho att 0 q" and ?P = "\<lambda>x. fst x \<in> dom (sq_groups q) \<and> worksFor (snd x)"
  have step: "workerStep ho att q ?q" using Cons.prems by (simp add: workerStep_def)
  have "\<exists>m'. sq_workers ?q = [Sorting b m']" and q: "sq_pending ?q = sq_pending q" "dom (sq_groups ?q) = dom (sq_groups q)"
    "sq_resorts ?q = sq_resorts q @ (if ?P x then [gid] else [])"
    using Cons.prems by (simp_all add: drainStep_def x case_prod_beta sortGroup_log domIff insert_absorb split: option.split)
  then obtain m' where m': "sq_workers ?q = [Sorting b m']" by blast
  from Cons.IH [OF m'] obtain r where r: "(workerStep ho att)\<^sup>*\<^sup>* ?q r" "sq_workers r = [AtLock]" "sq_pending r = sq_pending q"
    "dom (sq_groups r) = dom (sq_groups q)" "sq_resorts r = sq_resorts ?q @ map fst (filter ?P b)" by (auto simp: q)
  from step r(1) have "(workerStep ho att)\<^sup>*\<^sup>* q r" by simp
  moreover have "sq_resorts r = sq_resorts q @ map fst (filter ?P (x # b))" using r(5) q(3) by (simp add: x)
  ultimately show ?case using r by blast
qed

lemma drain_from_lock:
  assumes "sq_workers q = [AtLock]" and ho: "\<And>ps. mset (ho ps) = mset ps"
  shows "\<exists>r. (workerStep ho att)\<^sup>*\<^sup>* q r \<and> sq_init r
     \<and> (\<exists>more. sq_resorts r = sq_resorts q @ more \<and> (\<forall>gid p. (gid, p) \<in> set (sq_pending q) \<and> gid \<in> dom (sq_groups q) \<and> worksFor p \<longrightarrow> gid \<in> set more))"
proof -
  have leave: "workerStep ho att r (r\<lparr>sq_running := False, sq_workers := []\<rparr>)" if "sq_workers r = [AtLock]" "sq_pending r = []" for r
    using that by (simp add: workerStep_def drainStep_def removeAt_def)
  show ?thesis
  proof (cases "sq_pending q = []")
    case True
    then show ?thesis using leave [OF assms(1)] by (intro exI [of _ "q\<lparr>sq_running := False, sq_workers := []\<rparr>"]) (auto simp: sq_init_def)
  next
    case False
    let ?q = "q\<lparr>sq_pending := [], sq_workers := [Sorting (ho (sq_pending q)) []]\<rparr>"
    have step: "workerStep ho att q ?q" using False assms(1) by (simp add: workerStep_def drainStep_def)
    have "sq_workers ?q = [Sorting (ho (sq_pending q)) []]" by simp
    from drain_batch [OF this, of ho att] obtain r where r: "(workerStep ho att)\<^sup>*\<^sup>* ?q r" "sq_workers r = [AtLock]" "sq_pending r = []"
      "sq_resorts r = sq_resorts q @ map fst (filter (\<lambda>x. fst x \<in> dom (sq_groups q) \<and> worksFor (snd x)) (ho (sq_pending q)))" by auto
    have same: "set (ho (sq_pending q)) = set (sq_pending q)" using ho by (metis set_mset_mset)
    have "(workerStep ho att)\<^sup>*\<^sup>* q (r\<lparr>sq_running := False, sq_workers := []\<rparr>)"
      using step r(1) leave [OF r(2,3)] by (meson converse_rtranclp_into_rtranclp rtranclp.rtrancl_into_rtrancl)
    then show ?thesis using r(3,4) same
      by (intro exI [of _ "r\<lparr>sq_running := False, sq_workers := []\<rparr>"]) (force simp: sq_init_def)
  qed
qed

text \<open>C21: no accepted request for a sort is lost. In every reachable state of the queue at most one thread sorts, and there is one whenever a
  request waits. If a change of a group that its kept sort reads is enqueued, in any state, then the turns of that thread alone lead to a state with
  an empty queue and no thread left, and on the way the group is sorted after the request was made.\<close>

theorem sort_request_served:
  assumes "sq_init q0" "sq_step\<^sup>*\<^sup>* q0 q" "sq_groups q gid = Some g" "SortReads g input" "full \<or> changed \<noteq> []"
    and "\<And>ps. mset (hashOrder ps) = mset ps"
  shows "length (sq_workers q) \<le> 1 \<and> (sq_pending q \<noteq> [] \<longrightarrow> length (sq_workers q) = 1)
    \<and> (\<exists>r more. (workerStep hashOrder att)\<^sup>*\<^sup>* (enqueueSort gid input changed full q) r \<and> sq_init r
         \<and> sq_resorts r = sq_resorts q @ more \<and> gid \<in> set more)"
proof -
  have inv: "sqInv q" using sortQueue.inv_reachable [OF assms(1,2)] .
  let ?q = "enqueueSort gid input changed full q"
  have inv': "sqInv ?q" using inv by (rule sqInv_enqueue)
  have "sq_pending ?q = pendingEntry gid (mergeSort changed full) (sq_pending q)" using assms(3,4) by (simp add: enqueueSort_def Let_def)
  then obtain p where p: "(gid, p) \<in> set (sq_pending ?q)" "worksFor p"
    using pendingEntry_works [OF assms(5), of gid "sq_pending q"] by metis
  have fields: "gid \<in> dom (sq_groups ?q)" "sq_resorts ?q = sq_resorts q" using assms(3,4) by (auto simp: enqueueSort_def Let_def)
  have "length (sq_workers ?q) = 1" using inv' p by (auto simp: sqInv_def)
  then obtain x where x: "sq_workers ?q = [x]" by (cases "sq_workers ?q") auto
  obtain r0 where r0: "(workerStep hashOrder att)\<^sup>*\<^sup>* ?q r0" "sq_workers r0 = [AtLock]" "sq_pending r0 = sq_pending ?q"
    "dom (sq_groups r0) = dom (sq_groups ?q)" "\<exists>more. sq_resorts r0 = sq_resorts q @ more"
  proof (cases x)
    case AtLock
    with that [of ?q] x fields(2) show ?thesis by simp
  next
    case (Sorting b m)
    then obtain r0 where "(workerStep hashOrder att)\<^sup>*\<^sup>* ?q r0" "sq_workers r0 = [AtLock]" "sq_pending r0 = sq_pending ?q"
      "dom (sq_groups r0) = dom (sq_groups ?q)" "\<exists>more. sq_resorts r0 = sq_resorts q @ more"
      using drain_batch [of ?q b m hashOrder att] x fields(2) by auto
    then show ?thesis by (rule that)
  qed
  obtain r more where r: "(workerStep hashOrder att)\<^sup>*\<^sup>* r0 r" "sq_init r" "sq_resorts r = sq_resorts r0 @ more" "gid \<in> set more"
    using drain_from_lock [OF r0(2) assms(6), of att] p fields(1) r0(3,4) by metis
  then have "\<exists>r more. (workerStep hashOrder att)\<^sup>*\<^sup>* ?q r \<and> sq_init r \<and> sq_resorts r = sq_resorts q @ more \<and> gid \<in> set more"
    using r0(1,5) rtranclp_trans [OF r0(1) r(1)] by fastforce
  then show ?thesis using inv by (simp add: sqInv_def)
qed

theorem sort_request_served_witness:
  "\<exists>r more. (workerStep (\<lambda>ps. ps) (\<lambda>_. ((demoWorld, id), (demoWorld, id), (demoWorld, id))))\<^sup>*\<^sup>*
      (enqueueSort 5 TestResultInput [1] False
        \<lparr>sq_pending = [], sq_running = False, sq_workers = [], sq_groups = (\<lambda>_. Some demoGroup), sq_events = [], sq_resorts = []\<rparr>) r
     \<and> sq_init r \<and> sq_resorts r = [] @ more \<and> 5 \<in> set more"
  using sort_request_served [of "\<lparr>sq_pending = [], sq_running = False, sq_workers = [], sq_groups = (\<lambda>_. Some demoGroup), sq_events = [], sq_resorts = []\<rparr>"
      "\<lparr>sq_pending = [], sq_running = False, sq_workers = [], sq_groups = (\<lambda>_. Some demoGroup), sq_events = [], sq_resorts = []\<rparr>"
      5 demoGroup TestResultInput False "[1]" "\<lambda>ps. ps" "\<lambda>_. ((demoWorld, id), (demoWorld, id), (demoWorld, id))"]
  by (simp add: sq_init_def SortReads_def demoGroup_def)

subsection \<open>The list operations\<close>

lemma mset_insertAt: "mset (insertAt i x xs) = add_mset x (mset xs)"
  by (metis append_take_drop_id insertAt_def mset_append mset.simps(2) union_mset_add_mset_right)

lemma length_insertAt [simp]: "length (insertAt i x xs) = Suc (length xs)"
  by (simp add: insertAt_def)

lemma length_removeAt [simp]: "i < length xs \<Longrightarrow> length (removeAt i xs) = length xs - 1"
  by (simp add: removeAt_def)

lemma mset_removeAt: "i < length xs \<Longrightarrow> add_mset (xs ! i) (mset (removeAt i xs)) = mset xs"
  by (metis removeAt_def id_take_nth_drop mset_append mset.simps(2) union_mset_add_mset_right)

lemma emplace_down: "i < j \<Longrightarrow> j < length xs \<Longrightarrow> removeAt i (insertAt (Suc j) (xs ! i) xs) = insertAt j (xs ! i) (removeAt i xs)"
  by (rule nth_equalityI) (auto simp: insertAt_def removeAt_def nth_append nth_Cons min_def split: nat.splits)

lemma emplace_up: "j \<le> i \<Longrightarrow> i < length xs \<Longrightarrow> removeAt (Suc i) (insertAt j (xs ! i) xs) = insertAt j (xs ! i) (removeAt i xs)"
  by (rule nth_equalityI) (auto simp: insertAt_def removeAt_def nth_append nth_Cons min_def split: nat.splits, simp add: Suc_diff_le add.commute, metis add_Suc)

lemma emplace_same: "i < length xs \<Longrightarrow> removeAt (Suc i) (insertAt (Suc i) x xs) = insertAt i (xs ! i) (removeAt i xs)"
  by (simp add: insertAt_def removeAt_def id_take_nth_drop [symmetric])

text \<open>Moving a profile takes it out and puts it back right behind the one that was at the target, or to the front for the target \<open>-1\<close>; no
  other two profiles change their order.\<close>

lemma emplace_moves:
  assumes "0 \<le> idx" "idx < int (length (g_profiles g))" "- 1 \<le> newIdx" "newIdx < int (length (g_profiles g))"
  shows "EmplaceProfile idx newIdx g = Some (g\<lparr>g_profiles :=
    insertAt (nat (if idx \<le> newIdx then newIdx else newIdx + 1)) (g_profiles g ! nat idx) (removeAt (nat idx) (g_profiles g))\<rparr>, True)"
proof -
  have suc: "nat (idx + 1) = Suc (nat idx)" "0 \<le> newIdx \<Longrightarrow> nat (newIdx + 1) = Suc (nat newIdx)" using assms by linarith+
  consider "idx < newIdx" | "idx = newIdx" | "newIdx < idx" by linarith
  then show ?thesis
  proof cases
    case 1
    with assms suc emplace_down [of "nat idx" "nat newIdx" "g_profiles g"] show ?thesis by (simp add: EmplaceProfile_def Let_def)
  next
    case 2
    with assms suc emplace_same [of "nat idx" "g_profiles g"] show ?thesis by (simp add: EmplaceProfile_def Let_def)
  next
    case 3
    then have "nat (newIdx + 1) \<le> nat idx" by linarith
    with 3 assms suc(1) emplace_up [of "nat (newIdx + 1)" "nat idx" "g_profiles g"] show ?thesis by (simp add: EmplaceProfile_def Let_def)
  qed
qed

text \<open>The operations other parts of the program perform on a group; \<open>ReplaceProfiles\<close> is meant to reorder, and a batch to bring new ids.\<close>

inductive group_step :: "Group \<Rightarrow> Group \<Rightarrow> bool" where
  group_add: "group_step g (fst (AddProfile ID g))"
| group_add_batch: "distinct IDs \<Longrightarrow> group_step g (fst (AddProfileBatch id IDs g))"
| group_remove: "group_step g (fst (RemoveProfile ID g))"
| group_remove_batch: "group_step g (fst (RemoveProfileBatch IDs g))"
| group_swap: "SwapProfiles i j g = Some r \<Longrightarrow> group_step g (fst r)"
| group_emplace: "EmplaceProfile i j g = Some r \<Longrightarrow> group_step g (fst r)"
| group_replace: "mset ids = mset (g_profiles g) \<Longrightarrow> group_step g (fst (ReplaceProfiles ids g))"
| group_set_sort: "group_step g (SetSort action g)"
| group_resort: "group_step g (fst (Resort (w, id) a2 a3 g))"

lemma swap_mset: "SwapProfiles i j g = Some r \<Longrightarrow> mset (g_profiles (fst r)) = mset (g_profiles g)"
  by (auto simp: SwapProfiles_def Let_def mset_swap split: if_splits)

lemma emplace_mset: "EmplaceProfile i j g = Some r \<Longrightarrow> mset (g_profiles (fst r)) = mset (g_profiles g)"
proof -
  assume r: "EmplaceProfile i j g = Some r"
  then consider "fst r = g" | "0 \<le> i" "i < int (length (g_profiles g))" "- 1 \<le> j" "j < int (length (g_profiles g))"
    by (auto simp: EmplaceProfile_def Let_def split: if_splits)
  then show ?thesis
  proof cases
    case 2
    then show ?thesis using r emplace_moves [OF 2] by (auto simp: mset_insertAt mset_removeAt)
  qed simp
qed

lemma resort_mset: "mset (g_profiles (fst (Resort (w, id) a2 a3 g))) = mset (g_profiles g)"
  by (simp add: Resort_def Let_def)

interpretation groupList: transition_system "\<lambda>g. distinct (g_profiles g)" group_step "\<lambda>g. distinct (g_profiles g)"
proof
  have same: "mset ys = mset xs \<Longrightarrow> distinct xs \<Longrightarrow> distinct ys" for xs ys :: "int list"
    using mset_eq_imp_distinct_iff by blast
  show "distinct (g_profiles g) \<Longrightarrow> group_step g h \<Longrightarrow> distinct (g_profiles h)" for g h
    by (erule group_step.cases)
      (auto simp: AddProfile_def HasProfile_def AddProfileBatch_def RemoveProfile_def RemoveProfileBatch_def ReplaceProfiles_def SetSort_def Let_def
        intro: same [OF swap_mset] same [OF emplace_mset] same [OF resort_mset] same)
qed simp

text \<open>A batch whose ids were already looked up when another thread adds one of them holds that profile twice: the set of known ids is built before
  the lock is taken.\<close>

lemma add_batch_race:
  "g_profiles (fst (AddProfileBatch (\<lambda>g. fst (AddProfile 7 g)) [7] (demoGroup\<lparr>g_profiles := [1]\<rparr>))) = [1, 7, 7]"
  by (simp add: AddProfileBatch_def AddProfile_def HasProfile_def)

end
