(* ===== verification/Group_Subscription.thy ===== *)
theory Group_Subscription
  imports Json_Values
begin

text \<open>
  What a group keeps about its subscription: \<open>SubUserInfo\<close> and \<open>SubscriptionOptions\<close> of \<^verbatim>\<open>src/src/database/entities/Group.cpp\<close> with their JSON, the reader of the
  \<open>Subscription-UserInfo\<close> header, and the decisions of \<^verbatim>\<open>src/src/configs/sub/GroupUpdater.cpp\<close> that depend on them: how often a group is updated on its own,
  and which device a request shows.

  A \<open>qint64\<close> is stored in JSON as an integer. The regular expression of the header reader is written out as the scan it performs: \<open>\\b\<close>, \<open>\\s\<close> and
  \<open>\\d\<close> are the ASCII classes, and no letter of the four names has a case variant outside ASCII. \<open>GetDeviceDetails\<close> and the default user agent are
  arguments.

  Results: both records survive their JSON; a header written as the providers write it is read back field by field; an update interval is
  between an hour and 366 days; automatic updates of a group are at least half an hour apart; no value with a line break or of excessive length
  reaches a device header.
\<close>

subsection \<open>The traffic and quota of a subscription\<close>

record SubUserInfo =
  si_valid :: bool
  si_has_quota :: bool
  si_upload :: int
  si_download :: int
  si_total :: int
  si_expire :: int
  si_title :: qstring
  si_web_url :: qstring
  si_support_url :: qstring
  si_announce :: qstring
  si_server_interval :: int

definition newSubUserInfo :: SubUserInfo where
  "newSubUserInfo = \<lparr>si_valid = False, si_has_quota = False, si_upload = 0, si_download = 0, si_total = 0, si_expire = 0, si_title = [],
     si_web_url = [], si_support_url = [], si_announce = [], si_server_interval = 0\<rparr>"

definition used :: "SubUserInfo \<Rightarrow> int" where
  "used i = si_upload i + si_download i"

definition remaining :: "SubUserInfo \<Rightarrow> int" where
  "remaining i = (if si_total i > used i then si_total i - used i else 0)"

definition percentUsed :: "SubUserInfo \<Rightarrow> rat" where
  "percentUsed i =
     (if si_total i \<le> 0 then 0
      else let r = doubleOf (used i) / doubleOf (si_total i);
               q = (if 0 \<le> r then toDouble r else - toDouble (- r)) * 100;
               p = (if 0 \<le> q then toDouble q else - toDouble (- q))
           in if p < 0 then 0 else if 100 < p then 100 else p)"

definition isExpired :: "int \<Rightarrow> SubUserInfo \<Rightarrow> bool" where
  "isExpired now i = (if si_expire i \<le> 0 then False else now > si_expire i)"

definition jint :: "int \<Rightarrow> json" where
  "jint n = JNum (of_int n)"

definition whenText :: "string \<Rightarrow> qstring \<Rightarrow> jobject" where
  "whenText k v = (if v \<noteq> [] then [(qs k, JStr v)] else [])"

definition whenTrue :: "string \<Rightarrow> bool \<Rightarrow> jobject" where
  "whenTrue k v = (if v then [(qs k, JBool True)] else [])"

definition whenSome :: "string \<Rightarrow> json option \<Rightarrow> jobject" where
  "whenSome k v = (case v of None \<Rightarrow> [] | Some j \<Rightarrow> [(qs k, j)])"

definition positive :: "int \<Rightarrow> json option" where
  "positive n = (if n > 0 then Some (jint n) else None)"

definition subInfoToJson :: "SubUserInfo \<Rightarrow> jobject" where
  "subInfoToJson i =
     (if \<not> si_valid i then []
      else [(qs ''valid'', JBool (si_valid i)), (qs ''has_quota'', JBool (si_has_quota i))]
        @ whenSome ''upload'' (positive (si_upload i))
        @ whenSome ''download'' (positive (si_download i))
        @ whenSome ''total'' (positive (si_total i))
        @ whenSome ''expire'' (positive (si_expire i))
        @ whenText ''title'' (si_title i)
        @ whenText ''web_url'' (si_web_url i)
        @ whenText ''support_url'' (si_support_url i)
        @ whenText ''announce'' (si_announce i)
        @ whenSome ''server_interval'' (positive (si_server_interval i)))"

text \<open>\<open>QVariant::toLongLong\<close> of a JSON value: an integer as it is, another number rounded, a bool as 0 or 1, a string if it reads as a number.\<close>

definition toVariantLongLong :: "json \<Rightarrow> int" where
  "toVariantLongLong v =
     (case v of
        JNum r \<Rightarrow> if 0 \<le> r then \<lfloor>r + 1 / 2\<rfloor> else - \<lfloor>1 / 2 - r\<rfloor>
      | JBool b \<Rightarrow> if b then 1 else 0
      | JStr s \<Rightarrow> (case toSigned 64 (trimmed s) of None \<Rightarrow> 0 | Some n \<Rightarrow> n)
      | _ \<Rightarrow> 0)"

definition subInfoFromJson :: "jobject \<Rightarrow> SubUserInfo" where
  "subInfoFromJson obj =
     (if obj = [] then newSubUserInfo
      else \<lparr>si_valid = jtoBool False (jat obj (qs ''valid'')), si_has_quota = jtoBool False (jat obj (qs ''has_quota'')),
            si_upload = toVariantLongLong (jat obj (qs ''upload'')), si_download = toVariantLongLong (jat obj (qs ''download'')),
            si_total = toVariantLongLong (jat obj (qs ''total'')), si_expire = toVariantLongLong (jat obj (qs ''expire'')),
            si_title = jtoString [] (jat obj (qs ''title'')), si_web_url = jtoString [] (jat obj (qs ''web_url'')),
            si_support_url = jtoString [] (jat obj (qs ''support_url'')), si_announce = jtoString [] (jat obj (qs ''announce'')),
            si_server_interval = jtoInt 0 (jat obj (qs ''server_interval''))\<rparr>)"

subsection \<open>The user-info header\<close>

datatype UserInfoKey = KeyUpload | KeyDownload | KeyTotal | KeyExpire

fun keyText :: "UserInfoKey \<Rightarrow> qstring" where
  "keyText KeyUpload = qs ''upload''"
| "keyText KeyDownload = qs ''download''"
| "keyText KeyTotal = qs ''total''"
| "keyText KeyExpire = qs ''expire''"

definition wordChar :: "qchar \<Rightarrow> bool" where
  "wordChar c \<longleftrightarrow> isDigit c \<or> (65 \<le> c \<and> c \<le> 90) \<or> (97 \<le> c \<and> c \<le> 122) \<or> c = 95"

definition reSpace :: "qchar \<Rightarrow> bool" where
  "reSpace c \<longleftrightarrow> (9 \<le> c \<and> c \<le> 13) \<or> c = 32"

definition reLower :: "qchar \<Rightarrow> qchar" where
  "reLower c = (if 65 \<le> c \<and> c \<le> 90 then c + 32 else c)"

text \<open>The expression behind the word boundary, at the start of \<open>s\<close> for one name: the digits and what follows them.\<close>

definition matchKey :: "UserInfoKey \<Rightarrow> qstring \<Rightarrow> (qstring \<times> qstring) option" where
  "matchKey k s =
     (let n = length (keyText k); r = dropWhile reSpace (drop n s); d = dropWhile reSpace (tl r)
      in if map reLower (take n s) = keyText k \<and> r \<noteq> [] \<and> hd r = 61 \<and> takeWhile isDigit d \<noteq> []
         then Some (takeWhile isDigit d, dropWhile isDigit d) else None)"

definition matchField :: "qstring \<Rightarrow> (UserInfoKey \<times> qstring \<times> qstring) option" where
  "matchField s = List.find (\<lambda>_. True) (List.map_filter (\<lambda>k. map_option (Pair k) (matchKey k s)) [KeyUpload, KeyDownload, KeyTotal, KeyExpire])"

lemma matchKey_shorter: "matchKey k s = Some (ds, rest) \<Longrightarrow> length rest < length s"
proof -
  assume m: "matchKey k s = Some (ds, rest)"
  let ?r = "dropWhile reSpace (drop (length (keyText k)) s)" and ?d = "dropWhile reSpace (tl (dropWhile reSpace (drop (length (keyText k)) s)))"
  have "?r \<noteq> []" "rest = dropWhile isDigit ?d" using m by (auto simp: matchKey_def Let_def split: if_splits)
  then have "length rest \<le> length (tl ?r)" by (meson le_trans length_dropWhile_le)
  moreover have "length ?r \<le> length s" by (metis diff_le_self le_trans length_drop length_dropWhile_le)
  ultimately show ?thesis using \<open>?r \<noteq> []\<close> by (cases ?r) auto
qed

lemma matchField_shorter: "matchField s = Some (k, ds, rest) \<Longrightarrow> length rest < length s"
  using matchKey_shorter by (fastforce simp: matchField_def List.map_filter_def split: if_splits option.splits)

text \<open>\<open>globalMatch\<close>: the matches from left to right, each search going on behind the last match. The flag says whether the unit before is a
  word character.\<close>

function scanFields :: "bool \<Rightarrow> qstring \<Rightarrow> (UserInfoKey \<times> qstring) list" where
  "scanFields inWord [] = []"
| "scanFields inWord (c # cs) =
     (case (if inWord then None else matchField (c # cs)) of
        Some (k, ds, rest) \<Rightarrow> (k, ds) # scanFields True rest
      | None \<Rightarrow> scanFields (wordChar c) cs)"
  by pat_completeness auto
termination
  by (relation "measure (\<lambda>(_, s). length s)") (auto dest: matchField_shorter split: if_splits)

definition applyField :: "UserInfoKey \<Rightarrow> int \<Rightarrow> SubUserInfo \<Rightarrow> SubUserInfo" where
  "applyField k v i =
     (case k of
        KeyUpload \<Rightarrow> i\<lparr>si_upload := v\<rparr>
      | KeyDownload \<Rightarrow> i\<lparr>si_download := v\<rparr>
      | KeyTotal \<Rightarrow> i\<lparr>si_total := v, si_has_quota := True\<rparr>
      | KeyExpire \<Rightarrow> i\<lparr>si_expire := (if v > 1000000000000 then v div 1000 else v)\<rparr>)\<lparr>si_valid := True\<rparr>"

definition fieldValue :: "qstring \<Rightarrow> int" where
  "fieldValue ds = (case toSigned 64 ds of None \<Rightarrow> 0 | Some n \<Rightarrow> n)"

definition ParseSubUserInfo :: "qstring \<Rightarrow> SubUserInfo" where
  "ParseSubUserInfo info = fold (\<lambda>(k, ds). applyField k (fieldValue ds)) (scanFields False info) newSubUserInfo"

subsection \<open>The options of a subscription\<close>

datatype sendHwid = keepDefault | hwidOn | hwidOff

datatype subTlsVersion = tlsAutomatic | tls12 | tls13

datatype subHttpVersion = httpAutomatic | http11

fun tlsInt :: "subTlsVersion \<Rightarrow> int" where
  "tlsInt tlsAutomatic = 0" | "tlsInt tls12 = 1" | "tlsInt tls13 = 2"

definition tlsOf :: "int \<Rightarrow> subTlsVersion" where
  "tlsOf n = (if n = 0 then tlsAutomatic else if n = 1 then tls12 else tls13)"

fun httpInt :: "subHttpVersion \<Rightarrow> int" where
  "httpInt httpAutomatic = 0" | "httpInt http11 = 1"

definition httpOf :: "int \<Rightarrow> subHttpVersion" where
  "httpOf n = (if n = 0 then httpAutomatic else http11)"

fun hwidInt :: "sendHwid \<Rightarrow> int" where
  "hwidInt keepDefault = 0" | "hwidInt hwidOn = 1" | "hwidInt hwidOff = 2"

record SubscriptionOptions =
  so_user_agent :: qstring
  so_tls_version :: "subTlsVersion option"
  so_http_version :: "subHttpVersion option"
  so_send_hwid :: sendHwid
  so_hwid :: qstring
  so_hwid_os :: qstring
  so_hwid_os_version :: qstring
  so_hwid_model :: qstring
  so_update_interval :: int
  so_respect_server_interval :: "bool option"
  so_keep_working :: bool
  so_remove_duplicates :: bool
  so_remove_insecure :: bool
  so_remove_invalid :: bool
  so_url_test :: bool
  so_remove_unavailable :: bool
  so_sort_by_latency :: bool

definition optionsToJson :: "SubscriptionOptions \<Rightarrow> jobject" where
  "optionsToJson opt =
     whenText ''user_agent'' (so_user_agent opt)
     @ whenSome ''tls_version'' (map_option (\<lambda>v. jint (tlsInt v)) (so_tls_version opt))
     @ whenSome ''http_version'' (map_option (\<lambda>v. jint (httpInt v)) (so_http_version opt))
     @ whenSome ''send_hwid'' (if so_send_hwid opt \<noteq> keepDefault then Some (jint (hwidInt (so_send_hwid opt))) else None)
     @ whenText ''hwid'' (so_hwid opt) @ whenText ''hwid_os'' (so_hwid_os opt)
     @ whenText ''hwid_os_version'' (so_hwid_os_version opt) @ whenText ''hwid_model'' (so_hwid_model opt)
     @ whenSome ''update_interval'' (positive (so_update_interval opt))
     @ whenSome ''respect_server_interval'' (map_option JBool (so_respect_server_interval opt))
     @ whenTrue ''keep_working'' (so_keep_working opt) @ whenTrue ''remove_duplicates'' (so_remove_duplicates opt)
     @ whenTrue ''remove_insecure'' (so_remove_insecure opt) @ whenTrue ''remove_invalid'' (so_remove_invalid opt)
     @ whenTrue ''url_test'' (so_url_test opt) @ whenTrue ''remove_unavailable'' (so_remove_unavailable opt)
     @ whenTrue ''sort_by_latency'' (so_sort_by_latency opt)"

definition optionsFromJson :: "jobject \<Rightarrow> SubscriptionOptions" where
  "optionsFromJson obj =
     (let tls = jtoInt (- 1) (jat obj (qs ''tls_version'')); http = jtoInt (- 1) (jat obj (qs ''http_version''));
          mode = jtoInt 0 (jat obj (qs ''send_hwid''))
      in \<lparr>so_user_agent = jtoString [] (jat obj (qs ''user_agent'')),
          so_tls_version = (if 0 \<le> tls \<and> tls \<le> tlsInt tls13 then Some (tlsOf tls) else None),
          so_http_version = (if 0 \<le> http \<and> http \<le> httpInt http11 then Some (httpOf http) else None),
          so_send_hwid = (if mode = hwidInt hwidOn then hwidOn else if mode = hwidInt hwidOff then hwidOff else keepDefault),
          so_hwid = jtoString [] (jat obj (qs ''hwid'')), so_hwid_os = jtoString [] (jat obj (qs ''hwid_os'')),
          so_hwid_os_version = jtoString [] (jat obj (qs ''hwid_os_version'')), so_hwid_model = jtoString [] (jat obj (qs ''hwid_model'')),
          so_update_interval = max (jtoInt 0 (jat obj (qs ''update_interval''))) 0,
          so_respect_server_interval = (case jat obj (qs ''respect_server_interval'') of JBool b \<Rightarrow> Some b | _ \<Rightarrow> None),
          so_keep_working = jtoBool False (jat obj (qs ''keep_working'')), so_remove_duplicates = jtoBool False (jat obj (qs ''remove_duplicates'')),
          so_remove_insecure = jtoBool False (jat obj (qs ''remove_insecure'')), so_remove_invalid = jtoBool False (jat obj (qs ''remove_invalid'')),
          so_url_test = jtoBool False (jat obj (qs ''url_test'')), so_remove_unavailable = jtoBool False (jat obj (qs ''remove_unavailable'')),
          so_sort_by_latency = jtoBool False (jat obj (qs ''sort_by_latency''))\<rparr>)"

subsection \<open>The identity a request shows\<close>

definition kMaxHeaderValue :: nat where "kMaxHeaderValue = 1000"

definition usableHeaderValue :: "qstring \<Rightarrow> bool" where
  "usableHeaderValue v \<longleftrightarrow> v \<noteq> [] \<and> length v < kMaxHeaderValue \<and> 10 \<notin> set v \<and> 13 \<notin> set v"

record DeviceDetails =
  dd_hwid :: qstring
  dd_os :: qstring
  dd_osVersion :: qstring
  dd_model :: qstring

definition hwidParam :: "qstring \<Rightarrow> DeviceDetails \<Rightarrow> DeviceDetails" where
  "hwidParam pair device =
     (let t = trimmed pair
      in case indexOf 61 t of
           None \<Rightarrow> device
         | Some 0 \<Rightarrow> device
         | Some eqPos \<Rightarrow>
             let key = toLower (trimmed (take eqPos t)); v = trimmed (drop (eqPos + 1) t)
             in if \<not> usableHeaderValue v then device
                else if key = qs ''hwid'' then device\<lparr>dd_hwid := v\<rparr>
                else if key = qs ''os'' then device\<lparr>dd_os := v\<rparr>
                else if key = qs ''osversion'' then device\<lparr>dd_osVersion := v\<rparr>
                else if key = qs ''model'' then device\<lparr>dd_model := v\<rparr>
                else device)"

definition applyCustomHwidParams :: "qstring \<Rightarrow> DeviceDetails \<Rightarrow> DeviceDetails" where
  "applyCustomHwidParams params device = fold hwidParam (qsplit 44 params) device"

record SubSettings =
  ss_userAgent :: qstring
  ss_sub_send_hwid :: bool
  ss_sub_custom_hwid_params :: qstring
  ss_sub_hwid :: qstring
  ss_sub_device_os :: qstring
  ss_sub_ver_os :: qstring
  ss_sub_device_model :: qstring
  ss_sub_tls_version :: int
  ss_sub_http_version :: int
  ss_sub_auto_update :: int
  ss_sub_respect_server_interval :: bool

record RequestIdentity =
  ri_userAgent :: qstring
  ri_sendHwid :: bool
  ri_device :: DeviceDetails
  ri_tlsVersion :: subTlsVersion
  ri_httpVersion :: subHttpVersion

definition takeUsable :: "qstring \<Rightarrow> qstring \<Rightarrow> qstring" where
  "takeUsable v old = (if usableHeaderValue v then v else old)"

definition clampInt :: "int \<Rightarrow> int \<Rightarrow> int \<Rightarrow> int" where
  "clampInt v lo hi = (if v < lo then lo else if hi < v then hi else v)"

definition overrideDevice :: "qstring \<Rightarrow> qstring \<Rightarrow> qstring \<Rightarrow> qstring \<Rightarrow> DeviceDetails \<Rightarrow> DeviceDetails" where
  "overrideDevice hwid os osVersion model d =
     \<lparr>dd_hwid = takeUsable hwid (dd_hwid d), dd_os = takeUsable os (dd_os d), dd_osVersion = takeUsable osVersion (dd_osVersion d),
      dd_model = takeUsable model (dd_model d)\<rparr>"

definition ResolveIdentity :: "DeviceDetails \<Rightarrow> SubSettings \<Rightarrow> SubscriptionOptions option \<Rightarrow> RequestIdentity" where
  "ResolveIdentity deviceDetails settings opts =
     (let glob = \<lparr>ri_userAgent = ss_userAgent settings, ri_sendHwid = ss_sub_send_hwid settings,
            ri_device = overrideDevice (ss_sub_hwid settings) (ss_sub_device_os settings) (ss_sub_ver_os settings) (ss_sub_device_model settings)
              (applyCustomHwidParams (ss_sub_custom_hwid_params settings) deviceDetails),
            ri_tlsVersion = tlsOf (clampInt (ss_sub_tls_version settings) 0 (tlsInt tls13)),
            ri_httpVersion = httpOf (clampInt (ss_sub_http_version settings) 0 (httpInt http11))\<rparr>
      in case opts of
           None \<Rightarrow> glob
         | Some opt \<Rightarrow>
             \<lparr>ri_userAgent = takeUsable (so_user_agent opt) (ri_userAgent glob),
              ri_sendHwid = (if so_send_hwid opt \<noteq> keepDefault then so_send_hwid opt = hwidOn else ri_sendHwid glob),
              ri_device = overrideDevice (so_hwid opt) (so_hwid_os opt) (so_hwid_os_version opt) (so_hwid_model opt) (ri_device glob),
              ri_tlsVersion = (case so_tls_version opt of None \<Rightarrow> ri_tlsVersion glob | Some v \<Rightarrow> v),
              ri_httpVersion = (case so_http_version opt of None \<Rightarrow> ri_httpVersion glob | Some v \<Rightarrow> v)\<rparr>)"

definition headerIf :: "string \<Rightarrow> qstring \<Rightarrow> (qstring \<times> qstring) list" where
  "headerIf name v = (if usableHeaderValue v then [(qs name, v)] else [])"

text \<open>Values before their encoding as UTF-8, which adds no line break.\<close>

definition identityHeaders :: "RequestIdentity \<Rightarrow> (qstring \<times> qstring) list" where
  "identityHeaders identity =
     (if \<not> ri_sendHwid identity then []
      else headerIf ''x-hwid'' (dd_hwid (ri_device identity)) @ headerIf ''x-device-os'' (dd_os (ri_device identity))
        @ headerIf ''x-ver-os'' (dd_osVersion (ri_device identity)) @ headerIf ''x-device-model'' (dd_model (ri_device identity)))"

subsection \<open>The interval of automatic updates\<close>

definition intervalUnit :: "qstring \<Rightarrow> qstring \<times> int" where
  "intervalUnit s =
     (if endsWith 104 s then (butlast s, 3600) else if endsWith 100 s then (butlast s, 86400) else if endsWith 115 s then (butlast s, 1) else (s, 3600))"

definition parseUpdateInterval :: "qstring \<Rightarrow> int" where
  "parseUpdateInterval raw =
     (let s0 = toLower (filter (\<lambda>c. c \<noteq> 39) (filter (\<lambda>c. c \<noteq> 34) (trimmed raw)));
          (s, unit) = intervalUnit s0;
          kMaxHours = 24 * 366
      in case toSigned 64 (trimmed s) of
           None \<Rightarrow> 0
         | Some v \<Rightarrow> if v \<le> 0 then 0 else clampInt (min v (kMaxHours * 3600) * unit div 3600) 1 kMaxHours)"

record SubGroup =
  sg_id :: int
  sg_url :: qstring
  sg_archive :: bool
  sg_skip_auto_update :: bool
  sg_sub_info :: SubUserInfo
  sg_sub_last_update :: int
  sg_sub_options :: SubscriptionOptions

datatype AutoUpdateSource = SourceOff | SourceGlobal | SourceGroup | SourceServer

record AutoUpdatePlan =
  ap_interval :: int
  ap_source :: AutoUpdateSource

definition ResolveAutoUpdate :: "SubSettings \<Rightarrow> SubGroup \<Rightarrow> AutoUpdatePlan" where
  "ResolveAutoUpdate settings g =
     (let opt = sg_sub_options g
      in if ss_sub_auto_update settings < 30 \<or> sg_url g = [] \<or> sg_archive g \<or> sg_skip_auto_update g
         then \<lparr>ap_interval = 0, ap_source = SourceOff\<rparr>
         else if (case so_respect_server_interval opt of None \<Rightarrow> ss_sub_respect_server_interval settings | Some b \<Rightarrow> b)
                 \<and> si_server_interval (sg_sub_info g) > 0
         then \<lparr>ap_interval = si_server_interval (sg_sub_info g) * 3600, ap_source = SourceServer\<rparr>
         else if so_update_interval opt > 0
         then \<lparr>ap_interval = max (so_update_interval opt) 30 * 60, ap_source = SourceGroup\<rparr>
         else \<lparr>ap_interval = ss_sub_auto_update settings * 60, ap_source = SourceGlobal\<rparr>)"

subsection \<open>The records survive their JSON\<close>

lemma jat_when [simp]:
  "jat (whenText k v @ xs) x = (if v \<noteq> [] \<and> x = qs k then JStr v else jat xs x)"
  "jat (whenTrue k b @ xs) x = (if b \<and> x = qs k then JBool True else jat xs x)"
  "jat (whenSome k z @ xs) x = (if z \<noteq> None \<and> x = qs k then the z else jat xs x)"
  "jat ((y, j) # xs) x = (if y = x then j else jat xs x)"
  "jat [] x = JNull"
  by (auto simp: jat_def whenText_def whenTrue_def whenSome_def split: option.split)

lemma jat_when_last [simp]:
  "jat (whenTrue k b) x = (if b \<and> x = qs k then JBool True else JNull)"
  "jat (whenSome k z) x = (if z \<noteq> None \<and> x = qs k then the z else JNull)"
  using jat_when(2) [of k b "[]"] jat_when(3) [of k z "[]"] by simp_all

lemma jint_back [simp]: "isInt32 n \<Longrightarrow> jtoInt d (jint n) = n" "toVariantLongLong (jint n) = n"
proof -
  show "isInt32 n \<Longrightarrow> jtoInt d (jint n) = n" by (simp add: jint_def)
  have "\<lfloor>of_int m + 1 / 2 :: rat\<rfloor> = m" for m by (rule floor_unique) simp_all
  from this [of n] this [of "- n"] show "toVariantLongLong (jint n) = n"
    by (simp add: toVariantLongLong_def jint_def add.commute)
qed

lemma tls_back [simp]: "tlsOf (tlsInt v) = v" "0 \<le> tlsInt v" "tlsInt v \<le> 2" "isInt32 (tlsInt v)"
  by (cases v; simp add: tlsOf_def isInt32_def)+

lemma http_back [simp]: "httpOf (httpInt v) = v" "0 \<le> httpInt v" "httpInt v \<le> 1" "isInt32 (httpInt v)"
  by (cases v; simp add: httpOf_def isInt32_def)+

lemma hwid_back: "isInt32 (hwidInt v)"
  by (cases v) (simp_all add: isInt32_def)

lemma options_read:
  "jat (optionsToJson opt) (qs ''user_agent'') = (if so_user_agent opt \<noteq> [] then JStr (so_user_agent opt) else JNull)"
  "jat (optionsToJson opt) (qs ''hwid'') = (if so_hwid opt \<noteq> [] then JStr (so_hwid opt) else JNull)"
  "jat (optionsToJson opt) (qs ''hwid_os'') = (if so_hwid_os opt \<noteq> [] then JStr (so_hwid_os opt) else JNull)"
  "jat (optionsToJson opt) (qs ''hwid_os_version'') = (if so_hwid_os_version opt \<noteq> [] then JStr (so_hwid_os_version opt) else JNull)"
  "jat (optionsToJson opt) (qs ''hwid_model'') = (if so_hwid_model opt \<noteq> [] then JStr (so_hwid_model opt) else JNull)"
  "jat (optionsToJson opt) (qs ''keep_working'') = (if so_keep_working opt then JBool True else JNull)"
  "jat (optionsToJson opt) (qs ''remove_duplicates'') = (if so_remove_duplicates opt then JBool True else JNull)"
  "jat (optionsToJson opt) (qs ''remove_insecure'') = (if so_remove_insecure opt then JBool True else JNull)"
  "jat (optionsToJson opt) (qs ''remove_invalid'') = (if so_remove_invalid opt then JBool True else JNull)"
  "jat (optionsToJson opt) (qs ''url_test'') = (if so_url_test opt then JBool True else JNull)"
  "jat (optionsToJson opt) (qs ''remove_unavailable'') = (if so_remove_unavailable opt then JBool True else JNull)"
  "jat (optionsToJson opt) (qs ''sort_by_latency'') = (if so_sort_by_latency opt then JBool True else JNull)"
  "jat (optionsToJson opt) (qs ''tls_version'') = (if map_option (\<lambda>v. jint (tlsInt v)) (so_tls_version opt) \<noteq> None then the (map_option (\<lambda>v. jint (tlsInt v)) (so_tls_version opt)) else JNull)"
  "jat (optionsToJson opt) (qs ''http_version'') = (if map_option (\<lambda>v. jint (httpInt v)) (so_http_version opt) \<noteq> None then the (map_option (\<lambda>v. jint (httpInt v)) (so_http_version opt)) else JNull)"
  "jat (optionsToJson opt) (qs ''respect_server_interval'') = (if map_option JBool (so_respect_server_interval opt) \<noteq> None then the (map_option JBool (so_respect_server_interval opt)) else JNull)"
  "jat (optionsToJson opt) (qs ''update_interval'') = (if positive (so_update_interval opt) \<noteq> None then the (positive (so_update_interval opt)) else JNull)"
  "jat (optionsToJson opt) (qs ''send_hwid'') = (if so_send_hwid opt \<noteq> keepDefault then jint (hwidInt (so_send_hwid opt)) else JNull)"
  by (simp add: optionsToJson_def)+

lemma json_defaults [simp]: "jtoInt d JNull = d" "jtoString v JNull = v" "jtoBool b JNull = b" "toVariantLongLong JNull = 0"
  "jtoString v (JStr t) = t" "jtoBool b (JBool c) = c"
  by (simp_all add: jtoInt_def jtoString_def jtoBool_def toVariantLongLong_def)

text \<open>The options of a subscription that are written to the database are the options that are read back, empty overrides, unset choices and
  a zero interval included.\<close>

theorem options_json_roundtrip:
  assumes "0 \<le> so_update_interval opt" "isInt32 (so_update_interval opt)"
  shows "optionsFromJson (optionsToJson opt) = opt"
proof (rule SubscriptionOptions.equality)
  show "so_tls_version (optionsFromJson (optionsToJson opt)) = so_tls_version opt"
    unfolding optionsFromJson_def Let_def options_read by (cases "so_tls_version opt") simp_all
  show "so_http_version (optionsFromJson (optionsToJson opt)) = so_http_version opt"
    unfolding optionsFromJson_def Let_def options_read by (cases "so_http_version opt") simp_all
  show "so_send_hwid (optionsFromJson (optionsToJson opt)) = so_send_hwid opt"
    unfolding optionsFromJson_def Let_def options_read using hwid_back [of "so_send_hwid opt"] by (cases "so_send_hwid opt") simp_all
  show "so_update_interval (optionsFromJson (optionsToJson opt)) = so_update_interval opt"
    unfolding optionsFromJson_def Let_def options_read using assms by (simp add: positive_def)
  show "so_respect_server_interval (optionsFromJson (optionsToJson opt)) = so_respect_server_interval opt"
    unfolding optionsFromJson_def Let_def options_read by (cases "so_respect_server_interval opt") simp_all
qed (unfold optionsFromJson_def Let_def options_read, simp_all)

definition demoOptions :: SubscriptionOptions where
  "demoOptions = \<lparr>so_user_agent = [], so_tls_version = Some tls12, so_http_version = None, so_send_hwid = hwidOff, so_hwid = qs ''h'', so_hwid_os = [],
     so_hwid_os_version = [], so_hwid_model = [], so_update_interval = 45, so_respect_server_interval = Some False, so_keep_working = True,
     so_remove_duplicates = False, so_remove_insecure = True, so_remove_invalid = False, so_url_test = False, so_remove_unavailable = False,
     so_sort_by_latency = True\<rparr>"

theorem options_json_roundtrip_witness: "optionsFromJson (optionsToJson demoOptions) = demoOptions"
  using options_json_roundtrip [of demoOptions] by (simp add: demoOptions_def isInt32_def)

lemma info_read:
  "si_valid i \<Longrightarrow> jat (subInfoToJson i) (qs ''upload'') = (if positive (si_upload i) \<noteq> None then the (positive (si_upload i)) else JNull)"
  "si_valid i \<Longrightarrow> jat (subInfoToJson i) (qs ''download'') = (if positive (si_download i) \<noteq> None then the (positive (si_download i)) else JNull)"
  "si_valid i \<Longrightarrow> jat (subInfoToJson i) (qs ''total'') = (if positive (si_total i) \<noteq> None then the (positive (si_total i)) else JNull)"
  "si_valid i \<Longrightarrow> jat (subInfoToJson i) (qs ''expire'') = (if positive (si_expire i) \<noteq> None then the (positive (si_expire i)) else JNull)"
  "si_valid i \<Longrightarrow> jat (subInfoToJson i) (qs ''server_interval'') = (if positive (si_server_interval i) \<noteq> None then the (positive (si_server_interval i)) else JNull)"
  "si_valid i \<Longrightarrow> jat (subInfoToJson i) (qs ''title'') = (if si_title i \<noteq> [] then JStr (si_title i) else JNull)"
  "si_valid i \<Longrightarrow> jat (subInfoToJson i) (qs ''web_url'') = (if si_web_url i \<noteq> [] then JStr (si_web_url i) else JNull)"
  "si_valid i \<Longrightarrow> jat (subInfoToJson i) (qs ''support_url'') = (if si_support_url i \<noteq> [] then JStr (si_support_url i) else JNull)"
  "si_valid i \<Longrightarrow> jat (subInfoToJson i) (qs ''announce'') = (if si_announce i \<noteq> [] then JStr (si_announce i) else JNull)"
  "si_valid i \<Longrightarrow> jat (subInfoToJson i) (qs ''valid'') = JBool (si_valid i)"
  "si_valid i \<Longrightarrow> jat (subInfoToJson i) (qs ''has_quota'') = JBool (si_has_quota i)"
  by (simp add: subInfoToJson_def)+

lemma info_json_roundtrip:
  assumes "si_valid i" "0 \<le> si_upload i" "0 \<le> si_download i" "0 \<le> si_total i" "0 \<le> si_expire i" "0 \<le> si_server_interval i" "isInt32 (si_server_interval i)"
  shows "subInfoFromJson (subInfoToJson i) = i"
proof -
  have "subInfoToJson i \<noteq> []" using assms(1) by (simp add: subInfoToJson_def)
  moreover have "toVariantLongLong (if positive n \<noteq> None then the (positive n) else JNull) = n" if "0 \<le> n" for n
    using that by (simp add: positive_def)
  moreover have "jtoInt 0 (if positive n \<noteq> None then the (positive n) else JNull) = n" if "0 \<le> n" "isInt32 n" for n
    using that by (simp add: positive_def)
  moreover have "jtoString [] (if v \<noteq> [] then JStr v else JNull) = v" for v by simp
  ultimately show ?thesis unfolding subInfoFromJson_def info_read [OF assms(1)] using assms by simp
qed

subsection \<open>Reading the user-info header\<close>

text \<open>The header as providers send it: \<open>upload=1; download=2; total=3; expire=4\<close>.\<close>

definition fieldText :: "UserInfoKey \<times> nat \<Rightarrow> qstring" where
  "fieldText f = keyText (fst f) @ [61] @ number (snd f)"

definition headerText :: "(UserInfoKey \<times> nat) list \<Rightarrow> qstring" where
  "headerText fs = qjoin (qs ''; '') (map fieldText fs)"

lemma takeWhile_digits: "\<forall>c \<in> set ds. isDigit c \<Longrightarrow> (rest = [] \<or> \<not> isDigit (hd rest)) \<Longrightarrow>
  takeWhile isDigit (ds @ rest) = ds \<and> dropWhile isDigit (ds @ rest) = rest"
  by (cases rest) auto

lemma number_starts: "\<exists>c cs. number n = c # cs \<and> isDigit c"
proof -
  have "number n \<noteq> []" by (simp add: number_base.simps)
  then obtain c cs where "number n = c # cs" by (cases "number n") auto
  then show ?thesis using set_number_digits [of c n] by simp
qed

lemma matchKey_field:
  assumes "rest = [] \<or> \<not> isDigit (hd rest)"
  shows "matchKey k (keyText k @ [61] @ number n @ rest) = Some (number n, rest)"
proof -
  obtain c cs where n: "number n = c # cs" "isDigit c" using number_starts by blast
  then have "\<not> reSpace c" by (auto simp: isDigit_def reSpace_def)
  then have "dropWhile reSpace (number n @ rest) = number n @ rest" by (simp add: n)
  moreover have "map reLower (keyText k) = keyText k" by (cases k) (simp_all add: reLower_def)
  moreover have "takeWhile isDigit (number n @ rest) = number n" "dropWhile isDigit (number n @ rest) = rest"
    using takeWhile_digits [OF _ assms, of "number n"] set_number_digits by blast+
  ultimately show ?thesis using n(1) by (simp add: matchKey_def Let_def reSpace_def)
qed

lemma matchKey_other: "k' \<noteq> k \<Longrightarrow> matchKey k' (keyText k @ [61] @ rest) = None"
  by (cases k; cases k') (simp_all add: matchKey_def reLower_def Let_def)

lemma matchField_field:
  assumes "rest = [] \<or> \<not> isDigit (hd rest)"
  shows "matchField (keyText k @ [61] @ number n @ rest) = Some (k, number n, rest)"
proof -
  define t where "t = keyText k @ [61] @ number n @ rest"
  have hit: "matchKey k t = Some (number n, rest)" unfolding t_def by (rule matchKey_field [OF assms])
  have miss: "matchKey k' t = None" if "k' \<noteq> k" for k' unfolding t_def by (rule matchKey_other [OF that])
  have "matchField t = Some (k, number n, rest)"
    by (cases k) (use hit miss in \<open>simp_all add: matchField_def List.map_filter_def\<close>)
  then show ?thesis by (simp add: t_def)
qed

lemma matchField_blank:
  assumes "c \<in> {59, 32}"
  shows "matchField (c # s) = None"
proof -
  have "map reLower (take (length (keyText k)) (c # s)) \<noteq> keyText k" for k using assms by (cases k) (auto simp: reLower_def)
  then have "matchKey k (c # s) = None" for k by (simp add: matchKey_def del: take_Cons_numeral)
  then show ?thesis by (simp add: matchField_def List.map_filter_def)
qed

lemma scan_field:
  assumes "rest = [] \<or> \<not> isDigit (hd rest)"
  shows "scanFields False (keyText k @ [61] @ number n @ rest) = (k, number n) # scanFields True rest"
proof -
  obtain c cs where "keyText k @ [61] @ number n @ rest = c # cs" by (cases k) auto
  then show ?thesis using matchField_field [OF assms, of k n] by (simp only: scanFields.simps) simp
qed

lemma scan_header: "scanFields False (headerText fs) = map (\<lambda>(k, n). (k, number n)) fs"
proof (induction fs)
  case (Cons f fs)
  obtain k n where f: "f = (k, n)" by (cases f)
  show ?case
  proof (cases fs)
    case Nil
    then show ?thesis using scan_field [of "[]" k n] by (simp add: headerText_def fieldText_def f)
  next
    case (Cons g gs)
    have "headerText (f # fs) = keyText k @ [61] @ number n @ (59 # 32 # headerText fs)"
      by (simp add: headerText_def fieldText_def f Cons)
    then have "scanFields False (headerText (f # fs)) = (k, number n) # scanFields True (59 # 32 # headerText fs)"
      using scan_field [of "59 # 32 # headerText fs" k n] by (simp add: isDigit_def)
    also have "scanFields True (59 # 32 # headerText fs) = scanFields False (headerText fs)"
      using matchField_blank [of 32 "headerText fs"] by (simp add: wordChar_def isDigit_def)
    finally show ?thesis using Cons.IH by (simp add: f)
  qed
qed (simp add: headerText_def)

lemma applyField_flags: "si_valid (applyField k v i)" "si_has_quota (applyField k v i) = (si_has_quota i \<or> k = KeyTotal)"
  by (cases k; simp add: applyField_def)+

lemma apply_all_flags:
  "si_valid (fold (\<lambda>(k, n). applyField k (int n)) fs i) = (si_valid i \<or> fs \<noteq> [])"
  "si_has_quota (fold (\<lambda>(k, n). applyField k (int n)) fs i) = (si_has_quota i \<or> KeyTotal \<in> fst ` set fs)"
proof (induction fs arbitrary: i)
  case (Cons f fs)
  case 1
  show ?case using Cons.IH(1) [of "applyField (fst f) (int (snd f)) i"] by (simp add: case_prod_beta applyField_flags)
  case 2
  show ?case using Cons.IH(2) [of "applyField (fst f) (int (snd f)) i"] by (simp add: case_prod_beta applyField_flags disj_ac eq_commute [of KeyTotal])
qed simp_all

text \<open>The header with the traffic and the quota of a subscription is read field by field. For every list of fields, in any order and with
  repetitions, the reader applies exactly these fields and values; an expiry in milliseconds becomes seconds, and a quota is noted exactly if the
  header names a total.\<close>

theorem user_info_header_read:
  assumes "\<forall>f \<in> set fs. snd f < 2 ^ 63"
  shows "ParseSubUserInfo (headerText fs) = fold (\<lambda>(k, n). applyField k (int n)) fs newSubUserInfo
    \<and> si_valid (ParseSubUserInfo (headerText fs)) = (fs \<noteq> [])
    \<and> si_has_quota (ParseSubUserInfo (headerText fs)) = (KeyTotal \<in> fst ` set fs)"
proof -
  have v: "fieldValue (number n) = int n" if "n < 2 ^ 63" for n
  proof -
    have "int n < 2 ^ 63" using that by (metis of_nat_less_numeral_power_cancel_iff)
    then show ?thesis using toSigned_number [of "int n" 64] by (simp add: fieldValue_def numberInt_def)
  qed
  have "fold (\<lambda>(k, ds). applyField k (fieldValue ds)) (map (\<lambda>(k, n). (k, number n)) fs) i = fold (\<lambda>(k, n). applyField k (int n)) fs i" for i
    unfolding fold_map using assms by (intro fold_cong) (auto simp: v)
  then have p: "ParseSubUserInfo (headerText fs) = fold (\<lambda>(k, n). applyField k (int n)) fs newSubUserInfo"
    by (simp add: ParseSubUserInfo_def scan_header)
  then show ?thesis by (simp add: p apply_all_flags newSubUserInfo_def)
qed

theorem user_info_header_read_witness:
  "ParseSubUserInfo (headerText [(KeyUpload, 5), (KeyTotal, 100), (KeyExpire, 1700000000000)])
     = newSubUserInfo\<lparr>si_valid := True, si_has_quota := True, si_upload := 5, si_total := 100, si_expire := 1700000000\<rparr>"
  using user_info_header_read [of "[(KeyUpload, 5), (KeyTotal, 100), (KeyExpire, 1700000000000)]"]
  by (simp add: applyField_def newSubUserInfo_def)

subsection \<open>Headers and intervals\<close>

text \<open>C38: no request carries a device header with a line break or of excessive length. Whatever the settings, the custom parameters, the
  group's options and the device report, each of the device headers is sent at most once, only if the group or the settings ask for it, and
  with a value that is not empty, shorter than 1000 units and free of carriage returns and line feeds.\<close>

theorem device_headers_safe:
  "let identity = ResolveIdentity device settings opts; headers = identityHeaders identity in
     distinct (map fst headers)
     \<and> (\<forall>h \<in> set headers. snd h \<noteq> [] \<and> length (snd h) < 1000 \<and> 10 \<notin> set (snd h) \<and> 13 \<notin> set (snd h))
     \<and> (headers \<noteq> [] \<longrightarrow> (case opts of None \<Rightarrow> ss_sub_send_hwid settings
          | Some opt \<Rightarrow> so_send_hwid opt = hwidOn \<or> (so_send_hwid opt = keepDefault \<and> ss_sub_send_hwid settings)))"
proof -
  have "distinct (map fst (identityHeaders i))" for i by (simp add: identityHeaders_def headerIf_def)
  moreover have "snd h \<noteq> [] \<and> length (snd h) < 1000 \<and> 10 \<notin> set (snd h) \<and> 13 \<notin> set (snd h)" if "h \<in> set (identityHeaders i)" for h i
    using that by (auto simp: identityHeaders_def headerIf_def usableHeaderValue_def kMaxHeaderValue_def split: if_splits)
  moreover have "identityHeaders i \<noteq> [] \<Longrightarrow> ri_sendHwid i" for i by (cases "ri_sendHwid i") (simp_all add: identityHeaders_def)
  moreover have "ri_sendHwid (ResolveIdentity device settings opts) \<longleftrightarrow> (case opts of None \<Rightarrow> ss_sub_send_hwid settings
      | Some opt \<Rightarrow> so_send_hwid opt = hwidOn \<or> (so_send_hwid opt = keepDefault \<and> ss_sub_send_hwid settings))"
    by (auto simp: ResolveIdentity_def Let_def split: option.splits)
  ultimately show ?thesis unfolding Let_def by blast
qed

theorem device_headers_safe_witness:
  "let headers = identityHeaders (ResolveIdentity \<lparr>dd_hwid = qs ''a'', dd_os = [10], dd_osVersion = [], dd_model = qs ''m''\<rparr>
        \<lparr>ss_userAgent = [], ss_sub_send_hwid = True, ss_sub_custom_hwid_params = [], ss_sub_hwid = [], ss_sub_device_os = [13], ss_sub_ver_os = [],
         ss_sub_device_model = qs ''n'', ss_sub_tls_version = 0, ss_sub_http_version = 0, ss_sub_auto_update = 0,
         ss_sub_respect_server_interval = False\<rparr> None) in
   headers = [(qs ''x-hwid'', qs ''a''), (qs ''x-device-model'', qs ''n'')] \<and> distinct (map fst headers)"
  using device_headers_safe [of "\<lparr>dd_hwid = qs ''a'', dd_os = [10], dd_osVersion = [], dd_model = qs ''m''\<rparr>"
      "\<lparr>ss_userAgent = [], ss_sub_send_hwid = True, ss_sub_custom_hwid_params = [], ss_sub_hwid = [], ss_sub_device_os = [13], ss_sub_ver_os = [],
         ss_sub_device_model = qs ''n'', ss_sub_tls_version = 0, ss_sub_http_version = 0, ss_sub_auto_update = 0,
         ss_sub_respect_server_interval = False\<rparr>" None]
  by (simp add: ResolveIdentity_def identityHeaders_def headerIf_def overrideDevice_def takeUsable_def usableHeaderValue_def kMaxHeaderValue_def
      applyCustomHwidParams_def hwidParam_def trimmed_def)

lemma update_interval_range: "parseUpdateInterval raw = 0 \<or> (1 \<le> parseUpdateInterval raw \<and> parseUpdateInterval raw \<le> 24 * 366)"
  unfolding parseUpdateInterval_def Let_def case_prod_beta by (auto simp: clampInt_def split: option.split)

lemma auto_update_interval: "ap_interval (ResolveAutoUpdate settings g) = 0 \<or> 1800 \<le> ap_interval (ResolveAutoUpdate settings g)"
  by (auto simp: ResolveAutoUpdate_def Let_def)

end
