(* ===== verification/Update_Queue.thy ===== *)
theory Update_Queue
  imports Group_Subscription
begin

text \<open>
  The job queue of \<^verbatim>\<open>src/src/configs/sub/GroupUpdater.cpp\<close>: refreshes and imports run one at a time on a background thread, callers that want the outcome
  of a refresh wait for the job of their group, and the schedule of automatic updates feeds the queue.

  \<open>GroupUpdater\<close> is the state under the mutex, with the worker threads and three records of calls: the finish callbacks, the outcomes asked for and
  the outcomes told. A callback is a number; what it does by calling back into the updater is another step. A step of the machine is a
  critical section of an operation or one turn of a worker: taking a job, running it (with a result, or \<open>None\<close> when it throws) and its finish
  callback, the second critical section, one delivery. What a refresh downloads and stores is its result. Delivering a missing outcome would
  dereference a null pointer, so it sets \<open>gu_crashed\<close>.

  Results: at most one thread works and at most one job per group is queued or running, \<open>IsBusy\<close> and \<open>IsIdle\<close> say exactly that, and nothing
  crashes; the worker comes to rest on its own, and then every outcome asked for was told exactly once, with the outcome of that group;
  automatic updates of a group are at least half an hour apart.
\<close>

datatype UpdateFailure = FailNone | FailNoGroup | FailFetch | FailEmpty | FailDatabase | FailInternal

record UpdateOutcome =
  uo_gid :: int
  uo_failure :: UpdateFailure
  uo_error :: qstring

definition groupUpdaterFailure :: "int \<Rightarrow> UpdateFailure \<Rightarrow> qstring \<Rightarrow> UpdateOutcome" where
  "groupUpdaterFailure gid failure error = \<lparr>uo_gid = gid, uo_failure = failure, uo_error = error\<rparr>"

definition groupUpdaterMissingGroup :: "int \<Rightarrow> UpdateOutcome" where
  "groupUpdaterMissingGroup gid = groupUpdaterFailure gid FailNoGroup (qs ''The group no longer exists.'')"

definition groupUpdaterUnfinished :: "int \<Rightarrow> qstring \<Rightarrow> UpdateOutcome" where
  "groupUpdaterUnfinished gid error = groupUpdaterFailure gid FailInternal error"

record Job =
  j_gid :: int
  j_batch :: bool
  j_finish :: "nat option"
  j_outcome :: "UpdateOutcome option"

datatype UpdateWorker = WAtQueue | WRunning Job | WRan Job | WDelivering int "nat list" "UpdateOutcome option"

record GroupUpdater =
  gu_queue :: "Job list"
  gu_pending :: "int set"
  gu_waiters :: "(int \<times> nat) list"
  gu_pendingBatch :: int
  gu_running :: bool
  gu_autoAttempts :: "int \<Rightarrow> int"
  gu_workers :: "UpdateWorker list"
  gu_crashed :: bool
  gu_finished :: "nat list"
  gu_asked :: "(int \<times> nat) list"
  gu_told :: "(int \<times> nat \<times> UpdateOutcome) list"

definition callFinish :: "nat option \<Rightarrow> GroupUpdater \<Rightarrow> GroupUpdater" where
  "callFinish finish u = u\<lparr>gu_finished := gu_finished u @ (case finish of None \<Rightarrow> [] | Some f \<Rightarrow> [f])\<rparr>"

definition refreshJob :: "int \<Rightarrow> bool \<Rightarrow> nat option \<Rightarrow> Job" where
  "refreshJob gid batch finish =
     \<lparr>j_gid = gid, j_batch = batch, j_finish = finish, j_outcome = Some (groupUpdaterUnfinished gid (qs ''The update failed unexpectedly.''))\<rparr>"

text \<open>The jobs of \<open>SubscribeUrl\<close>, the imports and \<open>CloneProfiles\<close>.\<close>

definition importJob :: "nat option \<Rightarrow> Job" where
  "importJob finish = \<lparr>j_gid = - 1, j_batch = False, j_finish = finish, j_outcome = None\<rparr>"

definition enqueueLocked :: "Job \<Rightarrow> GroupUpdater \<Rightarrow> GroupUpdater" where
  "enqueueLocked job u =
     (let u' = u\<lparr>gu_queue := gu_queue u @ [job]\<rparr>
      in if gu_running u' then u' else u'\<lparr>gu_running := True, gu_workers := gu_workers u' @ [WAtQueue]\<rparr>)"

definition RefreshGroup :: "int \<Rightarrow> nat option \<Rightarrow> GroupUpdater \<Rightarrow> GroupUpdater" where
  "RefreshGroup gid finish u =
     (if gid \<in> gu_pending u then callFinish finish u
      else enqueueLocked (refreshJob gid False finish) (u\<lparr>gu_pending := insert gid (gu_pending u)\<rparr>))"

definition RefreshWithOutcome :: "int \<Rightarrow> nat option \<Rightarrow> GroupUpdater \<Rightarrow> GroupUpdater" where
  "RefreshWithOutcome gid answer u =
     (let asked = (case answer of None \<Rightarrow> [] | Some d \<Rightarrow> [(gid, d)]); u' = u\<lparr>gu_asked := gu_asked u @ asked\<rparr>
      in if gid < 0 then u'\<lparr>gu_told := gu_told u' @ map (\<lambda>w. (fst w, snd w, groupUpdaterMissingGroup gid)) asked\<rparr>
         else
           let u'' = u'\<lparr>gu_waiters := gu_waiters u' @ asked\<rparr>
           in if gid \<in> gu_pending u'' then u''
              else enqueueLocked (refreshJob gid False None) (u''\<lparr>gu_pending := insert gid (gu_pending u'')\<rparr>))"

definition IsBusy :: "int \<Rightarrow> GroupUpdater \<Rightarrow> bool" where
  "IsBusy gid u \<longleftrightarrow> gid \<in> gu_pending u"

definition IsIdle :: "GroupUpdater \<Rightarrow> bool" where
  "IsIdle u \<longleftrightarrow> \<not> gu_running u \<and> gu_queue u = []"

definition refreshAllStep :: "bool \<Rightarrow> (int \<Rightarrow> SubGroup option) \<Rightarrow> int \<Rightarrow> GroupUpdater \<Rightarrow> GroupUpdater" where
  "refreshAllStep onlyAllowed groups gid u =
     (case groups gid of
        None \<Rightarrow> u
      | Some g \<Rightarrow>
          if sg_url g = [] \<or> sg_archive g \<or> (onlyAllowed \<and> sg_skip_auto_update g) then u
          else if gid \<in> gu_pending u then u
          else enqueueLocked (refreshJob gid True None)
                 (u\<lparr>gu_pending := insert gid (gu_pending u), gu_pendingBatch := gu_pendingBatch u + 1\<rparr>))"

definition RefreshAll :: "bool \<Rightarrow> (int \<Rightarrow> SubGroup option) \<Rightarrow> int list \<Rightarrow> GroupUpdater \<Rightarrow> GroupUpdater" where
  "RefreshAll onlyAllowed groups tabOrder u =
     (if gu_pendingBatch u > 0 then u else fold (refreshAllStep onlyAllowed groups) tabOrder u)"

definition autoUpdateDue :: "SubGroup \<Rightarrow> int \<Rightarrow> GroupUpdater \<Rightarrow> int" where
  "autoUpdateDue g interval u =
     (let last = max (sg_sub_last_update g) (gu_autoAttempts u (sg_id g)) in if last \<le> 0 then 0 else last + interval)"

definition autoUpdateStep :: "SubSettings \<Rightarrow> int \<Rightarrow> (int \<Rightarrow> SubGroup option) \<Rightarrow> int \<Rightarrow> GroupUpdater \<Rightarrow> GroupUpdater" where
  "autoUpdateStep settings now groups gid u =
     (case groups gid of
        None \<Rightarrow> u
      | Some g \<Rightarrow>
          let plan = ResolveAutoUpdate settings g
          in if ap_interval plan \<le> 0 \<or> autoUpdateDue g (ap_interval plan) u > now then u
             else RefreshGroup gid None (u\<lparr>gu_autoAttempts := (gu_autoAttempts u)(gid := now)\<rparr>))"

definition CheckAutoUpdate :: "SubSettings \<Rightarrow> int \<Rightarrow> (int \<Rightarrow> SubGroup option) \<Rightarrow> int list \<Rightarrow> GroupUpdater \<Rightarrow> GroupUpdater" where
  "CheckAutoUpdate settings now groups tabOrder u = fold (autoUpdateStep settings now groups) tabOrder u"

definition nextStep :: "SubSettings \<Rightarrow> (int \<Rightarrow> SubGroup option) \<Rightarrow> GroupUpdater \<Rightarrow> int \<Rightarrow> int \<Rightarrow> int" where
  "nextStep settings groups u gid next =
     (case groups gid of
        None \<Rightarrow> next
      | Some g \<Rightarrow>
          let plan = ResolveAutoUpdate settings g; due = autoUpdateDue g (ap_interval plan) u
          in if ap_interval plan \<le> 0 then next else if next < 0 \<or> due < next then due else next)"

definition NextAutoUpdate :: "SubSettings \<Rightarrow> (int \<Rightarrow> SubGroup option) \<Rightarrow> int list \<Rightarrow> GroupUpdater \<Rightarrow> int" where
  "NextAutoUpdate settings groups tabOrder u = fold (nextStep settings groups u) tabOrder (- 1)"

text \<open>One turn of the worker at position \<open>i\<close> of \<open>drain\<close>.\<close>

definition setWorker :: "nat \<Rightarrow> UpdateWorker \<Rightarrow> GroupUpdater \<Rightarrow> GroupUpdater" where
  "setWorker i w u = u\<lparr>gu_workers := (gu_workers u)[i := w]\<rparr>"

definition jobDone :: "Job \<Rightarrow> GroupUpdater \<Rightarrow> GroupUpdater" where
  "jobDone job u =
     (let u' = (if j_gid job \<ge> 0 then u\<lparr>gu_pending := gu_pending u - {j_gid job}, gu_waiters := filter (\<lambda>w. fst w \<noteq> j_gid job) (gu_waiters u)\<rparr> else u)
      in if j_batch job then u'\<lparr>gu_pendingBatch := gu_pendingBatch u' - 1\<rparr> else u')"

definition drainTurn :: "(Job \<Rightarrow> UpdateOutcome option) \<Rightarrow> nat \<Rightarrow> GroupUpdater \<Rightarrow> GroupUpdater" where
  "drainTurn result i u =
     (case gu_workers u ! i of
        WAtQueue \<Rightarrow>
          (case gu_queue u of
             [] \<Rightarrow> u\<lparr>gu_running := False, gu_workers := take i (gu_workers u) @ drop (Suc i) (gu_workers u)\<rparr>
           | job # rest \<Rightarrow> setWorker i (WRunning job) (u\<lparr>gu_queue := rest\<rparr>))
      | WRunning job \<Rightarrow>
          let job' = (case (j_outcome job, result job) of (Some _, Some outcome) \<Rightarrow> job\<lparr>j_outcome := Some outcome\<rparr> | _ \<Rightarrow> job)
          in setWorker i (WRan job') (callFinish (j_finish job) u)
      | WRan job \<Rightarrow>
          let waiting = (if j_gid job \<ge> 0 then map snd (filter (\<lambda>w. fst w = j_gid job) (gu_waiters u)) else [])
          in setWorker i (WDelivering (j_gid job) waiting (j_outcome job)) (jobDone job u)
      | WDelivering gid [] outcome \<Rightarrow> setWorker i WAtQueue u
      | WDelivering gid (d # ds) outcome \<Rightarrow>
          (case outcome of
             None \<Rightarrow> u\<lparr>gu_crashed := True\<rparr>
           | Some x \<Rightarrow> setWorker i (WDelivering gid ds outcome) (u\<lparr>gu_told := gu_told u @ [(gid, d, x)]\<rparr>)))"

text \<open>\<open>refresh\<close> names its group in every outcome it returns.\<close>

definition namesGroup :: "(Job \<Rightarrow> UpdateOutcome option) \<Rightarrow> bool" where
  "namesGroup result \<longleftrightarrow> (\<forall>job x. result job = Some x \<longrightarrow> uo_gid x = j_gid job)"

definition gu_init :: "GroupUpdater \<Rightarrow> bool" where
  "gu_init u \<longleftrightarrow> gu_queue u = [] \<and> gu_pending u = {} \<and> gu_waiters u = [] \<and> gu_pendingBatch u = 0 \<and> \<not> gu_running u \<and> gu_workers u = []
     \<and> \<not> gu_crashed u \<and> gu_asked u = [] \<and> gu_told u = []"

inductive gu_step :: "GroupUpdater \<Rightarrow> GroupUpdater \<Rightarrow> bool" where
  gu_refresh: "gu_step u (RefreshGroup gid finish u)"
| gu_ask: "gu_step u (RefreshWithOutcome gid answer u)"
| gu_refresh_all: "gu_step u (RefreshAll onlyAllowed groups tabOrder u)"
| gu_check: "gu_step u (CheckAutoUpdate settings now groups tabOrder u)"
| gu_import: "gu_step u (enqueueLocked (importJob finish) u)"
| gu_turn: "i < length (gu_workers u) \<Longrightarrow> namesGroup result \<Longrightarrow> gu_step u (drainTurn result i u)"

subsection \<open>The invariant\<close>

fun workerJob :: "UpdateWorker \<Rightarrow> Job list" where
  "workerJob (WRunning job) = [job]"
| "workerJob (WRan job) = [job]"
| "workerJob _ = []"

fun workerWaiting :: "UpdateWorker \<Rightarrow> (int \<times> nat) list" where
  "workerWaiting (WDelivering gid ds outcome) = map (Pair gid) ds"
| "workerWaiting _ = []"

text \<open>The jobs queued or running, and the callers whose turn has come.\<close>

definition activeJobs :: "GroupUpdater \<Rightarrow> Job list" where
  "activeJobs u = concat (map workerJob (gu_workers u)) @ gu_queue u"

definition delivering :: "GroupUpdater \<Rightarrow> (int \<times> nat) list" where
  "delivering u = concat (map workerWaiting (gu_workers u))"

fun workerFine :: "UpdateWorker \<Rightarrow> bool" where
  "workerFine (WDelivering gid ds outcome) = (ds \<noteq> [] \<longrightarrow> (\<exists>x. outcome = Some x \<and> uo_gid x = gid))"
| "workerFine _ = True"

definition refreshGids :: "GroupUpdater \<Rightarrow> int list" where
  "refreshGids u = filter (\<lambda>gid. 0 \<le> gid) (map j_gid (activeJobs u))"

definition jobFine :: "Job \<Rightarrow> bool" where
  "jobFine job \<longleftrightarrow> (0 \<le> j_gid job \<longrightarrow> (\<exists>x. j_outcome job = Some x \<and> uo_gid x = j_gid job))"

definition batchCount :: "Job list \<Rightarrow> int" where
  "batchCount jobs = int (length (filter j_batch jobs))"

text \<open>The parts of the invariant: one worker exactly while the flag says so, a pending mark exactly for the refreshes queued or running, waiters
  only for these, and every outcome asked for is waited for, about to be told or told.\<close>

definition singleWorker :: "UpdateWorker list \<Rightarrow> bool \<Rightarrow> Job list \<Rightarrow> bool" where
  "singleWorker ws running queue \<longleftrightarrow> length ws = (if running then 1 else 0) \<and> (queue \<noteq> [] \<longrightarrow> running)"

definition pendingFine :: "int set \<Rightarrow> int list \<Rightarrow> bool" where
  "pendingFine ps gids \<longleftrightarrow> distinct gids \<and> (\<forall>gid \<ge> 0. gid \<in> ps \<longleftrightarrow> gid \<in> set gids)"

definition waitersFine :: "(int \<times> nat) list \<Rightarrow> int set \<Rightarrow> bool" where
  "waitersFine ws ps \<longleftrightarrow> (\<forall>w \<in> set ws. 0 \<le> fst w \<and> fst w \<in> ps)"

definition toldTo :: "int \<times> nat \<times> UpdateOutcome \<Rightarrow> int \<times> nat" where
  "toldTo t = (fst t, fst (snd t))"

definition toldFine :: "int \<times> nat \<times> UpdateOutcome \<Rightarrow> bool" where
  "toldFine t \<longleftrightarrow> uo_gid (snd (snd t)) = fst t"

definition allHeard :: "(int \<times> nat) list \<Rightarrow> (int \<times> nat) list \<Rightarrow> (int \<times> nat) list \<Rightarrow> (int \<times> nat \<times> UpdateOutcome) list \<Rightarrow> bool" where
  "allHeard asked waiters soon told \<longleftrightarrow> mset asked = mset waiters + mset soon + mset (map toldTo told)"

definition guInv :: "GroupUpdater \<Rightarrow> bool" where
  "guInv u \<longleftrightarrow> singleWorker (gu_workers u) (gu_running u) (gu_queue u) \<and> pendingFine (gu_pending u) (refreshGids u)
     \<and> waitersFine (gu_waiters u) (gu_pending u) \<and> gu_pendingBatch u = batchCount (activeJobs u)
     \<and> list_all jobFine (activeJobs u) \<and> list_all workerFine (gu_workers u) \<and> \<not> gu_crashed u
     \<and> allHeard (gu_asked u) (gu_waiters u) (delivering u) (gu_told u) \<and> list_all toldFine (gu_told u)"

lemma pendingFine_add: "pendingFine ps gids \<Longrightarrow> gid \<notin> ps \<Longrightarrow> pendingFine (insert gid ps) (gids @ (if 0 \<le> gid then [gid] else []))"
  by (auto simp: pendingFine_def)

lemma pendingFine_drop: "pendingFine ps (gid # gids) \<Longrightarrow> pendingFine (ps - {gid}) gids"
  by (auto simp: pendingFine_def)

lemma pendingFine_zero: "pendingFine ps (filter (\<lambda>gid. 0 \<le> gid) (gid # gids)) \<Longrightarrow> gid < 0 \<Longrightarrow> pendingFine ps (filter (\<lambda>gid. 0 \<le> gid) gids)"
  by simp

lemma waitersFine_add: "waitersFine ws ps \<Longrightarrow> \<forall>w \<in> set new. fst w = gid \<Longrightarrow> new \<noteq> [] \<longrightarrow> 0 \<le> gid \<Longrightarrow> waitersFine (ws @ new) (insert gid ps)"
  by (auto simp: waitersFine_def)

lemma waitersFine_drop: "waitersFine ws ps \<Longrightarrow> waitersFine (filter (\<lambda>w. fst w \<noteq> gid) ws) (ps - {gid})"
  by (simp add: waitersFine_def)

lemma allHeard_ask: "allHeard (asked @ new) (waiters @ new) soon told = allHeard asked waiters soon told"
  by (simp add: allHeard_def add.assoc)

lemma filter_partition_mset: "mset (filter (\<lambda>w. \<not> P w) xs) + mset (filter P xs) = mset xs"
  by (induction xs) auto

lemma pair_snd: "map (Pair g) (map snd (filter (\<lambda>w. fst w = g) xs)) = filter (\<lambda>w. fst w = g) xs"
  by (induction xs) auto

lemma allHeard_take:
  assumes "allHeard asked waiters [] told"
  shows "allHeard asked (filter (\<lambda>w. fst w \<noteq> gid) waiters) (map (Pair gid) (map snd (filter (\<lambda>w. fst w = gid) waiters))) told"
  using assms unfolding allHeard_def pair_snd filter_partition_mset by simp

lemma allHeard_tell: "allHeard asked waiters ((gid, d) # soon) told \<Longrightarrow> allHeard asked waiters soon (told @ [(gid, d, x)])"
  by (simp add: allHeard_def toldTo_def)

lemma allHeard_refused:
  "allHeard asked waiters soon told \<Longrightarrow> allHeard (asked @ new) waiters soon (told @ map (\<lambda>w. (fst w, snd w, x)) new)"
proof -
  have "map toldTo (map (\<lambda>w. (fst w, snd w, x)) new) = new" by (simp add: toldTo_def o_def)
  then show "allHeard asked waiters soon told \<Longrightarrow> ?thesis" unfolding allHeard_def map_append mset_append by simp
qed

text \<open>The views depend on the workers and the queue alone.\<close>

lemma jobs_update [simp]:
  "activeJobs (gu_pending_update f_pending u) = activeJobs u"
  "activeJobs (gu_waiters_update f_waiters u) = activeJobs u"
  "activeJobs (gu_pendingBatch_update f_pendingBatch u) = activeJobs u"
  "activeJobs (gu_running_update f_running u) = activeJobs u"
  "activeJobs (gu_autoAttempts_update f_autoAttempts u) = activeJobs u"
  "activeJobs (gu_crashed_update f_crashed u) = activeJobs u"
  "activeJobs (gu_finished_update f_finished u) = activeJobs u"
  "activeJobs (gu_asked_update f_asked u) = activeJobs u"
  "activeJobs (gu_told_update f_told u) = activeJobs u"
  by (simp_all add: activeJobs_def)

lemma delivering_update [simp]:
  "delivering (gu_pending_update f_pending u) = delivering u"
  "delivering (gu_waiters_update f_waiters u) = delivering u"
  "delivering (gu_pendingBatch_update f_pendingBatch u) = delivering u"
  "delivering (gu_running_update f_running u) = delivering u"
  "delivering (gu_autoAttempts_update f_autoAttempts u) = delivering u"
  "delivering (gu_crashed_update f_crashed u) = delivering u"
  "delivering (gu_finished_update f_finished u) = delivering u"
  "delivering (gu_asked_update f_asked u) = delivering u"
  "delivering (gu_told_update f_told u) = delivering u"
  "delivering (gu_queue_update f_queue u) = delivering u"
  by (simp_all add: delivering_def)

lemma one_worker:
  assumes "gu_workers u = [w]"
  shows "activeJobs u = workerJob w @ gu_queue u" "delivering u = workerWaiting w"
  using assms by (simp_all add: activeJobs_def delivering_def)

lemma set_worker:
  assumes "gu_workers u = [w]"
  shows "activeJobs (setWorker 0 w' u) = workerJob w' @ gu_queue u" "delivering (setWorker 0 w' u) = workerWaiting w'"
  using assms by (simp_all add: setWorker_def activeJobs_def delivering_def)

lemma enqueue_views [simp]:
  "activeJobs (enqueueLocked job u) = activeJobs u @ [job]" "delivering (enqueueLocked job u) = delivering u"
  "gu_pending (enqueueLocked job u) = gu_pending u" "gu_waiters (enqueueLocked job u) = gu_waiters u"
  "gu_pendingBatch (enqueueLocked job u) = gu_pendingBatch u" "gu_crashed (enqueueLocked job u) = gu_crashed u"
  "gu_asked (enqueueLocked job u) = gu_asked u" "gu_told (enqueueLocked job u) = gu_told u"
  "gu_running (enqueueLocked job u)" "gu_autoAttempts (enqueueLocked job u) = gu_autoAttempts u"
  "gu_queue (enqueueLocked job u) = gu_queue u @ [job]"
  by (simp_all add: enqueueLocked_def activeJobs_def delivering_def Let_def)

lemma enqueue_workers: "gu_workers (enqueueLocked job u) = gu_workers u @ (if gu_running u then [] else [WAtQueue])"
  by (simp add: enqueueLocked_def Let_def)

lemma refreshJob_fine [simp]: "jobFine (refreshJob gid batch finish)" "j_gid (refreshJob gid batch finish) = gid"
  "j_batch (refreshJob gid batch finish) = batch"
  by (simp_all add: jobFine_def refreshJob_def groupUpdaterUnfinished_def groupUpdaterFailure_def)

lemma importJob_fine [simp]: "jobFine (importJob finish)" "j_gid (importJob finish) = - 1" "\<not> j_batch (importJob finish)"
  by (simp_all add: jobFine_def importJob_def)

text \<open>A new refresh of a group that is not pending, asked for by the waiters \<open>ws\<close> of that group.\<close>

lemma guInv_new_refresh:
  assumes "guInv u" "gid \<notin> gu_pending u" "\<forall>w \<in> set ws. fst w = gid" "ws \<noteq> [] \<longrightarrow> 0 \<le> gid"
  shows "guInv (enqueueLocked (refreshJob gid batch finish) (u\<lparr>gu_asked := gu_asked u @ ws, gu_waiters := gu_waiters u @ ws,
     gu_pending := insert gid (gu_pending u), gu_pendingBatch := gu_pendingBatch u + (if batch then 1 else 0)\<rparr>))" (is "guInv ?v")
proof -
  have gids: "refreshGids ?v = refreshGids u @ (if 0 \<le> gid then [gid] else [])" by (simp add: refreshGids_def)
  have "pendingFine (gu_pending ?v) (refreshGids ?v)" unfolding gids using assms(1,2) pendingFine_add by (simp add: guInv_def)
  moreover have "waitersFine (gu_waiters ?v) (gu_pending ?v)" using assms waitersFine_add by (simp add: guInv_def)
  moreover have "singleWorker (gu_workers ?v) True q" for q using assms(1) by (simp add: guInv_def enqueue_workers singleWorker_def)
  ultimately show ?thesis using assms(1) unfolding guInv_def by (simp add: allHeard_ask batchCount_def enqueue_workers)
qed

lemma guInv_join:
  assumes "guInv u" "gid \<in> gu_pending u" "0 \<le> gid" "\<forall>w \<in> set ws. fst w = gid"
  shows "guInv (u\<lparr>gu_asked := gu_asked u @ ws, gu_waiters := gu_waiters u @ ws\<rparr>)"
proof -
  have "waitersFine (gu_waiters u @ ws) (gu_pending u)" using assms waitersFine_add [of "gu_waiters u" "gu_pending u" ws gid]
    by (simp add: guInv_def insert_absorb)
  then show ?thesis using assms by (simp add: guInv_def refreshGids_def allHeard_ask)
qed

lemma guInv_logs [simp]: "guInv (callFinish f u) = guInv u" "guInv (u\<lparr>gu_autoAttempts := att\<rparr>) = guInv u"
  by (simp_all add: guInv_def refreshGids_def callFinish_def)

lemma guInv_RefreshGroup: "guInv u \<Longrightarrow> guInv (RefreshGroup gid finish u)"
  using guInv_new_refresh [of u gid "[]" False finish] by (simp add: RefreshGroup_def)

lemma guInv_RefreshWithOutcome:
  assumes "guInv u"
  shows "guInv (RefreshWithOutcome gid answer u)"
proof -
  define ws where "ws = (case answer of None \<Rightarrow> [] | Some d \<Rightarrow> [(gid, d)])"
  have ws: "\<forall>w \<in> set ws. fst w = gid" by (simp add: ws_def split: option.split)
  consider "gid < 0" | "0 \<le> gid" "gid \<in> gu_pending u" | "0 \<le> gid" "gid \<notin> gu_pending u" by linarith
  then show ?thesis
  proof cases
    case 1
    have "list_all toldFine (map (\<lambda>w. (fst w, snd w, groupUpdaterMissingGroup gid)) ws)"
      using ws by (simp add: list_all_iff toldFine_def groupUpdaterMissingGroup_def groupUpdaterFailure_def)
    with 1 assms show ?thesis
      by (simp add: RefreshWithOutcome_def ws_def [symmetric] Let_def guInv_def refreshGids_def allHeard_refused)
  next
    case 2
    then show ?thesis using guInv_join [OF assms 2(2,1) ws] by (simp add: RefreshWithOutcome_def ws_def [symmetric] Let_def)
  next
    case 3
    then show ?thesis using guInv_new_refresh [OF assms 3(2) ws, of False None] by (simp add: RefreshWithOutcome_def ws_def [symmetric] Let_def)
  qed
qed

lemma guInv_RefreshAll: "guInv u \<Longrightarrow> guInv (RefreshAll onlyAllowed groups tabOrder u)"
proof -
  have step: "guInv v \<Longrightarrow> guInv (refreshAllStep onlyAllowed groups gid v)" for gid v
    using guInv_new_refresh [of v gid "[]" True None] by (simp add: refreshAllStep_def split: option.split)
  have "guInv v \<Longrightarrow> guInv (fold (refreshAllStep onlyAllowed groups) gids v)" for gids v
    by (induction gids arbitrary: v) (simp_all add: step)
  then show "guInv u \<Longrightarrow> guInv (RefreshAll onlyAllowed groups tabOrder u)" by (simp add: RefreshAll_def)
qed

lemma guInv_CheckAutoUpdate: "guInv u \<Longrightarrow> guInv (CheckAutoUpdate settings now groups tabOrder u)"
proof -
  have step: "guInv v \<Longrightarrow> guInv (autoUpdateStep settings now groups gid v)" for gid v
    by (simp add: autoUpdateStep_def Let_def guInv_RefreshGroup split: option.split)
  have "guInv v \<Longrightarrow> guInv (fold (autoUpdateStep settings now groups) gids v)" for gids v
    by (induction gids arbitrary: v) (simp_all add: step)
  then show "guInv u \<Longrightarrow> guInv (CheckAutoUpdate settings now groups tabOrder u)" by (simp add: CheckAutoUpdate_def)
qed

lemma guInv_import:
  assumes "guInv u"
  shows "guInv (enqueueLocked (importJob finish) u)"
  using assms by (simp add: guInv_def refreshGids_def enqueue_workers batchCount_def singleWorker_def)

lemma guInv_one:
  assumes "guInv u" "i < length (gu_workers u)"
  shows "i = 0 \<and> gu_running u \<and> gu_workers u = [gu_workers u ! 0]"
  using assms by (cases "gu_workers u") (auto simp: guInv_def singleWorker_def split: if_splits)

text \<open>A turn that keeps the jobs, up to the outcome of one, and tells at most what was about to be told.\<close>

lemma guInv_same:
  assumes inv: "guInv u" and w: "gu_workers u = [w]" and v: "v = setWorker 0 w' (u\<lparr>gu_queue := q, gu_told := told\<rparr>)"
    and "map j_gid (workerJob w' @ q) = map j_gid (activeJobs u)" "map j_batch (workerJob w' @ q) = map j_batch (activeJobs u)"
    "list_all jobFine (workerJob w' @ q)" "workerFine w'" "allHeard (gu_asked u) (gu_waiters u) (workerWaiting w') told" "list_all toldFine told"
  shows "guInv v"
proof -
  have jobs: "activeJobs v = workerJob w' @ q" "delivering v = workerWaiting w'"
    using w by (simp_all add: v setWorker_def activeJobs_def delivering_def)
  have count: "batchCount xs = int (length (filter id (map j_batch xs)))" for xs by (simp add: batchCount_def filter_map o_def)
  have "batchCount (activeJobs v) = batchCount (activeJobs u)" unfolding count jobs assms(5) ..
  moreover have "refreshGids v = refreshGids u" unfolding refreshGids_def jobs assms(4) ..
  moreover have "singleWorker (gu_workers v) (gu_running v) (gu_queue v)" using inv w by (simp add: guInv_def singleWorker_def v setWorker_def split: if_splits)
  ultimately show ?thesis using inv assms(6-) w by (simp add: guInv_def jobs) (simp add: v setWorker_def)
qed

lemma guInv_take:
  assumes inv: "guInv u" and w: "gu_workers u = [WAtQueue]"
  shows "guInv (drainTurn result 0 u)"
proof (cases "gu_queue u")
  case Nil
  have "activeJobs (drainTurn result 0 u) = []" "delivering (drainTurn result 0 u) = []" using w Nil by (simp_all add: drainTurn_def activeJobs_def delivering_def)
  then show ?thesis using inv w Nil one_worker [OF w] by (simp add: guInv_def refreshGids_def) (simp add: drainTurn_def w singleWorker_def)
next
  case (Cons job rest)
  then have "drainTurn result 0 u = setWorker 0 (WRunning job) (u\<lparr>gu_queue := rest, gu_told := gu_told u\<rparr>)" using w by (simp add: drainTurn_def)
  from guInv_same [OF inv w this] show ?thesis using inv Cons one_worker [OF w] by (simp add: guInv_def)
qed

lemma guInv_run:
  assumes inv: "guInv u" and w: "gu_workers u = [WRunning job]" and "namesGroup result"
  shows "guInv (drainTurn result 0 u)"
proof -
  define job' where "job' = (case (j_outcome job, result job) of (Some _, Some x) \<Rightarrow> job\<lparr>j_outcome := Some x\<rparr> | _ \<Rightarrow> job)"
  have keeps: "j_gid job' = j_gid job" "j_batch job' = j_batch job" by (simp_all add: job'_def split: option.split)
  have "jobFine job" using inv one_worker [OF w] by (simp add: guInv_def)
  then have fine: "jobFine job'" using assms(3) by (auto simp: job'_def jobFine_def namesGroup_def split: option.split)
  have turn: "drainTurn result 0 u = callFinish (j_finish job) (setWorker 0 (WRan job') (u\<lparr>gu_queue := gu_queue u, gu_told := gu_told u\<rparr>))"
    using w by (simp add: drainTurn_def job'_def Let_def setWorker_def callFinish_def)
  have parts: "list_all jobFine (activeJobs u)" "allHeard (gu_asked u) (gu_waiters u) (delivering u) (gu_told u)" "list_all toldFine (gu_told u)"
    using inv by (simp_all add: guInv_def)
  have "guInv (setWorker 0 (WRan job') (u\<lparr>gu_queue := gu_queue u, gu_told := gu_told u\<rparr>))"
    by (rule guInv_same [OF inv w refl]) (use keeps fine parts one_worker [OF w] in simp_all)
  then show ?thesis unfolding turn by (simp only: guInv_logs)
qed

lemma guInv_finish:
  assumes inv: "guInv u" and w: "gu_workers u = [WRan job]"
  shows "guInv (drainTurn result 0 u)"
proof -
  define g where "g = j_gid job"
  define ds where "ds = (if 0 \<le> g then map snd (filter (\<lambda>w. fst w = g) (gu_waiters u)) else [])"
  define v where "v = drainTurn result 0 u"
  have v: "gu_workers v = [WDelivering g ds (j_outcome job)]" "gu_queue v = gu_queue u" "gu_asked v = gu_asked u"
    "gu_told v = gu_told u" "gu_crashed v = gu_crashed u" "gu_running v = gu_running u"
    "gu_pending v = (if 0 \<le> g then gu_pending u - {g} else gu_pending u)"
    "gu_waiters v = (if 0 \<le> g then filter (\<lambda>w. fst w \<noteq> g) (gu_waiters u) else gu_waiters u)"
    "gu_pendingBatch v = gu_pendingBatch u - (if j_batch job then 1 else 0)"
    using w by (simp_all add: v_def drainTurn_def g_def ds_def jobDone_def setWorker_def Let_def)
  note views = one_worker [OF w] one_worker [OF v(1)]
  have "pendingFine (gu_pending v) (refreshGids v)"
    using inv pendingFine_drop by (simp add: guInv_def refreshGids_def views v g_def split: if_splits)
  moreover have "waitersFine (gu_waiters v) (gu_pending v)" using inv waitersFine_drop by (simp add: guInv_def v)
  moreover have "allHeard (gu_asked v) (gu_waiters v) (delivering v) (gu_told v)"
    using inv allHeard_take [of "gu_asked u" "gu_waiters u" "gu_told u" g] by (simp add: guInv_def views v ds_def del: map_map)
  moreover have "workerFine (WDelivering g ds (j_outcome job))" using inv by (simp add: guInv_def jobFine_def views ds_def g_def)
  moreover have "singleWorker (gu_workers v) (gu_running v) (gu_queue v)" using inv w by (simp add: guInv_def singleWorker_def v)
  ultimately have "guInv v" using inv w by (simp add: guInv_def views batchCount_def v split: if_splits)
  then show ?thesis by (simp only: v_def)
qed

lemma guInv_deliver:
  assumes inv: "guInv u" and w: "gu_workers u = [WDelivering gid ds outcome]"
  shows "guInv (drainTurn result 0 u)"
proof (cases ds)
  case Nil
  then have "drainTurn result 0 u = setWorker 0 WAtQueue (u\<lparr>gu_queue := gu_queue u, gu_told := gu_told u\<rparr>)" using w by (simp add: drainTurn_def)
  from guInv_same [OF inv w this] show ?thesis using inv Nil one_worker [OF w] by (simp add: guInv_def)
next
  case (Cons d ds')
  then obtain x where x: "outcome = Some x" "uo_gid x = gid" using inv w by (auto simp: guInv_def)
  have turn: "drainTurn result 0 u
      = setWorker 0 (WDelivering gid ds' outcome) (u\<lparr>gu_queue := gu_queue u, gu_told := gu_told u @ [(gid, d, x)]\<rparr>)"
    using w Cons x by (simp add: drainTurn_def)
  from guInv_same [OF inv w this] show ?thesis
    using inv Cons x one_worker [OF w] allHeard_tell by (simp add: guInv_def toldFine_def)
qed

lemma guInv_turn: "guInv u \<Longrightarrow> i < length (gu_workers u) \<Longrightarrow> namesGroup result \<Longrightarrow> guInv (drainTurn result i u)"
  using guInv_one [of u i] guInv_take [of u result] guInv_run [of u _ result] guInv_finish [of u _ result] guInv_deliver [of u _ _ _ result]
  by (cases "gu_workers u ! 0") metis+

interpretation updateQueue: transition_system gu_init gu_step guInv
proof
  show "gu_init u \<Longrightarrow> guInv u" for u 
    by (simp add: gu_init_def guInv_def activeJobs_def delivering_def refreshGids_def singleWorker_def pendingFine_def waitersFine_def batchCount_def allHeard_def)
  show "guInv u \<Longrightarrow> gu_step u v \<Longrightarrow> guInv v" for u v
    by (erule gu_step.cases) (simp_all add: guInv_RefreshGroup guInv_RefreshWithOutcome guInv_RefreshAll guInv_CheckAutoUpdate guInv_import guInv_turn)
qed

subsection \<open>What the queue promises\<close>

text \<open>C11: at most one thread works on the queue, and never twice on the same group. In every reachable state, whatever callers ask for and
  whatever the jobs do, the refreshes queued or running are of different groups; \<open>IsBusy\<close> tells exactly the groups with such a
  refresh, \<open>IsIdle\<close> tells exactly that no job is left, the count of the last batch is exact, and no waiter is ever handed a missing outcome.\<close>

theorem one_update_per_group:
  assumes "gu_init u0" "gu_step\<^sup>*\<^sup>* u0 u"
  shows "length (gu_workers u) \<le> 1 \<and> distinct (filter (\<lambda>gid. 0 \<le> gid) (map j_gid (activeJobs u)))
    \<and> (\<forall>gid. 0 \<le> gid \<longrightarrow> IsBusy gid u = (\<exists>job \<in> set (activeJobs u). j_gid job = gid))
    \<and> (IsIdle u \<longrightarrow> activeJobs u = [] \<and> gu_workers u = []) \<and> (gu_workers u = [] \<longrightarrow> IsIdle u)
    \<and> gu_pendingBatch u = int (length (filter j_batch (activeJobs u))) \<and> \<not> gu_crashed u"
proof -
  have inv: "guInv u" using updateQueue.inv_reachable [OF assms] .
  have worker: "length (gu_workers u) = (if gu_running u then 1 else 0)" "gu_queue u \<noteq> [] \<longrightarrow> gu_running u"
    using inv by (simp_all add: guInv_def singleWorker_def)
  have "IsIdle u \<Longrightarrow> gu_workers u = []" using worker by (simp add: IsIdle_def)
  then have "IsIdle u \<Longrightarrow> activeJobs u = [] \<and> gu_workers u = []" by (simp add: IsIdle_def activeJobs_def)
  moreover have "gu_workers u = [] \<Longrightarrow> IsIdle u" using worker by (auto simp: IsIdle_def split: if_splits)
  moreover have "distinct (refreshGids u)" "\<forall>gid. 0 \<le> gid \<longrightarrow> IsBusy gid u = (gid \<in> set (refreshGids u))"
    using inv by (simp_all add: guInv_def pendingFine_def IsBusy_def)
  ultimately show ?thesis using inv worker by (auto simp: guInv_def refreshGids_def batchCount_def)
qed

definition noUpdates :: GroupUpdater where
  "noUpdates = \<lparr>gu_queue = [], gu_pending = {}, gu_waiters = [], gu_pendingBatch = 0, gu_running = False, gu_autoAttempts = (\<lambda>_. 0), gu_workers = [],
     gu_crashed = False, gu_finished = [], gu_asked = [], gu_told = []\<rparr>"

definition askedTwice :: GroupUpdater where
  "askedTwice = RefreshWithOutcome 3 (Some 8) (RefreshWithOutcome 3 (Some 7) noUpdates)"

lemma askedTwice_reachable: "gu_init noUpdates \<and> gu_step\<^sup>*\<^sup>* noUpdates askedTwice"
proof
  show "gu_init noUpdates" by (simp add: gu_init_def noUpdates_def)
  show "gu_step\<^sup>*\<^sup>* noUpdates askedTwice" unfolding askedTwice_def by (meson gu_ask rtranclp.rtrancl_into_rtrancl rtranclp.rtrancl_refl)
qed

theorem one_update_per_group_witness: "IsBusy 3 askedTwice \<and> length (gu_workers askedTwice) \<le> 1 \<and> \<not> gu_crashed askedTwice"
proof -
  have "j_gid (refreshJob 3 False None) = 3" "refreshJob 3 False None \<in> set (activeJobs askedTwice)"
    by (simp_all add: askedTwice_def RefreshWithOutcome_def noUpdates_def enqueueLocked_def Let_def activeJobs_def)
  then have "\<exists>job \<in> set (activeJobs askedTwice). j_gid job = 3" by blast
  moreover have "(0 :: int) \<le> 3" by simp
  ultimately show ?thesis using one_update_per_group [of noUpdates askedTwice] askedTwice_reachable by metis
qed

text \<open>The turns of the worker alone.\<close>

definition updaterTurn :: "(Job \<Rightarrow> UpdateOutcome option) \<Rightarrow> GroupUpdater \<Rightarrow> GroupUpdater \<Rightarrow> bool" where
  "updaterTurn result u v \<longleftrightarrow> gu_workers u \<noteq> [] \<and> v = drainTurn result 0 u"

fun workerWeight :: "UpdateWorker \<Rightarrow> nat" where
  "workerWeight WAtQueue = 1"
| "workerWeight (WRunning job) = 4"
| "workerWeight (WRan job) = 3"
| "workerWeight (WDelivering gid ds outcome) = 2 + length ds"

definition workLeft :: "GroupUpdater \<Rightarrow> nat" where
  "workLeft u = 4 * length (gu_queue u) + sum_list (map workerWeight (gu_workers u)) + length (gu_waiters u)"

lemma length_partition: "length (filter (\<lambda>w. fst w \<noteq> g) ws) + length (filter (\<lambda>w. fst w = g) ws) = length ws"
  by (induction ws) auto

lemma turn_works:
  assumes "gu_workers u = [w]" "workerFine w"
  shows "workLeft (drainTurn result 0 u) < workLeft u" "gu_asked (drainTurn result 0 u) = gu_asked u"
proof -
  have "workLeft (drainTurn result 0 u) < workLeft u \<and> gu_asked (drainTurn result 0 u) = gu_asked u"
  proof (cases w)
    case WAtQueue
    then show ?thesis using assms(1) by (cases "gu_queue u") (simp_all add: drainTurn_def setWorker_def workLeft_def)
  next
    case (WRunning job)
    then show ?thesis using assms(1) by (simp add: drainTurn_def setWorker_def callFinish_def workLeft_def Let_def)
  next
    case (WRan job)
    then show ?thesis using assms(1) length_partition [of "j_gid job" "gu_waiters u"]
      by (simp add: drainTurn_def setWorker_def jobDone_def workLeft_def Let_def)
  next
    case (WDelivering gid ds outcome)
    then show ?thesis using assms by (cases ds) (auto simp: drainTurn_def setWorker_def workLeft_def)
  qed
  then show "workLeft (drainTurn result 0 u) < workLeft u" "gu_asked (drainTurn result 0 u) = gu_asked u" by simp_all
qed

text \<open>C9: every caller that asks for the outcome of a refresh is told it exactly once. From any reachable state the worker alone comes to rest,
  whatever the jobs return and also if they throw; then the queue is idle, no caller waits, the outcomes told are those asked for, each as
  often as it was asked, and each is the outcome of the group that was asked about.\<close>

theorem outcomes_told_once:
  assumes "gu_init u0" "gu_step\<^sup>*\<^sup>* u0 u" "namesGroup result"
  shows "\<exists>v. (updaterTurn result)\<^sup>*\<^sup>* u v \<and> IsIdle v \<and> gu_waiters v = [] \<and> gu_asked v = gu_asked u
    \<and> mset (map (\<lambda>t. (fst t, fst (snd t))) (gu_told v)) = mset (gu_asked u) \<and> (\<forall>t \<in> set (gu_told v). uo_gid (snd (snd t)) = fst t)"
proof -
  have inv: "guInv u" using updateQueue.inv_reachable [OF assms(1,2)] .
  let ?P = "\<lambda>v. guInv v \<and> gu_asked v = gu_asked u"
  have "\<exists>t'. updaterTurn result t t' \<and> ?P t' \<and> workLeft t' < workLeft t" if "?P t" "gu_workers t \<noteq> []" for t
  proof -
    have one: "gu_workers t = [gu_workers t ! 0]" "0 < length (gu_workers t)" using guInv_one [of t 0] that by auto
    moreover have "workerFine (gu_workers t ! 0)" using that(1) one(2) by (auto simp: guInv_def list_all_length)
    ultimately have "workLeft (drainTurn result 0 t) < workLeft t" "gu_asked (drainTurn result 0 t) = gu_asked t" by (auto intro: turn_works)
    moreover have "guInv (drainTurn result 0 t)" using guInv_turn [of t 0 result] that(1) one(2) assms(3) by blast
    ultimately show ?thesis using that by (intro exI [of _ "drainTurn result 0 t"]) (simp add: updaterTurn_def)
  qed
  then obtain v where v: "(updaterTurn result)\<^sup>*\<^sup>* u v" "?P v" "gu_workers v = []"
    using run_ends [of ?P u "\<lambda>v. gu_workers v = []" "updaterTurn result" workLeft] inv by metis
  have idle: "IsIdle v" "activeJobs v = []" "delivering v = []"
    using v(2,3) by (auto simp: guInv_def singleWorker_def IsIdle_def activeJobs_def delivering_def split: if_splits)
  have "gu_waiters v = []"
  proof (rule ccontr)
    assume "gu_waiters v \<noteq> []"
    then obtain w where "w \<in> set (gu_waiters v)" by (meson last_in_set)
    then show False using v(2) idle(2) by (auto simp: guInv_def waitersFine_def pendingFine_def refreshGids_def)
  qed
  moreover have "guInv v" using v(2) by blast
  moreover have "(\<lambda>t. (fst t, fst (snd t))) = toldTo" by (simp add: toldTo_def fun_eq_iff)
  moreover have "mset (gu_asked v) = mset (map toldTo (gu_told v))" "\<forall>t \<in> set (gu_told v). uo_gid (snd (snd t)) = fst t"
    using idle(3) calculation(1,2) by (simp_all add: guInv_def allHeard_def toldFine_def list_all_iff)
  ultimately show ?thesis using v(1,2) idle(1) by (intro exI [of _ v]) (simp only: simp_thms)
qed

theorem outcomes_told_once_witness:
  "\<exists>v. (updaterTurn (\<lambda>_. None))\<^sup>*\<^sup>* askedTwice v \<and> IsIdle v \<and> gu_asked askedTwice = [(3, 7), (3, 8)]
    \<and> mset (map (\<lambda>t. (fst t, fst (snd t))) (gu_told v)) = {#(3, 7), (3, 8)#}"
proof -
  have "gu_asked askedTwice = [(3, 7), (3, 8)]" by (simp add: askedTwice_def RefreshWithOutcome_def noUpdates_def enqueueLocked_def Let_def)
  moreover have "namesGroup (\<lambda>_. None)" by (simp add: namesGroup_def)
  ultimately show ?thesis using outcomes_told_once [of noUpdates askedTwice "\<lambda>_. None"] askedTwice_reachable by auto
qed

subsection \<open>Automatic updates\<close>

definition jobsOf :: "int \<Rightarrow> GroupUpdater \<Rightarrow> Job list" where
  "jobsOf gid u = filter (\<lambda>job. j_gid job = gid) (activeJobs u)"

lemma RefreshGroup_attempts [simp]: "gu_autoAttempts (RefreshGroup gid finish u) = gu_autoAttempts u"
  by (simp add: RefreshGroup_def callFinish_def)

lemma RefreshGroup_jobs:
  "jobsOf g (RefreshGroup gid finish u) = jobsOf g u \<or> (g = gid \<and> length (jobsOf g (RefreshGroup gid finish u)) = length (jobsOf g u) + 1)"
  by (simp add: RefreshGroup_def callFinish_def jobsOf_def)

lemma jobsOf_attempts [simp]: "jobsOf g (u\<lparr>gu_autoAttempts := f\<rparr>) = jobsOf g u"
  by (simp add: jobsOf_def)

text \<open>One group of a check: nothing for the group \<open>gid\<close>, or an attempt at least half an hour after the last one.\<close>

definition pacedCheck :: "int \<Rightarrow> int \<Rightarrow> GroupUpdater \<Rightarrow> GroupUpdater \<Rightarrow> bool" where
  "pacedCheck now gid u v \<longleftrightarrow> (gu_autoAttempts v gid = gu_autoAttempts u gid \<and> jobsOf gid v = jobsOf gid u)
     \<or> (gu_autoAttempts v gid = now \<and> gu_autoAttempts u gid + 1800 \<le> now \<and> length (jobsOf gid v) \<le> length (jobsOf gid u) + 1)"

lemma pacedCheck_step:
  assumes "\<forall>g. groups gid' = Some g \<longrightarrow> sg_id g = gid'" "0 < gu_autoAttempts u gid"
  shows "pacedCheck now gid u (autoUpdateStep settings now groups gid' u)"
proof (cases "groups gid'")
  case None
  then show ?thesis by (simp add: autoUpdateStep_def pacedCheck_def)
next
  case (Some g)
  let ?plan = "ResolveAutoUpdate settings g" and ?u = "u\<lparr>gu_autoAttempts := (gu_autoAttempts u)(gid' := now)\<rparr>"
  have id: "sg_id g = gid'" using assms(1) Some by blast
  show ?thesis
  proof (cases "ap_interval ?plan \<le> 0 \<or> autoUpdateDue g (ap_interval ?plan) u > now")
    case True
    then show ?thesis using Some by (simp add: autoUpdateStep_def pacedCheck_def Let_def)
  next
    case False
    then have step: "autoUpdateStep settings now groups gid' u = RefreshGroup gid' None ?u" using Some by (simp add: autoUpdateStep_def Let_def)
    show ?thesis
    proof (cases "gid' = gid")
      case True
      have "1800 \<le> ap_interval ?plan" using auto_update_interval [of settings g] False by linarith
      moreover have "gu_autoAttempts u gid + ap_interval ?plan \<le> autoUpdateDue g (ap_interval ?plan) u"
        using assms(2) id True by (simp add: autoUpdateDue_def Let_def)
      ultimately have "gu_autoAttempts u gid + 1800 \<le> now" using False by linarith
      then show ?thesis using True RefreshGroup_jobs [of gid gid' None ?u] unfolding step pacedCheck_def by auto
    next
      case other: False
      then show ?thesis using RefreshGroup_jobs [of gid gid' None ?u] by (simp add: step pacedCheck_def)
    qed
  qed
qed

text \<open>C39: automatic updates of a group are at least half an hour apart. If the last automatic attempt of a group was at some time, a later check,
  with whatever settings, group options and server interval it then finds and however often it visits the group, either leaves the group
  alone or records a new attempt, at least 1800 seconds after the last one, and queues at most one refresh for it.\<close>

theorem auto_updates_paced:
  assumes "\<forall>gid g. groups gid = Some g \<longrightarrow> sg_id g = gid" "0 < gu_autoAttempts u gid" "0 < now"
  shows "pacedCheck now gid u (CheckAutoUpdate settings now groups tabOrder u)"
  unfolding CheckAutoUpdate_def using assms(2)
proof (induction tabOrder arbitrary: u)
  case Nil
  then show ?case by (simp add: pacedCheck_def)
next
  case (Cons g gs)
  let ?v = "autoUpdateStep settings now groups g u"
  have step: "pacedCheck now gid u ?v" using pacedCheck_step [of groups g u gid now settings] assms(1) Cons.prems by blast
  then have "0 < gu_autoAttempts ?v gid" using Cons.prems assms(3) by (auto simp: pacedCheck_def)
  from Cons.IH [OF this] step show ?case by (auto simp: pacedCheck_def)
qed

definition demoGroupOf :: "int \<Rightarrow> SubGroup option" where
  "demoGroupOf gid = Some \<lparr>sg_id = gid, sg_url = qs ''https://example.org'', sg_archive = False, sg_skip_auto_update = False,
     sg_sub_info = newSubUserInfo, sg_sub_last_update = 0, sg_sub_options = demoOptions\<rparr>"

definition demoSubSettings :: SubSettings where
  "demoSubSettings = \<lparr>ss_userAgent = [], ss_sub_send_hwid = False, ss_sub_custom_hwid_params = [], ss_sub_hwid = [], ss_sub_device_os = [],
     ss_sub_ver_os = [], ss_sub_device_model = [], ss_sub_tls_version = 0, ss_sub_http_version = 0, ss_sub_auto_update = 30,
     ss_sub_respect_server_interval = True\<rparr>"

theorem auto_updates_paced_witness:
  "pacedCheck 5000 3 (noUpdates\<lparr>gu_autoAttempts := \<lambda>_. 1000\<rparr>)
     (CheckAutoUpdate demoSubSettings 5000 demoGroupOf [3] (noUpdates\<lparr>gu_autoAttempts := \<lambda>_. 1000\<rparr>))
   \<and> gu_autoAttempts (CheckAutoUpdate demoSubSettings 5000 demoGroupOf [3] (noUpdates\<lparr>gu_autoAttempts := \<lambda>_. 1000\<rparr>)) 3 = 5000"
proof -
  have "gu_autoAttempts (CheckAutoUpdate demoSubSettings 5000 demoGroupOf [3] (noUpdates\<lparr>gu_autoAttempts := \<lambda>_. 1000\<rparr>)) 3 = 5000"
    by (simp add: CheckAutoUpdate_def autoUpdateStep_def demoGroupOf_def autoUpdateDue_def ResolveAutoUpdate_def demoSubSettings_def demoOptions_def
        newSubUserInfo_def Let_def)
  moreover have "\<forall>gid g. demoGroupOf gid = Some g \<longrightarrow> sg_id g = gid" by (simp add: demoGroupOf_def)
  ultimately show ?thesis using auto_updates_paced [of demoGroupOf "noUpdates\<lparr>gu_autoAttempts := \<lambda>_. 1000\<rparr>" 3 5000 demoSubSettings "[3]"] by simp
qed

subsection \<open>A refresh of no group\<close>

text \<open>\<open>RefreshGroup\<close> takes a negative id, which the end of the job does not clear: when the worker has left, the id still counts as busy.\<close>

lemma negative_refresh_stays_busy:
  "let u = (drainTurn (\<lambda>_. None) 0 ^^ 5) (RefreshGroup (- 1) None noUpdates) in IsIdle u \<and> IsBusy (- 1) u"
  by (simp add: eval_nat_numeral RefreshGroup_def noUpdates_def enqueueLocked_def refreshJob_def drainTurn_def setWorker_def callFinish_def jobDone_def
      IsIdle_def IsBusy_def Let_def split: option.split)

end
