(* ===== verification/Connection_Manager.thy ===== *)
theory Connection_Manager
  imports Kill_Switch_Safety Core_Supervisor
begin

text \<open>
  The connection manager (\<^verbatim>\<open>src/src/engine/connection/ConnectionManager.cpp\<close> and \<^verbatim>\<open>ConnectionModes.cpp\<close>): it starts, stops and
  switches the running profile, keeps a start back while the kill switch arms or the core restarts, and
  applies the Tun, system proxy and routing modes. With it, what it needs of
  \<^verbatim>\<open>AutoSelectorController.cpp\<close> (the ranking before a start) and of \<^verbatim>\<open>RunningProfiles.cpp\<close>.

  The record \<open>ConnMgr\<close> holds the members; the core supervisor, and in it the kill switch, are the states of
  theories \<open>Core_Supervisor\<close> and \<open>Kill_Switch\<close>, and the manager calls their operations. Threads are explicit:
  \<open>cm_starters\<close> and \<open>cm_stoppers\<close> are the workers that \<open>start\<close> and \<open>stop\<close> launch, each with the point it has
  reached, \<open>cm_stopCalls\<close> the calls of \<open>stop\<close> between reading the running profile and trying the lock,
  \<open>cm_rankings\<close> the measurements before the start of a selector; \<open>cm_ui\<close> is the queue of closures posted to
  the main thread and \<open>cm_offers\<close> the questions that are open. A lock is a boolean. The signals \<open>startFinished\<close>,
  \<open>startDispatching\<close> and \<open>stopFinished\<close> are the lists \<open>cm_told\<close>, \<open>cm_dispatched\<close> and \<open>cm_stopped\<close>;
  \<open>cm_asked\<close> lists the serials of the requests made. What other parts answer at the moment of a call (the
  generated configuration, the plan of a selector, privileges, other owners of a Tun) is the argument
  \<open>World\<close>. The Linux build is modelled. Log lines, dialogs that only inform, the error texts of
  \<open>startFinished\<close>, the traffic statistics, the chart markers and the lookup of the exit country are left out.

  The properties are in theory \<open>Connection_Safety\<close>.
\<close>

subsection \<open>Data\<close>

datatype ConnectionState = Idle | Connecting | Running | Stopping

datatype StartOutcome =
    Started
  | Exiting
  | NotFound
  | GroupUnavailable
  | KillSwitchInactive
  | Superseded
  | CoreUnavailable
  | BuildFailed
  | Busy
  | ExtraCoreBlocked
  | GeoAssetsMissing
  | StrictRouteUnavailable
  | TunFailed
  | StartFailed

record StartRequest =
  sr_profileId :: int
  sr_interactive :: bool
  sr_serial :: nat

record StopOptions =
  so_crash :: bool
  so_block :: bool
  so_manual :: bool
  so_interactive :: bool

record ModeChange =
  mc_save :: bool
  mc_interactive :: bool
  mc_restart :: bool
  mc_restartSerial :: nat

datatype RestartReason = RSettings | RRouting | RProfile | RGroup

record RuntimeOptions =
  ro_headless :: bool
  ro_systemProxy :: bool
  ro_tunRequired :: bool
  ro_blockingPrivilegeCheck :: bool
  ro_geoAutoDownload :: bool

text \<open>The settings of the repository that the manager reads or writes; the ones the kill switch reads and
  \<open>started_id\<close> are fields of the states below.\<close>

record CmSettings =
  set_spmode_vpn :: bool
  set_spmode_system_proxy :: bool
  set_disable_privilege_req :: bool
  set_disable_mixed_inbound :: bool
  set_reset_proxy_on_disable_sp :: bool
  set_remember_enable :: bool
  set_remember_tun :: bool
  set_remember_system_proxy :: bool
  set_remember_id :: int
  set_flag_restart_tun_on :: bool
  set_current_route_id :: int
  set_core_dns_in_port :: int

record CmGroup =
  gr_archive :: bool
  gr_route_id :: int

record CmRepo =
  rp_profiles :: "int \<rightharpoonup> int"
  rp_disabled :: "int \<Rightarrow> bool"
  rp_groups :: "int \<rightharpoonup> CmGroup"
  rp_routes :: "int \<Rightarrow> bool"

text \<open>What \<open>BuildSingBoxConfig\<close> returns, and the privilege report of the core.\<close>

record BuildResult =
  br_error :: qstring
  br_tun :: bool
  br_extraCore :: bool
  br_routeId :: int
  br_involved :: "int set"

record PrivilegeInfo =
  pi_privileged :: bool
  pi_tunDevice :: "bool option"
  pi_netAdmin :: "bool option"
  pi_detail :: qstring

record World =
  wo_build :: "int \<Rightarrow> BuildResult"
  wo_selector :: "int \<Rightarrow> bool"
  wo_needsRanking :: "int \<Rightarrow> bool"
  wo_guardIdentity :: bool
  wo_caps :: "PrivilegeInfo option"
  wo_knownAdmin :: "bool option"
  wo_isAdmin :: bool
  wo_grants :: bool
  wo_tunConflict :: "qstring \<Rightarrow> int \<Rightarrow> qstring"
  wo_otherHeadless :: qstring

text \<open>The points at which a start worker can be interrupted: launched; inside \<open>stop\<close> before and after
  reading the running profile; waiting for the stop; in the second stage, up to the core's reply;
  with its outcome posted; with \<open>mu_starting\<close> released.\<close>

datatype StartPhase = SwLaunched | SwSnapshot | SwLock int | SwWaiting | SwStage2 | SwDone | SwUnlocked

record StartWorker =
  sw_request :: StartRequest
  sw_build :: BuildResult
  sw_phase :: StartPhase

text \<open>A stop worker runs until it has cleared the running profile, then waits for the main thread.\<close>

datatype StopPhase = StRun | StTeardown

record StopWorker =
  st_id :: int
  st_options :: StopOptions
  st_phase :: StopPhase

record StopCall =
  sc_id :: int
  sc_options :: StopOptions
  sc_main :: bool

text \<open>A ranking before a start has the request it resumes; one for an exhausted pool has none.\<close>

record Ranking =
  rk_profile :: int
  rk_request :: "StartRequest option"
  rk_early :: bool

datatype UiTask =
    UFinish StartRequest StartOutcome
  | UStarted StartRequest
  | UConnectingOff
  | UDisconnecting
  | UCancelResume
  | UTeardown StopWorker
  | URanked int "StartRequest option"
  | URankEnded int "StartRequest option" bool
  | UOfferRetry int
  | UOfferReset

datatype Offer = OfferRetry int | OfferReset

record TunCache =
  tc_reason :: qstring
  tc_cidr :: qstring
  tc_port :: int
  tc_at :: nat

record ConnMgr =
  cm_sup :: CoreSup
  cm_set :: CmSettings
  cm_repo :: CmRepo
  cm_options :: RuntimeOptions
  cm_running :: "int option"
  cm_runningTun :: bool
  cm_runningProfiles :: "int set"
  cm_runningRoute :: int
  cm_lastProfileId :: int
  cm_connecting :: bool
  cm_disconnecting :: bool
  cm_lastState :: ConnectionState
  cm_startSerial :: nat
  cm_ksDeferred :: StartRequest
  cm_coreRequest :: StartRequest
  cm_guardRestart :: "nat option"
  cm_ksWasFailed :: bool
  cm_ksWasArmed :: bool
  cm_reasons :: "RestartReason list"
  cm_muStarting :: bool
  cm_muStopping :: bool
  cm_switching :: bool
  cm_tunHeld :: bool
  cm_tunCache :: TunCache
  cm_bootSerial :: nat
  cm_geoRetried :: int
  cm_geoToken :: nat
  cm_rankedFor :: int
  cm_rankingInFlight :: nat
  cm_rankings :: "Ranking list"
  cm_starters :: "StartWorker list"
  cm_stoppers :: "StopWorker list"
  cm_stopCalls :: "StopCall list"
  cm_ui :: "UiTask list"
  cm_offers :: "Offer list"
  cm_geoWaiters :: "(int \<times> nat) list"
  cm_proxyJobs :: "bool list"
  cm_proxyOn :: bool
  cm_asked :: "nat list"
  cm_told :: "(nat \<times> int \<times> StartOutcome) list"
  cm_dispatched :: "(nat \<times> int) list"
  cm_stopped :: "int list"

definition kGuardRestartWindowMs :: nat where "kGuardRestartWindowMs = 15000"
definition kConnectionModesTunBlockedCacheMs :: nat where "kConnectionModesTunBlockedCacheMs = 5000"

text \<open>The callback that \<open>start\<close> registers with \<open>whenSettled\<close>.\<close>

definition kStartWaiter :: nat where "kStartWaiter = 1"

definition noRequest :: StartRequest where
  "noRequest = \<lparr>sr_profileId = - 1, sr_interactive = True, sr_serial = 0\<rparr>"

definition plainRequest :: "int \<Rightarrow> StartRequest" where
  "plainRequest profileId = \<lparr>sr_profileId = profileId, sr_interactive = True, sr_serial = 0\<rparr>"

subsection \<open>State of the run\<close>

definition cmKs :: "ConnMgr \<Rightarrow> KillSwitch" where
  "cmKs cm = cs_ks (cm_sup cm)"

definition cmStartedId :: "ConnMgr \<Rightarrow> int" where
  "cmStartedId cm = cs_startedId (cm_sup cm)"

definition connectionState :: "ConnMgr \<Rightarrow> ConnectionState" where
  "connectionState cm =
     (if cm_connecting cm then Connecting
      else if cm_disconnecting cm then Stopping
      else if cm_running cm \<noteq> None then Running else Idle)"

definition syncState :: "ConnMgr \<Rightarrow> ConnMgr" where
  "syncState cm =
     (if connectionState cm \<noteq> cm_lastState cm
      then cm\<lparr>cm_lastState := connectionState cm, cm_tunCache := (cm_tunCache cm)\<lparr>tc_at := 0\<rparr>\<rparr> else cm)"

definition setRunning :: "int option \<Rightarrow> bool \<Rightarrow> ConnMgr \<Rightarrow> ConnMgr" where
  "setRunning profile tun cm = cm\<lparr>cm_running := profile, cm_runningTun := (profile \<noteq> None \<and> tun)\<rparr>"

definition SetRunningProfiles :: "int set \<Rightarrow> ConnMgr \<Rightarrow> ConnMgr" where
  "SetRunningProfiles profileIDs cm = cm\<lparr>cm_runningProfiles := Set.filter (\<lambda>profile. 0 \<le> profile) profileIDs\<rparr>"

definition ClearRunningProfiles :: "ConnMgr \<Rightarrow> ConnMgr" where
  "ClearRunningProfiles cm = cm\<lparr>cm_runningProfiles := {}, cm_runningRoute := - 1\<rparr>"

definition RunningUsesProfile :: "int \<Rightarrow> ConnMgr \<Rightarrow> bool" where
  "RunningUsesProfile profileID cm \<longleftrightarrow> (if profileID < 0 then False else profileID \<in> cm_runningProfiles cm)"

definition ResolveRouteId :: "int \<Rightarrow> ConnMgr \<Rightarrow> int" where
  "ResolveRouteId groupRouteId cm =
     (if groupRouteId \<ge> 0 \<and> rp_routes (cm_repo cm) groupRouteId then groupRouteId else set_current_route_id (cm_set cm))"

definition RouteIdFor :: "int \<Rightarrow> ConnMgr \<Rightarrow> int" where
  "RouteIdFor gid cm =
     ResolveRouteId (case (if gid \<ge> 0 then rp_groups (cm_repo cm) gid else None) of Some grp \<Rightarrow> gr_route_id grp | None \<Rightarrow> - 1) cm"

definition ActiveRouteId :: "int \<Rightarrow> ConnMgr \<Rightarrow> int" where
  "ActiveRouteId buildRoute cm =
     (if buildRoute \<ge> 0 then buildRoute
      else if cm_runningRoute cm \<ge> 0 then cm_runningRoute cm else set_current_route_id (cm_set cm))"

definition GetProfile :: "int \<Rightarrow> ConnMgr \<Rightarrow> int option" where
  "GetProfile profileId cm = rp_profiles (cm_repo cm) profileId"

definition groupUsable :: "int \<Rightarrow> ConnMgr \<Rightarrow> bool" where
  "groupUsable gid cm \<longleftrightarrow> (case rp_groups (cm_repo cm) gid of None \<Rightarrow> False | Some grp \<Rightarrow> \<not> gr_archive grp)"

fun firstUsable :: "int list \<Rightarrow> ConnMgr \<Rightarrow> int" where
  "firstUsable [] cm = - 1"
| "firstUsable (profile # rest) cm =
     (if profile < 0 \<or> rp_disabled (cm_repo cm) profile then firstUsable rest cm
      else case GetProfile profile cm of
             None \<Rightarrow> firstUsable rest cm
           | Some gid \<Rightarrow> if groupUsable gid cm then profile else firstUsable rest cm)"

definition resolveLastProfile :: "ConnMgr \<Rightarrow> int" where
  "resolveLastProfile cm = firstUsable [cmStartedId cm, cm_lastProfileId cm, set_remember_id (cm_set cm)] cm"

definition nextStartSerial :: "ConnMgr \<Rightarrow> ConnMgr \<times> nat" where
  "nextStartSerial cm = (cm\<lparr>cm_startSerial := Suc (cm_startSerial cm)\<rparr>, Suc (cm_startSerial cm))"

definition noteRestartNeeded :: "RestartReason \<Rightarrow> ConnMgr \<Rightarrow> ConnMgr" where
  "noteRestartNeeded why cm =
     (if cmStartedId cm < 0 \<or> why \<in> set (cm_reasons cm) then cm else cm\<lparr>cm_reasons := cm_reasons cm @ [why]\<rparr>)"

definition clearRestartNeeded :: "ConnMgr \<Rightarrow> ConnMgr" where
  "clearRestartNeeded cm = cm\<lparr>cm_reasons := []\<rparr>"

definition restartPending :: "ConnMgr \<Rightarrow> bool" where
  "restartPending cm \<longleftrightarrow> cm_reasons cm \<noteq> []"

subsection \<open>Starting a profile\<close>

definition startFinished :: "StartRequest \<Rightarrow> StartOutcome \<Rightarrow> ConnMgr \<Rightarrow> ConnMgr" where
  "startFinished request outcome cm = cm\<lparr>cm_told := cm_told cm @ [(sr_serial request, sr_profileId request, outcome)]\<rparr>"

definition deferStartToCore :: "StartRequest \<Rightarrow> ConnMgr \<Rightarrow> ConnMgr" where
  "deferStartToCore request cm =
     (let cm1 = (if sr_profileId (cm_coreRequest cm) \<ge> 0 then startFinished (cm_coreRequest cm) Superseded cm else cm)
      in cm1\<lparr>cm_coreRequest := request\<rparr>)"

definition setBootStart :: "StartRequest \<Rightarrow> ConnMgr \<Rightarrow> ConnMgr" where
  "setBootStart request cm = deferStartToCore request (cm\<lparr>cm_bootSerial := sr_serial request\<rparr>)"

definition guardRestartPending :: "ConnMgr \<Rightarrow> bool" where
  "guardRestartPending cm \<longleftrightarrow>
     (case cm_guardRestart cm of None \<Rightarrow> False | Some t \<Rightarrow> \<not> cs_now (cm_sup cm) - t > kGuardRestartWindowMs)"

definition runningWithoutGuardIdentity :: "World \<Rightarrow> ConnMgr \<Rightarrow> bool" where
  "runningWithoutGuardIdentity w cm \<longleftrightarrow>
     \<not> ks_identityUnsupported (cmKs cm) \<and> cs_process (cm_sup cm) \<and> cs_coreRunning (cm_sup cm) \<and> \<not> wo_guardIdentity w"

definition cmSetStartWhenUp :: "int \<Rightarrow> ConnMgr \<Rightarrow> ConnMgr" where
  "cmSetStartWhenUp profileId cm = cm\<lparr>cm_sup := fst (setStartWhenUp profileId (cm_sup cm))\<rparr>"

definition restartCoreForGuard :: "StartRequest \<Rightarrow> ConnMgr \<Rightarrow> ConnMgr" where
  "restartCoreForGuard request cm =
     (let haveCore = snd (setStartWhenUp (sr_profileId request) (cm_sup cm));
          cm1 = cmSetStartWhenUp (sr_profileId request) cm
      in if \<not> haveCore then startFinished request CoreUnavailable cm1
         else
           let cm2 = deferStartToCore request cm1
           in if guardRestartPending cm2 then cm2
              else cm2\<lparr>cm_guardRestart := Some (cs_now (cm_sup cm2)), cm_sup := restartForGuard (cm_sup cm2)\<rparr>)"

text \<open>\<open>AutoSelectorController::rankBeforeStart\<close>: whether the start waits for a ranking that will resume it.\<close>

definition rankBeforeStart :: "World \<Rightarrow> StartRequest \<Rightarrow> ConnMgr \<Rightarrow> ConnMgr \<times> bool" where
  "rankBeforeStart w request cm0 =
     (let profile = sr_profileId request;
          justRanked = (cm_rankedFor cm0 = profile);
          cm = cm0\<lparr>cm_rankedFor := - 1\<rparr>
      in if \<not> wo_selector w profile \<or> cm_rankingInFlight cm > 0 \<or> justRanked then (cm, False)
         else if \<not> wo_needsRanking w profile then (cm, False)
         else (cm\<lparr>cm_rankingInFlight := Suc (cm_rankingInFlight cm),
                  cm_rankings := cm_rankings cm @ [\<lparr>rk_profile = profile, rk_request = Some request, rk_early = False\<rparr>]\<rparr>, True))"

definition deferToKillSwitch :: "StartRequest \<Rightarrow> ConnMgr \<Rightarrow> ConnMgr" where
  "deferToKillSwitch request cm =
     (let queued = (sr_profileId (cm_ksDeferred cm) \<ge> 0);
          cm1 = (if queued then startFinished (cm_ksDeferred cm) Superseded cm else cm);
          cm2 = cm1\<lparr>cm_ksDeferred := request\<rparr>
      in if \<not> queued then cm2\<lparr>cm_sup := (cm_sup cm2)\<lparr>cs_ks := whenSettled kStartWaiter True (cmKs cm2)\<rparr>\<rparr> else cm2)"

definition launchStart :: "StartRequest \<Rightarrow> BuildResult \<Rightarrow> ConnMgr \<Rightarrow> ConnMgr" where
  "launchStart request build cm =
     syncState (cm\<lparr>cm_muStarting := True, cm_connecting := True,
       cm_starters := cm_starters cm @ [\<lparr>sw_request = request, sw_build = build, sw_phase = SwLaunched\<rparr>]\<rparr>)"

text \<open>\<open>start\<close> from the building of the configuration on.\<close>

definition startBuilt :: "World \<Rightarrow> StartRequest \<Rightarrow> ConnMgr \<Rightarrow> ConnMgr" where
  "startBuilt w request cm =
     (let build = wo_build w (sr_profileId request)
      in if br_error build \<noteq> [] then startFinished request BuildFailed cm
         else if cm_muStarting cm then startFinished request Busy cm
         else if cm_muStopping cm then startFinished request Busy cm
         else if cs_probing (cm_sup cm) then cmSetStartWhenUp (sr_profileId request) (deferStartToCore request cm)
         else if \<not> cs_coreRunning (cm_sup cm) then
           (if \<not> canStartCore (cm_sup cm) then startFinished request CoreUnavailable cm
            else let cm1 = deferStartToCore request cm
                 in cm1\<lparr>cm_sup := fst (restartNotListening (sr_profileId request) (cm_sup cm1))\<rparr>)
         else launchStart request build cm)"

text \<open>\<open>start\<close> once the profile and its group are known to be usable.\<close>

definition startUsable :: "World \<Rightarrow> StartRequest \<Rightarrow> ConnMgr \<Rightarrow> ConnMgr" where
  "startUsable w request cm =
     (if ks_state (cmKs cm) = Arming then deferToKillSwitch request cm
      else if \<not> allowsStart (cmKs cm) then startFinished request KillSwitchInactive cm
      else if guardRestartPending cm \<or> (ks_state (cmKs cm) = Armed \<and> runningWithoutGuardIdentity w cm)
      then restartCoreForGuard request cm
      else case rankBeforeStart w request cm of (cm1, waits) \<Rightarrow> if waits then cm1 else startBuilt w request cm1)"

definition cmStart :: "World \<Rightarrow> StartRequest \<Rightarrow> ConnMgr \<Rightarrow> ConnMgr" where
  "cmStart w request cm0 =
     (let cm = cm0\<lparr>cm_geoToken := Suc (cm_geoToken cm0)\<rparr>
      in if csPrepareExit (cm_sup cm) then startFinished request Exiting cm
         else case (if sr_profileId request \<ge> 0 then GetProfile (sr_profileId request) cm else None) of
                None \<Rightarrow> startFinished request NotFound cm
              | Some gid \<Rightarrow>
                  if rp_disabled (cm_repo cm) (sr_profileId request) then startFinished request NotFound cm
                  else
                    let cm1 = cm\<lparr>cm_lastProfileId := sr_profileId request,
                                 cm_dispatched := cm_dispatched cm @ [(sr_serial request, sr_profileId request)]\<rparr>
                    in if \<not> groupUsable gid cm1 then startFinished request GroupUnavailable cm1
                       else startUsable w request cm1)"

text \<open>A request that a caller makes, as opposed to one that was kept back and resumes.\<close>

definition askStart :: "World \<Rightarrow> StartRequest \<Rightarrow> ConnMgr \<Rightarrow> ConnMgr" where
  "askStart w request cm = cmStart w request (cm\<lparr>cm_asked := cm_asked cm @ [sr_serial request]\<rparr>)"

text \<open>\<open>startRanked\<close> and the closures that resume a ranked start.\<close>

definition startRanked :: "World \<Rightarrow> int \<Rightarrow> StartRequest \<Rightarrow> ConnMgr \<Rightarrow> ConnMgr" where
  "startRanked w profileID request cm = (cmStart w request (cm\<lparr>cm_rankedFor := profileID\<rparr>))\<lparr>cm_rankedFor := - 1\<rparr>"

definition resumeRanked :: "World \<Rightarrow> int \<Rightarrow> StartRequest option \<Rightarrow> ConnMgr \<Rightarrow> ConnMgr" where
  "resumeRanked w profileID request cm =
     (case request of
        Some r \<Rightarrow> startRanked w profileID r cm
      | None \<Rightarrow> if cm_running cm \<noteq> Some profileID then cm else startRanked w profileID (plainRequest profileID) cm)"

definition onPoolExhausted :: "int \<Rightarrow> ConnMgr \<Rightarrow> ConnMgr" where
  "onPoolExhausted profileID cm =
     (if GetProfile profileID cm = None \<or> cm_running cm \<noteq> Some profileID then cm
      else cm\<lparr>cm_rankingInFlight := Suc (cm_rankingInFlight cm),
              cm_rankings := cm_rankings cm @ [\<lparr>rk_profile = profileID, rk_request = None, rk_early = False\<rparr>]\<rparr>)"

definition restartStartedProfile :: "World \<Rightarrow> bool \<Rightarrow> nat \<Rightarrow> ConnMgr \<Rightarrow> ConnMgr \<times> bool" where
  "restartStartedProfile w interactive restartSerial cm =
     (if cmStartedId cm < 0 then (cm, False)
      else (askStart w \<lparr>sr_profileId = cmStartedId cm, sr_interactive = interactive, sr_serial = restartSerial\<rparr> cm, True))"

definition applyPendingRestart :: "World \<Rightarrow> ConnMgr \<Rightarrow> ConnMgr" where
  "applyPendingRestart w cm =
     (let startedId = cmStartedId cm; cm1 = clearRestartNeeded cm
      in if startedId \<ge> 0 then askStart w (plainRequest startedId) cm1 else cm1)"

definition retryAfterGeoFetch :: "World \<Rightarrow> int \<Rightarrow> nat \<Rightarrow> ConnMgr \<Rightarrow> ConnMgr" where
  "retryAfterGeoFetch w profileId token cm =
     (if token \<noteq> cm_geoToken cm then cm
      else
        let cm1 = cm\<lparr>cm_geoRetried := profileId\<rparr>
        in if cm_geoRetried cm = profileId then cm1
           else if csPrepareExit (cm_sup cm1) \<or> connectionState cm1 \<noteq> Idle \<or> cm_lastProfileId cm1 \<noteq> profileId then cm1
           else askStart w \<lparr>sr_profileId = profileId, sr_interactive = False, sr_serial = 0\<rparr> cm1)"

subsection \<open>The kill switch\<close>

definition onKillSwitchStateChanged :: "World \<Rightarrow> ConnMgr \<Rightarrow> ConnMgr" where
  "onKillSwitchStateChanged w cm =
     (let failed = (ks_state (cmKs cm) = Failed);
          armed = (ks_state (cmKs cm) = Armed);
          enteredArmed = (armed \<and> \<not> cm_ksWasArmed cm);
          cm1 = cm\<lparr>cm_ksWasFailed := failed, cm_ksWasArmed := armed\<rparr>
      in if enteredArmed \<and> \<not> guardRestartPending cm1 \<and> runningWithoutGuardIdentity w cm1 then
           (if cs_probing (cm_sup cm1) \<and> cs_startWhenUp (cm_sup cm1) \<ge> 0 then
              (if sr_profileId (cm_coreRequest cm1) \<ge> 0
               then restartCoreForGuard (cm_coreRequest cm1) (cm1\<lparr>cm_coreRequest := noRequest\<rparr>)
               else restartCoreForGuard (plainRequest (cs_startWhenUp (cm_sup cm1))) cm1)
            else restartCoreForGuard (plainRequest (cmStartedId cm1)) cm1)
         else cm1)"

text \<open>The callback of \<open>whenSettled\<close>.\<close>

definition settledStart :: "World \<Rightarrow> ConnMgr \<Rightarrow> ConnMgr" where
  "settledStart w cm =
     (let next = cm_ksDeferred cm; cm1 = cm\<lparr>cm_ksDeferred := noRequest\<rparr>
      in if sr_profileId next \<ge> 0 then cmStart w next cm1 else cm1)"

text \<open>What an operation of the kill switch calls back: \<open>stateChanged\<close> when the state changed, then the
  callbacks of the waiters that were let go.\<close>

definition killSwitchTo :: "World \<Rightarrow> KillSwitch \<Rightarrow> ConnMgr \<Rightarrow> ConnMgr" where
  "killSwitchTo w ks' cm =
     (let ks = cmKs cm;
          cm1 = cm\<lparr>cm_sup := (cm_sup cm)\<lparr>cs_ks := ks'\<rparr>\<rparr>;
          cm2 = (if ks_state ks' \<noteq> ks_state ks then onKillSwitchStateChanged w cm1 else cm1)
      in fold (\<lambda>call cm. if fst call = kStartWaiter then settledStart w cm else cm)
           (drop (length (ks_calls ks)) (ks_calls ks')) cm2)"

definition disableKillSwitch :: "World \<Rightarrow> ConnMgr \<Rightarrow> ConnMgr" where
  "disableKillSwitch w cm =
     (let ks = cmKs cm; ks1 = ks\<lparr>ks_settings := (ks_settings ks)\<lparr>kill_switch := False\<rparr>\<rparr>
      in killSwitchTo w (applyKs ks1) (cm\<lparr>cm_sup := (cm_sup cm)\<lparr>cs_ks := ks1\<rparr>\<rparr>))"

subsection \<open>Modes\<close>

definition connectionModesTunCapsBlocker :: "World \<Rightarrow> bool \<Rightarrow> qstring" where
  "connectionModesTunCapsBlocker w canElevate =
     (case wo_caps w of
        None \<Rightarrow> []
      | Some caps \<Rightarrow>
          if pi_tunDevice caps \<noteq> Some False \<and> pi_netAdmin caps \<noteq> Some False then []
          else if canElevate \<and> \<not> pi_privileged caps then []
          else if pi_detail caps \<noteq> [] then pi_detail caps
          else if pi_tunDevice caps = Some False then qs ''the core cannot open /dev/net/tun''
          else qs ''the core lacks CAP_NET_ADMIN'')"

definition tunPrivileged :: "World \<Rightarrow> ConnMgr \<Rightarrow> bool" where
  "tunPrivileged w cm \<longleftrightarrow>
     (case wo_knownAdmin w of Some known \<Rightarrow> known | None \<Rightarrow> ro_blockingPrivilegeCheck (cm_options cm) \<and> wo_isAdmin w)"

definition ensureTunPrivileges :: "World \<Rightarrow> bool \<Rightarrow> ConnMgr \<Rightarrow> bool" where
  "ensureTunPrivileges w interactive cm \<longleftrightarrow>
     (if set_disable_privilege_req (cm_set cm) then True
      else if connectionModesTunCapsBlocker w interactive \<noteq> [] then False
      else if tunPrivileged w cm then True
      else if \<not> interactive then False
      else wo_grants w)"

definition tunBlockedReason :: "World \<Rightarrow> ConnMgr \<Rightarrow> ConnMgr \<times> qstring" where
  "tunBlockedReason w cm =
     (if set_spmode_vpn (cm_set cm) \<or> cm_runningTun cm then (cm, [])
      else if connectionState cm = Connecting \<or> connectionState cm = Stopping then (cm, [])
      else
        let now = cs_now (cm_sup cm);
            dnsProbePort = (if cm_running cm \<noteq> None then 0 else set_core_dns_in_port (cm_set cm));
            cidr = vpn_tun_ipv4_cidr (ks_settings (cmKs cm));
            cache = cm_tunCache cm
        in if tc_at cache \<noteq> 0 \<and> tc_cidr cache = cidr \<and> tc_port cache = dnsProbePort
              \<and> now - tc_at cache < kConnectionModesTunBlockedCacheMs
           then (cm, tc_reason cache)
           else
             let why = (if ro_headless (cm_options cm) then wo_tunConflict w cidr dnsProbePort else wo_otherHeadless w)
             in (cm\<lparr>cm_tunCache := \<lparr>tc_reason = why, tc_cidr = cidr, tc_port = dnsProbePort, tc_at = max now 1\<rparr>\<rparr>, why))"

definition tunRestoreHoldReason :: "World \<Rightarrow> ConnMgr \<Rightarrow> ConnMgr \<times> qstring" where
  "tunRestoreHoldReason w cm =
     (case tunBlockedReason w cm of
        (cm1, why) \<Rightarrow>
          if why \<noteq> [] then (cm1, why)
          else if connectionModesTunCapsBlocker w False \<noteq> [] then (cm1, connectionModesTunCapsBlocker w False)
          else (cm1, qs ''the core lacks the privileges Tun needs''))"

text \<open>The system proxy is changed by a queue of its own, in call order.\<close>

definition applySystemProxy :: "bool \<Rightarrow> ConnMgr \<Rightarrow> ConnMgr" where
  "applySystemProxy enable cm = cm\<lparr>cm_proxyJobs := cm_proxyJobs cm @ [enable]\<rparr>"

definition runProxyJob :: "bool \<Rightarrow> ConnMgr \<Rightarrow> ConnMgr" where
  "runProxyJob enable cm =
     (if \<not> enable then cm\<lparr>cm_proxyOn := False\<rparr>
      else if set_spmode_system_proxy (cm_set cm) then cm\<lparr>cm_proxyOn := True\<rparr> else cm)"

definition setSystemProxy :: "World \<Rightarrow> bool \<Rightarrow> ModeChange \<Rightarrow> ConnMgr \<Rightarrow> ConnMgr \<times> bool" where
  "setSystemProxy w enable change cm =
     (if \<not> ro_systemProxy (cm_options cm) then (cm, False)
      else if enable \<and> set_disable_mixed_inbound (cm_set cm) then (cm, False)
      else
        let cm1 = cm\<lparr>cm_set := (cm_set cm)\<lparr>set_spmode_system_proxy := enable\<rparr>\<rparr>;
            (cm2, restarted) =
              (case cm_running cm1 of
                 None \<Rightarrow> (cm1, False)
               | Some running \<Rightarrow>
                   let cma = applySystemProxy enable cm1
                   in if \<not> enable \<and> set_reset_proxy_on_disable_sp (cm_set cma) \<and> mc_restart change
                      then (askStart w \<lparr>sr_profileId = running, sr_interactive = mc_interactive change,
                              sr_serial = mc_restartSerial change\<rparr> cma, True)
                      else (cma, False));
            cm3 = (if mc_save change then cm2\<lparr>cm_set := (cm_set cm2)\<lparr>set_remember_system_proxy := enable\<rparr>\<rparr> else cm2)
        in (cm3, restarted))"

text \<open>\<open>setTun\<close>: giving up a held restore, the checks before an enable, and the change itself.\<close>

definition dropTunHold :: "bool \<Rightarrow> ModeChange \<Rightarrow> ConnMgr \<Rightarrow> ConnMgr" where
  "dropTunHold enable change cm =
     (if \<not> enable \<and> cm_tunHeld cm then
        let cm1 = cm\<lparr>cm_tunHeld := False\<rparr>
        in if mc_save change then cm1\<lparr>cm_set := (cm_set cm1)\<lparr>set_remember_tun := False\<rparr>\<rparr> else cm1
      else cm)"

definition tunAllowed :: "World \<Rightarrow> ModeChange \<Rightarrow> ConnMgr \<Rightarrow> ConnMgr \<times> bool" where
  "tunAllowed w change cm =
     (case tunBlockedReason w cm of
        (cm1, why) \<Rightarrow>
          if why \<noteq> [] then (cm1, False)
          else if (\<not> tunPrivileged w cm1 \<or> connectionModesTunCapsBlocker w True \<noteq> [])
                  \<and> \<not> ensureTunPrivileges w (mc_interactive change) cm1 then (cm1, False)
          else (cm1, True))"

definition switchTun :: "World \<Rightarrow> bool \<Rightarrow> ModeChange \<Rightarrow> ConnMgr \<Rightarrow> ConnMgr \<times> bool" where
  "switchTun w enable change cm =
     (let cm1 = cm\<lparr>cm_tunHeld := False, cm_tunCache := (cm_tunCache cm)\<lparr>tc_at := 0\<rparr>\<rparr>;
          cm2 = (if mc_save change then cm1\<lparr>cm_set := (cm_set cm1)\<lparr>set_remember_tun := enable\<rparr>\<rparr> else cm1);
          cm3 = cm2\<lparr>cm_set := (cm_set cm2)\<lparr>set_spmode_vpn := enable\<rparr>\<rparr>
      in if \<not> mc_restart change \<or> cmStartedId cm3 < 0 then (cm3, False)
         else (askStart w \<lparr>sr_profileId = cmStartedId cm3, sr_interactive = mc_interactive change,
                 sr_serial = mc_restartSerial change\<rparr> cm3, True))"

definition setTun :: "World \<Rightarrow> bool \<Rightarrow> ModeChange \<Rightarrow> ConnMgr \<Rightarrow> ConnMgr \<times> bool" where
  "setTun w enable change cm0 =
     (let cm = dropTunHold enable change cm0
      in if enable = set_spmode_vpn (cm_set cm) then (cm, False)
         else if enable then
           (case tunAllowed w change cm of (cm1, allowed) \<Rightarrow> if \<not> allowed then (cm1, False) else switchTun w enable change cm1)
         else switchTun w enable change cm)"

definition chooseRoute :: "World \<Rightarrow> int \<Rightarrow> bool \<Rightarrow> nat \<Rightarrow> ConnMgr \<Rightarrow> ConnMgr \<times> bool" where
  "chooseRoute w routeId interactive restartSerial cm =
     (if set_current_route_id (cm_set cm) = routeId then (cm, False)
      else
        let cm1 = cm\<lparr>cm_set := (cm_set cm)\<lparr>set_current_route_id := routeId\<rparr>\<rparr>
        in if cmStartedId cm1 < 0 then (cm1, False)
           else if (case cm_running cm1 of
                      None \<Rightarrow> False
                    | Some running \<Rightarrow> cm_runningRoute cm1 \<ge> 0
                        \<and> RouteIdFor (case GetProfile running cm1 of Some gid \<Rightarrow> gid | None \<Rightarrow> - 1) cm1 = cm_runningRoute cm1)
           then (cm1, False)
           else (askStart w \<lparr>sr_profileId = cmStartedId cm1, sr_interactive = interactive, sr_serial = restartSerial\<rparr> cm1, True))"

subsection \<open>Stopping\<close>

definition UpdateStartedId :: "int \<Rightarrow> ConnMgr \<Rightarrow> ConnMgr" where
  "UpdateStartedId profile cm =
     cm\<lparr>cm_sup := (cm_sup cm)\<lparr>cs_startedId := profile\<rparr>, cm_set := (cm_set cm)\<lparr>set_remember_id := profile\<rparr>\<rparr>"

definition cmPost :: "UiTask list \<Rightarrow> ConnMgr \<Rightarrow> ConnMgr" where
  "cmPost tasks cm = cm\<lparr>cm_ui := cm_ui cm @ tasks\<rparr>"

text \<open>\<open>stop\<close> up to the running profile it found; \<open>onMain\<close> says whether the caller is the main thread, where a
  posted closure runs at once.\<close>

definition stopBegin :: "StopOptions \<Rightarrow> bool \<Rightarrow> ConnMgr \<Rightarrow> ConnMgr \<times> int option" where
  "stopBegin options onMain cm =
     (let cm1 = (if so_manual options then cm\<lparr>cm_geoToken := Suc (cm_geoToken cm)\<rparr> else cm)
      in case cm_running cm1 of
           None \<Rightarrow>
             (if so_manual options \<and> \<not> so_crash options
              then (if onMain then cm1\<lparr>cm_sup := cancelResume (cm_sup cm1)\<rparr> else cmPost [UCancelResume] cm1) else cm1, None)
         | Some current \<Rightarrow> (cm1, Some current))"

text \<open>\<open>stop\<close> from the lock on.\<close>

definition stopLock :: "StopCall \<Rightarrow> ConnMgr \<Rightarrow> ConnMgr" where
  "stopLock call cm =
     (if cm_muStopping cm then cm
      else
        let cm1 = cm\<lparr>cm_muStopping := True\<rparr>;
            cm2 = (if sc_main call then syncState (cm1\<lparr>cm_disconnecting := True\<rparr>) else cmPost [UDisconnecting] cm1)
        in cm2\<lparr>cm_stoppers := cm_stoppers cm2 @ [\<lparr>st_id = sc_id call, st_options = sc_options call, st_phase = StRun\<rparr>]\<rparr>)"

definition cmStop :: "StopOptions \<Rightarrow> bool \<Rightarrow> ConnMgr \<Rightarrow> ConnMgr" where
  "cmStop options onMain cm =
     (case stopBegin options onMain cm of
        (cm1, None) \<Rightarrow> cm1
      | (cm1, Some current) \<Rightarrow>
          cm1\<lparr>cm_stopCalls := cm_stopCalls cm1 @ [\<lparr>sc_id = current, sc_options = options, sc_main = onMain\<rparr>]\<rparr>)"

text \<open>The stop worker up to the closure that tears down on the main thread; \<open>stopped\<close> is the answer of
  \<open>profile_stop_stage2\<close>.\<close>

definition stopClear :: "bool \<Rightarrow> StopWorker \<Rightarrow> ConnMgr \<Rightarrow> ConnMgr" where
  "stopClear stopped worker cm =
     (let cm1 = (if stopped \<and> set_spmode_system_proxy (cm_set cm) then applySystemProxy False cm else cm);
          cm2 = (if so_manual (st_options worker) then UpdateStartedId NoProfileId cm1 else cm1)
      in cmPost [UTeardown (worker\<lparr>st_phase := StTeardown\<rparr>)] (setRunning None False (ClearRunningProfiles cm2)))"

definition stopTeardown :: "StopWorker \<Rightarrow> ConnMgr \<Rightarrow> ConnMgr" where
  "stopTeardown worker cm =
     (let cm1 = syncState (clearRestartNeeded (cm\<lparr>cm_disconnecting := False\<rparr>))
      in cm1\<lparr>cm_muStopping := False, cm_stoppers := remove1 worker (cm_stoppers cm1),
             cm_stopped := cm_stopped cm1 @ [st_id worker]\<rparr>)"

subsection \<open>The start worker\<close>

text \<open>What the second stage meets: whether the extra core was let through the kill switch, whether the core
  answered, its error text, whether that text is about geo assets and whether their download was started.\<close>

record CoreReply =
  cr_permitted :: bool
  cr_rpcOK :: bool
  cr_error :: qstring
  cr_geo :: bool
  cr_fetch :: bool

definition foldAscii :: "qchar \<Rightarrow> qchar" where
  "foldAscii c = (if 65 \<le> c \<and> c \<le> 90 then c + 32 else c)"

definition containsNoCase :: "qstring \<Rightarrow> qstring \<Rightarrow> bool" where
  "containsNoCase sub s \<longleftrightarrow> containsStr (map foldAscii sub) (map foldAscii s)"

definition stage2Outcome :: "BuildResult \<Rightarrow> CoreReply \<Rightarrow> StartOutcome" where
  "stage2Outcome build reply =
     (if br_extraCore build \<and> \<not> cr_permitted reply then ExtraCoreBlocked
      else if \<not> cr_rpcOK reply then CoreUnavailable
      else if cr_error reply \<noteq> [] then
        (if cr_geo reply then GeoAssetsMissing
         else if containsNoCase (qs ''Fwpm'') (cr_error reply) then StrictRouteUnavailable
         else if containsStr (qs ''configure tun interface'') (cr_error reply) then TunFailed
         else StartFailed)
      else Started)"

definition stage2FollowUps :: "StartRequest \<Rightarrow> CoreReply \<Rightarrow> StartOutcome \<Rightarrow> UiTask list" where
  "stage2FollowUps request reply outcome =
     (if outcome = TunFailed \<and> sr_interactive request then
        (if containsStr (qs ''open existing adapter'') (cr_error reply) then [UOfferRetry (sr_profileId request)] else [UOfferReset])
      else [])"

definition profile_start_stage2 :: "CoreReply \<Rightarrow> StartWorker \<Rightarrow> ConnMgr \<Rightarrow> ConnMgr" where
  "profile_start_stage2 reply worker cm =
     (let request = sw_request worker; build = sw_build worker; outcome = stage2Outcome build reply
      in if outcome = Started then
           let cm1 = SetRunningProfiles (br_involved build) (UpdateStartedId (sr_profileId request) cm);
               cm2 = setRunning (Some (sr_profileId request)) (br_tun build) (cm1\<lparr>cm_runningRoute := br_routeId build\<rparr>);
               cm3 = (if set_spmode_system_proxy (cm_set cm2) then applySystemProxy True cm2 else cm2)
           in cmPost [UStarted request] cm3
         else
           let cm1 = (if outcome = GeoAssetsMissing \<and> ro_geoAutoDownload (cm_options cm) \<and> cr_fetch reply \<and> \<not> sr_interactive request
                      then cm\<lparr>cm_geoWaiters := cm_geoWaiters cm @ [(sr_profileId request, cm_geoToken cm)]\<rparr> else cm)
           in cmPost (UFinish request outcome # stage2FollowUps request reply outcome) cm1)"

text \<open>One step of the worker; it waits only for \<open>mu_stopping\<close>.\<close>

definition workerReady :: "StartWorker \<Rightarrow> ConnMgr \<Rightarrow> bool" where
  "workerReady worker cm \<longleftrightarrow> sw_phase worker \<noteq> SwUnlocked \<and> (sw_phase worker = SwWaiting \<longrightarrow> \<not> cm_muStopping cm)"

definition switchStop :: "StartWorker \<Rightarrow> StopOptions" where
  "switchStop worker = \<lparr>so_crash = False, so_block = False, so_manual = True, so_interactive = sr_interactive (sw_request worker)\<rparr>"

definition startWorkerStep :: "CoreReply \<Rightarrow> StartWorker \<Rightarrow> ConnMgr \<Rightarrow> StartPhase \<times> ConnMgr" where
  "startWorkerStep reply worker cm =
     (case sw_phase worker of
        SwLaunched \<Rightarrow> if cm_running cm = None then (SwStage2, cm) else (SwSnapshot, cm\<lparr>cm_switching := True\<rparr>)
      | SwSnapshot \<Rightarrow>
          (case stopBegin (switchStop worker) False cm of
             (cm1, None) \<Rightarrow> (SwWaiting, cm1)
           | (cm1, Some current) \<Rightarrow> (SwLock current, cm1))
      | SwLock current \<Rightarrow>
          (SwWaiting, stopLock \<lparr>sc_id = current, sc_options = switchStop worker, sc_main = False\<rparr> cm)
      | SwWaiting \<Rightarrow> (SwStage2, cm\<lparr>cm_switching := False\<rparr>)
      | SwStage2 \<Rightarrow> (SwDone, profile_start_stage2 reply worker cm)
      | SwDone \<Rightarrow> (SwUnlocked, cm\<lparr>cm_muStarting := False\<rparr>)
      | SwUnlocked \<Rightarrow> (SwUnlocked, cm))"

subsection \<open>Closures on the main thread\<close>

definition runUi :: "World \<Rightarrow> UiTask \<Rightarrow> ConnMgr \<Rightarrow> ConnMgr" where
  "runUi w task cm =
     (case task of
        UFinish request outcome \<Rightarrow> startFinished request outcome cm
      | UStarted request \<Rightarrow> startFinished request Started (clearRestartNeeded (cm\<lparr>cm_geoRetried := - 1\<rparr>))
      | UConnectingOff \<Rightarrow> syncState (cm\<lparr>cm_connecting := False\<rparr>)
      | UDisconnecting \<Rightarrow> syncState (cm\<lparr>cm_disconnecting := True\<rparr>)
      | UCancelResume \<Rightarrow> cm\<lparr>cm_sup := cancelResume (cm_sup cm)\<rparr>
      | UTeardown worker \<Rightarrow> stopTeardown worker cm
      | URanked profile request \<Rightarrow> resumeRanked w profile request cm
      | URankEnded profile request early \<Rightarrow>
          let cm1 = cm\<lparr>cm_rankingInFlight := cm_rankingInFlight cm - 1\<rparr>
          in if early then cm1 else resumeRanked w profile request cm1
      | UOfferRetry profile \<Rightarrow> cm\<lparr>cm_offers := cm_offers cm @ [OfferRetry profile]\<rparr>
      | UOfferReset \<Rightarrow> cm\<lparr>cm_offers := cm_offers cm @ [OfferReset]\<rparr>)"

definition answerOffer :: "World \<Rightarrow> bool \<Rightarrow> Offer \<Rightarrow> ConnMgr \<Rightarrow> ConnMgr" where
  "answerOffer w yes offer cm =
     (if \<not> yes then cm
      else case offer of
             OfferRetry profile \<Rightarrow>
               if csPrepareExit (cm_sup cm) \<or> connectionState cm \<noteq> Idle then cm else askStart w (plainRequest profile) cm
           | OfferReset \<Rightarrow> cm\<lparr>cm_sup := fst (resetCore (cm_sup cm))\<rparr>)"

subsection \<open>The core\<close>

definition restoreModes :: "World \<Rightarrow> ConnMgr \<Rightarrow> ConnMgr" where
  "restoreModes w cm =
     (if ro_headless (cm_options cm) then
        let wantTun = (set_remember_tun (cm_set cm) \<or> set_flag_restart_tun_on (cm_set cm));
            cm1 = (if wantTun then
                     let c = fst (setTun w True \<lparr>mc_save = False, mc_interactive = False, mc_restart = False, mc_restartSerial = 0\<rparr> cm)
                     in c\<lparr>cm_set := (cm_set c)\<lparr>set_flag_restart_tun_on := False\<rparr>\<rparr>
                   else cm);
            cm2 = cm1\<lparr>cm_tunHeld := (ro_tunRequired (cm_options cm1) \<and> wantTun \<and> \<not> set_spmode_vpn (cm_set cm1))\<rparr>
        in if cm_tunHeld cm2 then fst (tunRestoreHoldReason w cm2) else cm2
      else
        let cm1 = (if set_remember_enable (cm_set cm) \<and> set_remember_system_proxy (cm_set cm)
                   then fst (setSystemProxy w True \<lparr>mc_save = False, mc_interactive = True, mc_restart = True, mc_restartSerial = 0\<rparr> cm)
                   else cm)
        in if (set_remember_enable (cm_set cm1) \<and> set_remember_tun (cm_set cm1)) \<or> set_flag_restart_tun_on (cm_set cm1) then
             let c = fst (setTun w True \<lparr>mc_save = set_flag_restart_tun_on (cm_set cm1), mc_interactive = True, mc_restart = True,
                            mc_restartSerial = 0\<rparr> cm1)
             in c\<lparr>cm_set := (cm_set c)\<lparr>set_flag_restart_tun_on := False\<rparr>\<rparr>
           else cm1)"

text \<open>The start that waited for the core, once the modes are restored.\<close>

definition coreStartedStart :: "World \<Rightarrow> int \<Rightarrow> ConnMgr \<Rightarrow> ConnMgr" where
  "coreStartedStart w profileId cm =
     (let request = cm_coreRequest cm; bootSerial = cm_bootSerial cm;
          cm1 = cm\<lparr>cm_coreRequest := noRequest, cm_bootSerial := 0\<rparr>;
          cm2 = (if sr_profileId request \<ge> 0 \<and> sr_profileId request \<noteq> profileId then startFinished request Superseded cm1 else cm1)
      in if profileId \<ge> 0 then
           let next = (if sr_profileId request = profileId then request else plainRequest profileId)
           in if cm_tunHeld cm2 \<and> sr_serial next \<noteq> 0 \<and> sr_serial next = bootSerial
              then startFinished next TunFailed cm2 else cmStart w next cm2
         else cm2)"

definition onCoreStarted :: "World \<Rightarrow> int \<Rightarrow> ConnMgr \<Rightarrow> ConnMgr" where
  "onCoreStarted w profileId cm =
     (let cm1 = cm\<lparr>cm_guardRestart := None\<rparr>;
          cm2 = (if failedForPrivileges (cmKs cm1) then killSwitchTo w (applyKs (cmKs cm1)) cm1 else cm1)
      in coreStartedStart w profileId (restoreModes w cm2))"

definition onCoreGaveUp :: "ConnMgr \<Rightarrow> ConnMgr" where
  "onCoreGaveUp cm =
     (let request = cm_coreRequest cm; cm1 = cm\<lparr>cm_guardRestart := None, cm_coreRequest := noRequest\<rparr>
      in if sr_profileId request \<ge> 0 then startFinished request CoreUnavailable cm1 else cm1)"

subsection \<open>Interleavings\<close>

text \<open>Every call of the manager from outside, every event of the core and the kill switch and every turn of a
  thread is a step. The supervisor does anything it likes between the calls of the manager; the kill switch
  moves by its own steps, one line of a guard at a time, and nobody else uses the callback of \<open>start\<close>. The
  program never stops leaving; \<open>setBootStart\<close> is called with a profile.\<close>

definition ksEventOk :: "KsEvent \<Rightarrow> bool" where
  "ksEventOk e \<longleftrightarrow>
     (case e of
        EFinished g ls code crashed \<Rightarrow> ls = []
      | EWhenSettled c b \<Rightarrow> c \<noteq> kStartWaiter
      | EWhenIdle c \<Rightarrow> c \<noteq> kStartWaiter
      | EContextGone c \<Rightarrow> c \<noteq> kStartWaiter
      | _ \<Rightarrow> True)"

inductive cm_step :: "ConnMgr \<Rightarrow> ConnMgr \<Rightarrow> bool" where
  cm_ask: "cm_step cm (askStart w r cm)"
| cm_serial: "cm_step cm (fst (nextStartSerial cm))"
| cm_restartStarted: "cm_step cm (fst (restartStartedProfile w i s cm))"
| cm_applyPending: "cm_step cm (applyPendingRestart w cm)"
| cm_boot: "sr_profileId r \<ge> 0 \<Longrightarrow> cm_step cm (setBootStart r (cm\<lparr>cm_asked := cm_asked cm @ [sr_serial r]\<rparr>))"
| cm_tun: "cm_step cm (fst (setTun w enable change cm))"
| cm_proxy: "cm_step cm (fst (setSystemProxy w enable change cm))"
| cm_route: "cm_step cm (fst (chooseRoute w route i s cm))"
| cm_note: "cm_step cm (noteRestartNeeded why cm)"
| cm_disableKs: "cm_step cm (disableKillSwitch w cm)"
| cm_attached: "cm_step cm (onKillSwitchStateChanged w cm)"
| cm_exhausted: "cm_step cm (onPoolExhausted profile cm)"
| cm_rebuild: "cm_running cm = Some profile \<Longrightarrow> connectionState cm = Running
    \<Longrightarrow> cm_step cm (startRanked w profile (plainRequest profile) cm)"
| cm_geo: "(profile, token) \<in> set (cm_geoWaiters cm) \<Longrightarrow> cm_step cm (retryAfterGeoFetch w profile token cm)"
| cm_offer: "cm_offers cm = xs @ offer # ys \<Longrightarrow> cm_step cm (answerOffer w yes offer (cm\<lparr>cm_offers := xs @ ys\<rparr>))"
| cm_stop: "cm_step cm (cmStop options onMain cm)"
| cm_stopLock: "cm_stopCalls cm = xs @ call # ys \<Longrightarrow> cm_step cm (stopLock call (cm\<lparr>cm_stopCalls := xs @ ys\<rparr>))"
| cm_stopWorker: "cm_stoppers cm = xs @ worker # ys \<Longrightarrow> st_phase worker = StRun
    \<Longrightarrow> cm_step cm (stopClear stopped worker (cm\<lparr>cm_stoppers := xs @ worker\<lparr>st_phase := StTeardown\<rparr> # ys\<rparr>))"
| cm_worker: "cm_starters cm = xs @ worker # ys \<Longrightarrow> workerReady worker cm \<Longrightarrow> startWorkerStep reply worker cm = (phase, cm')
    \<Longrightarrow> cm_step cm (cm'\<lparr>cm_starters := xs @ worker\<lparr>sw_phase := phase\<rparr> # ys\<rparr>)"
| cm_workerEnd: "cm_starters cm = xs @ worker # ys \<Longrightarrow> sw_phase worker = SwUnlocked
    \<Longrightarrow> cm_step cm (cmPost [UConnectingOff] (cm\<lparr>cm_starters := xs @ ys\<rparr>))"
| cm_rankEarly: "cm_rankings cm = xs @ rk # ys \<Longrightarrow> \<not> rk_early rk
    \<Longrightarrow> cm_step cm (cmPost [URanked (rk_profile rk) (rk_request rk)] (cm\<lparr>cm_rankings := xs @ rk\<lparr>rk_early := True\<rparr> # ys\<rparr>))"
| cm_rankEnd: "cm_rankings cm = xs @ rk # ys
    \<Longrightarrow> cm_step cm (cmPost [URankEnded (rk_profile rk) (rk_request rk) (rk_early rk)] (cm\<lparr>cm_rankings := xs @ ys\<rparr>))"
| cm_runUi: "cm_ui cm = task # rest \<Longrightarrow> cm_step cm (runUi w task (cm\<lparr>cm_ui := rest\<rparr>))"
| cm_proxyJob: "cm_proxyJobs cm = job # rest \<Longrightarrow> cm_step cm (runProxyJob job (cm\<lparr>cm_proxyJobs := rest\<rparr>))"
| cm_coreStarted: "cm_step cm (onCoreStarted w profileId cm)"
| cm_coreGaveUp: "cm_step cm (onCoreGaveUp cm)"
| cm_supervisor: "cs_ks super = cmKs cm \<Longrightarrow> cm_step cm (cm\<lparr>cm_sup := super\<rparr>)"
| cm_killSwitch: "ks_step e (cmKs cm) ks' \<Longrightarrow> ksEventOk e \<Longrightarrow> (csPrepareExit (cm_sup cm) \<Longrightarrow> prepare_exit (ks_settings ks'))
    \<Longrightarrow> cm_step cm (killSwitchTo w ks' cm)"
| cm_settings: "cm_step cm (cm\<lparr>cm_set := settings\<rparr>)"
| cm_repository: "cm_step cm (cm\<lparr>cm_repo := repo\<rparr>)"

text \<open>The member initialisers and the constructor.\<close>

definition cmCreate :: "bool \<Rightarrow> KsSettings \<Rightarrow> CmSettings \<Rightarrow> CmRepo \<Rightarrow> RuntimeOptions \<Rightarrow> ConnMgr" where
  "cmCreate gui ksSettings settings repo options = \<lparr>cm_sup = csCreate gui ksSettings, cm_set = settings, cm_repo = repo,
     cm_options = options, cm_running = None, cm_runningTun = False, cm_runningProfiles = {}, cm_runningRoute = - 1,
     cm_lastProfileId = set_remember_id settings, cm_connecting = False, cm_disconnecting = False, cm_lastState = Idle,
     cm_startSerial = 0, cm_ksDeferred = noRequest, cm_coreRequest = noRequest, cm_guardRestart = None,
     cm_ksWasFailed = False, cm_ksWasArmed = False, cm_reasons = [], cm_muStarting = False, cm_muStopping = False,
     cm_switching = False, cm_tunHeld = False, cm_tunCache = \<lparr>tc_reason = [], tc_cidr = [], tc_port = 0, tc_at = 0\<rparr>,
     cm_bootSerial = 0, cm_geoRetried = - 1, cm_geoToken = 0, cm_rankedFor = - 1, cm_rankingInFlight = 0, cm_rankings = [],
     cm_starters = [], cm_stoppers = [], cm_stopCalls = [], cm_ui = [], cm_offers = [], cm_geoWaiters = [],
     cm_proxyJobs = [], cm_proxyOn = False, cm_asked = [], cm_told = [], cm_dispatched = [], cm_stopped = []\<rparr>"

definition cm_init :: "ConnMgr \<Rightarrow> bool" where
  "cm_init cm \<longleftrightarrow> (\<exists>gui ksSettings settings repo options. cm = cmCreate gui ksSettings settings repo options)"

end
