(* ===== verification/Connection_Safety.thy ===== *)
theory Connection_Safety
  imports Connection_Manager
begin

text \<open>
  Properties of the connection manager, over every interleaving of its threads with the core, the kill switch
  and its callers: each start request is answered exactly once, or is waiting at exactly one place; at most
  one start and one stop are under way, the locks are held exactly by them, and no profile is started while
  another is recorded as running; a start reaches the core only with the kill switch off or in force; and a
  boot that needs Tun does not run its profile without it.

  The calls of \<open>stop\<close> are split between reading the running profile and trying the lock, as any thread may be
  suspended there; such a call may then stop the profile that was started in the meantime, which the theorems
  allow.
\<close>

subsection \<open>What a start leaves alone\<close>

lemma startFinished_frame [simp]:
  "cm_running (startFinished r outcome cm) = cm_running cm" "cm_stoppers (startFinished r outcome cm) = cm_stoppers cm"
  "cm_muStopping (startFinished r outcome cm) = cm_muStopping cm" "cm_asked (startFinished r outcome cm) = cm_asked cm"
  "cm_options (startFinished r outcome cm) = cm_options cm" "cm_set (startFinished r outcome cm) = cm_set cm"
  "cm_repo (startFinished r outcome cm) = cm_repo cm" "cm_stopCalls (startFinished r outcome cm) = cm_stopCalls cm"
  "cm_ui (startFinished r outcome cm) = cm_ui cm" "cm_starters (startFinished r outcome cm) = cm_starters cm"
  "cm_muStarting (startFinished r outcome cm) = cm_muStarting cm" "cm_sup (startFinished r outcome cm) = cm_sup cm"
  "cm_rankings (startFinished r outcome cm) = cm_rankings cm"
  by (simp_all add: startFinished_def)

lemma syncState_frame [simp]:
  "cm_running (syncState cm) = cm_running cm" "cm_stoppers (syncState cm) = cm_stoppers cm"
  "cm_muStopping (syncState cm) = cm_muStopping cm" "cm_asked (syncState cm) = cm_asked cm"
  "cm_options (syncState cm) = cm_options cm" "cm_set (syncState cm) = cm_set cm"
  "cm_repo (syncState cm) = cm_repo cm" "cm_stopCalls (syncState cm) = cm_stopCalls cm"
  "cm_ui (syncState cm) = cm_ui cm" "cm_starters (syncState cm) = cm_starters cm"
  "cm_muStarting (syncState cm) = cm_muStarting cm" "cm_sup (syncState cm) = cm_sup cm"
  "cm_told (syncState cm) = cm_told cm" "cm_ksDeferred (syncState cm) = cm_ksDeferred cm"
  "cm_coreRequest (syncState cm) = cm_coreRequest cm"
  by (simp_all add: syncState_def)

lemma deferStartToCore_frame [simp]:
  "cm_running (deferStartToCore r cm) = cm_running cm" "cm_stoppers (deferStartToCore r cm) = cm_stoppers cm"
  "cm_muStopping (deferStartToCore r cm) = cm_muStopping cm" "cm_asked (deferStartToCore r cm) = cm_asked cm"
  "cm_options (deferStartToCore r cm) = cm_options cm" "cm_set (deferStartToCore r cm) = cm_set cm"
  "cm_repo (deferStartToCore r cm) = cm_repo cm" "cm_stopCalls (deferStartToCore r cm) = cm_stopCalls cm"
  "cm_ui (deferStartToCore r cm) = cm_ui cm" "cm_starters (deferStartToCore r cm) = cm_starters cm"
  "cm_muStarting (deferStartToCore r cm) = cm_muStarting cm" "cm_sup (deferStartToCore r cm) = cm_sup cm"
  by (simp_all add: deferStartToCore_def Let_def)

lemma restartCoreForGuard_frame [simp]:
  "cm_running (restartCoreForGuard r cm) = cm_running cm" "cm_stoppers (restartCoreForGuard r cm) = cm_stoppers cm"
  "cm_muStopping (restartCoreForGuard r cm) = cm_muStopping cm" "cm_asked (restartCoreForGuard r cm) = cm_asked cm"
  "cm_options (restartCoreForGuard r cm) = cm_options cm" "cm_set (restartCoreForGuard r cm) = cm_set cm"
  "cm_repo (restartCoreForGuard r cm) = cm_repo cm" "cm_stopCalls (restartCoreForGuard r cm) = cm_stopCalls cm"
  "cm_ui (restartCoreForGuard r cm) = cm_ui cm" "cm_starters (restartCoreForGuard r cm) = cm_starters cm"
  "cm_muStarting (restartCoreForGuard r cm) = cm_muStarting cm"
  by (simp_all add: restartCoreForGuard_def cmSetStartWhenUp_def Let_def)

lemma startBuilt_frame [simp]:
  "cm_running (startBuilt w r cm) = cm_running cm" "cm_stoppers (startBuilt w r cm) = cm_stoppers cm"
  "cm_muStopping (startBuilt w r cm) = cm_muStopping cm" "cm_asked (startBuilt w r cm) = cm_asked cm"
  "cm_options (startBuilt w r cm) = cm_options cm" "cm_set (startBuilt w r cm) = cm_set cm"
  "cm_repo (startBuilt w r cm) = cm_repo cm" "cm_stopCalls (startBuilt w r cm) = cm_stopCalls cm"
  "cm_ui (startBuilt w r cm) = cm_ui cm"
  by (simp_all add: startBuilt_def cmSetStartWhenUp_def launchStart_def Let_def)

lemma cmStart_frame [simp]:
  "cm_running (cmStart w r cm) = cm_running cm" "cm_stoppers (cmStart w r cm) = cm_stoppers cm"
  "cm_muStopping (cmStart w r cm) = cm_muStopping cm" "cm_asked (cmStart w r cm) = cm_asked cm"
  "cm_options (cmStart w r cm) = cm_options cm" "cm_set (cmStart w r cm) = cm_set cm"
  "cm_repo (cmStart w r cm) = cm_repo cm" "cm_stopCalls (cmStart w r cm) = cm_stopCalls cm"
  "cm_ui (cmStart w r cm) = cm_ui cm"
  by (simp_all add: cmStart_def startUsable_def deferToKillSwitch_def rankBeforeStart_def Let_def split: option.split)

subsection \<open>The calls of the manager, for any relation between states\<close>

text \<open>
  Invariants and accounting are relations between the state before and after an operation. The handlers are
  compositions of starts and of updates of single members; \<open>manager_frame\<close> states what such a relation has to
  satisfy for these, and gives it for the handlers. \<open>manager_relation\<close> adds the kill switch, whose operations
  call back; \<open>manager_frame_any\<close> is the case of a relation that does not look at the supervisor and the
  kill switch at all.
\<close>

locale manager_frame =
  fixes R :: "ConnMgr \<Rightarrow> ConnMgr \<Rightarrow> bool"
  assumes R_refl: "R cm cm"
    and R_trans: "R a b \<Longrightarrow> R b c \<Longrightarrow> R a c"
    and R_ask: "R cm (askStart w r cm)"
    and R_ranked: "R cm (startRanked w profile (plainRequest profile) cm)"
    and R_settled: "R cm (settledStart w cm)"
    and R_guard: "R cm (restartCoreForGuard (plainRequest profile) cm)"
    and R_guardTaken: "sr_profileId (cm_coreRequest cm) \<ge> 0
      \<Longrightarrow> R cm (restartCoreForGuard (cm_coreRequest cm) (cm\<lparr>cm_coreRequest := noRequest\<rparr>))"
    and R_core: "R cm (coreStartedStart w profile cm)"
    and R_was: "R cm (cm\<lparr>cm_ksWasFailed := a1, cm_ksWasArmed := a2\<rparr>)"
    and R_super: "cs_ks super = cmKs cm \<Longrightarrow> R cm (cm\<lparr>cm_sup := super\<rparr>)"
    and R_set: "R cm (cm\<lparr>cm_set := settings\<rparr>)"
    and R_tunHeld: "R cm (cm\<lparr>cm_tunHeld := a3\<rparr>)"
    and R_tunCache: "R cm (cm\<lparr>cm_tunCache := cache\<rparr>)"
    and R_jobs: "R cm (cm\<lparr>cm_proxyJobs := jobs\<rparr>)"
    and R_reasons: "R cm (cm\<lparr>cm_reasons := reasons\<rparr>)"
    and R_geo: "R cm (cm\<lparr>cm_geoRetried := profile\<rparr>)"
    and R_guardRestart: "R cm (cm\<lparr>cm_guardRestart := restart\<rparr>)"
begin

lemma R_onKillSwitchStateChanged: "R cm (onKillSwitchStateChanged w cm)"
proof -
  define cm1 where "cm1 = cm\<lparr>cm_ksWasFailed := (ks_state (cmKs cm) = Failed), cm_ksWasArmed := (ks_state (cmKs cm) = Armed)\<rparr>"
  have 1: "R cm cm1" unfolding cm1_def by (rule R_was)
  show ?thesis
    unfolding onKillSwitchStateChanged_def Let_def cm1_def [symmetric]
    using 1 R_trans [OF 1 R_guardTaken] R_trans [OF 1 R_guard] by presburger
qed

lemma R_restartStarted: "R cm (fst (restartStartedProfile w i s cm))"
  by (simp add: restartStartedProfile_def R_ask R_refl)

lemma R_applyPending: "R cm (applyPendingRestart w cm)"
  using R_reasons R_trans [OF R_reasons R_ask] by (simp add: applyPendingRestart_def Let_def clearRestartNeeded_def)

lemma R_retryAfterGeoFetch: "R cm (retryAfterGeoFetch w profile token cm)"
  using R_geo R_trans [OF R_geo R_ask] by (simp add: retryAfterGeoFetch_def Let_def R_refl)

lemma R_resetCore: "cs_ks (fst (resetCore (cm_sup cm))) = cmKs cm"
  by (simp add: resetCore_def Let_def cs_post_def beginRestart_def postProcessRestart_def cmKs_def)

lemma R_answerOffer: "R cm (answerOffer w yes offer cm)"
  by (cases offer) (simp_all add: answerOffer_def R_ask R_refl R_super R_resetCore)

lemma R_resumeNone: "R cm (resumeRanked w profile None cm)"
  by (simp add: resumeRanked_def R_ranked R_refl)

lemma R_tunBlocked: "R cm (fst (tunBlockedReason w cm))"
  by (simp add: tunBlockedReason_def Let_def R_tunCache R_refl)

lemma R_tunHoldReason: "R cm (fst (tunRestoreHoldReason w cm))"
  using R_tunBlocked by (simp add: tunRestoreHoldReason_def case_prod_beta)

lemma R_tunAllowed: "R cm (fst (tunAllowed w change cm))"
  using R_tunBlocked by (simp add: tunAllowed_def case_prod_beta)

lemma R_dropTunHold: "R cm (dropTunHold enable change cm)"
  using R_tunHeld R_trans [OF R_tunHeld R_set] by (simp add: dropTunHold_def Let_def R_refl)

lemma R_switchTun: "R cm (fst (switchTun w enable change cm))"
proof -
  define cm1 where "cm1 = (cm\<lparr>cm_tunHeld := False\<rparr>)\<lparr>cm_tunCache := (cm_tunCache cm)\<lparr>tc_at := 0\<rparr>\<rparr>"
  define cm2 where "cm2 = (if mc_save change then cm1\<lparr>cm_set := (cm_set cm1)\<lparr>set_remember_tun := enable\<rparr>\<rparr> else cm1)"
  define cm3 where "cm3 = cm2\<lparr>cm_set := (cm_set cm2)\<lparr>set_spmode_vpn := enable\<rparr>\<rparr>"
  have 1: "R cm cm1" unfolding cm1_def by (rule R_trans [OF R_tunHeld R_tunCache])
  have 2: "R cm cm2" using 1 R_trans [OF 1 R_set] by (simp add: cm2_def)
  have 3: "R cm cm3" unfolding cm3_def by (rule R_trans [OF 2 R_set])
  show ?thesis unfolding switchTun_def Let_def cm1_def [symmetric] cm2_def [symmetric] cm3_def [symmetric]
    using 3 R_trans [OF 3 R_ask] by simp
qed

lemma R_setTun: "R cm (fst (setTun w enable change cm))"
proof -
  have 2: "R cm (fst (tunAllowed w change (dropTunHold enable change cm)))" by (rule R_trans [OF R_dropTunHold R_tunAllowed])
  show ?thesis using 2 R_dropTunHold R_trans [OF R_dropTunHold R_switchTun] R_trans [OF 2 R_switchTun]
    by (cases enable) (simp_all add: setTun_def Let_def case_prod_beta)
qed

lemma R_setSystemProxy: "R cm (fst (setSystemProxy w enable change cm))"
proof -
  define cm1 where "cm1 = cm\<lparr>cm_set := (cm_set cm)\<lparr>set_spmode_system_proxy := enable\<rparr>\<rparr>"
  have 1: "R cm cm1" unfolding cm1_def by (rule R_set)
  have a: "R cm (applySystemProxy e cm1)" for e unfolding applySystemProxy_def by (rule R_trans [OF 1 R_jobs])
  note b = R_trans [OF a R_ask]
  show ?thesis unfolding setSystemProxy_def Let_def cm1_def [symmetric]
    using 1 a b R_trans [OF 1 R_set] R_trans [OF a R_set] R_trans [OF b R_set]
    by (simp add: case_prod_beta R_refl split: option.split)
qed

lemma R_chooseRoute: "R cm (fst (chooseRoute w route i s cm))"
  unfolding chooseRoute_def Let_def using R_set R_trans [OF R_set R_ask] by (simp add: R_refl)

lemma R_restoreModes: "R cm (restoreModes w cm)"
proof (cases "ro_headless (cm_options cm)")
  case True
  define want where "want = (set_remember_tun (cm_set cm) \<or> set_flag_restart_tun_on (cm_set cm))"
  define c where "c = fst (setTun w True \<lparr>mc_save = False, mc_interactive = False, mc_restart = False, mc_restartSerial = 0\<rparr> cm)"
  define cm1 where "cm1 = (if want then c\<lparr>cm_set := (cm_set c)\<lparr>set_flag_restart_tun_on := False\<rparr>\<rparr> else cm)"
  define cm2 where "cm2 = cm1\<lparr>cm_tunHeld := (ro_tunRequired (cm_options cm1) \<and> want \<and> \<not> set_spmode_vpn (cm_set cm1))\<rparr>"
  have "R cm cm1" using R_trans [OF R_setTun R_set] by (simp add: cm1_def c_def R_refl)
  then have 2: "R cm cm2" unfolding cm2_def by (rule R_trans [OF _ R_tunHeld])
  have "restoreModes w cm = (if cm_tunHeld cm2 then fst (tunRestoreHoldReason w cm2) else cm2)"
    unfolding restoreModes_def Let_def want_def [symmetric] c_def [symmetric] cm1_def [symmetric] cm2_def [symmetric] using True by simp
  then show ?thesis using 2 R_trans [OF 2 R_tunHoldReason] by simp
next
  case False
  define c where "c = (if set_remember_enable (cm_set cm) \<and> set_remember_system_proxy (cm_set cm)
    then fst (setSystemProxy w True \<lparr>mc_save = False, mc_interactive = True, mc_restart = True, mc_restartSerial = 0\<rparr> cm) else cm)"
  have c: "R cm c" by (simp add: c_def R_setSystemProxy R_refl)
  show ?thesis using False c R_trans [OF R_trans [OF c R_setTun] R_set]
    by (simp add: restoreModes_def Let_def c_def [symmetric])
qed

lemma R_cancelResume: "R cm (cm\<lparr>cm_sup := cancelResume (cm_sup cm)\<rparr>)"
  by (rule R_super) (simp add: cancelResume_def cs_emit_def cmKs_def)

lemma R_fold: "(\<And>x c. R c (f x c)) \<Longrightarrow> R cm (fold f xs cm)"
  by (induction xs arbitrary: cm) (auto intro: R_refl R_trans)

text \<open>The callbacks of the kill switch, once the relation holds for its new state.\<close>

lemma R_callbacks:
  assumes "R cm (cm\<lparr>cm_sup := (cm_sup cm)\<lparr>cs_ks := ks'\<rparr>\<rparr>)"
  shows "R cm (killSwitchTo w ks' cm)"
proof -
  define cm1 where "cm1 = cm\<lparr>cm_sup := (cm_sup cm)\<lparr>cs_ks := ks'\<rparr>\<rparr>"
  define cm2 where "cm2 = (if ks_state ks' \<noteq> ks_state (cmKs cm) then onKillSwitchStateChanged w cm1 else cm1)"
  have "R cm1 cm2" by (simp add: cm2_def R_onKillSwitchStateChanged R_refl)
  with assms have 2: "R cm cm2" unfolding cm1_def by (rule R_trans)
  have "R cm2 (fold (\<lambda>call cm. if fst call = kStartWaiter then settledStart w cm else cm) xs cm2)" for xs
    by (rule R_fold) (simp add: R_settled R_refl)
  then show ?thesis unfolding killSwitchTo_def Let_def cm1_def [symmetric] cm2_def [symmetric] by (rule R_trans [OF 2])
qed

end

locale manager_relation = manager_frame +
  assumes R_apply: "R cm (killSwitchTo w (applyKs (cmKs cm)) cm)"
    and R_setting: "R cm (cm\<lparr>cm_sup := (cm_sup cm)\<lparr>cs_ks := (cmKs cm)\<lparr>ks_settings := settings2\<rparr>\<rparr>\<rparr>)"
begin

lemma R_disableKillSwitch: "R cm (disableKillSwitch w cm)"
proof -
  define ks1 where "ks1 = (cmKs cm)\<lparr>ks_settings := (ks_settings (cmKs cm))\<lparr>kill_switch := False\<rparr>\<rparr>"
  define cm1 where "cm1 = cm\<lparr>cm_sup := (cm_sup cm)\<lparr>cs_ks := ks1\<rparr>\<rparr>"
  have 1: "R cm cm1" unfolding cm1_def ks1_def by (rule R_setting)
  have "cmKs cm1 = ks1" by (simp add: cm1_def cmKs_def)
  then have "R cm1 (killSwitchTo w (applyKs ks1) cm1)" using R_apply [of cm1 w] by simp
  then show ?thesis unfolding disableKillSwitch_def Let_def ks1_def [symmetric] cm1_def [symmetric] by (rule R_trans [OF 1])
qed

lemma R_onCoreStarted: "R cm (onCoreStarted w profile cm)"
proof -
  define cm1 where "cm1 = cm\<lparr>cm_guardRestart := None\<rparr>"
  define cm2 where "cm2 = (if failedForPrivileges (cmKs cm1) then killSwitchTo w (applyKs (cmKs cm1)) cm1 else cm1)"
  have 1: "R cm cm1" unfolding cm1_def by (rule R_guardRestart)
  have "R cm1 cm2" by (simp add: cm2_def R_apply R_refl)
  with 1 have "R cm cm2" by (rule R_trans)
  then show ?thesis unfolding onCoreStarted_def Let_def cm1_def [symmetric] cm2_def [symmetric]
    by (blast intro: R_trans R_restoreModes R_core)
qed

end

locale manager_frame_any = manager_frame +
  assumes R_any: "R cm (cm\<lparr>cm_sup := super\<rparr>)"
begin

lemma R_killSwitchTo: "R cm (killSwitchTo w ks' cm)"
  by (rule R_callbacks [OF R_any])

end

sublocale manager_frame_any \<subseteq> manager_relation R
  by unfold_locales (rule R_killSwitchTo, rule R_any)

subsection \<open>Requests that wait for their answer\<close>

definition slotRequests :: "StartRequest \<Rightarrow> StartRequest list" where
  "slotRequests r = (if sr_profileId r \<ge> 0 then [r] else [])"

definition rankRequests :: "Ranking \<Rightarrow> StartRequest list" where
  "rankRequests rk = (if rk_early rk then [] else case rk_request rk of None \<Rightarrow> [] | Some r \<Rightarrow> [r])"

definition workerRequests :: "StartWorker \<Rightarrow> StartRequest list" where
  "workerRequests worker = (if sw_phase worker = SwDone \<or> sw_phase worker = SwUnlocked then [] else [sw_request worker])"

fun uiRequests :: "UiTask \<Rightarrow> StartRequest list" where
  "uiRequests (UFinish r outcome) = [r]"
| "uiRequests (UStarted r) = [r]"
| "uiRequests (URanked profile (Some r)) = [r]"
| "uiRequests (URankEnded profile (Some r) False) = [r]"
| "uiRequests task = []"

definition waitingRequests :: "ConnMgr \<Rightarrow> StartRequest list" where
  "waitingRequests cm = slotRequests (cm_ksDeferred cm) @ slotRequests (cm_coreRequest cm)
     @ concat (map rankRequests (cm_rankings cm)) @ concat (map workerRequests (cm_starters cm))
     @ concat (map uiRequests (cm_ui cm))"

text \<open>How often the serial \<open>s\<close> was answered or waits.\<close>

definition bal :: "nat \<Rightarrow> ConnMgr \<Rightarrow> nat" where
  "bal s cm = count_list (map fst (cm_told cm)) s + count_list (map sr_serial (waitingRequests cm)) s"

definition one :: "StartRequest \<Rightarrow> nat \<Rightarrow> nat" where
  "one r s = (if sr_serial r = s then 1 else 0)"

lemmas bal_defs = bal_def waitingRequests_def one_def

lemma bal_frame [simp]:
  "bal s (cm\<lparr>cm_sup := a\<rparr>) = bal s cm" "bal s (cm\<lparr>cm_set := b\<rparr>) = bal s cm" "bal s (cm\<lparr>cm_running := c\<rparr>) = bal s cm"
  "bal s (cm\<lparr>cm_runningTun := d\<rparr>) = bal s cm" "bal s (cm\<lparr>cm_runningProfiles := e\<rparr>) = bal s cm"
  "bal s (cm\<lparr>cm_runningRoute := f\<rparr>) = bal s cm" "bal s (cm\<lparr>cm_lastProfileId := g\<rparr>) = bal s cm"
  "bal s (cm\<lparr>cm_connecting := h\<rparr>) = bal s cm" "bal s (cm\<lparr>cm_disconnecting := h\<rparr>) = bal s cm"
  "bal s (cm\<lparr>cm_lastState := i\<rparr>) = bal s cm" "bal s (cm\<lparr>cm_startSerial := j\<rparr>) = bal s cm"
  "bal s (cm\<lparr>cm_guardRestart := k\<rparr>) = bal s cm" "bal s (cm\<lparr>cm_ksWasFailed := h\<rparr>) = bal s cm"
  "bal s (cm\<lparr>cm_ksWasArmed := h\<rparr>) = bal s cm" "bal s (cm\<lparr>cm_reasons := l\<rparr>) = bal s cm"
  "bal s (cm\<lparr>cm_muStarting := h\<rparr>) = bal s cm" "bal s (cm\<lparr>cm_muStopping := h\<rparr>) = bal s cm"
  "bal s (cm\<lparr>cm_switching := h\<rparr>) = bal s cm" "bal s (cm\<lparr>cm_tunHeld := h\<rparr>) = bal s cm"
  "bal s (cm\<lparr>cm_tunCache := m\<rparr>) = bal s cm" "bal s (cm\<lparr>cm_bootSerial := j\<rparr>) = bal s cm"
  "bal s (cm\<lparr>cm_geoRetried := g\<rparr>) = bal s cm" "bal s (cm\<lparr>cm_geoToken := j\<rparr>) = bal s cm"
  "bal s (cm\<lparr>cm_rankedFor := g\<rparr>) = bal s cm" "bal s (cm\<lparr>cm_rankingInFlight := j\<rparr>) = bal s cm"
  "bal s (cm\<lparr>cm_stoppers := n\<rparr>) = bal s cm" "bal s (cm\<lparr>cm_stopCalls := p\<rparr>) = bal s cm"
  "bal s (cm\<lparr>cm_offers := q\<rparr>) = bal s cm" "bal s (cm\<lparr>cm_geoWaiters := r\<rparr>) = bal s cm"
  "bal s (cm\<lparr>cm_proxyJobs := t\<rparr>) = bal s cm" "bal s (cm\<lparr>cm_proxyOn := h\<rparr>) = bal s cm"
  "bal s (cm\<lparr>cm_asked := u\<rparr>) = bal s cm" "bal s (cm\<lparr>cm_dispatched := v\<rparr>) = bal s cm"
  "bal s (cm\<lparr>cm_stopped := x\<rparr>) = bal s cm" "bal s (cm\<lparr>cm_repo := y\<rparr>) = bal s cm"
  by (simp_all add: bal_defs)

lemma bal_startFinished [simp]: "bal s (startFinished r outcome cm) = bal s cm + one r s"
  by (simp add: bal_defs startFinished_def)

lemma bal_post [simp]:
  "bal s (cmPost tasks cm) = bal s cm + count_list (map sr_serial (concat (map uiRequests tasks))) s"
  by (simp add: bal_defs cmPost_def)

lemma bal_syncState [simp]: "bal s (syncState cm) = bal s cm"
  by (simp add: syncState_def)

lemma bal_deferStartToCore [simp]:
  "bal s (deferStartToCore r cm) = bal s cm + (if sr_profileId r \<ge> 0 then one r s else 0)"
  by (simp add: bal_defs deferStartToCore_def startFinished_def slotRequests_def)

lemma bal_restartCoreForGuard [simp]:
  "sr_profileId r \<ge> 0 \<or> sr_serial r \<noteq> s \<Longrightarrow> bal s (restartCoreForGuard r cm) = bal s cm + one r s"
  by (auto simp: restartCoreForGuard_def Let_def cmSetStartWhenUp_def one_def)

lemma bal_rankBeforeStart:
  "rankBeforeStart w r cm = (cm', waits) \<Longrightarrow> bal s cm' = bal s cm + (if waits then one r s else 0)"
  by (auto simp: rankBeforeStart_def Let_def bal_defs rankRequests_def split: if_splits)

lemma bal_deferToKillSwitch [simp]:
  "sr_profileId r \<ge> 0 \<Longrightarrow> bal s (deferToKillSwitch r cm) = bal s cm + one r s"
  by (simp add: bal_defs deferToKillSwitch_def Let_def startFinished_def slotRequests_def)

lemma bal_launchStart [simp]: "bal s (launchStart r build cm) = bal s cm + one r s"
  by (simp add: launchStart_def) (simp add: bal_defs workerRequests_def)

lemma bal_startBuilt [simp]: "sr_profileId r \<ge> 0 \<Longrightarrow> bal s (startBuilt w r cm) = bal s cm + one r s"
  by (simp add: startBuilt_def Let_def cmSetStartWhenUp_def)

lemma bal_startUsable [simp]:
  assumes "sr_profileId r \<ge> 0"
  shows "bal s (startUsable w r cm) = bal s cm + one r s"
proof -
  obtain cm1 waits where rk: "rankBeforeStart w r cm = (cm1, waits)" by (cases "rankBeforeStart w r cm")
  show ?thesis using assms bal_rankBeforeStart [OF rk, of s] by (simp add: startUsable_def rk)
qed

lemma bal_cmStart [simp]: "bal s (cmStart w r cm) = bal s cm + one r s"
  by (simp add: cmStart_def Let_def split: option.split)

text \<open>The serials asked for: \<open>balanced\<close> is the invariant.\<close>

definition balanced :: "ConnMgr \<Rightarrow> bool" where
  "balanced cm \<longleftrightarrow> (\<forall>s. s \<noteq> 0 \<longrightarrow> count_list (cm_asked cm) s = bal s cm)"

lemma balancedI: "(\<And>s. s \<noteq> 0 \<Longrightarrow> count_list (cm_asked cm) s = bal s cm) \<Longrightarrow> balanced cm"
  by (simp add: balanced_def)

text \<open>An operation that keeps the difference between asked and accounted for.\<close>

definition level :: "ConnMgr \<Rightarrow> ConnMgr \<Rightarrow> bool" where
  "level cm cm' \<longleftrightarrow> (\<forall>s. s \<noteq> 0 \<longrightarrow> count_list (cm_asked cm') s + bal s cm = count_list (cm_asked cm) s + bal s cm')"

lemma level_balanced: "level cm cm' \<Longrightarrow> balanced cm \<Longrightarrow> balanced cm'"
  unfolding level_def balanced_def by (metis add.commute add_left_cancel)

lemma level_trans: "level a b \<Longrightarrow> level b c \<Longrightarrow> level a c"
  unfolding level_def by (smt (verit) add.assoc add.commute add_left_cancel)

lemma level_same: "cm_asked cm' = cm_asked cm \<Longrightarrow> (\<And>s. bal s cm' = bal s cm) \<Longrightarrow> level cm cm'"
  by (simp add: level_def)

lemma level_askStart: "level cm (askStart w r cm)"
  by (simp add: level_def askStart_def one_def)

lemma level_setBootStart: "sr_profileId r \<ge> 0 \<Longrightarrow> level cm (setBootStart r (cm\<lparr>cm_asked := cm_asked cm @ [sr_serial r]\<rparr>))"
  by (simp add: level_def setBootStart_def one_def)

text \<open>Requests with serial 0, and requests that move on from where they waited.\<close>

lemma level_start_plain: "level cm (cmStart w (plainRequest p) cm)"
  by (simp add: level_def one_def plainRequest_def)

lemma level_start_taken:
  assumes "cm_asked cm0 = cm_asked cm" "\<And>s. s \<noteq> 0 \<Longrightarrow> bal s cm0 + one r s = bal s cm"
  shows "level cm (cmStart w r cm0)"
  using assms by (simp add: level_def)

lemma bal_take_core: "bal s (cm\<lparr>cm_coreRequest := noRequest\<rparr>) + count_list (map sr_serial (slotRequests (cm_coreRequest cm))) s = bal s cm"
  by (simp add: bal_defs slotRequests_def noRequest_def)

lemma bal_take_deferred: "bal s (cm\<lparr>cm_ksDeferred := noRequest\<rparr>) + count_list (map sr_serial (slotRequests (cm_ksDeferred cm))) s = bal s cm"
  by (simp add: bal_defs slotRequests_def noRequest_def)

lemma bal_take_slot:
  "sr_profileId (cm_coreRequest cm) \<ge> 0 \<Longrightarrow> bal s (cm\<lparr>cm_coreRequest := noRequest\<rparr>) + one (cm_coreRequest cm) s = bal s cm"
  "sr_profileId (cm_ksDeferred cm) \<ge> 0 \<Longrightarrow> bal s (cm\<lparr>cm_ksDeferred := noRequest\<rparr>) + one (cm_ksDeferred cm) s = bal s cm"
  "sr_profileId (cm_coreRequest cm) < 0 \<Longrightarrow> bal s (cm\<lparr>cm_coreRequest := noRequest\<rparr>) = bal s cm"
  "sr_profileId (cm_ksDeferred cm) < 0 \<Longrightarrow> bal s (cm\<lparr>cm_ksDeferred := noRequest\<rparr>) = bal s cm"
  using bal_take_core [of s cm] bal_take_deferred [of s cm] by (auto simp: slotRequests_def one_def)

lemma level_settledStart: "level cm (settledStart w cm)"
proof (cases "sr_profileId (cm_ksDeferred cm) \<ge> 0")
  case True
  then show ?thesis unfolding settledStart_def Let_def
    by (simp add: level_start_taken bal_take_slot(2))
next
  case False
  then show ?thesis unfolding settledStart_def Let_def by (simp add: level_same bal_take_slot(4))
qed

lemma level_refl: "level cm cm"
  by (simp add: level_def)

lemma bal_resumeRanked: "bal s (resumeRanked w p (Some r) cm) = bal s cm + one r s"
  "cm_asked (resumeRanked w p req cm) = cm_asked cm"
  by (simp_all add: resumeRanked_def startRanked_def split: option.split)

lemma level_coreStartedStart: "level cm (coreStartedStart w p cm)"
proof -
  define b where "b s = bal s (cm\<lparr>cm_coreRequest := noRequest\<rparr>)" for s
  have "bal s cm = b s + (if sr_profileId (cm_coreRequest cm) \<ge> 0 then one (cm_coreRequest cm) s else 0)" for s
    using bal_take_slot(1,3) [of cm s] by (simp add: b_def)
  then show ?thesis
    by (simp add: level_def coreStartedStart_def Let_def b_def [symmetric]) (simp add: one_def plainRequest_def)
qed

interpretation account: manager_frame_any level
proof (unfold_locales, goal_cases)
  case (2 a b c)
  then show ?case by (rule level_trans)
next
  case (4 cm w profile)
  show ?case by (simp add: level_def startRanked_def one_def plainRequest_def)
next
  case (7 cm)
  then show ?case by (simp add: level_def bal_take_slot(1))
qed (simp_all add: level_refl level_askStart level_settledStart level_coreStartedStart,
    simp_all add: level_def one_def plainRequest_def)

lemma level_onCoreGaveUp: "level cm (onCoreGaveUp cm)"
  by (simp add: level_def onCoreGaveUp_def Let_def bal_defs startFinished_def slotRequests_def noRequest_def)

subsubsection \<open>Threads\<close>

lemma stopBegin_same: "bal s (fst (stopBegin options onMain cm)) = bal s cm" "cm_asked (fst (stopBegin options onMain cm)) = cm_asked cm"
  by (simp_all add: stopBegin_def Let_def cmPost_def split: option.split)
     (simp_all add: bal_defs)

lemma stopLock_same: "bal s (stopLock call cm) = bal s cm" "cm_asked (stopLock call cm) = cm_asked cm"
  by (simp_all add: stopLock_def Let_def cmPost_def) (simp_all add: bal_defs)

lemma level_cmStop: "level cm (cmStop options onMain cm)"
  using stopBegin_same(1) [of _ options onMain cm] stopBegin_same(2) [of options onMain cm]
  by (cases "stopBegin options onMain cm") (auto simp: level_def cmStop_def split: option.split)

lemma level_stopClear: "level cm (stopClear stopped worker cm)"
  by (simp add: level_def stopClear_def Let_def setRunning_def ClearRunningProfiles_def UpdateStartedId_def applySystemProxy_def
      cmPost_def) (simp add: bal_defs)

lemma stage2_bal:
  "bal s (profile_start_stage2 reply worker cm) = bal s cm + one (sw_request worker) s"
  "cm_asked (profile_start_stage2 reply worker cm) = cm_asked cm" "cm_starters (profile_start_stage2 reply worker cm) = cm_starters cm"
  by (simp_all add: profile_start_stage2_def Let_def stage2FollowUps_def one_def UpdateStartedId_def SetRunningProfiles_def
      setRunning_def applySystemProxy_def) (simp_all add: cmPost_def)

lemma bal_starter:
  assumes "cm_starters cm = xs @ worker # ys"
  shows "bal s (cm\<lparr>cm_starters := xs @ worker' # ys\<rparr>) + count_list (map sr_serial (workerRequests worker)) s
    = bal s cm + count_list (map sr_serial (workerRequests worker')) s"
  using assms by (simp add: bal_defs)

text \<open>A turn of a start worker: what it leaves to others, and what it does with its own request.\<close>

lemma stopBegin_starters: "cm_starters (fst (stopBegin options onMain cm)) = cm_starters cm"
  by (simp add: stopBegin_def Let_def cmPost_def split: option.split)

lemma stopLock_starters [simp]: "cm_starters (stopLock call cm) = cm_starters cm"
  by (simp add: stopLock_def Let_def cmPost_def)

lemma startWorkerStep_same:
  assumes "startWorkerStep reply worker cm = (phase, cm')"
  shows "cm_starters cm' = cm_starters cm" "cm_asked cm' = cm_asked cm"
    "bal s cm' = bal s cm + (if sw_phase worker = SwStage2 then one (sw_request worker) s else 0)"
    "sw_phase worker = SwStage2 \<longleftrightarrow> phase = SwDone" "sw_phase worker = SwDone \<or> sw_phase worker = SwUnlocked \<longleftrightarrow> phase = SwUnlocked"
  using assms stopBegin_same(1) [of s "switchStop worker" False cm] stopBegin_same(2) [of "switchStop worker" False cm]
    stopBegin_starters [of "switchStop worker" False cm]
  by (auto simp: startWorkerStep_def stage2_bal stopLock_same split: StartPhase.splits if_splits prod.splits option.splits)

lemma level_worker:
  assumes "cm_starters cm = xs @ worker # ys" "startWorkerStep reply worker cm = (phase, cm')" "sw_phase worker \<noteq> SwUnlocked"
  shows "level cm (cm'\<lparr>cm_starters := xs @ worker\<lparr>sw_phase := phase\<rparr> # ys\<rparr>)"
proof -
  note w = startWorkerStep_same [OF assms(2)]
  have st: "cm_starters cm' = xs @ worker # ys" using w(1) assms(1) by simp
  show ?thesis unfolding level_def
  proof (intro allI impI)
    fix s :: nat
    show "count_list (cm_asked (cm'\<lparr>cm_starters := xs @ worker\<lparr>sw_phase := phase\<rparr> # ys\<rparr>)) s + bal s cm
      = count_list (cm_asked cm) s + bal s (cm'\<lparr>cm_starters := xs @ worker\<lparr>sw_phase := phase\<rparr> # ys\<rparr>)"
      using bal_starter [OF st, of s "worker\<lparr>sw_phase := phase\<rparr>"] w(2) w(3) [of s] w(4,5) assms(3)
      by (cases "sw_phase worker = SwStage2"; cases "sw_phase worker = SwDone")
         (auto simp: workerRequests_def one_def split: if_splits)
  qed
qed

lemma level_workerEnd:
  assumes "cm_starters cm = xs @ worker # ys" "sw_phase worker = SwUnlocked"
  shows "level cm (cmPost [UConnectingOff] (cm\<lparr>cm_starters := xs @ ys\<rparr>))"
  using assms by (simp add: level_def cmPost_def bal_defs workerRequests_def)

lemma level_rankings:
  assumes "cm_rankings cm = xs @ rk # ys"
  shows "\<not> rk_early rk \<Longrightarrow> level cm (cmPost [URanked (rk_profile rk) (rk_request rk)] (cm\<lparr>cm_rankings := xs @ rk\<lparr>rk_early := True\<rparr> # ys\<rparr>))"
    "level cm (cmPost [URankEnded (rk_profile rk) (rk_request rk) (rk_early rk)] (cm\<lparr>cm_rankings := xs @ ys\<rparr>))"
  using assms by (cases "rk_request rk"; cases "rk_early rk"; simp add: level_def cmPost_def bal_defs rankRequests_def)+

lemma level_onPoolExhausted: "level cm (onPoolExhausted p cm)"
  by (simp add: onPoolExhausted_def level_def bal_defs rankRequests_def)

lemma bal_taken_task:
  "cm_ui cm = task # rest \<Longrightarrow> bal s (cm\<lparr>cm_ui := rest\<rparr>) + count_list (map sr_serial (uiRequests task)) s = bal s cm"
  by (simp add: bal_defs)

lemma bal_runUi:
  "s \<noteq> 0 \<Longrightarrow> bal s (runUi w task cm) = bal s cm + count_list (map sr_serial (uiRequests task)) s"
  "cm_asked (runUi w task cm) = cm_asked cm"
proof -
  have none: "s \<noteq> 0 \<Longrightarrow> bal s (resumeRanked w p None x) = bal s x" for p x
    by (simp add: resumeRanked_def startRanked_def one_def plainRequest_def)
  show "s \<noteq> 0 \<Longrightarrow> bal s (runUi w task cm) = bal s cm + count_list (map sr_serial (uiRequests task)) s"
  proof (cases task)
    case (URanked p req)
    then show "s \<noteq> 0 \<Longrightarrow> ?thesis" by (cases req) (simp_all add: runUi_def none bal_resumeRanked one_def)
  next
    case (URankEnded p req early)
    then show "s \<noteq> 0 \<Longrightarrow> ?thesis" by (cases req; cases early) (simp_all add: runUi_def none bal_resumeRanked one_def)
  qed (simp_all add: runUi_def one_def clearRestartNeeded_def stopTeardown_def Let_def)
  show "cm_asked (runUi w task cm) = cm_asked cm"
    by (cases task) (simp_all add: runUi_def clearRestartNeeded_def stopTeardown_def Let_def bal_resumeRanked)
qed

lemma level_runUi: "cm_ui cm = task # rest \<Longrightarrow> level cm (runUi w task (cm\<lparr>cm_ui := rest\<rparr>))"
  using bal_taken_task [of cm task rest] by (simp add: level_def bal_runUi)

lemma level_step: "cm_step cm cm' \<Longrightarrow> level cm cm'"
proof (induction rule: cm_step.induct)
  case (cm_worker cm xs worker ys reply phase cm')
  then show ?case by (intro level_worker) (simp_all add: workerReady_def)
next
  case (cm_offer cm xs offer ys w yes)
  have "level cm (cm\<lparr>cm_offers := xs @ ys\<rparr>)" by (simp add: level_def)
  then show ?case by (rule level_trans [OF _ account.R_answerOffer])
next
  case (cm_stopWorker cm xs worker ys stopped)
  have "level cm (cm\<lparr>cm_stoppers := xs @ worker\<lparr>st_phase := StTeardown\<rparr> # ys\<rparr>)" by (simp add: level_def)
  then show ?case by (rule level_trans [OF _ level_stopClear])
next
  case (cm_stopLock cm xs call ys)
  then show ?case by (simp add: level_def stopLock_same)
qed (simp_all add: level_askStart account.R_restartStarted account.R_applyPending account.R_retryAfterGeoFetch level_setBootStart
    account.R_setTun account.R_setSystemProxy account.R_chooseRoute account.R_onKillSwitchStateChanged account.R_disableKillSwitch level_onPoolExhausted
    level_cmStop level_workerEnd level_rankings level_runUi account.R_onCoreStarted account.R_ranked
    level_onCoreGaveUp account.R_any account.R_set account.R_killSwitchTo,
    simp_all add: level_def nextStartSerial_def noteRestartNeeded_def runProxyJob_def)

subsection \<open>One start and one stop at a time\<close>

definition holdsStarting :: "StartWorker \<Rightarrow> bool" where
  "holdsStarting worker \<longleftrightarrow> sw_phase worker \<noteq> SwUnlocked"

text \<open>A worker that has not asked the core yet.\<close>

definition beforeCore :: "StartWorker \<Rightarrow> bool" where
  "beforeCore worker \<longleftrightarrow> sw_phase worker \<noteq> SwDone \<and> sw_phase worker \<noteq> SwUnlocked"

definition stopsIn :: "StopPhase \<Rightarrow> ConnMgr \<Rightarrow> bool" where
  "stopsIn phase cm \<longleftrightarrow> list_ex (\<lambda>st. st_phase st = phase) (cm_stoppers cm)"

fun teardowns :: "UiTask \<Rightarrow> StopWorker list" where
  "teardowns (UTeardown st) = [st]"
| "teardowns task = []"

definition locksOk :: "ConnMgr \<Rightarrow> bool" where
  "locksOk cm \<longleftrightarrow> length (filter holdsStarting (cm_starters cm)) = (if cm_muStarting cm then 1 else 0)
     \<and> length (cm_stoppers cm) = (if cm_muStopping cm then 1 else 0)
     \<and> concat (map teardowns (cm_ui cm)) = filter (\<lambda>st. st_phase st = StTeardown) (cm_stoppers cm)"

definition workerOk :: "ConnMgr \<Rightarrow> StartWorker \<Rightarrow> bool" where
  "workerOk cm worker \<longleftrightarrow>
     (sw_phase worker = SwStage2 \<longrightarrow> cm_running cm = None)
     \<and> (sw_phase worker = SwWaiting \<longrightarrow> cm_running cm = None \<or> stopsIn StRun cm)
     \<and> (beforeCore worker \<and> stopsIn StTeardown cm \<longrightarrow> cm_running cm = None)"

definition exclInv :: "ConnMgr \<Rightarrow> bool" where
  "exclInv cm \<longleftrightarrow> locksOk cm \<and> list_all (workerOk cm) (cm_starters cm)"

text \<open>What the invariant reads.\<close>

definition exclView :: "ConnMgr \<Rightarrow> bool \<times> bool \<times> StartWorker list \<times> StopWorker list \<times> StopWorker list \<times> int option" where
  "exclView cm = (cm_muStarting cm, cm_muStopping cm, cm_starters cm, cm_stoppers cm, concat (map teardowns (cm_ui cm)), cm_running cm)"

lemma exclInv_view:
  assumes "exclView cm' = exclView cm"
  shows "exclInv cm' = exclInv cm"
proof -
  have "workerOk cm' = workerOk cm" using assms by (auto simp: fun_eq_iff workerOk_def stopsIn_def exclView_def)
  then show ?thesis using assms by (simp add: exclInv_def locksOk_def exclView_def)
qed

text \<open>A start either launches nothing, or one worker while both locks are free.\<close>

definition startsOne :: "ConnMgr \<Rightarrow> ConnMgr \<Rightarrow> bool" where
  "startsOne cm cm' \<longleftrightarrow> exclView cm' = exclView cm
     \<or> (\<not> cm_muStarting cm \<and> \<not> cm_muStopping cm \<and> (\<exists>worker. sw_phase worker = SwLaunched
         \<and> exclView cm' = (True, False, cm_starters cm @ [worker], cm_stoppers cm, concat (map teardowns (cm_ui cm)), cm_running cm)))"

lemma startsOne_inv:
  assumes "startsOne cm cm'" "exclInv cm"
  shows "exclInv cm'"
proof -
  have "exclInv cm'" if ex: "\<not> cm_muStarting cm" "\<not> cm_muStopping cm" "sw_phase worker = SwLaunched"
    and v: "exclView cm' = (True, False, cm_starters cm @ [worker], cm_stoppers cm, concat (map teardowns (cm_ui cm)), cm_running cm)" for worker
  proof -
    have none: "cm_stoppers cm = []" "cm_stoppers cm' = []" using assms(2) ex v by (auto simp: exclInv_def locksOk_def exclView_def)
    then have "workerOk cm' = workerOk cm" using v by (auto simp: fun_eq_iff workerOk_def stopsIn_def exclView_def)
    moreover have "workerOk cm worker" using ex none by (simp add: workerOk_def stopsIn_def)
    ultimately show ?thesis using assms(2) ex v none by (auto simp: exclInv_def locksOk_def exclView_def holdsStarting_def)
  qed
  then show ?thesis using assms exclInv_view unfolding startsOne_def by blast
qed

lemma exclView_startBuilt: "startsOne cm (startBuilt w r cm)"
  by (simp add: startsOne_def exclView_def startBuilt_def Let_def cmSetStartWhenUp_def launchStart_def)

lemma startsOne_of_view: "exclView cm' = exclView cm \<Longrightarrow> startsOne cm cm'"
  by (simp add: startsOne_def)

lemma startsOne_cong: "exclView cm1 = exclView cm \<Longrightarrow> startsOne cm1 cm' \<Longrightarrow> startsOne cm cm'"
  by (auto simp: startsOne_def exclView_def)

lemma exclView_cmStart: "startsOne cm (cmStart w r cm)"
proof -
  have sf: "exclView (startFinished r outcome c) = exclView c" for r outcome c by (simp add: exclView_def)
  have k: "exclView (deferToKillSwitch r c) = exclView c" for c by (simp add: exclView_def deferToKillSwitch_def Let_def)
  have g: "exclView (restartCoreForGuard r c) = exclView c" for c by (simp add: exclView_def)
  have b: "exclView (fst (rankBeforeStart w r c)) = exclView c" for c by (simp add: exclView_def rankBeforeStart_def Let_def)
  have u: "startsOne c (startUsable w r c)" for c
    using startsOne_cong [OF b exclView_startBuilt, of c]
    by (simp add: startUsable_def startsOne_of_view sf k g b case_prod_beta)
  have frame: "exclView (c\<lparr>cm_geoToken := n\<rparr>) = exclView c" "exclView (c\<lparr>cm_lastProfileId := p, cm_dispatched := d\<rparr>) = exclView c"
    for c n p d by (simp_all add: exclView_def)
  show ?thesis unfolding cmStart_def Let_def
    by (auto simp: startsOne_of_view sf frame intro!: startsOne_cong [OF _ u] split: option.split)
qed

text \<open>Operations that keep the invariant and do not touch the running profile.\<close>

definition exclKeeps :: "ConnMgr \<Rightarrow> ConnMgr \<Rightarrow> bool" where
  "exclKeeps cm cm' \<longleftrightarrow> (exclInv cm \<longrightarrow> exclInv cm') \<and> cm_running cm' = cm_running cm"

lemma exclKeeps_starts: "startsOne cm cm' \<Longrightarrow> exclKeeps cm cm'"
  using startsOne_inv by (auto simp: exclKeeps_def startsOne_def exclView_def)

lemma exclKeeps_view: "exclView cm' = exclView cm \<Longrightarrow> exclKeeps cm cm'"
  by (intro exclKeeps_starts startsOne_of_view)

lemma startsOne_start:
  "exclView cm0 = exclView cm \<Longrightarrow> startsOne cm (cmStart w r cm0)"
  by (rule startsOne_cong [OF _ exclView_cmStart])

lemma startsOne_startRanked: "startsOne cm (startRanked w p r cm)"
proof -
  have "startsOne cm (cmStart w r (cm\<lparr>cm_rankedFor := p\<rparr>))" by (rule startsOne_start) (simp add: exclView_def)
  then show ?thesis by (auto simp: startRanked_def startsOne_def exclView_def)
qed

lemma exclKeeps_resumeRanked: "exclKeeps cm (resumeRanked w p req cm)"
  by (simp add: resumeRanked_def exclKeeps_starts startsOne_startRanked exclKeeps_view split: option.split)

lemma exclView_guard: "exclView (restartCoreForGuard r cm) = exclView cm" "exclView (startFinished r outcome cm) = exclView cm"
  "exclView (deferStartToCore r cm) = exclView cm"
  by (simp_all add: exclView_def)

interpretation excl: manager_frame_any exclKeeps
proof (unfold_locales, goal_cases)
  case (2 a b c)
  then show ?case by (simp add: exclKeeps_def)
next
  case (3 cm w r)
  show ?case unfolding askStart_def by (intro exclKeeps_starts startsOne_start) (simp add: exclView_def)
next
  case (5 cm w)
  have "exclKeeps cm (cmStart w r (cm\<lparr>cm_ksDeferred := noRequest\<rparr>))" for r
    by (intro exclKeeps_starts startsOne_start) (simp add: exclView_def)
  then show ?case by (simp add: settledStart_def Let_def exclKeeps_view exclView_def)
next
  case (7 cm)
  show ?case by (intro exclKeeps_view) (simp add: exclView_def)
next
  case (8 cm w profile)
  have v: "exclView (startFinished r o' (cm\<lparr>cm_coreRequest := noRequest, cm_bootSerial := 0\<rparr>)) = exclView cm"
    "exclView (cm\<lparr>cm_coreRequest := noRequest, cm_bootSerial := 0\<rparr>) = exclView cm" for r o' by (simp_all add: exclView_def)
  show ?case unfolding coreStartedStart_def Let_def
    by (simp add: exclKeeps_view exclKeeps_starts startsOne_start v exclView_guard)
qed (simp_all add: exclKeeps_starts startsOne_startRanked, simp_all add: exclKeeps_view exclView_guard exclView_def)

lemma exclKeeps_onCoreGaveUp: "exclKeeps cm (onCoreGaveUp cm)"
  by (intro exclKeeps_view) (simp add: onCoreGaveUp_def Let_def exclView_def)

subsubsection \<open>Stopping\<close>

lemma stopBegin_view [simp]: "exclView (fst (stopBegin options onMain cm)) = exclView cm"
  by (simp add: stopBegin_def Let_def cmPost_def exclView_def split: option.split)

lemma stopBegin_snd: "snd (stopBegin options onMain cm) = cm_running cm"
  by (simp add: stopBegin_def Let_def split: option.split)

lemma exclKeeps_cmStop: "exclKeeps cm (cmStop options onMain cm)"
proof (intro exclKeeps_view)
  show "exclView (cmStop options onMain cm) = exclView cm"
    using stopBegin_view [of options onMain cm]
    by (cases "stopBegin options onMain cm") (auto simp: cmStop_def exclView_def split: option.split)
qed

text \<open>A stop that gets the lock: there was no other, so no worker waits for a finished one.\<close>

lemma stopLock_view:
  "exclView (stopLock call cm) =
     (cm_muStarting cm, True, cm_starters cm,
      if cm_muStopping cm then cm_stoppers cm
      else cm_stoppers cm @ [\<lparr>st_id = sc_id call, st_options = sc_options call, st_phase = StRun\<rparr>],
      concat (map teardowns (cm_ui cm)), cm_running cm)"
  by (simp add: stopLock_def Let_def exclView_def cmPost_def)

lemma exclKeeps_stopLock: "exclKeeps cm (stopLock call cm)"
proof (cases "cm_muStopping cm")
  case True
  then show ?thesis by (intro exclKeeps_view) (simp add: stopLock_def)
next
  case False
  let ?cm' = "stopLock call cm"
  have v: "cm_muStarting ?cm' = cm_muStarting cm" "cm_muStopping ?cm'" "cm_starters ?cm' = cm_starters cm"
    "concat (map teardowns (cm_ui ?cm')) = concat (map teardowns (cm_ui cm))" "cm_running ?cm' = cm_running cm"
    "cm_stoppers ?cm' = cm_stoppers cm @ [\<lparr>st_id = sc_id call, st_options = sc_options call, st_phase = StRun\<rparr>]"
    using stopLock_view [of call cm] False by (simp_all add: exclView_def)
  have "exclInv ?cm'" if inv: "exclInv cm"
  proof -
    have none: "cm_stoppers cm = []" using inv False by (simp add: exclInv_def locksOk_def)
    then have "workerOk cm worker \<Longrightarrow> workerOk ?cm' worker" for worker using v by (simp add: workerOk_def stopsIn_def)
    then have "list_all (workerOk ?cm') (cm_starters cm)" using inv by (auto simp: exclInv_def list_all_iff)
    then show ?thesis using inv v none by (simp add: exclInv_def locksOk_def)
  qed
  then show ?thesis using v by (simp add: exclKeeps_def)
qed

lemma stopClear_inv:
  assumes "exclInv cm" "cm_stoppers cm = xs @ worker # ys" "st_phase worker = StRun"
  shows "exclInv (stopClear stopped worker (cm\<lparr>cm_stoppers := xs @ worker\<lparr>st_phase := StTeardown\<rparr> # ys\<rparr>))"
    "cm_running (stopClear stopped worker (cm\<lparr>cm_stoppers := xs @ worker\<lparr>st_phase := StTeardown\<rparr> # ys\<rparr>)) = None"
proof -
  let ?cm' = "stopClear stopped worker (cm\<lparr>cm_stoppers := xs @ worker\<lparr>st_phase := StTeardown\<rparr> # ys\<rparr>)"
  have one: "xs = []" "ys = []" "cm_muStopping cm" using assms(1,2) by (auto simp: exclInv_def locksOk_def split: if_splits)
  have v: "cm_muStarting ?cm' = cm_muStarting cm" "cm_muStopping ?cm' = cm_muStopping cm" "cm_starters ?cm' = cm_starters cm"
    "cm_stoppers ?cm' = xs @ worker\<lparr>st_phase := StTeardown\<rparr> # ys" "cm_running ?cm' = None"
    "concat (map teardowns (cm_ui ?cm')) = concat (map teardowns (cm_ui cm)) @ [worker\<lparr>st_phase := StTeardown\<rparr>]"
    by (simp_all add: stopClear_def Let_def cmPost_def setRunning_def ClearRunningProfiles_def UpdateStartedId_def applySystemProxy_def)
  show "cm_running ?cm' = None" by (rule v(5))
  have "workerOk ?cm' w" for w using v(5) by (simp add: workerOk_def)
  then show "exclInv ?cm'" using assms one v by (simp add: exclInv_def locksOk_def list_all_iff)
qed

lemma stopTeardown_inv:
  assumes "exclInv cm" "cm_ui cm = UTeardown st # rest"
  shows "exclInv (stopTeardown st (cm\<lparr>cm_ui := rest\<rparr>))"
proof -
  let ?cm' = "stopTeardown st (cm\<lparr>cm_ui := rest\<rparr>)"
  have st: "cm_stoppers cm = [st]" "st_phase st = StTeardown" "concat (map teardowns rest) = []"
    using assms by (cases "cm_stoppers cm"; auto simp: exclInv_def locksOk_def split: if_splits)+
  have v: "cm_muStarting ?cm' = cm_muStarting cm" "\<not> cm_muStopping ?cm'" "cm_starters ?cm' = cm_starters cm"
    "cm_stoppers ?cm' = []" "cm_running ?cm' = cm_running cm" "cm_ui ?cm' = rest"
    using st by (simp_all add: stopTeardown_def Let_def clearRestartNeeded_def)
  have "stopsIn StTeardown cm" "\<not> stopsIn StRun cm" using st by (simp_all add: stopsIn_def)
  then have "workerOk cm w \<Longrightarrow> workerOk ?cm' w" for w using v by (simp add: workerOk_def stopsIn_def)
  then have "list_all (workerOk ?cm') (cm_starters cm)" using assms(1) by (auto simp: exclInv_def list_all_iff)
  then show ?thesis using assms(1) st v by (simp add: exclInv_def locksOk_def)
qed

subsubsection \<open>Start workers\<close>

lemma workerOk_starters [simp]: "workerOk (cm\<lparr>cm_starters := ws\<rparr>) = workerOk cm"
  by (simp add: fun_eq_iff workerOk_def stopsIn_def)

lemma replace_worker:
  assumes "exclInv cm" "cm_starters cm = xs @ worker # ys" "holdsStarting worker' = holdsStarting worker" "workerOk cm worker'"
  shows "exclInv (cm\<lparr>cm_starters := xs @ worker' # ys\<rparr>)"
  using assms by (cases "holdsStarting worker") (simp_all add: exclInv_def locksOk_def)

lemma excl_switching [simp]:
  "exclInv (cm\<lparr>cm_switching := b\<rparr>) = exclInv cm" "workerOk (cm\<lparr>cm_switching := b\<rparr>) = workerOk cm"
  by (rule exclInv_view) (simp_all add: exclView_def fun_eq_iff workerOk_def stopsIn_def)

text \<open>With a worker that holds the lock there is no other.\<close>

lemma only_holder:
  assumes "exclInv cm" "cm_starters cm = xs @ worker # ys" "holdsStarting worker"
  shows "filter holdsStarting xs = []" "filter holdsStarting ys = []" "cm_muStarting cm"
  using assms by (auto simp: exclInv_def locksOk_def split: if_splits)

lemma unlocked_ok: "\<not> holdsStarting worker \<Longrightarrow> workerOk cm worker"
  by (simp add: holdsStarting_def workerOk_def beforeCore_def)

lemma others_ok:
  assumes "exclInv cm" "cm_starters cm = xs @ worker # ys" "holdsStarting worker"
  shows "list_all (workerOk cm') xs" "list_all (workerOk cm') ys"
  using only_holder [OF assms] unlocked_ok by (auto simp: list_all_iff filter_empty_conv)

lemma stage2_excl:
  assumes "exclInv cm" "cm_starters cm = xs @ worker # ys" "sw_phase worker = SwStage2"
  shows "exclInv ((profile_start_stage2 reply worker cm)\<lparr>cm_starters := xs @ worker\<lparr>sw_phase := SwDone\<rparr> # ys\<rparr>)"
proof -
  let ?c = "profile_start_stage2 reply worker cm"
  have h: "holdsStarting worker" using assms(3) by (simp add: holdsStarting_def)
  have v: "cm_muStarting ?c = cm_muStarting cm" "cm_muStopping ?c = cm_muStopping cm" "cm_stoppers ?c = cm_stoppers cm"
    "concat (map teardowns (cm_ui ?c)) = concat (map teardowns (cm_ui cm))"
    by (simp_all add: profile_start_stage2_def Let_def cmPost_def UpdateStartedId_def SetRunningProfiles_def setRunning_def
        applySystemProxy_def stage2FollowUps_def)
  have "workerOk ?c (worker\<lparr>sw_phase := SwDone\<rparr>)" by (simp add: workerOk_def beforeCore_def)
  then show ?thesis using assms(1,2) h v others_ok [OF assms(1,2) h]
    by (simp add: exclInv_def locksOk_def holdsStarting_def)
qed

lemma waits_for_running_stop:
  assumes "exclInv cm" "cm_starters cm = xs @ worker # ys" "beforeCore worker" "cm_muStopping cm"
  shows "cm_running cm = None \<or> stopsIn StRun cm"
proof -
  obtain st where st: "cm_stoppers cm = [st]" using assms(1,4) by (cases "cm_stoppers cm") (auto simp: exclInv_def locksOk_def)
  have "workerOk cm worker" using assms(1,2) by (simp add: exclInv_def)
  then show ?thesis using st assms(3) by (cases "st_phase st") (auto simp: workerOk_def stopsIn_def)
qed

lemma worker_excl:
  assumes inv: "exclInv cm" and at: "cm_starters cm = xs @ worker # ys"
    and ready: "workerReady worker cm" and step: "startWorkerStep reply worker cm = (phase, cm')"
  shows "exclInv (cm'\<lparr>cm_starters := xs @ worker\<lparr>sw_phase := phase\<rparr> # ys\<rparr>)"
proof -
  have ok: "workerOk cm worker" using inv at by (simp add: exclInv_def)
  show ?thesis
  proof (cases "sw_phase worker")
    case SwLaunched
    have "workerOk cm (worker\<lparr>sw_phase := phase\<rparr>)" using SwLaunched step ok
      by (auto simp: startWorkerStep_def workerOk_def beforeCore_def split: if_splits)
    then show ?thesis using SwLaunched step at inv
      by (auto simp: startWorkerStep_def holdsStarting_def intro!: replace_worker split: if_splits)
  next
    case SwSnapshot
    have c: "cm' = fst (stopBegin (switchStop worker) False cm)" "phase = (case cm_running cm of None \<Rightarrow> SwWaiting | Some x \<Rightarrow> SwLock x)"
      using SwSnapshot step stopBegin_snd [of "switchStop worker" False cm]
      by (auto simp: startWorkerStep_def split: prod.splits option.splits)
    have v: "exclView cm' = exclView cm" unfolding c(1) by (rule stopBegin_view)
    have w: "workerOk cm' = workerOk cm" using v by (auto simp: fun_eq_iff workerOk_def stopsIn_def exclView_def)
    have "workerOk cm (worker\<lparr>sw_phase := phase\<rparr>)" using SwSnapshot ok c(2)
      by (auto simp: workerOk_def beforeCore_def split: option.splits)
    moreover have "cm_starters cm' = xs @ worker # ys" using v at by (simp add: exclView_def)
    moreover have "exclInv cm'" using inv exclInv_view [OF v] by simp
    ultimately show ?thesis using SwSnapshot w c(2)
      by (intro replace_worker) (auto simp: holdsStarting_def split: option.split)
  next
    case (SwLock current)
    let ?call = "\<lparr>sc_id = current, sc_options = switchStop worker, sc_main = False\<rparr>"
    have c: "cm' = stopLock ?call cm" "phase = SwWaiting" using SwLock step by (simp_all add: startWorkerStep_def)
    have i: "exclInv cm'" using exclKeeps_stopLock [of cm ?call] inv c by (simp add: exclKeeps_def)
    have at': "cm_starters cm' = xs @ worker # ys" using at c by simp
    have "cm_muStopping cm'" using stopLock_view [of ?call cm] c by (simp add: exclView_def)
    then have "cm_running cm' = None \<or> stopsIn StRun cm'"
      using waits_for_running_stop [OF i at'] SwLock by (simp add: beforeCore_def)
    moreover have "workerOk cm' worker" using i at' by (simp add: exclInv_def)
    ultimately show ?thesis using SwLock c(2) i at'
      by (intro replace_worker) (auto simp: holdsStarting_def workerOk_def beforeCore_def)
  next
    case SwWaiting
    have "cm_stoppers cm = []" using inv ready SwWaiting by (simp add: workerReady_def exclInv_def locksOk_def)
    then have "cm_running cm = None" using ok SwWaiting by (simp add: workerOk_def stopsIn_def)
    then show ?thesis using SwWaiting step at inv
      by (auto simp: startWorkerStep_def holdsStarting_def workerOk_def intro!: replace_worker)
  next
    case SwStage2
    then show ?thesis using step stage2_excl [OF inv at SwStage2, of reply] by (auto simp: startWorkerStep_def)
  next
    case SwDone
    have h: "holdsStarting worker" using SwDone by (simp add: holdsStarting_def)
    have "workerOk c (worker\<lparr>sw_phase := SwUnlocked\<rparr>)" for c by (simp add: workerOk_def beforeCore_def)
    then show ?thesis using SwDone step inv at only_holder [OF inv at h] others_ok [OF inv at h]
      by (auto simp: startWorkerStep_def exclInv_def locksOk_def holdsStarting_def)
  next
    case SwUnlocked
    then show ?thesis using ready by (simp add: workerReady_def)
  qed
qed

lemma workerEnd_excl:
  assumes "exclInv cm" "cm_starters cm = xs @ worker # ys" "sw_phase worker = SwUnlocked"
  shows "exclInv (cmPost [UConnectingOff] (cm\<lparr>cm_starters := xs @ ys\<rparr>))"
proof -
  let ?c = "cmPost [UConnectingOff] (cm\<lparr>cm_starters := xs @ ys\<rparr>)"
  have "workerOk ?c = workerOk cm" by (simp add: fun_eq_iff workerOk_def stopsIn_def cmPost_def)
  then show ?thesis using assms by (simp add: exclInv_def locksOk_def cmPost_def holdsStarting_def)
qed

lemma runUi_excl:
  assumes "cm_ui cm = task # rest"
  shows "exclKeeps cm (runUi w task (cm\<lparr>cm_ui := rest\<rparr>))"
proof (cases "\<exists>st. task = UTeardown st")
  case True
  then obtain st where st: "task = UTeardown st" by blast
  have "cm_running (stopTeardown st (cm\<lparr>cm_ui := rest\<rparr>)) = cm_running cm"
    by (simp add: stopTeardown_def Let_def clearRestartNeeded_def)
  then show ?thesis using stopTeardown_inv [of cm st rest] assms by (simp add: st runUi_def exclKeeps_def)
next
  case False
  let ?c = "cm\<lparr>cm_ui := rest\<rparr>"
  have v: "exclView ?c = exclView cm" using False assms by (cases task) (simp_all add: exclView_def)
  have "exclKeeps ?c (runUi w task ?c)"
  proof (cases task)
    case (URanked p req)
    then show ?thesis by (simp add: runUi_def exclKeeps_resumeRanked)
  next
    case (URankEnded p req early)
    have "exclKeeps ?c (?c\<lparr>cm_rankingInFlight := n\<rparr>)" for n by (intro exclKeeps_view) (simp add: exclView_def)
    then show ?thesis using URankEnded excl.R_trans [OF _ exclKeeps_resumeRanked] by (simp add: runUi_def Let_def)
  qed (use False in \<open>simp_all add: runUi_def exclKeeps_view exclView_def clearRestartNeeded_def\<close>)
  then show ?thesis using exclKeeps_view [OF v] by (rule excl.R_trans [rotated])
qed

text \<open>Every step keeps the invariant, and replaces the running profile only by way of none.\<close>

lemma exclKeeps_step:
  "exclKeeps cm cm' \<Longrightarrow> exclInv cm
    \<Longrightarrow> exclInv cm' \<and> (cm_running cm' = cm_running cm \<or> cm_running cm = None \<or> cm_running cm' = None)"
  by (simp add: exclKeeps_def)

lemma exclKeeps_simple:
  "exclKeeps cm (setBootStart r (cm\<lparr>cm_asked := s\<rparr>))" "exclKeeps cm (fst (nextStartSerial cm))"
  "exclKeeps cm (noteRestartNeeded why cm)" "exclKeeps cm (onPoolExhausted p cm)"
  "exclKeeps cm (cmPost [URanked p req] (cm\<lparr>cm_rankings := rs\<rparr>))"
  "exclKeeps cm (cmPost [URankEnded p req early] (cm\<lparr>cm_rankings := rs\<rparr>))"
  "exclKeeps cm (runProxyJob job (cm\<lparr>cm_proxyJobs := jobs\<rparr>))" "exclKeeps cm (cm\<lparr>cm_repo := repo\<rparr>)"
  by (rule exclKeeps_view, simp add: exclView_def setBootStart_def nextStartSerial_def noteRestartNeeded_def
      onPoolExhausted_def cmPost_def runProxyJob_def)+

lemma excl_step:
  assumes "cm_step cm cm'" "exclInv cm"
  shows "exclInv cm' \<and> (cm_running cm' = cm_running cm \<or> cm_running cm = None \<or> cm_running cm' = None)"
  using assms
proof (induction rule: cm_step.induct)
  case (cm_worker cm xs worker ys reply phase cm')
  have "cm_running cm' = cm_running cm \<or> sw_phase worker = SwStage2"
    using cm_worker.hyps(3) stopBegin_view [of "switchStop worker" False cm] stopLock_view [of _ cm]
    by (auto simp: startWorkerStep_def exclView_def split: StartPhase.splits if_splits prod.splits option.splits)
  moreover have "sw_phase worker = SwStage2 \<Longrightarrow> cm_running cm = None"
    using cm_worker.prems cm_worker.hyps(1) by (simp add: exclInv_def workerOk_def)
  ultimately show ?case using worker_excl [OF cm_worker.prems cm_worker.hyps] by auto
next
  case (cm_workerEnd cm xs worker ys)
  then show ?case using workerEnd_excl [of cm xs worker ys] by (simp add: cmPost_def)
next
  case (cm_stopWorker cm xs worker ys stopped)
  then show ?case using stopClear_inv [of cm xs worker ys stopped] by simp
next
  case (cm_runUi cm task rest w)
  then show ?case using runUi_excl [of cm task rest w] by (simp add: exclKeeps_def)
next
  case (cm_stopLock cm xs call ys)
  have "exclKeeps cm (cm\<lparr>cm_stopCalls := xs @ ys\<rparr>)" by (intro exclKeeps_view) (simp add: exclView_def)
  then show ?case using excl.R_trans [OF _ exclKeeps_stopLock] cm_stopLock by (simp add: exclKeeps_def)
next
  case (cm_offer cm xs offer ys w yes)
  have "exclKeeps cm (cm\<lparr>cm_offers := xs @ ys\<rparr>)" by (intro exclKeeps_view) (simp add: exclView_def)
  then show ?case using excl.R_trans [OF _ excl.R_answerOffer] cm_offer by (simp add: exclKeeps_def)
qed (rule exclKeeps_step; simp add: excl.R_ask excl.R_restartStarted excl.R_applyPending excl.R_retryAfterGeoFetch excl.R_setTun
    excl.R_setSystemProxy excl.R_chooseRoute excl.R_onKillSwitchStateChanged excl.R_disableKillSwitch excl.R_onCoreStarted excl.R_ranked excl.R_any excl.R_set
    excl.R_killSwitchTo exclKeeps_cmStop exclKeeps_onCoreGaveUp exclKeeps_simple)+

subsection \<open>Starts kept back by the kill switch\<close>

definition startWaits :: "KillSwitch \<Rightarrow> bool" where
  "startWaits ks \<longleftrightarrow> list_ex (\<lambda>w. w_callback w = kStartWaiter \<and> w_alive w \<and> \<not> w_idle w) (ks_waiters ks)"

text \<open>A waiting callback stays, is called, or the kill switch has shut down.\<close>

definition keepsWaiter :: "KillSwitch \<Rightarrow> KillSwitch \<Rightarrow> bool" where
  "keepsWaiter ks ks' \<longleftrightarrow> (ks_shutdown ks \<longrightarrow> ks_shutdown ks')
     \<and> (\<exists>extra. ks_calls ks' = ks_calls ks @ extra
         \<and> (startWaits ks \<longrightarrow> startWaits ks' \<or> kStartWaiter \<in> set (map fst extra) \<or> ks_shutdown ks'))"

definition wView :: "KillSwitch \<Rightarrow> Waiter list \<times> (nat \<times> bool) list \<times> bool" where
  "wView ks = (ks_waiters ks, ks_calls ks, ks_shutdown ks)"

lemma keeps_same: "wView ks' = wView ks \<Longrightarrow> keepsWaiter ks ks'"
  by (simp add: keepsWaiter_def wView_def startWaits_def)

lemma keeps_trans:
  assumes "keepsWaiter a b" "keepsWaiter b c"
  shows "keepsWaiter a c"
proof -
  obtain e f where "ks_calls b = ks_calls a @ e" "ks_calls c = ks_calls b @ f"
    "startWaits a \<longrightarrow> startWaits b \<or> kStartWaiter \<in> set (map fst e) \<or> ks_shutdown b"
    "startWaits b \<longrightarrow> startWaits c \<or> kStartWaiter \<in> set (map fst f) \<or> ks_shutdown c"
    using assms unfolding keepsWaiter_def by blast
  then show ?thesis using assms unfolding keepsWaiter_def by (intro conjI exI [of _ "e @ f"]) auto
qed

lemma keeps_settle:
  assumes "wView ks1 = wView ks"
  shows "keepsWaiter ks (settle ks1)"
proof -
  define called where "called = map (\<lambda>w. (w_callback w, ks_state ks1 = Armed))
      (filter (\<lambda>w. \<not> waiterStays ks1 w \<and> \<not> (w_bound w \<and> \<not> w_alive w)) (ks_waiters ks1))"
  have "startWaits ks \<longrightarrow> startWaits (settle ks1) \<or> kStartWaiter \<in> set (map fst called)"
    using assms by (force simp: called_def startWaits_def settle_def wView_def list_ex_iff image_iff)
  moreover have "ks_calls (settle ks1) = ks_calls ks @ called" "ks_shutdown (settle ks1) = ks_shutdown ks"
    using assms by (simp_all add: settle_def called_def wView_def)
  ultimately show ?thesis unfolding keepsWaiter_def by blast
qed

lemma wView_helpers [simp]:
  "wView (updGuard g f ks) = wView ks" "wView (closeGuard p ks) = wView ks" "wView (dropPending ks) = wView ks"
  "wView (dropActive ks) = wView ks" "wView (setState st ks) = wView ks" "wView (endGuard g ks) = wView ks"
  "wView (stopHard g ks) = wView ks" "wView (spawn config ks) = wView ks"
  by (simp_all add: wView_def endGuard_def stopHard_def spawn_def Let_def)

lemma wView_updates [simp]:
  "wView (ks\<lparr>ks_failureCode := a\<rparr>) = wView ks" "wView (ks\<lparr>ks_failureMessage := b\<rparr>) = wView ks"
  "wView (ks\<lparr>ks_identityUnsupported := c\<rparr>) = wView ks" "wView (ks\<lparr>ks_identityDetail := d\<rparr>) = wView ks"
  "wView (ks\<lparr>ks_active := e\<rparr>) = wView ks" "wView (ks\<lparr>ks_pending := e\<rparr>) = wView ks" "wView (ks\<lparr>ks_retryTimers := f\<rparr>) = wView ks"
  "wView (ks\<lparr>ks_lastRespawn := g\<rparr>) = wView ks" "wView (ks\<lparr>ks_apiPort := f\<rparr>) = wView ks" "wView (ks\<lparr>ks_settings := h\<rparr>) = wView ks"
  "wView (ks\<lparr>ks_now := f\<rparr>) = wView ks" "wView (ks\<lparr>ks_overridden := c\<rparr>) = wView ks"
  by (simp_all add: wView_def)

lemma keeps_fail: "wView ks1 = wView ks \<Longrightarrow> keepsWaiter ks (fail code message ks1)" "wView ks1 = wView ks \<Longrightarrow> keepsWaiter ks (failIdentity ks1)"
  unfolding fail_def failIdentity_def Let_def by (rule keeps_settle, simp)+

lemma keeps_applyKs:
  assumes "wView ks1 = wView ks"
  shows "keepsWaiter ks (applyKs ks1)"
proof -
  define ks2 where "ks2 = (if ks_identityUnsupported ks1 \<and> ks_state ks1 = Armed then failIdentity ks1 else ks1)"
  have 2: "keepsWaiter ks ks2" using assms keeps_fail(2) keeps_same by (simp add: ks2_def)
  have "keepsWaiter ks (spawn c ks2)" "keepsWaiter ks (settle (dropPending ks2))" for c
    by (rule keeps_trans [OF 2 keeps_same], simp, rule keeps_trans [OF 2 keeps_settle], simp)
  moreover have "keepsWaiter ks (applyOff ks1)" "keepsWaiter ks (applyOverridden ks1)"
    using assms by (simp_all add: applyOff_def applyOverridden_def Let_def keeps_settle keeps_fail)
  ultimately show ?thesis using 2 keeps_same [OF assms] by (simp add: applyKs_def Let_def ks2_def [symmetric])
qed

lemma keeps_lost: "wView ks1 = wView ks \<Longrightarrow> keepsWaiter ks (protectionLost code message ks1)"
  "wView ks1 = wView ks \<Longrightarrow> keepsWaiter ks (armFailed code message ks1)"
  by (simp_all add: protectionLost_def armFailed_def Let_def keeps_same keeps_settle keeps_fail keeps_applyKs)

lemma keeps_guardEvents:
  "keepsWaiter ks (onReady g ks)" "keepsWaiter ks (guardFailed g code message ks)" "keepsWaiter ks (onReadyTimeout g ks)"
  "keepsWaiter ks (onStartFailed g ks)" "keepsWaiter ks (onFinished g [] c b ks)"
  by (simp_all add: onReady_def guardFailed_def onReadyTimeout_def onStartFailed_def onFinished_def readOutput_def Let_def
      keeps_same keeps_lost keeps_settle keeps_fail split: option.split)

lemma keeps_handleLine: "keepsWaiter ks (handleLine g line ks)"
  by (simp add: handleLine_def Let_def keeps_same keeps_guardEvents split: option.split)

lemma startWaits_context:
  "c \<noteq> kStartWaiter \<Longrightarrow> startWaits (ks\<lparr>ks_waiters := map (\<lambda>w. if w_callback w = c then w\<lparr>w_alive := False\<rparr> else w) (ks_waiters ks)\<rparr>) = startWaits ks"
  by (auto simp: startWaits_def list_ex_iff)

lemma keeps_step:
  assumes "ks_step e ks ks'" "ksEventOk e"
  shows "keepsWaiter ks ks'"
  using assms
proof (induction rule: ks_step.induct)
  case (step_line ks g gd raw)
  show ?case by (simp add: readOutput_def Let_def keeps_handleLine keeps_same)
next
  case (step_finished ks g gd ls code crashed)
  then show ?case by (simp add: ksEventOk_def keeps_guardEvents)
next
  case (step_shutdown ex ks)
  show ?case by (simp add: shutdown_def keepsWaiter_def)
next
  case (step_context c ks)
  then show ?case by (simp add: ksEventOk_def keepsWaiter_def startWaits_context)
next
  case (step_settled c b ks)
  show ?case by (auto simp: whenSettled_def keepsWaiter_def startWaits_def)
next
  case (step_idle c ks)
  show ?case by (auto simp: whenIdle_def keepsWaiter_def startWaits_def)
next
  case (step_grace ks g gd)
  show ?case by (simp add: closeGrace_def keeps_same split: option.split)
qed (simp_all add: keeps_applyKs keeps_guardEvents keeps_same noteIdentityUnsupported_def setOverride_def SetApiPort_def Let_def
    retryApply_def)

text \<open>The invariant: a start that is kept back has its callback registered.\<close>

definition slotInv :: "ConnMgr \<Rightarrow> bool" where
  "slotInv cm \<longleftrightarrow> ksReachable (cmKs cm) \<and> (sr_profileId (cm_ksDeferred cm) \<ge> 0 \<longrightarrow> startWaits (cmKs cm) \<or> ks_shutdown (cmKs cm))"

definition slotKeeps :: "ConnMgr \<Rightarrow> ConnMgr \<Rightarrow> bool" where
  "slotKeeps cm cm' \<longleftrightarrow> (slotInv cm \<longrightarrow> slotInv cm')"

definition slotView :: "ConnMgr \<Rightarrow> KillSwitch \<times> StartRequest" where
  "slotView cm = (cmKs cm, cm_ksDeferred cm)"

lemma slotInv_view: "slotView cm' = slotView cm \<Longrightarrow> slotInv cm' = slotInv cm"
  by (simp add: slotInv_def slotView_def)

lemma slotKeeps_view: "slotView cm' = slotView cm \<Longrightarrow> slotKeeps cm cm'"
  using slotInv_view [of cm' cm] by (simp add: slotKeeps_def)

lemma slotKeeps_trans: "slotKeeps a b \<Longrightarrow> slotKeeps b c \<Longrightarrow> slotKeeps a c"
  by (simp add: slotKeeps_def)

lemma supervisor_ks [simp]:
  "cs_ks (fst (setStartWhenUp p cs)) = cs_ks cs" "cs_ks (restartForGuard cs) = cs_ks cs"
  "cs_ks (fst (restartNotListening p cs)) = cs_ks cs" "cs_ks (cancelResume cs) = cs_ks cs"
  by (simp_all add: setStartWhenUp_def restartForGuard_def restartNotListening_def cancelResume_def cs_emit_def
      beginRestart_def postProcessRestart_def cs_post_def)

lemma slotView_ops [simp]:
  "slotView (startFinished r outcome cm) = slotView cm" "slotView (deferStartToCore r cm) = slotView cm"
  "slotView (cmSetStartWhenUp p cm) = slotView cm" "slotView (syncState cm) = slotView cm" "slotView (cmPost tasks cm) = slotView cm"
  by (simp_all add: slotView_def cmKs_def startFinished_def deferStartToCore_def Let_def cmSetStartWhenUp_def cmPost_def)

lemma slotView_super: "cs_ks super = cmKs cm \<Longrightarrow> slotView (cm\<lparr>cm_sup := super\<rparr>) = slotView cm"
  by (simp add: slotView_def cmKs_def)

lemma slotView_updates [simp]:
  "slotView (cm\<lparr>cm_geoToken := a\<rparr>) = slotView cm" "slotView (cm\<lparr>cm_rankedFor := b\<rparr>) = slotView cm"
  "slotView (cm\<lparr>cm_coreRequest := c\<rparr>) = slotView cm" "slotView (cm\<lparr>cm_asked := d\<rparr>) = slotView cm"
  "slotView (cm\<lparr>cm_lastProfileId := b, cm_dispatched := e\<rparr>) = slotView cm" "slotView (cm\<lparr>cm_ui := f\<rparr>) = slotView cm"
  "slotView (cm\<lparr>cm_guardRestart := g, cm_sup := h\<rparr>) = slotView (cm\<lparr>cm_sup := h\<rparr>)" "slotView (cm\<lparr>cm_starters := i\<rparr>) = slotView cm"
  "slotView (cm\<lparr>cm_rankingInFlight := a\<rparr>) = slotView cm" "slotView (cm\<lparr>cm_rankings := j\<rparr>) = slotView cm"
  "slotView (cm\<lparr>cm_bootSerial := a\<rparr>) = slotView cm" "slotView (cm\<lparr>cm_geoWaiters := k\<rparr>) = slotView cm"
  "slotView (cm\<lparr>cm_ksWasFailed := l\<rparr>) = slotView cm" "slotView (cm\<lparr>cm_ksWasArmed := l\<rparr>) = slotView cm"
  "slotView (cm\<lparr>cm_set := m\<rparr>) = slotView cm" "slotView (cm\<lparr>cm_tunHeld := l\<rparr>) = slotView cm"
  "slotView (cm\<lparr>cm_tunCache := n\<rparr>) = slotView cm" "slotView (cm\<lparr>cm_proxyJobs := p\<rparr>) = slotView cm"
  "slotView (cm\<lparr>cm_reasons := q\<rparr>) = slotView cm" "slotView (cm\<lparr>cm_geoRetried := b\<rparr>) = slotView cm"
  "slotView (cm\<lparr>cm_guardRestart := g\<rparr>) = slotView cm" "slotView (cm\<lparr>cm_repo := r\<rparr>) = slotView cm"
  "slotView (cm\<lparr>cm_stopCalls := t\<rparr>) = slotView cm" "slotView (cm\<lparr>cm_stoppers := u\<rparr>) = slotView cm"
  "slotView (cm\<lparr>cm_offers := v\<rparr>) = slotView cm" "slotView (cm\<lparr>cm_proxyOn := l\<rparr>) = slotView cm"
  "slotView (cm\<lparr>cm_startSerial := a\<rparr>) = slotView cm" "slotView (cm\<lparr>cm_switching := l\<rparr>) = slotView cm"
  "slotView (cm\<lparr>cm_connecting := l\<rparr>) = slotView cm" "slotView (cm\<lparr>cm_disconnecting := l\<rparr>) = slotView cm"
  "slotView (cm\<lparr>cm_muStarting := l\<rparr>) = slotView cm"
  by (simp_all add: slotView_def cmKs_def)

lemma slotView_guard [simp]: "slotView (restartCoreForGuard r cm) = slotView cm"
proof -
  have "cm_sup (cmSetStartWhenUp p cm) = fst (setStartWhenUp p (cm_sup cm))" for p by (simp add: cmSetStartWhenUp_def)
  then show ?thesis by (simp add: restartCoreForGuard_def Let_def) (simp add: slotView_def cmKs_def deferStartToCore_def Let_def startFinished_def cmSetStartWhenUp_def)
qed

lemma slotView_startBuilt [simp]: "slotView (startBuilt w r cm) = slotView cm"
proof -
  have "slotView (launchStart r b cm) = slotView cm" for b by (simp add: launchStart_def)
  moreover have "slotView ((deferStartToCore r cm)\<lparr>cm_sup := fst (restartNotListening p (cm_sup cm))\<rparr>) = slotView cm" for p
    using slotView_ops(2) [of r cm] by (simp add: slotView_def cmKs_def)
  ultimately show ?thesis by (simp add: startBuilt_def Let_def)
qed

lemma ksReachable_event: "ksReachable ks \<Longrightarrow> ks_step e ks ks' \<Longrightarrow> ksReachable ks'"
  by (meson ks_next_state_def rtranclp.rtrancl_into_rtrancl)

lemma slotKeeps_deferToKillSwitch:
  assumes "ks_state (cmKs cm) = Arming"
  shows "slotKeeps cm (deferToKillSwitch r cm)"
proof -
  have "slotInv (deferToKillSwitch r cm)" if inv: "slotInv cm"
  proof (cases "sr_profileId (cm_ksDeferred cm) \<ge> 0")
    case True
    then show ?thesis using inv by (simp add: slotInv_def deferToKillSwitch_def Let_def cmKs_def startFinished_def)
  next
    case False
    have "ksReachable (whenSettled kStartWaiter True (cmKs cm))"
      by (rule ksReachable_event [OF _ step_settled]) (use inv in \<open>simp add: slotInv_def\<close>)
    moreover have "startWaits (whenSettled kStartWaiter True (cmKs cm))" using assms by (simp add: whenSettled_def startWaits_def)
    moreover have "cmKs (deferToKillSwitch r cm) = whenSettled kStartWaiter True (cmKs cm)"
      using False by (simp add: deferToKillSwitch_def Let_def cmKs_def)
    ultimately show ?thesis by (simp add: slotInv_def)
  qed
  then show ?thesis by (simp add: slotKeeps_def)
qed

lemma slotKeeps_cmStart: "slotKeeps cm (cmStart w r cm)"
proof -
  have b: "slotView (fst (rankBeforeStart w r c)) = slotView c" for c by (simp add: slotView_def cmKs_def rankBeforeStart_def Let_def)
  have u: "slotKeeps c (startUsable w r c)" for c
    by (cases "ks_state (cmKs c) = Arming")
       (simp_all add: startUsable_def slotKeeps_deferToKillSwitch slotKeeps_view b case_prod_beta)
  have "slotKeeps c (startUsable w r c')" if "slotView c' = slotView c" for c c'
    by (rule slotKeeps_trans [OF slotKeeps_view [OF that] u])
  then show ?thesis unfolding cmStart_def Let_def by (simp add: slotKeeps_view split: option.split)
qed

lemma slotKeeps_start: "slotView c = slotView cm \<Longrightarrow> slotKeeps cm (cmStart w r c)"
  by (rule slotKeeps_trans [OF slotKeeps_view slotKeeps_cmStart])

text \<open>The callback leaves the invariant behind whatever was there before.\<close>

lemma settledStart_slot:
  assumes "ksReachable (cmKs cm)"
  shows "slotInv (settledStart w cm)"
proof -
  have "slotInv (cm\<lparr>cm_ksDeferred := noRequest\<rparr>)" using assms by (simp add: slotInv_def noRequest_def cmKs_def)
  then show ?thesis using slotKeeps_cmStart [of "cm\<lparr>cm_ksDeferred := noRequest\<rparr>"] by (simp add: settledStart_def Let_def slotKeeps_def)
qed

lemma slotView_stateChanged [simp]: "slotView (onKillSwitchStateChanged w cm) = slotView cm"
  unfolding onKillSwitchStateChanged_def Let_def by simp

lemma callbacks_slot:
  assumes "ksReachable (cmKs cm)" "slotInv cm \<or> kStartWaiter \<in> set (map fst calls)"
  shows "slotInv (fold (\<lambda>call cm. if fst call = kStartWaiter then settledStart w cm else cm) calls cm)"
  using assms
proof (induction calls arbitrary: cm)
  case (Cons call calls)
  show ?case
  proof (cases "fst call = kStartWaiter")
    case True
    have "slotInv (settledStart w cm)" by (rule settledStart_slot [OF Cons.prems(1)])
    then show ?thesis using True Cons.IH [of "settledStart w cm"] by (simp add: slotInv_def)
  next
    case False
    then show ?thesis using Cons by auto
  qed
qed simp

lemma slotInv_killSwitchTo:
  assumes "slotInv cm" "ksReachable ks'" "keepsWaiter (cmKs cm) ks'"
  shows "slotInv (killSwitchTo w ks' cm)"
proof -
  define cm1 where "cm1 = cm\<lparr>cm_sup := (cm_sup cm)\<lparr>cs_ks := ks'\<rparr>\<rparr>"
  define cm2 where "cm2 = (if ks_state ks' \<noteq> ks_state (cmKs cm) then onKillSwitchStateChanged w cm1 else cm1)"
  have v: "slotView cm2 = (ks', cm_ksDeferred cm)" by (simp add: cm2_def) (simp add: cm1_def slotView_def cmKs_def)
  obtain extra where extra: "ks_calls ks' = ks_calls (cmKs cm) @ extra"
    and w: "startWaits (cmKs cm) \<longrightarrow> startWaits ks' \<or> kStartWaiter \<in> set (map fst extra) \<or> ks_shutdown ks'"
    using assms(3) unfolding keepsWaiter_def by blast
  have "slotInv cm2 \<or> kStartWaiter \<in> set (map fst extra)"
    using v w assms by (auto simp: slotInv_def slotView_def keepsWaiter_def)
  moreover have "ksReachable (cmKs cm2)" using v assms(2) by (simp add: slotView_def)
  ultimately have "slotInv (fold (\<lambda>call cm. if fst call = kStartWaiter then settledStart w cm else cm) extra cm2)"
    by (intro callbacks_slot)
  then show ?thesis unfolding killSwitchTo_def Let_def cm1_def [symmetric] cm2_def [symmetric] using extra by simp
qed

interpretation slot: manager_relation slotKeeps
proof (unfold_locales, goal_cases)
  case (2 a b c)
  then show ?case by (rule slotKeeps_trans)
next
  case (3 cm w r)
  show ?case by (simp add: askStart_def slotKeeps_start)
next
  case (4 cm w profile)
  have "slotKeeps cm (cmStart w (plainRequest profile) (cm\<lparr>cm_rankedFor := profile\<rparr>))" by (simp add: slotKeeps_start)
  then show ?case unfolding startRanked_def by (rule slotKeeps_trans [OF _ slotKeeps_view]) simp
next
  case (5 cm w)
  show ?case using settledStart_slot [of cm w] by (simp add: slotKeeps_def slotInv_def)
next
  case (8 cm w profile)
  show ?case by (simp add: coreStartedStart_def Let_def slotKeeps_view slotKeeps_start)
next
  case (18 cm w)
  show ?case using slotInv_killSwitchTo [of cm "applyKs (cmKs cm)" w] ksReachable_event [OF _ step_apply] keeps_applyKs
    by (auto simp: slotKeeps_def slotInv_def)
next
  case (19 cm st)
  have "ksReachable (cmKs cm) \<Longrightarrow> ksReachable ((cmKs cm)\<lparr>ks_settings := st\<rparr>)" by (rule ksReachable_event [OF _ step_settings])
  then show ?case by (auto simp: slotKeeps_def slotInv_def cmKs_def startWaits_def)
qed (rule slotKeeps_view; simp add: slotView_super)+

lemma slotView_stopBegin: "slotView (fst (stopBegin options onMain cm)) = slotView cm"
  by (simp add: stopBegin_def Let_def slotView_super cmKs_def split: option.split)

lemma slotView_stopLock [simp]: "slotView (stopLock call cm) = slotView cm"
  by (simp add: stopLock_def Let_def slotView_def cmKs_def cmPost_def)

lemma slotView_threads [simp]:
  "slotView (stopClear stopped worker cm) = slotView cm" "slotView (profile_start_stage2 reply sw cm) = slotView cm"
  "slotView (cmStop options onMain cm) = slotView cm" "slotView (onCoreGaveUp cm) = slotView cm"
  "slotView (stopTeardown st cm) = slotView cm"
proof -
  show "slotView (stopClear stopped worker cm) = slotView cm" "slotView (profile_start_stage2 reply sw cm) = slotView cm"
    "slotView (onCoreGaveUp cm) = slotView cm" "slotView (stopTeardown st cm) = slotView cm"
    by (simp_all add: slotView_def cmKs_def stopClear_def profile_start_stage2_def Let_def cmPost_def setRunning_def
        ClearRunningProfiles_def UpdateStartedId_def applySystemProxy_def SetRunningProfiles_def onCoreGaveUp_def startFinished_def
        stopTeardown_def clearRestartNeeded_def)
  show "slotView (cmStop options onMain cm) = slotView cm"
    using slotView_stopBegin [of options onMain cm]
    by (cases "stopBegin options onMain cm") (auto simp: cmStop_def slotView_def cmKs_def split: option.split)
qed

lemma slotView_worker:
  assumes "startWorkerStep reply worker cm = (phase, cm')"
  shows "slotView (cm'\<lparr>cm_starters := ws\<rparr>) = slotView cm"
  using assms slotView_stopBegin [of "switchStop worker" False cm]
  by (auto simp: startWorkerStep_def split: StartPhase.splits if_splits prod.splits option.splits)

lemma slotKeeps_resumeRanked: "slotKeeps cm (resumeRanked w p req cm)"
proof -
  have "slotKeeps cm (startRanked w p r cm)" for r unfolding startRanked_def
    by (rule slotKeeps_trans [OF slotKeeps_start slotKeeps_view]) simp_all
  then show ?thesis by (simp add: resumeRanked_def slotKeeps_view split: option.split)
qed

lemma slotKeeps_runUi: "slotKeeps cm (runUi w task cm)"
proof (cases task)
  case (URanked p req)
  then show ?thesis by (simp add: runUi_def slotKeeps_resumeRanked)
next
  case (URankEnded p req early)
  have "slotKeeps cm (cm\<lparr>cm_rankingInFlight := n\<rparr>)" for n by (rule slotKeeps_view) simp
  then show ?thesis using URankEnded slotKeeps_trans [OF _ slotKeeps_resumeRanked] by (simp add: runUi_def Let_def)
next
  case UCancelResume
  then show ?thesis by (simp add: runUi_def slot.R_cancelResume)
qed (rule slotKeeps_view; simp add: runUi_def clearRestartNeeded_def)+

lemma slotKeeps_simple:
  "slotKeeps cm (setBootStart r (cm\<lparr>cm_asked := s\<rparr>))" "slotKeeps cm (fst (nextStartSerial cm))"
  "slotKeeps cm (noteRestartNeeded why cm)" "slotKeeps cm (onPoolExhausted p cm)"
  "slotKeeps cm (cmPost tasks (cm\<lparr>cm_rankings := rs\<rparr>))" "slotKeeps cm (cmPost tasks (cm\<lparr>cm_starters := ws\<rparr>))"
  "slotKeeps cm (runProxyJob job (cm\<lparr>cm_proxyJobs := jobs\<rparr>))" "slotKeeps cm (cm\<lparr>cm_repo := repo\<rparr>)"
  "slotKeeps cm (stopLock call (cm\<lparr>cm_stopCalls := cs\<rparr>))" "slotKeeps cm (stopClear stopped st (cm\<lparr>cm_stoppers := sts\<rparr>))"
  "slotKeeps cm (cm\<lparr>cm_offers := os\<rparr>)"
  by (rule slotKeeps_view, simp add: setBootStart_def nextStartSerial_def noteRestartNeeded_def
      onPoolExhausted_def runProxyJob_def)+

lemma slot_step: "cm_step cm cm' \<Longrightarrow> slotKeeps cm cm'"
proof (induction rule: cm_step.induct)
  case (cm_worker cm xs worker ys reply phase cm')
  then show ?case by (intro slotKeeps_view slotView_worker)
next
  case (cm_offer cm xs offer ys w yes)
  show ?case by (rule slotKeeps_trans [OF slotKeeps_simple(11) slot.R_answerOffer])
next
  case (cm_runUi cm task rest w)
  show ?case by (rule slotKeeps_trans [OF slotKeeps_view slotKeeps_runUi]) simp
next
  case (cm_killSwitch e cm ks' w)
  then show ?case using slotInv_killSwitchTo [of cm ks' w] ksReachable_event [of "cmKs cm" e ks'] keeps_step [of e "cmKs cm" ks']
    by (auto simp: slotKeeps_def slotInv_def)
next
  case (cm_supervisor super cm)
  then show ?case by (rule slot.R_super)
qed (simp_all add: slot.R_ask slot.R_restartStarted slot.R_applyPending slot.R_retryAfterGeoFetch slot.R_setTun slot.R_setSystemProxy
    slot.R_chooseRoute slot.R_onKillSwitchStateChanged slot.R_disableKillSwitch slot.R_onCoreStarted slot.R_ranked slot.R_set slotKeeps_simple slotKeeps_view)

subsection \<open>Reachable states\<close>

definition cmInv :: "ConnMgr \<Rightarrow> bool" where
  "cmInv cm \<longleftrightarrow> balanced cm \<and> exclInv cm \<and> slotInv cm"

lemma cm_init_inv:
  assumes "cm_init cm"
  shows "cmInv cm"
proof -
  obtain gui ks set repo opts where cm: "cm = cmCreate gui ks set repo opts" using assms by (auto simp: cm_init_def)
  have "ksReachable (ksCreate ks)" by (auto simp: ks_init_def)
  then show ?thesis unfolding cm
    by (simp add: cmInv_def balanced_def bal_defs slotRequests_def noRequest_def exclInv_def locksOk_def slotInv_def cmKs_def
        cmCreate_def csCreate_def)
qed

lemma cm_step_inv:
  assumes "cmInv cm" "cm_step cm cm'"
  shows "cmInv cm'"
  using assms(1) level_balanced [OF level_step [OF assms(2)]] excl_step [OF assms(2)] slot_step [OF assms(2)]
  by (simp add: cmInv_def slotKeeps_def)

interpretation connection: transition_system cm_init cm_step cmInv
  by unfold_locales (fact cm_init_inv, rule cm_step_inv)

abbreviation cmReachable :: "ConnMgr \<Rightarrow> bool" where
  "cmReachable cm \<equiv> \<exists>cm0. cm_init cm0 \<and> cm_step\<^sup>*\<^sup>* cm0 cm"

lemma cm_reachable_inv: "cmReachable cm \<Longrightarrow> cmInv cm"
  using connection.inv_reachable by blast

lemma cmReachable_step: "cmReachable cm \<Longrightarrow> cm_step cm cm' \<Longrightarrow> cmReachable cm'"
  by (meson rtranclp.rtrancl_into_rtrancl)

lemma teardown_posted: "st \<in> set (concat (map teardowns tasks)) \<Longrightarrow> UTeardown st \<in> set tasks"
proof (induction tasks)
  case (Cons task tasks)
  then show ?case by (cases task) auto
qed simp

lemma stop_goes_on:
  assumes "exclInv cm" "cm_muStopping cm"
  shows "\<exists>st. cm_stoppers cm = [st] \<and> (st_phase st = StRun \<or> UTeardown st \<in> set (cm_ui cm))"
proof -
  obtain st where st: "cm_stoppers cm = [st]" using assms by (cases "cm_stoppers cm") (auto simp: exclInv_def locksOk_def)
  have "st_phase st = StTeardown \<Longrightarrow> UTeardown st \<in> set (cm_ui cm)"
    using assms(1) st by (intro teardown_posted) (simp add: exclInv_def locksOk_def)
  then show ?thesis using st by (cases "st_phase st") auto
qed

subsection \<open>A run\<close>

definition demoCmSettings :: CmSettings where
  "demoCmSettings = \<lparr>set_spmode_vpn = False, set_spmode_system_proxy = False, set_disable_privilege_req = False, set_disable_mixed_inbound = False,
     set_reset_proxy_on_disable_sp = False, set_remember_enable = False, set_remember_tun = False, set_remember_system_proxy = False,
     set_remember_id = - 1, set_flag_restart_tun_on = False, set_current_route_id = 0, set_core_dns_in_port = 0\<rparr>"

definition demoRepo :: CmRepo where
  "demoRepo = \<lparr>rp_profiles = [7 \<mapsto> 1], rp_disabled = (\<lambda>_. False), rp_groups = [1 \<mapsto> \<lparr>gr_archive = False, gr_route_id = - 1\<rparr>],
     rp_routes = (\<lambda>_. False)\<rparr>"

definition demoCmOptions :: RuntimeOptions where
  "demoCmOptions = \<lparr>ro_headless = True, ro_systemProxy = False, ro_tunRequired = True, ro_blockingPrivilegeCheck = False,
     ro_geoAutoDownload = True\<rparr>"

definition demoBuild :: BuildResult where
  "demoBuild = \<lparr>br_error = [], br_tun = False, br_extraCore = False, br_routeId = 0, br_involved = {7}\<rparr>"

definition demoCmWorld :: World where
  "demoCmWorld = \<lparr>wo_build = (\<lambda>_. demoBuild), wo_selector = (\<lambda>_. False), wo_needsRanking = (\<lambda>_. False), wo_guardIdentity = True,
     wo_caps = None, wo_knownAdmin = Some False, wo_isAdmin = False, wo_grants = False, wo_tunConflict = (\<lambda>_ _. []), wo_otherHeadless = []\<rparr>"

definition demoReply :: CoreReply where
  "demoReply = \<lparr>cr_permitted = True, cr_rpcOK = True, cr_error = [], cr_geo = False, cr_fetch = False\<rparr>"

definition demoRequest :: StartRequest where
  "demoRequest = \<lparr>sr_profileId = 7, sr_interactive = False, sr_serial = 1\<rparr>"

definition demoSup :: CoreSup where
  "demoSup = (csCreate False demoSettings0)\<lparr>cs_process := True, cs_coreRunning := True\<rparr>"

text \<open>A running core; profile 7 is asked for, its worker is launched, reaches the second stage and succeeds.\<close>

definition demoCm0 :: ConnMgr where
  "demoCm0 = (cmCreate False demoSettings0 demoCmSettings demoRepo demoCmOptions)\<lparr>cm_sup := demoSup\<rparr>"

definition demoWorker :: "StartPhase \<Rightarrow> StartWorker" where
  "demoWorker phase = \<lparr>sw_request = demoRequest, sw_build = demoBuild, sw_phase = phase\<rparr>"

definition demoCm1 :: ConnMgr where "demoCm1 = askStart demoCmWorld demoRequest demoCm0"
definition demoCm2 :: ConnMgr where "demoCm2 = demoCm1\<lparr>cm_starters := [demoWorker SwStage2]\<rparr>"
definition demoCm3 :: ConnMgr where
  "demoCm3 = (profile_start_stage2 demoReply (demoWorker SwStage2) demoCm2)\<lparr>cm_starters := [demoWorker SwDone]\<rparr>"

lemmas demoCm_defs = demoCm0_def cmCreate_def demoRequest_def demoCmWorld_def demoBuild_def demoRepo_def demoSup_def demoCmOptions_def
  demoCmSettings_def csCreate_def demoSettings0_def ksCreate_def noRequest_def

lemma demoCm1_facts: "cm_starters demoCm1 = [demoWorker SwLaunched]" "cm_running demoCm1 = None" "cm_asked demoCm1 = [1]"
  "cm_told demoCm1 = []" "cm_ksDeferred demoCm1 = noRequest" "cm_coreRequest demoCm1 = noRequest" "cm_rankings demoCm1 = []" "cm_ui demoCm1 = []"
  by (simp_all add: demoCm1_def demoWorker_def askStart_def cmStart_def csPrepareExit_def GetProfile_def groupUsable_def startUsable_def cmKs_def
      allowsStart_def guardRestartPending_def rankBeforeStart_def startBuilt_def launchStart_def syncState_def Let_def demoCm_defs)

lemma demoCm0_reachable: "cmReachable demoCm0"
proof -
  let ?c = "cmCreate False demoSettings0 demoCmSettings demoRepo demoCmOptions"
  have "cm_init ?c" unfolding cm_init_def by blast
  moreover have "cm_step ?c demoCm0" unfolding demoCm0_def
    by (rule cm_supervisor) (simp add: cmCreate_def demoSup_def csCreate_def cmKs_def)
  ultimately show ?thesis by blast
qed

lemma demoCm1_reachable: "cmReachable demoCm1"
  unfolding demoCm1_def by (rule cmReachable_step [OF demoCm0_reachable cm_ask])

lemma demoCm2_reachable: "cmReachable demoCm2"
proof -
  have "startWorkerStep demoReply (demoWorker SwLaunched) demoCm1 = (SwStage2, demoCm1)"
    by (simp add: startWorkerStep_def demoWorker_def demoCm1_facts)
  moreover have "cm_starters demoCm1 = [] @ demoWorker SwLaunched # []" "workerReady (demoWorker SwLaunched) demoCm1"
    by (simp_all add: demoCm1_facts workerReady_def demoWorker_def)
  ultimately have "cm_step demoCm1 (demoCm1\<lparr>cm_starters := [] @ (demoWorker SwLaunched)\<lparr>sw_phase := SwStage2\<rparr> # []\<rparr>)"
    by (intro cm_worker)
  then have "cm_step demoCm1 demoCm2" by (simp add: demoCm2_def demoWorker_def)
  then show ?thesis by (rule cmReachable_step [OF demoCm1_reachable])
qed

lemma demoCm3_step: "cm_step demoCm2 demoCm3"
proof -
  have "cm_step demoCm2 ((profile_start_stage2 demoReply (demoWorker SwStage2) demoCm2)\<lparr>cm_starters := [] @ (demoWorker SwStage2)\<lparr>sw_phase := SwDone\<rparr> # []\<rparr>)"
    by (rule cm_worker [of _ _ _ _ demoReply]) (simp_all add: demoCm2_def workerReady_def demoWorker_def startWorkerStep_def)
  then show ?thesis by (simp add: demoCm3_def demoWorker_def)
qed

subsection \<open>Properties\<close>

text \<open>C3: every start request is answered exactly once. At any moment a serial number other than 0 has been
  answered by \<open>startFinished\<close> as often as it was asked for, except for the requests that wait at one of the
  places that keep one: for the kill switch, for the core, in a ranking, in a start worker or in a closure posted to
  the main thread. A request waits for the kill switch only while it is arming (or after it was shut down).\<close>

theorem start_told_once:
  assumes "cmReachable cm" "s \<noteq> 0"
  shows "count_list (cm_asked cm) s = count_list (map fst (cm_told cm)) s + count_list (map sr_serial (waitingRequests cm)) s
    \<and> (0 \<le> sr_profileId (cm_ksDeferred cm) \<and> \<not> ks_shutdown (cmKs cm) \<longrightarrow> ks_state (cmKs cm) = Arming)"
proof -
  have inv: "balanced cm" "slotInv cm" using cm_reachable_inv [OF assms(1)] by (simp_all add: cmInv_def)
  have "ks_state (cmKs cm) = Arming" if "startWaits (cmKs cm)" "\<not> ks_shutdown (cmKs cm)"
  proof -
    have "waitersOk (cmKs cm)" using inv(2) reachable_inv [of "cmKs cm"] that by (auto simp: slotInv_def ksInv_def ksWeak_def)
    then show ?thesis using that by (auto simp: startWaits_def waitersOk_def waiterStays_def list_ex_iff)
  qed
  then show ?thesis using inv assms(2) by (auto simp: balanced_def bal_def slotInv_def)
qed

theorem start_told_once_witness:
  "count_list (cm_asked demoCm3) 1 = count_list (map fst (cm_told demoCm3)) 1 + count_list (map sr_serial (waitingRequests demoCm3)) 1
   \<and> waitingRequests demoCm3 = [demoRequest]"
proof -
  have "waitingRequests demoCm3 = [demoRequest]"
    by (simp add: demoCm3_def profile_start_stage2_def stage2Outcome_def demoReply_def demoWorker_def Let_def demoBuild_def UpdateStartedId_def
        SetRunningProfiles_def setRunning_def applySystemProxy_def cmPost_def waitingRequests_def workerRequests_def demoCm2_def
        demoCm1_facts slotRequests_def noRequest_def)
  then show ?thesis using start_told_once [OF cmReachable_step [OF demoCm2_reachable demoCm3_step], of 1] by simp
qed

text \<open>C6: at most one start and one stop are under way, and profiles are never switched without a stop in between. Each
  lock is held exactly while a worker that needs it runs; when a start worker talks to the core no
  profile is recorded as running; no step replaces the running profile by another one; and a stop that
  holds its lock can go on, by itself or by the closure it has posted, so that nothing waits for it for ever.\<close>

theorem one_profile_at_a_time:
  assumes "cmReachable cm" "cm_step cm cm'"
  shows "length (filter (\<lambda>worker. sw_phase worker \<noteq> SwUnlocked) (cm_starters cm)) = (if cm_muStarting cm then 1 else 0)
    \<and> length (cm_stoppers cm) = (if cm_muStopping cm then 1 else 0)
    \<and> (\<forall>worker \<in> set (cm_starters cm). sw_phase worker = SwStage2 \<longrightarrow> cm_running cm = None)
    \<and> (cm_running cm' = cm_running cm \<or> cm_running cm = None \<or> cm_running cm' = None)
    \<and> (cm_muStopping cm \<longrightarrow> (\<exists>st. cm_stoppers cm = [st] \<and> (st_phase st = StRun \<or> UTeardown st \<in> set (cm_ui cm))))"
proof -
  have inv: "exclInv cm" using cm_reachable_inv [OF assms(1)] by (simp add: cmInv_def)
  note goes = stop_goes_on [OF inv]
  have "holdsStarting = (\<lambda>worker. sw_phase worker \<noteq> SwUnlocked)" by (simp add: fun_eq_iff holdsStarting_def)
  then show ?thesis using inv goes excl_step [OF assms(2) inv] by (simp add: exclInv_def locksOk_def list_all_iff workerOk_def)
qed

theorem one_profile_at_a_time_witness:
  "sw_phase (demoWorker SwStage2) = SwStage2 \<and> cm_starters demoCm2 = [demoWorker SwStage2] \<and> cm_running demoCm2 = None
   \<and> cm_muStarting demoCm2"
proof -
  have s: "cm_starters demoCm2 = [demoWorker SwStage2]" "sw_phase (demoWorker SwStage2) = SwStage2"
    by (simp_all add: demoCm2_def demoWorker_def)
  then show ?thesis using one_profile_at_a_time [OF demoCm2_reachable demoCm3_step] by (auto split: if_splits)
qed

lemma startBuilt_launch:
  assumes "cm_starters (startBuilt w r cm) \<noteq> cm_starters cm"
  shows "\<not> cm_muStarting cm \<and> \<not> cm_muStopping cm \<and> \<not> cs_probing (cm_sup cm) \<and> cs_coreRunning (cm_sup cm)
    \<and> br_error (wo_build w (sr_profileId r)) = []"
  using assms by (auto simp: startBuilt_def Let_def cmSetStartWhenUp_def split: if_splits)

lemma rankBeforeStart_frame [simp]:
  "cm_starters (fst (rankBeforeStart w r cm)) = cm_starters cm" "cm_muStarting (fst (rankBeforeStart w r cm)) = cm_muStarting cm"
  "cm_muStopping (fst (rankBeforeStart w r cm)) = cm_muStopping cm" "cm_sup (fst (rankBeforeStart w r cm)) = cm_sup cm"
  by (simp_all add: rankBeforeStart_def Let_def)

lemma startUsable_launch:
  assumes "cm_starters (startUsable w r cm) \<noteq> cm_starters cm"
  shows "allowsStart (cmKs cm) \<and> \<not> (ks_state (cmKs cm) = Armed \<and> runningWithoutGuardIdentity w cm) \<and> \<not> guardRestartPending cm
    \<and> \<not> cm_muStarting cm \<and> \<not> cm_muStopping cm \<and> \<not> cs_probing (cm_sup cm) \<and> cs_coreRunning (cm_sup cm)
    \<and> br_error (wo_build w (sr_profileId r)) = []"
proof -
  have "cm_starters (deferToKillSwitch r cm) = cm_starters cm" by (simp add: deferToKillSwitch_def Let_def)
  then have c: "ks_state (cmKs cm) \<noteq> Arming" "allowsStart (cmKs cm)"
    "\<not> (guardRestartPending cm \<or> (ks_state (cmKs cm) = Armed \<and> runningWithoutGuardIdentity w cm))"
    "cm_starters (startBuilt w r (fst (rankBeforeStart w r cm))) \<noteq> cm_starters (fst (rankBeforeStart w r cm))"
    using assms by (auto simp: startUsable_def case_prod_beta split: if_splits)
  then show ?thesis using startBuilt_launch [OF c(4)] by simp
qed

text \<open>C8: a profile is handed to the core only when everything allows it. Whenever \<open>start\<close> launches a worker, the
  program is not leaving, the profile exists, is enabled and in a usable group, its configuration was built, the core is running
  and its start was reported, no other start or stop holds a lock, and the kill switch is either off or armed with a
  ready, running guard in force and a core that carries the identity the guard lets through.\<close>

theorem launch_guarded:
  assumes "ksReachable (cmKs cm)" "\<not> ks_shutdown (cmKs cm)" "cm_starters (cmStart w r cm) \<noteq> cm_starters cm"
  shows "\<not> csPrepareExit (cm_sup cm) \<and> (\<exists>gid. GetProfile (sr_profileId r) cm = Some gid \<and> groupUsable gid cm)
    \<and> \<not> rp_disabled (cm_repo cm) (sr_profileId r) \<and> br_error (wo_build w (sr_profileId r)) = []
    \<and> cs_coreRunning (cm_sup cm) \<and> \<not> cs_probing (cm_sup cm) \<and> \<not> cm_muStarting cm \<and> \<not> cm_muStopping cm
    \<and> (ks_state (cmKs cm) = Disabled
       \<or> ks_state (cmKs cm) = Armed \<and> (cs_process (cm_sup cm) \<longrightarrow> wo_guardIdentity w)
         \<and> (\<exists>g gd. ks_active (cmKs cm) = Some g \<and> ks_guards (cmKs cm) g = Some gd \<and> g_ready gd \<and> g_running gd \<and> \<not> g_closing gd))"
proof -
  let ?c = "cm\<lparr>cm_geoToken := Suc (cm_geoToken cm), cm_lastProfileId := sr_profileId r,
    cm_dispatched := cm_dispatched cm @ [(sr_serial r, sr_profileId r)]\<rparr>"
  have launch: "\<not> csPrepareExit (cm_sup cm)" "\<exists>gid. GetProfile (sr_profileId r) cm = Some gid \<and> groupUsable gid cm"
    "\<not> rp_disabled (cm_repo cm) (sr_profileId r)" "cm_starters (startUsable w r ?c) \<noteq> cm_starters ?c"
    using assms(3) by (auto simp: cmStart_def Let_def GetProfile_def groupUsable_def split: if_splits option.splits)
  have inv: "ksInv (cmKs cm)" by (rule reachable_inv [OF assms(1)])
  have u: "allowsStart (cmKs cm)" "\<not> (ks_state (cmKs cm) = Armed \<and> runningWithoutGuardIdentity w cm)" "\<not> cm_muStarting cm"
    "\<not> cm_muStopping cm" "\<not> cs_probing (cm_sup cm)" "cs_coreRunning (cm_sup cm)" "br_error (wo_build w (sr_profileId r)) = []"
    using startUsable_launch [OF launch(4)] by (simp_all add: cmKs_def runningWithoutGuardIdentity_def)
  have "ks_state (cmKs cm) = Armed \<Longrightarrow> (cs_process (cm_sup cm) \<longrightarrow> wo_guardIdentity w)
      \<and> (\<exists>g gd. ks_active (cmKs cm) = Some g \<and> ks_guards (cmKs cm) g = Some gd \<and> g_ready gd \<and> g_running gd \<and> \<not> g_closing gd)"
    using inv assms(2) u(2,6) by (auto simp: ksInv_def ksWeak_def stateOkKs_def guardsOk_def forceGuard_def runningWithoutGuardIdentity_def)
  then show ?thesis using launch u by (auto simp: allowsStart_def)
qed

theorem launch_guarded_witness:
  "cm_starters (cmStart demoCmWorld demoRequest demoCm0) \<noteq> cm_starters demoCm0
   \<and> cs_coreRunning (cm_sup demoCm0) \<and> \<not> cm_muStarting demoCm0 \<and> \<not> rp_disabled (cm_repo demoCm0) 7"
proof -
  have "cmKs demoCm0 = ksCreate demoSettings0" by (simp add: cmKs_def demoCm0_def demoSup_def csCreate_def)
  then have r: "ksReachable (cmKs demoCm0)" by (auto simp: ks_init_def)
  have l: "cm_starters (cmStart demoCmWorld demoRequest demoCm0) \<noteq> cm_starters demoCm0"
    by (simp add: cmStart_def csPrepareExit_def GetProfile_def groupUsable_def startUsable_def cmKs_def allowsStart_def
        guardRestartPending_def rankBeforeStart_def startBuilt_def launchStart_def syncState_def Let_def demoCm_defs)
  have "\<not> ks_shutdown (cmKs demoCm0)" by (simp add: cmKs_def demoCm_defs)
  from launch_guarded [OF r this l] l show ?thesis by (simp add: demoRequest_def)
qed

subsubsection \<open>Tun at boot\<close>

text \<open>What restoring Tun without a restart leaves alone.\<close>

definition modeView :: "ConnMgr \<Rightarrow> (nat \<times> int \<times> StartOutcome) list \<times> StartWorker list \<times> Ranking list \<times> StartRequest \<times> nat \<times> RuntimeOptions" where
  "modeView cm = (cm_told cm, cm_starters cm, cm_rankings cm, cm_coreRequest cm, cm_bootSerial cm, cm_options cm)"

lemma modeView_tunBlocked [simp]: "modeView (fst (tunBlockedReason w cm)) = modeView cm"
  "cm_set (fst (tunBlockedReason w cm)) = cm_set cm" "cm_tunHeld (fst (tunBlockedReason w cm)) = cm_tunHeld cm"
  by (simp_all add: tunBlockedReason_def Let_def modeView_def)

lemma modeView_setTun: "\<not> mc_restart change \<Longrightarrow> modeView (fst (setTun w enable change cm)) = modeView cm"
proof -
  assume r: "\<not> mc_restart change"
  have s: "modeView (fst (switchTun w enable change c)) = modeView c" for c using r by (simp add: switchTun_def Let_def modeView_def)
  have "modeView (fst (tunAllowed w change c)) = modeView c" for c by (simp add: tunAllowed_def case_prod_beta)
  moreover have "modeView (dropTunHold enable change cm) = modeView cm" by (simp add: dropTunHold_def Let_def modeView_def)
  ultimately show ?thesis using s by (cases enable) (simp_all add: setTun_def Let_def case_prod_beta)
qed

lemma restoreModes_headless:
  assumes "ro_headless (cm_options cm)" "set_remember_tun (cm_set cm) \<or> set_flag_restart_tun_on (cm_set cm)"
  shows "modeView (restoreModes w cm) = modeView cm"
    "cm_tunHeld (restoreModes w cm) = (ro_tunRequired (cm_options cm) \<and> \<not> set_spmode_vpn (cm_set (restoreModes w cm)))"
proof -
  define c where "c = fst (setTun w True \<lparr>mc_save = False, mc_interactive = False, mc_restart = False, mc_restartSerial = 0\<rparr> cm)"
  have c: "modeView c = modeView cm" unfolding c_def by (rule modeView_setTun) simp
  then have o: "cm_options c = cm_options cm" by (simp add: modeView_def)
  define cm2 where "cm2 = c\<lparr>cm_set := (cm_set c)\<lparr>set_flag_restart_tun_on := False\<rparr>,
    cm_tunHeld := (ro_tunRequired (cm_options c) \<and> \<not> set_spmode_vpn (cm_set c))\<rparr>"
  have hold: "modeView (fst (tunRestoreHoldReason w x)) = modeView x" "cm_set (fst (tunRestoreHoldReason w x)) = cm_set x"
    "cm_tunHeld (fst (tunRestoreHoldReason w x)) = cm_tunHeld x" for x
    by (simp_all add: tunRestoreHoldReason_def case_prod_beta)
  have m: "restoreModes w cm = (if cm_tunHeld cm2 then fst (tunRestoreHoldReason w cm2) else cm2)"
    using assms by (simp add: restoreModes_def Let_def c_def [symmetric] cm2_def)
  have "modeView cm2 = modeView cm" using c by (simp add: cm2_def modeView_def)
  then show "modeView (restoreModes w cm) = modeView cm" using m hold by simp
  show "cm_tunHeld (restoreModes w cm) = (ro_tunRequired (cm_options cm) \<and> \<not> set_spmode_vpn (cm_set (restoreModes w cm)))"
    unfolding m using o hold by (simp add: cm2_def)
qed

text \<open>A kill switch that failed holds no start back, and applying it again does not arm it at once. So the retry for a core that was given its
  privileges leaves all of this alone too.\<close>

lemma failed_apply_not_armed: "ks_state ks = Failed \<Longrightarrow> ks_state (applyKs ks) \<noteq> Armed"
  by (simp add: applyKs_def applyOff_def applyOverridden_def spawn_def setState_def fail_def Let_def)

lemma failed_no_deferred:
  assumes "slotInv cm" "ks_state (cmKs cm) = Failed" "\<not> ks_shutdown (cmKs cm)"
  shows "sr_profileId (cm_ksDeferred cm) < 0"
proof -
  have "waitersOk (cmKs cm)" using assms(1,3) reachable_inv [of "cmKs cm"] by (auto simp: slotInv_def ksInv_def ksWeak_def)
  then have "\<not> startWaits (cmKs cm)" using assms(2) by (fastforce simp: startWaits_def waitersOk_def waiterStays_def list_ex_iff split: if_splits)
  then show ?thesis using assms(1,3) by (auto simp: slotInv_def)
qed

lemma settled_none:
  assumes "sr_profileId (cm_ksDeferred cm) < 0"
  shows "modeView (fold (\<lambda>call cm. if fst call = kStartWaiter then settledStart w cm else cm) calls cm) = modeView cm
    \<and> cm_set (fold (\<lambda>call cm. if fst call = kStartWaiter then settledStart w cm else cm) calls cm) = cm_set cm"
  using assms
proof (induction calls arbitrary: cm)
  case (Cons call calls)
  have "sr_profileId (cm_ksDeferred (settledStart w cm)) < 0" "modeView (settledStart w cm) = modeView cm" "cm_set (settledStart w cm) = cm_set cm"
    using Cons.prems by (simp_all add: settledStart_def Let_def noRequest_def modeView_def)
  then show ?case using Cons.IH Cons.prems by simp
qed simp

lemma failed_apply_view:
  assumes "slotInv cm" "ks_state (cmKs cm) = Failed"
  shows "modeView (killSwitchTo w (applyKs (cmKs cm)) cm) = modeView cm \<and> cm_set (killSwitchTo w (applyKs (cmKs cm)) cm) = cm_set cm"
proof (cases "ks_shutdown (cmKs cm)")
  case True
  then have "applyKs (cmKs cm) = cmKs cm" by (simp add: applyKs_def)
  then show ?thesis by (simp add: killSwitchTo_def Let_def modeView_def)
next
  case False
  define cm1 where "cm1 = cm\<lparr>cm_sup := (cm_sup cm)\<lparr>cs_ks := applyKs (cmKs cm)\<rparr>\<rparr>"
  have "ks_state (cmKs cm1) \<noteq> Armed" using failed_apply_not_armed [OF assms(2)] by (simp add: cm1_def cmKs_def)
  then have "onKillSwitchStateChanged w cm1 = cm1\<lparr>cm_ksWasFailed := ks_state (cmKs cm1) = Failed, cm_ksWasArmed := False\<rparr>"
    by (simp add: onKillSwitchStateChanged_def Let_def)
  moreover define cm2 where "cm2 = (if ks_state (applyKs (cmKs cm)) \<noteq> ks_state (cmKs cm) then onKillSwitchStateChanged w cm1 else cm1)"
  ultimately have "cm_ksDeferred cm2 = cm_ksDeferred cm" "modeView cm2 = modeView cm" "cm_set cm2 = cm_set cm"
    by (simp_all add: cm1_def modeView_def)
  then show ?thesis unfolding killSwitchTo_def Let_def cm1_def [symmetric] cm2_def [symmetric]
    using settled_none [of cm2] failed_no_deferred [OF assms False] by simp
qed

text \<open>C27: a boot that needs Tun never runs its profile without it. When the core has started in the headless
  build, whatever the state of the kill switch (one that failed for lack of privileges is applied again first), a remembered Tun is
  restored first; if that fails where Tun is required, the boot request is answered
  with \<open>TunFailed\<close>, nothing is started or ranked, and the hold stays until Tun is turned off or comes up.\<close>

theorem boot_waits_for_tun:
  assumes "cmReachable cm"
    and "ro_headless (cm_options cm)" "ro_tunRequired (cm_options cm)" "set_remember_tun (cm_set cm) \<or> set_flag_restart_tun_on (cm_set cm)"
    and "cm_coreRequest cm = r" "0 \<le> sr_profileId r" "sr_serial r \<noteq> 0" "cm_bootSerial cm = sr_serial r"
  shows "set_spmode_vpn (cm_set (onCoreStarted w (sr_profileId r) cm))
    \<or> cm_told (onCoreStarted w (sr_profileId r) cm) = cm_told cm @ [(sr_serial r, sr_profileId r, TunFailed)]
      \<and> cm_starters (onCoreStarted w (sr_profileId r) cm) = cm_starters cm
      \<and> cm_rankings (onCoreStarted w (sr_profileId r) cm) = cm_rankings cm \<and> cm_tunHeld (onCoreStarted w (sr_profileId r) cm)"
proof -
  define cm1 where "cm1 = cm\<lparr>cm_guardRestart := None\<rparr>"
  define cm2 where "cm2 = (if failedForPrivileges (cmKs cm1) then killSwitchTo w (applyKs (cmKs cm1)) cm1 else cm1)"
  define c where "c = restoreModes w cm2"
  have "slotInv cm" using cm_reachable_inv [OF assms(1)] by (simp add: cmInv_def)
  then have "slotInv cm1" by (simp add: cm1_def slotInv_def cmKs_def)
  then have "modeView cm2 = modeView cm1 \<and> cm_set cm2 = cm_set cm1"
    using failed_apply_view [of cm1 w] by (simp add: cm2_def failedForPrivileges_def)
  then have cm2: "modeView cm2 = modeView cm" "cm_set cm2 = cm_set cm" by (simp_all add: cm1_def modeView_def)
  have f: "ro_headless (cm_options cm2)" "set_remember_tun (cm_set cm2) \<or> set_flag_restart_tun_on (cm_set cm2)" "ro_tunRequired (cm_options cm2)"
    using assms(2-4) cm2 by (simp_all add: modeView_def)
  have v: "modeView c = modeView cm" "cm_tunHeld c = (\<not> set_spmode_vpn (cm_set c))"
    using restoreModes_headless [OF f(1,2), of w] cm2 f(3) by (simp_all add: c_def)
  have started: "onCoreStarted w (sr_profileId r) cm = coreStartedStart w (sr_profileId r) c"
    unfolding onCoreStarted_def Let_def c_def cm2_def cm1_def by (rule refl)
  show ?thesis
  proof (cases "set_spmode_vpn (cm_set c)")
    case True
    then show ?thesis using v assms(5-8) by (simp add: started coreStartedStart_def Let_def modeView_def)
  next
    case False
    then show ?thesis using v assms(5-8) by (simp add: started coreStartedStart_def Let_def modeView_def startFinished_def)
  qed
qed

definition demoBoot :: ConnMgr where
  "demoBoot = setBootStart demoRequest (demoCm0\<lparr>cm_set := demoCmSettings\<lparr>set_remember_tun := True\<rparr>, cm_asked := [1]\<rparr>)"

lemma demoBoot_reachable: "cmReachable demoBoot"
proof -
  define b where "b = demoCm0\<lparr>cm_set := demoCmSettings\<lparr>set_remember_tun := True\<rparr>\<rparr>"
  have "cmReachable b" unfolding b_def by (rule cmReachable_step [OF demoCm0_reachable cm_settings])
  moreover have "0 \<le> sr_profileId demoRequest" by (simp add: demoRequest_def)
  ultimately have "cmReachable (setBootStart demoRequest (b\<lparr>cm_asked := cm_asked b @ [sr_serial demoRequest]\<rparr>))"
    using cmReachable_step cm_boot by blast
  moreover have "demoBoot = setBootStart demoRequest (b\<lparr>cm_asked := cm_asked b @ [sr_serial demoRequest]\<rparr>)"
    by (simp add: demoBoot_def b_def demoCm_defs)
  ultimately show ?thesis by (simp only:)
qed

theorem boot_waits_for_tun_witness:
  "cm_told (onCoreStarted demoCmWorld 7 demoBoot) = [(1, 7, TunFailed)]"
proof -
  have h: "ro_headless (cm_options demoBoot)" "ro_tunRequired (cm_options demoBoot)"
    "set_remember_tun (cm_set demoBoot) \<or> set_flag_restart_tun_on (cm_set demoBoot)" "cm_coreRequest demoBoot = demoRequest"
    "0 \<le> sr_profileId demoRequest" "sr_serial demoRequest \<noteq> 0" "cm_bootSerial demoBoot = sr_serial demoRequest"
    and h2: "\<not> failedForPrivileges (cmKs demoBoot)" "cm_told demoBoot = []"
    by (simp_all add: demoBoot_def setBootStart_def deferStartToCore_def demoCm_defs cmKs_def failedForPrivileges_def)
  have priv: "\<not> tunPrivileged demoCmWorld c" "\<not> set_disable_privilege_req (cm_set c) \<Longrightarrow> \<not> ensureTunPrivileges demoCmWorld False c" for c
    by (simp_all add: tunPrivileged_def ensureTunPrivileges_def demoCmWorld_def)
  have tun: "cm_set (fst (setTun demoCmWorld True \<lparr>mc_save = False, mc_interactive = False, mc_restart = False, mc_restartSerial = 0\<rparr> c)) = cm_set c"
    if "\<not> set_spmode_vpn (cm_set c)" "\<not> set_disable_privilege_req (cm_set c)" for c
    using that by (simp add: setTun_def dropTunHold_def tunAllowed_def case_prod_beta priv)
  have hold: "cm_set (fst (tunRestoreHoldReason w c)) = cm_set c" for w c by (simp add: tunRestoreHoldReason_def case_prod_beta)
  define b where "b = demoBoot\<lparr>cm_guardRestart := None\<rparr>"
  have b: "\<not> set_spmode_vpn (cm_set b)" "\<not> set_disable_privilege_req (cm_set b)" "ro_headless (cm_options b)"
    by (simp_all add: b_def demoBoot_def setBootStart_def deferStartToCore_def demoCm_defs)
  have "\<not> set_spmode_vpn (cm_set (restoreModes demoCmWorld b))"
    using b by (simp add: restoreModes_def Let_def hold tun)
  moreover have "onCoreStarted demoCmWorld 7 demoBoot = coreStartedStart demoCmWorld 7 (restoreModes demoCmWorld b)"
    using h2(1) by (simp add: onCoreStarted_def Let_def b_def cmKs_def)
  moreover have "cm_set (coreStartedStart w p c) = cm_set c" for w p c by (simp add: coreStartedStart_def Let_def)
  ultimately have "\<not> set_spmode_vpn (cm_set (onCoreStarted demoCmWorld 7 demoBoot))" by simp
  then show ?thesis using boot_waits_for_tun [OF demoBoot_reachable h, of demoCmWorld] h2(2) by (simp add: demoRequest_def)
qed

end
