(* ===== verification/Spec2Isabelle.thy ===== *)
theory Spec2Isabelle
  imports Ip_List_Text Kill_Switch_Safety Core_Supervisor Exit_Controller Resume_Guard Validation_Ip Validation_Keys Validation_Regex
    Profile_Metrics Auto_Selector Series_Buffer Subscription_Reconcile Log_Buffer Otp
    Group_Order Update_Queue Connection_Safety
begin

text \<open>
  A verification library for the C++ part of this repository, a proxy client on Qt. The client runs a proxy core as a child process, keeps profiles
  in a database, fetches them from subscriptions, measures them and selects among them, and offers a window, a headless mode and a remote
  interface. The development models the parts that decide something on their own; what they ask of Qt, the operating system, the
  core or the database is an argument, an event of the environment or a recorded action.

  \<^bold>\<open>Safety of the running client.\<close>
  \<^item> \<open>Kill_Switch\<close>, \<open>Kill_Switch_Safety\<close>: \<^verbatim>\<open>src/src/sys/KillSwitch.cpp\<close> (\<open>apply\<close>, \<open>spawn\<close>, \<open>handleLine\<close>, \<open>onReady\<close>, \<open>onFinished\<close>, the timers,
    the waiters) as state transformers on the record \<open>KillSwitch\<close>, with the guard processes as a store, and the event loop \<open>ks_step\<close>. The
    invariant \<open>ksInv\<close> gives, until the shutdown: profiles start only with the switch off or under a ready guard (one exception, after a failed adoption of the guard
    group, is shown), a guard in force is replaced without a gap, no guard leaks, arming ends, \<open>apply\<close> is idempotent.
  \<^item> \<open>Core_Supervisor\<close>: \<^verbatim>\<open>src/src/engine/supervisor/CoreSupervisor.cpp\<close>, whose state holds the kill switch. Generations of the core, restart delays,
    giving up, the connect timeout, the tasks posted to the core thread and the reader of the core's error output; event loop \<open>cs_step\<close>. A supervisor that is
    shutting down queues no start, and a start queued before has the kill task behind it.
  \<^item> \<open>Exit_Controller\<close>: \<^verbatim>\<open>src/src/engine/app/ExitController.cpp\<close>, whose state holds the supervisor. During the waits of a teardown, and after it, any event may
    reach the whole controller (\<open>ec_step\<close>). The property below spans the three: a teardown happens once, in order, and is final.
  \<^item> \<open>Connection_Manager\<close>, \<open>Connection_Safety\<close>: \<^verbatim>\<open>src/src/engine/connection/ConnectionManager.cpp\<close> and \<^verbatim>\<open>ConnectionModes.cpp\<close>, with the ranking before a start from
    \<^verbatim>\<open>src/src/engine/autoselector/AutoSelectorController.cpp\<close> and \<^verbatim>\<open>src/src/global/RunningProfiles.cpp\<close>. The state holds the supervisor and the kill switch; start and stop workers, their
    locks and the closures they post are explicit, and \<open>cm_step\<close> interleaves them. The locale \<open>manager_frame\<close> gives a relation for every handler once it holds for the single
    calls; it is interpreted on the accounting of requests (each is answered exactly once), on the invariant of the locks (one start and one stop at a
    time, never two profiles) and on the start that waits for the kill switch. A worker is launched only when the kill switch allows it, and a boot that needs Tun does not run without it.
  \<^item> \<open>Resume_Guard\<close>: \<^verbatim>\<open>src/src/engine/headless/ResumeGuard.cpp\<close>; a profile that crashes its boots is resumed at most three times in a row.

  \<^bold>\<open>Profiles.\<close>
  \<^item> \<open>Subscription_Reconcile\<close>: \<^verbatim>\<open>src/src/configs/sub/SubscriptionReconcile.cpp\<close> and the import sink of \<^verbatim>\<open>src/src/configs/sub/GroupUpdater.cpp\<close>; a refresh
    neither loses nor duplicates a row, every update pairs an old row that stays with an inserted one that goes, and identical arrivals reuse old rows.
  \<^item> \<open>Auto_Selector_Config\<close>, \<open>Auto_Selector\<close>: \<^verbatim>\<open>src/include/configs/outbounds/autoselector.h\<close>, \<^verbatim>\<open>src/src/configs/AutoSelectorPlan.cpp\<close>; bounds of the settings,
    JSON round trip, the history as an LRU list, and which members a plan selects, in which order.
  \<^item> \<open>Stable_Sort\<close>, \<open>Profile_Metrics\<close>: \<^verbatim>\<open>src/src/database/entities/ProfileMetrics.cpp\<close>; the locale \<open>strict_weak_order\<close> is what \<open>std::stable_sort\<close> asks of a
    comparator, interpreted on every comparator of the program.

  \<^item> \<open>Group_Order\<close>: \<^verbatim>\<open>src/src/database/entities/Group.cpp\<close> and the sort queue of \<^verbatim>\<open>src/src/database/GroupsRepo.cpp\<close>; the order of a group's profiles, sorting while other threads
    change the group, and the worker thread that serves sort requests.
  \<^item> \<open>Group_Subscription\<close>, \<open>Update_Queue\<close>: what a group keeps about its subscription, and the job queue of \<^verbatim>\<open>src/src/configs/sub/GroupUpdater.cpp\<close>: one worker, one
    refresh per group at a time, every waiting caller told once, automatic updates paced, safe device headers.

  \<^bold>\<open>Input.\<close>
  \<^item> \<open>Ip_List_Addr\<close>, \<open>Ip_List_Cover\<close>, \<open>Ip_List_Text\<close>: \<^verbatim>\<open>src/src/scanner/IpListParse.cpp\<close> on 64-bit words; printing and reading back, the cover of a range by
    blocks, the shape of every entry read.
  \<^item> \<open>Validation_Base\<close>, \<open>Validation_Ip\<close>, \<open>Validation_Units\<close>, \<open>Validation_Keys\<close>, \<open>Validation_Regex\<close>: \<^verbatim>\<open>src/src/global/Validation.cpp\<close>. The contract of a check is the locale
    \<open>field_rule\<close>, interpreted on each check; literals, durations, sizes, keys and the repeat check are shown equal to grammars or round trips.

  \<^bold>\<open>One-time passwords.\<close>
  \<^item> \<open>Otp_Codec\<close>, \<open>Otp\<close>: \<^verbatim>\<open>src/src/global/OTP.cpp\<close>. Base32 and the protobuf wire format, codes from a MAC (the hash functions are parameters), the links,
    the JSON export and the migration payload with their readers, and the paste box that accepts all three.
  \<^item> \<open>Json_Values\<close>: \<open>QJsonValue\<close> with finite numbers as rationals, shared with \<open>Auto_Selector_Config\<close>.

  \<^bold>\<open>Buffers.\<close>
  \<^item> \<open>Series_Buffer\<close>: \<^verbatim>\<open>src/src/ui/widget/SeriesBuffer.cpp\<close>, refines a list of points.
  \<^item> \<open>Log_Buffer\<close>: \<^verbatim>\<open>src/src/global/LogBuffer.cpp\<close>, limits of the ring and completeness of paged reading.

  \<^bold>\<open>Conventions.\<close> \<open>Wd_Prelude\<close> holds strings (lists of UTF-16 units), the Qt string operations and the locale \<open>transition_system\<close>, which every
  state machine interprets with its own step relation and invariant. An object is a record, a pointer to a shared object an address into a
  store, a timer a flag or its delay, a posted task an element of a queue, a raise or early return a branch. Timestamps and counters that are
  64 bits wide and only grow are unbounded; where the width matters (addresses, durations, sizes, address counts) it is kept.

  \<^bold>\<open>Loops.\<close> No fuel is used in a definition: a loop is structural, has a termination proof (the binary search of the series buffer, both passes over a
  regular expression, varints and the fields of a migration payload, the scan of the user-info header), or is a \<open>partial_function\<close> with a theorem that it returns (the range cover). The fuel of \<open>readPages\<close> in
  \<open>Log_Buffer\<close> counts the requests of a client; the theorem states how many are enough.

  \<^bold>\<open>Not modelled.\<close> The window and its dialogs, the platform code and the remote interface, which are input and output; the generator of core
  configurations, the outbound types and the formats of subscriptions, whose contract is third-party software; the repositories, which are
  statements of a database; the test runner, which is calls of the core; log output and translated
  texts. The Go core is another program. Of the modelled files, the Windows and macOS branches of the kill switch, the supervisor and the connection manager are left
  out, and so are \<open>ParseSpeedMbps\<close> (a regular expression of Qt) and what a refresh downloads and what it
  does with the database after its plan, which is the result of a job of the queue.
\<close>

subsection \<open>Exit: the controller, the supervisor and the kill switch together\<close>


text \<open>A shutdown while the first start of the core is still queued: that task runs during the wait for the kill.\<close>

definition demoPump :: "Wait \<Rightarrow> ExitController \<Rightarrow> ExitController" where
  "demoPump w ec = (if w = KillWait then inCore runTasks ec else ec)"

definition demoExit :: ExitController where
  "demoExit = \<lparr>m_exitInProgress = False, m_exitQueued = False, m_shutdownOptions = Headless,
     ec_settings = \<lparr>remember_enable = True, started_id = 4, remember_id = 0, spmode_system_proxy = False, spmode_vpn = True,
       remember_system_proxy = True, remember_tun = False, noSave = False\<rparr>,
     ec_core = demoCore1, ec_queue = [], ec_actions = []\<rparr>"

lemma demoExit_ok: "csReachable (ec_core demoExit)" "\<not> preparing demoExit" "loops demoPump"
proof -
  show "csReachable (ec_core demoExit)" using demoCore1_reachable by (simp add: demoExit_def)
  show "\<not> preparing demoExit" by (simp add: demoExit_def preparing_def csPrepareExit_def demoCore_defs ksCreate_def)
  have "ec_waited (length (cs_posts (ec_core ec))) ec (inCore runTasks ec)" for ec by (rule runTasks_waited [OF refl])
  moreover have "ec_step\<^sup>*\<^sup>* ec (inCore runTasks ec)" for ec by (rule waited_steps [OF runTasks_waited [OF refl]])
  ultimately show "loops demoPump" by (simp add: loops_def demoPump_def)
qed


end
